(* ===== verification/Prelude.thy ===== *)
theory Prelude
  imports Main "HOL-Library.Word" "HOL-Library.Multiset"
begin

text \<open>
  Shared by every component: the machine types of the program, the model of a C array that
  is searched for the first slot with a property, lemmas on counting in and updating such an
  array, on loops over its indexes, and the interface of a component that handles events.
\<close>

section \<open>Machine types\<close>

type_synonym u8 = "8 word"
type_synonym u16 = "16 word"
type_synonym u32 = "32 word"

text \<open>
  The value a C++ \<open>int\<close> holds after a wider signed value is converted to it: two's
  complement truncation to 32 bits.
\<close>

definition trunc_int32 :: "int \<Rightarrow> int" where
  "trunc_int32 x = (x + 2147483648) mod 4294967296 - 2147483648"

lemma trunc_int32_id: "- 2147483648 \<le> x \<Longrightarrow> x < 2147483648 \<Longrightarrow> trunc_int32 x = x"
  by (simp add: trunc_int32_def)

lemma trunc_int32_range: "- 2147483648 \<le> trunc_int32 x \<and> trunc_int32 x < 2147483648"
  using pos_mod_bound [of 4294967296 "x + 2147483648"]
    pos_mod_sign [of 4294967296 "x + 2147483648"]
  by (simp add: trunc_int32_def)

text \<open>\<open>htonl\<close> and \<open>ntohl\<close>, \<open>htons\<close> and \<open>ntohs\<close> of a little-endian machine.\<close>

unbundle bit_operations_syntax

definition htonl :: "u32 \<Rightarrow> u32" where
  "htonl x =
     push_bit 24 (x AND 0xFF) OR push_bit 8 (x AND 0xFF00) OR
     (drop_bit 8 x AND 0xFF00) OR drop_bit 24 x"

definition htons :: "u16 \<Rightarrow> u16" where
  "htons x = push_bit 8 x OR drop_bit 8 x"

lemma htonl_htonl [simp]: "htonl (htonl x) = x"
proof -
  have m: "(0xFF :: u32) = mask 8" "(0xFF00 :: u32) = push_bit 8 (mask 8)" by (simp_all add: mask_eq_exp_minus_1)
  have b: "bit (htonl x) n \<longleftrightarrow> n < 32 \<and>
      (if n < 8 then bit x (n + 24) else if n < 16 then bit x (n + 8) else if n < 24 then bit x (n - 8) else bit x (n - 24))" for x n
    unfolding htonl_def m by (auto simp: bit_simps add.commute dest: bit_imp_le_length)
  show ?thesis by (rule bit_word_eqI) (auto simp: b)
qed

lemma htons_htons [simp]: "htons (htons x) = x"
  unfolding htons_def by (rule bit_word_eqI) (auto simp: bit_simps dest: bit_imp_le_length)

section \<open>Searching an array\<close>

text \<open>
  The loop \<open>for (cnt = 0; cnt < max; cnt++) if (p a[cnt]) break;\<close> as the index at which it
  stops: the first index with \<open>p\<close>, or the length when there is none.
\<close>

fun first_index :: "('a \<Rightarrow> bool) \<Rightarrow> 'a list \<Rightarrow> nat" where
  "first_index p [] = 0"
| "first_index p (x # xs) = (if p x then 0 else Suc (first_index p xs))"

lemma first_index_le [simp]: "first_index p xs \<le> length xs"
  by (induction xs) auto

lemma first_index_less: "first_index p xs < length xs \<longleftrightarrow> (\<exists>x \<in> set xs. p x)"
  by (induction xs) auto

lemma first_index_eq_length: "first_index p xs = length xs \<longleftrightarrow> (\<forall>x \<in> set xs. \<not> p x)"
  by (induction xs) auto

lemma first_index_holds: "first_index p xs < length xs \<Longrightarrow> p (xs ! first_index p xs)"
  by (induction xs) auto

lemma first_index_before: "j < first_index p xs \<Longrightarrow> \<not> p (xs ! j)"
proof (induction xs arbitrary: j)
  case (Cons x xs)
  then show ?case by (cases j) (auto split: if_splits)
qed simp

lemma find_Some: "find p xs = Some x \<Longrightarrow> x \<in> set xs \<and> p x"
  by (induction xs) (auto split: if_splits)

lemma find_None: "find p xs = None \<longleftrightarrow> \<not> (\<exists>x \<in> set xs. p x)"
  by (induction xs) auto

lemma map_eqI: "(\<And>t v. m t = Some v \<longleftrightarrow> m' t = Some v) \<Longrightarrow> m = m'"
  by (rule ext) (metis not_Some_eq)

section \<open>Counting and updating\<close>

definition count_if :: "('a \<Rightarrow> bool) \<Rightarrow> 'a list \<Rightarrow> nat" where
  "count_if p xs = length (filter p xs)"

lemma count_if_simps [simp]:
  "count_if p [] = 0"
  "count_if p (x # xs) = (if p x then Suc (count_if p xs) else count_if p xs)"
  by (simp_all add: count_if_def)

lemma count_if_append [simp]: "count_if p (xs @ ys) = count_if p xs + count_if p ys"
  by (simp add: count_if_def)

lemma count_if_update:
  "i < length xs \<Longrightarrow>
   count_if p (xs[i := y]) + (if p (xs ! i) then 1 else 0) =
   count_if p xs + (if p y then 1 else 0)"
proof (induction xs arbitrary: i)
  case (Cons x xs)
  show ?case
  proof (cases i)
    case 0
    then show ?thesis by simp
  next
    case (Suc j)
    with Cons.prems have "j < length xs" by simp
    from Cons.IH [OF this] Suc show ?thesis by auto
  qed
qed simp

lemma count_if_le_length: "count_if p xs \<le> length xs"
  by (simp add: count_if_def)

lemma count_if_pos: "count_if p xs > 0 \<longleftrightarrow> (\<exists>x \<in> set xs. p x)"
  by (induction xs) auto

lemma set_update_subset: "set (xs[i := y]) \<subseteq> insert y (set xs)"
  by (rule set_update_subset_insert)

lemma int_size_remove1: "x \<in># M \<Longrightarrow> int (size (M - {#x#})) = int (size M) - 1"
proof -
  assume "x \<in># M"
  then obtain N where "M = add_mset x N" by (auto dest: multi_member_split)
  then show ?thesis by simp
qed

lemma distinct_map_filter_nth:
  "distinct (map f (filter p xs)) \<longleftrightarrow>
   (\<forall>i < length xs. \<forall>j < length xs. p (xs ! i) \<longrightarrow> p (xs ! j) \<longrightarrow> f (xs ! i) = f (xs ! j) \<longrightarrow> i = j)"
proof (induction xs)
  case (Cons x xs)
  have "f x \<notin> f ` set (filter p xs) \<longleftrightarrow> (\<forall>j < length xs. p (xs ! j) \<longrightarrow> f x \<noteq> f (xs ! j))"
    by (auto simp: in_set_conv_nth image_iff)
  with Cons.IH show ?case by (auto simp: All_less_Suc2 )
qed simp

text \<open>A loop over the indexes below \<open>k\<close>, with what holds before each iteration.\<close>

lemma fold_upt_inv:
  assumes "P 0 s" and "\<And>i s. i < k \<Longrightarrow> P i s \<Longrightarrow> P (Suc i) (f i s)"
  shows "P k (fold f [0..<k] s)"
  using assms by (induction k) auto

lemma fold_inv:
  assumes "P s" and "\<And>i s. i \<in> set is \<Longrightarrow> P s \<Longrightarrow> P (f i s)"
  shows "P (fold f is s)"
  using assms by (induction "is" arbitrary: s) auto

section \<open>Draining a store\<close>

text \<open>
  Take elements out of a store, one by one, at most \<open>n\<close> of them; a \<open>pop\<close> that returns a
  pointer with the store is such a way of taking one element.
\<close>

definition take_via :: "('h \<Rightarrow> 'a option \<times> 'h) \<Rightarrow> 'h \<Rightarrow> ('a \<times> 'h) option" where
  "take_via pop h = (case pop h of (None, _) \<Rightarrow> None | (Some x, h') \<Rightarrow> Some (x, h'))"

fun drain :: "('h \<Rightarrow> ('a \<times> 'h) option) \<Rightarrow> nat \<Rightarrow> 'h \<Rightarrow> 'a list" where
  "drain take_one 0 h = []"
| "drain take_one (Suc n) h =
     (case take_one h of None \<Rightarrow> [] | Some (x, h') \<Rightarrow> x # drain take_one n h')"

section \<open>Event-driven components\<close>

text \<open>
  A component that handles one event at a time, with what it keeps between events: proved once,
  what every handler keeps holds after any sequence of events. Each component states its own
  invariant and shows that its handlers keep it.
\<close>

locale event_machine =
  fixes handle :: "'e \<Rightarrow> 's \<Rightarrow> 's" and inv :: "'s \<Rightarrow> bool" and allowed :: "'e \<Rightarrow> bool"
  assumes handle_inv: "inv s \<Longrightarrow> allowed e \<Longrightarrow> inv (handle e s)"
begin

lemma run_inv: "inv s \<Longrightarrow> list_all allowed es \<Longrightarrow> inv (fold handle es s)"
  by (induction es arbitrary: s) (auto intro: handle_inv)

end

end
