(* ===== verification/LocHeap.thy ===== *)
theory LocHeap
  imports Prelude
begin

text \<open>
  The rank heap of \<open>gps/utils/LocHeap.cpp\<close>: a binary tree whose nodes carry the size of
  their subtree and a pointer to a client object that can be compared by rank. The pointers
  are the values of the type variable, so the address comparison of \<open>remove\<close> is equality;
  the virtual method \<open>outRanks\<close> of the client class is the parameter \<open>outRanks\<close> (interface
  \<open>rankable\<close> below). Dereferencing a null node is \<open>None\<close>.
\<close>

section \<open>Nodes\<close>

datatype 'a loc_heap_node =
    is_null: Null
  | HeapNode (mSize: int) (mLeft: "'a loc_heap_node") (mRight: "'a loc_heap_node") (mData: 'a)

text \<open>The constructor: a node of size 1 without subtrees.\<close>

definition new_node :: "'a \<Rightarrow> 'a loc_heap_node" where
  "new_node x = HeapNode 1 Null Null x"

text \<open>
  \<open>swap\<close> exchanges the data of two nodes and nothing else. Where one of the two is the node
  a loop holds, what is left to do on the other is to set its data.
\<close>

fun set_data :: "'a \<Rightarrow> 'a loc_heap_node \<Rightarrow> 'a loc_heap_node" where
  "set_data x Null = Null"
| "set_data x (HeapNode n l r d) = HeapNode n l r x"

lemma size_set_data [simp]: "size (set_data x t) = size t"
  by (cases t) auto

lemma is_null_set_data [simp]: "is_null (set_data x t) = is_null t"
  by (cases t) auto

fun push_node :: "('a \<Rightarrow> 'a \<Rightarrow> bool) \<Rightarrow> 'a loc_heap_node \<Rightarrow> 'a \<Rightarrow> 'a loc_heap_node" where
  "push_node outRanks Null x = new_node x"
| "push_node outRanks (HeapNode n l r d) x =
     (let hi = (if outRanks x d then x else d);
          lo = (if outRanks x d then d else x)
      in if is_null l then HeapNode (n + 1) (new_node lo) r hi
         else if is_null r then HeapNode (n + 1) l (new_node lo) hi
         else if mSize l \<le> mSize r then HeapNode (n + 1) (push_node outRanks l lo) r hi
         else HeapNode (n + 1) l (push_node outRanks r lo) hi)"

text \<open>
  \<open>pop\<close> returns the data of the node that leaves the tree, and the tree. The child that
  ranks higher hands its data up and receives the data on its way out.
\<close>

fun pop_node :: "('a \<Rightarrow> 'a \<Rightarrow> bool) \<Rightarrow> 'a loc_heap_node \<Rightarrow> ('a \<times> 'a loc_heap_node) option" where
  "pop_node outRanks Null = None"
| "pop_node outRanks (HeapNode n l r d) =
     (if \<not> is_null l \<or> \<not> is_null r then
        (if is_null l \<or> (\<not> is_null r \<and> \<not> outRanks (mData l) (mData r)) then
           map_option (\<lambda>(x, r'). (x, HeapNode (n - 1) l r' (mData r)))
             (pop_node outRanks (set_data d r))
         else
           map_option (\<lambda>(x, l'). (x, HeapNode (n - 1) l' r (mData l)))
             (pop_node outRanks (set_data d l)))
      else Some (d, Null))"

fun remove_node ::
  "('a \<Rightarrow> 'a \<Rightarrow> bool) \<Rightarrow> 'a loc_heap_node \<Rightarrow> 'a \<Rightarrow> ('a \<times> 'a loc_heap_node) option" where
  "remove_node outRanks Null x = None"
| "remove_node outRanks (HeapNode n l r d) x =
     (if x = d then pop_node outRanks (HeapNode n l r d)
      else if \<not> outRanks x d then
        (case remove_node outRanks l x of
           Some (y, l') \<Rightarrow> Some (y, HeapNode (n - 1) l' r d)
         | None \<Rightarrow>
             (case remove_node outRanks r x of
                Some (y, r') \<Rightarrow> Some (y, HeapNode (n - 1) l r' d)
              | None \<Rightarrow> None))
      else None)"

fun checkNodes :: "('a \<Rightarrow> 'a \<Rightarrow> bool) \<Rightarrow> 'a loc_heap_node \<Rightarrow> bool" where
  "checkNodes outRanks Null = True"
| "checkNodes outRanks (HeapNode n l r d) =
     ((is_null l \<or> (\<not> outRanks (mData l) d \<and> checkNodes outRanks l)) \<and>
      (is_null r \<or> (\<not> outRanks (mData r) d \<and> checkNodes outRanks r)) \<and>
      n - (if is_null l then 0 else mSize l) - (if is_null r then 0 else mSize r) = 1)"

section \<open>The heap\<close>

definition heap_push :: "('a \<Rightarrow> 'a \<Rightarrow> bool) \<Rightarrow> 'a loc_heap_node \<Rightarrow> 'a \<Rightarrow> 'a loc_heap_node" where
  "heap_push outRanks mTree x =
     (if is_null mTree then new_node x else push_node outRanks mTree x)"

definition heap_peek :: "'a loc_heap_node \<Rightarrow> 'a option" where
  "heap_peek mTree = (if is_null mTree then None else Some (mData mTree))"

definition heap_pop ::
  "('a \<Rightarrow> 'a \<Rightarrow> bool) \<Rightarrow> 'a loc_heap_node \<Rightarrow> 'a option \<times> 'a loc_heap_node" where
  "heap_pop outRanks mTree =
     (if is_null mTree then (None, mTree)
      else case pop_node outRanks mTree of
             None \<Rightarrow> (None, mTree)
           | Some (x, t) \<Rightarrow> (Some x, t))"

definition heap_remove ::
  "('a \<Rightarrow> 'a \<Rightarrow> bool) \<Rightarrow> 'a loc_heap_node \<Rightarrow> 'a \<Rightarrow> 'a option \<times> 'a loc_heap_node" where
  "heap_remove outRanks mTree x =
     (if is_null mTree then (None, mTree)
      else case remove_node outRanks mTree x of
             None \<Rightarrow> (None, mTree)
           | Some (y, t) \<Rightarrow> (Some y, t))"

definition checkTree :: "('a \<Rightarrow> 'a \<Rightarrow> bool) \<Rightarrow> 'a loc_heap_node \<Rightarrow> bool" where
  "checkTree outRanks mTree \<longleftrightarrow> is_null mTree \<or> checkNodes outRanks mTree"

definition getTreeSize :: "'a loc_heap_node \<Rightarrow> int" where
  "getTreeSize mTree = (if is_null mTree then 0 else mSize mTree)"

text \<open>The client objects a tree holds: the abstraction the heap is specified by.\<close>

fun elems :: "'a loc_heap_node \<Rightarrow> 'a multiset" where
  "elems Null = {#}"
| "elems (HeapNode n l r d) = add_mset d (elems l + elems r)"


section \<open>The interfaces\<close>

text \<open>
  What \<open>LocRankable\<close> asks of its implementers, on the objects in use: ranking is a strict
  weak order.
\<close>

locale rankable =
  fixes outRanks :: "'a \<Rightarrow> 'a \<Rightarrow> bool" and A :: "'a set"
  assumes rank_asym: "x \<in> A \<Longrightarrow> y \<in> A \<Longrightarrow> outRanks x y \<Longrightarrow> \<not> outRanks y x"
    and rank_negtrans:
      "x \<in> A \<Longrightarrow> y \<in> A \<Longrightarrow> z \<in> A \<Longrightarrow> \<not> outRanks x y \<Longrightarrow> \<not> outRanks y z \<Longrightarrow> \<not> outRanks x z"

text \<open>
  What \<open>LocHeap\<close> promises to the containers built on it, over an abstract content.
\<close>

locale rank_queue = rankable outRanks A
  for outRanks :: "'a \<Rightarrow> 'a \<Rightarrow> bool" and A :: "'a set" +
  fixes empty :: 'h
    and push :: "'h \<Rightarrow> 'a \<Rightarrow> 'h"
    and peek :: "'h \<Rightarrow> 'a option"
    and pop :: "'h \<Rightarrow> 'a option \<times> 'h"
    and remove :: "'h \<Rightarrow> 'a \<Rightarrow> 'a option \<times> 'h"
    and inv :: "'h \<Rightarrow> bool"
    and content :: "'h \<Rightarrow> 'a multiset"
  assumes inv_empty: "inv empty"
    and content_empty: "content empty = {#}"
    and inv_push: "inv h \<Longrightarrow> x \<in> A \<Longrightarrow> inv (push h x)"
    and content_push: "content (push h x) = add_mset x (content h)"
    and peek_push: "inv h \<Longrightarrow> x \<in> A \<Longrightarrow> peek (push h x) =
      (case peek h of None \<Rightarrow> Some x | Some y \<Rightarrow> Some (if outRanks x y then x else y))"
    and peek_None: "inv h \<Longrightarrow> peek h = None \<longleftrightarrow> content h = {#}"
    and peek_in: "inv h \<Longrightarrow> peek h = Some x \<Longrightarrow> x \<in># content h"
    and peek_max: "inv h \<Longrightarrow> peek h = Some x \<Longrightarrow> y \<in># content h \<Longrightarrow> \<not> outRanks y x"
    and content_in: "inv h \<Longrightarrow> x \<in># content h \<Longrightarrow> x \<in> A"
    and pop_fst: "inv h \<Longrightarrow> fst (pop h) = peek h"
    and pop_None: "inv h \<Longrightarrow> peek h = None \<Longrightarrow> snd (pop h) = h"
    and pop_content: "inv h \<Longrightarrow> peek h = Some x \<Longrightarrow> content (snd (pop h)) = content h - {#x#}"
    and inv_pop: "inv h \<Longrightarrow> inv (snd (pop h))"
    and remove_in: "inv h \<Longrightarrow> x \<in># content h \<Longrightarrow> fst (remove h x) = Some x"
    and remove_content: "inv h \<Longrightarrow> x \<in># content h \<Longrightarrow>
      content (snd (remove h x)) = content h - {#x#}"
    and remove_notin: "inv h \<Longrightarrow> x \<notin># content h \<Longrightarrow> remove h x = (None, h)"
    and inv_remove: "inv h \<Longrightarrow> inv (snd (remove h x))"
begin

lemma pop_SomeD:
  assumes "inv h" and "pop h = (Some x, h')"
  shows "x \<in># content h \<and> content h' = content h - {#x#} \<and> inv h' \<and>
    (\<forall>y \<in># content h. \<not> outRanks y x)"
proof -
  from assms have pk: "peek h = Some x" using pop_fst [of h] by simp
  with assms show ?thesis
    using peek_in [of h x] pop_content [of h x] inv_pop [of h] peek_max [of h x] by auto
qed

lemma pop_NoneD: "inv h \<Longrightarrow> pop h = (None, h') \<Longrightarrow> content h = {#} \<and> h' = h"
  using pop_fst [of h] peek_None [of h] pop_None [of h] by auto

lemma take_one_Some:
  "inv h \<Longrightarrow> take_via pop h = Some (x, h') \<Longrightarrow>
   x \<in># content h \<and> content h' = content h - {#x#} \<and> inv h' \<and>
    (\<forall>y \<in># content h. \<not> outRanks y x)"
  unfolding take_via_def by (rule pop_SomeD) (auto split: prod.splits option.splits)

lemma take_one_None: "inv h \<Longrightarrow> take_via pop h = None \<Longrightarrow> content h = {#}"
  unfolding take_via_def by (auto split: prod.splits option.splits dest: pop_NoneD)

lemma drain_subset: "inv h \<Longrightarrow> set (drain (take_via pop) n h) \<subseteq> set_mset (content h)"
proof (induction n arbitrary: h)
  case (Suc n)
  show ?case
  proof (cases "take_via pop h")
    case (Some p)
    then obtain x h' where p: "take_via pop h = Some (x, h')" by (cases p) auto
    note t = take_one_Some [OF Suc.prems p]
    then have "set (drain (take_via pop) n h') \<subseteq> set_mset (content h')" using Suc.IH by blast
    with t p show ?thesis by (auto dest: in_diffD)
  qed simp
qed simp

text \<open>Popping until the queue is empty delivers every object once, best rank first.\<close>

lemma drain_sorted: "inv h \<Longrightarrow> sorted_wrt (\<lambda>x y. \<not> outRanks y x) (drain (take_via pop) n h)"
proof (induction n arbitrary: h)
  case (Suc n)
  show ?case
  proof (cases "take_via pop h")
    case (Some p)
    then obtain x h' where p: "take_via pop h = Some (x, h')" by (cases p) auto
    note t = take_one_Some [OF Suc.prems p]
    have "\<forall>y \<in> set (drain (take_via pop) n h'). \<not> outRanks y x"
      using t drain_subset [of h' n] by (auto dest!: subsetD in_diffD)
    with t p Suc.IH [of h'] show ?thesis by simp
  qed simp
qed simp

lemma drain_all: "inv h \<Longrightarrow> size (content h) \<le> n \<Longrightarrow> mset (drain (take_via pop) n h) = content h"
proof (induction n arbitrary: h)
  case (Suc n)
  show ?case
  proof (cases "take_via pop h")
    case None
    with Suc.prems take_one_None show ?thesis by simp
  next
    case (Some p)
    then obtain x h' where p: "take_via pop h = Some (x, h')" by (cases p) auto
    note t = take_one_Some [OF Suc.prems(1) p]
    with Suc.prems(2) have "size (content h') \<le> n"
      by (simp add: size_Diff_singleton)
    with Suc.IH [of h'] t have "mset (drain (take_via pop) n h') = content h - {#x#}" by simp
    with t p show ?thesis by simp
  qed
qed simp

end

section \<open>Correctness of the tree operations\<close>

lemma elems_set_data: "\<not> is_null t \<Longrightarrow> elems (set_data x t) = add_mset x (elems t - {#mData t#})"
  by (cases t) auto

lemma elems_empty [simp]: "elems t = {#} \<longleftrightarrow> is_null t"
  by (cases t) auto

lemma elems_is_null [simp]: "is_null t \<Longrightarrow> y \<notin># elems t"
  by (cases t) auto

lemma mData_in: "\<not> is_null t \<Longrightarrow> mData t \<in># elems t"
  by (cases t) auto

lemma elems_new_node [simp]: "elems (new_node x) = {#x#}"
  by (simp add: new_node_def)

lemma elems_push_node: "elems (push_node r t x) = add_mset x (elems t)"
  by (induction r t x rule: push_node.induct)
    (auto simp: Let_def is_null_def)

lemma is_null_push_node [simp]: "\<not> is_null (push_node r t x)"
  by (metis elems_empty elems_push_node empty_not_add_mset)

lemma mData_push_node:
  "\<not> is_null t \<Longrightarrow> mData (push_node r t x) = (if r x (mData t) then x else mData t)"
  by (cases t) (auto simp: Let_def)

text \<open>The test of the code, with the size of an absent subtree as 0.\<close>

lemma checkNodes_node:
  "checkNodes r (HeapNode n l rt d) \<longleftrightarrow>
     (is_null l \<or> \<not> r (mData l) d) \<and> checkNodes r l \<and>
     (is_null rt \<or> \<not> r (mData rt) d) \<and> checkNodes r rt \<and>
     n = getTreeSize l + getTreeSize rt + 1"
  by (cases l; cases rt) (auto simp: getTreeSize_def)

declare checkNodes.simps(2) [simp del]
declare checkNodes_node [simp]

lemma getTreeSize_eq: "checkNodes r t \<Longrightarrow> getTreeSize t = int (size (elems t))"
  by (induction t) (auto simp: getTreeSize_def)

lemma getTreeSize_Null [simp]: "getTreeSize Null = 0"
  and getTreeSize_Node [simp]: "getTreeSize (HeapNode n l r d) = n"
  by (simp_all add: getTreeSize_def)


definition heap_inv :: "('a \<Rightarrow> 'a \<Rightarrow> bool) \<Rightarrow> 'a set \<Rightarrow> 'a loc_heap_node \<Rightarrow> bool" where
  "heap_inv outRanks A t \<longleftrightarrow> checkNodes outRanks t \<and> set_mset (elems t) \<subseteq> A"

lemma heap_inv_node:
  "heap_inv r A (HeapNode n l rt d) \<longleftrightarrow>
     (is_null l \<or> \<not> r (mData l) d) \<and> heap_inv r A l \<and>
     (is_null rt \<or> \<not> r (mData rt) d) \<and> heap_inv r A rt \<and>
     n = getTreeSize l + getTreeSize rt + 1 \<and> d \<in> A"
  by (auto simp: heap_inv_def)

lemma heap_inv_Null [simp]: "heap_inv r A Null"
  by (simp add: heap_inv_def)

lemma heap_inv_new_node [simp]: "heap_inv r A (new_node x) \<longleftrightarrow> x \<in> A"
  by (simp add: heap_inv_def new_node_def)

lemma mData_new_node [simp]: "mData (new_node x) = x"
  and is_null_new_node [simp]: "\<not> is_null (new_node x)"
  and getTreeSize_new_node [simp]: "getTreeSize (new_node x) = 1"
  by (simp_all add: new_node_def)

lemma heap_inv_size: "heap_inv r A t \<Longrightarrow> getTreeSize t = int (size (elems t))"
  using getTreeSize_eq [of r t] by (simp add: heap_inv_def)

context rankable
begin

lemma rank_irrefl: "x \<in> A \<Longrightarrow> \<not> outRanks x x"
  using rank_asym by blast

lemma root_max: "heap_inv outRanks A t \<Longrightarrow> y \<in># elems t \<Longrightarrow> \<not> outRanks y (mData t)"
proof (induction t)
  case (HeapNode n l r d)
  have sub: "\<not> outRanks y d"
    if s: "heap_inv outRanks A s" "y \<in># elems s" "is_null s \<or> \<not> outRanks (mData s) d"
      "\<not> outRanks y (mData s)" "d \<in> A" for s
  proof -
    from s(2) have nn: "\<not> is_null s" by (cases s) auto
    with s have "y \<in> A" "mData s \<in> A" by (auto simp: heap_inv_def dest: mData_in)
    with s nn show ?thesis using rank_negtrans by blast
  qed
  note inv = HeapNode.prems(1) [unfolded heap_inv_node]
  from HeapNode.prems(2) consider "y = d" | "y \<in># elems l" | "y \<in># elems r" by auto
  then have "\<not> outRanks y d"
  proof cases
    case 1
    with inv show ?thesis by (simp add: rank_irrefl)
  next
    case 2
    with inv HeapNode.IH(1) sub [of l] show ?thesis by blast
  next
    case 3
    with inv HeapNode.IH(2) sub [of r] show ?thesis by blast
  qed
  then show ?case by simp
qed simp

lemma push_node_inv:
  "heap_inv outRanks A t \<Longrightarrow> x \<in> A \<Longrightarrow> heap_inv outRanks A (push_node outRanks t x)"
proof (induction t arbitrary: x)
  case (HeapNode n l r d)
  define hi where "hi = (if outRanks x d then x else d)"
  define lo where "lo = (if outRanks x d then d else x)"
  from HeapNode.prems have d: "d \<in> A" by (simp add: heap_inv_node)
  have A: "hi \<in> A" "lo \<in> A" using HeapNode.prems(2) d by (auto simp: hi_def lo_def)
  have lohi: "\<not> outRanks lo hi"
    using HeapNode.prems(2) d rank_asym by (auto simp: hi_def lo_def)
  have sub: "is_null s \<or> \<not> outRanks (mData s) hi"
    if "heap_inv outRanks A s" "is_null s \<or> \<not> outRanks (mData s) d" for s
  proof (cases "is_null s")
    case False
    with that have ms: "mData s \<in> A" "\<not> outRanks (mData s) d"
      by (auto simp: heap_inv_def dest: mData_in)
    have "\<not> outRanks d hi" using d HeapNode.prems(2) rank_asym rank_irrefl by (auto simp: hi_def)
    with ms d A show ?thesis using rank_negtrans by blast
  qed simp
  have push_lo: "\<not> outRanks (mData (push_node outRanks s lo)) hi"
    if "\<not> is_null s" "is_null s \<or> \<not> outRanks (mData s) hi" for s
    using that lohi by (auto simp: mData_push_node)
  have sz: "getTreeSize (push_node outRanks s lo) = getTreeSize s + 1"
    if "heap_inv outRanks A s" "heap_inv outRanks A (push_node outRanks s lo)" for s
    using that by (simp add: heap_inv_size elems_push_node)
  have IHl: "heap_inv outRanks A (push_node outRanks l lo)"
    and IHr: "heap_inv outRanks A (push_node outRanks r lo)"
    using HeapNode A by (auto simp: heap_inv_node)
  note inv = HeapNode.prems(1) [unfolded heap_inv_node]
  have step: "push_node outRanks (HeapNode n l r d) x =
     (if is_null l then HeapNode (n + 1) (new_node lo) r hi
      else if is_null r then HeapNode (n + 1) l (new_node lo) hi
      else if mSize l \<le> mSize r then HeapNode (n + 1) (push_node outRanks l lo) r hi
      else HeapNode (n + 1) l (push_node outRanks r lo) hi)"
    by (simp add: Let_def hi_def lo_def)
  show ?case unfolding step
    using inv A lohi IHl IHr sub [of l] sub [of r] push_lo [of l] push_lo [of r]
      sz [of l] sz [of r]
    by (auto simp: heap_inv_node) (auto simp: is_null_def)
qed simp

text \<open>
  Popping a tree below whose root the heap property holds, whatever the root carries: the
  data of the root leaves, the rest stays a heap.
\<close>

lemma pop_node_inv:
  "heap_inv outRanks A t \<Longrightarrow> \<not> is_null t \<Longrightarrow>
   \<exists>t'. pop_node outRanks (set_data d t) = Some (d, t') \<and> heap_inv outRanks A t' \<and>
     elems t' = elems t - {#mData t#}"
proof (induction t arbitrary: d)
  case (HeapNode n l r e)
  note inv = HeapNode.prems(1) [unfolded heap_inv_node]
  consider (leaf) "is_null l" "is_null r"
    | (right) "\<not> is_null r" "is_null l \<or> \<not> outRanks (mData l) (mData r)"
    | (left) "\<not> is_null l" "\<not> (is_null l \<or> (\<not> is_null r \<and> \<not> outRanks (mData l) (mData r)))"
    by blast
  then show ?case
  proof cases
    case leaf
    then show ?thesis by (auto simp: is_null_def)
  next
    case right
    from HeapNode.IH(2) [of d] inv right(1) obtain r' where
      r': "pop_node outRanks (set_data d r) = Some (d, r')" "heap_inv outRanks A r'"
        "elems r' = elems r - {#mData r#}" by auto
    have er: "mData r \<in># elems r" using right(1) by (rule mData_in)
    have "is_null r' \<or> \<not> outRanks (mData r') (mData r)"
      using r'(3) inv root_max [of r "mData r'"] mData_in [of r'] by (auto dest: in_diffD)
    moreover have "n - 1 = getTreeSize l + getTreeSize r' + 1"
      using inv r' heap_inv_size [of outRanks A r] heap_inv_size [of outRanks A r']
        int_size_remove1 [OF er] by simp
    moreover have "mData r \<in> A" using er inv by (auto simp: heap_inv_def)
    ultimately show ?thesis using right r' inv er by (auto simp: heap_inv_node)
  next
    case left
    from HeapNode.IH(1) [of d] inv left(1) obtain l' where
      l': "pop_node outRanks (set_data d l) = Some (d, l')" "heap_inv outRanks A l'"
        "elems l' = elems l - {#mData l#}" by auto
    have el: "mData l \<in># elems l" using left(1) by (rule mData_in)
    have "is_null l' \<or> \<not> outRanks (mData l') (mData l)"
      using l'(3) inv root_max [of l "mData l'"] mData_in [of l'] by (auto dest: in_diffD)
    moreover have "n - 1 = getTreeSize l' + getTreeSize r + 1"
      using inv l' heap_inv_size [of outRanks A l] heap_inv_size [of outRanks A l']
        int_size_remove1 [OF el] by simp
    moreover have "mData l \<in> A" using el inv by (auto simp: heap_inv_def)
    moreover have "is_null r \<or> \<not> outRanks (mData r) (mData l)"
    proof (cases "is_null r")
      case False
      then have "mData r \<in> A" using inv by (auto simp: heap_inv_def dest: mData_in)
      with False left \<open>mData l \<in> A\<close> show ?thesis using rank_asym by blast
    qed simp
    ultimately show ?thesis using left l' inv el by (auto simp: heap_inv_node)
  qed
qed simp


lemma pop_node_top:
  assumes "heap_inv outRanks A t" and "\<not> is_null t"
  obtains t' where "pop_node outRanks t = Some (mData t, t')" and "heap_inv outRanks A t'"
    and "elems t' = elems t - {#mData t#}"
proof -
  have "set_data (mData t) t = t" by (cases t) auto
  with pop_node_inv [OF assms, of "mData t"] that show ?thesis by auto
qed

lemma remove_node_notin: "x \<notin># elems t \<Longrightarrow> remove_node outRanks t x = None"
  by (induction t) auto

lemma sub_size:
  assumes "heap_inv outRanks A s" and "heap_inv outRanks A s'" and "x \<in># elems s"
    and "elems s' = elems s - {#x#}"
  shows "getTreeSize s' = getTreeSize s - 1"
  using assms heap_inv_size [of outRanks A] int_size_remove1 [of x "elems s"] by simp

lemma sub_root:
  assumes "heap_inv outRanks A (HeapNode n l r d)" and "elems s' \<subseteq># elems l + elems r"
  shows "is_null s' \<or> \<not> outRanks (mData s') d"
proof (cases "is_null s'")
  case False
  then have "mData s' \<in># elems l + elems r"
    using mData_in assms(2) mset_subset_eqD by metis
  with root_max [OF assms(1), of "mData s'"] show ?thesis by auto
qed simp

lemma remove_node_in:
  "heap_inv outRanks A t \<Longrightarrow> x \<in># elems t \<Longrightarrow>
   \<exists>t'. remove_node outRanks t x = Some (x, t') \<and> heap_inv outRanks A t' \<and>
     elems t' = elems t - {#x#}"
proof (induction t)
  case (HeapNode n l r d)
  note inv = HeapNode.prems(1) [unfolded heap_inv_node]
  show ?case
  proof (cases "x = d")
    case True
    obtain t' where "pop_node outRanks (HeapNode n l r d) = Some (d, t')"
      "heap_inv outRanks A t'" "elems t' = elems l + elems r"
      by (rule pop_node_top [OF HeapNode.prems(1)]) auto
    then show ?thesis using True by (auto simp del: pop_node.simps)
  next
    case False
    have rank: "\<not> outRanks x d"
      using root_max [OF HeapNode.prems] by simp
    show ?thesis
    proof (cases "x \<in># elems l")
      case True
      with HeapNode.IH(1) inv obtain l' where
        l': "remove_node outRanks l x = Some (x, l')" "heap_inv outRanks A l'"
          "elems l' = elems l - {#x#}" by blast
      have "is_null l' \<or> \<not> outRanks (mData l') d"
        using l'(3) by (intro sub_root [OF HeapNode.prems(1)])
          (simp add: subset_mset.add_increasing2)
      with l' True False rank inv sub_size [of l l' x] show ?thesis
        by (auto simp: heap_inv_node)
    next
      case notl: False
      with HeapNode.prems(2) False have "x \<in># elems r" by simp
      with HeapNode.IH(2) inv obtain r' where
        r': "remove_node outRanks r x = Some (x, r')" "heap_inv outRanks A r'"
          "elems r' = elems r - {#x#}" by blast
      have "is_null r' \<or> \<not> outRanks (mData r') d"
        using r'(3) by (intro sub_root [OF HeapNode.prems(1)])
          (simp add: subset_mset.add_increasing)
      with r' notl False rank inv \<open>x \<in># elems r\<close> sub_size [of r r' x]
      show ?thesis by (auto simp: heap_inv_node remove_node_notin)
    qed
  qed
qed simp

end

text \<open>The heap of the code keeps the promise, for every ranking of its clients.\<close>

sublocale rankable \<subseteq> lh: rank_queue outRanks A Null "heap_push outRanks" heap_peek
  "heap_pop outRanks" "heap_remove outRanks" "heap_inv outRanks A" elems
proof (unfold_locales, goal_cases)
  case 1 show ?case by simp
next
  case 2 show ?case by simp
next
  case (3 h x) then show ?case by (simp add: heap_push_def push_node_inv)
next
  case (4 h x) then show ?case by (cases h) (auto simp: heap_push_def elems_push_node simp del: push_node.simps)
next
  case (5 h x) then show ?case by (simp add: heap_push_def heap_peek_def mData_push_node)
next
  case (6 h) then show ?case by (simp add: heap_peek_def)
next
  case (7 h x) then show ?case by (auto simp: heap_peek_def mData_in split: if_splits)
next
  case (8 h x y) then show ?case by (auto simp: heap_peek_def root_max split: if_splits)
next
  case (9 h x) then show ?case by (auto simp: heap_inv_def)
next
  case (10 h) then show ?case
    by (cases "is_null h") (auto simp: heap_peek_def heap_pop_def elim: pop_node_top)
next
  case (11 h) then show ?case by (auto simp: heap_peek_def heap_pop_def split: if_splits)
next
  case (12 h x) then show ?case
    by (cases "is_null h") (auto simp: heap_peek_def heap_pop_def elim: pop_node_top)
next
  case (13 h) then show ?case
    by (cases "is_null h") (auto simp: heap_pop_def elim: pop_node_top)
next
  case (14 h x) then show ?case
    using remove_node_in [of h x] by (auto simp: heap_remove_def is_null_def)
next
  case (15 h x) then show ?case
    using remove_node_in [of h x] by (auto simp: heap_remove_def is_null_def)
next
  case (16 h x) then show ?case by (simp add: heap_remove_def remove_node_notin)
next
  case (17 h x) then show ?case
    using remove_node_in [of h x]
    by (cases "x \<in># elems h") (auto simp: heap_remove_def remove_node_notin)
qed


section \<open>Properties\<close>

definition heap_of_list :: "('a \<Rightarrow> 'a \<Rightarrow> bool) \<Rightarrow> 'a list \<Rightarrow> 'a loc_heap_node" where
  "heap_of_list outRanks xs = fold (\<lambda>x t. heap_push outRanks t x) xs Null"

definition heap_take :: "('a \<Rightarrow> 'a \<Rightarrow> bool) \<Rightarrow> 'a loc_heap_node \<Rightarrow> ('a \<times> 'a loc_heap_node) option" where
  "heap_take outRanks = take_via (heap_pop outRanks)"

context rankable
begin

lemma heap_fold_inv:
  "set xs \<subseteq> A \<Longrightarrow> heap_inv outRanks A t \<Longrightarrow>
   heap_inv outRanks A (fold (\<lambda>x t. heap_push outRanks t x) xs t) \<and>
   elems (fold (\<lambda>x t. heap_push outRanks t x) xs t) = mset xs + elems t"
  by (induction xs arbitrary: t) (auto simp: lh.inv_push lh.content_push)

lemma heap_of_list_ok:
  "set xs \<subseteq> A \<Longrightarrow> heap_inv outRanks A (heap_of_list outRanks xs) \<and>
   elems (heap_of_list outRanks xs) = mset xs"
  using heap_fold_inv [of xs Null] by (simp add: heap_of_list_def)

lemma heap_of_list_drain:
  assumes "set xs \<subseteq> A"
  shows "mset (drain (heap_take outRanks) (length xs) (heap_of_list outRanks xs)) = mset xs \<and>
    sorted_wrt (\<lambda>x y. \<not> outRanks y x)
      (drain (heap_take outRanks) (length xs) (heap_of_list outRanks xs))"
  using heap_of_list_ok [OF assms] lh.drain_sorted lh.drain_all [of "heap_of_list outRanks xs"]
  by (simp add: heap_take_def)

lemma heap_remove_cases:
  assumes "heap_inv outRanks A t"
  shows "heap_inv outRanks A (snd (heap_remove outRanks t x)) \<and>
    (if x \<in># elems t
     then fst (heap_remove outRanks t x) = Some x \<and>
       elems (snd (heap_remove outRanks t x)) = elems t - {#x#}
     else heap_remove outRanks t x = (None, t))"
  using lh.inv_remove [OF assms, of x] lh.remove_in [OF assms, of x]
    lh.remove_content [OF assms, of x] lh.remove_notin [OF assms, of x]
  by simp

end

text \<open>
  C4: whatever is pushed into an empty heap, the tree passes the code's own consistency check
  with the size it reports, and popping until it is empty returns every object exactly once, in
  rank order.
\<close>

theorem heap_push_pop_sorts:
  assumes "rankable r A" and "set xs \<subseteq> A"
  shows "checkTree r (heap_of_list r xs) \<and>
    getTreeSize (heap_of_list r xs) = int (length xs) \<and>
    mset (drain (heap_take r) (length xs) (heap_of_list r xs)) = mset xs \<and>
    sorted_wrt (\<lambda>x y. \<not> r y x) (drain (heap_take r) (length xs) (heap_of_list r xs))"
proof -
  have ok: "heap_inv r A (heap_of_list r xs)" "elems (heap_of_list r xs) = mset xs"
    using rankable.heap_of_list_ok [OF assms] by auto
  then have "checkTree r (heap_of_list r xs)" by (simp add: checkTree_def heap_inv_def)
  with ok rankable.heap_of_list_drain [OF assms] show ?thesis by (simp add: heap_inv_size)
qed

theorem heap_push_pop_sorts_witness:
  "mset (drain (heap_take (\<lambda>x y. x < y)) 4 (heap_of_list (\<lambda>x y. x < y) [3, 1, 2, 1::nat])) =
     {#3, 1, 2, 1#}"
proof -
  have "rankable (\<lambda>x y::nat. x < y) UNIV" by unfold_locales auto
  from heap_push_pop_sorts [OF this, of "[3, 1, 2, 1]"] show ?thesis
    by (simp add: numeral_eq_Suc del: drain.simps)
qed

text \<open>
  removing an object of the heap returns it and takes out that one object only; an object
  that is not in the heap is not found, even where one of the same rank is, and the heap stays as
  it is. The tree passes the consistency check again.
\<close>

theorem heap_remove_exact:
  assumes "rankable r A" and "heap_inv r A t"
  shows "checkTree r (snd (heap_remove r t x)) \<and>
    elems (snd (heap_remove r t x)) = elems t - {#x#} \<and>
    fst (heap_remove r t x) = (if x \<in># elems t then Some x else None) \<and>
    (x \<notin># elems t \<longrightarrow> snd (heap_remove r t x) = t)"
  using rankable.heap_remove_cases [OF assms, of x]
  by (auto simp: checkTree_def heap_inv_def split: if_splits)

theorem heap_remove_exact_witness:
  "fst (heap_remove (\<lambda>x y. fst x < fst y) (new_node (5::nat, True)) (5, False)) = None"
proof -
  have r: "rankable (\<lambda>x y::nat \<times> bool. fst x < fst y) UNIV" by unfold_locales auto
  show ?thesis
    using heap_remove_exact [OF r, of "new_node (5, True)" "(5, False)"] by simp
qed

end
