(* ===== verification/LocTimer.thy ===== *)
theory LocTimer
  imports LocHeap
begin

text \<open>
  The timer service of \<open>gps/utils/LocTimer.cpp\<close>: clients start and stop timers, the timers
  that tick live in two rank heaps (timers and alarms), all heap work is done by messages
  processed one by one, and for each heap the kernel holds the one soonest deadline.

  A \<open>LocTimerDelegate\<close> object is a number for its address with its deadline (which never
  changes); its two mutable fields \<open>mClient\<close> and \<open>mContainer\<close> are in the store
  \<open>delegates\<close>, from which \<open>delete\<close> removes it. A read of a deleted delegate sets
  \<open>fault\<close>. The client's callback is the entry it leaves in \<open>fired\<close>. The shared lock of a
  timer and its client makes each operation of a client one step.
\<close>

section \<open>Deadlines and their rank\<close>

record timespec =
  tv_sec :: int
  tv_nsec :: int

record delegate =
  d_addr :: nat
  mFutureTime :: timespec

definition timer_ranks :: "delegate \<Rightarrow> delegate \<Rightarrow> int" where
  "timer_ranks self timer =
     (let rank = trunc_int32 (tv_sec (mFutureTime timer) - tv_sec (mFutureTime self))
      in if rank = 0
         then trunc_int32 (tv_nsec (mFutureTime timer) - tv_nsec (mFutureTime self))
         else rank)"

definition timer_outRanks :: "delegate \<Rightarrow> delegate \<Rightarrow> bool" where
  "timer_outRanks self timer \<longleftrightarrow> timer_ranks self timer > 0"

text \<open>\<open>clock_gettime\<close> plus the delay, with the carry into the seconds.\<close>

definition future_time :: "timespec \<Rightarrow> u32 \<Rightarrow> timespec" where
  "future_time now timeOutInMs =
     (let s = tv_sec now + uint (timeOutInMs div 1000);
          n = tv_nsec now + uint ((timeOutInMs mod 1000) * 1000000)
      in if n \<ge> 1000000000
         then \<lparr>tv_sec = s + n div 1000000000, tv_nsec = n mod 1000000000\<rparr>
         else \<lparr>tv_sec = s, tv_nsec = n\<rparr>)"

section \<open>State\<close>

text \<open>
  A container: the heap, whether its descriptor is in the poll set, and the deadline the
  kernel is set to (\<open>None\<close> when disarmed).
\<close>

record container =
  mTree :: "delegate loc_heap_node"
  polled :: bool
  armed :: "timespec option"

datatype timer_msg =
    MsgTimerPush bool delegate
  | MsgTimerRemove bool delegate
  | MsgTimerExpire bool

record timer_world =
  clock :: timespec
  containers :: "bool \<Rightarrow> container option"
  msgs :: "timer_msg list"
  mTimer :: "nat \<Rightarrow> delegate option"
  delegates :: "nat \<Rightarrow> (nat option \<times> bool option) option"
  next_addr :: nat
  fired :: "(nat \<times> timespec \<times> timespec) list"
  fault :: bool

definition new_container :: container where
  "new_container = \<lparr>mTree = Null, polled = False, armed = None\<rparr>"

definition init_world :: "timespec \<Rightarrow> timer_world" where
  "init_world now =
     \<lparr>clock = now, containers = (\<lambda>_. None), msgs = [], mTimer = (\<lambda>_. None),
      delegates = (\<lambda>_. None), next_addr = 0, fired = [], fault = False\<rparr>"

definition sendMsg :: "timer_msg \<Rightarrow> timer_world \<Rightarrow> timer_world" where
  "sendMsg m w = w\<lparr>msgs := msgs w @ [m]\<rparr>"

section \<open>Containers\<close>

text \<open>\<open>fd_ok\<close>: whether \<open>timerfd_create\<close> returned a descriptor.\<close>

definition get_container :: "bool \<Rightarrow> bool \<Rightarrow> timer_world \<Rightarrow> timer_world" where
  "get_container fd_ok wakeOnExpire w =
     (case containers w wakeOnExpire of
        Some _ \<Rightarrow> w
      | None \<Rightarrow>
          if fd_ok then w\<lparr>containers := (containers w)(wakeOnExpire := Some new_container)\<rparr>
          else w)"

definition updateSoonestTime :: "delegate option \<Rightarrow> container \<Rightarrow> container" where
  "updateSoonestTime priorTop c =
     (let curTop = heap_peek (mTree c)
      in if curTop \<noteq> priorTop then
           (case curTop of
              None \<Rightarrow> c\<lparr>polled := False, armed := None\<rparr>
            | Some cur \<Rightarrow>
                if (case priorTop of None \<Rightarrow> True | Some prior \<Rightarrow> timer_outRanks cur prior)
                then c\<lparr>polled := True, armed := Some (mFutureTime cur)\<rparr>
                else c)
         else c)"

definition popIfOutRanks :: "delegate \<Rightarrow> container \<Rightarrow> delegate option \<times> container" where
  "popIfOutRanks timer c =
     (case heap_peek (mTree c) of
        None \<Rightarrow> (None, c)
      | Some front \<Rightarrow>
          if \<not> timer_outRanks timer front then
            (case heap_pop timer_outRanks (mTree c) of (x, t) \<Rightarrow> (x, c\<lparr>mTree := t\<rparr>))
          else (None, c))"

section \<open>Timers and their delegates\<close>

definition delegate_create :: "nat \<Rightarrow> timespec \<Rightarrow> bool \<Rightarrow> timer_world \<Rightarrow> delegate \<times> timer_world" where
  "delegate_create client futureTime wake w =
     (let d = \<lparr>d_addr = next_addr w, mFutureTime = futureTime\<rparr>
      in (d, sendMsg (MsgTimerPush wake d)
               (w\<lparr>delegates := (delegates w)(d_addr d \<mapsto> (Some client, Some wake)),
                  next_addr := Suc (next_addr w)\<rparr>)))"

definition destroyLocked :: "delegate \<Rightarrow> timer_world \<Rightarrow> timer_world" where
  "destroyLocked d w =
     (case delegates w (d_addr d) of
        None \<Rightarrow> w\<lparr>fault := True\<rparr>
      | Some (_, None) \<Rightarrow> w\<lparr>delegates := (delegates w)(d_addr d \<mapsto> (None, None))\<rparr>
      | Some (_, Some wake) \<Rightarrow>
          sendMsg (MsgTimerRemove wake d)
            (w\<lparr>delegates := (delegates w)(d_addr d \<mapsto> (None, None))\<rparr>))"

definition timer_start :: "bool \<Rightarrow> nat \<Rightarrow> u32 \<Rightarrow> bool \<Rightarrow> timer_world \<Rightarrow> bool \<times> timer_world" where
  "timer_start fd_ok client timeOutInMs wakeOnExpire w =
     (case mTimer w client of
        Some _ \<Rightarrow> (False, w)
      | None \<Rightarrow>
          let futureTime = future_time (clock w) timeOutInMs;
              w1 = get_container fd_ok wakeOnExpire w
          in (case containers w1 wakeOnExpire of
                None \<Rightarrow> (False, w1)
              | Some _ \<Rightarrow>
                  (case delegate_create client futureTime wakeOnExpire w1 of (d, w2) \<Rightarrow>
                     (True, w2\<lparr>mTimer := (mTimer w2)(client \<mapsto> d)\<rparr>))))"

definition timer_stop :: "nat \<Rightarrow> timer_world \<Rightarrow> bool \<times> timer_world" where
  "timer_stop client w =
     (case mTimer w client of
        None \<Rightarrow> (False, w)
      | Some timer \<Rightarrow>
          (True, destroyLocked timer (w\<lparr>mTimer := (mTimer w)(client := None)\<rparr>)))"

definition delegate_expire :: "delegate \<Rightarrow> timer_world \<Rightarrow> timer_world" where
  "delegate_expire d w =
     (case delegates w (d_addr d) of
        None \<Rightarrow> w\<lparr>fault := True\<rparr>
      | Some (None, _) \<Rightarrow> w
      | Some (Some client, _) \<Rightarrow>
          (case timer_stop client w of
             (True, w') \<Rightarrow> w'\<lparr>fired := fired w' @ [(client, mFutureTime d, clock w')]\<rparr>
           | (False, w') \<Rightarrow> w'))"

section \<open>Messages\<close>

definition put_container :: "bool \<Rightarrow> container \<Rightarrow> timer_world \<Rightarrow> timer_world" where
  "put_container b c w = w\<lparr>containers := (containers w)(b \<mapsto> c)\<rparr>"

definition proc_push :: "bool \<Rightarrow> delegate \<Rightarrow> timer_world \<Rightarrow> timer_world" where
  "proc_push b timer w =
     (case containers w b of
        None \<Rightarrow> w
      | Some c \<Rightarrow>
          let priorTop = heap_peek (mTree c);
              c1 = c\<lparr>mTree := heap_push timer_outRanks (mTree c) timer\<rparr>
          in put_container b (updateSoonestTime priorTop c1) w)"

definition proc_remove :: "bool \<Rightarrow> delegate \<Rightarrow> timer_world \<Rightarrow> timer_world" where
  "proc_remove b timer w =
     (case containers w b of
        None \<Rightarrow> w
      | Some c \<Rightarrow>
          if delegates w (d_addr timer) = None then w\<lparr>fault := True\<rparr>
          else
            (let priorTop = heap_peek (mTree c)
             in case heap_remove timer_outRanks (mTree c) timer of (removed, t) \<Rightarrow>
                  let c1 = c\<lparr>mTree := t\<rparr>;
                      c2 = (if priorTop = removed then updateSoonestTime None c1 else c1)
                  in (put_container b c2 w)
                       \<lparr>delegates := (delegates w)(d_addr timer := None)\<rparr>))"

text \<open>The expire loop shrinks the heap at each turn, and nothing else in it touches the heap.\<close>

lemma pop_node_size: "pop_node r t = Some (x, t') \<Longrightarrow> size t' < size t"
proof (induction r t arbitrary: x t' rule: pop_node.induct)
  case (2 r n l rt d)
  then show ?case by (fastforce split: if_splits)
qed simp

lemma containers_delegate_expire [simp]: "containers (delegate_expire d w) = containers w"
  by (auto simp: delegate_expire_def timer_stop_def destroyLocked_def sendMsg_def
      split: option.splits prod.splits)

definition heap_of :: "bool \<Rightarrow> timer_world \<Rightarrow> delegate loc_heap_node" where
  "heap_of b w = (case containers w b of None \<Rightarrow> Null | Some c \<Rightarrow> mTree c)"

definition pop_due :: "bool \<Rightarrow> delegate \<Rightarrow> timer_world \<Rightarrow> delegate option \<times> timer_world" where
  "pop_due b timerOfNow w =
     (case containers w b of
        None \<Rightarrow> (None, w)
      | Some c \<Rightarrow> (case popIfOutRanks timerOfNow c of (x, c') \<Rightarrow> (x, put_container b c' w)))"

lemma pop_due_size:
  "pop_due b n w = (x, w') \<Longrightarrow>
   size (heap_of b w') + (if x = None then 0 else 1) \<le> size (heap_of b w)"
  by (auto simp: pop_due_def popIfOutRanks_def heap_pop_def heap_of_def put_container_def Suc_le_eq
      split: option.splits prod.splits if_splits)
    (erule pop_node_size)

lemma heap_of_delegate_expire [simp]: "heap_of b (delegate_expire d w) = heap_of b w"
  by (simp add: heap_of_def)

function expire_loop :: "bool \<Rightarrow> delegate \<Rightarrow> delegate option \<Rightarrow> timer_world \<Rightarrow> timer_world" where
  "expire_loop b timerOfNow None w = w"
| "expire_loop b timerOfNow (Some timer) w =
     (case pop_due b timerOfNow (delegate_expire timer w) of
        (timer', w') \<Rightarrow> expire_loop b timerOfNow timer' w')"
  by pat_completeness auto

termination
  by (relation "measure (\<lambda>(b, n, t, w). size (heap_of b w) + (if t = None then 0 else 1))")
    (auto dest!: pop_due_size split: prod.split)

definition proc_expire :: "bool \<Rightarrow> timer_world \<Rightarrow> timer_world" where
  "proc_expire b w =
     (case containers w b of
        None \<Rightarrow> w
      | Some c \<Rightarrow>
          let timerOfNow = \<lparr>d_addr = next_addr w, mFutureTime = clock w\<rparr>
          in case heap_pop timer_outRanks (mTree c) of (timer, t) \<Rightarrow>
               let w1 = expire_loop b timerOfNow timer (put_container b (c\<lparr>mTree := t\<rparr>) w)
               in (case containers w1 b of
                     None \<Rightarrow> w1
                   | Some c1 \<Rightarrow> put_container b (updateSoonestTime None c1) w1))"

fun proc :: "timer_msg \<Rightarrow> timer_world \<Rightarrow> timer_world" where
  "proc (MsgTimerPush b d) w = proc_push b d w"
| "proc (MsgTimerRemove b d) w = proc_remove b d w"
| "proc (MsgTimerExpire b) w = proc_expire b w"

text \<open>The polling thread, when a descriptor is ready.\<close>

definition container_expire :: "bool \<Rightarrow> timer_world \<Rightarrow> timer_world" where
  "container_expire b w =
     (case containers w b of
        None \<Rightarrow> w
      | Some c \<Rightarrow>
          sendMsg (MsgTimerExpire b) (put_container b (c\<lparr>armed := None, polled := False\<rparr>) w))"

section \<open>Steps\<close>

definition time_le :: "timespec \<Rightarrow> timespec \<Rightarrow> bool" where
  "time_le a b \<longleftrightarrow> tv_sec a < tv_sec b \<or> (tv_sec a = tv_sec b \<and> tv_nsec a \<le> tv_nsec b)"

definition valid_time :: "timespec \<Rightarrow> bool" where
  "valid_time t \<longleftrightarrow> 0 \<le> tv_sec t \<and> tv_sec t < 2147483648 \<and> 0 \<le> tv_nsec t \<and> tv_nsec t < 1000000000"

text \<open>
  The clients, the clock, the polling thread and the message thread take turns. A descriptor
  becomes ready when it is polled and the clock has reached the deadline it is set to. The
  bound on a new deadline is that of a 32-bit number of seconds since boot.
\<close>

inductive timer_step :: "timer_world \<Rightarrow> timer_world \<Rightarrow> bool" where
  client_start: "valid_time (future_time (clock w) ms) \<Longrightarrow>
     timer_start ok c ms b w = (r, w') \<Longrightarrow> timer_step w w'"
| client_stop: "timer_stop c w = (r, w') \<Longrightarrow> timer_step w w'"
| tick: "time_le (clock w) t \<Longrightarrow> valid_time t \<Longrightarrow> timer_step w (w\<lparr>clock := t\<rparr>)"
| poll: "containers w b = Some c \<Longrightarrow> polled c \<Longrightarrow> armed c = Some t \<Longrightarrow> time_le t (clock w) \<Longrightarrow>
     timer_step w (container_expire b w)"
| process: "msgs w = m # ms \<Longrightarrow> timer_step w (proc m (w\<lparr>msgs := ms\<rparr>))"

inductive timer_reachable :: "timespec \<Rightarrow> timer_world \<Rightarrow> bool" for t0 where
  boot: "valid_time t0 \<Longrightarrow> timer_reachable t0 (init_world t0)"
| run: "timer_reachable t0 w \<Longrightarrow> timer_step w w' \<Longrightarrow> timer_reachable t0 w'"


section \<open>Deadlines are ranked as the heap expects\<close>

definition valid_delegates :: "delegate set" where
  "valid_delegates = {d. valid_time (mFutureTime d)}"

lemma in_valid_delegates [simp]: "d \<in> valid_delegates \<longleftrightarrow> valid_time (mFutureTime d)"
  by (simp add: valid_delegates_def)

lemma timer_outRanks_iff:
  "valid_time (mFutureTime x) \<Longrightarrow> valid_time (mFutureTime y) \<Longrightarrow>
   timer_outRanks x y \<longleftrightarrow> \<not> time_le (mFutureTime y) (mFutureTime x)"
  by (auto simp: timer_outRanks_def timer_ranks_def valid_time_def time_le_def trunc_int32_id Let_def)

interpretation tmr: rankable timer_outRanks valid_delegates
  by unfold_locales (auto simp: timer_outRanks_iff time_le_def)

abbreviation timer_heap_ok :: "delegate loc_heap_node \<Rightarrow> bool" where
  "timer_heap_ok t \<equiv> heap_inv timer_outRanks valid_delegates t"

lemma heap_ok_valid: "timer_heap_ok t \<Longrightarrow> d \<in># elems t \<Longrightarrow> valid_time (mFutureTime d)"
  using tmr.lh.content_in by auto

text \<open>The head of a heap is the delegate with the soonest deadline.\<close>

lemma heap_peek_soonest:
  "timer_heap_ok t \<Longrightarrow> heap_peek t = Some d \<Longrightarrow> e \<in># elems t \<Longrightarrow>
   time_le (mFutureTime d) (mFutureTime e)"
  using tmr.lh.peek_max [of t d e] tmr.lh.peek_in [of t d] heap_ok_valid [of t]
  by (auto simp: timer_outRanks_iff)

lemma time_le_refl [simp]: "time_le t t"
  by (simp add: time_le_def)

lemma time_le_trans: "time_le a b \<Longrightarrow> time_le b c \<Longrightarrow> time_le a c"
  by (auto simp: time_le_def)

section \<open>What one container keeps\<close>

text \<open>The kernel waits for the head of the heap.\<close>

definition armed_for_head :: "container \<Rightarrow> bool" where
  "armed_for_head c \<longleftrightarrow>
     (case heap_peek (mTree c) of
        None \<Rightarrow> True
      | Some d \<Rightarrow> polled c \<and> armed c = Some (mFutureTime d))"

lemma mTree_updateSoonestTime [simp]: "mTree (updateSoonestTime p c) = mTree c"
  by (auto simp: updateSoonestTime_def Let_def split: option.split)

lemma armed_updateSoonestTime_None: "armed_for_head (updateSoonestTime None c)"
  by (auto simp: armed_for_head_def updateSoonestTime_def Let_def split: option.splits)

text \<open>Adding a timer: the head changes only to a timer that outranks the old head.\<close>

lemma armed_push:
  assumes "timer_heap_ok (mTree c)" and "valid_time (mFutureTime d)" and "armed_for_head c"
  shows "armed_for_head (updateSoonestTime (heap_peek (mTree c))
           (c\<lparr>mTree := heap_push timer_outRanks (mTree c) d\<rparr>))"
  using assms tmr.lh.peek_push [of "mTree c" d]
  by (auto simp: armed_for_head_def updateSoonestTime_def Let_def split: option.splits if_splits)

lemma peek_remove_other:
  assumes "timer_heap_ok t" and "heap_peek t \<noteq> fst (heap_remove timer_outRanks t d)"
  shows "heap_peek (snd (heap_remove timer_outRanks t d)) = heap_peek t"
proof (cases t)
  case (HeapNode n l r e)
  show ?thesis
  proof (cases "d \<in># elems t")
    case True
    with assms have "d \<noteq> e"
      using HeapNode tmr.lh.remove_in [of t d] by (auto simp: heap_peek_def)
    with HeapNode show ?thesis
      by (auto simp: heap_remove_def heap_peek_def split: option.splits)
  next
    case False
    with assms(1) show ?thesis by (simp add: tmr.lh.remove_notin)
  qed
qed (simp add: heap_remove_def)

text \<open>
  Removing a timer leaves the kernel set to the head, whether the head is the timer removed or
  not. When the heap becomes empty nothing is said: the code does not disarm.
\<close>

lemma armed_remove:
  assumes "timer_heap_ok (mTree c)" and "armed_for_head c"
    and "heap_remove timer_outRanks (mTree c) d = (removed, t)"
  shows "armed_for_head (if heap_peek (mTree c) = removed
           then updateSoonestTime None (c\<lparr>mTree := t\<rparr>) else c\<lparr>mTree := t\<rparr>)"
proof (cases "heap_peek (mTree c) = removed")
  case True
  then show ?thesis by (simp add: armed_updateSoonestTime_None)
next
  case False
  with assms peek_remove_other [of "mTree c" d] have "heap_peek t = heap_peek (mTree c)" by simp
  with False assms(2) show ?thesis by (simp add: armed_for_head_def split: option.splits)
qed

section \<open>The expire loop\<close>

lemma put_container_same: "containers w b = Some c \<Longrightarrow> put_container b c w = w"
  by (simp add: put_container_def fun_upd_idem)

definition due :: "timespec \<Rightarrow> delegate \<Rightarrow> bool" where
  "due now d \<longleftrightarrow> time_le (mFutureTime d) now"

lemma pop_due_cases:
  assumes "timer_heap_ok (heap_of b w)" and "valid_time (mFutureTime n)"
    and "pop_due b n w = (x, w')"
  shows "timer_heap_ok (heap_of b w') \<and>
    (case x of
       None \<Rightarrow> w' = w \<and> (\<forall>e \<in># elems (heap_of b w). \<not> due (mFutureTime n) e)
     | Some d \<Rightarrow> due (mFutureTime n) d \<and> d \<in># elems (heap_of b w) \<and>
         elems (heap_of b w') = elems (heap_of b w) - {#d#})"
proof (cases "containers w b")
  case None
  with assms show ?thesis by (auto simp: pop_due_def heap_of_def)
next
  case (Some c)
  with assms(1) have ok: "timer_heap_ok (mTree c)" by (simp add: heap_of_def)
  show ?thesis
  proof (cases "heap_peek (mTree c)")
    case None
    with assms Some ok tmr.lh.peek_None [of "mTree c"] show ?thesis
      by (auto simp: pop_due_def popIfOutRanks_def heap_of_def put_container_same is_null_def)
  next
    case front: (Some f)
    with ok have vf: "valid_time (mFutureTime f)"
      using tmr.lh.peek_in heap_ok_valid by blast
    show ?thesis
    proof (cases "timer_outRanks n f")
      case True
      with front assms Some have "x = None" "w' = w" 
        by (auto simp: pop_due_def popIfOutRanks_def put_container_same)
      moreover have "\<not> due (mFutureTime n) e" if "e \<in># elems (mTree c)" for e
        using True vf assms(2) heap_peek_soonest [OF ok front that]
        by (auto simp: due_def timer_outRanks_iff time_le_def)
      ultimately show ?thesis using assms(1) Some by (auto simp: heap_of_def)
    next
      case False
      obtain x2 t where p: "heap_pop timer_outRanks (mTree c) = (x2, t)" by fastforce
      from tmr.lh.pop_fst [OF ok] have x2: "x2 = Some f" unfolding p front by simp
      note pf = tmr.lh.pop_SomeD [OF ok p [unfolded x2]]
      from False vf assms(2) have "due (mFutureTime n) f" by (simp add: due_def timer_outRanks_iff)
      moreover from front False Some p x2 assms(3)
      have "x = Some f" "w' = put_container b (c\<lparr>mTree := t\<rparr>) w"
        by (simp_all add: pop_due_def popIfOutRanks_def)
      ultimately show ?thesis using pf Some by (simp add: heap_of_def put_container_def)
    qed
  qed
qed


text \<open>
  The loop ends with no due timer in the heap, fires only due timers after the first, and
  leaves the clock, the pending messages in front, the other container and the kernel setting
  alone.
\<close>

lemma clock_delegate_expire [simp]: "clock (delegate_expire d w) = clock w"
  by (auto simp: delegate_expire_def timer_stop_def destroyLocked_def sendMsg_def
      split: option.splits prod.splits)

lemma fired_delegate_expire:
  "\<exists>xs. fired (delegate_expire d w) = fired w @ xs \<and>
     (\<forall>(cl, t, now) \<in> set xs. t = mFutureTime d \<and> now = clock w)"
  by (auto simp: delegate_expire_def timer_stop_def destroyLocked_def sendMsg_def
      split: option.splits prod.splits)

lemma pop_due_frame:
  "pop_due b n w = (x, w') \<Longrightarrow>
   clock w' = clock w \<and> fired w' = fired w \<and> msgs w' = msgs w \<and> mTimer w' = mTimer w \<and>
   delegates w' = delegates w \<and> fault w' = fault w"
  by (auto simp: pop_due_def put_container_def split: option.splits prod.splits)

definition fired_due :: "delegate option \<Rightarrow> timespec \<Rightarrow> (nat \<times> timespec \<times> timespec) list \<Rightarrow> bool" where
  "fired_due first now xs \<longleftrightarrow>
     (\<forall>(cl, t, at) \<in> set xs. at = now \<and> (time_le t now \<or> (\<exists>d. first = Some d \<and> t = mFutureTime d)))"

lemma expire_loop_spec:
  "timer_heap_ok (heap_of b w) \<Longrightarrow> valid_time (mFutureTime n) \<Longrightarrow> mFutureTime n = clock w \<Longrightarrow>
   (timer = None \<Longrightarrow> \<forall>e \<in># elems (heap_of b w). \<not> due (clock w) e) \<Longrightarrow>
   timer_heap_ok (heap_of b (expire_loop b n timer w)) \<and>
   clock (expire_loop b n timer w) = clock w \<and>
   (\<forall>e \<in># elems (heap_of b (expire_loop b n timer w)). \<not> due (clock w) e) \<and>
   (\<exists>xs. fired (expire_loop b n timer w) = fired w @ xs \<and> fired_due timer (clock w) xs)"
proof (induction b n timer w rule: expire_loop.induct)
  case (1 b n w)
  then show ?case by (simp add: fired_due_def)
next
  case (2 b n timer w)
  obtain x w' where p: "pop_due b n (delegate_expire timer w) = (x, w')" by fastforce
  note c = pop_due_cases [OF _ _ p, simplified, OF "2.prems"(1,2)]
  note f = pop_due_frame [OF p]
  from c f "2.prems"(3) have nd: "x = None \<Longrightarrow> \<forall>e \<in># elems (heap_of b w'). \<not> due (clock w') e"
    by auto
  have IH: "timer_heap_ok (heap_of b (expire_loop b n x w')) \<and>
    clock (expire_loop b n x w') = clock w' \<and>
    (\<forall>e \<in># elems (heap_of b (expire_loop b n x w')). \<not> due (clock w') e) \<and>
    (\<exists>xs. fired (expire_loop b n x w') = fired w' @ xs \<and> fired_due x (clock w') xs)"
    using "2.IH" [OF p [symmetric]] c f "2.prems"(2,3) nd by simp
  then obtain xs where xs: "fired (expire_loop b n x w') = fired w' @ xs" "fired_due x (clock w) xs"
    using f by auto
  obtain ys where ys: "fired (delegate_expire timer w) = fired w @ ys"
    "\<forall>(cl, t, now) \<in> set ys. t = mFutureTime timer \<and> now = clock w"
    using fired_delegate_expire [of timer w] by blast
  have "fired_due (Some timer) (clock w) (ys @ xs)"
    using xs(2) ys(2) c "2.prems"(3) by (auto simp: fired_due_def due_def split: option.splits)
  moreover have "fired (expire_loop b n x w') = fired w @ (ys @ xs)"
    using xs(1) ys(1) f by simp
  ultimately show ?case using IH f p by auto
qed


lemma msgs_delegate_expire:
  "\<exists>ms. msgs (delegate_expire d w) = msgs w @ ms \<and> (\<forall>m \<in> set ms. \<exists>b e. m = MsgTimerRemove b e)"
  by (auto simp: delegate_expire_def timer_stop_def destroyLocked_def sendMsg_def
      split: option.splits prod.splits)

lemma pop_due_containers:
  "pop_due b n w = (x, w') \<Longrightarrow>
   (\<forall>b'. b' \<noteq> b \<longrightarrow> containers w' b' = containers w b') \<and>
   (containers w' b = None \<longleftrightarrow> containers w b = None)"
  by (auto simp: pop_due_def put_container_def split: option.splits prod.splits)

lemma expire_loop_frame:
  "(\<forall>b'. b' \<noteq> b \<longrightarrow> containers (expire_loop b n timer w) b' = containers w b') \<and>
   (containers (expire_loop b n timer w) b = None \<longleftrightarrow> containers w b = None) \<and>
   (\<exists>ms. msgs (expire_loop b n timer w) = msgs w @ ms \<and>
     (\<forall>m \<in> set ms. \<exists>b e. m = MsgTimerRemove b e))"
proof (induction b n timer w rule: expire_loop.induct)
  case (2 b n timer w)
  obtain x w' where p: "pop_due b n (delegate_expire timer w) = (x, w')" by fastforce
  obtain ms where ms: "msgs (delegate_expire timer w) = msgs w @ ms"
    "\<forall>m \<in> set ms. \<exists>b e. m = MsgTimerRemove b e" using msgs_delegate_expire by blast
  obtain ks where ks: "msgs (expire_loop b n x w') = msgs w' @ ks"
    "\<forall>m \<in> set ks. \<exists>b e. m = MsgTimerRemove b e" using "2.IH" [OF p [symmetric]] by blast
  have "msgs (expire_loop b n x w') = msgs w @ (ms @ ks)"
    using ms ks pop_due_frame [OF p] by simp
  moreover have "\<forall>m \<in> set (ms @ ks). \<exists>b e. m = MsgTimerRemove b e" using ms ks by auto
  ultimately show ?case
    using "2.IH" [OF p [symmetric]] pop_due_containers [OF p] p by auto
qed simp

section \<open>Invariant of the service\<close>

definition timers_ok :: "timer_world \<Rightarrow> bool" where
  "timers_ok w \<longleftrightarrow> valid_time (clock w) \<and>
     (\<forall>b c. containers w b = Some c \<longrightarrow> timer_heap_ok (mTree c)) \<and>
     (\<forall>b c. containers w b = Some c \<longrightarrow> MsgTimerExpire b \<notin> set (msgs w) \<longrightarrow> armed_for_head c) \<and>
     (\<forall>b d. MsgTimerPush b d \<in> set (msgs w) \<longrightarrow> valid_time (mFutureTime d))"

lemma timers_ok_msgs_only:
  assumes "timers_ok w" and "clock w' = clock w" and "containers w' = containers w"
    and "msgs w' = msgs w @ ms"
    and "\<And>b d. MsgTimerPush b d \<in> set ms \<Longrightarrow> valid_time (mFutureTime d)"
  shows "timers_ok w'"
  using assms unfolding timers_ok_def by auto

lemma timers_ok_stop: "timers_ok w \<Longrightarrow> timer_stop c w = (r, w') \<Longrightarrow> timers_ok w'"
  by (auto simp: timers_ok_def timer_stop_def destroyLocked_def sendMsg_def split: option.splits)

lemma armed_new [simp]: "armed_for_head new_container"
  and mTree_new [simp]: "mTree new_container = Null"
  by (simp_all add: armed_for_head_def new_container_def heap_peek_def)

lemma timers_ok_get_container: "timers_ok w \<Longrightarrow> timers_ok (get_container fd b w)"
  by (auto simp: timers_ok_def get_container_def split: option.split)

lemma get_container_frame [simp]:
  "clock (get_container fd b w) = clock w" "msgs (get_container fd b w) = msgs w"
  "fault (get_container fd b w) = fault w" "delegates (get_container fd b w) = delegates w"
  "mTimer (get_container fd b w) = mTimer w" "next_addr (get_container fd b w) = next_addr w"
  "fired (get_container fd b w) = fired w"
  by (auto simp: get_container_def split: option.split)

lemma timers_ok_start:
  assumes "timers_ok w" and "valid_time (future_time (clock w) ms)"
    and "timer_start fd c ms b w = (r, w')"
  shows "timers_ok w'"
proof (cases "mTimer w c = None \<and> containers (get_container fd b w) b \<noteq> None")
  case True
  let ?d = "\<lparr>d_addr = next_addr w, mFutureTime = future_time (clock w) ms\<rparr>"
  show ?thesis
    by (rule timers_ok_msgs_only [OF timers_ok_get_container [OF assms(1), of fd b], where
          ms = "[MsgTimerPush b ?d]"])
      (use True assms(2,3) in \<open>auto simp: timer_start_def delegate_create_def sendMsg_def Let_def\<close>)
next
  case False
  with assms(3) have "w' = w \<or> w' = get_container fd b w"
    by (auto simp: timer_start_def Let_def split: option.splits)
  with assms(1) timers_ok_get_container show ?thesis by auto
qed

lemma timers_ok_push:
  assumes "timers_ok (w\<lparr>msgs := MsgTimerPush b d # msgs w\<rparr>)"
  shows "timers_ok (proc_push b d w)"
proof (cases "containers w b")
  case None
  with assms show ?thesis by (auto simp: proc_push_def timers_ok_def)
next
  case (Some c)
  with assms have ok: "timer_heap_ok (mTree c)" and v: "valid_time (mFutureTime d)"
    and a: "armed_for_head c \<or> MsgTimerExpire b \<in> set (msgs w)"
    by (auto simp: timers_ok_def)
  let ?c = "updateSoonestTime (heap_peek (mTree c)) (c\<lparr>mTree := heap_push timer_outRanks (mTree c) d\<rparr>)"
  have "timer_heap_ok (mTree ?c)" using ok v tmr.lh.inv_push [of "mTree c" d] by simp
  moreover have "armed_for_head ?c \<or> MsgTimerExpire b \<in> set (msgs w)"
    using a armed_push [OF ok v] by blast
  ultimately have "timers_ok (put_container b ?c w)"
    using assms by (auto simp: timers_ok_def put_container_def)
  with Some show ?thesis by (simp add: proc_push_def Let_def)
qed

lemma timers_ok_remove:
  assumes "timers_ok (w\<lparr>msgs := MsgTimerRemove b d # msgs w\<rparr>)"
  shows "timers_ok (proc_remove b d w)"
proof (cases "containers w b")
  case None
  with assms show ?thesis by (auto simp: proc_remove_def timers_ok_def)
next
  case (Some c)
  with assms have ok: "timer_heap_ok (mTree c)"
    and a: "armed_for_head c \<or> MsgTimerExpire b \<in> set (msgs w)"
    by (auto simp: timers_ok_def)
  obtain x t where r: "heap_remove timer_outRanks (mTree c) d = (x, t)" by fastforce
  let ?c = "if heap_peek (mTree c) = x then updateSoonestTime None (c\<lparr>mTree := t\<rparr>)
    else c\<lparr>mTree := t\<rparr>"
  have "timer_heap_ok t" using tmr.lh.inv_remove [OF ok, of d] r by simp
  then have "timer_heap_ok (mTree ?c)" by simp
  moreover have "armed_for_head ?c \<or> MsgTimerExpire b \<in> set (msgs w)"
    using a armed_remove [OF ok _ r] by blast
  ultimately have "timers_ok (put_container b ?c w)"
    using assms by (auto simp: timers_ok_def put_container_def)
  moreover have "timers_ok (w\<lparr>fault := True\<rparr>)" using assms by (auto simp: timers_ok_def)
  ultimately show ?thesis using Some r by (simp add: proc_remove_def Let_def timers_ok_def)
qed


lemma timers_ok_expire:
  assumes "timers_ok (w\<lparr>msgs := MsgTimerExpire b # msgs w\<rparr>)"
  shows "timers_ok (proc_expire b w)"
proof (cases "containers w b")
  case None
  with assms show ?thesis
    by (cases b) (auto simp: proc_expire_def timers_ok_def all_bool_eq)
next
  case (Some c)
  with assms have ok: "timer_heap_ok (mTree c)" by (simp add: timers_ok_def)
  let ?n = "\<lparr>d_addr = next_addr w, mFutureTime = clock w\<rparr>"
  obtain x t where p: "heap_pop timer_outRanks (mTree c) = (x, t)" by fastforce
  let ?w0 = "put_container b (c\<lparr>mTree := t\<rparr>) w"
  let ?w1 = "expire_loop b ?n x ?w0"
  have h0: "timer_heap_ok (heap_of b ?w0)"
    using tmr.lh.inv_pop [OF ok] p by (simp add: heap_of_def put_container_def)
  have n0: "\<forall>e \<in># elems (heap_of b ?w0). \<not> due (clock ?w0) e" if "x = None"
    using tmr.lh.pop_NoneD [OF ok, of t] p that by (auto simp: heap_of_def put_container_def)
  have "valid_time (clock w)" using assms by (simp add: timers_ok_def)
  then have sp: "timer_heap_ok (heap_of b ?w1)" "clock ?w1 = clock w"
    using expire_loop_spec [OF h0, of ?n x] n0 by (auto simp: put_container_def)
  note fr = expire_loop_frame [of b ?n x ?w0]
  from fr obtain c1 where c1: "containers ?w1 b = Some c1" by (auto simp: put_container_def)
  obtain ms where ms: "msgs ?w1 = msgs w @ ms" "\<forall>m \<in> set ms. \<exists>b e. m = MsgTimerRemove b e"
    using fr by (auto simp: put_container_def)
  let ?r = "put_container b (updateSoonestTime None c1) ?w1"
  have "timer_heap_ok (mTree c1)" using sp(1) c1 by (simp add: heap_of_def)
  moreover have "containers ?w1 b' = containers w b'" if "b' \<noteq> b" for b'
    using fr that by (simp add: put_container_def)
  moreover have "MsgTimerExpire b' \<in> set (msgs ?w1) \<longleftrightarrow> MsgTimerExpire b' \<in> set (msgs w)"
    "MsgTimerPush b' d \<in> set (msgs ?w1) \<longleftrightarrow> MsgTimerPush b' d \<in> set (msgs w)" for b' d
    using ms by auto
  ultimately have "timers_ok ?r"
    using assms sp(2) armed_updateSoonestTime_None [of c1]
    unfolding timers_ok_def by (auto simp: put_container_def)
  with Some p c1 show ?thesis by (simp add: proc_expire_def Let_def)
qed

lemma timers_ok_step: "timer_step w w' \<Longrightarrow> timers_ok w \<Longrightarrow> timers_ok w'"
proof (induction rule: timer_step.induct)
  case (client_start w ms ok c b r w')
  then show ?case by (blast intro: timers_ok_start)
next
  case (client_stop c w r w')
  then show ?case by (blast intro: timers_ok_stop)
next
  case (tick w t)
  then show ?case by (auto simp: timers_ok_def)
next
  case (poll w b c t)
  then show ?case
    by (auto simp: timers_ok_def container_expire_def sendMsg_def put_container_def)
next
  case (process w m ms)
  have "w = (w\<lparr>msgs := ms\<rparr>)\<lparr>msgs := m # msgs (w\<lparr>msgs := ms\<rparr>)\<rparr>"
    using process(1) by simp
  then have ok: "timers_ok ((w\<lparr>msgs := ms\<rparr>)\<lparr>msgs := m # msgs (w\<lparr>msgs := ms\<rparr>)\<rparr>)"
    using process(2) by simp
  show ?case
  proof (cases m)
    case (MsgTimerPush b d)
    then show ?thesis using timers_ok_push [where w = "w\<lparr>msgs := ms\<rparr>"] ok by simp
  next
    case (MsgTimerRemove b d)
    then show ?thesis using timers_ok_remove [where w = "w\<lparr>msgs := ms\<rparr>"] ok by simp
  next
    case (MsgTimerExpire b)
    then show ?thesis using timers_ok_expire [where w = "w\<lparr>msgs := ms\<rparr>"] ok by simp
  qed
qed

lemma timers_ok_init: "valid_time t0 \<Longrightarrow> timers_ok (init_world t0)"
  by (simp add: timers_ok_def init_world_def)

lemma timer_reachable_ok: "timer_reachable t0 w \<Longrightarrow> timers_ok w"
  by (induction rule: timer_reachable.induct) (auto intro: timers_ok_init timers_ok_step)


section \<open>No delegate is used after it is deleted\<close>

text \<open>
  What the service keeps between the addresses it holds and the delegates that live: every
  delegate in a heap or named by a message lives, a removal message is the last mention of its
  delegate, and a delegate whose removal is under way belongs to no client any more.
\<close>

definition refd :: "timer_world \<Rightarrow> bool \<Rightarrow> delegate \<Rightarrow> bool" where
  "refd w b d \<longleftrightarrow> d \<in># elems (heap_of b w) \<or> MsgTimerPush b d \<in> set (msgs w) \<or>
     MsgTimerRemove b d \<in> set (msgs w)"

fun removed_addrs :: "timer_msg list \<Rightarrow> nat list" where
  "removed_addrs [] = []"
| "removed_addrs (MsgTimerRemove b d # ms) = d_addr d # removed_addrs ms"
| "removed_addrs (m # ms) = removed_addrs ms"

fun remove_is_last :: "timer_msg list \<Rightarrow> bool" where
  "remove_is_last [] = True"
| "remove_is_last (MsgTimerRemove b d # ms) =
     ((\<forall>b' d'. MsgTimerPush b' d' \<in> set ms \<longrightarrow> d_addr d' \<noteq> d_addr d) \<and> remove_is_last ms)"
| "remove_is_last (m # ms) = remove_is_last ms"

definition one_home :: "timer_world \<Rightarrow> bool \<Rightarrow> delegate \<Rightarrow> bool" where
  "one_home w b d \<longleftrightarrow> (\<forall>b' d'. refd w b' d' \<longrightarrow> d_addr d' = d_addr d \<longrightarrow> b' = b \<and> d' = d)"

definition at_most_once :: "timer_world \<Rightarrow> bool" where
  "at_most_once w \<longleftrightarrow>
     (\<forall>b d. count (elems (heap_of b w)) d + count (mset (msgs w)) (MsgTimerPush b d) \<le> 1)"

definition timers_safe :: "timer_world \<Rightarrow> bool" where
  "timers_safe w \<longleftrightarrow>
     \<not> fault w \<and>
     (\<forall>a. delegates w a \<noteq> None \<longrightarrow> a < next_addr w) \<and>
     (\<forall>b d. refd w b d \<longrightarrow> delegates w (d_addr d) \<noteq> None \<and> one_home w b d) \<and>
     (\<forall>b d. MsgTimerRemove b d \<in> set (msgs w) \<longrightarrow> delegates w (d_addr d) = Some (None, None)) \<and>
     (\<forall>c d. mTimer w c = Some d \<longrightarrow>
        (\<exists>b. delegates w (d_addr d) = Some (Some c, Some b) \<and> one_home w b d)) \<and>
     distinct (removed_addrs (msgs w)) \<and> remove_is_last (msgs w) \<and> at_most_once w"

lemma timers_safeI:
  assumes "\<not> fault w" and "\<And>a. delegates w a \<noteq> None \<Longrightarrow> a < next_addr w"
    and "\<And>b d. refd w b d \<Longrightarrow> delegates w (d_addr d) \<noteq> None \<and> one_home w b d"
    and "\<And>b d. MsgTimerRemove b d \<in> set (msgs w) \<Longrightarrow> delegates w (d_addr d) = Some (None, None)"
    and "\<And>c d. mTimer w c = Some d \<Longrightarrow>
      \<exists>b. delegates w (d_addr d) = Some (Some c, Some b) \<and> one_home w b d"
    and "distinct (removed_addrs (msgs w))" and "remove_is_last (msgs w)" and "at_most_once w"
  shows "timers_safe w"
  using assms by (simp add: timers_safe_def)

lemma timers_safeD:
  assumes "timers_safe w"
  shows safe_fault: "\<not> fault w"
    and safe_addr: "delegates w a \<noteq> None \<Longrightarrow> a < next_addr w"
    and safe_live: "refd w b d \<Longrightarrow> delegates w (d_addr d) \<noteq> None"
    and safe_home: "refd w b d \<Longrightarrow> one_home w b d"
    and safe_removing: "MsgTimerRemove b d \<in> set (msgs w) \<Longrightarrow> delegates w (d_addr d) = Some (None, None)"
    and safe_client: "mTimer w c = Some d \<Longrightarrow>
      \<exists>b. delegates w (d_addr d) = Some (Some c, Some b) \<and> one_home w b d"
    and safe_distinct: "distinct (removed_addrs (msgs w))"
    and safe_last: "remove_is_last (msgs w)" and safe_once: "at_most_once w"
  using assms unfolding timers_safe_def by (auto simp del: not_None_eq)

lemma refd_addr: "timers_safe w \<Longrightarrow> refd w b d \<Longrightarrow> d_addr d < next_addr w"
  using safe_live safe_addr by blast

lemma client_addr: "timers_safe w \<Longrightarrow> mTimer w c = Some d \<Longrightarrow> d_addr d < next_addr w"
  using safe_client [of w c d] safe_addr [of w "d_addr d"] by auto

lemma removed_addrs_append [simp]: "removed_addrs (xs @ ys) = removed_addrs xs @ removed_addrs ys"
  by (induction xs rule: removed_addrs.induct) auto

lemma removed_addrs_iff:
  "a \<in> set (removed_addrs ms) \<longleftrightarrow> (\<exists>b d. MsgTimerRemove b d \<in> set ms \<and> d_addr d = a)"
  by (induction ms rule: removed_addrs.induct) auto

lemma removed_addrs_tl: "distinct (removed_addrs (m # ms)) \<Longrightarrow> distinct (removed_addrs ms)"
  by (cases m) auto

lemma remove_is_last_tl: "remove_is_last (m # ms) \<Longrightarrow> remove_is_last ms"
  by (cases m) auto

lemma remove_is_last_snoc:
  "remove_is_last ms \<Longrightarrow> (\<And>b d. m = MsgTimerPush b d \<Longrightarrow> d_addr d \<notin> set (removed_addrs ms)) \<Longrightarrow>
   remove_is_last (ms @ [m])"
  by (induction ms rule: remove_is_last.induct) (cases m; auto)+

lemma at_most_once_shrink:
  assumes "at_most_once w" and "\<And>b. elems (heap_of b w') \<subseteq># elems (heap_of b w)"
    and "mset (msgs w') \<subseteq># mset (msgs w)"
  shows "at_most_once w'"
  unfolding at_most_once_def
proof (intro allI)
  fix b d
  have "count (elems (heap_of b w)) d + count (mset (msgs w)) (MsgTimerPush b d) \<le> 1"
    using assms(1) by (simp add: at_most_once_def)
  with mset_subset_eq_count [OF assms(2) [of b], of d]
    mset_subset_eq_count [OF assms(3), of "MsgTimerPush b d"]
  show "count (elems (heap_of b w')) d + count (mset (msgs w')) (MsgTimerPush b d) \<le> 1" by linarith
qed

lemma timers_safe_shrink:
  assumes s: "timers_safe w" and h: "\<And>b. elems (heap_of b w') \<subseteq># elems (heap_of b w)"
    and m: "msgs w' = msgs w \<or> (\<exists>m. msgs w = m # msgs w')"
    and "delegates w' = delegates w" and "mTimer w' = mTimer w" and "next_addr w' = next_addr w"
    and "fault w' = fault w"
  shows "timers_safe w'"
proof -
  have ms: "set (msgs w') \<subseteq> set (msgs w)" using m by auto
  have r: "refd w' b d \<Longrightarrow> refd w b d" for b d
    using ms mset_subset_eqD [OF h] by (auto simp: refd_def)
  then have oh: "one_home w b d \<Longrightarrow> one_home w' b d" for b d by (auto simp: one_home_def)
  have ra: "distinct (removed_addrs (msgs w'))" "remove_is_last (msgs w')"
    using s m by (auto simp: timers_safe_def dest: removed_addrs_tl remove_is_last_tl)
  have "mset (msgs w') \<subseteq># mset (msgs w)"
    using m by auto
  with s h have "at_most_once w'" by (auto simp: timers_safe_def intro: at_most_once_shrink)
  with assms(4-7) ra ms show ?thesis
    using timers_safeD [OF s] r oh by (intro timers_safeI) (auto dest!: r, blast)
qed

lemma timers_safe_snoc_expire: "timers_safe w \<Longrightarrow> timers_safe (sendMsg (MsgTimerExpire b) w)"
  by (auto simp: timers_safe_def sendMsg_def refd_def one_home_def at_most_once_def heap_of_def
      intro!: remove_is_last_snoc)

text \<open>Creating a delegate: its address is new.\<close>

lemma timers_safe_start:
  assumes s: "timers_safe w" and st: "timer_start fd c ms b w = (r, w')"
  shows "timers_safe w'"
proof -
  let ?w1 = "get_container fd b w"
  let ?d = "\<lparr>d_addr = next_addr w, mFutureTime = future_time (clock w) ms\<rparr>"
  have h1: "heap_of b' ?w1 = heap_of b' w" for b'
    by (auto simp: heap_of_def get_container_def new_container_def split: option.split)
  have s1: "timers_safe ?w1" by (rule timers_safe_shrink [OF s]) (simp_all add: h1)
  note fresh = refd_addr [OF s] and freshT = client_addr [OF s]
  let ?w2 = "?w1\<lparr>delegates := (delegates w)(next_addr w \<mapsto> (Some c, Some b)),
     next_addr := Suc (next_addr w), msgs := msgs w @ [MsgTimerPush b ?d],
     mTimer := (mTimer w)(c \<mapsto> ?d)\<rparr>"
  have h2: "heap_of b' ?w2 = heap_of b' w" for b' using h1 by (simp add: heap_of_def)
  have r2: "refd ?w2 b' d' \<longleftrightarrow> refd w b' d' \<or> (b' = b \<and> d' = ?d)" for b' d'
    by (auto simp: refd_def h2)
  have once: "at_most_once ?w2"
  proof -
    have "\<not> refd w b ?d" using fresh [of b ?d] by auto
    then have "?d \<notin># elems (heap_of b w)" "MsgTimerPush b ?d \<notin> set (msgs w)"
      by (auto simp: refd_def)
    with s show ?thesis
      by (auto simp: at_most_once_def timers_safe_def h2 not_in_iff)
  qed
  have oh: "one_home w b' d' \<Longrightarrow> d_addr d' < next_addr w \<Longrightarrow> one_home ?w2 b' d'" for b' d'
    by (auto simp: one_home_def r2)
  have ohd: "one_home ?w2 b ?d" using fresh by (fastforce simp: one_home_def r2)
  have last: "remove_is_last (msgs ?w2)" "distinct (removed_addrs (msgs ?w2))"
    using safe_last [OF s] safe_distinct [OF s] fresh
    by (fastforce simp: removed_addrs_iff refd_def intro!: remove_is_last_snoc)+
  have "timers_safe ?w2"
  proof (rule timers_safeI)
    show "\<not> fault ?w2" using safe_fault [OF s] by simp
    show "a < next_addr ?w2" if "delegates ?w2 a \<noteq> None" for a
      using that safe_addr [OF s, of a] by (auto split: if_splits)
    show "delegates ?w2 (d_addr d') \<noteq> None \<and> one_home ?w2 b' d'" if "refd ?w2 b' d'" for b' d'
      using that fresh [of b' d'] safe_live [OF s, of b' d'] safe_home [OF s, of b' d'] oh ohd
      by (auto simp: r2)
    show "delegates ?w2 (d_addr d') = Some (None, None)" if "MsgTimerRemove b' d' \<in> set (msgs ?w2)" for b' d'
      using that fresh [of b' d'] safe_removing [OF s, of b' d'] by (auto simp: refd_def)
    show "\<exists>b'. delegates ?w2 (d_addr d') = Some (Some c', Some b') \<and> one_home ?w2 b' d'"
      if "mTimer ?w2 c' = Some d'" for c' d'
      using that freshT [of c' d'] safe_client [OF s, of c' d'] oh ohd
      by (auto split: if_splits)
  qed (use last once in auto)
  then show ?thesis
    using st s s1 by (auto simp: timer_start_def delegate_create_def sendMsg_def Let_def
        split: option.splits)
qed

text \<open>Stopping a timer: its delegate loses client and container, and its removal is queued.\<close>

lemma timers_safe_stop:
  assumes s: "timers_safe w" and st: "timer_stop c w = (r, w')"
  shows "timers_safe w'"
proof (cases "mTimer w c")
  case None
  with s st show ?thesis by (simp add: timer_stop_def)
next
  case (Some d)
  then obtain b where b: "delegates w (d_addr d) = Some (Some c, Some b)" "one_home w b d"
    using safe_client [OF s] by blast
  let ?w = "w\<lparr>mTimer := (mTimer w)(c := None),
     delegates := (delegates w)(d_addr d \<mapsto> (None, None)), msgs := msgs w @ [MsgTimerRemove b d]\<rparr>"
  have w': "w' = ?w"
    using st Some b by (simp add: timer_stop_def destroyLocked_def sendMsg_def)
  have h: "heap_of b' ?w = heap_of b' w" for b' by (simp add: heap_of_def)
  have r2: "refd ?w b' d' \<longleftrightarrow> refd w b' d' \<or> (b' = b \<and> d' = d)" for b' d'
    by (auto simp: refd_def h)
  have oh: "one_home ?w b' d'" if "one_home w b' d'" "d_addr d' = d_addr d \<Longrightarrow> b' = b \<and> d' = d" for b' d'
    using that by (auto simp: one_home_def r2)
  have other: "b' = b \<and> d' = d" if "refd w b' d'" "d_addr d' = d_addr d" for b' d'
    using that b(2) by (simp add: one_home_def)
  have ohd: "one_home ?w b d" using b(2) by (auto simp: one_home_def r2)
  have nr: "d_addr d \<notin> set (removed_addrs (msgs w))"
    using safe_removing [OF s] b(1) by (fastforce simp: removed_addrs_iff)
  have tm: "d_addr d' \<noteq> d_addr d" if "mTimer w c' = Some d'" "c' \<noteq> c" for c' d'
    using safe_client [OF s that(1)] that(2) b(1) by auto
  have once: "at_most_once ?w" using s by (auto simp: timers_safe_def at_most_once_def h)
  have last: "remove_is_last (msgs ?w)" "distinct (removed_addrs (msgs ?w))"
    using safe_last [OF s] safe_distinct [OF s] nr by (auto intro!: remove_is_last_snoc)
  have cl: "\<exists>b'. delegates ?w (d_addr d') = Some (Some c', Some b') \<and> one_home ?w b' d'"
    if "mTimer ?w c' = Some d'" for c' d'
  proof -
    from that have t: "mTimer w c' = Some d'" "c' \<noteq> c" by (auto split: if_splits)
    then obtain b' where "delegates w (d_addr d') = Some (Some c', Some b')" "one_home w b' d'"
      using safe_client [OF s] by blast
    with tm [OF t] oh show ?thesis by auto
  qed
  have live: "delegates ?w (d_addr d') \<noteq> None \<and> one_home ?w b' d'" if "refd ?w b' d'" for b' d'
    using that safe_live [OF s, of b' d'] safe_home [OF s, of b' d'] oh ohd other
    unfolding r2 by auto
  have rm: "delegates ?w (d_addr d') = Some (None, None)" if "MsgTimerRemove b' d' \<in> set (msgs ?w)" for b' d'
    using that safe_removing [OF s, of b' d'] by auto
  have "a < next_addr ?w" if "delegates ?w a \<noteq> None" for a
    using that b(1) safe_addr [OF s, of a] safe_addr [OF s, of "d_addr d"] by (auto split: if_splits)
  then have "timers_safe ?w"
    using safe_fault [OF s] live rm cl last once by (intro timers_safeI) simp_all
  with w' show ?thesis by simp
qed

lemma timers_safe_delegate_expire:
  assumes s: "timers_safe w" and "delegates w (d_addr d) \<noteq> None"
  shows "timers_safe (delegate_expire d w)"
proof -
  have fired: "timers_safe (w1\<lparr>fired := xs\<rparr>)" if "timers_safe w1" for w1 xs
    using that by (rule timers_safe_shrink) (simp_all add: heap_of_def)
  show ?thesis
    using assms timers_safe_stop [OF s] fired
    by (auto simp: delegate_expire_def split: option.split prod.split bool.split)
qed

lemma timers_safe_loop:
  "timers_safe w \<Longrightarrow> timer_heap_ok (heap_of b w) \<Longrightarrow> valid_time (mFutureTime n) \<Longrightarrow>
   (\<And>d. timer = Some d \<Longrightarrow> delegates w (d_addr d) \<noteq> None) \<Longrightarrow>
   timers_safe (expire_loop b n timer w)"
proof (induction b n timer w rule: expire_loop.induct)
  case (2 b n timer w)
  obtain x w' where p: "pop_due b n (delegate_expire timer w) = (x, w')" by fastforce
  have se: "timers_safe (delegate_expire timer w)"
    using "2.prems"(1,4) by (blast intro: timers_safe_delegate_expire)
  note c = pop_due_cases [OF _ _ p, simplified, OF "2.prems"(2,3)]
  note f = pop_due_frame [OF p] and cn = pop_due_containers [OF p]
  have sub: "elems (heap_of b' w') \<subseteq># elems (heap_of b' (delegate_expire timer w))" for b'
  proof (cases "b' = b")
    case True
    with c show ?thesis by (auto split: option.splits)
  next
    case False
    with cn show ?thesis by (simp add: heap_of_def)
  qed
  have na: "next_addr w' = next_addr (delegate_expire timer w)"
    using p by (auto simp: pop_due_def put_container_def split: option.splits prod.splits)
  have sw: "timers_safe w'"
    by (rule timers_safe_shrink [OF se sub]) (use f na in auto)
  have live: "delegates w' (d_addr d) \<noteq> None" if "x = Some d" for d
  proof -
    from that c have "refd (delegate_expire timer w) b d" by (simp add: refd_def)
    from safe_live [OF se this] f show ?thesis by simp
  qed
  have "timers_safe (expire_loop b n x w')"
    using "2.IH" [OF p [symmetric] sw _ "2.prems"(3)] c live by blast
  with p show ?case by simp
qed simp

lemma heap_of_put [simp]:
  "heap_of b' (put_container b c w) = (if b' = b then mTree c else heap_of b' w)"
  by (simp add: heap_of_def put_container_def)

lemma put_container_frame [simp]:
  "msgs (put_container b c w) = msgs w" "delegates (put_container b c w) = delegates w"
  "mTimer (put_container b c w) = mTimer w" "next_addr (put_container b c w) = next_addr w"
  "fault (put_container b c w) = fault w" "clock (put_container b c w) = clock w"
  "fired (put_container b c w) = fired w"
  "containers (put_container b c w) = (containers w)(b \<mapsto> c)"
  by (simp_all add: put_container_def)

lemma heap_of_msgs [simp]: "heap_of b (w\<lparr>msgs := ms\<rparr>) = heap_of b w"
  by (simp add: heap_of_def)

lemma timers_safe_push:
  assumes s: "timers_safe (w\<lparr>msgs := MsgTimerPush b d # msgs w\<rparr>)"
  shows "timers_safe (proc_push b d w)"
proof (cases "containers w b")
  case None
  then show ?thesis using s by (auto simp: proc_push_def intro: timers_safe_shrink [OF s])
next
  case (Some c)
  let ?s = "w\<lparr>msgs := MsgTimerPush b d # msgs w\<rparr>"
  let ?c = "updateSoonestTime (heap_peek (mTree c)) (c\<lparr>mTree := heap_push timer_outRanks (mTree c) d\<rparr>)"
  let ?w = "put_container b ?c w"
  have el: "elems (mTree ?c) = add_mset d (elems (heap_of b w))"
    using Some tmr.lh.content_push [of "mTree c" d] by (simp add: heap_of_def)
  have r: "refd ?w b' d' \<longleftrightarrow> refd ?s b' d'" for b' d'
    using el by (auto simp: refd_def)
  then have oh: "one_home ?w b' d' \<longleftrightarrow> one_home ?s b' d'" for b' d' by (simp add: one_home_def)
  have once: "at_most_once ?w"
    unfolding at_most_once_def
  proof (intro allI)
    fix b' d'
    have "count (elems (heap_of b' ?s)) d' + count (mset (msgs ?s)) (MsgTimerPush b' d') \<le> 1"
      using safe_once [OF s] unfolding at_most_once_def by blast
    then show "count (elems (heap_of b' ?w)) d' + count (mset (msgs ?w)) (MsgTimerPush b' d') \<le> 1"
      using el by (auto split: if_splits)
  qed
  have "timers_safe ?w"
  proof (rule timers_safeI)
    show "delegates ?w (d_addr d') \<noteq> None \<and> one_home ?w b' d'" if "refd ?w b' d'" for b' d'
      using that safe_live [OF s, of b' d'] safe_home [OF s, of b' d'] by (simp add: r oh)
    show "\<exists>b'. delegates ?w (d_addr d') = Some (Some c', Some b') \<and> one_home ?w b' d'"
      if "mTimer ?w c' = Some d'" for c' d'
      using that safe_client [OF s, of c' d'] by (simp add: oh)
  qed (use safe_fault [OF s] safe_addr [OF s] safe_removing [OF s] safe_distinct [OF s]
      safe_last [OF s] once in auto)
  with Some show ?thesis by (simp add: proc_push_def Let_def)
qed

text \<open>The removal of a delegate deletes it: nothing else names it by then.\<close>

lemma timers_safe_remove:
  assumes s: "timers_safe (w\<lparr>msgs := MsgTimerRemove b d # msgs w\<rparr>)"
    and ok: "\<And>c. containers w b = Some c \<Longrightarrow> timer_heap_ok (mTree c)"
  shows "timers_safe (proc_remove b d w)"
proof (cases "containers w b")
  case None
  then show ?thesis using s by (auto simp: proc_remove_def intro: timers_safe_shrink [OF s])
next
  case (Some c)
  let ?s = "w\<lparr>msgs := MsgTimerRemove b d # msgs w\<rparr>"
  note hok = ok [OF Some]
  obtain x t where rm: "heap_remove timer_outRanks (mTree c) d = (x, t)" by fastforce
  define c2 where "c2 = (if heap_peek (mTree c) = x then updateSoonestTime None (c\<lparr>mTree := t\<rparr>)
    else c\<lparr>mTree := t\<rparr>)"
  let ?w = "(put_container b c2 w)\<lparr>delegates := (delegates w)(d_addr d := None)\<rparr>"
  have del: "delegates w (d_addr d) = Some (None, None)" using safe_removing [OF s, of b d] by simp
  have home: "one_home ?s b d" using safe_home [OF s, of b d] by (simp add: refd_def)
  have mt: "mTree c2 = t" by (simp add: c2_def)
  have el: "elems t = elems (heap_of b w) - {#d#}"
    using rm Some tmr.lh.remove_content [OF hok, of d] tmr.lh.remove_notin [OF hok, of d]
    by (cases "d \<in># elems (mTree c)") (auto simp: heap_of_def)
  have hw: "heap_of b' ?w = (if b' = b then t else heap_of b' w)" for b'
    using mt by (simp add: heap_of_def)
  have sub: "elems (heap_of b' ?w) \<subseteq># elems (heap_of b' w)" for b'
    using el by (simp add: hw)
  have r: "refd ?s b' d' \<and> d_addr d' \<noteq> d_addr d" if a: "refd ?w b' d'" for b' d'
  proof
    show rs: "refd ?s b' d'" using a mset_subset_eqD [OF sub] by (auto simp: refd_def)
    show "d_addr d' \<noteq> d_addr d"
    proof
      assume e: "d_addr d' = d_addr d"
      with home rs have eq: "b' = b" "d' = d" by (auto simp: one_home_def)
      have "count (elems (heap_of b w)) d \<le> 1"
        using safe_once [OF s] by (auto simp: at_most_once_def intro: le_trans [OF le_add1])
      then have "d \<notin># elems t" using el by (simp add: not_in_iff)
      moreover have "MsgTimerPush b d \<notin> set (msgs w)" using safe_last [OF s] by auto
      moreover have "MsgTimerRemove b d \<notin> set (msgs w)"
        using safe_distinct [OF s] by (auto simp: removed_addrs_iff)
      ultimately show False using a eq by (auto simp: refd_def hw)
    qed
  qed
  have oh: "one_home ?w b' d'" if "one_home ?s b' d'" for b' d'
    using that r unfolding one_home_def by blast
  have once: "at_most_once ?w"
    by (rule at_most_once_shrink [OF safe_once [OF s]]) (use sub in auto)
  have "timers_safe ?w"
  proof (rule timers_safeI)
    show "delegates ?w (d_addr d') \<noteq> None \<and> one_home ?w b' d'" if "refd ?w b' d'" for b' d'
      using r [OF that] safe_live [OF s, of b' d'] safe_home [OF s, of b' d'] oh by auto
    show "delegates ?w (d_addr d') = Some (None, None)" if "MsgTimerRemove b' d' \<in> set (msgs ?w)" for b' d'
      using that r [of b' d'] safe_removing [OF s, of b' d'] by (auto simp: refd_def)
    show "\<exists>b'. delegates ?w (d_addr d') = Some (Some c', Some b') \<and> one_home ?w b' d'"
      if "mTimer ?w c' = Some d'" for c' d'
      using that safe_client [OF s, of c' d'] del oh by auto
    show "a < next_addr ?w" if "delegates ?w a \<noteq> None" for a
      using that safe_addr [OF s, of a] by (auto split: if_splits)
  qed (use safe_fault [OF s] safe_distinct [OF s] safe_last [OF s] once in auto)
  with Some rm del show ?thesis by (simp add: proc_remove_def c2_def Let_def)
qed

lemma timers_safe_expire:
  assumes s: "timers_safe (w\<lparr>msgs := MsgTimerExpire b # msgs w\<rparr>)"
    and ok: "\<And>c. containers w b = Some c \<Longrightarrow> timer_heap_ok (mTree c)" and v: "valid_time (clock w)"
  shows "timers_safe (proc_expire b w)"
proof (cases "containers w b")
  case None
  then show ?thesis using s by (auto simp: proc_expire_def intro: timers_safe_shrink [OF s])
next
  case (Some c)
  note hok = ok [OF Some]
  let ?n = "\<lparr>d_addr = next_addr w, mFutureTime = clock w\<rparr>"
  obtain x t where p: "heap_pop timer_outRanks (mTree c) = (x, t)" by fastforce
  let ?w0 = "put_container b (c\<lparr>mTree := t\<rparr>) w"
  let ?w1 = "expire_loop b ?n x ?w0"
  have el: "elems t \<subseteq># elems (mTree c)" "timer_heap_ok t"
    "x = Some d \<Longrightarrow> d \<in># elems (mTree c)" for d
    using tmr.lh.pop_SomeD [OF hok, of _ t] tmr.lh.pop_NoneD [OF hok, of t] tmr.lh.inv_pop [OF hok] p
    by (cases x; auto)+
  have "timers_safe ?w0"
    by (rule timers_safe_shrink [OF s]) (use el(1) Some in \<open>auto simp: heap_of_def\<close>)
  moreover have "delegates ?w0 (d_addr d) \<noteq> None" if "x = Some d" for d
    using safe_live [OF s, of b d] el(3) [OF that] Some by (simp add: refd_def heap_of_def)
  ultimately have s1: "timers_safe ?w1"
    using timers_safe_loop [of ?w0 b ?n x] el(2) v by simp
  obtain c1 where c1: "containers ?w1 b = Some c1"
    using expire_loop_frame [of b ?n x ?w0] by auto
  have "timers_safe (put_container b (updateSoonestTime None c1) ?w1)"
    by (rule timers_safe_shrink [OF s1]) (use c1 in \<open>auto simp: heap_of_def\<close>)
  with Some p c1 show ?thesis by (simp add: proc_expire_def Let_def)
qed

lemma timers_safe_step:
  "timer_step w w' \<Longrightarrow> timers_ok w \<Longrightarrow> timers_safe w \<Longrightarrow> timers_safe w'"
proof (induction rule: timer_step.induct)
  case (client_start w ms ok c b r w')
  then show ?case by (blast intro: timers_safe_start)
next
  case (client_stop c w r w')
  then show ?case by (blast intro: timers_safe_stop)
next
  case (tick w t)
  show ?case by (rule timers_safe_shrink [OF tick(4)]) (simp_all add: heap_of_def)
next
  case (poll w b c t)
  then show ?case
    by (auto simp: container_expire_def heap_of_def intro!: timers_safe_snoc_expire
        intro: timers_safe_shrink [OF poll(6)])
next
  case (process w m ms)
  let ?w = "w\<lparr>msgs := ms\<rparr>"
  have "w = ?w\<lparr>msgs := m # msgs ?w\<rparr>" using process(1) by simp
  then have s: "timers_safe (?w\<lparr>msgs := m # msgs ?w\<rparr>)" using process(3) by simp
  have ok: "containers ?w b = Some c \<Longrightarrow> timer_heap_ok (mTree c)" "valid_time (clock ?w)" for b c
    using process(2) by (auto simp: timers_ok_def)
  show ?case
  proof (cases m)
    case (MsgTimerPush b d)
    then show ?thesis using timers_safe_push [where w = ?w] s by simp
  next
    case (MsgTimerRemove b d)
    then show ?thesis using timers_safe_remove [where w = ?w, OF _ ok(1)] s by simp
  next
    case (MsgTimerExpire b)
    then show ?thesis using timers_safe_expire [where w = ?w, OF _ ok] s by simp
  qed
qed

lemma timers_safe_init: "timers_safe (init_world t0)"
  by (auto simp: timers_safe_def init_world_def refd_def heap_of_def at_most_once_def)

lemma timer_reachable_safe: "timer_reachable t0 w \<Longrightarrow> timers_safe w"
  by (induction rule: timer_reachable.induct)
    (auto intro: timers_safe_init timers_safe_step timer_reachable_ok)

section \<open>Properties\<close>

text \<open>
  C2: in every reachable state of the timer service, a heap that is not empty either has its
  expiry message pending or the kernel polls its descriptor, set to the deadline of the head,
  and no timer of the heap has an earlier deadline.
\<close>

theorem timer_kernel_waits_for_soonest:
  assumes "timer_reachable t0 w" and "containers w b = Some c" and "e \<in># elems (mTree c)"
    and "MsgTimerExpire b \<notin> set (msgs w)"
  shows "\<exists>d. heap_peek (mTree c) = Some d \<and> polled c \<and> armed c = Some (mFutureTime d) \<and>
           time_le (mFutureTime d) (mFutureTime e)"
proof -
  from timer_reachable_ok [OF assms(1)] assms(2,4)
  have ok: "timer_heap_ok (mTree c)" and a: "armed_for_head c" by (auto simp: timers_ok_def)
  from assms(3) tmr.lh.peek_None [OF ok] obtain d where d: "heap_peek (mTree c) = Some d" by fastforce
  with a heap_peek_soonest [OF ok d assms(3)] show ?thesis by (auto simp: armed_for_head_def)
qed



section \<open>Running a schedule\<close>

text \<open>
  A schedule of steps as a function: a step that is not enabled does nothing. Every state a
  schedule ends in is reachable.
\<close>

datatype timer_event = Start nat u32 | Stop nat | Tick timespec | Poll bool | Process

fun timer_do :: "timer_event \<Rightarrow> timer_world \<Rightarrow> timer_world" where
  "timer_do (Start c ms) w =
     (if valid_time (future_time (clock w) ms) then snd (timer_start True c ms False w) else w)"
| "timer_do (Stop c) w = snd (timer_stop c w)"
| "timer_do (Tick t) w = (if time_le (clock w) t \<and> valid_time t then w\<lparr>clock := t\<rparr> else w)"
| "timer_do (Poll b) w =
     (case containers w b of
        None \<Rightarrow> w
      | Some c \<Rightarrow>
          (case armed c of
             None \<Rightarrow> w
           | Some t \<Rightarrow> if polled c \<and> time_le t (clock w) then container_expire b w else w))"
| "timer_do Process w = (case msgs w of [] \<Rightarrow> w | m # ms \<Rightarrow> proc m (w\<lparr>msgs := ms\<rparr>))"

definition timer_run :: "timespec \<Rightarrow> timer_event list \<Rightarrow> timer_world" where
  "timer_run t0 evs = fold timer_do evs (init_world t0)"

lemma timer_do_step: "timer_do e w = w \<or> timer_step w (timer_do e w)"
proof (cases e)
  case (Start c ms)
  then show ?thesis
    using timer_step.client_start [of w ms True c False] by (auto simp: prod_eq_iff)
next
  case (Stop c)
  then show ?thesis using timer_step.client_stop [of c w] by (auto simp: prod_eq_iff)
next
  case (Poll b)
  then show ?thesis using timer_step.poll [of w b] by (auto split: option.split)
next
  case Process
  then show ?thesis using timer_step.process [of w] by (auto split: list.split)
qed (auto intro: timer_step.tick)

lemma timer_fold_reachable: "timer_reachable t0 w \<Longrightarrow> timer_reachable t0 (fold timer_do evs w)"
proof (induction evs arbitrary: w)
  case (Cons e evs)
  have "timer_reachable t0 (timer_do e w)"
    using timer_do_step [of e w] Cons.prems timer_reachable.run by metis
  with Cons.IH show ?case by simp
qed simp

lemma timer_run_reachable: "valid_time t0 \<Longrightarrow> timer_reachable t0 (timer_run t0 evs)"
  unfolding timer_run_def by (intro timer_fold_reachable timer_reachable.boot)

abbreviation boot_time :: timespec where
  "boot_time \<equiv> \<lparr>tv_sec = 0, tv_nsec = 0\<rparr>"


theorem timer_kernel_waits_for_soonest_witness:
  "\<exists>d. heap_peek (heap_of False (timer_run boot_time [Start 0 1000, Process])) = Some d \<and>
     mFutureTime d = \<lparr>tv_sec = 1, tv_nsec = 0\<rparr>"
proof -
  let ?w = "timer_run boot_time [Start 0 1000, Process]"
  let ?d = "\<lparr>d_addr = 0, mFutureTime = \<lparr>tv_sec = 1, tv_nsec = 0\<rparr>\<rparr>"
  let ?c = "\<lparr>mTree = new_node ?d, polled = True, armed = Some \<lparr>tv_sec = 1, tv_nsec = 0\<rparr>\<rparr>"
  have r: "timer_reachable boot_time ?w" by (rule timer_run_reachable) (simp add: valid_time_def)
  have c: "containers ?w False = Some ?c" by code_simp
  have m: "MsgTimerExpire False \<notin> set (msgs ?w)" by code_simp
  from timer_kernel_waits_for_soonest [OF r c _ m, of ?d] show ?thesis
    using c by (auto simp: heap_of_def heap_peek_def)
qed


text \<open>
  C1: no reachable state of the service has read or deleted a delegate after its deletion, and
  every delegate a heap holds is alive.
\<close>

theorem timer_no_use_after_free:
  assumes "timer_reachable t0 w"
  shows "\<not> fault w \<and> (\<forall>b. \<forall>d \<in># elems (heap_of b w). delegates w (d_addr d) \<noteq> None)"
proof -
  note s = timer_reachable_safe [OF assms]
  have "refd w b d" if "d \<in># elems (heap_of b w)" for b d using that by (simp add: refd_def)
  with safe_fault [OF s] safe_live [OF s] show ?thesis by blast
qed

theorem timer_no_use_after_free_witness:
  "\<not> fault (timer_run boot_time [Start 0 1000, Process, Stop 0, Process])"
  using timer_no_use_after_free [OF timer_run_reachable, of boot_time
      "[Start 0 1000, Process, Stop 0, Process]"]
  by (simp add: valid_time_def)

text \<open>
  a client can be called back before its deadline: the expiry message pops the head without
  looking at its deadline, and between the kernel's wake-up and that message the head may have
  been stopped. Here the timer of client 1, due at 10 seconds, is called back at 1 second.
\<close>

theorem timer_early_callback:
  "\<exists>w. timer_reachable boot_time w \<and>
     (\<exists>cl t at. (cl, t, at) \<in> set (fired w) \<and> \<not> time_le t at)"
proof -
  let ?w = "timer_run boot_time [Start 0 1000, Start 1 10000, Process, Process,
    Tick \<lparr>tv_sec = 1, tv_nsec = 0\<rparr>, Stop 0, Poll False, Process, Process]"
  have "timer_reachable boot_time ?w" by (rule timer_run_reachable) (simp add: valid_time_def)
  moreover have "fired ?w = [(1, \<lparr>tv_sec = 10, tv_nsec = 0\<rparr>, \<lparr>tv_sec = 1, tv_nsec = 0\<rparr>)]"
    by code_simp
  ultimately show ?thesis by (intro exI [of _ ?w]) (simp add: time_le_def)
qed

text \<open>
  Stopping the only timer does not disarm the kernel timer: the branch of
  \<open>updateSoonestTime\<close> for an empty heap is reached only with a prior head, which its callers
  never pass then.
\<close>

theorem timer_stop_last_keeps_kernel_armed:
  "\<exists>w c. timer_reachable boot_time w \<and> msgs w = [] \<and> containers w False = Some c \<and>
     heap_peek (mTree c) = None \<and> polled c \<and> armed c = Some \<lparr>tv_sec = 1, tv_nsec = 0\<rparr>"
proof -
  let ?w = "timer_run boot_time [Start 0 1000, Process, Stop 0, Process]"
  let ?c = "\<lparr>mTree = Null, polled = True, armed = Some \<lparr>tv_sec = 1, tv_nsec = 0\<rparr>\<rparr>"
  have "timer_reachable boot_time ?w" by (rule timer_run_reachable) (simp add: valid_time_def)
  moreover have "containers ?w False = Some ?c \<and> msgs ?w = []" by code_simp
  ultimately show ?thesis by (intro exI [of _ ?w] exI [of _ ?c]) (simp add: heap_peek_def)
qed

text \<open>
  The deadline of a timer is the current time plus its delay, and its nanoseconds are
  normalised.
\<close>

theorem timer_deadline:
  assumes "0 \<le> tv_nsec now" and "tv_nsec now < 1000000000"
  shows "tv_sec (future_time now ms) * 1000000000 + tv_nsec (future_time now ms) =
      tv_sec now * 1000000000 + tv_nsec now + uint ms * 1000000 \<and>
    0 \<le> tv_nsec (future_time now ms) \<and> tv_nsec (future_time now ms) < 1000000000"
proof -
  define q where "q = uint ms div 1000"
  define r where "r = uint ms mod 1000"
  have u: "uint ms = q * 1000 + r" by (simp add: q_def r_def)
  have r: "0 \<le> r" "r < 1000" by (simp_all add: r_def)
  have m: "uint (ms mod 1000 * 1000000) = r * 1000000"
    by (simp add: uint_word_ariths uint_mod r_def)
  have d: "uint (ms div 1000) = q" by (simp add: uint_div q_def)
  show ?thesis
    using assms r unfolding future_time_def Let_def m d u by auto
qed

theorem timer_deadline_witness:
  "future_time \<lparr>tv_sec = 5, tv_nsec = 700000000\<rparr> 1500 = \<lparr>tv_sec = 7, tv_nsec = 200000000\<rparr> \<and>
   tv_nsec (future_time \<lparr>tv_sec = 5, tv_nsec = 700000000\<rparr> 1500) < 1000000000"
  using timer_deadline [of "\<lparr>tv_sec = 5, tv_nsec = 700000000\<rparr>" 1500]
  by (simp add: future_time_def Let_def)

end
