(* ===== verification/Agps.thy ===== *)
theory Agps
  imports Prelude
begin

text \<open>
  The AGPS state machines and their manager (\<open>gps/gnss/Agps.cpp\<close>, \<open>Agps.h\<close>): subscribers ask
  for a data connection, the machine asks the framework (or, for emergency SUPL, the data service
  client) for it and tells the subscribers how it went.

  A machine's list holds the cloned subscriber objects; a pointer to one of them is its connection
  handle (\<open>addSubscriber\<close> keeps handles distinct). What the machine sends through the callbacks
  of its manager is appended to \<open>sent\<close>. The virtual methods that \<open>DSStateMachine\<close> overrides
  dispatch on \<open>is_ds\<close>. What the outside answers during a call is the \<open>agps_env\<close>.
\<close>

section \<open>Types\<close>

datatype AgpsState = AGPS_STATE_RELEASED | AGPS_STATE_PENDING | AGPS_STATE_ACQUIRED | AGPS_STATE_RELEASING

datatype AgpsEvent =
  AGPS_EVENT_SUBSCRIBE | AGPS_EVENT_UNSUBSCRIBE | AGPS_EVENT_GRANTED | AGPS_EVENT_RELEASED | AGPS_EVENT_DENIED

datatype AgpsNotificationType =
  FOR_ALL_SUBSCRIBERS | FOR_INACTIVE_SUBSCRIBERS | FOR_ACTIVE_SUBSCRIBERS

text \<open>\<open>AGpsExtType\<close> and the numbers of \<open>gps_extended_c.h\<close>.\<close>

type_synonym agps_type = int

abbreviation (input) LOC_AGPS_TYPE_INVALID :: agps_type where "LOC_AGPS_TYPE_INVALID \<equiv> -1"
abbreviation (input) LOC_AGPS_TYPE_SUPL :: agps_type where "LOC_AGPS_TYPE_SUPL \<equiv> 1"
abbreviation (input) LOC_AGPS_TYPE_WWAN_ANY :: agps_type where "LOC_AGPS_TYPE_WWAN_ANY \<equiv> 3"
abbreviation (input) LOC_AGPS_TYPE_SUPL_ES :: agps_type where "LOC_AGPS_TYPE_SUPL_ES \<equiv> 5"
abbreviation (input) AGPS_APN_BEARER_INVALID :: int where "AGPS_APN_BEARER_INVALID \<equiv> 0"

abbreviation (input) ERR_SUCCESS :: int where "ERR_SUCCESS \<equiv> 0"
abbreviation (input) ERR_UNSUPPORTED :: int where "ERR_UNSUPPORTED \<equiv> 2"
abbreviation (input) ERR_ENGINE_BUSY :: int where "ERR_ENGINE_BUSY \<equiv> 6"

abbreviation (input) MAX_START_DATA_CALL_RETRIES :: int where "MAX_START_DATA_CALL_RETRIES \<equiv> 4"

record AgpsSubscriber =
  mConnHandle :: int
  mWaitForCloseComplete :: bool
  mIsInactive :: bool

definition same_handle :: "AgpsSubscriber \<Rightarrow> AgpsSubscriber \<Rightarrow> bool" where
  "same_handle a b \<longleftrightarrow> mConnHandle a = mConnHandle b"

text \<open>What leaves a machine: calls of the manager's callbacks.\<close>

datatype agps_effect =
    RequestDataConn agps_type
  | ReleaseDataConn agps_type
  | AtlOpenStatus int int "string option" int agps_type
  | AtlCloseStatus int int
  | StartDataCall
  | StopDataCall
  | CloseDataCall
  | ReleaseDSClient
  | InitDSClientSSR
  | StartRetryTimer
  | SendRequestATL int agps_type

record AgpsStateMachine =
  mSubscriberList :: "AgpsSubscriber list"
  mState :: AgpsState
  mAgpsType :: agps_type
  mAPN :: "string option"
  mAPNLen :: nat
  mBearer :: int
  is_ds :: bool
  mRetries :: int
  sent :: "agps_effect list"

text \<open>
  The outside during a call: the result of \<open>mDSClientOpenAndStartDataCallFn\<close> (\<open>None\<close> when it is
  not registered), whether \<open>mDSClientStopDataCallFn\<close> is registered, whether \<open>loc_timer_start\<close>
  returns a handle, and the result of \<open>mDSClientInitFn\<close>.
\<close>

record agps_env =
  dsStart :: "int option"
  dsStop :: bool
  timerHandle :: bool
  dsInit :: "int option"

definition emit :: "agps_effect \<Rightarrow> AgpsStateMachine \<Rightarrow> AgpsStateMachine" where
  "emit e sm = sm\<lparr>sent := sent sm @ [e]\<rparr>"

definition new_machine :: "agps_type \<Rightarrow> bool \<Rightarrow> AgpsStateMachine" where
  "new_machine ty ds =
     \<lparr>mSubscriberList = [], mState = AGPS_STATE_RELEASED, mAgpsType = ty, mAPN = None, mAPNLen = 0,
      mBearer = AGPS_APN_BEARER_INVALID, is_ds = ds, mRetries = 0, sent = []\<rparr>"

section \<open>The subscriber list\<close>

definition addSubscriber :: "AgpsSubscriber \<Rightarrow> AgpsStateMachine \<Rightarrow> AgpsStateMachine" where
  "addSubscriber s sm =
     (if \<exists>x \<in> set (mSubscriberList sm). same_handle x s then sm
      else sm\<lparr>mSubscriberList := mSubscriberList sm @ [s]\<rparr>)"

definition deleteSubscriber :: "AgpsSubscriber \<Rightarrow> AgpsStateMachine \<Rightarrow> AgpsStateMachine" where
  "deleteSubscriber s sm =
     sm\<lparr>mSubscriberList := filter (\<lambda>x. \<not> same_handle x s) (mSubscriberList sm)\<rparr>"

definition anyActiveSubscribers :: "AgpsStateMachine \<Rightarrow> bool" where
  "anyActiveSubscribers sm \<longleftrightarrow> (\<exists>x \<in> set (mSubscriberList sm). \<not> mIsInactive x)"

definition getSubscriber :: "int \<Rightarrow> AgpsStateMachine \<Rightarrow> AgpsSubscriber option" where
  "getSubscriber h sm = find (\<lambda>x. mConnHandle x = h) (mSubscriberList sm)"

definition getFirstSubscriber :: "bool \<Rightarrow> AgpsStateMachine \<Rightarrow> AgpsSubscriber option" where
  "getFirstSubscriber isInactive sm = find (\<lambda>x. mIsInactive x = isInactive) (mSubscriberList sm)"

definition dropAllSubscribers :: "AgpsStateMachine \<Rightarrow> AgpsStateMachine" where
  "dropAllSubscribers sm = sm\<lparr>mSubscriberList := []\<rparr>"

text \<open>\<open>mCurrentSubscriber->mIsInactive = true\<close> through a pointer into the list.\<close>

fun set_inactive :: "int \<Rightarrow> AgpsSubscriber list \<Rightarrow> AgpsSubscriber list" where
  "set_inactive h [] = []"
| "set_inactive h (x # xs) =
     (if mConnHandle x = h then x\<lparr>mIsInactive := True\<rparr> # xs else x # set_inactive h xs)"

text \<open>The APN: a copy of \<open>len\<close> bytes, also when the length was found invalid before.\<close>

definition setAPN :: "string option \<Rightarrow> nat \<Rightarrow> AgpsStateMachine \<Rightarrow> AgpsStateMachine" where
  "setAPN apn len sm =
     (let sm1 = (if apn = None \<or> len = 0 then sm\<lparr>mAPN := None, mAPNLen := 0\<rparr> else sm)
      in case apn of
           None \<Rightarrow> sm1
         | Some a \<Rightarrow> sm1\<lparr>mAPN := Some (take len a), mAPNLen := len\<rparr>)"

section \<open>Notifications\<close>

definition notify_agps :: "AgpsEvent \<Rightarrow> AgpsSubscriber \<Rightarrow> AgpsStateMachine \<Rightarrow> AgpsStateMachine" where
  "notify_agps ev s sm =
     (case ev of
        AGPS_EVENT_GRANTED \<Rightarrow>
          emit (AtlOpenStatus (mConnHandle s) 1 (mAPN sm) (mBearer sm) (mAgpsType sm)) sm
      | AGPS_EVENT_DENIED \<Rightarrow>
          emit (AtlOpenStatus (mConnHandle s) 0 (mAPN sm) (mBearer sm) (mAgpsType sm)) sm
      | AGPS_EVENT_UNSUBSCRIBE \<Rightarrow> emit (AtlCloseStatus (mConnHandle s) 1) sm
      | AGPS_EVENT_RELEASED \<Rightarrow> emit (AtlCloseStatus (mConnHandle s) 1) sm
      | AGPS_EVENT_SUBSCRIBE \<Rightarrow> sm)"

definition notify_ds :: "AgpsEvent \<Rightarrow> AgpsSubscriber \<Rightarrow> AgpsStateMachine \<Rightarrow> AgpsStateMachine" where
  "notify_ds ev s sm =
     (case ev of
        AGPS_EVENT_GRANTED \<Rightarrow>
          emit (AtlOpenStatus (mConnHandle s) 1 None AGPS_APN_BEARER_INVALID LOC_AGPS_TYPE_SUPL_ES) sm
      | AGPS_EVENT_DENIED \<Rightarrow>
          emit (SendRequestATL (mConnHandle s) LOC_AGPS_TYPE_SUPL) (sm\<lparr>mRetries := 0\<rparr>)
      | AGPS_EVENT_UNSUBSCRIBE \<Rightarrow> emit (AtlCloseStatus (mConnHandle s) 1) sm
      | AGPS_EVENT_RELEASED \<Rightarrow> emit (AtlCloseStatus (mConnHandle s) 1) (emit CloseDataCall sm)
      | AGPS_EVENT_SUBSCRIBE \<Rightarrow> sm)"

definition notifyEventToSubscriber ::
  "AgpsEvent \<Rightarrow> AgpsSubscriber \<Rightarrow> bool \<Rightarrow> AgpsStateMachine \<Rightarrow> AgpsStateMachine" where
  "notifyEventToSubscriber ev s del sm =
     (let sm1 = (if is_ds sm then notify_ds ev s sm else notify_agps ev s sm)
      in if del then deleteSubscriber s sm1 else sm1)"

definition notify_wanted :: "AgpsNotificationType \<Rightarrow> AgpsSubscriber \<Rightarrow> bool" where
  "notify_wanted ty s \<longleftrightarrow>
     ty = FOR_ALL_SUBSCRIBERS \<or> (ty = FOR_INACTIVE_SUBSCRIBERS \<and> mIsInactive s) \<or>
     (ty = FOR_ACTIVE_SUBSCRIBERS \<and> \<not> mIsInactive s)"

text \<open>The loop with its iterator: the subscribers kept so far, and those still to be visited.\<close>

fun notify_loop ::
  "AgpsEvent \<Rightarrow> bool \<Rightarrow> AgpsNotificationType \<Rightarrow> AgpsSubscriber list \<Rightarrow> AgpsSubscriber list \<Rightarrow>
   AgpsStateMachine \<Rightarrow> AgpsStateMachine" where
  "notify_loop ev del ty kept [] sm = sm\<lparr>mSubscriberList := kept\<rparr>"
| "notify_loop ev del ty kept (s # rest) sm =
     (if notify_wanted ty s then
        notify_loop ev del ty (if del then kept else kept @ [s]) rest
          (notifyEventToSubscriber ev s False sm)
      else notify_loop ev del ty (kept @ [s]) rest sm)"

definition notifyAllSubscribers ::
  "AgpsEvent \<Rightarrow> bool \<Rightarrow> AgpsNotificationType \<Rightarrow> AgpsStateMachine \<Rightarrow> AgpsStateMachine" where
  "notifyAllSubscribers ev del ty sm = notify_loop ev del ty [] (mSubscriberList sm) sm"

section \<open>The data connection\<close>

definition request_agps :: "bool \<Rightarrow> AgpsStateMachine \<Rightarrow> int \<times> AgpsStateMachine" where
  "request_agps request sm =
     (0, emit (if request then RequestDataConn (mAgpsType sm) else ReleaseDataConn (mAgpsType sm)) sm)"

definition request_ds :: "agps_env \<Rightarrow> bool \<Rightarrow> AgpsStateMachine \<Rightarrow> int \<times> AgpsStateMachine" where
  "request_ds env request sm =
     (if \<not> request \<and> dsStop env then (0, emit StopDataCall sm)
      else case getFirstSubscriber False sm of
             None \<Rightarrow> (-1, sm)
           | Some subscriber \<Rightarrow>
               (case dsStart env of
                  None \<Rightarrow> (-1, notifyEventToSubscriber AGPS_EVENT_DENIED subscriber False sm)
                | Some ret \<Rightarrow>
                    let sm1 = emit StartDataCall sm
                    in if ret = ERR_ENGINE_BUSY then
                         (let sm2 = sm1\<lparr>mRetries := mRetries sm1 + 1\<rparr>
                          in if mRetries sm2 > MAX_START_DATA_CALL_RETRIES
                             then (ret, notifyEventToSubscriber AGPS_EVENT_DENIED subscriber False sm2)
                             else (if timerHandle env then -1 else ret, emit StartRetryTimer sm2))
                       else if ret = ERR_UNSUPPORTED then
                         (ret, notifyEventToSubscriber AGPS_EVENT_DENIED subscriber False sm1)
                       else (ret, sm1)))"

definition requestOrReleaseDataConn ::
  "agps_env \<Rightarrow> bool \<Rightarrow> AgpsStateMachine \<Rightarrow> int \<times> AgpsStateMachine" where
  "requestOrReleaseDataConn env request sm =
     (if is_ds sm then request_ds env request sm else request_agps request sm)"

definition transitionState :: "AgpsState \<Rightarrow> AgpsStateMachine \<Rightarrow> AgpsStateMachine" where
  "transitionState s sm = sm\<lparr>mState := s\<rparr>"

section \<open>Event handlers\<close>

definition processAgpsEventSubscribe ::
  "agps_env \<Rightarrow> AgpsSubscriber \<Rightarrow> AgpsStateMachine \<Rightarrow> AgpsStateMachine" where
  "processAgpsEventSubscribe env cur sm =
     (case mState sm of
        AGPS_STATE_RELEASED \<Rightarrow>
          (case requestOrReleaseDataConn env True (addSubscriber cur sm) of (ret, sm1) \<Rightarrow>
             if ret = 0 then transitionState AGPS_STATE_PENDING sm1 else sm1)
      | AGPS_STATE_PENDING \<Rightarrow> addSubscriber cur sm
      | AGPS_STATE_ACQUIRED \<Rightarrow>
          addSubscriber cur (notifyEventToSubscriber AGPS_EVENT_GRANTED cur False sm)
      | AGPS_STATE_RELEASING \<Rightarrow> addSubscriber cur sm)"

definition leave_list :: "AgpsSubscriber \<Rightarrow> AgpsStateMachine \<Rightarrow> AgpsStateMachine" where
  "leave_list cur sm =
     (if mWaitForCloseComplete cur
      then sm\<lparr>mSubscriberList := set_inactive (mConnHandle cur) (mSubscriberList sm)\<rparr>
      else notifyEventToSubscriber AGPS_EVENT_UNSUBSCRIBE cur True sm)"

definition processAgpsEventUnsubscribe ::
  "agps_env \<Rightarrow> AgpsSubscriber \<Rightarrow> AgpsStateMachine \<Rightarrow> AgpsStateMachine" where
  "processAgpsEventUnsubscribe env cur sm =
     (case mState sm of
        AGPS_STATE_RELEASED \<Rightarrow> notifyEventToSubscriber AGPS_EVENT_UNSUBSCRIBE cur False sm
      | AGPS_STATE_RELEASING \<Rightarrow>
          (let sm1 = leave_list cur sm
           in if mSubscriberList sm1 = [] then transitionState AGPS_STATE_RELEASED sm1 else sm1)
      | _ \<Rightarrow>
          (let sm1 = leave_list cur sm
           in if mSubscriberList sm1 = [] then
                snd (requestOrReleaseDataConn env False (transitionState AGPS_STATE_RELEASED sm1))
              else if \<not> anyActiveSubscribers sm1 then
                snd (requestOrReleaseDataConn env False (transitionState AGPS_STATE_RELEASING sm1))
              else sm1))"

definition processAgpsEventGranted :: "AgpsStateMachine \<Rightarrow> AgpsStateMachine" where
  "processAgpsEventGranted sm =
     (case mState sm of
        AGPS_STATE_PENDING \<Rightarrow>
          notifyAllSubscribers AGPS_EVENT_GRANTED False FOR_ACTIVE_SUBSCRIBERS
            (transitionState AGPS_STATE_ACQUIRED sm)
      | _ \<Rightarrow> sm)"

definition close_releasing :: "agps_env \<Rightarrow> AgpsStateMachine \<Rightarrow> AgpsStateMachine" where
  "close_releasing env sm =
     (let sm1 = notifyAllSubscribers AGPS_EVENT_RELEASED True FOR_INACTIVE_SUBSCRIBERS sm
      in if anyActiveSubscribers sm1 then
           snd (requestOrReleaseDataConn env True (transitionState AGPS_STATE_PENDING sm1))
         else transitionState AGPS_STATE_RELEASED sm1)"

definition processAgpsEventReleased :: "agps_env \<Rightarrow> AgpsStateMachine \<Rightarrow> AgpsStateMachine" where
  "processAgpsEventReleased env sm =
     (case mState sm of
        AGPS_STATE_RELEASED \<Rightarrow> sm
      | AGPS_STATE_ACQUIRED \<Rightarrow>
          notifyAllSubscribers AGPS_EVENT_RELEASED True FOR_ALL_SUBSCRIBERS
            (transitionState AGPS_STATE_RELEASED sm)
      | AGPS_STATE_RELEASING \<Rightarrow> close_releasing env sm
      | AGPS_STATE_PENDING \<Rightarrow> sm)"

definition processAgpsEventDenied :: "agps_env \<Rightarrow> AgpsStateMachine \<Rightarrow> AgpsStateMachine" where
  "processAgpsEventDenied env sm =
     (case mState sm of
        AGPS_STATE_RELEASED \<Rightarrow> sm
      | AGPS_STATE_ACQUIRED \<Rightarrow> sm
      | AGPS_STATE_RELEASING \<Rightarrow> close_releasing env sm
      | AGPS_STATE_PENDING \<Rightarrow>
          notifyAllSubscribers AGPS_EVENT_DENIED True FOR_ALL_SUBSCRIBERS
            (transitionState AGPS_STATE_RELEASED sm))"

text \<open>
  \<open>processAgpsEvent\<close> with the current subscriber: the data service machine first turns a
  release in the pending state into a denial.
\<close>

definition processAgpsEvent ::
  "agps_env \<Rightarrow> AgpsEvent \<Rightarrow> AgpsSubscriber \<Rightarrow> AgpsStateMachine \<Rightarrow> AgpsStateMachine" where
  "processAgpsEvent env event cur sm =
     (let ev = (if is_ds sm \<and> event = AGPS_EVENT_RELEASED \<and> mState sm = AGPS_STATE_PENDING
                then AGPS_EVENT_DENIED else event)
      in case ev of
           AGPS_EVENT_SUBSCRIBE \<Rightarrow> processAgpsEventSubscribe env cur sm
         | AGPS_EVENT_UNSUBSCRIBE \<Rightarrow> processAgpsEventUnsubscribe env cur sm
         | AGPS_EVENT_GRANTED \<Rightarrow> processAgpsEventGranted sm
         | AGPS_EVENT_RELEASED \<Rightarrow> processAgpsEventReleased env sm
         | AGPS_EVENT_DENIED \<Rightarrow> processAgpsEventDenied env sm)"

text \<open>The retry timer of the data service machine.\<close>

definition retryCallback :: "AgpsStateMachine \<Rightarrow> AgpsStateMachine" where
  "retryCallback sm =
     (case getFirstSubscriber False sm of
        None \<Rightarrow> sm
      | Some s \<Rightarrow> emit (SendRequestATL (mConnHandle s) LOC_AGPS_TYPE_SUPL_ES) sm)"

section \<open>The manager\<close>

datatype nif = AgnssNif | InternetNif | DsNif

record AgpsManager =
  mAgnssNif :: "AgpsStateMachine option"
  mInternetNif :: "AgpsStateMachine option"
  mDsNif :: "AgpsStateMachine option"
  CAPABILITIES :: u32
  USE_EMERGENCY_PDN_FOR_EMERGENCY_SUPL :: bool
  effects :: "agps_effect list"

abbreviation (input) LOC_GPS_CAPABILITY_MSB :: u32 where "LOC_GPS_CAPABILITY_MSB \<equiv> 2"
abbreviation (input) LOC_GPS_CAPABILITY_MSA :: u32 where "LOC_GPS_CAPABILITY_MSA \<equiv> 4"

definition new_manager :: "u32 \<Rightarrow> bool \<Rightarrow> AgpsManager" where
  "new_manager cap pdn =
     \<lparr>mAgnssNif = None, mInternetNif = None, mDsNif = None, CAPABILITIES = cap,
      USE_EMERGENCY_PDN_FOR_EMERGENCY_SUPL = pdn, effects = []\<rparr>"

fun nif_of :: "nif \<Rightarrow> AgpsManager \<Rightarrow> AgpsStateMachine option" where
  "nif_of AgnssNif m = mAgnssNif m"
| "nif_of InternetNif m = mInternetNif m"
| "nif_of DsNif m = mDsNif m"

fun set_nif :: "nif \<Rightarrow> AgpsStateMachine \<Rightarrow> AgpsManager \<Rightarrow> AgpsManager" where
  "set_nif AgnssNif sm m = m\<lparr>mAgnssNif := Some sm\<rparr>"
| "set_nif InternetNif sm m = m\<lparr>mInternetNif := Some sm\<rparr>"
| "set_nif DsNif sm m = m\<lparr>mDsNif := Some sm\<rparr>"

text \<open>
  A call through a state machine pointer: \<open>None\<close> when the pointer is NULL. What the machine sends
  goes out in the order of the manager's calls.
\<close>

definition on_nif :: "nif \<Rightarrow> (AgpsStateMachine \<Rightarrow> AgpsStateMachine) \<Rightarrow> AgpsManager \<Rightarrow> AgpsManager option" where
  "on_nif n f m =
     (case nif_of n m of
        None \<Rightarrow> None
      | Some sm \<Rightarrow>
          let sm' = f (sm\<lparr>sent := []\<rparr>)
          in Some (set_nif n sm' (m\<lparr>effects := effects m @ sent sm'\<rparr>)))"

definition manager_emit :: "agps_effect \<Rightarrow> AgpsManager \<Rightarrow> AgpsManager" where
  "manager_emit e m = m\<lparr>effects := effects m @ [e]\<rparr>"

definition agpsCapable :: "AgpsManager \<Rightarrow> bool" where
  "agpsCapable m \<longleftrightarrow>
     and (CAPABILITIES m) LOC_GPS_CAPABILITY_MSA \<noteq> 0 \<or> and (CAPABILITIES m) LOC_GPS_CAPABILITY_MSB \<noteq> 0"

definition create_if_null :: "nif \<Rightarrow> AgpsStateMachine \<Rightarrow> AgpsManager \<Rightarrow> AgpsManager" where
  "create_if_null n sm m = (if nif_of n m = None then set_nif n sm m else m)"

definition createAgpsStateMachines :: "agps_env \<Rightarrow> AgpsManager \<Rightarrow> AgpsManager" where
  "createAgpsStateMachines env m =
     (let m1 = create_if_null InternetNif (new_machine LOC_AGPS_TYPE_WWAN_ANY False) m
      in if agpsCapable m1 then
           (let m2 = create_if_null AgnssNif (new_machine LOC_AGPS_TYPE_SUPL False) m1
            in if mDsNif m2 = None \<and> USE_EMERGENCY_PDN_FOR_EMERGENCY_SUPL m2 then
                 (case dsInit env of
                    None \<Rightarrow> m2
                  | Some r \<Rightarrow>
                      if r \<noteq> 0 then m2 else set_nif DsNif (new_machine LOC_AGPS_TYPE_SUPL_ES True) m2)
               else m2)
         else m1)"

definition getAgpsStateMachine :: "agps_env \<Rightarrow> agps_type \<Rightarrow> AgpsManager \<Rightarrow> nif \<times> AgpsManager" where
  "getAgpsStateMachine env ty m =
     (if ty = LOC_AGPS_TYPE_INVALID \<or> ty = LOC_AGPS_TYPE_SUPL then (AgnssNif, m)
      else if ty = LOC_AGPS_TYPE_SUPL_ES then
        (if USE_EMERGENCY_PDN_FOR_EMERGENCY_SUPL m
         then (DsNif, if mDsNif m = None then createAgpsStateMachines env m else m)
         else (AgnssNif, m))
      else (InternetNif, m))"

definition requestATL :: "agps_env \<Rightarrow> int \<Rightarrow> agps_type \<Rightarrow> AgpsManager \<Rightarrow> AgpsManager" where
  "requestATL env connHandle ty m =
     (case getAgpsStateMachine env ty m of (n, m1) \<Rightarrow>
        (case on_nif n (processAgpsEvent env AGPS_EVENT_SUBSCRIBE
                 \<lparr>mConnHandle = connHandle, mWaitForCloseComplete = (ty = LOC_AGPS_TYPE_SUPL_ES),
                  mIsInactive = False\<rparr>) m1 of
           None \<Rightarrow> manager_emit (AtlOpenStatus connHandle 0 None AGPS_APN_BEARER_INVALID ty) m1
         | Some m2 \<Rightarrow> m2))"

definition find_subscriber :: "int \<Rightarrow> nif \<Rightarrow> AgpsManager \<Rightarrow> (nif \<times> AgpsSubscriber) option" where
  "find_subscriber connHandle n m =
     (case nif_of n m of
        None \<Rightarrow> None
      | Some sm \<Rightarrow> map_option (Pair n) (getSubscriber connHandle sm))"

definition search_subscriber :: "int \<Rightarrow> AgpsManager \<Rightarrow> (nif \<times> AgpsSubscriber) option" where
  "search_subscriber connHandle m =
     (case find_subscriber connHandle AgnssNif m of
        Some r \<Rightarrow> Some r
      | None \<Rightarrow>
          (case find_subscriber connHandle InternetNif m of
             Some r \<Rightarrow> Some r
           | None \<Rightarrow> find_subscriber connHandle DsNif m))"

definition releaseATL :: "agps_env \<Rightarrow> int \<Rightarrow> AgpsManager \<Rightarrow> AgpsManager" where
  "releaseATL env connHandle m =
     (case search_subscriber connHandle m of
        None \<Rightarrow> manager_emit (AtlCloseStatus connHandle 0) m
      | Some (n, s) \<Rightarrow>
          (case on_nif n (processAgpsEvent env AGPS_EVENT_UNSUBSCRIBE s) m of
             None \<Rightarrow> m
           | Some m' \<Rightarrow> m'))"

text \<open>The events that concern no subscriber leave the current one as it was; any value does.\<close>

abbreviation no_subscriber :: AgpsSubscriber where
  "no_subscriber \<equiv> \<lparr>mConnHandle = 0, mWaitForCloseComplete = False, mIsInactive = False\<rparr>"

definition reportDataCallOpened :: "agps_env \<Rightarrow> AgpsManager \<Rightarrow> AgpsManager" where
  "reportDataCallOpened env m =
     (case on_nif DsNif (processAgpsEvent env AGPS_EVENT_GRANTED no_subscriber) m of
        None \<Rightarrow> m | Some m' \<Rightarrow> m')"

definition reportDataCallClosed :: "agps_env \<Rightarrow> AgpsManager \<Rightarrow> AgpsManager" where
  "reportDataCallClosed env m =
     (case on_nif DsNif (processAgpsEvent env AGPS_EVENT_RELEASED no_subscriber) m of
        None \<Rightarrow> m | Some m' \<Rightarrow> m')"

text \<open>The three reports of the framework do not test the pointer they get: \<open>None\<close> is the crash.\<close>

definition reportAtlOpenSuccess ::
  "agps_env \<Rightarrow> agps_type \<Rightarrow> string option \<Rightarrow> nat \<Rightarrow> int \<Rightarrow> AgpsManager \<Rightarrow> AgpsManager option" where
  "reportAtlOpenSuccess env ty apnName apnLen bearerType m =
     (case getAgpsStateMachine env ty m of (n, m1) \<Rightarrow>
        on_nif n (\<lambda>sm. processAgpsEvent env AGPS_EVENT_GRANTED no_subscriber
                     (setAPN apnName apnLen (sm\<lparr>mBearer := bearerType\<rparr>))) m1)"

definition reportAtlOpenFailed :: "agps_env \<Rightarrow> agps_type \<Rightarrow> AgpsManager \<Rightarrow> AgpsManager option" where
  "reportAtlOpenFailed env ty m =
     (case getAgpsStateMachine env ty m of (n, m1) \<Rightarrow>
        on_nif n (processAgpsEvent env AGPS_EVENT_DENIED no_subscriber) m1)"

definition reportAtlClosed :: "agps_env \<Rightarrow> agps_type \<Rightarrow> AgpsManager \<Rightarrow> AgpsManager option" where
  "reportAtlClosed env ty m =
     (case getAgpsStateMachine env ty m of (n, m1) \<Rightarrow>
        on_nif n (processAgpsEvent env AGPS_EVENT_RELEASED no_subscriber) m1)"

definition drop_nif :: "nif \<Rightarrow> AgpsManager \<Rightarrow> AgpsManager" where
  "drop_nif n m = (case on_nif n dropAllSubscribers m of None \<Rightarrow> m | Some m' \<Rightarrow> m')"

definition handleModemSSR :: "AgpsManager \<Rightarrow> AgpsManager" where
  "handleModemSSR m =
     (let m1 = drop_nif DsNif (drop_nif InternetNif (drop_nif AgnssNif m))
      in if USE_EMERGENCY_PDN_FOR_EMERGENCY_SUPL m1
         then manager_emit InitDSClientSSR (manager_emit ReleaseDSClient
                (manager_emit CloseDataCall (manager_emit StopDataCall m1)))
         else m1)"

section \<open>\<open>deleteSubscriber\<close> on the objects themselves\<close>

text \<open>
  The list holds pointers; the subscriber to delete is given by pointer too and may be an
  element of the list. Every iteration reads both objects, and a match deletes the object of the
  iteration. Reading an object that is not allocated gives \<open>None\<close>.
\<close>

fun deleteSubscriber_ptr ::
  "nat \<Rightarrow> nat list \<Rightarrow> (nat \<rightharpoonup> AgpsSubscriber) \<Rightarrow> (nat list \<times> (nat \<rightharpoonup> AgpsSubscriber)) option" where
  "deleteSubscriber_ptr del [] h = Some ([], h)"
| "deleteSubscriber_ptr del (p # ps) h =
     (case (h p, h del) of
        (Some x, Some d) \<Rightarrow>
          (if same_handle x d then deleteSubscriber_ptr del ps (h(p := None))
           else map_option (\<lambda>(qs, h'). (p # qs, h')) (deleteSubscriber_ptr del ps h))
      | _ \<Rightarrow> None)"


section \<open>Lemmas on the machine of the framework\<close>

definition handles :: "AgpsStateMachine \<Rightarrow> int list" where
  "handles sm = map mConnHandle (mSubscriberList sm)"

definition note_agps :: "AgpsEvent \<Rightarrow> AgpsStateMachine \<Rightarrow> AgpsSubscriber \<Rightarrow> agps_effect list" where
  "note_agps ev sm s =
     (case ev of
        AGPS_EVENT_GRANTED \<Rightarrow> [AtlOpenStatus (mConnHandle s) 1 (mAPN sm) (mBearer sm) (mAgpsType sm)]
      | AGPS_EVENT_DENIED \<Rightarrow> [AtlOpenStatus (mConnHandle s) 0 (mAPN sm) (mBearer sm) (mAgpsType sm)]
      | AGPS_EVENT_UNSUBSCRIBE \<Rightarrow> [AtlCloseStatus (mConnHandle s) 1]
      | AGPS_EVENT_RELEASED \<Rightarrow> [AtlCloseStatus (mConnHandle s) 1]
      | AGPS_EVENT_SUBSCRIBE \<Rightarrow> [])"

lemma notify_agps_eq: "notify_agps ev s sm = sm\<lparr>sent := sent sm @ note_agps ev sm s\<rparr>"
  by (cases ev) (simp_all add: notify_agps_def note_agps_def emit_def)

lemma note_agps_frame:
  "note_agps ev (sm\<lparr>sent := l\<rparr>) s = note_agps ev sm s"
  "note_agps ev (sm\<lparr>mState := st\<rparr>) s = note_agps ev sm s"
  "note_agps ev (sm\<lparr>mSubscriberList := ss\<rparr>) s = note_agps ev sm s"
  by (cases ev; simp add: note_agps_def)+

lemma notify_loop_agps:
  "\<not> is_ds sm \<Longrightarrow>
   notify_loop ev del ty kept xs sm =
     sm\<lparr>mSubscriberList := kept @ filter (\<lambda>s. \<not> (del \<and> notify_wanted ty s)) xs,
        sent := sent sm @ concat (map (note_agps ev sm) (filter (notify_wanted ty) xs))\<rparr>"
proof (induction xs arbitrary: kept sm)
  case (Cons s xs)
  let ?sm = "sm\<lparr>sent := sent sm @ note_agps ev sm s\<rparr>"
  have "note_agps ev ?sm = note_agps ev sm" by (rule ext) (simp add: note_agps_frame)
  then show ?case
    using Cons.IH [of ?sm] Cons.IH [of sm] Cons.prems
    by (simp add: notifyEventToSubscriber_def notify_agps_eq)
qed simp

lemma notifyAllSubscribers_agps:
  "\<not> is_ds sm \<Longrightarrow>
   notifyAllSubscribers ev del ty sm =
     sm\<lparr>mSubscriberList := filter (\<lambda>s. \<not> (del \<and> notify_wanted ty s)) (mSubscriberList sm),
        sent := sent sm @ concat (map (note_agps ev sm) (filter (notify_wanted ty) (mSubscriberList sm)))\<rparr>"
  by (simp add: notifyAllSubscribers_def notify_loop_agps)

lemma notify_wanted_simps [simp]:
  "notify_wanted FOR_ALL_SUBSCRIBERS = (\<lambda>s. True)"
  "notify_wanted FOR_INACTIVE_SUBSCRIBERS = mIsInactive"
  "notify_wanted FOR_ACTIVE_SUBSCRIBERS = (\<lambda>s. \<not> mIsInactive s)"
  by (simp_all add: notify_wanted_def fun_eq_iff)

lemma set_inactive_handles [simp]: "map mConnHandle (set_inactive h xs) = map mConnHandle xs"
  by (induction xs) auto

lemma set_inactive_waits:
  "mWaitForCloseComplete ` set (set_inactive h xs) = mWaitForCloseComplete ` set xs"
  by (induction xs) auto

lemma set_inactive_mem:
  "x \<in> set (set_inactive h xs) \<Longrightarrow>
   x \<in> set xs \<or> (\<exists>y \<in> set xs. mConnHandle y = h \<and> x = y\<lparr>mIsInactive := True\<rparr>)"
  by (induction xs) (auto split: if_splits)

lemma set_inactive_inactive:
  "h \<in> mConnHandle ` set xs \<Longrightarrow> \<exists>x \<in> set (set_inactive h xs). mIsInactive x"
  by (induction xs) auto

lemma set_inactive_keeps:
  "x \<in> set xs \<Longrightarrow> mIsInactive x \<Longrightarrow> \<exists>x \<in> set (set_inactive h xs). mIsInactive x"
  by (induction xs) auto

lemma set_inactive_empty [simp]: "set_inactive h xs = [] \<longleftrightarrow> xs = []"
  by (cases xs) auto

lemma getSubscriber_Some:
  "getSubscriber h sm = Some s \<Longrightarrow> s \<in> set (mSubscriberList sm) \<and> mConnHandle s = h"
  unfolding getSubscriber_def by (drule find_Some) simp

section \<open>Inputs and well-formedness\<close>

text \<open>What reaches a machine, with the subscribers the manager makes and finds.\<close>

datatype agps_input =
    Subscribe int bool
  | Unsubscribe int
  | Granted
  | Released
  | Denied
  | ConnInfo "string option" nat int

fun machine_step :: "agps_env \<times> agps_input \<Rightarrow> AgpsStateMachine \<Rightarrow> AgpsStateMachine" where
  "machine_step (env, Subscribe h w) sm =
     processAgpsEvent env AGPS_EVENT_SUBSCRIBE
       \<lparr>mConnHandle = h, mWaitForCloseComplete = w, mIsInactive = False\<rparr> sm"
| "machine_step (env, Unsubscribe h) sm =
     (case getSubscriber h sm of
        None \<Rightarrow> sm | Some s \<Rightarrow> processAgpsEvent env AGPS_EVENT_UNSUBSCRIBE s sm)"
| "machine_step (env, Granted) sm = processAgpsEvent env AGPS_EVENT_GRANTED no_subscriber sm"
| "machine_step (env, Released) sm = processAgpsEvent env AGPS_EVENT_RELEASED no_subscriber sm"
| "machine_step (env, Denied) sm = processAgpsEvent env AGPS_EVENT_DENIED no_subscriber sm"
| "machine_step (env, ConnInfo apn len bearer) sm = setAPN apn len (sm\<lparr>mBearer := bearer\<rparr>)"

definition list_fits :: "AgpsState \<Rightarrow> AgpsSubscriber list \<Rightarrow> bool" where
  "list_fits st xs =
     (case st of
        AGPS_STATE_RELEASED \<Rightarrow> xs = []
      | AGPS_STATE_PENDING \<Rightarrow> list_ex (\<lambda>s. \<not> mIsInactive s) xs
      | AGPS_STATE_ACQUIRED \<Rightarrow> list_ex (\<lambda>s. \<not> mIsInactive s) xs
      | AGPS_STATE_RELEASING \<Rightarrow> list_ex mIsInactive xs)"

definition subscribers_ok :: "AgpsSubscriber list \<Rightarrow> bool" where
  "subscribers_ok xs \<longleftrightarrow>
     distinct (map mConnHandle xs) \<and> list_all (\<lambda>s. mIsInactive s \<longrightarrow> mWaitForCloseComplete s) xs"

definition agps_wf :: "AgpsStateMachine \<Rightarrow> bool" where
  "agps_wf sm \<longleftrightarrow>
     \<not> is_ds sm \<and> list_fits (mState sm) (mSubscriberList sm) \<and> subscribers_ok (mSubscriberList sm)"

lemma ok_Nil [simp]: "subscribers_ok []"
  by (simp add: subscribers_ok_def)

lemma ok_add:
  "subscribers_ok (mSubscriberList sm) \<Longrightarrow> (mIsInactive s \<Longrightarrow> mWaitForCloseComplete s) \<Longrightarrow>
   subscribers_ok (mSubscriberList (addSubscriber s sm))"
  by (auto simp: subscribers_ok_def addSubscriber_def same_handle_def)

lemma ok_filter: "subscribers_ok xs \<Longrightarrow> subscribers_ok (filter p xs)"
  by (auto simp: subscribers_ok_def list_all_iff distinct_map_filter)

lemma ok_set_inactive:
  assumes "subscribers_ok xs" and "s \<in> set xs" and "mWaitForCloseComplete s" and "mConnHandle s = h"
  shows "subscribers_ok (set_inactive h xs)"
proof -
  have uniq: "y = s" if "y \<in> set xs" "mConnHandle y = h" for y
  proof -
    have "inj_on mConnHandle (set xs)" using assms(1) by (simp add: subscribers_ok_def distinct_map)
    from inj_onD [OF this, of y s] that assms(2,4) show ?thesis by simp
  qed
  have "mIsInactive x \<longrightarrow> mWaitForCloseComplete x" if x: "x \<in> set (set_inactive h xs)" for x
    using set_inactive_mem [OF x]
  proof
    assume "x \<in> set xs"
    with assms(1) show ?thesis by (simp add: subscribers_ok_def list_all_iff)
  next
    assume "\<exists>y \<in> set xs. mConnHandle y = h \<and> x = y\<lparr>mIsInactive := True\<rparr>"
    then obtain y where "y \<in> set xs" "mConnHandle y = h" and "x = y\<lparr>mIsInactive := True\<rparr>" by blast
    with uniq [of y] assms(3) show ?thesis by simp
  qed
  with assms(1) show ?thesis by (simp add: subscribers_ok_def list_all_iff)
qed

lemma fields_addSubscriber [simp]:
  "mState (addSubscriber s sm) = mState sm"
  "is_ds (addSubscriber s sm) = is_ds sm"
  "sent (addSubscriber s sm) = sent sm"
  "mAgpsType (addSubscriber s sm) = mAgpsType sm"
  by (simp_all add: addSubscriber_def)

lemma addSubscriber_ex:
  "list_ex p (mSubscriberList sm) \<Longrightarrow> list_ex p (mSubscriberList (addSubscriber s sm))"
  by (simp add: addSubscriber_def)

lemma addSubscriber_update:
  "addSubscriber s (sm\<lparr>sent := l\<rparr>) = (addSubscriber s sm)\<lparr>sent := l\<rparr>"
  by (simp add: addSubscriber_def)


lemma requestOrReleaseDataConn_agps:
  "\<not> is_ds sm \<Longrightarrow>
   requestOrReleaseDataConn env request sm =
     (0, sm\<lparr>sent := sent sm @ [if request then RequestDataConn (mAgpsType sm) else ReleaseDataConn (mAgpsType sm)]\<rparr>)"
  by (simp add: requestOrReleaseDataConn_def request_agps_def emit_def)

lemma notifyEventToSubscriber_agps:
  "\<not> is_ds sm \<Longrightarrow>
   notifyEventToSubscriber ev s del sm =
     (let sm1 = sm\<lparr>sent := sent sm @ note_agps ev sm s\<rparr> in if del then deleteSubscriber s sm1 else sm1)"
  by (simp add: notifyEventToSubscriber_def notify_agps_eq)

lemma list_fits_simps [simp]:
  "list_fits AGPS_STATE_RELEASED xs = (xs = [])"
  "list_fits AGPS_STATE_PENDING xs = list_ex (\<lambda>s. \<not> mIsInactive s) xs"
  "list_fits AGPS_STATE_ACQUIRED xs = list_ex (\<lambda>s. \<not> mIsInactive s) xs"
  "list_fits AGPS_STATE_RELEASING xs = list_ex mIsInactive xs"
  by (simp_all add: list_fits_def)

lemmas agps_machine =
  requestOrReleaseDataConn_agps notifyEventToSubscriber_agps notifyAllSubscribers_agps
  transitionState_def anyActiveSubscribers_def emit_def Let_def

lemma wf_subscribe:
  assumes "agps_wf sm"
  shows "agps_wf (processAgpsEventSubscribe env \<lparr>mConnHandle = h, mWaitForCloseComplete = w, mIsInactive = False\<rparr> sm)"
proof -
  let ?s = "\<lparr>mConnHandle = h, mWaitForCloseComplete = w, mIsInactive = False\<rparr>"
  have ok: "subscribers_ok (mSubscriberList (addSubscriber ?s sm))"
    using assms by (intro ok_add) (simp_all add: agps_wf_def)
  have fresh: "mSubscriberList sm = [] \<Longrightarrow> mSubscriberList (addSubscriber ?s sm) = [?s]"
    by (simp add: addSubscriber_def)
  show ?thesis
    using assms ok fresh
    by (cases "mState sm")
      (auto simp: agps_wf_def processAgpsEventSubscribe_def agps_machine addSubscriber_update
        intro: addSubscriber_ex)
qed

definition left_list :: "AgpsSubscriber \<Rightarrow> AgpsSubscriber list \<Rightarrow> AgpsSubscriber list" where
  "left_list s xs =
     (if mWaitForCloseComplete s then set_inactive (mConnHandle s) xs
      else filter (\<lambda>x. mConnHandle x \<noteq> mConnHandle s) xs)"

lemma leave_list_agps:
  "\<not> is_ds sm \<Longrightarrow>
   leave_list s sm =
     sm\<lparr>mSubscriberList := left_list s (mSubscriberList sm),
        sent := sent sm @ (if mWaitForCloseComplete s then [] else [AtlCloseStatus (mConnHandle s) 1])\<rparr>"
  by (simp add: leave_list_def left_list_def agps_machine deleteSubscriber_def note_agps_def same_handle_def)

lemma left_list_ok:
  "subscribers_ok xs \<Longrightarrow> s \<in> set xs \<Longrightarrow> subscribers_ok (left_list s xs)"
  by (simp add: left_list_def ok_filter ok_set_inactive)

lemma left_list_inactive:
  assumes "subscribers_ok xs" and "s \<in> set xs" and "list_ex mIsInactive xs"
  shows "list_ex mIsInactive (left_list s xs)"
proof (cases "mWaitForCloseComplete s")
  case True
  then show ?thesis using assms set_inactive_keeps by (fastforce simp: left_list_def list_ex_iff)
next
  case False
  from assms(3) obtain x where x: "x \<in> set xs" "mIsInactive x" by (auto simp: list_ex_iff)
  then have "mWaitForCloseComplete x" using assms(1) by (simp add: subscribers_ok_def list_all_iff)
  with False have "x \<noteq> s" by auto
  have "inj_on mConnHandle (set xs)" using assms(1) by (simp add: subscribers_ok_def distinct_map)
  from inj_onD [OF this, of x s] x assms(2) \<open>x \<noteq> s\<close> have "mConnHandle x \<noteq> mConnHandle s" by auto
  with x False show ?thesis by (auto simp: left_list_def list_ex_iff)
qed

lemma wf_unsubscribe:
  assumes "agps_wf sm" and "s \<in> set (mSubscriberList sm)"
  shows "agps_wf (processAgpsEventUnsubscribe env s sm)"
proof -
  let ?xs = "left_list s (mSubscriberList sm)"
  have ok: "subscribers_ok ?xs" using assms by (simp add: agps_wf_def left_list_ok)
  have inactive: "list_ex mIsInactive (mSubscriberList sm) \<Longrightarrow> list_ex mIsInactive ?xs"
    using assms by (simp add: agps_wf_def left_list_inactive)
  have nds: "\<not> is_ds sm" and "mState sm \<noteq> AGPS_STATE_RELEASED"
    using assms by (auto simp: agps_wf_def)
  show ?thesis
  proof (cases "mState sm = AGPS_STATE_RELEASING")
    case True
    with assms(1) inactive have "list_ex mIsInactive ?xs" by (simp add: agps_wf_def)
    with True nds ok show ?thesis
      by (auto simp: agps_wf_def processAgpsEventUnsubscribe_def leave_list_agps agps_machine)
  next
    case False
    with nds ok \<open>mState sm \<noteq> AGPS_STATE_RELEASED\<close> show ?thesis
      by (cases "mState sm")
        (auto simp: agps_wf_def processAgpsEventUnsubscribe_def leave_list_agps agps_machine
          list_ex_iff neq_Nil_conv)
  qed
qed

lemma wf_close_releasing:
  assumes "\<not> is_ds sm" and "subscribers_ok (mSubscriberList sm)"
  shows "agps_wf (close_releasing env sm)"
  using assms ok_filter [of "mSubscriberList sm" "\<lambda>s. \<not> mIsInactive s"]
  by (auto simp: agps_wf_def close_releasing_def agps_machine list_ex_iff filter_empty_conv)


lemma wf_machine_step: "agps_wf sm \<Longrightarrow> agps_wf (machine_step e sm)"
proof -
  assume wf: "agps_wf sm"
  then have nds: "\<not> is_ds sm" by (simp add: agps_wf_def)
  obtain env i where e: "e = (env, i)" by (cases e)
  show "agps_wf (machine_step e sm)"
  proof (cases i)
    case (Subscribe h w)
    with wf nds e show ?thesis by (simp add: processAgpsEvent_def wf_subscribe)
  next
    case (Unsubscribe h)
    with wf nds e show ?thesis
      by (auto simp: processAgpsEvent_def wf_unsubscribe dest: getSubscriber_Some split: option.split)
  next
    case Granted
    with wf nds e show ?thesis
      by (cases "mState sm") (auto simp: processAgpsEvent_def processAgpsEventGranted_def agps_machine agps_wf_def)
  next
    case Released
    with wf nds e show ?thesis
      by (cases "mState sm")
        (auto simp: processAgpsEvent_def processAgpsEventReleased_def agps_machine agps_wf_def
          wf_close_releasing [unfolded agps_wf_def])
  next
    case Denied
    with wf nds e show ?thesis
      by (cases "mState sm")
        (auto simp: processAgpsEvent_def processAgpsEventDenied_def agps_machine agps_wf_def
          wf_close_releasing [unfolded agps_wf_def])
  next
    case (ConnInfo apn len bearer)
    with wf nds e show ?thesis by (auto simp: setAPN_def agps_wf_def Let_def split: option.split)
  qed
qed

interpretation agps: event_machine machine_step agps_wf "\<lambda>_. True"
  by unfold_locales (rule wf_machine_step)

lemma wf_new: "agps_wf (new_machine ty False)"
  by (simp add: agps_wf_def new_machine_def subscribers_ok_def)


section \<open>What subscribers and the framework are told\<close>

text \<open>The last word to a subscriber: the connection is closed, or was denied.\<close>

fun final_for :: "int \<Rightarrow> agps_effect \<Rightarrow> bool" where
  "final_for h (AtlCloseStatus h' _) = (h' = h)"
| "final_for h (AtlOpenStatus h' success _ _ _) = (h' = h \<and> success = 0)"
| "final_for h _ = False"

definition member_count :: "int \<Rightarrow> AgpsSubscriber list \<Rightarrow> nat" where
  "member_count h xs = count_if (\<lambda>s. mConnHandle s = h) xs"

lemma member_count_Nil [simp]: "member_count h [] = 0"
  by (simp add: member_count_def)

lemma member_count_0: "h \<notin> set (map mConnHandle xs) \<Longrightarrow> member_count h xs = 0"
  by (induction xs) (auto simp: member_count_def)

lemma member_count_distinct:
  "distinct (map mConnHandle xs) \<Longrightarrow> member_count h xs = (if h \<in> set (map mConnHandle xs) then 1 else 0)"
  by (induction xs) (auto simp: member_count_def member_count_0 [unfolded member_count_def])

lemma member_count_filter:
  "member_count h (filter p xs) + member_count h (filter (\<lambda>s. \<not> p s) xs) = member_count h xs"
  by (induction xs) (auto simp: member_count_def)

lemma member_count_set_inactive [simp]: "member_count h (set_inactive k xs) = member_count h xs"
  by (induction xs) (auto simp: member_count_def)

lemma member_count_removed:
  "subscribers_ok xs \<Longrightarrow> s \<in> set xs \<Longrightarrow>
   member_count h (filter (\<lambda>x. mConnHandle x \<noteq> mConnHandle s) xs) + (if mConnHandle s = h then 1 else 0) =
   member_count h xs"
proof (induction xs)
  case (Cons x xs)
  show ?case
  proof (cases "mConnHandle x = mConnHandle s")
    case True
    with Cons.prems have "\<forall>y \<in> set xs. mConnHandle y \<noteq> mConnHandle s" by (auto simp: subscribers_ok_def image_iff)
    then have "filter (\<lambda>x. mConnHandle x \<noteq> mConnHandle s) xs = xs" by (simp add: filter_id_conv)
    with True show ?thesis by (simp add: member_count_def)
  next
    case False
    with Cons.prems have "s \<in> set xs" "subscribers_ok xs" by (auto simp: subscribers_ok_def)
    from Cons.IH [OF this(2,1)] False show ?thesis by (auto simp: member_count_def)
  qed
qed simp

lemma final_notes:
  "count_if (final_for h) (concat (map (note_agps AGPS_EVENT_RELEASED sm) xs)) = member_count h xs"
  "count_if (final_for h) (concat (map (note_agps AGPS_EVENT_DENIED sm) xs)) = member_count h xs"
  "count_if (final_for h) (concat (map (note_agps AGPS_EVENT_GRANTED sm) xs)) = 0"
  by (induction xs) (auto simp: member_count_def note_agps_def)

text \<open>
  The account of handle \<open>h\<close>: last words sent, plus one while it is in the list. Only a
  subscription that enters the list changes it.
\<close>

definition account :: "int \<Rightarrow> AgpsStateMachine \<Rightarrow> nat" where
  "account h sm = count_if (final_for h) (sent sm) + member_count h (mSubscriberList sm)"

lemma account_close_releasing:
  "\<not> is_ds sm \<Longrightarrow> account h (close_releasing env sm) = account h sm"
  using member_count_filter [of h mIsInactive "mSubscriberList sm"]
  by (auto simp: account_def close_releasing_def agps_machine final_notes)

lemma account_unsubscribe:
  assumes "agps_wf sm" and "s \<in> set (mSubscriberList sm)"
  shows "account h (processAgpsEventUnsubscribe env s sm) = account h sm"
proof -
  have "member_count h (left_list s (mSubscriberList sm)) +
      count_if (final_for h) (if mWaitForCloseComplete s then [] else [AtlCloseStatus (mConnHandle s) 1]) =
      member_count h (mSubscriberList sm)"
    using assms member_count_removed [of "mSubscriberList sm" s h] by (auto simp: left_list_def agps_wf_def)
  then show ?thesis
    using assms
    by (cases "mState sm")
      (auto simp: account_def processAgpsEventUnsubscribe_def leave_list_agps agps_machine agps_wf_def
        split: if_splits)
qed

lemma member_count_add:
  "subscribers_ok (mSubscriberList sm) \<Longrightarrow>
   member_count h (mSubscriberList (addSubscriber s sm)) =
   member_count h (mSubscriberList sm) + (if mConnHandle s = h \<and> h \<notin> set (handles sm) then 1 else 0)"
  by (auto simp: addSubscriber_def member_count_def same_handle_def handles_def image_iff) metis

fun enters :: "int \<Rightarrow> AgpsStateMachine \<Rightarrow> agps_env \<times> agps_input \<Rightarrow> bool" where
  "enters h sm (_, Subscribe h' _) = (h' = h \<and> h \<notin> set (handles sm))"
| "enters h sm _ = False"

lemma account_step:
  assumes "agps_wf sm"
  shows "account h (machine_step e sm) = account h sm + (if enters h sm e then 1 else 0)"
proof -
  from assms have nds: "\<not> is_ds sm" and ok: "subscribers_ok (mSubscriberList sm)"
    by (simp_all add: agps_wf_def)
  obtain env i where e: "e = (env, i)" by (cases e)
  show ?thesis
  proof (cases i)
    case (Subscribe k w)
    then show ?thesis using nds e member_count_add [OF ok, of h "\<lparr>mConnHandle = k, mWaitForCloseComplete = w, mIsInactive = False\<rparr>"]
      by (cases "mState sm")
        (simp_all add: processAgpsEvent_def processAgpsEventSubscribe_def agps_machine account_def
          addSubscriber_update note_agps_def)
  next
    case (Unsubscribe k)
    with assms nds e show ?thesis
      by (auto simp: processAgpsEvent_def account_unsubscribe dest: getSubscriber_Some split: option.split)
  next
    case Granted
    with nds e show ?thesis
      by (cases "mState sm")
        (simp_all add: processAgpsEvent_def processAgpsEventGranted_def agps_machine account_def final_notes)
  next
    case Released
    with nds e show ?thesis
      by (cases "mState sm")
        (simp_all add: processAgpsEvent_def processAgpsEventReleased_def agps_machine
          account_close_releasing [unfolded account_def] account_def final_notes)
  next
    case Denied
    with nds e show ?thesis
      by (cases "mState sm")
        (simp_all add: processAgpsEvent_def processAgpsEventDenied_def agps_machine
          account_close_releasing [unfolded account_def] account_def final_notes)
  next
    case (ConnInfo apn len bearer)
    with e show ?thesis by (auto simp: setAPN_def account_def Let_def split: option.split)
  qed
qed


text \<open>Whether a machine wants the connection, and its calls to the framework.\<close>

definition wants_connection :: "AgpsStateMachine \<Rightarrow> bool" where
  "wants_connection sm \<longleftrightarrow> mState sm = AGPS_STATE_PENDING \<or> mState sm = AGPS_STATE_ACQUIRED"

fun is_request :: "agps_effect \<Rightarrow> bool" where
  "is_request (RequestDataConn _) = True"
| "is_request _ = False"

fun is_release :: "agps_effect \<Rightarrow> bool" where
  "is_release (ReleaseDataConn _) = True"
| "is_release _ = False"

fun is_unsubscribe :: "agps_env \<times> agps_input \<Rightarrow> bool" where
  "is_unsubscribe (_, Unsubscribe _) = True"
| "is_unsubscribe _ = False"

lemma notes_no_call:
  "count_if is_request (concat (map (note_agps ev sm) xs)) = 0"
  "count_if is_release (concat (map (note_agps ev sm) xs)) = 0"
  by (induction xs) (auto simp: note_agps_def split: AgpsEvent.split)

lemma note_no_call:
  "count_if is_request (note_agps ev sm s) = 0" "count_if is_release (note_agps ev sm s) = 0"
  using notes_no_call [of ev sm "[s]"] by simp_all

lemma calls_step:
  assumes "agps_wf sm"
  shows "count_if is_request (sent (machine_step e sm)) =
      count_if is_request (sent sm) +
      (if \<not> wants_connection sm \<and> wants_connection (machine_step e sm) then 1 else 0)"
    and "count_if is_release (sent (machine_step e sm)) =
      count_if is_release (sent sm) +
      (if is_unsubscribe e \<and> wants_connection sm \<and> \<not> wants_connection (machine_step e sm) then 1 else 0)"
proof -
  from assms have nds: "\<not> is_ds sm" by (simp add: agps_wf_def)
  obtain env i where e: "e = (env, i)" by (cases e)
  have "count_if is_request (sent (machine_step e sm)) =
      count_if is_request (sent sm) +
      (if \<not> wants_connection sm \<and> wants_connection (machine_step e sm) then 1 else 0) \<and>
    count_if is_release (sent (machine_step e sm)) =
      count_if is_release (sent sm) +
      (if is_unsubscribe e \<and> wants_connection sm \<and> \<not> wants_connection (machine_step e sm) then 1 else 0)"
  proof (cases i)
    case (Unsubscribe k)
    have "mState sm \<noteq> AGPS_STATE_RELEASED" if "getSubscriber k sm = Some s" for s
      using assms getSubscriber_Some [OF that] by (auto simp: agps_wf_def)
    with Unsubscribe nds e show ?thesis
      by (cases "mState sm")
        (auto simp: processAgpsEvent_def processAgpsEventUnsubscribe_def leave_list_agps agps_machine
          wants_connection_def split: option.split)
  next
    case (ConnInfo apn len bearer)
    with e show ?thesis by (auto simp: setAPN_def wants_connection_def Let_def split: option.split)
  qed (use nds e in \<open>cases "mState sm";
    simp add: processAgpsEvent_def processAgpsEventSubscribe_def processAgpsEventGranted_def
      processAgpsEventReleased_def processAgpsEventDenied_def close_releasing_def agps_machine
      wants_connection_def notes_no_call note_no_call addSubscriber_update\<close>)+
  then show "count_if is_request (sent (machine_step e sm)) =
      count_if is_request (sent sm) +
      (if \<not> wants_connection sm \<and> wants_connection (machine_step e sm) then 1 else 0)"
    and "count_if is_release (sent (machine_step e sm)) =
      count_if is_release (sent sm) +
      (if is_unsubscribe e \<and> wants_connection sm \<and> \<not> wants_connection (machine_step e sm) then 1 else 0)"
    by blast+
qed

section \<open>The data service machine\<close>

text \<open>What its handlers do to the list and the state, whatever the calls answer.\<close>

definition retries_ok :: "AgpsStateMachine \<Rightarrow> bool" where
  "retries_ok sm \<longleftrightarrow> 0 \<le> mRetries sm \<and> mRetries sm \<le> MAX_START_DATA_CALL_RETRIES"

definition same_core :: "AgpsStateMachine \<Rightarrow> AgpsStateMachine \<Rightarrow> bool" where
  "same_core a b \<longleftrightarrow>
     mSubscriberList a = mSubscriberList b \<and> mState a = mState b \<and> is_ds a = is_ds b \<and>
     (retries_ok b \<longrightarrow> retries_ok a)"

lemma same_core_refl [simp]: "same_core sm sm"
  by (simp add: same_core_def)

lemma same_core_trans: "same_core a b \<Longrightarrow> same_core b c \<Longrightarrow> same_core a c"
  by (simp add: same_core_def)

lemma same_core_emit [simp]: "same_core (emit e sm) sm"
  by (simp add: same_core_def emit_def retries_ok_def)

lemma notify_ds_core: "same_core (notify_ds ev s sm) sm"
  by (cases ev) (simp_all add: notify_ds_def same_core_def emit_def retries_ok_def)

lemma notify_core: "is_ds sm \<Longrightarrow> same_core (notifyEventToSubscriber ev s False sm) sm"
  by (simp add: notifyEventToSubscriber_def notify_ds_core)

lemma request_ds_core:
  assumes "is_ds sm"
  shows "same_core (snd (requestOrReleaseDataConn env request sm)) sm"
proof -
  have "same_core (snd (request_ds env request sm)) sm"
  proof (cases "\<not> request \<and> dsStop env")
    case True
    then show ?thesis by (simp add: request_ds_def)
  next
    case False
    note no_stop = this
    show ?thesis
    proof (cases "getFirstSubscriber False sm")
      case None
      with no_stop show ?thesis by (auto simp: request_ds_def)
    next
      case (Some s)
      show ?thesis
        using assms no_stop Some
        by (auto simp: request_ds_def same_core_def notifyEventToSubscriber_def notify_ds_def emit_def
            retries_ok_def Let_def split: option.split if_splits)
    qed
  qed
  with assms show ?thesis by (simp add: requestOrReleaseDataConn_def)
qed

lemma request_ds_success:
  assumes "is_ds sm" and "fst (requestOrReleaseDataConn env True sm) = 0"
  shows "list_ex (\<lambda>s. \<not> mIsInactive s) (mSubscriberList sm)"
proof -
  from assms have "getFirstSubscriber False sm \<noteq> None"
    by (cases "getFirstSubscriber False sm") (simp_all add: requestOrReleaseDataConn_def request_ds_def)
  then show ?thesis by (auto simp: getFirstSubscriber_def find_None list_ex_iff)
qed

lemma notify_loop_ds:
  "is_ds sm \<Longrightarrow>
   same_core (notify_loop ev del ty kept xs sm)
     (sm\<lparr>mSubscriberList := kept @ filter (\<lambda>s. \<not> (del \<and> notify_wanted ty s)) xs\<rparr>)"
proof (induction xs arbitrary: kept sm)
  case (Cons s xs)
  have "same_core (notifyEventToSubscriber ev s False sm) sm" using Cons.prems by (rule notify_core)
  with Cons.IH [of "notifyEventToSubscriber ev s False sm"] Cons.IH [of sm] Cons.prems show ?case
    by (fastforce simp: same_core_def retries_ok_def)
qed (simp add: same_core_def retries_ok_def)

lemma notifyAllSubscribers_ds:
  "is_ds sm \<Longrightarrow>
   same_core (notifyAllSubscribers ev del ty sm)
     (sm\<lparr>mSubscriberList := filter (\<lambda>s. \<not> (del \<and> notify_wanted ty s)) (mSubscriberList sm)\<rparr>)"
  using notify_loop_ds [of sm ev del ty "[]"] by (simp add: notifyAllSubscribers_def)

text \<open>
  As for the other machines, but a released machine may keep subscribers: a failed call leaves
  them in the list.
\<close>

definition ds_wf :: "AgpsStateMachine \<Rightarrow> bool" where
  "ds_wf sm \<longleftrightarrow>
     is_ds sm \<and> (mState sm = AGPS_STATE_RELEASED \<or> list_fits (mState sm) (mSubscriberList sm)) \<and>
     subscribers_ok (mSubscriberList sm) \<and> retries_ok sm"

datatype ds_input = DsInput agps_input | RetryTimer

fun ds_step :: "agps_env \<times> ds_input \<Rightarrow> AgpsStateMachine \<Rightarrow> AgpsStateMachine" where
  "ds_step (env, DsInput i) sm = machine_step (env, i) sm"
| "ds_step (env, RetryTimer) sm = retryCallback sm"

lemma ds_wf_core: "same_core a b \<Longrightarrow> ds_wf b \<Longrightarrow> ds_wf a"
  by (simp add: ds_wf_def same_core_def)

lemma ds_wf_subscribe:
  assumes wf: "ds_wf sm"
  shows "ds_wf (processAgpsEventSubscribe env \<lparr>mConnHandle = h, mWaitForCloseComplete = w, mIsInactive = False\<rparr> sm)"
proof -
  let ?s = "\<lparr>mConnHandle = h, mWaitForCloseComplete = w, mIsInactive = False\<rparr>"
  have add: "ds_wf (addSubscriber ?s x)" if "ds_wf x" for x
  proof -
    have "subscribers_ok (mSubscriberList (addSubscriber ?s x))"
      using that by (intro ok_add) (simp_all add: ds_wf_def)
    moreover have "retries_ok (addSubscriber ?s x) = retries_ok x"
      by (simp add: retries_ok_def addSubscriber_def)
    ultimately show ?thesis using that
      by (cases "mState x") (auto simp: ds_wf_def intro: addSubscriber_ex)
  qed
  show ?thesis
  proof (cases "mState sm")
    case AGPS_STATE_RELEASED
    let ?a = "addSubscriber ?s sm"
    obtain ret sm1 where r: "requestOrReleaseDataConn env True ?a = (ret, sm1)" by fastforce
    have a: "ds_wf ?a" "is_ds ?a" using add wf by (simp_all add: ds_wf_def)
    have core: "same_core sm1 ?a" using request_ds_core [OF a(2), of env True] r by simp
    have "ds_wf (transitionState AGPS_STATE_PENDING sm1)" if "ret = 0"
    proof -
      have "list_ex (\<lambda>s. \<not> mIsInactive s) (mSubscriberList ?a)"
        using request_ds_success [OF a(2), of env] r that by simp
      with core a(1) show ?thesis
        by (simp add: ds_wf_def same_core_def transitionState_def retries_ok_def)
    qed
    moreover have "ds_wf sm1" by (rule ds_wf_core [OF core a(1)])
    ultimately show ?thesis
      by (simp add: processAgpsEventSubscribe_def AGPS_STATE_RELEASED r)
  next
    case AGPS_STATE_ACQUIRED
    have "ds_wf (notifyEventToSubscriber AGPS_EVENT_GRANTED ?s False sm)"
      using wf by (intro ds_wf_core [OF notify_core]) (simp_all add: ds_wf_def)
    with AGPS_STATE_ACQUIRED add show ?thesis by (simp add: processAgpsEventSubscribe_def)
  qed (simp_all add: processAgpsEventSubscribe_def add wf)
qed

lemma leave_list_ds:
  assumes "is_ds sm"
  shows "same_core (leave_list s sm) (sm\<lparr>mSubscriberList := left_list s (mSubscriberList sm)\<rparr>)"
proof (cases "mWaitForCloseComplete s")
  case True
  then show ?thesis by (simp add: leave_list_def left_list_def)
next
  case False
  with assms notify_ds_core [of AGPS_EVENT_UNSUBSCRIBE s sm] show ?thesis
    by (simp add: leave_list_def left_list_def notifyEventToSubscriber_def deleteSubscriber_def
        same_core_def same_handle_def retries_ok_def)
qed

lemma ds_wf_unsubscribe:
  assumes wf: "ds_wf sm" and s: "s \<in> set (mSubscriberList sm)"
  shows "ds_wf (processAgpsEventUnsubscribe env s sm)"
proof -
  let ?sm1 = "leave_list s sm"
  let ?xs = "left_list s (mSubscriberList sm)"
  have ds: "is_ds sm" using wf by (simp add: ds_wf_def)
  have core: "same_core ?sm1 (sm\<lparr>mSubscriberList := ?xs\<rparr>)" by (rule leave_list_ds [OF ds])
  have ok: "subscribers_ok ?xs" using wf s by (simp add: ds_wf_def left_list_ok)
  have release: "ds_wf (snd (requestOrReleaseDataConn env False (transitionState st ?sm1)))"
    if "st = AGPS_STATE_RELEASED \<or> list_fits st ?xs" for st
    by (rule ds_wf_core [OF request_ds_core])
      (use core ds wf ok that in \<open>simp_all add: ds_wf_def same_core_def transitionState_def retries_ok_def\<close>)
  have list: "mSubscriberList ?sm1 = ?xs" using core by (simp add: same_core_def)
  have stay: "ds_wf ?sm1" if "mState sm \<in> {AGPS_STATE_PENDING, AGPS_STATE_ACQUIRED}"
      and "list_ex (\<lambda>s. \<not> mIsInactive s) ?xs"
    using core ds wf ok that by (auto simp: ds_wf_def same_core_def retries_ok_def)
  have connected: "ds_wf (if mSubscriberList ?sm1 = []
        then snd (requestOrReleaseDataConn env False (transitionState AGPS_STATE_RELEASED ?sm1))
        else if \<not> anyActiveSubscribers ?sm1
        then snd (requestOrReleaseDataConn env False (transitionState AGPS_STATE_RELEASING ?sm1))
        else ?sm1)" if st: "mState sm \<in> {AGPS_STATE_PENDING, AGPS_STATE_ACQUIRED}"
  proof (cases "list_ex (\<lambda>s. \<not> mIsInactive s) ?xs")
    case True
    then have "?xs \<noteq> []" by auto
    with True list stay [OF st True] show ?thesis by (simp add: anyActiveSubscribers_def list_ex_iff)
  next
    case False
    have "?xs = [] \<or> list_ex mIsInactive ?xs" using False by (cases ?xs) auto
    then have "?xs = [] \<or> ds_wf (snd (requestOrReleaseDataConn env False (transitionState AGPS_STATE_RELEASING ?sm1)))"
      using release [of AGPS_STATE_RELEASING] by auto
    with False list release [of AGPS_STATE_RELEASED] show ?thesis
      by (auto simp: anyActiveSubscribers_def list_ex_iff)
  qed
  show ?thesis
  proof (cases "mState sm")
    case AGPS_STATE_RELEASED
    have "ds_wf (notifyEventToSubscriber AGPS_EVENT_UNSUBSCRIBE s False sm)"
      by (rule ds_wf_core [OF notify_core]) (simp_all add: ds wf)
    with AGPS_STATE_RELEASED show ?thesis by (simp add: processAgpsEventUnsubscribe_def)
  next
    case AGPS_STATE_RELEASING
    with wf s left_list_inactive [of "mSubscriberList sm" s] have "list_ex mIsInactive ?xs"
      by (simp add: ds_wf_def)
    with core ds wf ok AGPS_STATE_RELEASING show ?thesis
      by (auto simp: processAgpsEventUnsubscribe_def ds_wf_def same_core_def transitionState_def
          retries_ok_def Let_def)
  next
    case AGPS_STATE_PENDING
    with connected show ?thesis by (simp add: processAgpsEventUnsubscribe_def Let_def)
  next
    case AGPS_STATE_ACQUIRED
    with connected show ?thesis by (simp add: processAgpsEventUnsubscribe_def Let_def)
  qed
qed


lemma ds_wf_close_releasing:
  assumes wf: "ds_wf sm"
  shows "ds_wf (close_releasing env sm)"
proof -
  let ?n = "notifyAllSubscribers AGPS_EVENT_RELEASED True FOR_INACTIVE_SUBSCRIBERS sm"
  let ?xs = "filter (\<lambda>s. \<not> mIsInactive s) (mSubscriberList sm)"
  have ds: "is_ds sm" using wf by (simp add: ds_wf_def)
  have n: "same_core ?n (sm\<lparr>mSubscriberList := ?xs\<rparr>)"
    using notifyAllSubscribers_ds [OF ds, of AGPS_EVENT_RELEASED True FOR_INACTIVE_SUBSCRIBERS] by simp
  have ok: "subscribers_ok ?xs" using wf by (simp add: ds_wf_def ok_filter)
  have moved: "ds_wf (transitionState st ?n)"
    if "st = AGPS_STATE_RELEASED \<or> list_fits st ?xs" for st
    using n ok wf that by (auto simp: ds_wf_def same_core_def transitionState_def retries_ok_def)
  show ?thesis
  proof (cases "anyActiveSubscribers ?n")
    case True
    then have "list_ex (\<lambda>s. \<not> mIsInactive s) ?xs"
      using n by (auto simp: anyActiveSubscribers_def same_core_def list_ex_iff)
    then have w: "ds_wf (transitionState AGPS_STATE_PENDING ?n)" using moved by simp
    then have "ds_wf (snd (requestOrReleaseDataConn env True (transitionState AGPS_STATE_PENDING ?n)))"
      by (intro ds_wf_core [OF request_ds_core]) (simp_all add: ds_wf_def)
    with True show ?thesis by (simp add: close_releasing_def)
  next
    case False
    then show ?thesis using moved [of AGPS_STATE_RELEASED] by (simp add: close_releasing_def Let_def)
  qed
qed

lemma ds_wf_notify_all:
  assumes "ds_wf sm" and "st = AGPS_STATE_RELEASED \<or> (\<not> del \<and> list_fits st (mSubscriberList sm))"
  shows "ds_wf (notifyAllSubscribers ev del ty (transitionState st sm))"
proof -
  let ?t = "transitionState st sm"
  have "is_ds ?t" using assms(1) by (simp add: ds_wf_def transitionState_def)
  from notifyAllSubscribers_ds [OF this, of ev del ty] assms show ?thesis
    by (auto simp: ds_wf_def same_core_def transitionState_def retries_ok_def ok_filter)
qed

lemma ds_wf_step: "ds_wf sm \<Longrightarrow> ds_wf (ds_step e sm)"
proof -
  assume wf: "ds_wf sm"
  obtain env d where e: "e = (env, d)" by (cases e)
  have denied: "ds_wf (processAgpsEventDenied env sm)"
    by (cases "mState sm")
      (use wf in \<open>simp_all add: processAgpsEventDenied_def ds_wf_close_releasing ds_wf_notify_all\<close>)
  show "ds_wf (ds_step e sm)"
  proof (cases d)
    case RetryTimer
    then show ?thesis using wf e
      by (auto simp: retryCallback_def intro: ds_wf_core [OF same_core_emit] split: option.split)
  next
    case (DsInput i)
    show ?thesis
    proof (cases i)
      case (Subscribe h w)
      with wf e DsInput show ?thesis by (simp add: processAgpsEvent_def ds_wf_subscribe)
    next
      case (Unsubscribe h)
      with wf e DsInput show ?thesis
        by (auto simp: processAgpsEvent_def ds_wf_unsubscribe dest: getSubscriber_Some split: option.split)
    next
      case Granted
      have "mState sm = AGPS_STATE_PENDING \<Longrightarrow> list_ex (\<lambda>s. \<not> mIsInactive s) (mSubscriberList sm)"
        using wf by (simp add: ds_wf_def)
      with wf e DsInput Granted show ?thesis
        by (cases "mState sm") (simp_all add: processAgpsEvent_def processAgpsEventGranted_def ds_wf_notify_all)
    next
      case Released
      with wf e DsInput denied show ?thesis
        by (cases "mState sm")
          (simp_all add: processAgpsEvent_def processAgpsEventReleased_def ds_wf_close_releasing ds_wf_notify_all)
    next
      case Denied
      with e DsInput denied show ?thesis by (simp add: processAgpsEvent_def)
    next
      case (ConnInfo apn len bearer)
      with wf e DsInput show ?thesis
        by (auto simp: setAPN_def ds_wf_def retries_ok_def Let_def split: option.split)
    qed
  qed
qed

interpretation ds: event_machine ds_step ds_wf "\<lambda>_. True"
  by unfold_locales (rule ds_wf_step)

lemma ds_wf_new: "ds_wf (new_machine LOC_AGPS_TYPE_SUPL_ES True)"
  by (simp add: ds_wf_def new_machine_def retries_ok_def)

section \<open>Properties\<close>

fun joins :: "int \<Rightarrow> (agps_env \<times> agps_input) list \<Rightarrow> AgpsStateMachine \<Rightarrow> nat" where
  "joins h [] sm = 0"
| "joins h (e # es) sm = (if enters h sm e then 1 else 0) + joins h es (machine_step e sm)"

lemma agps_run_wf: "agps_wf (fold machine_step es (new_machine ty False))"
  by (rule agps.run_inv) (simp_all add: wf_new list_all_iff)

lemma account_run:
  "agps_wf sm \<Longrightarrow> account h (fold machine_step es sm) = account h sm + joins h es sm"
  by (induction es arbitrary: sm) (simp_all add: account_step wf_machine_step)



text \<open>
  In any history, the framework is asked for the connection exactly when the machine starts
  to want it (it enters pending from released or releasing), and told to release it exactly when a
  subscriber's leaving ends that; a denial or a forced release sends neither.
\<close>

theorem agps_framework_calls:
  "let sm = fold machine_step es (new_machine ty False); sm' = machine_step e sm
   in count_if is_request (sent sm') =
        count_if is_request (sent sm) +
        (if \<not> wants_connection sm \<and> wants_connection sm' then 1 else 0) \<and>
      count_if is_release (sent sm') =
        count_if is_release (sent sm) +
        (if is_unsubscribe e \<and> wants_connection sm \<and> \<not> wants_connection sm' then 1 else 0)"
  using calls_step [OF agps_run_wf [of es ty]] by (simp add: Let_def)

text \<open>
  When the framework reports the connection a pending machine waits for, every active
  subscriber, in list order, and no other gets the reported APN and bearer with its handle; the
  machine is acquired and keeps its list.
\<close>

theorem agps_granted_to_active:
  assumes "mAgnssNif m = Some sm" and "\<not> is_ds sm" and "mState sm = AGPS_STATE_PENDING"
  shows "reportAtlOpenSuccess env LOC_AGPS_TYPE_SUPL (Some apn) len bearer m =
    (let notes = map (\<lambda>s. AtlOpenStatus (mConnHandle s) 1 (Some (take len apn)) bearer (mAgpsType sm))
                   (filter (\<lambda>s. \<not> mIsInactive s) (mSubscriberList sm))
     in Some (m\<lparr>mAgnssNif := Some (sm\<lparr>mState := AGPS_STATE_ACQUIRED, mAPN := Some (take len apn),
                  mAPNLen := len, mBearer := bearer, sent := notes\<rparr>),
                effects := effects m @ notes\<rparr>))"
proof -
  have "concat (map (note_agps AGPS_EVENT_GRANTED x) xs) =
      map (\<lambda>s. AtlOpenStatus (mConnHandle s) 1 (mAPN x) (mBearer x) (mAgpsType x)) xs" for x xs
    by (induction xs) (simp_all add: note_agps_def)
  with assms show ?thesis
    by (simp add: reportAtlOpenSuccess_def getAgpsStateMachine_def on_nif_def processAgpsEvent_def
        processAgpsEventGranted_def setAPN_def agps_machine)
qed

theorem agps_granted_to_active_witness:
  "let env = \<lparr>dsStart = None, dsStop = False, timerHandle = False, dsInit = None\<rparr>
   in mAgnssNif (the (reportAtlOpenSuccess env LOC_AGPS_TYPE_SUPL (Some ''apn'') 3 7
       (requestATL env 5 LOC_AGPS_TYPE_SUPL (createAgpsStateMachines env (new_manager 2 False))))) =
   Some \<lparr>mSubscriberList = [\<lparr>mConnHandle = 5, mWaitForCloseComplete = False, mIsInactive = False\<rparr>],
     mState = AGPS_STATE_ACQUIRED, mAgpsType = 1, mAPN = Some ''apn'', mAPNLen = 3, mBearer = 7,
     is_ds = False, mRetries = 0, sent = [AtlOpenStatus 5 1 (Some ''apn'') 7 1]\<rparr>"
proof -
  let ?env = "\<lparr>dsStart = None, dsStop = False, timerHandle = False, dsInit = None\<rparr>"
  let ?m = "requestATL ?env 5 LOC_AGPS_TYPE_SUPL (createAgpsStateMachines ?env (new_manager 2 False))"
  let ?sm = "\<lparr>mSubscriberList = [\<lparr>mConnHandle = 5, mWaitForCloseComplete = False, mIsInactive = False\<rparr>],
     mState = AGPS_STATE_PENDING, mAgpsType = 1, mAPN = None, mAPNLen = 0, mBearer = 0,
     is_ds = False, mRetries = 0, sent = [RequestDataConn 1]\<rparr>"
  have "mAgnssNif ?m = Some ?sm"
    by (simp add: requestATL_def createAgpsStateMachines_def new_manager_def create_if_null_def
        agpsCapable_def getAgpsStateMachine_def on_nif_def processAgpsEvent_def new_machine_def
        processAgpsEventSubscribe_def addSubscriber_def agps_machine)
  from agps_granted_to_active [OF this, of ?env "''apn''" 3 7] show ?thesis by (simp add: Let_def)
qed

text \<open>
  After any history of requests, releases, reports and retries, the emergency machine never
  has more than four retries counted, a machine that is not released has the subscribers its state
  calls for, and its handles are distinct.
\<close>

theorem ds_machine_invariant:
  "ds_wf (fold ds_step es (new_machine LOC_AGPS_TYPE_SUPL_ES True))"
  by (rule ds.run_inv) (simp_all add: ds_wf_new list_all_iff)

text \<open>
  When the data service stays busy, the first attempt and four retries end in a request for
  an ordinary SUPL connection and the count starts again; the subscriber is still in the list of the
  emergency machine.
\<close>

theorem ds_busy_falls_back:
  "fold machine_step (replicate 5 (\<lparr>dsStart = Some ERR_ENGINE_BUSY, dsStop = b, timerHandle = True, dsInit = i\<rparr>,
        Subscribe h True)) (new_machine LOC_AGPS_TYPE_SUPL_ES True) =
   (new_machine LOC_AGPS_TYPE_SUPL_ES True)
     \<lparr>mSubscriberList := [\<lparr>mConnHandle = h, mWaitForCloseComplete = True, mIsInactive = False\<rparr>],
      sent := concat (replicate 4 [StartDataCall, StartRetryTimer]) @
              [StartDataCall, SendRequestATL h LOC_AGPS_TYPE_SUPL]\<rparr>"
  by (simp add: eval_nat_numeral new_machine_def processAgpsEvent_def processAgpsEventSubscribe_def
      addSubscriber_def same_handle_def requestOrReleaseDataConn_def request_ds_def
      getFirstSubscriber_def emit_def notifyEventToSubscriber_def notify_ds_def Let_def)

lemmas agps_run =
  requestATL_def releaseATL_def createAgpsStateMachines_def new_manager_def create_if_null_def
  agpsCapable_def getAgpsStateMachine_def on_nif_def processAgpsEvent_def new_machine_def
  processAgpsEventSubscribe_def processAgpsEventUnsubscribe_def processAgpsEventGranted_def
  addSubscriber_def same_handle_def requestOrReleaseDataConn_def request_ds_def request_agps_def
  getFirstSubscriber_def getSubscriber_def notifyEventToSubscriber_def notify_ds_def notify_agps_def
  notifyAllSubscribers_def transitionState_def emit_def manager_emit_def search_subscriber_def
  find_subscriber_def leave_list_def deleteSubscriber_def

lemma on_nif_null: "on_nif n f m = None \<longleftrightarrow> nif_of n m = None"
  by (simp add: on_nif_def Let_def split: option.split)

text \<open>
  A subscriber that fell back to ordinary SUPL and has released that connection is still
  listed by the emergency machine: when the data service later opens a call for another handle, the
  old handle is told its connection is open.
\<close>

theorem ds_stale_subscriber_granted:
  assumes "h \<noteq> k"
  shows "let m0 = createAgpsStateMachines \<lparr>dsStart = Some 0, dsStop = True, timerHandle = True, dsInit = Some 0\<rparr>
                    (new_manager LOC_GPS_CAPABILITY_MSB True);
             unsupported = \<lparr>dsStart = Some ERR_UNSUPPORTED, dsStop = True, timerHandle = True, dsInit = Some 0\<rparr>;
             success = \<lparr>dsStart = Some ERR_SUCCESS, dsStop = True, timerHandle = True, dsInit = Some 0\<rparr>;
             m1 = requestATL unsupported h LOC_AGPS_TYPE_SUPL_ES m0;
             m2 = releaseATL unsupported h (requestATL unsupported h LOC_AGPS_TYPE_SUPL m1);
             m3 = reportDataCallOpened success (requestATL success k LOC_AGPS_TYPE_SUPL_ES m2)
         in effects m2 =
              [StartDataCall, SendRequestATL h LOC_AGPS_TYPE_SUPL, RequestDataConn LOC_AGPS_TYPE_SUPL,
               AtlCloseStatus h 1, ReleaseDataConn LOC_AGPS_TYPE_SUPL] \<and>
            effects m3 = effects m2 @
              [StartDataCall, AtlOpenStatus h 1 None AGPS_APN_BEARER_INVALID LOC_AGPS_TYPE_SUPL_ES,
               AtlOpenStatus k 1 None AGPS_APN_BEARER_INVALID LOC_AGPS_TYPE_SUPL_ES]"
  using assms by (simp add: agps_run reportDataCallOpened_def)

theorem ds_stale_subscriber_granted_witness:
  "let env = \<lambda>r. \<lparr>dsStart = Some r, dsStop = True, timerHandle = True, dsInit = Some 0\<rparr>;
       m2 = releaseATL (env ERR_UNSUPPORTED) 1 (requestATL (env ERR_UNSUPPORTED) 1 LOC_AGPS_TYPE_SUPL
              (requestATL (env ERR_UNSUPPORTED) 1 LOC_AGPS_TYPE_SUPL_ES
                (createAgpsStateMachines (env 0) (new_manager LOC_GPS_CAPABILITY_MSB True))))
   in AtlOpenStatus 1 1 None 0 5 \<in>
        set (drop (length (effects m2)) (effects (reportDataCallOpened (env ERR_SUCCESS) (requestATL (env ERR_SUCCESS) 2 LOC_AGPS_TYPE_SUPL_ES m2))))"
  using ds_stale_subscriber_granted [of 1 2] by (simp add: Let_def)

text \<open>
  A modem restart while the framework sets a connection up drops the subscriber but not the
  state: the connection is then acquired for nobody, and no release by the subscriber gives it
  back.
\<close>

theorem ssr_strands_connection:
  "let m1 = handleModemSSR (requestATL env h LOC_AGPS_TYPE_SUPL
              (createAgpsStateMachines env (new_manager LOC_GPS_CAPABILITY_MSB False)));
       m2 = the (reportAtlOpenSuccess env LOC_AGPS_TYPE_SUPL apn len bearer m1);
       m3 = releaseATL env h m2
   in map_option mState (mAgnssNif m3) = Some AGPS_STATE_ACQUIRED \<and>
      map_option mSubscriberList (mAgnssNif m3) = Some [] \<and>
      effects m3 = [RequestDataConn LOC_AGPS_TYPE_SUPL, AtlCloseStatus h 0]"
  by (cases apn) (simp_all add: agps_run handleModemSSR_def drop_nif_def dropAllSubscribers_def
      reportAtlOpenSuccess_def setAPN_def Let_def)

text \<open>
  Where the device has no assisted capability there is no AGNSS machine: a request is
  answered with a failure, but each framework report about a SUPL connection follows a NULL
  pointer; with the capability none does.
\<close>

theorem framework_report_null_pointer:
  "let m = createAgpsStateMachines env (new_manager cap pdn)
   in (reportAtlClosed env LOC_AGPS_TYPE_SUPL m = None \<longleftrightarrow> \<not> agpsCapable m) \<and>
      (reportAtlOpenFailed env LOC_AGPS_TYPE_SUPL m = None \<longleftrightarrow> \<not> agpsCapable m) \<and>
      (reportAtlOpenSuccess env LOC_AGPS_TYPE_SUPL apn len bearer m = None \<longleftrightarrow> \<not> agpsCapable m) \<and>
      effects (requestATL env h LOC_AGPS_TYPE_SUPL m) =
        (if agpsCapable m then [RequestDataConn LOC_AGPS_TYPE_SUPL]
         else [AtlOpenStatus h 0 None AGPS_APN_BEARER_INVALID LOC_AGPS_TYPE_SUPL])"
proof -
  let ?m = "createAgpsStateMachines env (new_manager cap pdn)"
  have nif: "mAgnssNif ?m = (if agpsCapable ?m then Some (new_machine LOC_AGPS_TYPE_SUPL False) else None)"
    and log: "effects ?m = []"
    by (simp_all add: createAgpsStateMachines_def new_manager_def create_if_null_def agpsCapable_def
        Let_def split: option.split)
  have get: "getAgpsStateMachine env LOC_AGPS_TYPE_SUPL ?m = (AgnssNif, ?m)"
    by (simp add: getAgpsStateMachine_def)
  have "effects (requestATL env h LOC_AGPS_TYPE_SUPL ?m) =
      (if agpsCapable ?m then [RequestDataConn LOC_AGPS_TYPE_SUPL]
       else [AtlOpenStatus h 0 None AGPS_APN_BEARER_INVALID LOC_AGPS_TYPE_SUPL])"
  proof (cases "agpsCapable ?m")
    case True
    with nif have "mAgnssNif ?m = Some (new_machine LOC_AGPS_TYPE_SUPL False)" by simp
    with True log get show ?thesis
      by (simp add: requestATL_def on_nif_def processAgpsEvent_def processAgpsEventSubscribe_def
          new_machine_def agps_machine)
  next
    case False
    with nif log get show ?thesis by (simp add: requestATL_def on_nif_def manager_emit_def)
  qed
  then show ?thesis
    using nif by (simp add: on_nif_null get reportAtlClosed_def reportAtlOpenFailed_def reportAtlOpenSuccess_def Let_def)
qed

text \<open>The list of pointers, with what each points to.\<close>

lemma deleteSubscriber_ptr_absent:
  "list_all (\<lambda>p. \<exists>x. h p = Some x \<and> \<not> same_handle x d) ps \<Longrightarrow> h del = Some d \<Longrightarrow>
   deleteSubscriber_ptr del ps h = Some (ps, h)"
  by (induction ps) auto

lemma deleteSubscriber_ptr_freed:
  "h del = None \<Longrightarrow> deleteSubscriber_ptr del ps h = (if ps = [] then Some ([], h) else None)"
  by (cases ps) (auto split: option.split)

text \<open>
  Deleting a listed subscriber through its own pointer, as a release does, works only for
  the last of the list, and is then what the list operation says; for any other, the rest of the
  loop reads the subscriber it has just deleted.
\<close>

theorem deleteSubscriber_use_after_free:
  assumes "distinct ps" and "list_all (\<lambda>p. h p \<noteq> None) ps"
    and "distinct (map (\<lambda>p. mConnHandle (the (h p))) ps)" and "del \<in> set ps"
  shows "deleteSubscriber_ptr del ps h =
    (if del = last ps then Some (butlast ps, h(del := None)) else None)"
  using assms
proof (induction ps arbitrary: h)
  case (Cons p ps)
  obtain x where x: "h p = Some x" using Cons.prems(2) by auto
  show ?case
  proof (cases "del = p")
    case True
    with x deleteSubscriber_ptr_freed [of "h(p := None)" p ps] Cons.prems(1) show ?thesis
      by (auto simp: same_handle_def)
  next
    case False
    with Cons.prems have del: "del \<in> set ps" by simp
    then obtain d where d: "h del = Some d" using Cons.prems(2) by (auto simp: list_all_iff)
    have "mConnHandle x \<noteq> mConnHandle d" using Cons.prems(3) del x d by force
    moreover have "ps \<noteq> []" using del by auto
    ultimately show ?thesis using Cons.IH [of h] Cons.prems x d del
      by (auto simp: same_handle_def)
  qed
qed simp

theorem deleteSubscriber_use_after_free_witness:
  "deleteSubscriber_ptr 10 [10, 20]
     [10 \<mapsto> \<lparr>mConnHandle = 1, mWaitForCloseComplete = False, mIsInactive = False\<rparr>,
      20 \<mapsto> \<lparr>mConnHandle = 2, mWaitForCloseComplete = False, mIsInactive = False\<rparr>] = None"
  by (subst deleteSubscriber_use_after_free) simp_all

end
