(* ===== verification/IpaNatBits.thy ===== *)
theory IpaNatBits
  imports Prelude
begin

text \<open>
  The arithmetic of the NAT driver library (\<open>ipa_nat_drvi.c\<close>, its utility functions): table sizes,
  hashes, checksum differences, and the packed layout of the entries of the hardware tables, which
  the driver reads and writes by halves of 32-bit words. The properties at the end say what each
  of them computes.
\<close>

unbundle bit_operations_syntax

section \<open>Table sizes\<close>

text \<open>
  The loop of \<open>GetNearest2Power\<close>: shift \<open>num\<close> to the right until it is 1, doubling \<open>tmp\<close>, a
  \<open>uint16_t\<close>; it is never entered with 0. The result is the return code and the output.
\<close>

function nearest2_loop :: "u16 \<Rightarrow> u16 \<Rightarrow> u16 \<Rightarrow> u16" where
  "nearest2_loop number num tmp =
     (if num = 1 \<or> num = 0 then (if number \<noteq> tmp then tmp * 2 else tmp)
      else nearest2_loop number (drop_bit 1 num) (tmp * 2))"
  by auto

termination
proof (relation "measure (\<lambda>(_, num, _). unat num)")
  fix number num tmp :: u16
  assume a: "\<not> (num = 1 \<or> num = 0)"
  then have "unat num \<noteq> 0" by (simp add: unat_eq_0)
  moreover have "unat (drop_bit 1 num) = unat num div 2" by (simp add: drop_bit_eq_div unat_div)
  ultimately show "((number, drop_bit 1 num, tmp * 2), number, num, tmp) \<in> measure (\<lambda>(_, num, _). unat num)"
    by simp
qed simp

declare nearest2_loop.simps [simp del]

definition GetNearest2Power :: "u16 \<Rightarrow> int \<times> u16" where
  "GetNearest2Power num =
     (if num = 0 then (-22, 0)
      else if num = 1 then (0, 2)
      else (0, nearest2_loop num num 1))"

text \<open>An odd number is increased once, with the wrap-around of \<open>uint16_t\<close>.\<close>

definition GetNearestEven :: "u16 \<Rightarrow> u16" where
  "GetNearestEven num = (if num < 2 then 2 else if num mod 2 \<noteq> 0 then num + 1 else num)"

text \<open>
  The percentages .8 and .2 are doubles; for 16-bit arguments the truncated products are the exact
  quotients.
\<close>

definition table_sizes :: "u16 \<Rightarrow> int \<times> u16 \<times> u16" where
  "table_sizes number_of_entries =
     (let n = unat number_of_entries;
          te = (if n * 4 div 5 = 0 then 1 else n * 4 div 5)
      in case GetNearest2Power (of_nat te) of (ret, te') \<Rightarrow>
           if ret \<noteq> 0 then (-22, te', 0) else (0, te', GetNearestEven (of_nat (n div 5))))"

section \<open>Hashes\<close>

definition low16 :: "u32 \<Rightarrow> u16" where
  "low16 x = ucast x"

definition high16 :: "u32 \<Rightarrow> u16" where
  "high16 x = ucast (drop_bit 16 x)"

definition dst_hash :: "bool \<Rightarrow> u32 \<Rightarrow> u32 \<Rightarrow> u16 \<Rightarrow> u16 \<Rightarrow> u8 \<Rightarrow> u16 \<Rightarrow> u16" where
  "dst_hash v4_0 public_ip trgt_ip trgt_port public_port proto sz =
     (let h = low16 trgt_ip XOR high16 trgt_ip XOR trgt_port XOR public_port XOR ucast proto;
          h = (if v4_0 then h XOR (low16 public_ip XOR high16 public_ip) else h);
          h = h AND sz
      in if h = 0 then sz else h)"

definition src_hash :: "u32 \<Rightarrow> u16 \<Rightarrow> u32 \<Rightarrow> u16 \<Rightarrow> u8 \<Rightarrow> u16 \<Rightarrow> u16" where
  "src_hash priv_ip priv_port trgt_ip trgt_port proto sz =
     (let h = low16 priv_ip XOR high16 priv_ip XOR priv_port XOR low16 trgt_ip XOR high16 trgt_ip XOR
              trgt_port XOR ucast proto;
          h = h AND sz
      in if h = 0 then sz else h)"

section \<open>Checksum differences\<close>

text \<open>\<open>if (cksum >> 16) { cksum = (cksum & 0xFFFF); cksum += 1; }\<close>\<close>

definition carry_forward :: "u32 \<Rightarrow> u32" where
  "carry_forward cksum = (if drop_bit 16 cksum \<noteq> 0 then (cksum AND 0xFFFF) + 1 else cksum)"

definition calc_ip_cksum :: "u32 \<Rightarrow> u32 \<Rightarrow> u16" where
  "calc_ip_cksum pub_ip_addr priv_ip_addr =
     (let cksum = pub_ip_addr AND 0xFFFF;
          cksum = carry_forward (cksum + drop_bit 16 pub_ip_addr);
          priv = NOT priv_ip_addr;
          cksum = carry_forward (cksum + (priv AND 0xFFFF));
          cksum = carry_forward (cksum + drop_bit 16 priv)
      in ucast cksum)"

definition calc_tcp_udp_cksum :: "u32 \<Rightarrow> u16 \<Rightarrow> u32 \<Rightarrow> u16 \<Rightarrow> u16" where
  "calc_tcp_udp_cksum pub_ip_addr pub_port priv_ip_addr priv_port =
     (let cksum = pub_ip_addr AND 0xFFFF;
          cksum = carry_forward (cksum + drop_bit 16 pub_ip_addr);
          cksum = carry_forward (cksum + ucast pub_port);
          priv = NOT priv_ip_addr;
          cksum = carry_forward (cksum + (priv AND 0xFFFF));
          cksum = carry_forward (cksum + drop_bit 16 priv);
          cksum = carry_forward (cksum + ucast (NOT priv_port))
      in ucast cksum)"

section \<open>The layout of the entries\<close>

text \<open>A 32-bit word of two halves.\<close>

definition mk32 :: "u16 \<Rightarrow> u16 \<Rightarrow> u32" where
  "mk32 hi lo = push_bit 16 (ucast hi) OR ucast lo"

lemma bit_u16_beyond [simp]: "\<not> bit (w :: u16) (16 + n)"
  using bit_imp_le_length [of w "16 + n"] by auto

lemma mk32_halves [simp]:
  "low16 (mk32 hi lo) = lo" "high16 (mk32 hi lo) = hi" "mk32 (high16 w) (low16 w) = w"
  by (auto simp: mk32_def low16_def high16_def bit_simps intro!: bit_word_eqI)

lemma mk32_masks:
  "x AND 0xFFFF = ucast (low16 x)" "x AND 0xFFFF0000 = push_bit 16 (ucast (high16 x))" for x :: u32
proof -
  have m: "(0xFFFF :: u32) = mask 16" "(0xFFFF0000 :: u32) = NOT (mask 16)"
    by (simp_all add: mask_eq_exp_minus_1)
  show "x AND 0xFFFF = ucast (low16 x)" "x AND 0xFFFF0000 = push_bit 16 (ucast (high16 x))"
    unfolding m by (auto simp: low16_def high16_def bit_simps intro!: bit_word_eqI)
qed

text \<open>A rule as the clients of the driver give it.\<close>

record ipa_nat_ipv4_rule =
  nr_target_ip :: u32
  nr_private_ip :: u32
  nr_target_port :: u16
  nr_private_port :: u16
  nr_public_port :: u16
  nr_protocol :: u8
  nr_pdn_index :: u8

text \<open>An entry of the rule tables as the hardware has it, and as the driver prepares it.\<close>

record ipa_nat_rule =
  h_private_ip :: u32
  h_target_ip :: u32
  nxt_indx_pub_port :: u32
  h_private_port :: u16
  h_target_port :: u16
  ip_cksm_enbl :: u32
  ts_proto :: u32
  sw_spec_params :: u32
  h_rsvd2 :: u8
  h_rsvd3 :: "4 word"
  h_pdn_index :: "4 word"
  h_tcp_udp_chksum :: u16

record ipa_nat_sw_rule =
  s_private_ip :: u32
  s_target_ip :: u32
  s_next_index :: u16
  s_public_port :: u16
  s_private_port :: u16
  s_target_port :: u16
  s_ip_chksum :: u16
  s_rsvd1 :: "14 word"
  s_redirect :: bool
  s_enable :: bool
  s_time_stamp :: "24 word"
  s_protocol :: u8
  s_prev_index :: u16
  s_indx_tbl_entry :: u16
  s_rsvd2 :: u8
  s_rsvd3 :: "4 word"
  s_pdn_index :: "4 word"
  s_tcp_udp_chksum :: u16

text \<open>The 16 flag bits, and the two accesses to a time stamp with its protocol.\<close>

definition mk_flags :: "bool \<Rightarrow> bool \<Rightarrow> 14 word \<Rightarrow> u16" where
  "mk_flags enable redirect rsvd1 =
     (if enable then 0x8000 else 0) OR (if redirect then 0x4000 else 0) OR ucast rsvd1"

definition mk_ts_proto :: "u8 \<Rightarrow> 24 word \<Rightarrow> u32" where
  "mk_ts_proto proto ts = push_bit 24 (ucast proto) OR ucast ts"

definition read_enable :: "u32 \<Rightarrow> bool" where
  "read_enable w = bit w 31"

definition read_protocol :: "u32 \<Rightarrow> u8" where
  "read_protocol w = ucast (drop_bit 24 w)"

definition read_time_stamp :: "u32 \<Rightarrow> u32" where
  "read_time_stamp w = w AND 0xFFFFFF"

text \<open>\<open>memcpy\<close> from the one structure to the other, and back.\<close>

definition rule_to_hw :: "ipa_nat_sw_rule \<Rightarrow> ipa_nat_rule" where
  "rule_to_hw r =
     \<lparr>h_private_ip = s_private_ip r, h_target_ip = s_target_ip r,
      nxt_indx_pub_port = mk32 (s_public_port r) (s_next_index r),
      h_private_port = s_private_port r, h_target_port = s_target_port r,
      ip_cksm_enbl = mk32 (mk_flags (s_enable r) (s_redirect r) (s_rsvd1 r)) (s_ip_chksum r),
      ts_proto = mk_ts_proto (s_protocol r) (s_time_stamp r),
      sw_spec_params = mk32 (s_indx_tbl_entry r) (s_prev_index r),
      h_rsvd2 = s_rsvd2 r, h_rsvd3 = s_rsvd3 r, h_pdn_index = s_pdn_index r,
      h_tcp_udp_chksum = s_tcp_udp_chksum r\<rparr>"

definition rule_of_hw :: "ipa_nat_rule \<Rightarrow> ipa_nat_sw_rule" where
  "rule_of_hw r =
     \<lparr>s_private_ip = h_private_ip r, s_target_ip = h_target_ip r,
      s_next_index = low16 (nxt_indx_pub_port r), s_public_port = high16 (nxt_indx_pub_port r),
      s_private_port = h_private_port r, s_target_port = h_target_port r,
      s_ip_chksum = low16 (ip_cksm_enbl r), s_rsvd1 = ucast (high16 (ip_cksm_enbl r)),
      s_redirect = bit (ip_cksm_enbl r) 30, s_enable = read_enable (ip_cksm_enbl r),
      s_time_stamp = ucast (ts_proto r), s_protocol = read_protocol (ts_proto r),
      s_prev_index = low16 (sw_spec_params r), s_indx_tbl_entry = high16 (sw_spec_params r),
      s_rsvd2 = h_rsvd2 r, s_rsvd3 = h_rsvd3 r, s_pdn_index = h_pdn_index r,
      s_tcp_udp_chksum = h_tcp_udp_chksum r\<rparr>"

text \<open>\<open>UpdateSwSpecParams\<close>: the value is shifted into the upper half, or goes into the lower one.\<close>

definition UpdateSwSpecParams :: "bool \<Rightarrow> u32 \<Rightarrow> ipa_nat_rule \<Rightarrow> ipa_nat_rule" where
  "UpdateSwSpecParams indx_tbl_entry_byte v r =
     (let temp = sw_spec_params r
      in if indx_tbl_entry_byte
         then r\<lparr>sw_spec_params := (temp AND 0x0000FFFF) OR push_bit 16 v\<rparr>
         else r\<lparr>sw_spec_params := (temp AND 0xFFFF0000) OR v\<rparr>)"

lemma update_sw_prev: "UpdateSwSpecParams False (ucast v) r = r\<lparr>sw_spec_params := mk32 (high16 (sw_spec_params r)) v\<rparr>"
  by (simp add: UpdateSwSpecParams_def mk32_def mk32_masks)

lemma update_sw_indx: "UpdateSwSpecParams True (ucast v) r = r\<lparr>sw_spec_params := mk32 v (low16 (sw_spec_params r))\<rparr>"
  by (simp add: UpdateSwSpecParams_def mk32_def mk32_masks or.commute)

section \<open>Lemmas\<close>

lemma nearest2_loop_value:
  "2 ^ k \<le> unat num \<Longrightarrow> unat num < 2 ^ Suc k \<Longrightarrow>
   nearest2_loop number num tmp = (if number = tmp * 2 ^ k then tmp * 2 ^ k else tmp * 2 ^ Suc k)"
proof (induction k arbitrary: num tmp)
  case 0
  then have "unat num = 1" by simp
  then have "num = 1" by (metis unat_1 unsigned_word_eqI)
  then show ?case by (subst nearest2_loop.simps) (simp add: mult.commute)
next
  case (Suc k)
  have big: "2 \<le> unat num" using Suc.prems(1) by (simp add: self_le_power order_trans [rotated])
  then have ne: "num \<noteq> 0" "num \<noteq> 1" by auto
  have half: "unat (drop_bit 1 num) = unat num div 2" by (simp add: drop_bit_eq_div unat_div)
  have "2 ^ k \<le> unat num div 2" "unat num div 2 < 2 ^ Suc k" using Suc.prems by auto
  from Suc.IH [of "drop_bit 1 num" "tmp * 2"] this have
    "nearest2_loop number (drop_bit 1 num) (tmp * 2) =
      (if number = tmp * 2 * 2 ^ k then tmp * 2 * 2 ^ k else tmp * 2 * 2 ^ Suc k)" unfolding half by blast
  with ne show ?case by (subst nearest2_loop.simps) (simp add: mult.assoc)
qed

lemma power_bracket:
  assumes "0 < (n :: nat)"
  shows "\<exists>k. 2 ^ k \<le> n \<and> n < 2 ^ Suc k"
  using ex_power_ivl1 [of 2 n] assms by auto

lemma nearest2_exact:
  assumes "1 < unat num"
  shows "\<exists>k. 2 ^ k < unat num + unat num \<and> unat num \<le> 2 ^ k \<and> GetNearest2Power num = (0, 2 ^ k)"
proof -
  from assms obtain k where k: "2 ^ k \<le> unat num" "unat num < 2 ^ Suc k"
    using power_bracket [of "unat num"] by auto
  have ne: "num \<noteq> 0" "num \<noteq> 1" using assms by auto
  have "k < 16"
  proof (rule ccontr)
    assume "\<not> k < 16"
    then have "2 ^ 16 \<le> (2 :: nat) ^ k" by (intro power_increasing) auto
    with k(1) unsigned_less [of num, where 'a = nat] show False by simp
  qed
  then have "(2 :: nat) ^ k < 2 ^ LENGTH(16)" by (intro power_strict_increasing) auto
  then have "unat (of_nat (2 ^ k) :: u16) = 2 ^ k"
    by (simp only: unsigned_of_nat take_bit_nat_eq_self of_nat_id)
  then have un: "unat (2 ^ k :: u16) = 2 ^ k" by simp
  show ?thesis
  proof (cases "num = 2 ^ k")
    case True
    then have "nearest2_loop num num 1 = 2 ^ k" using nearest2_loop_value [OF k, of num 1] by simp
    then have "GetNearest2Power num = (0, 2 ^ k)" using ne by (simp add: GetNearest2Power_def)
    moreover have "unat num = 2 ^ k" using True un by simp
    ultimately show ?thesis by (intro exI [of _ k]) simp
  next
    case False
    have "unat num \<noteq> 2 ^ k" using False un by (metis unsigned_word_eqI)
    then show ?thesis using False ne k
      by (intro exI [of _ "Suc k"]) (simp add: GetNearest2Power_def nearest2_loop_value [OF k])
  qed
qed

lemma bit_flags: "bit (0x8000 :: u16) n = (n = 15)" "bit (0x4000 :: u16) n = (n = 14)"
  using bit_exp_iff [of 15 n, where 'a = u16] bit_exp_iff [of 14 n, where 'a = u16] by auto

lemma bit_flags_int: "bit (0x8000 :: int) n = (n = 15)" "bit (0x4000 :: int) n = (n = 14)"
  using bit_exp_iff [of 15 n, where 'a = int] bit_exp_iff [of 14 n, where 'a = int] by auto

lemma hash_range:
  assumes "sz = mask k" and "k \<le> 16" and "0 < k"
  shows "0 < unat (dst_hash v a b c d e sz) \<and> unat (dst_hash v a b c d e sz) \<le> unat sz"
    and "0 < unat (src_hash a c b d e sz) \<and> unat (src_hash a c b d e sz) \<le> unat sz"
proof -
  have pos: "sz \<noteq> 0" using assms by (simp add: mask_eq_0_iff)
  have le: "unat (h AND sz) \<le> unat sz" for h :: u16 by (metis and.commute word_and_le1 word_le_nat_alt)
  show "0 < unat (dst_hash v a b c d e sz) \<and> unat (dst_hash v a b c d e sz) \<le> unat sz"
    "0 < unat (src_hash a c b d e sz) \<and> unat (src_hash a c b d e sz) \<le> unat sz"
    using pos by (simp_all add: dst_hash_def src_hash_def Let_def le unat_gt_0)
qed

lemma GetNearestEven_value:
  "x < 60000 \<Longrightarrow> unat (GetNearestEven (of_nat x)) = (if x < 2 then 2 else if odd x then x + 1 else x)"
proof -
  assume x: "x < 60000"
  then have u: "unat (of_nat x :: u16) = x" by (simp add: unsigned_of_nat take_bit_nat_eq_self)
  have "(of_nat x :: u16) < 2 \<longleftrightarrow> x < 2" using u by (simp add: word_less_nat_alt)
  moreover have "(of_nat x :: u16) mod 2 \<noteq> 0 \<longleftrightarrow> odd x"
  proof -
    have "unat ((of_nat x :: u16) mod 2) = x mod 2" by (simp add: unat_mod u)
    then show ?thesis by (metis odd_iff_mod_2_eq_one even_iff_mod_2_eq_zero unat_0 unsigned_word_eqI)
  qed
  moreover have "unat ((of_nat x :: u16) + 1) = x + 1"
    using u x by (subst unat_add_lem [THEN iffD1]) simp_all
  ultimately show ?thesis using u by (simp add: GetNearestEven_def)
qed

lemma unat_low_part: "unat (x AND 0xFFFF) = unat x mod 65536" for x :: u32
proof -
  have "x AND 0xFFFF = take_bit 16 x" by (simp add: take_bit_eq_mask mask_eq_exp_minus_1)
  then show ?thesis by (simp add: take_bit_eq_mod unat_mod)
qed

lemma unat_high_part: "unat (drop_bit 16 x) = unat x div 65536" for x :: u32
  by (simp add: drop_bit_eq_div unat_div)

lemma unat_carry_forward:
  assumes "unat c \<le> 131070"
  shows "unat (carry_forward c) = (if unat c < 65536 then unat c else unat c - 65535)"
proof -
  note d = unat_high_part [of c] and a = unat_low_part [of c]
  show ?thesis
  proof (cases "unat c < 65536")
    case True
    then have "drop_bit 16 c = 0" using d by (simp add: unat_eq_0 [symmetric])
    with True show ?thesis by (simp add: carry_forward_def)
  next
    case False
    with d have "unat (drop_bit 16 c) \<noteq> 0" by (simp add: div_eq_0_iff)
    then have ne: "drop_bit 16 c \<noteq> 0" by (metis unat_0)
    have "unat ((c AND 0xFFFF) + 1) = unat c mod 65536 + 1"
      using a by (subst unat_add_lem [THEN iffD1]) simp_all
    moreover have "unat c mod 65536 = unat c - 65536" using False assms by (simp add: mod_if)
    ultimately show ?thesis using False ne by (simp add: carry_forward_def)
  qed
qed

lemma unat_NOT32: "unat (NOT x) = 4294967295 - unat x" for x :: u32
proof -
  have "NOT x = -1 - x" by (metis add_diff_cancel_left' word_add_not)
  moreover have "unat (-1 - x) = unat (-1 :: u32) - unat x" by (rule unat_sub) simp
  ultimately show ?thesis by (simp add: unsigned_minus_1_eq_mask mask_eq_exp_minus_1)
qed

text \<open>One step of the sums: add at most 16 bits, then fold the carry in.\<close>

lemma carry_step:
  assumes "unat c \<le> 65535" and "unat x \<le> 65535"
  shows "unat (carry_forward (c + x)) mod 65535 = (unat c + unat x) mod 65535 \<and> unat (carry_forward (c + x)) \<le> 65535"
proof -
  have "unat (c + x) = unat c + unat x" using assms by (subst unat_add_lem [THEN iffD1]) simp_all
  with assms show ?thesis by (auto simp: unat_carry_forward mod_if le_mod_geq)
qed

lemma parts_bound: "unat (x AND 0xFFFF) \<le> 65535" "unat (drop_bit 16 x) \<le> 65535" for x :: u32
proof -
  have "unat x < 65536 * 65536" using unsigned_less [of x, where 'a = nat] by simp
  then have "unat x div 65536 < 65536" by (rule less_mult_imp_div_less)
  moreover have "unat x mod 65536 < 65536" by simp
  ultimately show "unat (x AND 0xFFFF) \<le> 65535" "unat (drop_bit 16 x) \<le> 65535"
    unfolding unat_low_part unat_high_part by linarith+
qed

lemma NOT32_parts:
  "unat (NOT x AND 0xFFFF) = 65535 - unat (x AND 0xFFFF)"
  "unat (drop_bit 16 (NOT x)) = 65535 - unat (drop_bit 16 x)" for x :: u32
proof -
  let ?q = "unat (drop_bit 16 x)" and ?r = "unat (x AND 0xFFFF)"
  have "unat x = 65536 * ?q + ?r" unfolding unat_low_part unat_high_part by simp
  then have n: "unat (NOT x) = 65536 * (65535 - ?q) + (65535 - ?r)"
    using parts_bound [of x] unfolding unat_NOT32 by linarith
  show "unat (NOT x AND 0xFFFF) = 65535 - ?r" "unat (drop_bit 16 (NOT x)) = 65535 - ?q"
    unfolding unat_low_part [of "NOT x"] unat_high_part [of "NOT x"] n by simp_all
qed

lemma unat_ucast_16: "unat c \<le> 65535 \<Longrightarrow> unat (ucast c :: u16) = unat c" for c :: u32
  by (simp add: unsigned_ucast_eq take_bit_nat_eq_self)

text \<open>The end-around sum of 16-bit values, step by step.\<close>

definition sums_to :: "u32 \<Rightarrow> nat \<Rightarrow> bool" where
  "sums_to c n \<longleftrightarrow> unat c \<le> 65535 \<and> unat c mod 65535 = n mod 65535"

lemma sums_to_step:
  "sums_to c n \<Longrightarrow> unat x \<le> 65535 \<Longrightarrow> sums_to (carry_forward (c + x)) (n + unat x)"
  using carry_step [of c x] by (auto simp: sums_to_def mod_add_left_eq) (metis mod_add_left_eq)

lemma sums_to_start: "sums_to (x AND 0xFFFF) (unat (x AND 0xFFFF))" for x :: u32
  by (simp add: sums_to_def parts_bound)

text \<open>The sizes of the two tables, up to the size from which the base table overflows.\<close>

lemma table_sizes_exact:
  assumes "0 < unat n" and "unat n \<le> 40961"
  shows "\<exists>k te me. table_sizes n = (0, te, me) \<and> 0 < k \<and> k < 16 \<and> unat te = 2 ^ k \<and>
    unat n * 4 div 5 \<le> unat te \<and> (k = 1 \<or> 2 ^ k < 2 * (unat n * 4 div 5)) \<and> even (unat me) \<and> 2 \<le> unat me \<and>
    unat n div 5 \<le> unat me \<and> unat me \<le> unat n div 5 + 2 \<and> unat te + unat me < 65536"
proof -
  define m where "m = unat n * 4 div 5"
  have um: "unat (of_nat j :: u16) = j" if "j < 65536" for j
    using that by (simp add: unsigned_of_nat take_bit_nat_eq_self)
  have m: "m \<le> 32768" using assms(2) by (simp add: m_def)
  have sizes: "table_sizes n =
    (case GetNearest2Power (of_nat (if m = 0 then 1 else m)) of (ret, te') \<Rightarrow>
       if ret \<noteq> 0 then (-22, te', 0) else (0, te', GetNearestEven (of_nat (unat n div 5))))"
    by (simp add: table_sizes_def Let_def m_def)
  have five: "unat n div 5 \<le> 8192" using assms(2) by simp
  have even: "even (unat (GetNearestEven (of_nat (unat n div 5))))"
    "2 \<le> unat (GetNearestEven (of_nat (unat n div 5)))"
    "unat n div 5 \<le> unat (GetNearestEven (of_nat (unat n div 5)))"
    "unat (GetNearestEven (of_nat (unat n div 5))) \<le> unat n div 5 + 2"
    using GetNearestEven_value [of "unat n div 5"] five by (auto split: if_splits)
  show ?thesis
  proof (cases "m \<le> 1")
    case True
    then have "(if m = 0 then 1 else m) = 1" by auto
    then have "table_sizes n = (0, 2, GetNearestEven (of_nat (unat n div 5)))"
      unfolding sizes by (simp add: GetNearest2Power_def)
    with True even five show ?thesis by (auto simp: m_def intro!: exI [of _ "1 :: nat"])
  next
    case False
    then have "1 < unat (of_nat m :: u16)" using um [of m] m by simp
    from nearest2_exact [OF this] um [of m] m obtain k where
      k: "2 ^ k < m + m" "m \<le> 2 ^ k" "GetNearest2Power (of_nat m) = (0, 2 ^ k)" by auto
    have "(2 :: nat) ^ k < 2 ^ 16" using k(1) m by simp
    then have k16: "k < 16" by (rule power_less_imp_less_exp [rotated]) simp
    have "unat (2 ^ k :: u16) = 2 ^ k" using um [of "2 ^ k"] \<open>2 ^ k < 2 ^ 16\<close> by simp
    moreover have "k \<noteq> 0" using k(2) False by (cases k) auto
    moreover have "(2 :: nat) ^ k \<le> 32768" using k16 power_increasing [of k 15 "2 :: nat"] by simp
    ultimately show ?thesis
      using False k even k16 five unfolding sizes by (auto simp: m_def [symmetric] intro!: exI [of _ k])
  qed
qed

section \<open>Properties\<close>

text \<open>
  what is copied to the hardware layout reads wrap field by field, and the update of one half of
  the software parameters changes that half only.
\<close>

theorem nat_rule_layout:
  "rule_of_hw (rule_to_hw r) = r \<and>
   rule_of_hw (UpdateSwSpecParams False (ucast p) (rule_to_hw r)) = r\<lparr>s_prev_index := p\<rparr> \<and>
   rule_of_hw (UpdateSwSpecParams True (ucast p) (rule_to_hw r)) = r\<lparr>s_indx_tbl_entry := p\<rparr>"
proof -
  have flags: "bit (mk_flags e d v) 15 = e" "bit (mk_flags e d v) 14 = d" "ucast (mk_flags e d v) = v"
    for e d and v :: "14 word"
    by (auto simp: mk_flags_def bit_simps bit_flags bit_flags_int intro!: bit_word_eqI dest: bit_imp_le_length)
  have hb: "bit (mk32 h l) 31 = bit h 15" "bit (mk32 h l) 30 = bit h 14" for h l
    by (auto simp: mk32_def bit_simps dest: bit_imp_le_length)
  have beyond: "\<not> bit t (24 + n)" for t :: "24 word" and n
    using bit_imp_le_length [of t "24 + n"] by auto
  have ts: "read_protocol (mk_ts_proto q t) = q" "ucast (mk_ts_proto q t) = t" for q t
    by (auto simp: mk_ts_proto_def read_protocol_def bit_simps beyond intro!: bit_word_eqI)
  show ?thesis
    by (simp add: update_sw_prev update_sw_indx rule_of_hw_def rule_to_hw_def flags hb ts read_enable_def)
qed

text \<open>
  C12: up to 40961 entries the base table gets a power of two of at least four fifths of them, the
  expansion table an even number of at least a fifth, and together they are indexed by 16 bits; above
  that the size of the base table overflows to zero, and the call still succeeds.
\<close>

theorem nat_table_sizes:
  assumes "0 < unat n"
  shows "if unat n \<le> 40961
    then \<exists>k te me. table_sizes n = (0, te, me) \<and> 0 < k \<and> k < 16 \<and> unat te = 2 ^ k \<and>
      unat n * 4 div 5 \<le> unat te \<and> even (unat me) \<and> 2 \<le> unat me \<and> unat n div 5 \<le> unat me \<and>
      unat te + unat me < 65536
    else fst (table_sizes n) = 0 \<and> fst (snd (table_sizes n)) = 0"
proof (cases "unat n \<le> 40961")
  case True
  with table_sizes_exact [OF assms] show ?thesis by auto
next
  case False
  define m where "m = unat n * 4 div 5"
  have m: "32768 < m" "m < 65536"
    using False unsigned_less [of n, where 'a = nat] by (simp_all add: m_def)
  have um: "unat (of_nat m :: u16) = m" using m(2) by (simp add: unsigned_of_nat take_bit_nat_eq_self)
  have sizes: "table_sizes n =
    (case GetNearest2Power (of_nat (if m = 0 then 1 else m)) of (ret, te') \<Rightarrow>
       if ret \<noteq> 0 then (-22, te', 0) else (0, te', GetNearestEven (of_nat (unat n div 5))))"
    by (simp add: table_sizes_def Let_def m_def)
  have "1 < unat (of_nat m :: u16)" using um m by simp
  from nearest2_exact [OF this] um obtain k where
    k: "2 ^ k < m + m" "m \<le> 2 ^ k" "GetNearest2Power (of_nat m) = (0, 2 ^ k)" by auto
  have "(2 :: nat) ^ 15 < 2 ^ k" using k(2) m(1) by simp
  then have "15 < k" by (rule power_less_imp_less_exp [rotated]) simp
  then have "(2 ^ k :: u16) = 0" by (simp add: exp_eq_zero_iff)
  with k(3) False m(1) show ?thesis unfolding sizes by simp
qed

theorem nat_table_sizes_witness:
  "\<exists>k te me. table_sizes 100 = (0, te, me) \<and> 0 < k \<and> k < (16 :: nat) \<and> unat te = 2 ^ k \<and>
     80 \<le> unat te \<and> even (unat me) \<and> 2 \<le> unat me \<and> 20 \<le> unat me \<and> unat te + unat me < 65536"
  using nat_table_sizes [of 100] by simp

text \<open>
  C13: both checksum differences are the differences, modulo 65535, of what goes into the packet and
  what comes out of it, in ones' complement arithmetic.
\<close>

theorem nat_cksum_difference:
  "int (unat (calc_ip_cksum pub priv)) mod 65535 =
     (int (unat (low16 pub)) + int (unat (high16 pub)) - int (unat (low16 priv)) - int (unat (high16 priv))) mod 65535 \<and>
   int (unat (calc_tcp_udp_cksum pub pub_port priv priv_port)) mod 65535 =
     (int (unat (low16 pub)) + int (unat (high16 pub)) + int (unat pub_port)
      - int (unat (low16 priv)) - int (unat (high16 priv)) - int (unat priv_port)) mod 65535"
proof -
  let ?lo = "\<lambda>x :: u32. unat (x AND 0xFFFF)" and ?hi = "\<lambda>x :: u32. unat (drop_bit 16 x)"
  have halves: "unat (low16 x) = ?lo x" "unat (high16 x) = ?hi x" for x
    using parts_bound [of x] by (simp_all add: low16_def high16_def unat_ucast_16) (simp add: unat_low_part unsigned_ucast_eq take_bit_eq_mod)
  have u16: "unat (ucast q :: u32) = unat q" "unat q \<le> 65535" for q :: u16
    using unsigned_less [of q, where 'a = nat] by (simp_all add: unsigned_ucast_eq take_bit_nat_eq_self)
  have not16: "unat (NOT q) = 65535 - unat q" for q :: u16
  proof -
    have "NOT q = -1 - q" by (metis add_diff_cancel_left' word_add_not)
    moreover have "unat (-1 - q) = unat (-1 :: u16) - unat q" by (rule unat_sub) simp
    ultimately show ?thesis by (simp add: unsigned_minus_1_eq_mask mask_eq_exp_minus_1)
  qed
  have to_int: "int (unat (ucast c :: u16)) mod 65535 = int n mod 65535" if "sums_to c n" for c n
  proof -
    have "unat c \<le> 65535" and m: "unat c mod 65535 = n mod 65535" using that by (simp_all only: sums_to_def)
    from m have "int (unat c mod 65535) = int (n mod 65535)" by (rule arg_cong)
    then show ?thesis
      by (simp only: unat_ucast_16 [OF \<open>unat c \<le> 65535\<close>] of_nat_mod of_nat_numeral)
  qed
  have 1: "sums_to (carry_forward ((pub AND 0xFFFF) + drop_bit 16 pub)) (?lo pub + ?hi pub)"
    by (rule sums_to_step [OF sums_to_start parts_bound(2)])
  have 2: "sums_to (carry_forward (carry_forward (c + (NOT priv AND 0xFFFF)) + drop_bit 16 (NOT priv)))
      (n + (65535 - ?lo priv) + (65535 - ?hi priv))" if "sums_to c n" for c n
    using sums_to_step [OF sums_to_step [OF that parts_bound(1)] parts_bound(2), of "NOT priv" "NOT priv"]
    by (simp only: NOT32_parts)
  have ip: "sums_to (carry_forward (carry_forward (carry_forward ((pub AND 0xFFFF) + drop_bit 16 pub) +
      (NOT priv AND 0xFFFF)) + drop_bit 16 (NOT priv))) (?lo pub + ?hi pub + (65535 - ?lo priv) + (65535 - ?hi priv))"
    by (rule 2 [OF 1])
  have wrap: "(p + int (65535 - x) + int (65535 - y)) mod 65535 = (p - int x - int y) mod 65535"
    if "x \<le> 65535" "y \<le> 65535" for p :: int and x y :: nat
  proof -
    have "p + int (65535 - x) + int (65535 - y) = p - int x - int y + 2 * 65535" using that by simp
    then show ?thesis by (simp only: mod_mult_self1)
  qed
  have wrap1: "(p + int (65535 - x)) mod 65535 = (p - int x) mod 65535" if "x \<le> 65535" for p :: int and x :: nat
  proof -
    have "p + int (65535 - x) = p - int x + 1 * 65535" using that by simp
    then show ?thesis by (simp only: mod_mult_self1)
  qed
  have port: "sums_to (carry_forward (carry_forward ((pub AND 0xFFFF) + drop_bit 16 pub) + ucast pub_port))
      (?lo pub + ?hi pub + unat pub_port)"
    using sums_to_step [OF 1, of "ucast pub_port"] u16 by simp
  have tcp: "sums_to (carry_forward (carry_forward (carry_forward (carry_forward (carry_forward
        ((pub AND 0xFFFF) + drop_bit 16 pub) + ucast pub_port) + (NOT priv AND 0xFFFF)) + drop_bit 16 (NOT priv)) +
        ucast (NOT priv_port)))
      (?lo pub + ?hi pub + unat pub_port + (65535 - ?lo priv) + (65535 - ?hi priv) + (65535 - unat priv_port))"
    using sums_to_step [OF 2 [OF port], of "ucast (NOT priv_port)"] u16 not16 by simp
  have "int (unat (calc_ip_cksum pub priv)) mod 65535 =
      (int (?lo pub) + int (?hi pub) - int (?lo priv) - int (?hi priv)) mod 65535"
    unfolding calc_ip_cksum_def Let_def to_int [OF ip] of_nat_add by (rule wrap [OF parts_bound])
  moreover have "int (unat (calc_tcp_udp_cksum pub pub_port priv priv_port)) mod 65535 =
      (int (?lo pub) + int (?hi pub) + int (unat pub_port)
       - int (?lo priv) - int (?hi priv) - int (unat priv_port)) mod 65535"
    unfolding calc_tcp_udp_cksum_def Let_def to_int [OF tcp] of_nat_add wrap1 [OF u16(2)]
    by (rule mod_diff_cong [OF wrap [OF parts_bound] refl])
  ultimately show ?thesis by (simp only: halves)
qed

end
