(* ===== verification/IpaNat.thy ===== *)
theory IpaNat
  imports IpaNatBits "HOL-Library.Monad_Syntax"
begin

text \<open>
  The NAT driver library (\<open>ipa_nat_drv.c\<close>, \<open>ipa_nat_drvi.c\<close>): the table of NAT rules in memory it
  shares with the hardware, hashed on the public side, with an index table hashed on the private
  side. Colliding entries are chained through an expansion table; an index from the size of the base
  table on stands for an entry of the expansion table.

  A result \<open>None\<close> is an access outside an array, through a NULL or unmapped pointer, or a loop that
  does not end; the fuel of the two walks is the size of the expansion table. Local variables of type
  \<open>uint16_t\<close> are numbers with their arithmetic modulo 65536.

  The kernel is a parameter: it answers each system call from the history of calls, and it is the
  kernel that carries out the DMA commands. Allocation and the mutex succeed; the dumps of the table
  are left out. There is one table, as \<open>IPA_NAT_MAX_IP4_TBLS\<close> says.
\<close>

section \<open>Arrays and 16-bit numbers\<close>

definition fetch :: "'a list \<Rightarrow> nat \<Rightarrow> 'a option" where
  "fetch xs i = (if i < length xs then Some (xs ! i) else None)"

definition store :: "'a list \<Rightarrow> nat \<Rightarrow> 'a \<Rightarrow> 'a list option" where
  "store xs i v = (if i < length xs then Some (xs[i := v]) else None)"

definition sub16 :: "nat \<Rightarrow> nat \<Rightarrow> nat" where
  "sub16 a b = (a + (65536 - b)) mod 65536"

definition add16 :: "nat \<Rightarrow> nat \<Rightarrow> nat" where
  "add16 a b = (a + b) mod 65536"

section \<open>Data\<close>

datatype nat_table_type = IPA_NAT_BASE_TBL | IPA_NAT_EXPN_TBL | IPA_NAT_INDX_TBL | IPA_NAT_INDEX_EXPN_TBL

text \<open>The commands of \<open>IPA_IOC_NAT_DMA\<close>: write 16 bits at a byte offset in a table.\<close>

record nat_dma_one =
  base_addr :: nat_table_type
  dma_data :: nat
  dma_offset :: nat

record nat_mem =
  ipv4_rules :: "ipa_nat_rule list"
  ipv4_expn_rules :: "ipa_nat_rule list"
  index_table :: "u32 list"
  index_table_expn :: "u32 list"

record ipa_nat_pdn_entry =
  p_public_ip :: u32
  p_src_metadata :: u32
  p_dst_metadata :: u32

record ipa_nat_ip4_table_cache =
  t_valid :: bool
  t_public_addr :: u32
  tbl_addr_offset :: nat
  table_entries :: nat
  expn_table_entries :: nat
  t_mem :: "nat_mem option"
  index_expn_table_meta :: "nat list option"
  rule_id_array :: "nat list option"
  cur_tbl_cnt :: nat
  cur_expn_tbl_cnt :: nat

datatype nat_io =
    IoOpenIpa
  | IoGetVersion
  | IoAllocMem nat
  | IoOpenTable
  | IoMap
  | IoInit nat nat u32
  | IoClose
  | IoDelete u32
  | IoModifyPdn u8 ipa_nat_pdn_entry
  | IoDma "nat_dma_one list"

text \<open>
  The kernel: its answers, 0 for success; what the DMA commands of a call do to the memory; whether
  the hardware is version 4.0 or later; the offset and the contents of the memory it provides.
\<close>

record nat_kernel =
  answer :: "nat_io list \<Rightarrow> nat_io \<Rightarrow> int"
  dma_effect :: "nat_io list \<Rightarrow> nat_dma_one list \<Rightarrow> nat_mem \<Rightarrow> nat_mem"
  hw_v4_0 :: bool
  mem_offset :: nat
  mapped_mem :: nat_mem

record ipa_nat_cache =
  ip4_tbl :: ipa_nat_ip4_table_cache
  ipa_fd :: bool
  table_cnt :: nat
  ver_v4_0 :: bool
  pdns :: "ipa_nat_pdn_entry list"
  io_log :: "nat_io list"

definition zero_hw_rule :: ipa_nat_rule where
  "zero_hw_rule =
     \<lparr>h_private_ip = 0, h_target_ip = 0, nxt_indx_pub_port = 0, h_private_port = 0, h_target_port = 0,
      ip_cksm_enbl = 0, ts_proto = 0, sw_spec_params = 0, h_rsvd2 = 0, h_rsvd3 = 0, h_pdn_index = 0,
      h_tcp_udp_chksum = 0\<rparr>"

definition zero_table :: ipa_nat_ip4_table_cache where
  "zero_table =
     \<lparr>t_valid = False, t_public_addr = 0, tbl_addr_offset = 0, table_entries = 0, expn_table_entries = 0,
      t_mem = None, index_expn_table_meta = None, rule_id_array = None, cur_tbl_cnt = 0,
      cur_expn_tbl_cnt = 0\<rparr>"

text \<open>The static variables at the start; the number of PDNs is a constant of the kernel header.\<close>

definition new_nat_cache :: "nat \<Rightarrow> ipa_nat_cache" where
  "new_nat_cache max_pdn_num =
     \<lparr>ip4_tbl = zero_table, ipa_fd = False, table_cnt = 0, ver_v4_0 = False,
      pdns = replicate max_pdn_num \<lparr>p_public_ip = 0, p_src_metadata = 0, p_dst_metadata = 0\<rparr>, io_log = []\<rparr>"

definition syscall :: "nat_kernel \<Rightarrow> nat_io \<Rightarrow> ipa_nat_cache \<Rightarrow> int \<times> ipa_nat_cache" where
  "syscall k op c = (answer k (io_log c) op, c\<lparr>io_log := io_log c @ [op]\<rparr>)"

definition set_mem :: "nat_mem \<Rightarrow> ipa_nat_cache \<Rightarrow> ipa_nat_cache" where
  "set_mem m c = c\<lparr>ip4_tbl := (ip4_tbl c)\<lparr>t_mem := Some m\<rparr>\<rparr>"

text \<open>\<open>ioctl(ipa_fd, IPA_IOC_NAT_DMA, cmd)\<close>\<close>

definition ioctl_dma :: "nat_kernel \<Rightarrow> nat_dma_one list \<Rightarrow> ipa_nat_cache \<Rightarrow> (int \<times> ipa_nat_cache) option" where
  "ioctl_dma k cmds c =
     do {
       mem \<leftarrow> t_mem (ip4_tbl c);
       let (ret, c1) = syscall k (IoDma cmds) c;
       Some (ret, set_mem (dma_effect k (io_log c) cmds mem) c1)
     }"

section \<open>Reading entries\<close>

definition rule_next :: "ipa_nat_rule \<Rightarrow> nat" where
  "rule_next r = unat (low16 (nxt_indx_pub_port r))"

definition rule_prev :: "ipa_nat_rule \<Rightarrow> nat" where
  "rule_prev r = unat (low16 (sw_spec_params r))"

definition rule_indx :: "ipa_nat_rule \<Rightarrow> nat" where
  "rule_indx r = unat (high16 (sw_spec_params r))"

definition rule_enabled :: "ipa_nat_rule \<Rightarrow> bool" where
  "rule_enabled r = read_enable (ip_cksm_enbl r)"

definition index_entry :: "u32 \<Rightarrow> nat" where
  "index_entry w = unat (low16 w)"

definition index_next :: "u32 \<Rightarrow> nat" where
  "index_next w = unat (high16 w)"

section \<open>Making and deleting the table\<close>

definition reset_tbl :: "ipa_nat_cache \<Rightarrow> ipa_nat_cache" where
  "reset_tbl c =
     (let n = table_entries (ip4_tbl c); m = expn_table_entries (ip4_tbl c)
      in set_mem \<lparr>ipv4_rules = replicate n zero_hw_rule, ipv4_expn_rules = replicate m zero_hw_rule,
                  index_table = replicate n 0, index_table_expn = replicate m 0\<rparr> c)"

definition alloc_table :: "nat_kernel \<Rightarrow> u16 \<Rightarrow> ipa_nat_cache \<Rightarrow> int \<times> nat \<times> nat \<times> ipa_nat_cache" where
  "alloc_table k number_of_entries c =
     (case table_sizes number_of_entries of (ret, te, me) \<Rightarrow>
        if ret \<noteq> 0 then (-22, 0, 0, c)
        else let n = unat te; m = unat me;
                 (fd, c1) = (if ipa_fd c then (0, c) else syscall k IoOpenIpa c)
             in if fd < 0 then (-5, n, m, c1)
                else let c1 = c1\<lparr>ipa_fd := True\<rparr>;
                         (ver, c2) = syscall k IoGetVersion c1
                     in if ver \<noteq> 0 then (-5, n, m, c2)
                        else let c2 = c2\<lparr>ver_v4_0 := hw_v4_0 k\<rparr>;
                                 (ret, c3) = syscall k (IoAllocMem (32 * (n + m) + 4 * (n + m))) c2
                             in (if ret \<noteq> 0 then -22 else 0, n, m, c3))"

definition update_cache ::
  "nat_kernel \<Rightarrow> u32 \<Rightarrow> nat \<Rightarrow> nat \<Rightarrow> ipa_nat_cache \<Rightarrow> int \<times> ipa_nat_cache" where
  "update_cache k public_addr n m c =
     (let t = (ip4_tbl c)\<lparr>t_valid := True, t_public_addr := public_addr, tbl_addr_offset := mem_offset k,
                table_entries := n, expn_table_entries := m\<rparr>;
          t = t\<lparr>index_expn_table_meta :=
                  (case index_expn_table_meta t of None \<Rightarrow> Some (replicate m 0) | x \<Rightarrow> x),
                rule_id_array :=
                  (case rule_id_array t of None \<Rightarrow> Some (replicate (n + m) 0) | x \<Rightarrow> x)\<rparr>;
          (fd, c1) = syscall k IoOpenTable (c\<lparr>ip4_tbl := t\<rparr>)
      in if fd < 0 then (-5, c1)
         else let (ret, c2) = syscall k IoMap c1
              in if ret \<noteq> 0 then (-22, c2) else (0, set_mem (mapped_mem k) c2))"

definition post_ipv4_init_cmd :: "nat_kernel \<Rightarrow> ipa_nat_cache \<Rightarrow> int \<times> ipa_nat_cache" where
  "post_ipv4_init_cmd k c =
     (case syscall k (IoInit (sub16 (table_entries (ip4_tbl c)) 1) (expn_table_entries (ip4_tbl c))
                        (t_public_addr (ip4_tbl c))) c of
        (ret, c1) \<Rightarrow> (if ret \<noteq> 0 then -22 else 0, c1))"

text \<open>
  There is room for one table; adding a second one writes past the array. The result is the return
  code, the handle and the state.
\<close>

definition nati_add_ipv4_tbl :: "nat_kernel \<Rightarrow> u32 \<Rightarrow> u16 \<Rightarrow> ipa_nat_cache \<Rightarrow> (int \<times> nat \<times> ipa_nat_cache) option" where
  "nati_add_ipv4_tbl k public_ip_addr number_of_entries c =
     (case alloc_table k number_of_entries c of (ret, n, m, c1) \<Rightarrow>
        if ret \<noteq> 0 then Some (-12, 0, c1)
        else if table_cnt c1 \<noteq> 0 then None
        else case update_cache k public_ip_addr n m c1 of (ret, c2) \<Rightarrow>
          if ret \<noteq> 0 then Some (-22, 0, c2)
          else case post_ipv4_init_cmd k (reset_tbl c2) of (ret, c3) \<Rightarrow>
            if ret \<noteq> 0 then Some (-22, 0, c3)
            else do {
              pdn \<leftarrow> fetch (pdns c3) 0;
              ps \<leftarrow> store (pdns c3) 0 (pdn\<lparr>p_public_ip := public_ip_addr\<rparr>);
              Some (0, table_cnt c3 + 1, c3\<lparr>pdns := ps, table_cnt := table_cnt c3 + 1\<rparr>)
            })"

text \<open>
  \<open>munmap\<close> leaves the pointers as they are: they point to unmapped memory, \<open>None\<close> as NULL does.
\<close>

definition nati_del_ipv4_table :: "nat_kernel \<Rightarrow> ipa_nat_cache \<Rightarrow> int \<times> ipa_nat_cache" where
  "nati_del_ipv4_table k c =
     (if \<not> t_valid (ip4_tbl c) then (-22, c)
      else let c1 = c\<lparr>ip4_tbl := (ip4_tbl c)\<lparr>t_mem := None\<rparr>\<rparr>;
               (ret, c2) = syscall k IoClose c1
           in if ret \<noteq> 0 then (-22, c2)
              else let (ret, c3) = syscall k (IoDelete (t_public_addr (ip4_tbl c2))) c2
                   in if ret \<noteq> 0 then (-22, c3)
                      else (0, c3\<lparr>ip4_tbl := zero_table, table_cnt := table_cnt c3 - 1\<rparr>))"

section \<open>Adding a rule\<close>

text \<open>
  The walk to the end of a chain: \<open>rd\<close> reads the next index of an entry of the expansion table. The
  result is the last index, or 0 when an entry is its own successor.
\<close>

fun walk_end :: "nat \<Rightarrow> nat \<Rightarrow> (nat \<Rightarrow> nat option) \<Rightarrow> nat \<Rightarrow> nat option" where
  "walk_end 0 n rd nxt_indx = None"
| "walk_end (Suc fuel) n rd nxt_indx =
     do {
       nxt \<leftarrow> rd (sub16 nxt_indx n);
       if nxt = nxt_indx then Some 0
       else if nxt = 0 then Some nxt_indx
       else walk_end fuel n rd nxt
     }"

text \<open>The loop \<open>for (cnt = 1; cnt < size; cnt++)\<close> for a free entry.\<close>

definition free_entry :: "('a \<Rightarrow> bool) \<Rightarrow> 'a list \<Rightarrow> nat \<Rightarrow> nat option" where
  "free_entry free tbl sz =
     (if sz \<le> length tbl
      then let cnt = Suc (first_index free (drop 1 (take sz tbl))) in Some (if cnt < sz then cnt else 0)
      else None)"

definition expn_tbl_free_entry :: "ipa_nat_rule list \<Rightarrow> nat \<Rightarrow> nat option" where
  "expn_tbl_free_entry = free_entry (\<lambda>r. \<not> rule_enabled r)"

definition index_expn_get_free_entry :: "u32 list \<Rightarrow> nat \<Rightarrow> nat option" where
  "index_expn_get_free_entry = free_entry (\<lambda>w. index_entry w = 0)"

definition client_to_sw :: "u32 \<Rightarrow> ipa_nat_ipv4_rule \<Rightarrow> ipa_nat_sw_rule" where
  "client_to_sw pub_ip_addr r =
     \<lparr>s_private_ip = nr_private_ip r, s_target_ip = nr_target_ip r, s_next_index = 0,
      s_public_port = nr_public_port r, s_private_port = nr_private_port r, s_target_port = nr_target_port r,
      s_ip_chksum = calc_ip_cksum pub_ip_addr (nr_private_ip r), s_rsvd1 = 0, s_redirect = False,
      s_enable = False, s_time_stamp = 0, s_protocol = nr_protocol r, s_prev_index = 0,
      s_indx_tbl_entry = 0, s_rsvd2 = 0, s_rsvd3 = 0, s_pdn_index = ucast (nr_pdn_index r),
      s_tcp_udp_chksum =
        (if nr_protocol r = 6 \<or> nr_protocol r = 17
         then calc_tcp_udp_cksum pub_ip_addr (nr_public_port r) (nr_private_ip r) (nr_private_port r)
         else 0)\<rparr>"

text \<open>The entry for a rule, 0 when there is none, and the rule with its \<open>prev_index\<close>.\<close>

definition generate_tbl_rule ::
  "ipa_nat_cache \<Rightarrow> ipa_nat_ipv4_rule \<Rightarrow> (nat \<times> ipa_nat_sw_rule) option" where
  "generate_tbl_rule c clnt =
     do {
       let t = ip4_tbl c;
       mem \<leftarrow> t_mem t;
       pdn \<leftarrow> fetch (pdns c) (unat (nr_pdn_index clnt));
       let sw = client_to_sw (p_public_ip pdn) clnt;
       let n = table_entries t;
       let new_entry = unat (dst_hash (ver_v4_0 c) (p_public_ip pdn) (nr_target_ip clnt) (nr_target_port clnt)
             (nr_public_port clnt) (nr_protocol clnt) (of_nat n - 1));
       e \<leftarrow> fetch (ipv4_rules mem) new_entry;
       if \<not> rule_enabled e then Some (new_entry, sw)
       else do {
         prev \<leftarrow> (if rule_next e = 0 then Some new_entry
                  else walk_end (length (ipv4_expn_rules mem)) n
                         (\<lambda>i. map_option rule_next (fetch (ipv4_expn_rules mem) i)) (rule_next e));
         if prev = 0 then Some (0, sw)
         else do {
           cnt \<leftarrow> expn_tbl_free_entry (ipv4_expn_rules mem) (expn_table_entries t);
           let sw = sw\<lparr>s_prev_index := of_nat prev\<rparr>;
           Some (if cnt = 0 then 0 else add16 cnt n, sw)
         }
       }
     }"

text \<open>The index entry for a rule, 0 when there is none, and its predecessor.\<close>

definition generate_index_rule :: "ipa_nat_cache \<Rightarrow> ipa_nat_ipv4_rule \<Rightarrow> (nat \<times> nat) option" where
  "generate_index_rule c clnt =
     do {
       let t = ip4_tbl c;
       mem \<leftarrow> t_mem t;
       let n = table_entries t;
       let new_entry = unat (src_hash (nr_private_ip clnt) (nr_private_port clnt) (nr_target_ip clnt)
             (nr_target_port clnt) (nr_protocol clnt) (of_nat n - 1));
       w \<leftarrow> fetch (index_table mem) new_entry;
       if index_entry w = 0 then Some (new_entry, 0)
       else do {
         prev \<leftarrow> (if index_next w = 0 then Some new_entry
                  else walk_end (length (index_table_expn mem)) n
                         (\<lambda>i. map_option index_next (fetch (index_table_expn mem) i)) (index_next w));
         if prev = 0 then Some (0, 0)
         else do {
           cnt \<leftarrow> index_expn_get_free_entry (index_table_expn mem) (expn_table_entries t);
           if cnt = 0 then Some (0, prev)
           else let new_entry = add16 cnt n in Some (if prev = new_entry then 0 else new_entry, prev)
         }
       }
     }"

text \<open>The rule, its entry, its index entry and the predecessor of that; \<open>None\<close> within is an error.\<close>

definition generate_rule ::
  "ipa_nat_cache \<Rightarrow> ipa_nat_ipv4_rule \<Rightarrow> ((ipa_nat_sw_rule \<times> nat \<times> nat \<times> nat) option \<times> ipa_nat_cache) option" where
  "generate_rule c clnt =
     do {
       (tbl_entry, sw) \<leftarrow> generate_tbl_rule c clnt;
       if tbl_entry = 0 then Some (None, c)
       else do {
         (indx_tbl_entry, prev_index) \<leftarrow> generate_index_rule c clnt;
         if indx_tbl_entry = 0 then Some (None, c)
         else do {
           let t = ip4_tbl c;
           let sw = sw\<lparr>s_indx_tbl_entry := of_nat indx_tbl_entry\<rparr>;
           c' \<leftarrow> (if table_entries t \<le> indx_tbl_entry
                 then do {
                   meta \<leftarrow> index_expn_table_meta t;
                   meta' \<leftarrow> store meta (sub16 indx_tbl_entry (table_entries t)) prev_index;
                   Some (c\<lparr>ip4_tbl := t\<lparr>index_expn_table_meta := Some meta'\<rparr>\<rparr>)
                 }
                 else Some c);
           Some (Some (sw, tbl_entry, indx_tbl_entry, prev_index), c')
         }
       }
     }"

definition get_entry_offset :: "ipa_nat_ip4_table_cache \<Rightarrow> nat \<Rightarrow> nat" where
  "get_entry_offset t tbl_entry = tbl_entry * 32 + tbl_addr_offset t"

definition get_index_entry_offset :: "ipa_nat_ip4_table_cache \<Rightarrow> nat \<Rightarrow> nat" where
  "get_index_entry_offset t indx_tbl_entry = indx_tbl_entry * 4 + tbl_addr_offset t"

text \<open>What becomes of the command is not looked at.\<close>

definition write_next_index ::
  "nat_kernel \<Rightarrow> nat_table_type \<Rightarrow> nat \<Rightarrow> nat \<Rightarrow> ipa_nat_cache \<Rightarrow> ipa_nat_cache option" where
  "write_next_index k tbl_type v offset c =
     map_option snd (ioctl_dma k [\<lparr>base_addr = tbl_type, dma_data = v, dma_offset = offset\<rparr>] c)"

definition copy_ipv4_rule_to_hw ::
  "nat_kernel \<Rightarrow> ipa_nat_sw_rule \<Rightarrow> nat \<Rightarrow> ipa_nat_cache \<Rightarrow> ipa_nat_cache option" where
  "copy_ipv4_rule_to_hw k rule entry c =
     do {
       let t = ip4_tbl c;
       let n = table_entries t;
       mem \<leftarrow> t_mem t;
       mem' \<leftarrow> (if entry < n
               then do { xs \<leftarrow> store (ipv4_rules mem) entry (rule_to_hw rule); Some (mem\<lparr>ipv4_rules := xs\<rparr>) }
               else do { xs \<leftarrow> store (ipv4_expn_rules mem) (entry - n) (rule_to_hw rule);
                         Some (mem\<lparr>ipv4_expn_rules := xs\<rparr>) });
       let c1 = set_mem mem' c;
       let prev = unat (s_prev_index rule);
       if prev = 0 then Some c1
       else if prev < n
       then write_next_index k IPA_NAT_BASE_TBL entry (get_entry_offset t prev + 8) c1
       else write_next_index k IPA_NAT_EXPN_TBL entry (get_entry_offset t (prev - n) + 8) c1
     }"

text \<open>Here the offset is a \<open>uint16_t\<close>.\<close>

definition copy_ipv4_index_rule_to_hw ::
  "nat_kernel \<Rightarrow> nat \<Rightarrow> nat \<Rightarrow> nat \<Rightarrow> ipa_nat_cache \<Rightarrow> ipa_nat_cache option" where
  "copy_ipv4_index_rule_to_hw k tbl_entry prev entry c =
     do {
       let t = ip4_tbl c;
       let n = table_entries t;
       mem \<leftarrow> t_mem t;
       mem' \<leftarrow> (if entry < n
               then do { xs \<leftarrow> store (index_table mem) entry (mk32 0 (of_nat tbl_entry)); Some (mem\<lparr>index_table := xs\<rparr>) }
               else do { xs \<leftarrow> store (index_table_expn mem) (entry - n) (mk32 0 (of_nat tbl_entry));
                         Some (mem\<lparr>index_table_expn := xs\<rparr>) });
       let c1 = set_mem mem' c;
       if prev = 0 then Some c1
       else if prev < n
       then write_next_index k IPA_NAT_INDX_TBL entry ((get_index_entry_offset t prev mod 65536 + 2) mod 65536) c1
       else write_next_index k IPA_NAT_INDEX_EXPN_TBL entry
              ((get_index_entry_offset t (prev - n) mod 65536 + 2) mod 65536) c1
     }"

text \<open>In a base table the offset of the command leaves out \<open>tbl_addr_offset\<close>.\<close>

definition post_ipv4_dma_cmd :: "nat_kernel \<Rightarrow> nat \<Rightarrow> ipa_nat_cache \<Rightarrow> (int \<times> ipa_nat_cache) option" where
  "post_ipv4_dma_cmd k entry c =
     do {
       let t = ip4_tbl c;
       let n = table_entries t;
       let cmd = (if entry < n
             then \<lparr>base_addr = IPA_NAT_BASE_TBL, dma_data = 0x8000, dma_offset = entry * 32 + 18\<rparr>
             else \<lparr>base_addr = IPA_NAT_EXPN_TBL, dma_data = 0x8000,
                   dma_offset = (entry - n) * 32 + 18 + tbl_addr_offset t\<rparr>);
       (ret, c1) \<leftarrow> ioctl_dma k [cmd] c;
       Some (if ret \<noteq> 0 then -5 else 0, c1)
     }"

definition make_rule_hdl :: "nat \<Rightarrow> ipa_nat_cache \<Rightarrow> (nat \<times> ipa_nat_cache) option" where
  "make_rule_hdl tbl_entry c =
     do {
       let t = ip4_tbl c;
       let n = table_entries t;
       let (rule_hdl, t1) =
         (if n \<le> tbl_entry
          then ((tbl_entry - n) * 2 mod 65536 + 1, t\<lparr>cur_expn_tbl_cnt := add16 (cur_expn_tbl_cnt t) 1\<rparr>)
          else (tbl_entry * 2 mod 65536, t\<lparr>cur_tbl_cnt := add16 (cur_tbl_cnt t) 1\<rparr>));
       ids \<leftarrow> rule_id_array t1;
       if length ids < n + expn_table_entries t then None
       else
         let cnt = first_index (\<lambda>x. x = 0) (take (n + expn_table_entries t) ids)
         in if cnt < n + expn_table_entries t
            then Some (add16 cnt 1, c\<lparr>ip4_tbl := t1\<lparr>rule_id_array := Some (ids[cnt := rule_hdl])\<rparr>\<rparr>)
            else Some (0, c\<lparr>ip4_tbl := t1\<rparr>)
     }"

text \<open>The handle is written only when the rule is in the table.\<close>

definition nati_add_ipv4_rule ::
  "nat_kernel \<Rightarrow> ipa_nat_ipv4_rule \<Rightarrow> ipa_nat_cache \<Rightarrow> (int \<times> nat option \<times> ipa_nat_cache) option" where
  "nati_add_ipv4_rule k clnt c =
     (if length (pdns c) \<le> unat (nr_pdn_index clnt) \<or> p_public_ip (pdns c ! unat (nr_pdn_index clnt)) = 0
      then Some (-22, None, c)
      else do {
        (generated, c1) \<leftarrow> generate_rule c clnt;
        case generated of
          None \<Rightarrow> Some (-22, None, c1)
        | Some (sw, new_entry, new_index, prev) \<Rightarrow>
            do {
              c2 \<leftarrow> copy_ipv4_rule_to_hw k sw new_entry c1;
              c3 \<leftarrow> copy_ipv4_index_rule_to_hw k new_entry prev new_index c2;
              (ret, c4) \<leftarrow> post_ipv4_dma_cmd k new_entry c3;
              if ret \<noteq> 0 then Some (-5, None, c4)
              else do {
                (hdl, c5) \<leftarrow> make_rule_hdl new_entry c4;
                Some (if hdl = 0 then -22 else 0, Some hdl, c5)
              }
            }
      })"

section \<open>Deleting a rule\<close>

datatype del_type = DEL_ONLY_ONE | DEL_HEAD | DEL_MIDDLE | DEL_LAST

text \<open>
  The expansion flag and the entry behind a handle, a \<open>uint16_t\<close>; entry 0 for a handle out of range.
  Handle 0 would be read from before the array.
\<close>

definition parse_ipv4_rule_hdl :: "nat \<Rightarrow> ipa_nat_ip4_table_cache \<Rightarrow> (bool \<times> nat) option" where
  "parse_ipv4_rule_hdl rule_hdl t =
     (if table_entries t + expn_table_entries t \<le> rule_hdl then Some (False, 0)
      else if rule_hdl = 0 then None
      else do {
        ids \<leftarrow> rule_id_array t;
        rule_id \<leftarrow> fetch ids (rule_hdl - 1);
        Some (odd rule_id, rule_id div 2)
      })"

definition find_rule_pos :: "nat_mem \<Rightarrow> bool \<Rightarrow> nat \<Rightarrow> del_type option" where
  "find_rule_pos mem expn_tbl tbl_entry =
     (if expn_tbl
      then map_option (\<lambda>r. if rule_next r = 0 then DEL_LAST else DEL_MIDDLE) (fetch (ipv4_expn_rules mem) tbl_entry)
      else map_option (\<lambda>r. if rule_next r = 0 then DEL_ONLY_ONE else DEL_HEAD) (fetch (ipv4_rules mem) tbl_entry))"

definition find_index_rule_pos :: "nat \<Rightarrow> nat_mem \<Rightarrow> nat \<Rightarrow> del_type option" where
  "find_index_rule_pos n mem tbl_entry =
     (if n \<le> tbl_entry
      then map_option (\<lambda>w. if index_next w = 0 then DEL_LAST else DEL_MIDDLE) (fetch (index_table_expn mem) (tbl_entry - n))
      else map_option (\<lambda>w. if index_next w = 0 then DEL_ONLY_ONE else DEL_HEAD) (fetch (index_table mem) tbl_entry))"

definition ReorderCmds :: "nat_dma_one list \<Rightarrow> nat_dma_one list" where
  "ReorderCmds cmds =
     (let start = first_index (\<lambda>d. base_addr d = IPA_NAT_INDX_TBL \<or> base_addr d = IPA_NAT_INDEX_EXPN_TBL) cmds
      in if start = 0 \<or> start = length cmds then cmds else drop start cmds @ take start cmds)"

text \<open>The command for the rule itself: disable it, invalidate its protocol, or unlink it.\<close>

definition rule_del_cmd :: "ipa_nat_ip4_table_cache \<Rightarrow> ipa_nat_rule \<Rightarrow> nat \<Rightarrow> del_type \<Rightarrow> nat_dma_one" where
  "rule_del_cmd t cur cur_tbl_entry rule_pos =
     (let unlink = (\<lambda>v.
            let prev = rule_prev cur; n = table_entries t
            in if n \<le> prev
               then \<lparr>base_addr = IPA_NAT_EXPN_TBL, dma_data = v, dma_offset = get_entry_offset t (prev - n) + 8\<rparr>
               else \<lparr>base_addr = IPA_NAT_BASE_TBL, dma_data = v, dma_offset = get_entry_offset t prev + 8\<rparr>)
      in case rule_pos of
           DEL_ONLY_ONE \<Rightarrow>
             \<lparr>base_addr = IPA_NAT_BASE_TBL, dma_data = 0, dma_offset = get_entry_offset t cur_tbl_entry + 18\<rparr>
         | DEL_HEAD \<Rightarrow>
             \<lparr>base_addr = IPA_NAT_BASE_TBL, dma_data = 0xFF00, dma_offset = get_entry_offset t cur_tbl_entry + 22\<rparr>
         | DEL_MIDDLE \<Rightarrow> unlink (rule_next cur)
         | DEL_LAST \<Rightarrow> unlink 0)"

text \<open>
  The commands for the index entry, of which \<open>i\<close> is the position in its own table: reset it, copy its
  successor into it, or unlink it.
\<close>

definition index_del_cmds ::
  "ipa_nat_ip4_table_cache \<Rightarrow> nat_mem \<Rightarrow> u32 \<Rightarrow> nat \<Rightarrow> del_type \<Rightarrow> nat_dma_one list option" where
  "index_del_cmds t mem cur i indx_rule_pos =
     (let n = table_entries t;
          unlink = (\<lambda>v. do {
            meta \<leftarrow> index_expn_table_meta t;
            prev \<leftarrow> fetch meta i;
            Some [if n \<le> prev
                  then \<lparr>base_addr = IPA_NAT_INDEX_EXPN_TBL, dma_data = v, dma_offset = get_index_entry_offset t (prev - n) + 2\<rparr>
                  else \<lparr>base_addr = IPA_NAT_INDX_TBL, dma_data = v, dma_offset = get_index_entry_offset t prev + 2\<rparr>]
          })
      in case indx_rule_pos of
           DEL_ONLY_ONE \<Rightarrow>
             Some [\<lparr>base_addr = IPA_NAT_INDX_TBL, dma_data = 0, dma_offset = get_index_entry_offset t i\<rparr>]
         | DEL_HEAD \<Rightarrow>
             do {
               w \<leftarrow> fetch (index_table_expn mem) (sub16 (index_next cur) n);
               Some [\<lparr>base_addr = IPA_NAT_INDX_TBL, dma_data = index_entry w, dma_offset = get_index_entry_offset t i\<rparr>,
                     \<lparr>base_addr = IPA_NAT_INDX_TBL, dma_data = index_next w, dma_offset = get_index_entry_offset t i + 2\<rparr>]
             }
         | DEL_MIDDLE \<Rightarrow> unlink (index_next cur)
         | DEL_LAST \<Rightarrow> unlink 0)"

text \<open>After the commands: the successor of a rule in the middle, then the rule itself.\<close>

definition rule_del_after ::
  "nat \<Rightarrow> nat \<Rightarrow> bool \<Rightarrow> del_type \<Rightarrow> nat_mem \<Rightarrow> nat_mem option" where
  "rule_del_after n cur_tbl_entry expn_tbl rule_pos mem =
     do {
       mem1 \<leftarrow> (if rule_pos = DEL_MIDDLE
               then do {
                 cur \<leftarrow> fetch (if expn_tbl then ipv4_expn_rules mem else ipv4_rules mem) cur_tbl_entry;
                 let nxt = sub16 (rule_next cur) n;
                 r \<leftarrow> fetch (ipv4_expn_rules mem) nxt;
                 xs \<leftarrow> store (ipv4_expn_rules mem) nxt (UpdateSwSpecParams False (of_nat (rule_prev cur)) r);
                 Some (mem\<lparr>ipv4_expn_rules := xs\<rparr>)
               }
               else Some mem);
       if rule_pos = DEL_HEAD then Some mem1
       else if expn_tbl \<or> rule_pos = DEL_MIDDLE
       then do { xs \<leftarrow> store (ipv4_expn_rules mem1) cur_tbl_entry zero_hw_rule; Some (mem1\<lparr>ipv4_expn_rules := xs\<rparr>) }
       else do { xs \<leftarrow> store (ipv4_rules mem1) cur_tbl_entry zero_hw_rule; Some (mem1\<lparr>ipv4_rules := xs\<rparr>) }
     }"

text \<open>
  The index entry at \<open>i\<close> of its table, \<open>indx_expn\<close> the expansion table; \<open>nxt\<close> is the successor that
  was copied when it was a head. The predecessors in \<open>meta\<close> change with it.
\<close>

definition index_del_after ::
  "nat \<Rightarrow> nat \<Rightarrow> bool \<Rightarrow> nat \<Rightarrow> del_type \<Rightarrow> nat_mem \<times> nat list \<Rightarrow> (nat_mem \<times> nat list) option" where
  "index_del_after n i indx_expn nxt indx_rule_pos s =
     (let (mem, meta) = s in
      if indx_rule_pos = DEL_HEAD then
        do {
          w \<leftarrow> fetch (index_table_expn mem) nxt;
          meta1 \<leftarrow> (if index_next w \<noteq> 0 \<and> n \<le> index_next w then store meta (index_next w - n) i else Some meta);
          xs \<leftarrow> store (index_table_expn mem) nxt 0;
          let mem1 = mem\<lparr>index_table_expn := xs\<rparr>;
          h \<leftarrow> fetch (index_table mem1) i;
          let e = index_entry h;
          if n \<le> e
          then do {
            r \<leftarrow> fetch (ipv4_expn_rules mem1) (e - n);
            rs \<leftarrow> store (ipv4_expn_rules mem1) (e - n) (UpdateSwSpecParams True (of_nat i) r);
            Some (mem1\<lparr>ipv4_expn_rules := rs\<rparr>, meta1)
          }
          else do {
            r \<leftarrow> fetch (ipv4_rules mem1) e;
            rs \<leftarrow> store (ipv4_rules mem1) e (UpdateSwSpecParams True (of_nat i) r);
            Some (mem1\<lparr>ipv4_rules := rs\<rparr>, meta1)
          }
        }
      else
        do {
          cur \<leftarrow> fetch (if indx_expn then index_table_expn mem else index_table mem) i;
          meta2 \<leftarrow> (if indx_rule_pos = DEL_MIDDLE
                   then do {
                     let nx = (if n \<le> index_next cur then index_next cur - n else index_next cur);
                     p \<leftarrow> fetch meta i;
                     meta1 \<leftarrow> store meta nx p;
                     store meta1 i 0
                   }
                   else Some meta);
          if indx_expn
          then do { xs \<leftarrow> store (index_table_expn mem) i 0; Some (mem\<lparr>index_table_expn := xs\<rparr>, meta2) }
          else do { xs \<leftarrow> store (index_table mem) i 0; Some (mem\<lparr>index_table := xs\<rparr>, meta2) }
        })"

definition post_del_dma_cmd ::
  "nat_kernel \<Rightarrow> nat \<Rightarrow> bool \<Rightarrow> del_type \<Rightarrow> ipa_nat_cache \<Rightarrow> (int \<times> ipa_nat_cache) option" where
  "post_del_dma_cmd k cur_tbl_entry expn_tbl rule_pos c =
     do {
       let t = ip4_tbl c;
       let n = table_entries t;
       mem \<leftarrow> t_mem t;
       cur \<leftarrow> fetch (if expn_tbl then ipv4_expn_rules mem else ipv4_rules mem) cur_tbl_entry;
       if \<not> rule_enabled cur then Some (-22, c)
       else do {
         let cmd = rule_del_cmd t cur cur_tbl_entry rule_pos;
         let indx = rule_indx cur;
         indx_rule_pos \<leftarrow> find_index_rule_pos n mem indx;
         let indx_expn = (n \<le> indx);
         let i = (if indx_expn then indx - n else indx);
         w \<leftarrow> fetch (if indx_expn then index_table_expn mem else index_table mem) i;
         let nxt = sub16 (index_next w) n;
         cmds \<leftarrow> index_del_cmds t mem w i indx_rule_pos;
         (ret, c1) \<leftarrow> ioctl_dma k (ReorderCmds (cmd # cmds)) c;
         if ret \<noteq> 0 then Some (-5, c1)
         else do {
           mem1 \<leftarrow> t_mem (ip4_tbl c1);
           mem2 \<leftarrow> rule_del_after n cur_tbl_entry expn_tbl rule_pos mem1;
           meta \<leftarrow> index_expn_table_meta t;
           (mem3, meta') \<leftarrow> index_del_after n i indx_expn nxt indx_rule_pos (mem2, meta);
           Some (0, c1\<lparr>ip4_tbl := (ip4_tbl c1)\<lparr>t_mem := Some mem3, index_expn_table_meta := Some meta'\<rparr>\<rparr>)
         }
       }
     }"

definition del_dead_ipv4_head_nodes :: "ipa_nat_cache \<Rightarrow> ipa_nat_cache option" where
  "del_dead_ipv4_head_nodes c =
     map_option (\<lambda>mem. set_mem (mem\<lparr>ipv4_rules :=
         map (\<lambda>r. if read_protocol (ts_proto r) = 0xFF \<and> rule_next r = 0 then zero_hw_rule else r)
           (ipv4_rules mem)\<rparr>) c)
       (t_mem (ip4_tbl c))"

text \<open>The handle is cut to 16 bits where it is parsed, but not where its slot is reset.\<close>

definition nati_del_ipv4_rule :: "nat_kernel \<Rightarrow> nat \<Rightarrow> ipa_nat_cache \<Rightarrow> (int \<times> ipa_nat_cache) option" where
  "nati_del_ipv4_rule k rule_hdl c =
     do {
       (expn_tbl, tbl_entry) \<leftarrow> parse_ipv4_rule_hdl (rule_hdl mod 65536) (ip4_tbl c);
       if tbl_entry = 0 then Some (-22, c)
       else if \<not> t_valid (ip4_tbl c) then Some (-22, c)
       else do {
         mem \<leftarrow> t_mem (ip4_tbl c);
         rule_pos \<leftarrow> find_rule_pos mem expn_tbl tbl_entry;
         (ret, c1) \<leftarrow> post_del_dma_cmd k tbl_entry expn_tbl rule_pos c;
         if ret \<noteq> 0 then Some (-22, c1)
         else do {
           c2 \<leftarrow> del_dead_ipv4_head_nodes c1;
           ids \<leftarrow> rule_id_array (ip4_tbl c2);
           ids' \<leftarrow> store ids (rule_hdl - 1) 0;
           Some (0, c2\<lparr>ip4_tbl := (ip4_tbl c2)\<lparr>rule_id_array := Some ids'\<rparr>\<rparr>)
         }
       }
     }"

section \<open>Time stamps and packet data networks\<close>

definition nati_query_timestamp :: "nat \<Rightarrow> ipa_nat_cache \<Rightarrow> (int \<times> u32 option) option" where
  "nati_query_timestamp rule_hdl c =
     (if \<not> t_valid (ip4_tbl c) then Some (-22, None)
      else do {
        (expn_tbl, tbl_entry) \<leftarrow> parse_ipv4_rule_hdl (rule_hdl mod 65536) (ip4_tbl c);
        mem \<leftarrow> t_mem (ip4_tbl c);
        r \<leftarrow> fetch (if expn_tbl then ipv4_expn_rules mem else ipv4_rules mem) tbl_entry;
        Some (0, Some (read_time_stamp (ts_proto r)))
      })"

definition nati_modify_pdn :: "nat_kernel \<Rightarrow> u8 \<Rightarrow> ipa_nat_pdn_entry \<Rightarrow> ipa_nat_cache \<Rightarrow> (int \<times> ipa_nat_cache) option" where
  "nati_modify_pdn k pdn_index entry c =
     (case syscall k (IoModifyPdn pdn_index entry) c of (ret, c1) \<Rightarrow>
        if ret \<noteq> 0 then Some (-5, c1)
        else map_option (\<lambda>ps. (0, c1\<lparr>pdns := ps\<rparr>)) (store (pdns c1) (unat pdn_index) entry))"

section \<open>The interface\<close>

definition nat_add_ipv4_tbl :: "nat_kernel \<Rightarrow> u32 \<Rightarrow> u16 \<Rightarrow> ipa_nat_cache \<Rightarrow> (int \<times> nat option \<times> ipa_nat_cache) option" where
  "nat_add_ipv4_tbl k public_ip_addr number_of_entries c =
     (if number_of_entries = 0 then Some (-22, None, c)
      else map_option (\<lambda>(ret, hdl, c1). (if ret \<noteq> 0 then -22 else ret, Some hdl, c1))
             (nati_add_ipv4_tbl k public_ip_addr number_of_entries c))"

definition nat_del_ipv4_tbl :: "nat_kernel \<Rightarrow> nat \<Rightarrow> ipa_nat_cache \<Rightarrow> int \<times> ipa_nat_cache" where
  "nat_del_ipv4_tbl k tbl_hdl c =
     (if tbl_hdl = 0 \<or> 1 < tbl_hdl then (-22, c) else nati_del_ipv4_table k c)"

definition nat_add_ipv4_rule ::
  "nat_kernel \<Rightarrow> nat \<Rightarrow> ipa_nat_ipv4_rule \<Rightarrow> ipa_nat_cache \<Rightarrow> (int \<times> nat option \<times> ipa_nat_cache) option" where
  "nat_add_ipv4_rule k tbl_hdl clnt_rule c =
     (if tbl_hdl = 0 \<or> 1 < tbl_hdl then Some (-22, None, c)
      else map_option (\<lambda>(ret, hdl, c1). (if ret \<noteq> 0 then -22 else 0, hdl, c1))
             (nati_add_ipv4_rule k clnt_rule c))"

text \<open>Only 0 is refused as table handle: another handle than 1 is an index past the array.\<close>

definition nat_del_ipv4_rule ::
  "nat_kernel \<Rightarrow> nat \<Rightarrow> nat \<Rightarrow> ipa_nat_cache \<Rightarrow> (int \<times> ipa_nat_cache) option" where
  "nat_del_ipv4_rule k tbl_hdl rule_hdl c =
     (if tbl_hdl = 0 \<or> rule_hdl = 0 then Some (-22, c)
      else if (tbl_hdl - 1) mod 256 \<noteq> 0 then None
      else nati_del_ipv4_rule k rule_hdl c)"

definition nat_query_timestamp :: "nat \<Rightarrow> nat \<Rightarrow> ipa_nat_cache \<Rightarrow> (int \<times> u32 option) option" where
  "nat_query_timestamp tbl_hdl rule_hdl c =
     (if tbl_hdl = 0 \<or> 1 < tbl_hdl then Some (-22, None) else nati_query_timestamp rule_hdl c)"

text \<open>The index may be the number of PDNs, one past the array.\<close>

definition nat_modify_pdn ::
  "nat_kernel \<Rightarrow> nat \<Rightarrow> u8 \<Rightarrow> ipa_nat_pdn_entry \<Rightarrow> ipa_nat_cache \<Rightarrow> (int \<times> ipa_nat_cache) option" where
  "nat_modify_pdn k tbl_hdl pdn_index entry c =
     (if tbl_hdl = 0 \<or> 1 < tbl_hdl then Some (-22, c)
      else if length (pdns c) < unat pdn_index then Some (-22, c)
      else nati_modify_pdn k pdn_index entry c)"

end
