(* ===== verification/IpaNatChains.thy ===== *)
theory IpaNatChains
  imports Main
begin

text \<open>
  Hash chains in two arrays, as both tables of the NAT driver have them: indexes below \<open>n\<close> are the
  base table, those from \<open>n\<close> to \<open>n + m\<close> the expansion table; an entry of the base table starts a
  chain of entries of the expansion table, linked both ways. 0 is the end of a chain. The lemmas say
  what each way of changing a chain does.
\<close>

section \<open>Chains\<close>

fun links :: "(nat \<Rightarrow> nat) \<Rightarrow> nat \<Rightarrow> nat list \<Rightarrow> bool" where
  "links nxt a [] \<longleftrightarrow> nxt a = 0"
| "links nxt a (x # xs) \<longleftrightarrow> nxt a = x \<and> links nxt x xs"

fun backs :: "(nat \<Rightarrow> nat) \<Rightarrow> nat \<Rightarrow> nat list \<Rightarrow> bool" where
  "backs prv a [] \<longleftrightarrow> True"
| "backs prv a (x # xs) \<longleftrightarrow> prv x = a \<and> backs prv x xs"

definition chained ::
  "nat \<Rightarrow> nat \<Rightarrow> (nat \<Rightarrow> bool) \<Rightarrow> (nat \<Rightarrow> nat) \<Rightarrow> (nat \<Rightarrow> nat) \<Rightarrow> (nat \<Rightarrow> nat list) \<Rightarrow> bool" where
  "chained n m used nxt prv ch \<longleftrightarrow>
     (\<forall>b < n. links nxt b (ch b) \<and> backs prv b (ch b) \<and> distinct (ch b) \<and> (used b \<or> ch b = [])) \<and>
     (\<forall>b < n. \<forall>x \<in> set (ch b). n < x \<and> x < n + m \<and> used x) \<and>
     (\<forall>b < n. \<forall>b' < n. b \<noteq> b' \<longrightarrow> set (ch b) \<inter> set (ch b') = {}) \<and>
     (\<forall>x. n \<le> x \<longrightarrow> x < n + m \<longrightarrow> used x \<longrightarrow> (\<exists>b < n. x \<in> set (ch b)))"

lemma links_cong: "(\<And>y. y \<in> set (a # xs) \<Longrightarrow> nxt' y = nxt y) \<Longrightarrow> links nxt' a xs = links nxt a xs"
  by (induction xs arbitrary: a) auto

lemma backs_cong: "(\<And>y. y \<in> set xs \<Longrightarrow> prv' y = prv y) \<Longrightarrow> backs prv' a xs = backs prv a xs"
  by (induction xs arbitrary: a) auto

lemma links_last: "links nxt a xs \<Longrightarrow> nxt (last (a # xs)) = 0"
  by (induction xs arbitrary: a) auto

lemma links_append: "links nxt a (xs @ x # ys) \<Longrightarrow> nxt (last (a # xs)) = x \<and> links nxt x ys"
  by (induction xs arbitrary: a) auto

lemma links_snoc:
  "links nxt a xs \<Longrightarrow> distinct (a # xs) \<Longrightarrow> x \<notin> set (a # xs) \<Longrightarrow> links (nxt(last (a # xs) := x, x := 0)) a (xs @ [x])"
proof (induction xs arbitrary: a)
  case (Cons y ys)
  have "links (nxt(last (y # ys) := x, x := 0)) y (ys @ [x])"
    by (rule Cons.IH) (use Cons.prems in auto)
  moreover have "a \<noteq> last (y # ys)" "a \<noteq> x" using Cons.prems(2,3) last_in_set [of "y # ys"] by auto
  moreover have "last (a # y # ys) = last (y # ys)" by simp
  ultimately show ?case using Cons.prems(1)
    by (simp only: append_Cons links.simps) (simp del: last.simps)
qed simp

lemma links_unlink:
  "links nxt a (us @ x # vs) \<Longrightarrow> distinct (a # us @ x # vs) \<Longrightarrow>
   (\<And>y. y \<in> set (a # us @ vs) \<Longrightarrow> nxt' y = (if y = last (a # us) then nxt x else nxt y)) \<Longrightarrow>
   links nxt' a (us @ vs)"
proof (induction us arbitrary: a)
  case Nil
  have "links nxt x vs" "nxt' a = nxt x" using Nil by auto
  moreover have "links nxt' y vs' = links nxt y vs'" if "vs = y # vs'" for y vs'
    by (rule links_cong) (use Nil.prems(2,3) that in auto)
  ultimately show ?case by (cases vs) auto
next
  case (Cons u us)
  have "links nxt' u (us @ vs)"
  proof (rule Cons.IH)
    show "nxt' y = (if y = last (u # us) then nxt x else nxt y)" if "y \<in> set (u # us @ vs)" for y
      using Cons.prems(3) [of y] that by auto
  qed (use Cons.prems in auto)
  moreover have "a \<noteq> last (u # us)" using Cons.prems(2) last_in_set [of "u # us"] by auto
  ultimately show ?case using Cons.prems(1) Cons.prems(3) [of a] by simp
qed

lemma backs_snoc: "backs prv a xs \<Longrightarrow> x \<notin> set xs \<Longrightarrow> backs (prv(x := last (a # xs))) a (xs @ [x])"
proof (induction xs arbitrary: a)
  case (Cons y ys)
  have "backs (prv(x := last (y # ys))) y (ys @ [x])" by (rule Cons.IH) (use Cons.prems in auto)
  moreover have "last (a # y # ys) = last (y # ys)" by simp
  ultimately show ?case using Cons.prems
    by (simp only: append_Cons backs.simps) (simp del: last.simps)
qed simp

lemma backs_unlink:
  "backs prv a (us @ x # vs) \<Longrightarrow> distinct (us @ x # vs) \<Longrightarrow>
   (\<And>y. y \<in> set (us @ vs) \<Longrightarrow> prv' y = (if vs \<noteq> [] \<and> y = hd vs then last (a # us) else prv y)) \<Longrightarrow>
   backs prv' a (us @ vs)"
proof (induction us arbitrary: a)
  case Nil
  show ?case
  proof (cases vs)
    case (Cons v vs')
    have "backs prv' v vs' = backs prv v vs'"
      by (rule backs_cong) (use Nil.prems(2,3) Cons in auto)
    with Nil Cons show ?thesis by auto
  qed simp
next
  case (Cons u us)
  have "backs prv' u (us @ vs)"
  proof (rule Cons.IH)
    show "prv' y = (if vs \<noteq> [] \<and> y = hd vs then last (u # us) else prv y)" if "y \<in> set (us @ vs)" for y
      using Cons.prems(3) [of y] that by simp
  qed (use Cons.prems in auto)
  moreover have "vs \<noteq> [] \<Longrightarrow> u \<noteq> hd vs" using Cons.prems(2) hd_in_set [of vs] by auto
  ultimately show ?case using Cons.prems(1) Cons.prems(3) [of u] by auto
qed

section \<open>Changing a chain\<close>

lemma chained_bounds:
  "chained n m used nxt prv ch \<Longrightarrow> b < n \<Longrightarrow> x \<in> set (ch b) \<Longrightarrow> n < x \<and> x < n + m \<and> used x"
  by (simp add: chained_def)

lemma chained_path:
  "chained n m used nxt prv ch \<Longrightarrow> b < n \<Longrightarrow>
   links nxt b (ch b) \<and> backs prv b (ch b) \<and> distinct (b # ch b) \<and> (used b \<or> ch b = [])"
  by (fastforce simp: chained_def)

lemma chained_apart:
  "chained n m used nxt prv ch \<Longrightarrow> b < n \<Longrightarrow> b' < n \<Longrightarrow> x \<in> set (ch b) \<Longrightarrow> x \<in> set (ch b') \<Longrightarrow> b = b'"
  unfolding chained_def by blast

lemma chained_covers:
  "chained n m used nxt prv ch \<Longrightarrow> n \<le> x \<Longrightarrow> x < n + m \<Longrightarrow> used x \<Longrightarrow> \<exists>b < n. x \<in> set (ch b)"
  by (simp add: chained_def)

lemma chained_expn_0: "chained n m used nxt prv ch \<Longrightarrow> 0 < m \<Longrightarrow> \<not> used n"
  using chained_covers [of n m used nxt prv ch n] chained_bounds [of n m used nxt prv ch _ n] by auto

lemma chained_unused: "chained n m used nxt prv ch \<Longrightarrow> b < n \<Longrightarrow> \<not> used x \<Longrightarrow> x \<notin> set (ch b)"
  using chained_bounds by blast

lemma chained_cong:
  assumes "chained n m used nxt prv ch"
    and "\<And>x. x < n + m \<Longrightarrow> used' x = used x"
    and "\<And>x. x < n + m \<Longrightarrow> used x \<or> x < n \<Longrightarrow> nxt' x = nxt x"
    and "\<And>x. n < x \<Longrightarrow> x < n + m \<Longrightarrow> used x \<Longrightarrow> prv' x = prv x"
  shows "chained n m used' nxt' prv' ch"
proof -
  have "links nxt' b (ch b) \<and> backs prv' b (ch b) \<and> distinct (ch b) \<and> (used' b \<or> ch b = [])" if b: "b < n" for b
  proof -
    note p = chained_path [OF assms(1) b] and q = chained_bounds [OF assms(1) b]
    have "links nxt' b (ch b) = links nxt b (ch b)"
      by (rule links_cong) (use b assms(3) q in auto)
    moreover have "backs prv' b (ch b) = backs prv b (ch b)"
      by (rule backs_cong) (use assms(4) q in auto)
    ultimately show ?thesis using p assms(2) b by auto
  qed
  moreover have "\<forall>b < n. \<forall>x \<in> set (ch b). n < x \<and> x < n + m \<and> used' x"
    using chained_bounds [OF assms(1)] assms(2) by auto
  moreover have "\<forall>b < n. \<forall>b' < n. b \<noteq> b' \<longrightarrow> set (ch b) \<inter> set (ch b') = {}"
    using chained_apart [OF assms(1)] by blast
  moreover have "\<forall>x. n \<le> x \<longrightarrow> x < n + m \<longrightarrow> used' x \<longrightarrow> (\<exists>b < n. x \<in> set (ch b))"
    using chained_covers [OF assms(1)] assms(2) by auto
  ultimately show ?thesis unfolding chained_def by blast
qed

lemma chained_base:
  assumes "chained n m used nxt prv ch" and "a < n" and "ch a = []" and "nxt' a = 0"
    and "\<And>x. x < n + m \<Longrightarrow> x \<noteq> a \<Longrightarrow> used' x = used x"
    and "\<And>x. x < n + m \<Longrightarrow> x \<noteq> a \<Longrightarrow> used x \<or> x < n \<Longrightarrow> nxt' x = nxt x"
    and "\<And>x. n < x \<Longrightarrow> x < n + m \<Longrightarrow> used x \<Longrightarrow> prv' x = prv x"
  shows "chained n m used' nxt' prv' ch"
proof -
  have "links nxt' b (ch b) \<and> backs prv' b (ch b) \<and> distinct (ch b) \<and> (used' b \<or> ch b = [])" if b: "b < n" for b
  proof (cases "b = a")
    case True
    with assms(3,4) show ?thesis by simp
  next
    case False
    note p = chained_path [OF assms(1) b] and q = chained_bounds [OF assms(1) b]
    have "links nxt' b (ch b) = links nxt b (ch b)"
      by (rule links_cong) (use b False assms(2,6) q in fastforce)
    moreover have "backs prv' b (ch b) = backs prv b (ch b)"
      by (rule backs_cong) (use assms(7) q in auto)
    ultimately show ?thesis using p assms(5) b False by auto
  qed
  moreover have "\<forall>b < n. \<forall>x \<in> set (ch b). n < x \<and> x < n + m \<and> used' x"
    using chained_bounds [OF assms(1)] assms(2,5) by fastforce
  moreover have "\<forall>b < n. \<forall>b' < n. b \<noteq> b' \<longrightarrow> set (ch b) \<inter> set (ch b') = {}"
    using chained_apart [OF assms(1)] by blast
  moreover have "\<forall>x. n \<le> x \<longrightarrow> x < n + m \<longrightarrow> used' x \<longrightarrow> (\<exists>b < n. x \<in> set (ch b))"
    using chained_covers [OF assms(1)] assms(2,5) by auto
  ultimately show ?thesis unfolding chained_def by blast
qed

text \<open>A new entry at the end of the chain of \<open>a\<close>.\<close>

lemma chained_append:
  assumes "chained n m used nxt prv ch" and "a < n" and "used a" and "n < z" and "z < n + m" and "\<not> used z"
    and "\<And>x. x < n + m \<Longrightarrow> used' x = (x = z \<or> used x)"
    and "\<And>x. x < n + m \<Longrightarrow> used x \<or> x = z \<or> x < n \<Longrightarrow>
      nxt' x = (if x = z then 0 else if x = last (a # ch a) then z else nxt x)"
    and "\<And>x. n < x \<Longrightarrow> x < n + m \<Longrightarrow> used x \<or> x = z \<Longrightarrow> prv' x = (if x = z then last (a # ch a) else prv x)"
  shows "chained n m used' nxt' prv' (ch(a := ch a @ [z]))"
proof -
  let ?ch = "ch(a := ch a @ [z])"
  have z: "z \<notin> set (ch b)" if "b < n" for b using chained_unused [OF assms(1) that assms(6)] .
  have "links nxt' b (?ch b) \<and> backs prv' b (?ch b) \<and> distinct (?ch b) \<and> (used' b \<or> ?ch b = [])" if b: "b < n" for b
  proof -
    note p = chained_path [OF assms(1) b] and q = chained_bounds [OF assms(1) b]
    show ?thesis
    proof (cases "b = a")
      case True
      have s: "links (nxt(last (a # ch a) := z, z := 0)) a (ch a @ [z])"
        by (rule links_snoc) (use p True z assms(2,4) in auto)
      have "links nxt' a (ch a @ [z]) = links (nxt(last (a # ch a) := z, z := 0)) a (ch a @ [z])"
      proof (rule links_cong)
        fix y assume "y \<in> set (a # ch a @ [z])"
        then have "y < n + m" "used y \<or> y = z \<or> y < n" using q True assms(2,5) by auto
        then show "nxt' y = (nxt(last (a # ch a) := z, z := 0)) y" by (simp only: assms(8) fun_upd_apply)
      qed
      moreover have "backs prv' a (ch a @ [z]) = backs (prv(z := last (a # ch a))) a (ch a @ [z])"
        by (rule backs_cong) (use q True assms(4,5,9) in auto)
      moreover have "backs (prv(z := last (a # ch a))) a (ch a @ [z])"
        by (rule backs_snoc) (use p True z assms(2) in auto)
      ultimately show ?thesis using s p True z assms(2,3,7) by auto
    next
      case False
      have ne: "y \<noteq> last (a # ch a)" if "y \<in> set (b # ch b)" for y
      proof
        assume y: "y = last (a # ch a)"
        show False
        proof (cases "ch a = []")
          case True
          with y that q [of a] False assms(2) show False by auto
        next
          case ne: False
          then have "y \<in> set (ch a)" using y by simp
          with that chained_apart [OF assms(1) b assms(2)] chained_bounds [OF assms(1,2), of b] b False
          show False by auto
        qed
      qed
      have "links nxt' b (ch b) = links nxt b (ch b)"
      proof (rule links_cong)
        fix y assume y: "y \<in> set (b # ch b)"
        then have "y < n + m" "used y \<or> y = z \<or> y < n" "y \<noteq> z" using q b z assms(4) by auto
        with ne [OF y] show "nxt' y = nxt y" by (simp only: assms(8) if_False)
      qed
      moreover have "backs prv' b (ch b) = backs prv b (ch b)"
        by (rule backs_cong) (use q b z assms(9) in auto)
      ultimately show ?thesis using p assms(7) b False by auto
    qed
  qed
  moreover have "\<forall>b < n. \<forall>x \<in> set (?ch b). n < x \<and> x < n + m \<and> used' x"
    using chained_bounds [OF assms(1)] assms(2,4,5,7) by auto
  moreover have "\<forall>b < n. \<forall>b' < n. b \<noteq> b' \<longrightarrow> set (?ch b) \<inter> set (?ch b') = {}"
    using chained_apart [OF assms(1)] z assms(2) by auto
  moreover have "\<forall>x. n \<le> x \<longrightarrow> x < n + m \<longrightarrow> used' x \<longrightarrow> (\<exists>b < n. x \<in> set (?ch b))"
    using chained_covers [OF assms(1)] assms(2,7) by (metis Un_iff fun_upd_apply list.set_intros(1) set_append)
  ultimately show ?thesis unfolding chained_def by blast
qed

text \<open>An entry \<open>z\<close> leaves the chain of \<open>a\<close>.\<close>

lemma chained_unlink:
  assumes "chained n m used nxt prv ch" and "a < n" and split: "ch a = us @ z # vs"
    and "\<And>x. x < n + m \<Longrightarrow> used' x = (x \<noteq> z \<and> used x)"
    and "\<And>x. x < n + m \<Longrightarrow> used x \<or> x < n \<Longrightarrow> x \<noteq> z \<Longrightarrow>
      nxt' x = (if x = last (a # us) then nxt z else nxt x)"
    and "\<And>x. n < x \<Longrightarrow> x < n + m \<Longrightarrow> used x \<Longrightarrow> x \<noteq> z \<Longrightarrow>
      prv' x = (if vs \<noteq> [] \<and> x = hd vs then last (a # us) else prv x)"
  shows "chained n m used' nxt' prv' (ch(a := us @ vs))"
proof -
  let ?ch = "ch(a := us @ vs)"
  note pa = chained_path [OF assms(1,2)] and qa = chained_bounds [OF assms(1,2)]
  have z: "z \<in> set (ch a)" "n < z" "z < n + m" using split qa by auto
  have "links nxt' b (?ch b) \<and> backs prv' b (?ch b) \<and> distinct (?ch b) \<and> (used' b \<or> ?ch b = [])" if b: "b < n" for b
  proof -
    note p = chained_path [OF assms(1) b] and q = chained_bounds [OF assms(1) b]
    show ?thesis
    proof (cases "b = a")
      case True
      have "links nxt' a (us @ vs)"
      proof (rule links_unlink [of nxt a us z vs])
        show "nxt' y = (if y = last (a # us) then nxt z else nxt y)" if "y \<in> set (a # us @ vs)" for y
        proof -
          have "y \<noteq> z" using that pa split by auto
          moreover have "y < n + m" "used y \<or> y < n" using that qa split assms(2) by auto
          ultimately show ?thesis using assms(5) by blast
        qed
      qed (use pa split in auto)
      moreover have "backs prv' a (us @ vs)"
      proof (rule backs_unlink [of prv a us z vs])
        show "prv' y = (if vs \<noteq> [] \<and> y = hd vs then last (a # us) else prv y)" if "y \<in> set (us @ vs)" for y
        proof -
          have "y \<noteq> z" using that pa split by auto
          moreover have "n < y" "y < n + m" "used y" using that qa split by auto
          ultimately show ?thesis using assms(6) by blast
        qed
      qed (use pa split in auto)
      ultimately show ?thesis using True pa split assms(2,4) z by auto
    next
      case False
      have zb: "z \<notin> set (b # ch b)" using chained_apart [OF assms(1) b assms(2) _ z(1)] False z b by auto
      have ne: "y \<noteq> last (a # us)" if "y \<in> set (b # ch b)" for y
      proof
        assume y: "y = last (a # us)"
        show False
        proof (cases "us = []")
          case True
          with y that q [of a] False assms(2) show False by auto
        next
          case ne: False
          then have "y \<in> set (ch a)" using y split by simp
          with that chained_apart [OF assms(1) b assms(2)] qa [of b] b False show False by auto
        qed
      qed
      have nev: "\<not> (vs \<noteq> [] \<and> y = hd vs)" if "y \<in> set (ch b)" for y
        using that chained_apart [OF assms(1) b assms(2)] split False by (cases vs) auto
      have "links nxt' b (ch b) = links nxt b (ch b)"
      proof (rule links_cong)
        fix y assume y: "y \<in> set (b # ch b)"
        then have "y < n + m" "used y \<or> y < n" "y \<noteq> z" using q b zb by auto
        with ne [OF y] show "nxt' y = nxt y" using assms(5) [of y] by (auto split: if_splits)
      qed
      moreover have "backs prv' b (ch b) = backs prv b (ch b)"
      proof (rule backs_cong)
        fix y assume y: "y \<in> set (ch b)"
        then have "n < y" "y < n + m" "used y" "y \<noteq> z" using q zb by auto
        with nev [OF y] show "prv' y = prv y" using assms(6) [of y] by (auto split: if_splits)
      qed
      ultimately show ?thesis using p assms(4) b z False by auto
    qed
  qed
  moreover have "\<forall>b < n. \<forall>x \<in> set (?ch b). n < x \<and> x < n + m \<and> used' x"
  proof (intro allI impI ballI)
    fix b x assume b: "b < n" and x: "x \<in> set (?ch b)"
    then have "x \<in> set (ch b)" using split by (auto split: if_splits)
    moreover have "x \<noteq> z"
      using x pa split chained_apart [OF assms(1) b assms(2), of z] z by (auto split: if_splits)
    ultimately show "n < x \<and> x < n + m \<and> used' x" using chained_bounds [OF assms(1) b] assms(4) by blast
  qed
  moreover have "\<forall>b < n. \<forall>b' < n. b \<noteq> b' \<longrightarrow> set (?ch b) \<inter> set (?ch b') = {}"
  proof (intro allI impI)
    fix b b' assume b: "b < n" "b' < n" "b \<noteq> b'"
    have "set (?ch x) \<subseteq> set (ch x)" for x using split by auto
    moreover have "set (ch b) \<inter> set (ch b') = {}" using chained_apart [OF assms(1) b(1,2)] b(3) by blast
    ultimately show "set (?ch b) \<inter> set (?ch b') = {}" by blast
  qed
  moreover have "\<forall>x. n \<le> x \<longrightarrow> x < n + m \<longrightarrow> used' x \<longrightarrow> (\<exists>b < n. x \<in> set (?ch b))"
  proof (intro allI impI)
    fix x assume x: "n \<le> x" "x < n + m" "used' x"
    then have "x \<noteq> z" "used x" using assms(4) by auto
    from chained_covers [OF assms(1) x(1,2) \<open>used x\<close>] obtain b where b: "b < n" "x \<in> set (ch b)" by blast
    then have "x \<in> set (?ch b)" using split \<open>x \<noteq> z\<close> by auto
    with b(1) show "\<exists>b < n. x \<in> set (?ch b)" by blast
  qed
  ultimately show ?thesis unfolding chained_def by blast
qed

section \<open>Adding an entry\<close>

text \<open>
  Where an entry for the base \<open>b\<close> can go: the base itself while it is free, else a free entry of the
  expansion table behind the last one, \<open>p\<close>, of the chain.
\<close>

definition slot_for ::
  "nat \<Rightarrow> nat \<Rightarrow> (nat \<Rightarrow> bool) \<Rightarrow> (nat \<Rightarrow> nat list) \<Rightarrow> nat \<Rightarrow> nat \<Rightarrow> nat \<Rightarrow> bool" where
  "slot_for n m used ch b x p \<longleftrightarrow>
     0 < b \<and> b < n \<and> (if used b then n < x \<and> x < n + m \<and> \<not> used x \<and> p = last (b # ch b) else x = b \<and> p = 0)"

definition extend :: "(nat \<Rightarrow> nat list) \<Rightarrow> nat \<Rightarrow> nat \<Rightarrow> nat \<Rightarrow> nat \<Rightarrow> nat list" where
  "extend ch b x p = (if p = 0 then ch else ch(b := ch b @ [x]))"

lemma slot_for_facts:
  assumes "chained n m used nxt prv ch" and "slot_for n m used ch b x p" and "\<not> used 0"
  shows "x < n + m" and "\<not> used x" and "p \<noteq> x" and "p < n + m" and "p = 0 \<longleftrightarrow> x = b"
    and "p \<noteq> 0 \<Longrightarrow> used p" and "p \<noteq> 0 \<Longrightarrow> n < x"
proof -
  have "p \<noteq> 0 \<and> used p \<and> p < n + m" if "used b"
  proof (cases "ch b = []")
    case True
    moreover have "b \<noteq> 0" using that assms(3) by metis
    ultimately show ?thesis using that assms(2) by (auto simp: slot_for_def)
  next
    case False
    then have "p \<in> set (ch b)" using that assms(2) by (simp add: slot_for_def)
    with chained_bounds [OF assms(1), of b p] assms(2) show ?thesis by (auto simp: slot_for_def)
  qed
  then show "x < n + m" "\<not> used x" "p \<noteq> x" "p < n + m" "p = 0 \<longleftrightarrow> x = b" "p \<noteq> 0 \<Longrightarrow> used p" "p \<noteq> 0 \<Longrightarrow> n < x"
    using assms(2,3) by (auto simp: slot_for_def split: if_splits)
qed

lemma chained_add:
  assumes "chained n m used nxt prv ch" and "slot_for n m used ch b x p" and "\<not> used 0"
    and "\<And>y. y < n + m \<Longrightarrow> used' y = (y = x \<or> used y)"
    and "\<And>y. y < n + m \<Longrightarrow> nxt' y = (if y = x then 0 else if p \<noteq> 0 \<and> y = p then x else nxt y)"
    and "\<And>y. n < y \<Longrightarrow> y < n + m \<Longrightarrow> prv' y = (if y = x then p else prv y)"
  shows "chained n m used' nxt' prv' (extend ch b x p)"
proof (cases "p = 0")
  case True
  then have x: "x = b" "b < n" "\<not> used b"
    using slot_for_facts [OF assms(1-3)] assms(2) by (auto simp: slot_for_def)
  then have "ch x = []" using chained_path [OF assms(1), of b] by auto
  from chained_base [OF assms(1) _ this] show ?thesis
    using x True assms(4-6) by (auto simp: extend_def)
next
  case False
  then have "used b" "b < n" "n < x" "x < n + m" "\<not> used x" "p = last (b # ch b)"
    using slot_for_facts [OF assms(1-3)] assms(2) by (auto simp: slot_for_def split: if_splits)
  then have "chained n m used' nxt' prv' (ch(b := ch b @ [x]))"
    using False assms(4-6) by (intro chained_append [OF assms(1)]) auto
  with False show ?thesis by (simp add: extend_def)
qed

lemma extend_set:
  "slot_for n m used ch b x p \<Longrightarrow> p = 0 \<longleftrightarrow> x = b \<Longrightarrow>
   set (a # extend ch b x p a) = (if a = b then insert x (set (b # ch b)) else set (a # ch a))"
  by (auto simp: extend_def)

section \<open>Following a chain\<close>

text \<open>The entries reached from an entry, within a number of steps.\<close>

fun follow :: "nat \<Rightarrow> (nat \<Rightarrow> nat) \<Rightarrow> nat \<Rightarrow> nat list" where
  "follow 0 nxt a = []"
| "follow (Suc fuel) nxt a = a # (if nxt a = 0 then [] else follow fuel nxt (nxt a))"

lemma follow_links: "links nxt a xs \<Longrightarrow> 0 \<notin> set xs \<Longrightarrow> length xs < fuel \<Longrightarrow> follow fuel nxt a = a # xs"
proof (induction xs arbitrary: a fuel)
  case Nil
  then show ?case by (cases fuel) auto
next
  case (Cons x xs)
  then obtain f where "fuel = Suc f" by (cases fuel) auto
  with Cons show ?case by auto
qed

lemma chain_length:
  assumes "chained n m used nxt prv ch" and "b < n"
  shows "length (ch b) \<le> m"
proof -
  have "set (ch b) \<subseteq> {n..<n + m}" using chained_bounds [OF assms] by force
  then have "card (set (ch b)) \<le> m" by (metis card_atLeastLessThan card_mono diff_add_inverse finite_atLeastLessThan)
  then show ?thesis using chained_path [OF assms] by (simp add: distinct_card)
qed

end
