(* ===== verification/IpaNatTable.thy ===== *)
theory IpaNatTable
  imports IpaNat IpaNatChains
begin

text \<open>
  The invariant of the tables of the NAT driver, and that adding and deleting rules keeps it, with
  what both do to the rules behind the handles. The kernel is assumed to carry out the DMA commands
  as documented: each writes 16 bits at a byte offset of a table.
\<close>

section \<open>What a DMA command writes\<close>

definition set_half :: "bool \<Rightarrow> u16 \<Rightarrow> u32 \<Rightarrow> u32" where
  "set_half hi v w = (if hi then mk32 v (low16 w) else mk32 (high16 w) v)"

text \<open>The 16 halves of an entry of the rule tables.\<close>

definition write_half :: "nat \<Rightarrow> u16 \<Rightarrow> ipa_nat_rule \<Rightarrow> ipa_nat_rule" where
  "write_half j v r =
     (if j div 2 = 0 then r\<lparr>h_private_ip := set_half (odd j) v (h_private_ip r)\<rparr>
      else if j div 2 = 1 then r\<lparr>h_target_ip := set_half (odd j) v (h_target_ip r)\<rparr>
      else if j div 2 = 2 then r\<lparr>nxt_indx_pub_port := set_half (odd j) v (nxt_indx_pub_port r)\<rparr>
      else if j = 6 then r\<lparr>h_private_port := v\<rparr>
      else if j = 7 then r\<lparr>h_target_port := v\<rparr>
      else if j div 2 = 4 then r\<lparr>ip_cksm_enbl := set_half (odd j) v (ip_cksm_enbl r)\<rparr>
      else if j div 2 = 5 then r\<lparr>ts_proto := set_half (odd j) v (ts_proto r)\<rparr>
      else if j div 2 = 6 then r\<lparr>sw_spec_params := set_half (odd j) v (sw_spec_params r)\<rparr>
      else if j = 14 then r\<lparr>h_rsvd2 := ucast v, h_rsvd3 := ucast (drop_bit 8 v), h_pdn_index := ucast (drop_bit 12 v)\<rparr>
      else r\<lparr>h_tcp_udp_chksum := v\<rparr>)"

definition dma_write :: "nat_dma_one \<Rightarrow> nat_mem \<Rightarrow> nat_mem" where
  "dma_write d mem =
     (let v = of_nat (dma_data d) :: u16; off = dma_offset d;
          rule = (\<lambda>rs. rs[off div 32 := write_half (off mod 32 div 2) v (rs ! (off div 32))]);
          indx = (\<lambda>ws. ws[off div 4 := set_half (off mod 4 div 2 = 1) v (ws ! (off div 4))])
      in case base_addr d of
           IPA_NAT_BASE_TBL \<Rightarrow> mem\<lparr>ipv4_rules := rule (ipv4_rules mem)\<rparr>
         | IPA_NAT_EXPN_TBL \<Rightarrow> mem\<lparr>ipv4_expn_rules := rule (ipv4_expn_rules mem)\<rparr>
         | IPA_NAT_INDX_TBL \<Rightarrow> mem\<lparr>index_table := indx (index_table mem)\<rparr>
         | IPA_NAT_INDEX_EXPN_TBL \<Rightarrow> mem\<lparr>index_table_expn := indx (index_table_expn mem)\<rparr>)"

definition dma_works :: "nat_kernel \<Rightarrow> bool" where
  "dma_works k \<longleftrightarrow>
     (\<forall>log cmds mem. answer k log (IoDma cmds) = 0 \<and> dma_effect k log cmds mem = fold dma_write cmds mem)"

section \<open>Entries by their index\<close>

definition geom :: "nat \<Rightarrow> nat \<Rightarrow> nat_mem \<Rightarrow> bool" where
  "geom n m mem \<longleftrightarrow>
     length (ipv4_rules mem) = n \<and> length (ipv4_expn_rules mem) = m \<and>
     length (index_table mem) = n \<and> length (index_table_expn mem) = m"

definition rule_at :: "nat \<Rightarrow> nat_mem \<Rightarrow> nat \<Rightarrow> ipa_nat_rule" where
  "rule_at n mem x = (if x < n then ipv4_rules mem ! x else ipv4_expn_rules mem ! (x - n))"

definition idx_at :: "nat \<Rightarrow> nat_mem \<Rightarrow> nat \<Rightarrow> u32" where
  "idx_at n mem x = (if x < n then index_table mem ! x else index_table_expn mem ! (x - n))"

definition put_rule :: "nat \<Rightarrow> nat \<Rightarrow> ipa_nat_rule \<Rightarrow> nat_mem \<Rightarrow> nat_mem" where
  "put_rule n x r mem =
     (if x < n then mem\<lparr>ipv4_rules := (ipv4_rules mem)[x := r]\<rparr>
      else mem\<lparr>ipv4_expn_rules := (ipv4_expn_rules mem)[x - n := r]\<rparr>)"

definition put_idx :: "nat \<Rightarrow> nat \<Rightarrow> u32 \<Rightarrow> nat_mem \<Rightarrow> nat_mem" where
  "put_idx n x w mem =
     (if x < n then mem\<lparr>index_table := (index_table mem)[x := w]\<rparr>
      else mem\<lparr>index_table_expn := (index_table_expn mem)[x - n := w]\<rparr>)"

lemma geom_put [simp]:
  "geom n m (put_rule n x r mem) = geom n m mem" "geom n m (put_idx n x w mem) = geom n m mem"
  by (simp_all add: geom_def put_rule_def put_idx_def)

lemma rule_at_put [simp]:
  "geom n m mem \<Longrightarrow> x < n + m \<Longrightarrow> y < n + m \<Longrightarrow> rule_at n (put_rule n x r mem) y = (if y = x then r else rule_at n mem y)"
  by (auto simp: rule_at_def put_rule_def geom_def nth_list_update)

lemma idx_at_put [simp]:
  "geom n m mem \<Longrightarrow> x < n + m \<Longrightarrow> y < n + m \<Longrightarrow> idx_at n (put_idx n x w mem) y = (if y = x then w else idx_at n mem y)"
  by (auto simp: idx_at_def put_idx_def geom_def nth_list_update)

lemma at_put_other [simp]:
  "rule_at n (put_idx n x w mem) y = rule_at n mem y" "idx_at n (put_rule n x r mem) y = idx_at n mem y"
  by (simp_all add: rule_at_def put_idx_def idx_at_def put_rule_def)

section \<open>The commands as changes of entries\<close>

definition rule_cmd :: "nat \<Rightarrow> nat \<Rightarrow> nat \<Rightarrow> nat \<Rightarrow> nat_dma_one" where
  "rule_cmd n x j v =
     (if x < n then \<lparr>base_addr = IPA_NAT_BASE_TBL, dma_data = v, dma_offset = x * 32 + 2 * j\<rparr>
      else \<lparr>base_addr = IPA_NAT_EXPN_TBL, dma_data = v, dma_offset = (x - n) * 32 + 2 * j\<rparr>)"

definition idx_cmd :: "nat \<Rightarrow> nat \<Rightarrow> bool \<Rightarrow> nat \<Rightarrow> nat_dma_one" where
  "idx_cmd n x hi v =
     (if x < n then \<lparr>base_addr = IPA_NAT_INDX_TBL, dma_data = v, dma_offset = x * 4 + (if hi then 2 else 0)\<rparr>
      else \<lparr>base_addr = IPA_NAT_INDEX_EXPN_TBL, dma_data = v, dma_offset = (x - n) * 4 + (if hi then 2 else 0)\<rparr>)"

lemma dma_rule_cmd:
  "j < 16 \<Longrightarrow> dma_write (rule_cmd n x j v) mem = put_rule n x (write_half j (of_nat v) (rule_at n mem x)) mem"
proof -
  assume "j < 16"
  then have "(y * 32 + 2 * j) div 32 = y" "(y * 32 + 2 * j) mod 32 div 2 = j" for y by simp_all
  then show ?thesis by (simp add: dma_write_def rule_cmd_def put_rule_def rule_at_def Let_def)
qed

lemma dma_idx_cmd:
  "dma_write (idx_cmd n x hi v) mem = put_idx n x (set_half hi (of_nat v) (idx_at n mem x)) mem"
  by (simp add: dma_write_def idx_cmd_def put_idx_def idx_at_def Let_def)

text \<open>The three fields of a rule that commands write, and the two of an index entry.\<close>

definition set_next :: "nat \<Rightarrow> ipa_nat_rule \<Rightarrow> ipa_nat_rule" where
  "set_next v r = r\<lparr>nxt_indx_pub_port := mk32 (high16 (nxt_indx_pub_port r)) (of_nat v)\<rparr>"

definition set_flags :: "nat \<Rightarrow> ipa_nat_rule \<Rightarrow> ipa_nat_rule" where
  "set_flags v r = r\<lparr>ip_cksm_enbl := mk32 (of_nat v) (low16 (ip_cksm_enbl r))\<rparr>"

definition set_proto :: "nat \<Rightarrow> ipa_nat_rule \<Rightarrow> ipa_nat_rule" where
  "set_proto v r = r\<lparr>ts_proto := mk32 (of_nat v) (low16 (ts_proto r))\<rparr>"

lemma dma_fields:
  "dma_write (rule_cmd n x 4 v) mem = put_rule n x (set_next v (rule_at n mem x)) mem"
  "dma_write (rule_cmd n x 9 v) mem = put_rule n x (set_flags v (rule_at n mem x)) mem"
  "dma_write (rule_cmd n x 11 v) mem = put_rule n x (set_proto v (rule_at n mem x)) mem"
  by (simp_all add: dma_rule_cmd write_half_def set_half_def set_next_def set_flags_def set_proto_def)

section \<open>The fields of entries\<close>

definition proto_of :: "ipa_nat_rule \<Rightarrow> u8" where
  "proto_of r = read_protocol (ts_proto r)"

text \<open>The rule the client gave, as the entry has it.\<close>

definition client_of :: "ipa_nat_rule \<Rightarrow> ipa_nat_ipv4_rule" where
  "client_of r =
     \<lparr>nr_target_ip = h_target_ip r, nr_private_ip = h_private_ip r, nr_target_port = h_target_port r,
      nr_private_port = h_private_port r, nr_public_port = high16 (nxt_indx_pub_port r),
      nr_protocol = proto_of r, nr_pdn_index = ucast (h_pdn_index r)\<rparr>"

lemma unat_of_nat16: "v < 65536 \<Longrightarrow> unat (of_nat v :: u16) = v"
  by (simp add: unsigned_of_nat take_bit_nat_eq_self)

lemma of_nat_u32: "(of_nat v :: u32) = ucast (of_nat v :: u16)" if "v < 65536"
  using that by (simp add: word_unat_eq_iff unsigned_of_nat unsigned_ucast_eq take_bit_nat_eq_self)

lemma read_enable_mk32: "read_enable (mk32 h l) = bit h 15"
  by (auto simp: read_enable_def mk32_def bit_simps dest: bit_imp_le_length)

lemma read_protocol_high: "read_protocol w = ucast (drop_bit 8 (high16 w))"
  by (auto simp: read_protocol_def high16_def bit_simps ac_simps intro!: bit_word_eqI)

lemma fields_set_next [simp]:
  "v < 65536 \<Longrightarrow> rule_next (set_next v r) = v" "rule_prev (set_next v r) = rule_prev r"
  "rule_indx (set_next v r) = rule_indx r" "rule_enabled (set_next v r) = rule_enabled r"
  "proto_of (set_next v r) = proto_of r" "client_of (set_next v r) = client_of r"
  by (simp_all add: set_next_def rule_next_def rule_prev_def rule_indx_def rule_enabled_def proto_of_def
      client_of_def unat_of_nat16)

lemma fields_set_flags [simp]:
  "rule_next (set_flags v r) = rule_next r" "rule_prev (set_flags v r) = rule_prev r"
  "rule_indx (set_flags v r) = rule_indx r" "proto_of (set_flags v r) = proto_of r"
  "client_of (set_flags v r) = client_of r" "rule_enabled (set_flags 0x8000 r)"
  "\<not> rule_enabled (set_flags 0 r)"
  by (simp_all add: set_flags_def rule_next_def rule_prev_def rule_indx_def rule_enabled_def proto_of_def
      client_of_def read_enable_mk32 bit_flags)

lemma fields_set_proto [simp]:
  "rule_next (set_proto v r) = rule_next r" "rule_prev (set_proto v r) = rule_prev r"
  "rule_indx (set_proto v r) = rule_indx r" "rule_enabled (set_proto v r) = rule_enabled r"
  "proto_of (set_proto 0xFF00 r) = 0xFF"
proof -
  have "ucast (drop_bit 8 (0xFF00 :: u16)) = (0xFF :: u8)" by simp
  then show "proto_of (set_proto 0xFF00 r) = 0xFF"
    by (simp add: proto_of_def set_proto_def read_protocol_high)
qed (simp_all add: set_proto_def rule_next_def rule_prev_def rule_indx_def rule_enabled_def)

lemma fields_update_prev [simp]:
  assumes "v < 65536"
  shows "rule_next (UpdateSwSpecParams False (of_nat v) r) = rule_next r"
    "rule_prev (UpdateSwSpecParams False (of_nat v) r) = v"
    "rule_indx (UpdateSwSpecParams False (of_nat v) r) = rule_indx r"
    "rule_enabled (UpdateSwSpecParams False (of_nat v) r) = rule_enabled r"
    "proto_of (UpdateSwSpecParams False (of_nat v) r) = proto_of r"
    "client_of (UpdateSwSpecParams False (of_nat v) r) = client_of r"
  using assms
  by (simp_all add: of_nat_u32 update_sw_prev rule_next_def rule_prev_def rule_indx_def rule_enabled_def proto_of_def
      client_of_def unat_of_nat16)

lemma fields_update_indx [simp]:
  assumes "v < 65536"
  shows "rule_next (UpdateSwSpecParams True (of_nat v) r) = rule_next r"
    "rule_prev (UpdateSwSpecParams True (of_nat v) r) = rule_prev r"
    "rule_indx (UpdateSwSpecParams True (of_nat v) r) = v"
    "rule_enabled (UpdateSwSpecParams True (of_nat v) r) = rule_enabled r"
    "proto_of (UpdateSwSpecParams True (of_nat v) r) = proto_of r"
    "client_of (UpdateSwSpecParams True (of_nat v) r) = client_of r"
  using assms
  by (simp_all add: of_nat_u32 update_sw_indx rule_next_def rule_prev_def rule_indx_def rule_enabled_def proto_of_def
      client_of_def unat_of_nat16)

lemma fields_zero [simp]:
  "rule_next zero_hw_rule = 0" "\<not> rule_enabled zero_hw_rule" "proto_of zero_hw_rule = 0"
  by (simp_all add: zero_hw_rule_def rule_next_def rule_enabled_def read_enable_def proto_of_def low16_def
      read_protocol_def)

lemma index_fields [simp]:
  "index_entry 0 = 0" "index_next 0 = 0"
  "v < 65536 \<Longrightarrow> index_entry (set_half False (of_nat v) w) = v" "index_next (set_half False u w) = index_next w"
  "v < 65536 \<Longrightarrow> index_next (set_half True (of_nat v) w) = v" "index_entry (set_half True u w) = index_entry w"
  "v < 65536 \<Longrightarrow> index_entry (mk32 h (of_nat v)) = v" "index_next (mk32 h l) = unat h"
  by (simp_all add: index_entry_def index_next_def set_half_def unat_of_nat16 low16_def [of 0] high16_def [of 0])

lemma field_bounds [simp]:
  "rule_next r < 65536" "rule_prev r < 65536" "rule_indx r < 65536" "index_entry w < 65536" "index_next w < 65536"
proof -
  have u: "unat (q :: u16) < 65536" for q using unsigned_less [of q, where 'a = nat] by simp
  show "rule_next r < 65536" "rule_prev r < 65536" "rule_indx r < 65536" "index_entry w < 65536" "index_next w < 65536"
    unfolding rule_next_def rule_prev_def rule_indx_def index_entry_def index_next_def by (rule u)+
qed

text \<open>The entry prepared for a rule of a client.\<close>

lemma fields_new:
  assumes "unat (nr_pdn_index clnt) < 16"
  shows "rule_next (rule_to_hw (client_to_sw ip clnt\<lparr>s_prev_index := p, s_indx_tbl_entry := i\<rparr>)) = 0"
    "rule_prev (rule_to_hw (client_to_sw ip clnt\<lparr>s_prev_index := p, s_indx_tbl_entry := i\<rparr>)) = unat p"
    "rule_indx (rule_to_hw (client_to_sw ip clnt\<lparr>s_prev_index := p, s_indx_tbl_entry := i\<rparr>)) = unat i"
    "client_of (rule_to_hw (client_to_sw ip clnt\<lparr>s_prev_index := p, s_indx_tbl_entry := i\<rparr>)) = clnt"
proof -
  have pr: "read_protocol (mk_ts_proto q 0) = q" for q
    by (auto simp: mk_ts_proto_def read_protocol_def bit_simps intro!: bit_word_eqI)
  have pdn: "ucast (ucast (nr_pdn_index clnt) :: 4 word) = nr_pdn_index clnt"
    using assms by (simp add: word_unat_eq_iff unsigned_ucast_eq unsigned_take_bit_eq take_bit_nat_eq_self)
  show "rule_next (rule_to_hw (client_to_sw ip clnt\<lparr>s_prev_index := p, s_indx_tbl_entry := i\<rparr>)) = 0"
    "rule_prev (rule_to_hw (client_to_sw ip clnt\<lparr>s_prev_index := p, s_indx_tbl_entry := i\<rparr>)) = unat p"
    "rule_indx (rule_to_hw (client_to_sw ip clnt\<lparr>s_prev_index := p, s_indx_tbl_entry := i\<rparr>)) = unat i"
    "client_of (rule_to_hw (client_to_sw ip clnt\<lparr>s_prev_index := p, s_indx_tbl_entry := i\<rparr>)) = clnt"
    by (simp_all add: rule_to_hw_def client_to_sw_def rule_next_def rule_prev_def rule_indx_def client_of_def
        proto_of_def pr pdn)
qed

section \<open>The invariant\<close>

text \<open>
  An entry that was deleted while it was the head of a chain stays enabled with an invalid protocol;
  the other enabled entries are live.
\<close>

definition live :: "ipa_nat_rule \<Rightarrow> bool" where
  "live r \<longleftrightarrow> rule_enabled r \<and> proto_of r \<noteq> 0xFF"

definition rules_chained :: "nat \<Rightarrow> nat \<Rightarrow> nat_mem \<Rightarrow> (nat \<Rightarrow> nat list) \<Rightarrow> bool" where
  "rules_chained n m mem rc \<longleftrightarrow>
     chained n m (\<lambda>x. rule_enabled (rule_at n mem x)) (\<lambda>x. rule_next (rule_at n mem x))
       (\<lambda>x. rule_prev (rule_at n mem x)) rc \<and> \<not> rule_enabled (rule_at n mem 0)"

definition index_chained :: "nat \<Rightarrow> nat \<Rightarrow> nat_mem \<Rightarrow> nat list \<Rightarrow> (nat \<Rightarrow> nat list) \<Rightarrow> bool" where
  "index_chained n m mem meta ic \<longleftrightarrow>
     length meta = m \<and>
     chained n m (\<lambda>i. index_entry (idx_at n mem i) \<noteq> 0) (\<lambda>i. index_next (idx_at n mem i))
       (\<lambda>i. meta ! (i - n)) ic \<and> index_entry (idx_at n mem 0) = 0"

text \<open>Each live rule has one index entry, which points to it.\<close>

definition crossed :: "nat \<Rightarrow> nat \<Rightarrow> nat_mem \<Rightarrow> bool" where
  "crossed n m mem \<longleftrightarrow>
     (\<forall>x < n + m. live (rule_at n mem x) \<longrightarrow>
        rule_indx (rule_at n mem x) < n + m \<and> index_entry (idx_at n mem (rule_indx (rule_at n mem x))) = x) \<and>
     (\<forall>i < n + m. index_entry (idx_at n mem i) \<noteq> 0 \<longrightarrow>
        index_entry (idx_at n mem i) < n + m \<and> live (rule_at n mem (index_entry (idx_at n mem i))) \<and>
        rule_indx (rule_at n mem (index_entry (idx_at n mem i))) = i)"

definition dead_heads :: "nat \<Rightarrow> nat \<Rightarrow> nat_mem \<Rightarrow> bool" where
  "dead_heads n m mem \<longleftrightarrow>
     (\<forall>x < n + m. proto_of (rule_at n mem x) = 0xFF \<longrightarrow>
        x < n \<and> rule_enabled (rule_at n mem x) \<and> rule_next (rule_at n mem x) \<noteq> 0)"

text \<open>\<open>D\<close> and \<open>S\<close> are the two hashes; each entry is in the chain of its hash.\<close>

definition hashed ::
  "(ipa_nat_ipv4_rule \<Rightarrow> nat) \<Rightarrow> (ipa_nat_ipv4_rule \<Rightarrow> nat) \<Rightarrow> nat \<Rightarrow> nat_mem \<Rightarrow>
   (nat \<Rightarrow> nat list) \<Rightarrow> (nat \<Rightarrow> nat list) \<Rightarrow> bool" where
  "hashed D S n mem rc ic \<longleftrightarrow>
     (\<forall>b < n. \<forall>x \<in> set (b # rc b). live (rule_at n mem x) \<longrightarrow> D (client_of (rule_at n mem x)) = b) \<and>
     (\<forall>b < n. \<forall>i \<in> set (b # ic b). index_entry (idx_at n mem i) \<noteq> 0 \<longrightarrow>
        S (client_of (rule_at n mem (index_entry (idx_at n mem i)))) = b)"

text \<open>The identifiers in \<open>rule_id_array\<close>; the last slot, of which the handle is out of range, is not used.\<close>

definition rule_id :: "nat \<Rightarrow> nat \<Rightarrow> nat" where
  "rule_id n x = (if n \<le> x then (x - n) * 2 + 1 else x * 2)"

definition id_entry :: "nat \<Rightarrow> nat \<Rightarrow> nat" where
  "id_entry n v = (if odd v then n + v div 2 else v div 2)"

definition ids_ok :: "nat \<Rightarrow> nat \<Rightarrow> nat_mem \<Rightarrow> nat list \<Rightarrow> bool" where
  "ids_ok n m mem ids \<longleftrightarrow>
     length ids = n + m \<and> (\<forall>j < n + m. n + m \<le> Suc j \<longrightarrow> ids ! j = 0) \<and>
     (\<forall>j < n + m. ids ! j \<noteq> 0 \<longrightarrow>
        (\<exists>x < n + m. ids ! j = rule_id n x \<and> live (rule_at n mem x))) \<and>
     (\<forall>j < n + m. \<forall>j' < n + m. ids ! j = ids ! j' \<longrightarrow> ids ! j \<noteq> 0 \<longrightarrow> j = j') \<and>
     (\<forall>x < n + m. live (rule_at n mem x) \<longrightarrow> rule_id n x \<in> set ids)"

definition tables_ok ::
  "(ipa_nat_ipv4_rule \<Rightarrow> nat) \<Rightarrow> (ipa_nat_ipv4_rule \<Rightarrow> nat) \<Rightarrow> nat \<Rightarrow> nat \<Rightarrow> nat_mem \<Rightarrow> nat list \<Rightarrow>
   nat list \<Rightarrow> (nat \<Rightarrow> nat list) \<Rightarrow> (nat \<Rightarrow> nat list) \<Rightarrow> bool" where
  "tables_ok D S n m mem meta ids rc ic \<longleftrightarrow>
     geom n m mem \<and> rules_chained n m mem rc \<and> index_chained n m mem meta ic \<and> crossed n m mem \<and>
     dead_heads n m mem \<and> hashed D S n mem rc ic \<and> ids_ok n m mem ids"

lemma id_entry_rule_id [simp]: "id_entry n (rule_id n x) = x"
  by (auto simp: id_entry_def rule_id_def)

lemma rule_id_inj: "rule_id n x = rule_id n y \<Longrightarrow> x = y"
  using id_entry_rule_id by metis

section \<open>Adding to the tables\<close>

text \<open>
  What adding a rule does to the memory in the end: \<open>r\<close> at \<open>x\<close>, behind \<open>p\<close>; its index entry at \<open>i\<close>,
  behind \<open>q\<close>.
\<close>

definition add_mem :: "nat \<Rightarrow> nat \<Rightarrow> nat \<Rightarrow> nat \<Rightarrow> nat \<Rightarrow> ipa_nat_rule \<Rightarrow> nat_mem \<Rightarrow> nat_mem" where
  "add_mem n x p i q r mem =
     (let mem = put_rule n x r mem;
          mem = (if p = 0 then mem else put_rule n p (set_next x (rule_at n mem p)) mem);
          mem = put_idx n i (mk32 0 (of_nat x)) mem;
          mem = (if q = 0 then mem else put_idx n q (set_half True (of_nat i) (idx_at n mem q)) mem)
      in put_rule n x (set_flags 0x8000 (rule_at n mem x)) mem)"

lemma add_mem_at:
  assumes "geom n m mem" and "x < n + m" and "p < n + m" and "i < n + m" and "q < n + m" and "p \<noteq> x" and "q \<noteq> i"
  shows "geom n m (add_mem n x p i q r mem)"
    and "y < n + m \<Longrightarrow> rule_at n (add_mem n x p i q r mem) y =
      (if y = x then set_flags 0x8000 r else if p \<noteq> 0 \<and> y = p then set_next x (rule_at n mem y) else rule_at n mem y)"
    and "y < n + m \<Longrightarrow> idx_at n (add_mem n x p i q r mem) y =
      (if y = i then mk32 0 (of_nat x)
       else if q \<noteq> 0 \<and> y = q then set_half True (of_nat i) (idx_at n mem y) else idx_at n mem y)"
  using assms by (auto simp: add_mem_def Let_def)

lemma ids_okD:
  assumes "ids_ok n m mem ids"
  shows "length ids = n + m"
    "\<And>j. j < n + m \<Longrightarrow> ids ! j \<noteq> 0 \<Longrightarrow> Suc j < n + m"
    "\<And>j. j < n + m \<Longrightarrow> ids ! j \<noteq> 0 \<Longrightarrow> \<exists>x < n + m. ids ! j = rule_id n x \<and> live (rule_at n mem x)"
    "\<And>j j'. j < n + m \<Longrightarrow> j' < n + m \<Longrightarrow> ids ! j = ids ! j' \<Longrightarrow> ids ! j \<noteq> 0 \<Longrightarrow> j = j'"
    "\<And>x. x < n + m \<Longrightarrow> live (rule_at n mem x) \<Longrightarrow> rule_id n x \<in> set ids"
  using assms unfolding ids_ok_def by (blast, metis leI, blast, blast, blast)

lemma rule_id_0: "rule_id n x = 0 \<longleftrightarrow> x = 0 \<and> n \<noteq> 0"
  by (auto simp: rule_id_def)

text \<open>A live entry gets an unused slot for its identifier.\<close>

lemma ids_add:
  assumes io: "ids_ok n m mem ids" and x: "x < n + m" "x \<noteq> 0" "\<not> live (rule_at n mem x)"
    and j: "Suc j < n + m" "ids ! j = 0" and nlive0: "\<not> live (rule_at n mem 0)"
    and lv: "\<And>y. y < n + m \<Longrightarrow> live (rule_at n mem' y) = (y = x \<or> live (rule_at n mem y))"
  shows "ids_ok n m mem' (ids[j := rule_id n x])"
proof -
  note d = ids_okD [OF io]
  have new: "rule_id n x \<noteq> ids ! k" "ids ! k \<noteq> rule_id n x" if k: "k < n + m" for k
  proof -
    show "rule_id n x \<noteq> ids ! k"
    proof
      assume e: "rule_id n x = ids ! k"
      moreover have "rule_id n x \<noteq> 0" using x(2) by (auto simp: rule_id_def)
      ultimately have "ids ! k \<noteq> 0" by simp
      from d(3) [OF k this] e x(3) show False by (auto dest: rule_id_inj)
    qed
    then show "ids ! k \<noteq> rule_id n x" by simp
  qed
  show ?thesis
    unfolding ids_ok_def
  proof (intro conjI allI impI)
    fix k assume k: "k < n + m" "ids[j := rule_id n x] ! k \<noteq> 0"
    show "\<exists>y < n + m. ids[j := rule_id n x] ! k = rule_id n y \<and> live (rule_at n mem' y)"
    proof (cases "k = j")
      case True
      then show ?thesis using k x(1) d(1) by (auto simp: lv)
    next
      case False
      with d(3) [OF k(1)] k(2) obtain y where "y < n + m" "ids ! k = rule_id n y" "live (rule_at n mem y)" by auto
      with False show ?thesis by (auto simp: lv)
    qed
  next
    show "ids[j := rule_id n x] ! k = 0" if "k < n + m" "n + m \<le> Suc k" for k
      using that io j by (simp add: ids_ok_def)
  next
    fix k k' assume "k < n + m" "k' < n + m" "ids[j := rule_id n x] ! k = ids[j := rule_id n x] ! k'"
      "ids[j := rule_id n x] ! k \<noteq> 0"
    then show "k = k'" using d(4) new d(1) j by (auto simp: nth_list_update split: if_splits)
  next
    fix y assume y: "y < n + m" "live (rule_at n mem' y)"
    show "rule_id n y \<in> set (ids[j := rule_id n x])"
    proof (cases "y = x")
      case True
      with j d(1) show ?thesis by (simp add: set_update_memI)
    next
      case False
      with y d(5) have "rule_id n y \<in> set ids" by (simp add: lv)
      then obtain k where k: "k < n + m" "ids ! k = rule_id n y" using d(1) by (auto simp: in_set_conv_nth)
      have "rule_id n y \<noteq> 0"
      proof
        assume "rule_id n y = 0"
        then have "y = 0" by (auto simp: rule_id_def split: if_splits)
        with y False nlive0 show False by (simp add: lv)
      qed
      then have "k \<noteq> j" using k j by auto
      with k d(1) show ?thesis by (auto simp: in_set_conv_nth intro!: exI [of _ k])
    qed
  qed (simp add: d(1))
qed

lemma tables_add:
  assumes ok: "tables_ok D S n m mem meta ids rc ic" and small: "n + m < 65536"
    and sx: "slot_for n m (\<lambda>x. rule_enabled (rule_at n mem x)) rc (D (client_of r)) x p"
    and si: "slot_for n m (\<lambda>i. index_entry (idx_at n mem i) \<noteq> 0) ic (S (client_of r)) i q"
    and r: "rule_next r = 0" "rule_prev r = p" "rule_indx r = i" "proto_of r \<noteq> 0xFF" "x \<noteq> 0" "i \<noteq> 0"
    and j: "Suc j < n + m" "ids ! j = 0"
    and meta': "length meta' = m" "\<And>y. n < y \<Longrightarrow> y < n + m \<Longrightarrow> meta' ! (y - n) = (if y = i then q else meta ! (y - n))"
  shows "tables_ok D S n m (add_mem n x p i q r mem) meta' (ids[j := rule_id n x])
    (extend rc (D (client_of r)) x p) (extend ic (S (client_of r)) i q)"
proof -
  let ?mem = "add_mem n x p i q r mem"
  from ok have g: "geom n m mem" and
    rch: "chained n m (\<lambda>x. rule_enabled (rule_at n mem x)) (\<lambda>x. rule_next (rule_at n mem x))
       (\<lambda>x. rule_prev (rule_at n mem x)) rc" "\<not> rule_enabled (rule_at n mem 0)" and
    ich: "chained n m (\<lambda>i. index_entry (idx_at n mem i) \<noteq> 0) (\<lambda>i. index_next (idx_at n mem i))
       (\<lambda>i. meta ! (i - n)) ic" "index_entry (idx_at n mem 0) = 0" "length meta = m" and
    cr: "crossed n m mem" and dh: "dead_heads n m mem" and hs: "hashed D S n mem rc ic" and io: "ids_ok n m mem ids"
    by (simp_all add: tables_ok_def rules_chained_def index_chained_def)
  note fx = slot_for_facts [OF rch(1) sx rch(2)]
  have ich2: "\<not> index_entry (idx_at n mem 0) \<noteq> 0" using ich(2) by simp
  note fi = slot_for_facts [OF ich(1) si ich2]
  have x0: "x < 65536" "i < 65536" using fx(1) fi(1) small by simp_all
  note at = add_mem_at [OF g fx(1,4) fi(1,4) fx(3) fi(3)]
  have cl: "client_of (rule_at n ?mem y) = (if y = x then client_of r else client_of (rule_at n mem y))"
    "live (rule_at n ?mem y) = (y = x \<or> live (rule_at n mem y))"
    "rule_indx (rule_at n ?mem y) = (if y = x then i else rule_indx (rule_at n mem y))"
    "proto_of (rule_at n ?mem y) = (if y = x then proto_of r else proto_of (rule_at n mem y))"
    "rule_enabled (rule_at n ?mem y) = (y = x \<or> rule_enabled (rule_at n mem y))"
    "rule_next (rule_at n ?mem y) = (if y = x then 0 else if p \<noteq> 0 \<and> y = p then x else rule_next (rule_at n mem y))"
    "rule_prev (rule_at n ?mem y) = (if y = x then p else rule_prev (rule_at n mem y))"
    if "y < n + m" for y
    using that at(2) r x0 by (auto simp: live_def)
  have ix: "index_entry (idx_at n ?mem y) = (if y = i then x else index_entry (idx_at n mem y))"
    "index_next (idx_at n ?mem y) = (if y = i then 0 else if q \<noteq> 0 \<and> y = q then i else index_next (idx_at n mem y))"
    if "y < n + m" for y
    using that at(3) x0 by auto
  have nlive0: "\<not> live (rule_at n mem 0)" using rch(2) by (simp add: live_def)
  have zero: "0 < n + m" using fx(1) by (rule le_less_trans [rotated]) simp
  have nlive: "\<not> live (rule_at n mem x)" using fx(2) by (simp add: live_def)
  have "rules_chained n m ?mem (extend rc (D (client_of r)) x p)"
    unfolding rules_chained_def
  proof
    show "chained n m (\<lambda>x. rule_enabled (rule_at n ?mem x)) (\<lambda>x. rule_next (rule_at n ?mem x))
       (\<lambda>x. rule_prev (rule_at n ?mem x)) (extend rc (D (client_of r)) x p)"
      by (rule chained_add [OF rch(1) sx rch(2)]) (simp_all add: cl)
    show "\<not> rule_enabled (rule_at n ?mem 0)" using rch(2) r(5) cl(5) [OF zero] by simp
  qed
  moreover have "index_chained n m ?mem meta' (extend ic (S (client_of r)) i q)"
    unfolding index_chained_def
  proof (intro conjI)
    show "chained n m (\<lambda>i. index_entry (idx_at n ?mem i) \<noteq> 0) (\<lambda>i. index_next (idx_at n ?mem i))
       (\<lambda>i. meta' ! (i - n)) (extend ic (S (client_of r)) i q)"
      by (rule chained_add [OF ich(1) si ich2]) (use r(5) meta' in \<open>simp_all add: ix\<close>)
    show "index_entry (idx_at n ?mem 0) = 0" using ich(2) r(6) ix(1) [OF zero] by simp
  qed (rule meta')
  moreover have "crossed n m ?mem"
    using cr fx(1,2) fi(1,2) nlive r(5) nlive0 unfolding crossed_def
    by (auto simp: cl ix split: if_splits)
  moreover have "dead_heads n m ?mem"
    using dh r(4,5) fx(6) unfolding dead_heads_def by (auto simp: cl live_def)
  moreover have "hashed D S n ?mem (extend rc (D (client_of r)) x p) (extend ic (S (client_of r)) i q)"
    unfolding hashed_def
  proof (intro conjI allI impI ballI)
    fix b y assume b: "b < n" and y: "y \<in> set (b # extend rc (D (client_of r)) x p b)" and l: "live (rule_at n ?mem y)"
    from y have y': "y \<in> set (b # rc b) \<or> y = x \<and> b = D (client_of r)"
      using extend_set [OF sx fx(5), of b] by (auto split: if_splits)
    then have yn: "y < n + m" using chained_bounds [OF rch(1) b] b fx(1) by auto
    have xc: "x \<in> set (b # rc b) \<Longrightarrow> b = D (client_of r)"
      using chained_unused [OF rch(1) b fx(2)] fx(5,7) b sx by (auto simp: slot_for_def split: if_splits)
    from y' show "D (client_of (rule_at n ?mem y)) = b"
      using hs b l yn xc by (auto simp: hashed_def cl)
  next
    fix b y assume b: "b < n" and y: "y \<in> set (b # extend ic (S (client_of r)) i q b)"
      and l: "index_entry (idx_at n ?mem y) \<noteq> 0"
    from y have y': "y \<in> set (b # ic b) \<or> y = i \<and> b = S (client_of r)"
      using extend_set [OF si fi(5), of b] by (auto split: if_splits)
    then have yn: "y < n + m" using chained_bounds [OF ich(1) b] b fi(1) by auto
    have xc: "i \<in> set (b # ic b) \<Longrightarrow> b = S (client_of r)"
      using chained_unused [OF ich(1) b, of i] fi(2,5,7) b si by (auto simp: slot_for_def split: if_splits)
    show "S (client_of (rule_at n ?mem (index_entry (idx_at n ?mem y)))) = b"
    proof (cases "y = i")
      case True
      with y' xc yn fx(1) show ?thesis by (auto simp: ix cl)
    next
      case False
      with l yn have e: "index_entry (idx_at n mem y) \<noteq> 0" by (simp add: ix)
      then have "index_entry (idx_at n mem y) < n + m" "index_entry (idx_at n mem y) \<noteq> x"
        using cr yn nlive by (auto simp: crossed_def)
      with False y' b e hs yn show ?thesis by (auto simp: ix cl hashed_def)
    qed
  qed
  moreover have "ids_ok n m ?mem (ids[j := rule_id n x])"
    by (rule ids_add [OF io fx(1) r(5) nlive j nlive0]) (simp add: cl)
  ultimately show ?thesis using at(1) by (simp add: tables_ok_def)
qed

end
