(* ===== verification/IpaNatAdd.thy ===== *)
theory IpaNatAdd
  imports IpaNatTable
begin

text \<open>
  Adding a rule: finding a slot in each table, the writes of \<open>nati_add_ipv4_rule\<close> as changes of
  entries, and that it either finds an expansion table full and changes nothing, or keeps the
  invariant of the tables and gives the rule a handle of its own.
\<close>

section \<open>The state of the driver\<close>

definition dst_of :: "ipa_nat_cache \<Rightarrow> ipa_nat_ipv4_rule \<Rightarrow> nat" where
  "dst_of c r =
     unat (dst_hash (ver_v4_0 c) (p_public_ip (pdns c ! unat (nr_pdn_index r))) (nr_target_ip r) (nr_target_port r)
       (nr_public_port r) (nr_protocol r) (of_nat (table_entries (ip4_tbl c)) - 1))"

definition src_of :: "ipa_nat_cache \<Rightarrow> ipa_nat_ipv4_rule \<Rightarrow> nat" where
  "src_of c r =
     unat (src_hash (nr_private_ip r) (nr_private_port r) (nr_target_ip r) (nr_target_port r) (nr_protocol r)
       (of_nat (table_entries (ip4_tbl c)) - 1))"

text \<open>
  Tables of a size for which the offsets of the index tables fit 16 bits; the memory the kernel gives
  starts at offset 0.
\<close>

definition sizes_ok :: "nat \<Rightarrow> nat \<Rightarrow> bool" where
  "sizes_ok n m \<longleftrightarrow> (\<exists>k. n = 2 ^ k \<and> 0 < k \<and> k \<le> 14) \<and> 2 \<le> m \<and> m \<le> 16384"

definition nat_inv :: "ipa_nat_cache \<Rightarrow> nat_mem \<Rightarrow> nat list \<Rightarrow> nat list \<Rightarrow> (nat \<Rightarrow> nat list) \<Rightarrow> (nat \<Rightarrow> nat list) \<Rightarrow> bool" where
  "nat_inv c mem meta ids rc ic \<longleftrightarrow>
     (let t = ip4_tbl c in
      t_valid t \<and> tbl_addr_offset t = 0 \<and> t_mem t = Some mem \<and> index_expn_table_meta t = Some meta \<and>
      rule_id_array t = Some ids \<and> sizes_ok (table_entries t) (expn_table_entries t) \<and> length (pdns c) \<le> 16 \<and>
      tables_ok (dst_of c) (src_of c) (table_entries t) (expn_table_entries t) mem meta ids rc ic)"

lemma sizes_bounds: "sizes_ok n m \<Longrightarrow> 2 \<le> n \<and> n \<le> 16384 \<and> 2 \<le> m \<and> m \<le> 16384"
proof -
  assume "sizes_ok n m"
  then obtain k where k: "n = 2 ^ k" "0 < k" "k \<le> 14" "2 \<le> m" "m \<le> 16384" by (auto simp: sizes_ok_def)
  then have "2 ^ k \<le> (2 :: nat) ^ 14" "2 ^ 1 \<le> (2 :: nat) ^ k" by (intro power_increasing; simp)+
  with k show ?thesis by simp
qed

lemma sizes_mask: "sizes_ok n m \<Longrightarrow> \<exists>k. (of_nat n - 1 :: u16) = mask k \<and> k \<le> 16 \<and> 0 < k \<and> unat (of_nat n - 1 :: u16) < n"
proof -
  assume ok: "sizes_ok n m"
  then obtain k where k: "n = 2 ^ k" "0 < k" "k \<le> 14" by (auto simp: sizes_ok_def)
  have "(of_nat n - 1 :: u16) = mask k" by (simp add: k(1) mask_eq_exp_minus_1)
  moreover have "unat (of_nat n - 1 :: u16) = n - 1"
  proof -
    have e: "of_nat n - 1 = (of_nat (n - 1) :: u16)" using sizes_bounds [OF ok] by (simp add: of_nat_diff)
    show ?thesis unfolding e by (rule unat_of_nat16) (use sizes_bounds [OF ok] in linarith)
  qed
  ultimately show ?thesis using k sizes_bounds [OF ok] by auto
qed

lemma hashes_in_range:
  assumes "sizes_ok (table_entries (ip4_tbl c)) m"
  shows "0 < dst_of c r \<and> dst_of c r < table_entries (ip4_tbl c)"
    and "0 < src_of c r \<and> src_of c r < table_entries (ip4_tbl c)"
proof -
  from sizes_mask [OF assms] obtain k where
    k: "(of_nat (table_entries (ip4_tbl c)) - 1 :: u16) = mask k" "k \<le> 16" "0 < k"
      "unat (of_nat (table_entries (ip4_tbl c)) - 1 :: u16) < table_entries (ip4_tbl c)" by blast
  show "0 < dst_of c r \<and> dst_of c r < table_entries (ip4_tbl c)"
    using hash_range(1) [OF k(1-3)] k(4) unfolding dst_of_def by (meson le_less_trans)
  show "0 < src_of c r \<and> src_of c r < table_entries (ip4_tbl c)"
    using hash_range(2) [OF k(1-3)] k(4) unfolding src_of_def by (meson le_less_trans)
qed

section \<open>Finding a slot\<close>

lemma sub16_expn: "n \<le> x \<Longrightarrow> x < 65536 \<Longrightarrow> sub16 x n = x - n"
proof -
  assume "n \<le> x" "x < 65536"
  then have "x + (65536 - n) = (x - n) + 65536" by simp
  then have "sub16 x n = (x - n + 65536) mod 65536" by (simp only: sub16_def)
  then show ?thesis using \<open>x < 65536\<close> by (simp only: mod_add_self2) simp
qed

lemma walk_end_links:
  "links nxt x xs \<Longrightarrow> distinct (x # xs) \<Longrightarrow> 0 \<notin> set (x # xs) \<Longrightarrow>
   (\<And>y. y \<in> set (x # xs) \<Longrightarrow> rd (sub16 y n) = Some (nxt y)) \<Longrightarrow> length xs < fuel \<Longrightarrow>
   walk_end fuel n rd x = Some (last (x # xs))"
proof (induction xs arbitrary: x fuel)
  case Nil
  then obtain f where "fuel = Suc f" by (cases fuel) auto
  with Nil show ?case by simp
next
  case (Cons y ys)
  then obtain f where f: "fuel = Suc f" by (cases fuel) auto
  have "walk_end f n rd y = Some (last (y # ys))" by (rule Cons.IH) (use Cons.prems f in auto)
  with Cons.prems f show ?case by auto
qed

lemma free_entry_spec:
  "\<exists>cnt. free_entry free tbl (length tbl) = Some cnt \<and>
     (if cnt = 0 then \<forall>i. 0 < i \<longrightarrow> i < length tbl \<longrightarrow> \<not> free (tbl ! i) else cnt < length tbl \<and> free (tbl ! cnt))"
proof -
  let ?k = "first_index free (drop 1 tbl)"
  show ?thesis
  proof (cases "Suc ?k < length tbl")
    case True
    then have "?k < length (drop 1 tbl)" by simp
    from first_index_holds [OF this] True show ?thesis by (simp add: free_entry_def)
  next
    case False
    then have "?k = length (drop 1 tbl)" using first_index_le [of free "drop 1 tbl"] by simp
    then have all: "\<not> free x" if "x \<in> set (drop 1 tbl)" for x
      using that first_index_eq_length [THEN iffD1] by blast
    have "\<not> free (tbl ! i)" if i: "0 < i" "i < length tbl" for i
    proof (rule all)
      have "drop 1 tbl ! (i - 1) = tbl ! i" using i by simp
      moreover have "i - 1 < length (drop 1 tbl)" using i by simp
      ultimately show "tbl ! i \<in> set (drop 1 tbl)" by (metis nth_mem)
    qed
    with False show ?thesis by (simp add: free_entry_def)
  qed
qed

text \<open>The search for a place in a table, as both tables do it.\<close>

lemma find_slot:
  assumes ch: "chained n m used nxt prv ch" and b: "0 < b" "b < n" and used: "used b" and small: "n + m < 65536"
    and rd: "\<And>y. n \<le> y \<Longrightarrow> y < n + m \<Longrightarrow> rd (y - n) = Some (nxt y)"
    and len: "length tbl = m" and free: "\<And>y. y < m \<Longrightarrow> free (tbl ! y) = (\<not> used (n + y))"
  shows "\<exists>p cnt. (if nxt b = 0 then Some b else walk_end m n rd (nxt b)) = Some p \<and> p = last (b # ch b) \<and>
    0 < p \<and> p < n + m \<and> free_entry free tbl m = Some cnt \<and>
    (if cnt = 0 then \<forall>x. n < x \<longrightarrow> x < n + m \<longrightarrow> used x else slot_for n m used ch b (add16 cnt n) p \<and> add16 cnt n \<noteq> p)"
proof -
  note path = chained_path [OF ch b(2)] and bounds = chained_bounds [OF ch b(2)]
  have p: "(if nxt b = 0 then Some b else walk_end m n rd (nxt b)) = Some (last (b # ch b))"
  proof (cases "ch b")
    case Nil
    with path show ?thesis by simp
  next
    case (Cons x xs)
    have "walk_end m n rd x = Some (last (x # xs))"
    proof (rule walk_end_links)
      show "links nxt x xs" "distinct (x # xs)" using path Cons by auto
      show "0 \<notin> set (x # xs)" using bounds Cons by force
      show "rd (sub16 y n) = Some (nxt y)" if "y \<in> set (x # xs)" for y
      proof -
        have "n < y" "y < n + m" using bounds that Cons by auto
        then show ?thesis using rd [of y] sub16_expn [of n y] small by simp
      qed
      show "length xs < m" using chain_length [OF ch b(2)] Cons by simp
    qed
    moreover have "nxt b = x" using path Cons by auto
    moreover have "x \<noteq> 0" using bounds [of x] Cons by simp
    ultimately show ?thesis using Cons by simp
  qed
  have pb: "0 < last (b # ch b) \<and> last (b # ch b) < n + m"
  proof (cases "ch b = []")
    case False
    then have "last (b # ch b) \<in> set (ch b)" by simp
    then show ?thesis using bounds by force
  qed (use b in simp)
  from free_entry_spec [of free tbl] obtain cnt where cnt: "free_entry free tbl m = Some cnt"
    "if cnt = 0 then \<forall>i. 0 < i \<longrightarrow> i < m \<longrightarrow> \<not> free (tbl ! i) else cnt < m \<and> free (tbl ! cnt)"
    unfolding len by blast
  have "if cnt = 0 then \<forall>x. n < x \<longrightarrow> x < n + m \<longrightarrow> used x
    else slot_for n m used ch b (add16 cnt n) (last (b # ch b)) \<and> add16 cnt n \<noteq> last (b # ch b)"
  proof (cases "cnt = 0")
    case True
    have "used x" if "n < x" "x < n + m" for x
    proof -
      have "0 < x - n" "x - n < m" using that by auto
      then show ?thesis using cnt(2) True free [of "x - n"] that by auto
    qed
    with True show ?thesis by simp
  next
    case False
    with cnt(2) free [of cnt] have c: "cnt < m" "\<not> used (n + cnt)" by auto
    then have a: "add16 cnt n = n + cnt" using small by (simp add: add16_def)
    have s: "slot_for n m used ch b (n + cnt) (last (b # ch b))"
      using b used c False by (simp add: slot_for_def)
    moreover have "n + cnt \<noteq> last (b # ch b)"
    proof (cases "ch b = []")
      case True
      then show ?thesis using b by simp
    next
      case False
      then have "last (b # ch b) \<in> set (ch b)" by simp
      with bounds c show ?thesis by metis
    qed
    ultimately show ?thesis using False a by simp
  qed
  with p pb cnt(1) show ?thesis by blast
qed


section \<open>Adding a rule\<close>

lemma nat_invD:
  assumes "nat_inv c mem meta ids rc ic"
  shows "t_valid (ip4_tbl c)" "tbl_addr_offset (ip4_tbl c) = 0" "t_mem (ip4_tbl c) = Some mem"
    "index_expn_table_meta (ip4_tbl c) = Some meta" "rule_id_array (ip4_tbl c) = Some ids"
    "sizes_ok (table_entries (ip4_tbl c)) (expn_table_entries (ip4_tbl c))" "length (pdns c) \<le> 16"
    "tables_ok (dst_of c) (src_of c) (table_entries (ip4_tbl c)) (expn_table_entries (ip4_tbl c)) mem meta ids rc ic"
  using assms by (simp_all add: nat_inv_def Let_def)

lemma tables_okD:
  assumes "tables_ok D S n m mem meta ids rc ic"
  shows "geom n m mem"
    "chained n m (\<lambda>x. rule_enabled (rule_at n mem x)) (\<lambda>x. rule_next (rule_at n mem x)) (\<lambda>x. rule_prev (rule_at n mem x)) rc"
    "\<not> rule_enabled (rule_at n mem 0)"
    "chained n m (\<lambda>i. index_entry (idx_at n mem i) \<noteq> 0) (\<lambda>i. index_next (idx_at n mem i)) (\<lambda>i. meta ! (i - n)) ic"
    "index_entry (idx_at n mem 0) = 0" "length meta = m" "crossed n m mem" "dead_heads n m mem"
    "hashed D S n mem rc ic" "ids_ok n m mem ids"
  using assms by (simp_all add: tables_ok_def rules_chained_def index_chained_def)

text \<open>No entry, since the expansion table is full, or a slot for it.\<close>

lemma generate_tbl_rule_spec:
  assumes inv: "nat_inv c mem meta ids rc ic" and pdn: "unat (nr_pdn_index clnt) < length (pdns c)"
  defines "n \<equiv> table_entries (ip4_tbl c)" and "m \<equiv> expn_table_entries (ip4_tbl c)"
    and "ip \<equiv> p_public_ip (pdns c ! unat (nr_pdn_index clnt))"
  shows "\<exists>x p. generate_tbl_rule c clnt = Some (x, client_to_sw ip clnt\<lparr>s_prev_index := of_nat p\<rparr>) \<and> p < 65536 \<and>
    (if x = 0 then \<forall>y. n < y \<longrightarrow> y < n + m \<longrightarrow> rule_enabled (rule_at n mem y)
     else slot_for n m (\<lambda>x. rule_enabled (rule_at n mem x)) rc (dst_of c clnt) x p)"
proof -
  note i = nat_invD [OF inv, folded n_def m_def]
  note t = tables_okD [OF i(8)]
  let ?b = "dst_of c clnt"
  have b: "0 < ?b" "?b < n" using hashes_in_range(1) [of c m clnt] i(6) by (simp_all add: n_def)
  have small: "n + m < 65536" using sizes_bounds [OF i(6)] by simp
  have fetch_b: "fetch (ipv4_rules mem) ?b = Some (rule_at n mem ?b)"
    using b t(1) by (simp add: fetch_def geom_def rule_at_def)
  have pd: "fetch (pdns c) (unat (nr_pdn_index clnt)) = Some (pdns c ! unat (nr_pdn_index clnt))"
    using pdn by (simp add: fetch_def)
  have gen: "generate_tbl_rule c clnt =
    (if \<not> rule_enabled (rule_at n mem ?b) then Some (?b, client_to_sw ip clnt)
     else do {
       prev \<leftarrow> (if rule_next (rule_at n mem ?b) = 0 then Some ?b
                else walk_end m n (\<lambda>i. map_option rule_next (fetch (ipv4_expn_rules mem) i)) (rule_next (rule_at n mem ?b)));
       if prev = 0 then Some (0, client_to_sw ip clnt)
       else do {
         cnt \<leftarrow> free_entry (\<lambda>r. \<not> rule_enabled r) (ipv4_expn_rules mem) m;
         Some (if cnt = 0 then 0 else add16 cnt n, client_to_sw ip clnt\<lparr>s_prev_index := of_nat prev\<rparr>)
       }
     })"
    using t(1) fetch_b
    unfolding generate_tbl_rule_def Let_def i(3) pd Option.bind.simps expn_tbl_free_entry_def
      dst_of_def [symmetric] n_def [symmetric] m_def [symmetric] ip_def [symmetric]
    by (simp add: dst_of_def geom_def ip_def n_def)
  show ?thesis
  proof (cases "rule_enabled (rule_at n mem ?b)")
    case False
    moreover have "client_to_sw ip clnt\<lparr>s_prev_index := of_nat 0\<rparr> = client_to_sw ip clnt"
      by (simp add: client_to_sw_def)
    ultimately show ?thesis
      using b by (intro exI [of _ ?b] exI [of _ 0]) (simp add: gen slot_for_def)
  next
    case True
    have "\<exists>p cnt. (if rule_next (rule_at n mem ?b) = 0 then Some ?b
                else walk_end m n (\<lambda>i. map_option rule_next (fetch (ipv4_expn_rules mem) i)) (rule_next (rule_at n mem ?b))) = Some p \<and>
      p = last (?b # rc ?b) \<and> 0 < p \<and> p < n + m \<and> free_entry (\<lambda>r. \<not> rule_enabled r) (ipv4_expn_rules mem) m = Some cnt \<and>
      (if cnt = 0 then \<forall>x. n < x \<longrightarrow> x < n + m \<longrightarrow> rule_enabled (rule_at n mem x)
       else slot_for n m (\<lambda>x. rule_enabled (rule_at n mem x)) rc ?b (add16 cnt n) p \<and> add16 cnt n \<noteq> p)"
      by (rule find_slot [OF t(2) b True small]) (use t(1) in \<open>auto simp: geom_def fetch_def rule_at_def\<close>)
    then obtain p cnt where p: "(if rule_next (rule_at n mem ?b) = 0 then Some ?b
                else walk_end m n (\<lambda>i. map_option rule_next (fetch (ipv4_expn_rules mem) i)) (rule_next (rule_at n mem ?b))) = Some p"
      "0 < p" "p < n + m" "free_entry (\<lambda>r. \<not> rule_enabled r) (ipv4_expn_rules mem) m = Some cnt"
      "if cnt = 0 then \<forall>x. n < x \<longrightarrow> x < n + m \<longrightarrow> rule_enabled (rule_at n mem x)
       else slot_for n m (\<lambda>x. rule_enabled (rule_at n mem x)) rc ?b (add16 cnt n) p \<and> add16 cnt n \<noteq> p"
      by blast
    have "add16 cnt n \<noteq> 0" if "cnt \<noteq> 0"
      using p(5) that True by (auto simp: slot_for_def)
    moreover have "generate_tbl_rule c clnt =
        Some (if cnt = 0 then 0 else add16 cnt n, client_to_sw ip clnt\<lparr>s_prev_index := of_nat p\<rparr>)"
      unfolding gen p(1) p(4) using True p(2) by simp
    moreover have "p < 65536" using p(3) small by simp
    moreover have "if (if cnt = 0 then 0 else add16 cnt n) = 0
        then \<forall>y. n < y \<longrightarrow> y < n + m \<longrightarrow> rule_enabled (rule_at n mem y)
        else slot_for n m (\<lambda>x. rule_enabled (rule_at n mem x)) rc ?b (if cnt = 0 then 0 else add16 cnt n) p"
    proof (cases "cnt = 0")
      case True
      with p(5) show ?thesis by (simp only: if_True refl)
    next
      case False
      with p(5) \<open>cnt \<noteq> 0 \<Longrightarrow> add16 cnt n \<noteq> 0\<close> show ?thesis by (simp only: if_False not_False_eq_True)
    qed
    ultimately show ?thesis by blast
  qed
qed

lemma generate_index_rule_spec:
  assumes inv: "nat_inv c mem meta ids rc ic"
  defines "n \<equiv> table_entries (ip4_tbl c)" and "m \<equiv> expn_table_entries (ip4_tbl c)"
  shows "\<exists>i q. generate_index_rule c clnt = Some (i, q) \<and>
    (if i = 0 then \<forall>y. n < y \<longrightarrow> y < n + m \<longrightarrow> index_entry (idx_at n mem y) \<noteq> 0
     else slot_for n m (\<lambda>i. index_entry (idx_at n mem i) \<noteq> 0) ic (src_of c clnt) i q)"
proof -
  note i = nat_invD [OF inv, folded n_def m_def]
  note t = tables_okD [OF i(8)]
  let ?b = "src_of c clnt" and ?used = "\<lambda>i. index_entry (idx_at n mem i) \<noteq> 0"
  have b: "0 < ?b" "?b < n" using hashes_in_range(2) [of c m clnt] i(6) by (simp_all add: n_def)
  have small: "n + m < 65536" using sizes_bounds [OF i(6)] by simp
  have fetch_b: "fetch (index_table mem) ?b = Some (idx_at n mem ?b)"
    using b t(1) by (simp add: fetch_def geom_def idx_at_def)
  have gen: "generate_index_rule c clnt =
    (if index_entry (idx_at n mem ?b) = 0 then Some (?b, 0)
     else do {
       prev \<leftarrow> (if index_next (idx_at n mem ?b) = 0 then Some ?b
                else walk_end m n (\<lambda>i. map_option index_next (fetch (index_table_expn mem) i)) (index_next (idx_at n mem ?b)));
       if prev = 0 then Some (0, 0)
       else do {
         cnt \<leftarrow> free_entry (\<lambda>w. index_entry w = 0) (index_table_expn mem) m;
         if cnt = 0 then Some (0, prev)
         else Some (if prev = add16 cnt n then 0 else add16 cnt n, prev)
       }
     })"
    using t(1) fetch_b
    unfolding generate_index_rule_def Let_def i(3) Option.bind.simps index_expn_get_free_entry_def
      src_of_def [symmetric] n_def [symmetric] m_def [symmetric]
    by (simp add: src_of_def geom_def n_def)
  show ?thesis
  proof (cases "?used ?b")
    case False
    then show ?thesis using b by (intro exI [of _ ?b] exI [of _ 0]) (simp add: gen slot_for_def)
  next
    case True
    have "\<exists>q cnt. (if index_next (idx_at n mem ?b) = 0 then Some ?b
                else walk_end m n (\<lambda>i. map_option index_next (fetch (index_table_expn mem) i)) (index_next (idx_at n mem ?b))) = Some q \<and>
      q = last (?b # ic ?b) \<and> 0 < q \<and> q < n + m \<and> free_entry (\<lambda>w. index_entry w = 0) (index_table_expn mem) m = Some cnt \<and>
      (if cnt = 0 then \<forall>x. n < x \<longrightarrow> x < n + m \<longrightarrow> ?used x
       else slot_for n m ?used ic ?b (add16 cnt n) q \<and> add16 cnt n \<noteq> q)"
      by (rule find_slot [OF t(4) b True small]) (use t(1) in \<open>auto simp: geom_def fetch_def idx_at_def\<close>)
    then obtain q cnt where q: "(if index_next (idx_at n mem ?b) = 0 then Some ?b
                else walk_end m n (\<lambda>i. map_option index_next (fetch (index_table_expn mem) i)) (index_next (idx_at n mem ?b))) = Some q"
      "0 < q" "free_entry (\<lambda>w. index_entry w = 0) (index_table_expn mem) m = Some cnt"
      "if cnt = 0 then \<forall>x. n < x \<longrightarrow> x < n + m \<longrightarrow> ?used x
       else slot_for n m ?used ic ?b (add16 cnt n) q \<and> add16 cnt n \<noteq> q"
      by blast
    show ?thesis
    proof (cases "cnt = 0")
      case True
      then have "generate_index_rule c clnt = Some (0, q)" unfolding gen q(1) q(3) using \<open>?used ?b\<close> q(2) by simp
      moreover have "\<forall>x. n < x \<longrightarrow> x < n + m \<longrightarrow> ?used x" using q(4) True by (simp only: if_True refl)
      ultimately show ?thesis by (metis (no_types, lifting))
    next
      case False
      with q(4) have s: "slot_for n m ?used ic ?b (add16 cnt n) q" "add16 cnt n \<noteq> q" by simp_all
      then have "generate_index_rule c clnt = Some (add16 cnt n, q)"
        unfolding gen q(1) q(3) using \<open>?used ?b\<close> q(2) False by simp
      moreover have "add16 cnt n \<noteq> 0" using s(1) \<open>?used ?b\<close> by (simp only: slot_for_def if_True simp_thms) linarith
      ultimately show ?thesis using s(1) by (intro exI [of _ "add16 cnt n"] exI [of _ q]) (simp only: if_False simp_thms)
    qed
  qed
qed

text \<open>Whether a table is allocated, from the history of system calls.\<close>

definition table_allocated :: "nat_io list \<Rightarrow> bool" where
  "table_allocated log =
     fold (\<lambda>op b. case op of IoAllocMem _ \<Rightarrow> True | IoDelete _ \<Rightarrow> False | _ \<Rightarrow> b) log False"

lemma table_allocated_snoc:
  "table_allocated (log @ [op]) = (case op of IoAllocMem _ \<Rightarrow> True | IoDelete _ \<Rightarrow> False | _ \<Rightarrow> table_allocated log)"
  by (cases op) (simp_all add: table_allocated_def)

lemma table_allocated_append:
  "table_allocated (log @ ops) =
     fold (\<lambda>op b. case op of IoAllocMem _ \<Rightarrow> True | IoDelete _ \<Rightarrow> False | _ \<Rightarrow> b) ops (table_allocated log)"
  by (simp add: table_allocated_def)

text \<open>The commands are the changes of \<open>add_mem\<close>.\<close>

lemma ioctl_dma_works:
  "dma_works k \<Longrightarrow> t_mem (ip4_tbl c) = Some mem \<Longrightarrow>
   ioctl_dma k cmds c = Some (0, set_mem (fold dma_write cmds mem) (c\<lparr>io_log := io_log c @ [IoDma cmds]\<rparr>))"
  by (simp add: ioctl_dma_def syscall_def dma_works_def)

lemma set_mem_simps [simp]:
  "t_mem (ip4_tbl (set_mem mem c)) = Some mem" "pdns (set_mem mem c) = pdns c" "ver_v4_0 (set_mem mem c) = ver_v4_0 c"
  "table_entries (ip4_tbl (set_mem mem c)) = table_entries (ip4_tbl c)"
  "expn_table_entries (ip4_tbl (set_mem mem c)) = expn_table_entries (ip4_tbl c)"
  "tbl_addr_offset (ip4_tbl (set_mem mem c)) = tbl_addr_offset (ip4_tbl c)"
  "t_valid (ip4_tbl (set_mem mem c)) = t_valid (ip4_tbl c)"
  "index_expn_table_meta (ip4_tbl (set_mem mem c)) = index_expn_table_meta (ip4_tbl c)"
  "rule_id_array (ip4_tbl (set_mem mem c)) = rule_id_array (ip4_tbl c)"
  by (simp_all add: set_mem_def)

text \<open>
  Two states with the same tables: everything but the memory and the log of system calls agrees, and
  the memory of the second is the given one.
\<close>

definition same_but_mem :: "ipa_nat_cache \<Rightarrow> nat_mem \<Rightarrow> ipa_nat_cache \<Rightarrow> bool" where
  "same_but_mem c mem c' \<longleftrightarrow>
     ip4_tbl c' = (ip4_tbl c)\<lparr>t_mem := Some mem\<rparr> \<and> pdns c' = pdns c \<and> ver_v4_0 c' = ver_v4_0 c \<and>
     table_cnt c' = table_cnt c \<and> ipa_fd c' = ipa_fd c \<and> table_allocated (io_log c') = table_allocated (io_log c)"

lemma same_but_mem_trans:
  "same_but_mem c mem c' \<Longrightarrow> same_but_mem c' mem' c'' \<Longrightarrow> same_but_mem c mem' c''"
  by (simp add: same_but_mem_def)

lemma same_but_mem_dma:
  "dma_works k \<Longrightarrow> t_mem (ip4_tbl c) = Some mem \<Longrightarrow>
   \<exists>c'. ioctl_dma k cmds c = Some (0, c') \<and> same_but_mem c (fold dma_write cmds mem) c'"
  by (auto simp: ioctl_dma_works same_but_mem_def set_mem_def table_allocated_snoc)

lemma copy_rule_spec:
  assumes k: "dma_works k" and mem: "t_mem (ip4_tbl c) = Some mem" "tbl_addr_offset (ip4_tbl c) = 0"
    and n: "table_entries (ip4_tbl c) = n" and g: "geom n m mem" and x: "x < n + m" and p: "unat (s_prev_index sw) = p"
    and mem1: "mem1 = put_rule n x (rule_to_hw sw) mem"
  shows "\<exists>c'. copy_ipv4_rule_to_hw k sw x c = Some c' \<and>
    same_but_mem c (if p = 0 then mem1 else put_rule n p (set_next x (rule_at n mem1 p)) mem1) c'"
proof -
  have "copy_ipv4_rule_to_hw k sw x c =
    (if p = 0 then Some (set_mem mem1 c)
     else map_option snd (ioctl_dma k [rule_cmd n p 4 x] (set_mem mem1 c)))"
    using mem g x unfolding copy_ipv4_rule_to_hw_def write_next_index_def
    by (auto simp: Let_def store_def put_rule_def geom_def rule_cmd_def get_entry_offset_def n mem1 p)
  then show ?thesis
  proof (cases "p = 0")
    case True
    with \<open>copy_ipv4_rule_to_hw k sw x c = _\<close> show ?thesis by (auto simp: same_but_mem_def set_mem_def)
  next
    case False
    from same_but_mem_dma [OF k, of "set_mem mem1 c" mem1 "[rule_cmd n p 4 x]"] obtain c' where
      "ioctl_dma k [rule_cmd n p 4 x] (set_mem mem1 c) = Some (0, c')"
      "same_but_mem (set_mem mem1 c) (put_rule n p (set_next x (rule_at n mem1 p)) mem1) c'"
      by (auto simp: dma_fields)
    with False \<open>copy_ipv4_rule_to_hw k sw x c = _\<close> show ?thesis
      by (auto simp: same_but_mem_def set_mem_def)
  qed
qed

lemma copy_index_spec:
  assumes k: "dma_works k" and mem: "t_mem (ip4_tbl c) = Some mem" "tbl_addr_offset (ip4_tbl c) = 0"
    and n: "table_entries (ip4_tbl c) = n" and g: "geom n m mem" and sz: "sizes_ok n m"
    and i: "i < n + m" "q < n + m" and mem1: "mem1 = put_idx n i (mk32 0 (of_nat x)) mem"
  shows "\<exists>c'. copy_ipv4_index_rule_to_hw k x q i c = Some c' \<and>
    same_but_mem c (if q = 0 then mem1 else put_idx n q (set_half True (of_nat i) (idx_at n mem1 q)) mem1) c'"
proof -
  have off: "(q * 4 mod 65536 + 2) mod 65536 = q * 4 + 2" if "q < n"
    using that sizes_bounds [OF sz] by simp
  have off2: "((q - n) * 4 mod 65536 + 2) mod 65536 = (q - n) * 4 + 2" if "n \<le> q"
  proof -
    have "q - n < 16384" using that sizes_bounds [OF sz] i(2) by linarith
    then show ?thesis by simp
  qed
  have "copy_ipv4_index_rule_to_hw k x q i c =
    (if q = 0 then Some (set_mem mem1 c)
     else map_option snd (ioctl_dma k [idx_cmd n q True i] (set_mem mem1 c)))"
    using mem g i off off2 unfolding copy_ipv4_index_rule_to_hw_def write_next_index_def
    by (auto simp: Let_def store_def put_idx_def geom_def idx_cmd_def get_index_entry_offset_def n mem1)
  then show ?thesis
  proof (cases "q = 0")
    case True
    with \<open>copy_ipv4_index_rule_to_hw k x q i c = _\<close> show ?thesis by (auto simp: same_but_mem_def set_mem_def)
  next
    case False
    from same_but_mem_dma [OF k, of "set_mem mem1 c" mem1 "[idx_cmd n q True i]"] obtain c' where
      "ioctl_dma k [idx_cmd n q True i] (set_mem mem1 c) = Some (0, c')"
      "same_but_mem (set_mem mem1 c) (put_idx n q (set_half True (of_nat i) (idx_at n mem1 q)) mem1) c'"
      by (auto simp: dma_idx_cmd)
    with False \<open>copy_ipv4_index_rule_to_hw k x q i c = _\<close> show ?thesis
      by (auto simp: same_but_mem_def set_mem_def)
  qed
qed

lemma post_dma_spec:
  assumes k: "dma_works k" and mem: "t_mem (ip4_tbl c) = Some mem" "tbl_addr_offset (ip4_tbl c) = 0"
    and n: "table_entries (ip4_tbl c) = n"
  shows "\<exists>c'. post_ipv4_dma_cmd k x c = Some (0, c') \<and>
    same_but_mem c (put_rule n x (set_flags 0x8000 (rule_at n mem x)) mem) c'"
proof -
  from same_but_mem_dma [OF k mem(1), of "[rule_cmd n x 9 0x8000]"] obtain c' where
    "ioctl_dma k [rule_cmd n x 9 0x8000] c = Some (0, c')"
    "same_but_mem c (put_rule n x (set_flags 0x8000 (rule_at n mem x)) mem) c'"
    by (auto simp: dma_fields)
  then show ?thesis
    using mem(2) by (auto simp: post_ipv4_dma_cmd_def rule_cmd_def n Let_def split: if_splits)
qed

section \<open>The rules behind the handles\<close>

definition rules_of :: "nat \<Rightarrow> nat_mem \<Rightarrow> nat list \<Rightarrow> nat \<rightharpoonup> ipa_nat_ipv4_rule" where
  "rules_of n mem ids h =
     (if 0 < h \<and> h < length ids \<and> ids ! (h - 1) \<noteq> 0
      then Some (client_of (rule_at n mem (id_entry n (ids ! (h - 1))))) else None)"

text \<open>There is a slot for the handle of a new rule.\<close>

lemma free_id:
  assumes ids: "ids_ok n m mem ids" and x: "x < n + m" "x \<noteq> 0" "\<not> live (rule_at n mem x)" "\<not> live (rule_at n mem 0)"
  shows "\<exists>j. Suc j < n + m \<and> ids ! j = 0"
proof (rule ccontr)
  assume "\<not> ?thesis"
  then have "\<forall>j. Suc j < n + m \<longrightarrow> ids ! j \<noteq> 0" by simp
  then have nz: "\<And>j. Suc j < n + m \<Longrightarrow> ids ! j \<noteq> 0" by simp
  note d = ids_okD [OF ids]
  let ?f = "\<lambda>j. id_entry n (ids ! j)"
  have f: "ids ! j = rule_id n (?f j)" "?f j < n + m" "live (rule_at n mem (?f j))" if "Suc j < n + m" for j
  proof -
    have "\<exists>y < n + m. ids ! j = rule_id n y \<and> live (rule_at n mem y)" using d(3) [of j] nz [OF that] that by simp
    then obtain y where "y < n + m" "ids ! j = rule_id n y" "live (rule_at n mem y)" by blast
    then show "ids ! j = rule_id n (?f j)" "?f j < n + m" "live (rule_at n mem (?f j))" by simp_all
  qed
  have "inj_on ?f {..<n + m - 1}"
  proof (rule inj_onI)
    fix j j' assume "j \<in> {..<n + m - 1}" "j' \<in> {..<n + m - 1}" "?f j = ?f j'"
    then have jj: "Suc j < n + m" "Suc j' < n + m" by auto
    then have "ids ! j = ids ! j'" using f(1) \<open>?f j = ?f j'\<close> by metis
    with d(4) jj nz show "j = j'" by simp
  qed
  moreover have "?f ` {..<n + m - 1} \<subseteq> {..<n + m} - {0, x}"
  proof
    fix y assume "y \<in> ?f ` {..<n + m - 1}"
    then obtain j where "y = ?f j" "Suc j < n + m" by auto
    moreover from this have "y \<noteq> 0" "y \<noteq> x" using f(3) [of j] x(3,4) by metis+
    ultimately show "y \<in> {..<n + m} - {0, x}" using f(2) [of j] by simp
  qed
  ultimately have "card {..<n + m - 1} \<le> card ({..<n + m} - {0, x})"
    by (intro card_inj_on_le) auto
  also have "\<dots> = n + m - 2" using x by (subst card_Diff_subset) auto
  finally show False using x by simp
qed

lemma make_rule_hdl_spec:
  assumes ids: "rule_id_array (ip4_tbl c) = Some ids" "length ids = table_entries (ip4_tbl c) + expn_table_entries (ip4_tbl c)"
    and sz: "sizes_ok (table_entries (ip4_tbl c)) (expn_table_entries (ip4_tbl c))"
    and x: "x < table_entries (ip4_tbl c) + expn_table_entries (ip4_tbl c)"
    and free: "\<exists>j. Suc j < table_entries (ip4_tbl c) + expn_table_entries (ip4_tbl c) \<and> ids ! j = 0"
  shows "\<exists>j a b. Suc j < table_entries (ip4_tbl c) + expn_table_entries (ip4_tbl c) \<and> ids ! j = 0 \<and>
    make_rule_hdl x c = Some (Suc j, c\<lparr>ip4_tbl := (ip4_tbl c)\<lparr>cur_tbl_cnt := a, cur_expn_tbl_cnt := b,
      rule_id_array := Some (ids[j := rule_id (table_entries (ip4_tbl c)) x])\<rparr>\<rparr>)"
proof -
  let ?n = "table_entries (ip4_tbl c)" and ?m = "expn_table_entries (ip4_tbl c)"
  let ?j = "first_index (\<lambda>x. x = 0) ids"
  from free obtain j where j: "Suc j < ?n + ?m" "ids ! j = 0" by blast
  have le: "?j \<le> j"
  proof (rule ccontr)
    assume "\<not> ?j \<le> j"
    then show False using first_index_before [of j "\<lambda>x. x = 0" ids] j ids(2) by simp
  qed
  then have "ids ! ?j = 0" using first_index_holds [of "\<lambda>x. x = 0" ids] j ids(2) by simp
  have small: "?n + ?m \<le> 32768" using sizes_bounds [OF sz] by simp
  have hdl: "(if ?n \<le> x then (x - ?n) * 2 mod 65536 + 1 else x * 2 mod 65536) = rule_id ?n x"
  proof -
    have "x - ?n < 16384" using sizes_bounds [OF sz] x by linarith
    moreover have "\<not> ?n \<le> x \<Longrightarrow> x < 16384" using sizes_bounds [OF sz] by linarith
    ultimately show ?thesis by (auto simp: rule_id_def)
  qed
  have a: "add16 ?j 1 = Suc ?j" using le j small by (simp add: add16_def)
  define t where "t = ip4_tbl c"
  have "make_rule_hdl x c =
    (let t1 = (if ?n \<le> x then t\<lparr>cur_expn_tbl_cnt := add16 (cur_expn_tbl_cnt t) 1\<rparr>
               else t\<lparr>cur_tbl_cnt := add16 (cur_tbl_cnt t) 1\<rparr>)
     in Some (Suc ?j, c\<lparr>ip4_tbl := t1\<lparr>rule_id_array := Some (ids[?j := rule_id ?n x])\<rparr>\<rparr>))"
    using ids le j a hdl unfolding make_rule_hdl_def t_def [symmetric] Let_def
    by (auto simp: t_def)
  then show ?thesis
    using le j \<open>ids ! ?j = 0\<close>
    by (intro exI [of _ ?j] exI [of _ "if ?n \<le> x then cur_tbl_cnt t else add16 (cur_tbl_cnt t) 1"]
        exI [of _ "if ?n \<le> x then add16 (cur_expn_tbl_cnt t) 1 else cur_expn_tbl_cnt t"])
      (simp add: t_def Let_def)
qed

lemma rules_add:
  assumes ok: "tables_ok D S n m mem meta ids rc ic"
    and x: "x < n + m" "\<not> rule_enabled (rule_at n mem x)" "x \<noteq> 0" "n \<noteq> 0" and p: "p < n + m" "p \<noteq> x"
    and i: "i < n + m" "q < n + m" "q \<noteq> i" and j: "Suc j < n + m" "ids ! j = 0"
  shows "rules_of n (add_mem n x p i q r mem) (ids[j := rule_id n x]) = (rules_of n mem ids)(Suc j \<mapsto> client_of r)"
proof
  fix h
  note t = tables_okD [OF ok]
  note d = ids_okD [OF t(10)]
  note at = add_mem_at(2) [OF t(1) x(1) p(1) i(1,2) p(2) i(3)]
  show "rules_of n (add_mem n x p i q r mem) (ids[j := rule_id n x]) h = ((rules_of n mem ids)(Suc j \<mapsto> client_of r)) h"
  proof (cases "h = Suc j")
    case True
    then show ?thesis using j d(1) x by (simp add: rules_of_def at rule_id_0)
  next
    case False
    then have e: "0 < h \<Longrightarrow> ids[j := rule_id n x] ! (h - 1) = ids ! (h - 1)" by auto
    show ?thesis
    proof (cases "0 < h \<and> h < n + m \<and> ids ! (h - 1) \<noteq> 0")
      case True
      then have "\<exists>y < n + m. ids ! (h - 1) = rule_id n y \<and> live (rule_at n mem y)"
        by (intro d(3)) auto
      then obtain y where y: "y < n + m" "ids ! (h - 1) = rule_id n y" "live (rule_at n mem y)" by blast
      then have "y \<noteq> x" using x(2) by (auto simp: live_def)
      with True y False e d(1) j show ?thesis
        by (simp add: rules_of_def at rule_id_0)
    next
      case no: False
      with False e d(1) show ?thesis by (cases "h = 0") (auto simp: rules_of_def)
    qed
  qed
qed

text \<open>What every operation on rules leaves as it is.\<close>

definition same_config :: "ipa_nat_cache \<Rightarrow> ipa_nat_cache \<Rightarrow> bool" where
  "same_config c c' \<longleftrightarrow>
     pdns c' = pdns c \<and> ver_v4_0 c' = ver_v4_0 c \<and> table_cnt c' = table_cnt c \<and> ipa_fd c' = ipa_fd c \<and>
     table_allocated (io_log c') = table_allocated (io_log c) \<and> t_valid (ip4_tbl c') = t_valid (ip4_tbl c) \<and> t_public_addr (ip4_tbl c') = t_public_addr (ip4_tbl c) \<and>
     tbl_addr_offset (ip4_tbl c') = tbl_addr_offset (ip4_tbl c) \<and>
     table_entries (ip4_tbl c') = table_entries (ip4_tbl c) \<and>
     expn_table_entries (ip4_tbl c') = expn_table_entries (ip4_tbl c)"

lemma same_config_hashes: "same_config c c' \<Longrightarrow> dst_of c' = dst_of c \<and> src_of c' = src_of c"
  by (auto simp: same_config_def dst_of_def src_of_def)

lemma same_config_refl [simp]: "same_config c c"
  by (simp add: same_config_def)

lemma same_config_trans: "same_config c c' \<Longrightarrow> same_config c' c'' \<Longrightarrow> same_config c c''"
  by (simp add: same_config_def)

definition tables_full :: "nat \<Rightarrow> nat \<Rightarrow> nat_mem \<Rightarrow> bool" where
  "tables_full n m mem \<longleftrightarrow>
     (\<forall>y. n < y \<longrightarrow> y < n + m \<longrightarrow> rule_enabled (rule_at n mem y)) \<or>
     (\<forall>y. n < y \<longrightarrow> y < n + m \<longrightarrow> index_entry (idx_at n mem y) \<noteq> 0)"

lemma generate_rule_spec:
  assumes inv: "nat_inv c mem meta ids rc ic" and pdn: "unat (nr_pdn_index clnt) < length (pdns c)"
  defines "n \<equiv> table_entries (ip4_tbl c)" and "m \<equiv> expn_table_entries (ip4_tbl c)"
    and "ip \<equiv> p_public_ip (pdns c ! unat (nr_pdn_index clnt))"
  shows "generate_rule c clnt = Some (None, c) \<and> tables_full n m mem \<or>
    (\<exists>x p i q meta'. generate_rule c clnt =
        Some (Some (client_to_sw ip clnt\<lparr>s_prev_index := of_nat p, s_indx_tbl_entry := of_nat i\<rparr>, x, i, q),
          c\<lparr>ip4_tbl := (ip4_tbl c)\<lparr>index_expn_table_meta := Some meta'\<rparr>\<rparr>) \<and> x \<noteq> 0 \<and> i \<noteq> 0 \<and>
      slot_for n m (\<lambda>x. rule_enabled (rule_at n mem x)) rc (dst_of c clnt) x p \<and>
      slot_for n m (\<lambda>i. index_entry (idx_at n mem i) \<noteq> 0) ic (src_of c clnt) i q \<and>
      length meta' = m \<and> (\<forall>y. n < y \<longrightarrow> y < n + m \<longrightarrow> meta' ! (y - n) = (if y = i then q else meta ! (y - n))))"
proof -
  note inv' = nat_invD [OF inv, folded n_def m_def]
  note t = tables_okD [OF inv'(8)]
  have ich2: "\<not> index_entry (idx_at n mem 0) \<noteq> 0" using t(5) by simp
  from generate_tbl_rule_spec [OF inv pdn, folded n_def m_def ip_def] obtain x p where
    x: "generate_tbl_rule c clnt = Some (x, client_to_sw ip clnt\<lparr>s_prev_index := of_nat p\<rparr>)"
      "if x = 0 then \<forall>y. n < y \<longrightarrow> y < n + m \<longrightarrow> rule_enabled (rule_at n mem y)
       else slot_for n m (\<lambda>x. rule_enabled (rule_at n mem x)) rc (dst_of c clnt) x p" by blast
  from generate_index_rule_spec [OF inv, of clnt, folded n_def m_def] obtain i q where
    i: "generate_index_rule c clnt = Some (i, q)"
      "if i = 0 then \<forall>y. n < y \<longrightarrow> y < n + m \<longrightarrow> index_entry (idx_at n mem y) \<noteq> 0
       else slot_for n m (\<lambda>i. index_entry (idx_at n mem i) \<noteq> 0) ic (src_of c clnt) i q" by blast
  show ?thesis
  proof (cases "x = 0 \<or> i = 0")
    case True
    then have "generate_rule c clnt = Some (None, c)"
      by (cases "x = 0") (simp_all add: generate_rule_def x(1) i(1))
    moreover have "tables_full n m mem"
      using True x(2) i(2) unfolding tables_full_def by (auto split: if_splits)
    ultimately show ?thesis by blast
  next
    case False
    with x(2) i(2) have sx: "slot_for n m (\<lambda>x. rule_enabled (rule_at n mem x)) rc (dst_of c clnt) x p"
      and si: "slot_for n m (\<lambda>i. index_entry (idx_at n mem i) \<noteq> 0) ic (src_of c clnt) i q" by simp_all
    have in_: "i < n + m" by (rule slot_for_facts(1) [OF t(4) si ich2])
    define meta' where "meta' = (if n \<le> i then meta[i - n := q] else meta)"
    have "sub16 i n = i - n" if "n \<le> i"
      using sub16_expn [OF that] in_ sizes_bounds [OF inv'(6)] by simp
    then have "generate_rule c clnt =
      Some (Some (client_to_sw ip clnt\<lparr>s_prev_index := of_nat p, s_indx_tbl_entry := of_nat i\<rparr>, x, i, q),
        c\<lparr>ip4_tbl := (ip4_tbl c)\<lparr>index_expn_table_meta := Some meta'\<rparr>\<rparr>)"
      using False in_ t(6) inv'(4)
      by (auto simp: generate_rule_def x(1) i(1) meta'_def store_def Let_def n_def [symmetric])
    moreover have "length meta' = m \<and> (\<forall>y. n < y \<longrightarrow> y < n + m \<longrightarrow> meta' ! (y - n) = (if y = i then q else meta ! (y - n)))"
      using t(6) in_ by (auto simp: meta'_def nth_list_update)
    ultimately show ?thesis using False sx si by blast
  qed
qed

text \<open>
  Adding a rule either finds the expansion tables full, and changes nothing, or gives it the first
  free handle.
\<close>

lemma nati_add_spec:
  assumes k: "dma_works k" and inv: "nat_inv c mem meta ids rc ic"
    and pdn: "unat (nr_pdn_index clnt) < length (pdns c)" "p_public_ip (pdns c ! unat (nr_pdn_index clnt)) \<noteq> 0"
    and proto: "nr_protocol clnt \<noteq> 0xFF"
  defines "n \<equiv> table_entries (ip4_tbl c)" and "m \<equiv> expn_table_entries (ip4_tbl c)"
  shows "nati_add_ipv4_rule k clnt c = Some (-22, None, c) \<and> tables_full n m mem \<or>
    (\<exists>j c' mem' meta' ids' rc' ic'. nati_add_ipv4_rule k clnt c = Some (0, Some (Suc j), c') \<and> same_config c c' \<and>
      nat_inv c' mem' meta' ids' rc' ic' \<and> Suc j < n + m \<and> rules_of n mem ids (Suc j) = None \<and>
      rules_of n mem' ids' = (rules_of n mem ids)(Suc j \<mapsto> clnt))"
proof -
  note inv' = nat_invD [OF inv, folded n_def m_def]
  note t = tables_okD [OF inv'(8)]
  let ?ip = "p_public_ip (pdns c ! unat (nr_pdn_index clnt))"
  from generate_rule_spec [OF inv pdn(1), folded n_def m_def] show ?thesis
  proof (elim disjE exE conjE)
    assume "generate_rule c clnt = Some (None, c)" "tables_full n m mem"
    then show ?thesis using pdn by (simp add: nati_add_ipv4_rule_def)
  next
    fix x p i q meta'
    let ?sw = "client_to_sw ?ip clnt\<lparr>s_prev_index := of_nat p, s_indx_tbl_entry := of_nat i\<rparr>"
      and ?c1 = "c\<lparr>ip4_tbl := (ip4_tbl c)\<lparr>index_expn_table_meta := Some meta'\<rparr>\<rparr>"
    assume gen: "generate_rule c clnt = Some (Some (?sw, x, i, q), ?c1)" and nz: "x \<noteq> 0" "i \<noteq> 0"
      and sx: "slot_for n m (\<lambda>x. rule_enabled (rule_at n mem x)) rc (dst_of c clnt) x p"
      and si: "slot_for n m (\<lambda>i. index_entry (idx_at n mem i) \<noteq> 0) ic (src_of c clnt) i q"
      and meta': "length meta' = m" "\<forall>y. n < y \<longrightarrow> y < n + m \<longrightarrow> meta' ! (y - n) = (if y = i then q else meta ! (y - n))"
    have ich2: "\<not> index_entry (idx_at n mem 0) \<noteq> 0" using t(5) by simp
    note fx = slot_for_facts [OF t(2) sx t(3)] and fi = slot_for_facts [OF t(4) si ich2]
    have small: "n + m < 65536" using sizes_bounds [OF inv'(6)] by simp
    let ?r = "rule_to_hw ?sw"
    have swp: "unat (s_prev_index ?sw) = p" using unat_of_nat16 [of p] fx(4) small by simp
    define mem1 where "mem1 = put_rule n x ?r mem"
    define mem2 where "mem2 = (if p = 0 then mem1 else put_rule n p (set_next x (rule_at n mem1 p)) mem1)"
    define mem3 where "mem3 = put_idx n i (mk32 0 (of_nat x)) mem2"
    define mem4 where "mem4 = (if q = 0 then mem3 else put_idx n q (set_half True (of_nat i) (idx_at n mem3 q)) mem3)"
    define mem5 where "mem5 = put_rule n x (set_flags 0x8000 (rule_at n mem4 x)) mem4"
    have add: "mem5 = add_mem n x p i q ?r mem"
      by (simp only: add_mem_def mem1_def mem2_def mem3_def mem4_def mem5_def Let_def)
    have g: "geom n m mem1" "geom n m mem2" using t(1) by (simp_all add: mem1_def mem2_def)
    have "\<exists>c2. copy_ipv4_rule_to_hw k ?sw x ?c1 = Some c2 \<and> same_but_mem ?c1 mem2 c2"
      using inv'(2,3)
      by (intro copy_rule_spec [OF k _ _ _ t(1) fx(1) swp mem1_def, folded mem2_def]) (simp_all add: n_def)
    then obtain c2 where c2: "copy_ipv4_rule_to_hw k ?sw x ?c1 = Some c2" "same_but_mem ?c1 mem2 c2" by blast
    have t2: "ip4_tbl c2 = (ip4_tbl c)\<lparr>index_expn_table_meta := Some meta', t_mem := Some mem2\<rparr>"
      using c2(2) by (simp add: same_but_mem_def)
    have "\<exists>c3. copy_ipv4_index_rule_to_hw k x q i c2 = Some c3 \<and> same_but_mem c2 mem4 c3"
      using inv'(2)
      by (intro copy_index_spec [OF k _ _ _ g(2) inv'(6) fi(1,4) mem3_def, folded mem4_def]) (simp_all add: n_def t2)
    then obtain c3 where c3: "copy_ipv4_index_rule_to_hw k x q i c2 = Some c3" "same_but_mem c2 mem4 c3" by blast
    have t3: "ip4_tbl c3 = (ip4_tbl c)\<lparr>index_expn_table_meta := Some meta', t_mem := Some mem4\<rparr>"
      using c3(2) by (simp add: same_but_mem_def t2)
    have "\<exists>c4. post_ipv4_dma_cmd k x c3 = Some (0, c4) \<and> same_but_mem c3 mem5 c4"
      using inv'(2) unfolding mem5_def by (intro post_dma_spec [OF k]) (simp_all add: n_def t3)
    then obtain c4 where c4: "post_ipv4_dma_cmd k x c3 = Some (0, c4)" "same_but_mem c3 mem5 c4" by blast
    have t4: "ip4_tbl c4 = (ip4_tbl c)\<lparr>index_expn_table_meta := Some meta', t_mem := Some mem5\<rparr>"
      using c4(2) by (simp add: same_but_mem_def t3)
    have nl: "\<not> live (rule_at n mem x)" "\<not> live (rule_at n mem 0)" using fx(2) t(3) by (simp_all add: live_def)
    have "\<exists>j a b. Suc j < n + m \<and> ids ! j = 0 \<and>
      make_rule_hdl x c4 = Some (Suc j, c4\<lparr>ip4_tbl := (ip4_tbl c4)\<lparr>cur_tbl_cnt := a, cur_expn_tbl_cnt := b,
        rule_id_array := Some (ids[j := rule_id n x])\<rparr>\<rparr>)"
      using make_rule_hdl_spec [of c4 ids x] inv'(5,6) ids_okD(1) [OF t(10)] fx(1)
        free_id [OF t(10) fx(1) nz(1) nl] unfolding t4
      by (simp add: n_def m_def)
    then obtain j a b where j: "Suc j < n + m" "ids ! j = 0" and
      hdl: "make_rule_hdl x c4 = Some (Suc j, c4\<lparr>ip4_tbl := (ip4_tbl c4)\<lparr>cur_tbl_cnt := a, cur_expn_tbl_cnt := b,
        rule_id_array := Some (ids[j := rule_id n x])\<rparr>\<rparr>)" by blast
    define c5 where "c5 = c4\<lparr>ip4_tbl := (ip4_tbl c4)\<lparr>cur_tbl_cnt := a, cur_expn_tbl_cnt := b,
        rule_id_array := Some (ids[j := rule_id n x])\<rparr>\<rparr>"
    have same: "same_config c c5"
      using c2(2) c3(2) c4(2) unfolding same_config_def c5_def by (simp add: t4 same_but_mem_def)
    have run: "nati_add_ipv4_rule k clnt c = Some (0, Some (Suc j), c5)"
      using pdn by (simp add: nati_add_ipv4_rule_def gen c2(1) c3(1) c4(1) hdl c5_def)
    have pd: "unat (nr_pdn_index clnt) < 16" using pdn(1) inv'(7) by simp
    note fn = fields_new [OF pd, where ip = ?ip and p = "of_nat p" and i = "of_nat i"]
    have cl: "client_of ?r = clnt" using fn(4) .
    have r: "rule_next ?r = 0" "rule_prev ?r = p" "rule_indx ?r = i" "proto_of ?r \<noteq> 0xFF"
    proof -
      show "rule_next ?r = 0" using fn(1) .
      show "rule_prev ?r = p" using fn(2) unat_of_nat16 [of p] fx(4) small by simp
      show "rule_indx ?r = i" using fn(3) unat_of_nat16 [of i] fi(1) small by simp
      have "nr_protocol (client_of ?r) = proto_of ?r" by (simp add: client_of_def)
      then show "proto_of ?r \<noteq> 0xFF" using cl proto by simp
    qed
    have "tables_ok (dst_of c) (src_of c) n m mem5 meta' (ids[j := rule_id n x])
      (extend rc (dst_of c clnt) x p) (extend ic (src_of c clnt) i q)"
      using tables_add [OF inv'(8) small _ _ r nz j meta'(1), unfolded cl, OF sx si] meta'(2) unfolding add by blast
    then have "nat_inv c5 mem5 meta' (ids[j := rule_id n x]) (extend rc (dst_of c clnt) x p) (extend ic (src_of c clnt) i q)"
      using inv' same_config_hashes [OF same] same
      by (simp add: nat_inv_def Let_def c5_def t4 n_def m_def same_config_def)
    moreover have "rules_of n mem5 (ids[j := rule_id n x]) = (rules_of n mem ids)(Suc j \<mapsto> clnt)"
    proof -
      have "n \<noteq> 0" using sizes_bounds [OF inv'(6)] by simp
      from rules_add [OF inv'(8) fx(1,2) nz(1) this fx(4,3) fi(1,4,3) j, of ?r] show ?thesis unfolding add cl .
    qed
    moreover have "rules_of n mem ids (Suc j) = None" using j(2) by (simp add: rules_of_def)
    ultimately show ?thesis using run same j(1) by blast
  qed
qed

end
