(* ===== verification/IpaNatDelete.thy ===== *)
theory IpaNatDelete
  imports IpaNatAdd
begin

text \<open>
  Deleting a rule: what the DMA commands and the clean-up after them do to the entries in each of the
  four positions of a rule and of its index entry, and that \<open>nati_del_ipv4_rule\<close> keeps the invariant
  of the tables and removes just the rule of the handle.
\<close>

section \<open>Deleting from the tables\<close>

text \<open>
  What deleting the rule at \<open>x\<close> does to the rules, that at \<open>i\<close> to the index entries and to the
  predecessors in \<open>meta\<close>: an entry of the expansion table leaves its chain, an entry of the base
  table without successor is reset. A rule of the base table with a successor gets an invalid protocol;
  an index entry gets the contents of its successor, and the rule of that is told.
\<close>

definition del_rule :: "nat \<Rightarrow> nat \<Rightarrow> (nat \<Rightarrow> ipa_nat_rule) \<Rightarrow> nat \<Rightarrow> ipa_nat_rule" where
  "del_rule n x R =
     (let p = rule_prev (R x); s = rule_next (R x) in
      if n \<le> x
      then \<lambda>y. if y = x then zero_hw_rule else if y = p then set_next s (R y)
               else if s \<noteq> 0 \<and> y = s then UpdateSwSpecParams False (of_nat p) (R y) else R y
      else if s = 0 then R(x := zero_hw_rule) else R(x := set_proto 0xFF00 (R x)))"

definition del_indx :: "nat \<Rightarrow> nat \<Rightarrow> nat list \<Rightarrow> (nat \<Rightarrow> u32) \<Rightarrow> nat \<Rightarrow> u32" where
  "del_indx n i meta I =
     (let q = meta ! (i - n); s = index_next (I i) in
      if n \<le> i then \<lambda>j. if j = i then 0 else if j = q then set_half True (of_nat s) (I j) else I j
      else if s = 0 then I(i := 0) else I(i := I s, s := 0))"

definition del_meta :: "nat \<Rightarrow> nat \<Rightarrow> nat list \<Rightarrow> (nat \<Rightarrow> u32) \<Rightarrow> nat list" where
  "del_meta n i meta I =
     (let q = meta ! (i - n); s = index_next (I i) in
      if n \<le> i then (if s = 0 then meta else meta[s - n := q, i - n := 0])
      else if s = 0 \<or> index_next (I s) = 0 then meta else meta[index_next (I s) - n := i])"

definition moved :: "nat \<Rightarrow> nat \<Rightarrow> (nat \<Rightarrow> u32) \<Rightarrow> (nat \<Rightarrow> ipa_nat_rule) \<Rightarrow> nat \<Rightarrow> ipa_nat_rule" where
  "moved n i I R =
     (\<lambda>y. if \<not> n \<le> i \<and> index_next (I i) \<noteq> 0 \<and> y = index_entry (I (index_next (I i)))
          then UpdateSwSpecParams True (of_nat i) (R y) else R y)"

definition reaped :: "nat \<Rightarrow> (nat \<Rightarrow> ipa_nat_rule) \<Rightarrow> nat \<Rightarrow> ipa_nat_rule" where
  "reaped n R = (\<lambda>y. if y < n \<and> proto_of (R y) = 0xFF \<and> rule_next (R y) = 0 then zero_hw_rule else R y)"

lemma backs_mid: "backs prv a (us @ x # vs) \<Longrightarrow> prv x = last (a # us)"
  by (induction us arbitrary: a) auto

lemma links_mid: "links nxt a (us @ x # vs) \<Longrightarrow> nxt x = (if vs = [] then 0 else hd vs)"
  by (induction us arbitrary: a) (cases vs; simp)+

text \<open>An entry in the expansion table, with its neighbours.\<close>

lemma chained_at:
  assumes "chained n m used nxt prv ch" and "n \<le> x" and "x < n + m" and "used x"
  obtains b us vs where "b < n" "ch b = us @ x # vs" "prv x = last (b # us)"
    "nxt x = (if vs = [] then 0 else hd vs)" "distinct (b # us @ x # vs)" "n < x"
proof -
  from chained_covers [OF assms] obtain b where b: "b < n" "x \<in> set (ch b)" by blast
  from split_list [OF b(2)] obtain us vs where s: "ch b = us @ x # vs" by blast
  note p = chained_path [OF assms(1) b(1), unfolded s]
  show thesis
  proof (rule that [OF b(1) s])
    show "prv x = last (b # us)" "nxt x = (if vs = [] then 0 else hd vs)" "distinct (b # us @ x # vs)"
      using p backs_mid links_mid by blast+
    show "n < x" using chained_bounds [OF assms(1) b] by simp
  qed
qed

lemma chained_base_empty: "chained n m used nxt prv ch \<Longrightarrow> b < n \<Longrightarrow> nxt b = 0 \<Longrightarrow> ch b = []"
  using chained_path [of n m used nxt prv ch b] chained_bounds [of n m used nxt prv ch b "hd (ch b)"]
  by (cases "ch b") auto

lemma hd_neq_last: "distinct (b # us @ x # vs) \<Longrightarrow> vs \<noteq> [] \<Longrightarrow> hd vs \<noteq> last (b # us)"
proof -
  assume d: "distinct (b # us @ x # vs)" "vs \<noteq> []"
  then have "hd vs \<in> set vs" by simp
  moreover have "last (b # us) \<in> set (b # us)" by (rule last_in_set) simp
  ultimately show ?thesis using d(1) by fastforce
qed

lemma del_rule_chained:
  assumes ch: "chained n m (\<lambda>x. rule_enabled (R x)) (\<lambda>x. rule_next (R x)) (\<lambda>x. rule_prev (R x)) rc"
    and x: "x < n + m" "rule_enabled (R x)"
  shows "\<exists>rc'. chained n m (\<lambda>y. rule_enabled (del_rule n x R y)) (\<lambda>y. rule_next (del_rule n x R y))
      (\<lambda>y. rule_prev (del_rule n x R y)) rc' \<and> (\<forall>b < n. set (rc' b) \<subseteq> set (rc b))"
proof (cases "n \<le> x")
  case True
  from chained_at [OF ch True x] obtain b us vs where b: "b < n" "rc b = us @ x # vs"
    "rule_prev (R x) = last (b # us)" "rule_next (R x) = (if vs = [] then 0 else hd vs)"
    "distinct (b # us @ x # vs)" "n < x" by blast
  note ne = hd_neq_last [OF b(5)]
  have "vs \<noteq> [] \<Longrightarrow> hd vs \<in> set (rc b)" using b(2) by simp
  then have s: "vs \<noteq> [] \<Longrightarrow> hd vs \<noteq> 0" using chained_bounds [OF ch b(1)] by force
  have bp: "last (b # us) < 65536" using field_bounds(2) [of "R x"] b(3) by simp
  have bs: "vs \<noteq> [] \<Longrightarrow> hd vs < 65536" using field_bounds(1) [of "R x"] b(4) by simp
  have "chained n m (\<lambda>y. rule_enabled (del_rule n x R y)) (\<lambda>y. rule_next (del_rule n x R y))
      (\<lambda>y. rule_prev (del_rule n x R y)) (rc(b := us @ vs))"
    by (rule chained_unlink [OF ch b(1,2)])
      (use b(3,4) ne s bp bs True in \<open>auto simp: del_rule_def Let_def\<close>)
  moreover have "\<forall>b' < n. set ((rc(b := us @ vs)) b') \<subseteq> set (rc b')" using b(2) by auto
  ultimately show ?thesis by blast
next
  case False
  show ?thesis
  proof (cases "rule_next (R x) = 0")
    case True
    have "chained n m (\<lambda>y. rule_enabled (del_rule n x R y)) (\<lambda>y. rule_next (del_rule n x R y))
      (\<lambda>y. rule_prev (del_rule n x R y)) rc"
      by (rule chained_base [OF ch _ chained_base_empty [OF ch]])
        (use False True in \<open>auto simp: del_rule_def Let_def\<close>)
    then show ?thesis by blast
  next
    case s: False
    have "chained n m (\<lambda>y. rule_enabled (del_rule n x R y)) (\<lambda>y. rule_next (del_rule n x R y))
      (\<lambda>y. rule_prev (del_rule n x R y)) rc"
      by (rule chained_cong [OF ch]) (use False s in \<open>auto simp: del_rule_def Let_def\<close>)
    then show ?thesis by blast
  qed
qed

lemma del_indx_chained:
  assumes ch: "chained n m (\<lambda>i. index_entry (I i) \<noteq> 0) (\<lambda>i. index_next (I i)) (\<lambda>i. meta ! (i - n)) ic"
    and i: "i < n + m" "index_entry (I i) \<noteq> 0" and len: "length meta = m"
  shows "\<exists>ic'. chained n m (\<lambda>j. index_entry (del_indx n i meta I j) \<noteq> 0) (\<lambda>j. index_next (del_indx n i meta I j))
      (\<lambda>j. del_meta n i meta I ! (j - n)) ic' \<and> (\<forall>b < n. set (ic' b) \<subseteq> set (ic b))"
proof (cases "n \<le> i")
  case True
  from chained_at [OF ch True i] obtain b us vs where b: "b < n" "ic b = us @ i # vs"
    "meta ! (i - n) = last (b # us)" "index_next (I i) = (if vs = [] then 0 else hd vs)"
    "distinct (b # us @ i # vs)" "n < i" by blast
  have "vs \<noteq> [] \<Longrightarrow> hd vs \<in> set (ic b)" using b(2) by simp
  then have s: "vs \<noteq> [] \<Longrightarrow> n < hd vs \<and> hd vs < n + m" using chained_bounds [OF ch b(1)] by metis
  have "chained n m (\<lambda>j. index_entry (del_indx n i meta I j) \<noteq> 0) (\<lambda>j. index_next (del_indx n i meta I j))
      (\<lambda>j. del_meta n i meta I ! (j - n)) (ic(b := us @ vs))"
  proof (rule chained_unlink [OF ch b(1,2)])
    show "del_meta n i meta I ! (y - n) = (if vs \<noteq> [] \<and> y = hd vs then last (b # us) else meta ! (y - n))"
      if "n < y" "y < n + m" "y \<noteq> i" for y
    proof -
      have "y - n \<noteq> i - n" using that True by linarith
      moreover have "y - n = hd vs - n \<longleftrightarrow> y = hd vs" if "vs \<noteq> []" using s [OF that] \<open>n < y\<close> by linarith
      ultimately show ?thesis
        using b(3,4) s True len that by (auto simp: del_meta_def Let_def nth_list_update)
    qed
    show "index_next (del_indx n i meta I y) = (if y = last (b # us) then index_next (I i) else index_next (I y))"
      if "y \<noteq> i" for y using that b(3) True by (auto simp: del_indx_def Let_def)
    show "(index_entry (del_indx n i meta I y) \<noteq> 0) = (y \<noteq> i \<and> index_entry (I y) \<noteq> 0)" for y
      using True by (auto simp: del_indx_def Let_def)
  qed
  moreover have "\<forall>b' < n. set ((ic(b := us @ vs)) b') \<subseteq> set (ic b')" using b(2) by auto
  ultimately show ?thesis by blast
next
  case False
  show ?thesis
  proof (cases "index_next (I i) = 0")
    case True
    have "chained n m (\<lambda>j. index_entry (del_indx n i meta I j) \<noteq> 0) (\<lambda>j. index_next (del_indx n i meta I j))
      (\<lambda>j. del_meta n i meta I ! (j - n)) ic"
      by (rule chained_base [OF ch _ chained_base_empty [OF ch]])
        (use False True in \<open>auto simp: del_indx_def del_meta_def Let_def\<close>)
    then show ?thesis by blast
  next
    case s: False
    note p = chained_path [OF ch, of i]
    from p False s obtain vs where vs: "ic i = index_next (I i) # vs" by (cases "ic i") auto
    have "index_next (I i) \<in> set (ic i)" using vs by simp
    then have sb: "n < index_next (I i)" "index_next (I i) < n + m" "index_entry (I (index_next (I i))) \<noteq> 0"
      using chained_bounds [OF ch, of i] False by auto
    have l: "links (\<lambda>i. index_next (I i)) (index_next (I i)) vs" using p vs False by simp
    then have hd: "index_next (I (index_next (I i))) = (if vs = [] then 0 else hd vs)" by (cases vs) auto
    have hb: "n < hd vs" "hd vs < n + m" if "vs \<noteq> []"
      using chained_bounds [OF ch, of i "hd vs"] that vs False by auto
    have "chained n m (\<lambda>j. index_entry (del_indx n i meta I j) \<noteq> 0) (\<lambda>j. index_next (del_indx n i meta I j))
      (\<lambda>j. del_meta n i meta I ! (j - n)) (ic(i := [] @ vs))"
    proof (rule chained_unlink [OF ch])
      show "ic i = [] @ index_next (I i) # vs" using vs by simp
      show "del_meta n i meta I ! (y - n) = (if vs \<noteq> [] \<and> y = hd vs then last [i] else meta ! (y - n))"
        if "n < y" "y < n + m" for y
      proof -
        have "y - n = hd vs - n \<longleftrightarrow> y = hd vs" if "vs \<noteq> []" using hb [OF that] \<open>n < y\<close> by linarith
        then show ?thesis
          using False s hd hb len that by (auto simp: del_meta_def Let_def nth_list_update)
      qed
    qed (use False s sb i in \<open>auto simp: del_indx_def Let_def\<close>)
    moreover have "\<forall>b' < n. set ((ic(i := [] @ vs)) b') \<subseteq> set (ic b')" using vs by auto
    ultimately show ?thesis by blast
  qed
qed

lemma live_facts:
  "live r \<Longrightarrow> rule_enabled r" "live r \<Longrightarrow> proto_of r \<noteq> 0xFF"
  by (simp_all add: live_def)

lemma zero_not_live [simp]: "\<not> live zero_hw_rule"
  by (simp add: live_def)

text \<open>The fields of the rules that stay.\<close>

lemma del_rule_fields:
  assumes "y \<noteq> x"
  shows "rule_enabled (del_rule n x R y) = rule_enabled (R y)" "proto_of (del_rule n x R y) = proto_of (R y)"
    "client_of (del_rule n x R y) = client_of (R y)" "rule_indx (del_rule n x R y) = rule_indx (R y)"
    "live (del_rule n x R y) = live (R y)"
proof -
  have p: "rule_prev (R x) < 65536" by simp
  show "rule_enabled (del_rule n x R y) = rule_enabled (R y)" "proto_of (del_rule n x R y) = proto_of (R y)"
    "client_of (del_rule n x R y) = client_of (R y)" "rule_indx (del_rule n x R y) = rule_indx (R y)"
    "live (del_rule n x R y) = live (R y)"
    using assms by (auto simp: del_rule_def Let_def live_def)
qed

lemma del_rule_self:
  "\<not> live (del_rule n x R x)"
  "proto_of (del_rule n x R x) = 0xFF \<Longrightarrow> x < n"
  "rule_enabled (R x) \<Longrightarrow> proto_of (del_rule n x R x) = 0xFF \<Longrightarrow> rule_enabled (del_rule n x R x)"
  by (auto simp: del_rule_def Let_def live_def split: if_splits)

lemma moved_fields:
  assumes "i < 65536"
  shows "rule_enabled (moved n i I R y) = rule_enabled (R y)" "proto_of (moved n i I R y) = proto_of (R y)"
    "client_of (moved n i I R y) = client_of (R y)" "live (moved n i I R y) = live (R y)"
    "rule_next (moved n i I R y) = rule_next (R y)" "rule_prev (moved n i I R y) = rule_prev (R y)"
  using assms by (auto simp: moved_def live_def)

lemma reaped_fields:
  shows "rule_enabled (reaped n R y) \<Longrightarrow> rule_enabled (R y)" "live (reaped n R y) = live (R y)"
    "live (R y) \<Longrightarrow> reaped n R y = R y"
    "proto_of (reaped n R y) = 0xFF \<Longrightarrow> reaped n R y = R y \<and> (y < n \<longrightarrow> rule_next (R y) \<noteq> 0)"
  by (auto simp: reaped_def live_def split: if_splits)

text \<open>Entries of the base table without successor can be reset.\<close>

lemma chained_reset:
  assumes "chained n m used nxt prv ch"
    and "\<And>x. x < n + m \<Longrightarrow> used' x = (used x \<and> \<not> (x < n \<and> gone x))"
    and "\<And>x. x < n + m \<Longrightarrow> nxt' x = nxt x"
    and "\<And>x. n < x \<Longrightarrow> x < n + m \<Longrightarrow> prv' x = prv x"
    and "\<And>x. x < n \<Longrightarrow> gone x \<Longrightarrow> nxt x = 0"
  shows "chained n m used' nxt' prv' ch"
proof -
  have "links nxt' b (ch b) \<and> backs prv' b (ch b) \<and> distinct (ch b) \<and> (used' b \<or> ch b = [])" if b: "b < n" for b
  proof -
    note p = chained_path [OF assms(1) b] and q = chained_bounds [OF assms(1) b]
    have "links nxt' b (ch b) = links nxt b (ch b)"
      by (rule links_cong) (use b assms(3) q in auto)
    moreover have "backs prv' b (ch b) = backs prv b (ch b)"
      by (rule backs_cong) (use assms(4) q in auto)
    moreover have "gone b \<Longrightarrow> ch b = []" using assms(5) [OF b] chained_base_empty [OF assms(1) b] by blast
    ultimately show ?thesis using p assms(2) b by auto
  qed
  moreover have "\<forall>b < n. \<forall>x \<in> set (ch b). n < x \<and> x < n + m \<and> used' x"
    using chained_bounds [OF assms(1)] assms(2) by fastforce
  moreover have "\<forall>b < n. \<forall>b' < n. b \<noteq> b' \<longrightarrow> set (ch b) \<inter> set (ch b') = {}"
    using chained_apart [OF assms(1)] by blast
  moreover have "\<forall>x. n \<le> x \<longrightarrow> x < n + m \<longrightarrow> used' x \<longrightarrow> (\<exists>b < n. x \<in> set (ch b))"
    using chained_covers [OF assms(1)] assms(2) by auto
  ultimately show ?thesis unfolding chained_def by blast
qed

lemma reaped_chained:
  assumes "chained n m (\<lambda>x. rule_enabled (R x)) (\<lambda>x. rule_next (R x)) (\<lambda>x. rule_prev (R x)) rc"
  shows "chained n m (\<lambda>x. rule_enabled (reaped n R x)) (\<lambda>x. rule_next (reaped n R x)) (\<lambda>x. rule_prev (reaped n R x)) rc"
  by (rule chained_reset [OF assms, of _ "\<lambda>x. proto_of (R x) = 0xFF \<and> rule_next (R x) = 0"])
    (auto simp: reaped_def)

lemma hashedD:
  assumes "hashed D S n mem rc ic" and "b < n"
  shows "x \<in> set (b # rc b) \<Longrightarrow> live (rule_at n mem x) \<Longrightarrow> D (client_of (rule_at n mem x)) = b"
    "i \<in> set (b # ic b) \<Longrightarrow> index_entry (idx_at n mem i) \<noteq> 0 \<Longrightarrow>
     S (client_of (rule_at n mem (index_entry (idx_at n mem i)))) = b"
  using assms unfolding hashed_def by blast+

text \<open>
  The position that is free in the index table afterwards: that of the entry, or that of its
  successor, which moves to it.
\<close>

definition hole :: "nat \<Rightarrow> nat \<Rightarrow> (nat \<Rightarrow> u32) \<Rightarrow> nat" where
  "hole n i I = (if \<not> n \<le> i \<and> index_next (I i) \<noteq> 0 then index_next (I i) else i)"

lemma del_indx_entries:
  "index_entry (del_indx n i meta I j) =
     (if j = hole n i I then 0 else if j = i then index_entry (I (hole n i I)) else index_entry (I j))"
  by (auto simp: del_indx_def hole_def Let_def)

lemma moved_indx:
  "i < 65536 \<Longrightarrow> y \<noteq> index_entry (I i) \<Longrightarrow>
   rule_indx (moved n i I R y) = (if y = index_entry (I (hole n i I)) then i else rule_indx (R y))"
  by (auto simp: moved_def hole_def)

lemma hole_cases:
  assumes "chained n m (\<lambda>i. index_entry (I i) \<noteq> 0) (\<lambda>i. index_next (I i)) (\<lambda>i. meta ! (i - n)) ic"
    and "i < n + m" "index_entry (I i) \<noteq> 0"
  shows "hole n i I = i \<or> i < n \<and> hole n i I \<in> set (ic i)" "hole n i I < n + m" "index_entry (I (hole n i I)) \<noteq> 0"
proof -
  have *: "hole n i I = i \<or> i < n \<and> hole n i I \<in> set (ic i)"
  proof (cases "n \<le> i \<or> index_next (I i) = 0")
    case False
    with chained_path [OF assms(1), of i] have "index_next (I i) \<in> set (ic i)" by (cases "ic i") auto
    with False show ?thesis by (simp add: hole_def)
  qed (auto simp: hole_def)
  then show "hole n i I = i \<or> i < n \<and> hole n i I \<in> set (ic i)" .
  from * show "hole n i I < n + m" "index_entry (I (hole n i I)) \<noteq> 0"
    using chained_bounds [OF assms(1), of i] assms(2,3) by auto
qed

text \<open>The identifier of an entry that is no longer live leaves its slot.\<close>

lemma ids_del:
  assumes io: "ids_ok n m mem ids" and j: "j < n + m" "ids ! j = rule_id n x"
    and lv: "\<And>y. y < n + m \<Longrightarrow> live (rule_at n mem' y) = (y \<noteq> x \<and> live (rule_at n mem y))"
  shows "ids_ok n m mem' (ids[j := 0])"
proof -
  note d = ids_okD [OF io]
  show ?thesis
    unfolding ids_ok_def
  proof (intro conjI allI impI)
    fix k assume k: "k < n + m" "ids[j := 0] ! k \<noteq> 0"
    then have kj: "k \<noteq> j" "ids ! k \<noteq> 0" using d(1) by (cases "k = j"; simp)+
    from d(3) [OF k(1) kj(2)] obtain y where y: "y < n + m" "ids ! k = rule_id n y" "live (rule_at n mem y)" by blast
    have "y \<noteq> x" using y(2) j d(4) [OF k(1) j(1)] kj by auto
    then show "\<exists>y < n + m. ids[j := 0] ! k = rule_id n y \<and> live (rule_at n mem' y)"
      using y kj lv by auto
  next
    fix k k' assume k: "k < n + m" "k' < n + m" "ids[j := 0] ! k = ids[j := 0] ! k'" "ids[j := 0] ! k \<noteq> 0"
    then have "k \<noteq> j" "k' \<noteq> j" using d(1) by auto
    then show "k = k'" using k d(4) [OF k(1,2)] by simp
  next
    show "ids[j := 0] ! k = 0" if "k < n + m" "n + m \<le> Suc k" for k
      using that d(1) d(2) [OF that(1)] by (cases "k = j"; simp) force
  next
    fix y assume y: "y < n + m" "live (rule_at n mem' y)"
    then have o: "y \<noteq> x" "live (rule_at n mem y)" using lv by auto
    have "rule_id n y \<in> set ids" by (rule d(5) [OF y(1) o(2)])
    then obtain k where k: "k < n + m" "ids ! k = rule_id n y" using d(1) by (auto simp: in_set_conv_nth)
    have "k \<noteq> j" using k j o(1) by (auto dest: rule_id_inj)
    with k d(1) show "rule_id n y \<in> set (ids[j := 0])" by (auto simp: in_set_conv_nth intro!: exI [of _ k])
  qed (simp add: d(1))
qed

lemma rules_del:
  assumes io: "ids_ok n m mem ids" and j: "j < n + m" "ids ! j = rule_id n x"
    and cl: "\<And>y. y < n + m \<Longrightarrow> y \<noteq> x \<Longrightarrow> live (rule_at n mem y) \<Longrightarrow>
      client_of (rule_at n mem' y) = client_of (rule_at n mem y)"
  shows "rules_of n mem' (ids[j := 0]) = (rules_of n mem ids)(Suc j := None)"
proof
  fix h
  note d = ids_okD [OF io]
  show "rules_of n mem' (ids[j := 0]) h = ((rules_of n mem ids)(Suc j := None)) h"
  proof (cases "h = Suc j")
    case True
    then show ?thesis using j d(1) by (simp add: rules_of_def)
  next
    case False
    show ?thesis
    proof (cases "0 < h \<and> h < n + m \<and> ids ! (h - 1) \<noteq> 0")
      case True
      then have h: "h - 1 < n + m" "ids ! (h - 1) \<noteq> 0" "h - 1 \<noteq> j" using False by auto
      from d(3) [OF h(1,2)] obtain y where y: "y < n + m" "ids ! (h - 1) = rule_id n y" "live (rule_at n mem y)" by blast
      have "y \<noteq> x" using y(2) j d(4) [OF h(1) j(1)] h by auto
      then show ?thesis
        using True False h y d(1) cl [OF y(1) _ y(3)] by (simp add: rules_of_def)
    next
      case no: False
      have "rules_of n mem' (ids[j := 0]) h = None"
        using no d(1) by (cases "h - 1 = j") (auto simp: rules_of_def)
      moreover have "rules_of n mem ids h = None" using no d(1) by (auto simp: rules_of_def)
      ultimately show ?thesis by simp
    qed
  qed
qed

lemma tables_del:
  assumes ok: "tables_ok D S n m mem meta ids rc ic" and small: "n + m < 65536"
    and x: "x < n + m" "live (rule_at n mem x)" and j: "j < n + m" "ids ! j = rule_id n x"
    and g: "geom n m mem'"
    and R: "\<And>y. y < n + m \<Longrightarrow> rule_at n mem' y =
      reaped n (moved n (rule_indx (rule_at n mem x)) (idx_at n mem) (del_rule n x (rule_at n mem))) y"
    and I: "\<And>y. y < n + m \<Longrightarrow> idx_at n mem' y = del_indx n (rule_indx (rule_at n mem x)) meta (idx_at n mem) y"
  shows "\<exists>rc' ic'. tables_ok D S n m mem' (del_meta n (rule_indx (rule_at n mem x)) meta (idx_at n mem)) (ids[j := 0]) rc' ic'"
    and "rules_of n mem' (ids[j := 0]) = (rules_of n mem ids)(Suc j := None)"
proof -
  note t = tables_okD [OF ok]
  define i where "i = rule_indx (rule_at n mem x)"
  define z where "z = hole n i (idx_at n mem)"
  define e where "e = index_entry (idx_at n mem z)"
  have i: "i < n + m" "index_entry (idx_at n mem i) = x"
    using t(7) x by (simp_all add: crossed_def i_def)
  have x0: "x \<noteq> 0" using x(2) t(3) unfolding live_def by metis
  have i16: "i < 65536" using i(1) small by simp
  have ne: "index_entry (idx_at n mem i) \<noteq> 0" using i(2) x0 by simp
  note z = hole_cases [OF t(4) i(1) ne, folded z_def]
  have e: "e < n + m" "live (rule_at n mem e)" "rule_indx (rule_at n mem e) = z" "e = x \<longleftrightarrow> z = i"
  proof -
    show "e < n + m" "live (rule_at n mem e)" and ez: "rule_indx (rule_at n mem e) = z"
      using t(7) z(2,3) by (simp_all add: crossed_def e_def)
    show "e = x \<longleftrightarrow> z = i" using ez i(2) by (auto simp: i_def e_def)
  qed
  have zero: "0 < n + m" using x(1) by linarith
  have lv: "live (rule_at n mem' y) = (y \<noteq> x \<and> live (rule_at n mem y))" if "y < n + m" for y
    using R [OF that, folded i_def] del_rule_self(1) [of n x "rule_at n mem"] del_rule_fields(5) [of y x n "rule_at n mem"]
    by (auto simp: reaped_fields(2) moved_fields [OF i16])
  have fd: "client_of (rule_at n mem' y) = client_of (rule_at n mem y)"
    "rule_indx (rule_at n mem' y) = (if y = e then i else rule_indx (rule_at n mem y))"
    if "y < n + m" "y \<noteq> x" "live (rule_at n mem y)" for y
  proof -
    have "live (moved n i (idx_at n mem) (del_rule n x (rule_at n mem)) y)"
      using that by (simp add: moved_fields [OF i16] del_rule_fields)
    then have "rule_at n mem' y = moved n i (idx_at n mem) (del_rule n x (rule_at n mem)) y"
      using R [OF that(1), folded i_def] reaped_fields(3) by simp
    then show "client_of (rule_at n mem' y) = client_of (rule_at n mem y)"
      "rule_indx (rule_at n mem' y) = (if y = e then i else rule_indx (rule_at n mem y))"
      using that i(2) by (simp_all add: moved_fields [OF i16] del_rule_fields moved_indx [OF i16] e_def z_def)
  qed
  have ent: "index_entry (idx_at n mem' y) = (if y = z then 0 else if y = i then e else index_entry (idx_at n mem y))"
    if "y < n + m" for y
    using I [OF that, folded i_def] by (simp add: del_indx_entries z_def e_def)
  have en: "rule_enabled (rule_at n mem x)" using x(2) by (simp add: live_def)
  from del_rule_chained [where R = "rule_at n mem", OF t(2) x(1) en] obtain rc' where rc':
    "chained n m (\<lambda>y. rule_enabled (del_rule n x (rule_at n mem) y)) (\<lambda>y. rule_next (del_rule n x (rule_at n mem) y))
      (\<lambda>y. rule_prev (del_rule n x (rule_at n mem) y)) rc'" "\<forall>b < n. set (rc' b) \<subseteq> set (rc b)" by blast
  from del_indx_chained [where I = "idx_at n mem", OF t(4) i(1) ne t(6)] obtain ic' where ic':
    "chained n m (\<lambda>j. index_entry (del_indx n i meta (idx_at n mem) j) \<noteq> 0)
      (\<lambda>j. index_next (del_indx n i meta (idx_at n mem) j))
      (\<lambda>j. del_meta n i meta (idx_at n mem) ! (j - n)) ic'" "\<forall>b < n. set (ic' b) \<subseteq> set (ic b)" by blast
  have "rules_chained n m mem' rc'"
    unfolding rules_chained_def
  proof
    have "chained n m (\<lambda>y. rule_enabled (moved n i (idx_at n mem) (del_rule n x (rule_at n mem)) y))
      (\<lambda>y. rule_next (moved n i (idx_at n mem) (del_rule n x (rule_at n mem)) y))
      (\<lambda>y. rule_prev (moved n i (idx_at n mem) (del_rule n x (rule_at n mem)) y)) rc'"
      using rc'(1) by (simp add: moved_fields [OF i16])
    from chained_cong [OF reaped_chained [OF this]]
    show "chained n m (\<lambda>x. rule_enabled (rule_at n mem' x)) (\<lambda>x. rule_next (rule_at n mem' x))
       (\<lambda>x. rule_prev (rule_at n mem' x)) rc'"
      by (simp add: R i_def [symmetric])
    show "\<not> rule_enabled (rule_at n mem' 0)"
      using t(3) R [OF zero, folded i_def] x0 reaped_fields(1)
      by (auto simp: moved_fields [OF i16] del_rule_fields dest!: reaped_fields(1))
  qed
  moreover have "index_chained n m mem' (del_meta n i meta (idx_at n mem)) ic'"
    unfolding index_chained_def
  proof (intro conjI)
    show "length (del_meta n i meta (idx_at n mem)) = m" using t(6) by (simp add: del_meta_def Let_def)
    show "chained n m (\<lambda>i. index_entry (idx_at n mem' i) \<noteq> 0) (\<lambda>i. index_next (idx_at n mem' i))
       (\<lambda>j. del_meta n i meta (idx_at n mem) ! (j - n)) ic'"
      by (rule chained_cong [OF ic'(1)]) (simp_all add: I i_def [symmetric])
    show "index_entry (idx_at n mem' 0) = 0"
    proof -
      have "0 \<noteq> i" using ne t(5) by metis
      then show ?thesis using t(5) ent [OF zero] by simp
    qed
  qed
  moreover have "crossed n m mem'"
    unfolding crossed_def
  proof (rule conjI; intro allI impI)
    fix y assume y: "y < n + m" "live (rule_at n mem' y)"
    then have o: "y \<noteq> x" "live (rule_at n mem y)" using lv by auto
    have cr: "rule_indx (rule_at n mem y) < n + m" "index_entry (idx_at n mem (rule_indx (rule_at n mem y))) = y"
      using t(7) y(1) o(2) by (simp_all add: crossed_def)
    show "rule_indx (rule_at n mem' y) < n + m \<and> index_entry (idx_at n mem' (rule_indx (rule_at n mem' y))) = y"
    proof (cases "y = e")
      case True
      then show ?thesis using fd(2) [OF y(1) o] ent [OF i(1)] i(1) e(4) o(1) by auto
    next
      case False
      then have "rule_indx (rule_at n mem y) \<noteq> z" "rule_indx (rule_at n mem y) \<noteq> i"
        using cr(2) i(2) o(1) by (auto simp: e_def)
      then show ?thesis using fd(2) [OF y(1) o] ent [OF cr(1)] cr False by auto
    qed
  next
    fix a assume a: "a < n + m" "index_entry (idx_at n mem' a) \<noteq> 0"
    then have az: "a \<noteq> z" using ent by auto
    show "index_entry (idx_at n mem' a) < n + m \<and> live (rule_at n mem' (index_entry (idx_at n mem' a))) \<and>
        rule_indx (rule_at n mem' (index_entry (idx_at n mem' a))) = a"
    proof (cases "a = i")
      case True
      then have "e \<noteq> x" using az e(4) by auto
      then show ?thesis using True az ent [OF a(1)] e(1,2) lv [OF e(1)] fd(2) [OF e(1)] by simp
    next
      case False
      then have ea: "index_entry (idx_at n mem' a) = index_entry (idx_at n mem a)" using az ent [OF a(1)] by simp
      then have cr: "index_entry (idx_at n mem a) < n + m" "live (rule_at n mem (index_entry (idx_at n mem a)))"
        "rule_indx (rule_at n mem (index_entry (idx_at n mem a))) = a"
        using t(7) a by (simp_all add: crossed_def)
      then have "index_entry (idx_at n mem a) \<noteq> x" "index_entry (idx_at n mem a) \<noteq> e"
        using False az e(3) by (auto simp: i_def)
      then show ?thesis using ea cr lv [OF cr(1)] fd(2) [OF cr(1)] by simp
    qed
  qed
  moreover have "dead_heads n m mem'"
    unfolding dead_heads_def
  proof (intro allI impI)
    fix y assume y: "y < n + m" and p: "proto_of (rule_at n mem' y) = 0xFF"
    let ?M = "moved n i (idx_at n mem) (del_rule n x (rule_at n mem))"
    have q: "rule_at n mem' y = ?M y \<and> (y < n \<longrightarrow> rule_next (?M y) \<noteq> 0)"
      using reaped_fields(4) [where n = n and R = ?M and y = y] p R [OF y, folded i_def] by simp
    then have p': "proto_of (del_rule n x (rule_at n mem) y) = 0xFF"
      using p by (simp add: moved_fields [OF i16])
    have "y < n \<and> rule_enabled (del_rule n x (rule_at n mem) y)"
    proof (cases "y = x")
      case True
      then show ?thesis using p' del_rule_self(2,3) [where n = n and x = x and R = "rule_at n mem"] en by simp
    next
      case False
      then have "proto_of (rule_at n mem y) = 0xFF" using p' by (simp add: del_rule_fields)
      then show ?thesis using t(8) y False by (simp add: dead_heads_def del_rule_fields)
    qed
    then show "y < n \<and> rule_enabled (rule_at n mem' y) \<and> rule_next (rule_at n mem' y) \<noteq> 0"
      using q by (simp add: moved_fields [OF i16])
  qed
  moreover have "hashed D S n mem' rc' ic'"
    unfolding hashed_def
  proof (intro conjI allI impI ballI)
    fix b y assume b: "b < n" and y: "y \<in> set (b # rc' b)" and l: "live (rule_at n mem' y)"
    have y': "y \<in> set (b # rc b)" using y rc'(2) b by auto
    then have "y < n + m" using chained_bounds [OF t(2) b] b by auto
    with l have "y \<noteq> x" "live (rule_at n mem y)" using lv by auto
    then show "D (client_of (rule_at n mem' y)) = b"
      using fd(1) [OF \<open>y < n + m\<close>] hashedD(1) [OF t(9) b y'] by simp
  next
    fix b a assume b: "b < n" and a: "a \<in> set (b # ic' b)" and l: "index_entry (idx_at n mem' a) \<noteq> 0"
    have a': "a \<in> set (b # ic b)" using a ic'(2) b by auto
    then have an: "a < n + m" using chained_bounds [OF t(4) b] b by auto
    have az: "a \<noteq> z" using l ent [OF an] by auto
    show "S (client_of (rule_at n mem' (index_entry (idx_at n mem' a)))) = b"
    proof (cases "a = i")
      case True
      then have mv: "z \<noteq> i" "e \<noteq> x" using az e(4) by auto
      then have zi: "i < n" "z \<in> set (ic i)" using z(1) by auto
      have "b = i"
        using a' True zi(1) chained_bounds [OF t(4) b, of i] by auto
      moreover have "S (client_of (rule_at n mem e)) = i"
        unfolding e_def by (rule hashedD(2) [OF t(9) zi(1) _ z(3)]) (use zi(2) in simp)
      ultimately show ?thesis using True az ent [OF an] fd(1) [OF e(1) mv(2) e(2)] by simp
    next
      case False
      then have ea: "index_entry (idx_at n mem' a) = index_entry (idx_at n mem a)" using az ent [OF an] by simp
      then have cr: "index_entry (idx_at n mem a) < n + m" "live (rule_at n mem (index_entry (idx_at n mem a)))"
        "rule_indx (rule_at n mem (index_entry (idx_at n mem a))) = a"
        using t(7) an l by (simp_all add: crossed_def)
      then have "index_entry (idx_at n mem a) \<noteq> x" using False by (auto simp: i_def)
      then show ?thesis using ea l fd(1) [OF cr(1)] cr(2) hashedD(2) [OF t(9) b a'] by simp
    qed
  qed
  moreover have "ids_ok n m mem' (ids[j := 0])"
    by (rule ids_del [OF t(10) j lv])
  ultimately show "\<exists>rc' ic'. tables_ok D S n m mem' (del_meta n (rule_indx (rule_at n mem x)) meta (idx_at n mem)) (ids[j := 0]) rc' ic'"
    using g unfolding tables_ok_def i_def by blast
  show "rules_of n mem' (ids[j := 0]) = (rules_of n mem ids)(Suc j := None)"
    by (rule rules_del [OF t(10) j]) (simp add: fd)
qed

section \<open>Deleting a rule\<close>

text \<open>The position of an entry in its own table, and which table that is.\<close>

lemma fetch_rule:
  assumes "geom n m mem" and "x < n + m"
  shows "fetch (if n \<le> x then ipv4_expn_rules mem else ipv4_rules mem) (if n \<le> x then x - n else x) = Some (rule_at n mem x)"
  using assms by (auto simp: fetch_def geom_def rule_at_def)

lemma fetch_idx:
  assumes "geom n m mem" and "x < n + m"
  shows "fetch (if n \<le> x then index_table_expn mem else index_table mem) (if n \<le> x then x - n else x) = Some (idx_at n mem x)"
  using assms by (auto simp: fetch_def geom_def idx_at_def)

definition rule_pos_of :: "nat \<Rightarrow> nat \<Rightarrow> nat \<Rightarrow> del_type" where
  "rule_pos_of n x s =
     (if n \<le> x then if s = 0 then DEL_LAST else DEL_MIDDLE else if s = 0 then DEL_ONLY_ONE else DEL_HEAD)"

lemma find_rule_pos_at:
  "geom n m mem \<Longrightarrow> x < n + m \<Longrightarrow>
   find_rule_pos mem (n \<le> x) (if n \<le> x then x - n else x) = Some (rule_pos_of n x (rule_next (rule_at n mem x)))"
  by (auto simp: find_rule_pos_def rule_pos_of_def fetch_def geom_def rule_at_def)

lemma find_index_rule_pos_at:
  "geom n m mem \<Longrightarrow> x < n + m \<Longrightarrow>
   find_index_rule_pos n mem x = Some (rule_pos_of n x (index_next (idx_at n mem x)))"
  by (auto simp: find_index_rule_pos_def rule_pos_of_def fetch_def geom_def idx_at_def)

text \<open>The commands as changes of entries.\<close>

lemma rule_del_cmd_at:
  assumes "table_entries t = n" and "tbl_addr_offset t = 0"
  shows "rule_del_cmd t cur (if n \<le> x then x - n else x) (rule_pos_of n x (rule_next cur)) =
    (if n \<le> x then rule_cmd n (rule_prev cur) 4 (rule_next cur)
     else if rule_next cur = 0 then rule_cmd n x 9 0 else rule_cmd n x 11 0xFF00)"
  using assms by (auto simp: rule_del_cmd_def rule_pos_of_def rule_cmd_def get_entry_offset_def Let_def)

lemma index_del_cmds_at:
  assumes t: "table_entries t = n" "tbl_addr_offset t = 0" "index_expn_table_meta t = Some meta"
    and g: "geom n m mem" "length meta = m" "n + m < 65536" and i: "i < n + m"
    and s: "\<not> n \<le> i \<Longrightarrow> index_next (idx_at n mem i) \<noteq> 0 \<Longrightarrow> n \<le> index_next (idx_at n mem i) \<and> index_next (idx_at n mem i) < n + m"
  shows "index_del_cmds t mem (idx_at n mem i) (if n \<le> i then i - n else i) (rule_pos_of n i (index_next (idx_at n mem i))) =
    Some (if n \<le> i then [idx_cmd n (meta ! (i - n)) True (index_next (idx_at n mem i))]
      else if index_next (idx_at n mem i) = 0 then [idx_cmd n i False 0]
      else [idx_cmd n i False (index_entry (idx_at n mem (index_next (idx_at n mem i)))),
            idx_cmd n i True (index_next (idx_at n mem (index_next (idx_at n mem i))))])"
proof -
  let ?s = "index_next (idx_at n mem i)"
  have f: "fetch (index_table_expn mem) (sub16 ?s n) = Some (idx_at n mem ?s)" if "\<not> n \<le> i" "?s \<noteq> 0"
    using s [OF that] g sub16_expn [of n ?s] by (auto simp: fetch_def geom_def idx_at_def)
  have fm: "fetch meta (i - n) = Some (meta ! (i - n))" if "n \<le> i"
    using that g(2) i by (auto simp: fetch_def)
  show ?thesis
    using t f fm by (auto simp: index_del_cmds_def rule_pos_of_def idx_cmd_def get_index_entry_offset_def Let_def)
qed

lemma ReorderCmds_indexes:
  assumes "base_addr c = IPA_NAT_BASE_TBL \<or> base_addr c = IPA_NAT_EXPN_TBL" and "cs \<noteq> []"
    and "base_addr (hd cs) = IPA_NAT_INDX_TBL \<or> base_addr (hd cs) = IPA_NAT_INDEX_EXPN_TBL"
  shows "ReorderCmds (c # cs) = cs @ [c]"
  using assms by (cases cs) (auto simp: ReorderCmds_def Let_def)

lemma cmd_tables [simp]:
  "base_addr (rule_cmd n x j v) = IPA_NAT_BASE_TBL \<or> base_addr (rule_cmd n x j v) = IPA_NAT_EXPN_TBL"
  "base_addr (idx_cmd n x hi v) = IPA_NAT_INDX_TBL \<or> base_addr (idx_cmd n x hi v) = IPA_NAT_INDEX_EXPN_TBL"
  by (simp_all add: rule_cmd_def idx_cmd_def)

text \<open>The memory after the commands.\<close>

definition after_rule_cmd :: "nat \<Rightarrow> nat \<Rightarrow> nat_mem \<Rightarrow> nat_mem" where
  "after_rule_cmd n x mem =
     (let cur = rule_at n mem x; p = rule_prev cur; s = rule_next cur in
      if n \<le> x then put_rule n p (set_next s (rule_at n mem p)) mem
      else if s = 0 then put_rule n x (set_flags 0 cur) mem else put_rule n x (set_proto 0xFF00 cur) mem)"

definition after_index_cmds :: "nat \<Rightarrow> nat \<Rightarrow> nat list \<Rightarrow> nat_mem \<Rightarrow> nat_mem" where
  "after_index_cmds n i meta mem =
     (let w = idx_at n mem i; q = meta ! (i - n); s = index_next w in
      if n \<le> i then put_idx n q (set_half True (of_nat s) (idx_at n mem q)) mem
      else if s = 0 then put_idx n i (set_half False 0 w) mem
      else put_idx n i (idx_at n mem s) mem)"

lemma of_nat_unat16 [simp]: "of_nat (unat w) = (w :: u16)"
  by simp

lemma set_halves: "set_half True (of_nat (index_next v)) (set_half False (of_nat (index_entry v)) w) = v"
proof -
  have "mk32 (high16 v) (low16 v) = v"
    by (auto simp: mk32_def high16_def low16_def bit_simps intro!: bit_word_eqI)
  then show ?thesis by (simp add: set_half_def index_next_def index_entry_def)
qed

lemma put_idx_twice: "put_idx n i v (put_idx n i w mem) = put_idx n i v mem"
  by (simp add: put_idx_def)

lemma fold_del_cmds:
  assumes t: "table_entries t = n" "tbl_addr_offset t = 0" "index_expn_table_meta t = Some meta"
    and g: "geom n m mem" "length meta = m" "n + m < 65536" and i: "i < n + m"
    and s: "\<not> n \<le> i \<Longrightarrow> index_next (idx_at n mem i) \<noteq> 0 \<Longrightarrow> n \<le> index_next (idx_at n mem i) \<and> index_next (idx_at n mem i) < n + m"
  shows "\<exists>cmds. index_del_cmds t mem (idx_at n mem i) (if n \<le> i then i - n else i)
      (rule_pos_of n i (index_next (idx_at n mem i))) = Some cmds \<and>
    fold dma_write (ReorderCmds (rule_del_cmd t (rule_at n mem x) (if n \<le> x then x - n else x)
      (rule_pos_of n x (rule_next (rule_at n mem x))) # cmds)) mem = after_rule_cmd n x (after_index_cmds n i meta mem)"
proof -
  let ?w = "idx_at n mem i"
  let ?cmds = "if n \<le> i then [idx_cmd n (meta ! (i - n)) True (index_next ?w)]
      else if index_next ?w = 0 then [idx_cmd n i False 0]
      else [idx_cmd n i False (index_entry (idx_at n mem (index_next ?w))),
            idx_cmd n i True (index_next (idx_at n mem (index_next ?w)))]"
  let ?cmd = "rule_del_cmd t (rule_at n mem x) (if n \<le> x then x - n else x) (rule_pos_of n x (rule_next (rule_at n mem x)))"
  have re: "ReorderCmds (?cmd # ?cmds) = ?cmds @ [?cmd]"
    unfolding rule_del_cmd_at [OF t(1,2)] by (rule ReorderCmds_indexes) auto
  have "fold dma_write ?cmds mem = after_index_cmds n i meta mem"
    using i g(1) by (auto simp: after_index_cmds_def Let_def dma_idx_cmd put_idx_twice set_halves)
  moreover have "dma_write ?cmd mem' = after_rule_cmd n x mem'" if "rule_at n mem' = rule_at n mem" for mem'
    unfolding rule_del_cmd_at [OF t(1,2)] using that by (auto simp: after_rule_cmd_def Let_def dma_fields)
  moreover have "rule_at n (after_index_cmds n i meta mem) = rule_at n mem"
    by (simp add: after_index_cmds_def Let_def fun_eq_iff)
  ultimately show ?thesis using index_del_cmds_at [OF t g i s] re by auto
qed

lemma neighbours:
  assumes "chained n m used nxt prv ch" and "x < n + m" and "used x"
  shows "n \<le> x \<Longrightarrow> prv x < n + m \<and> prv x \<noteq> x"
    "nxt x \<noteq> 0 \<Longrightarrow> n < nxt x \<and> nxt x < n + m \<and> nxt x \<noteq> x \<and> used (nxt x)"
    "n \<le> x \<Longrightarrow> nxt x \<noteq> 0 \<Longrightarrow> nxt x \<noteq> prv x"
proof -
  have *: "prv x < n + m \<and> prv x \<noteq> x \<and> (nxt x \<noteq> 0 \<longrightarrow> n < nxt x \<and> nxt x < n + m \<and> nxt x \<noteq> x \<and> used (nxt x) \<and> nxt x \<noteq> prv x)"
    if nx: "n \<le> x"
  proof -
    from chained_at [OF assms(1) nx assms(2,3)] obtain b us vs where b: "b < n" "ch b = us @ x # vs" "prv x = last (b # us)"
      "nxt x = (if vs = [] then 0 else hd vs)" "distinct (b # us @ x # vs)" "n < x" by blast
    have "last (b # us) \<in> set (b # us)" by (rule last_in_set) simp
    moreover have "y < n + m" if "y \<in> set (b # us)" for y
      using that chained_bounds [OF assms(1) b(1), of y] b(1,2) by auto
    ultimately have p: "prv x < n + m" "prv x \<noteq> x" using b(3,5,6) by auto
    have "n < nxt x \<and> nxt x < n + m \<and> nxt x \<noteq> x \<and> used (nxt x) \<and> nxt x \<noteq> prv x" if "nxt x \<noteq> 0"
    proof -
      have vs: "vs \<noteq> []" "nxt x = hd vs" using b(4) that by (auto split: if_splits)
      then have "hd vs \<in> set (ch b)" "hd vs \<noteq> x" using b(2,5) by (cases vs; auto)+
      then show ?thesis
        using chained_bounds [OF assms(1) b(1), of "hd vs"] vs hd_neq_last [OF b(5) vs(1)] b(3) by metis
    qed
    with p show ?thesis by blast
  qed
  have b: "n < nxt x \<and> nxt x < n + m \<and> nxt x \<noteq> x \<and> used (nxt x)" if "x < n" "nxt x \<noteq> 0"
  proof -
    have "links nxt x (ch x)" using chained_path [OF assms(1) that(1)] by blast
    with that have "nxt x \<in> set (ch x)" by (cases "ch x") auto
    with chained_bounds [OF assms(1) that(1)] that show ?thesis by fastforce
  qed
  show "n \<le> x \<Longrightarrow> prv x < n + m \<and> prv x \<noteq> x" using * by blast
  show "nxt x \<noteq> 0 \<Longrightarrow> n < nxt x \<and> nxt x < n + m \<and> nxt x \<noteq> x \<and> used (nxt x)"
    using * b by (meson not_le_imp_less)
  show "n \<le> x \<Longrightarrow> nxt x \<noteq> 0 \<Longrightarrow> nxt x \<noteq> prv x" using * by blast
qed

text \<open>Stores as changes of entries.\<close>

lemma store_rules:
  assumes "geom n m mem"
  shows "n \<le> x \<Longrightarrow> x < n + m \<Longrightarrow> do { xs \<leftarrow> store (ipv4_expn_rules mem) (x - n) r; Some (mem\<lparr>ipv4_expn_rules := xs\<rparr>) }
      = Some (put_rule n x r mem)"
    "x < n \<Longrightarrow> do { xs \<leftarrow> store (ipv4_rules mem) x r; Some (mem\<lparr>ipv4_rules := xs\<rparr>) } = Some (put_rule n x r mem)"
  using assms by (auto simp: store_def geom_def put_rule_def)

lemma store_rule:
  assumes "geom n m mem"
  shows "n \<le> x \<Longrightarrow> x < n + m \<Longrightarrow> store (ipv4_expn_rules mem) (x - n) r = Some ((ipv4_expn_rules mem)[x - n := r]) \<and>
      mem\<lparr>ipv4_expn_rules := (ipv4_expn_rules mem)[x - n := r]\<rparr> = put_rule n x r mem"
    "x < n \<Longrightarrow> store (ipv4_rules mem) x r = Some ((ipv4_rules mem)[x := r]) \<and>
      mem\<lparr>ipv4_rules := (ipv4_rules mem)[x := r]\<rparr> = put_rule n x r mem"
  using assms by (auto simp: store_def geom_def put_rule_def)

lemma store_idx:
  assumes "geom n m mem"
  shows "n \<le> x \<Longrightarrow> x < n + m \<Longrightarrow> store (index_table_expn mem) (x - n) w = Some ((index_table_expn mem)[x - n := w]) \<and>
      mem\<lparr>index_table_expn := (index_table_expn mem)[x - n := w]\<rparr> = put_idx n x w mem"
    "x < n \<Longrightarrow> store (index_table mem) x w = Some ((index_table mem)[x := w]) \<and>
      mem\<lparr>index_table := (index_table mem)[x := w]\<rparr> = put_idx n x w mem"
  using assms by (auto simp: store_def geom_def put_idx_def)

lemma fetch_at:
  assumes "geom n m mem"
  shows "n \<le> x \<Longrightarrow> x < n + m \<Longrightarrow> fetch (ipv4_expn_rules mem) (x - n) = Some (rule_at n mem x)"
    "x < n \<Longrightarrow> fetch (ipv4_rules mem) x = Some (rule_at n mem x)"
    "n \<le> x \<Longrightarrow> x < n + m \<Longrightarrow> fetch (index_table_expn mem) (x - n) = Some (idx_at n mem x)"
    "x < n \<Longrightarrow> fetch (index_table mem) x = Some (idx_at n mem x)"
  using assms by (auto simp: fetch_def geom_def rule_at_def idx_at_def)

lemma rule_del_after_at:
  assumes g: "geom n m mem" and x: "x < n + m" and small: "n + m < 65536"
    and p: "n \<le> x \<Longrightarrow> rule_prev (rule_at n mem x) < n + m \<and> rule_prev (rule_at n mem x) \<noteq> x"
    and s: "rule_next (rule_at n mem x) \<noteq> 0 \<Longrightarrow> n < rule_next (rule_at n mem x) \<and> rule_next (rule_at n mem x) < n + m \<and>
      rule_next (rule_at n mem x) \<noteq> x"
    and ps: "n \<le> x \<Longrightarrow> rule_next (rule_at n mem x) \<noteq> 0 \<Longrightarrow> rule_next (rule_at n mem x) \<noteq> rule_prev (rule_at n mem x)"
  shows "\<exists>mem'. rule_del_after n (if n \<le> x then x - n else x) (n \<le> x) (rule_pos_of n x (rule_next (rule_at n mem x)))
      (after_rule_cmd n x mem) = Some mem' \<and> geom n m mem' \<and> idx_at n mem' = idx_at n mem \<and>
    (\<forall>y < n + m. rule_at n mem' y = del_rule n x (rule_at n mem) y)"
proof -
  let ?r = "rule_at n mem x"
  let ?p = "rule_prev ?r" and ?s = "rule_next ?r" and ?A = "after_rule_cmd n x mem"
  have gA: "geom n m ?A" using g by (simp add: after_rule_cmd_def Let_def)
  consider (middle) "n \<le> x" "?s \<noteq> 0" | (last) "n \<le> x" "?s = 0" | (head) "x < n" "?s \<noteq> 0" | (one) "x < n" "?s = 0"
    by linarith
  then show ?thesis
  proof cases
    case middle
    have rA: "rule_at n ?A x = ?r" "rule_at n ?A ?s = rule_at n mem ?s"
      using middle g x p s ps by (simp_all add: after_rule_cmd_def Let_def)
    have sub: "sub16 ?s n = ?s - n" using s middle small by (intro sub16_expn) auto
    let ?u = "UpdateSwSpecParams False (of_nat ?p) (rule_at n mem ?s)"
    have f: "fetch (ipv4_expn_rules ?A) (x - n) = Some ?r" "fetch (ipv4_expn_rules ?A) (?s - n) = Some (rule_at n mem ?s)"
      using fetch_at(1) [OF gA, of x] fetch_at(1) [OF gA, of ?s] middle x s rA by simp_all
    have "do { xs \<leftarrow> store (ipv4_expn_rules ?A) (?s - n) ?u; Some (?A\<lparr>ipv4_expn_rules := xs\<rparr>) } = Some (put_rule n ?s ?u ?A)"
      using s middle by (intro store_rules(1) [OF gA]) auto
    moreover have "do { xs \<leftarrow> store (ipv4_expn_rules (put_rule n ?s ?u ?A)) (x - n) zero_hw_rule;
        Some ((put_rule n ?s ?u ?A)\<lparr>ipv4_expn_rules := xs\<rparr>) } = Some (put_rule n x zero_hw_rule (put_rule n ?s ?u ?A))"
      using middle x gA by (intro store_rules(1)) auto
    ultimately have "rule_del_after n (x - n) True DEL_MIDDLE ?A = Some (put_rule n x zero_hw_rule (put_rule n ?s ?u ?A))"
      using f sub by (simp add: rule_del_after_def Let_def)
    moreover have "rule_at n (put_rule n x zero_hw_rule (put_rule n ?s ?u ?A)) y = del_rule n x (rule_at n mem) y" if "y < n + m" for y
      using middle g gA x p s ps that by (auto simp: del_rule_def after_rule_cmd_def Let_def)
    moreover have "idx_at n (put_rule n x zero_hw_rule (put_rule n ?s ?u ?A)) = idx_at n mem"
      by (simp add: fun_eq_iff after_rule_cmd_def Let_def)
    ultimately show ?thesis using middle gA by (auto simp: rule_pos_of_def)
  next
    case last
    have "rule_del_after n (x - n) True DEL_LAST ?A = Some (put_rule n x zero_hw_rule ?A)"
      using store_rules(1) [OF gA last(1) x] by (simp add: rule_del_after_def)
    moreover have "rule_at n (put_rule n x zero_hw_rule ?A) y = del_rule n x (rule_at n mem) y" if "y < n + m" for y
      using last g gA x p that by (auto simp: del_rule_def after_rule_cmd_def Let_def)
    moreover have "idx_at n (put_rule n x zero_hw_rule ?A) = idx_at n mem"
      by (simp add: fun_eq_iff after_rule_cmd_def Let_def)
    ultimately show ?thesis using last gA by (auto simp: rule_pos_of_def)
  next
    case head
    then have "rule_del_after n x False DEL_HEAD ?A = Some ?A" by (simp add: rule_del_after_def)
    moreover have "rule_at n ?A y = del_rule n x (rule_at n mem) y" if "y < n + m" for y
      using head g x that by (auto simp: del_rule_def after_rule_cmd_def Let_def)
    moreover have "idx_at n ?A = idx_at n mem" by (simp add: fun_eq_iff after_rule_cmd_def Let_def)
    ultimately show ?thesis using head gA by (auto simp: rule_pos_of_def)
  next
    case one
    have "rule_del_after n x False DEL_ONLY_ONE ?A = Some (put_rule n x zero_hw_rule ?A)"
      using store_rules(2) [OF gA one(1)] by (simp add: rule_del_after_def)
    moreover have "rule_at n (put_rule n x zero_hw_rule ?A) y = del_rule n x (rule_at n mem) y" if "y < n + m" for y
      using one g gA x that by (auto simp: del_rule_def after_rule_cmd_def Let_def)
    moreover have "idx_at n (put_rule n x zero_hw_rule ?A) = idx_at n mem"
      by (simp add: fun_eq_iff after_rule_cmd_def Let_def)
    ultimately show ?thesis using one gA by (auto simp: rule_pos_of_def)
  qed
qed

text \<open>One run of the branch for a head, step by step.\<close>

lemma index_del_head_run:
  fixes rs :: "ipa_nat_rule list" and r :: ipa_nat_rule
  assumes "fetch (index_table_expn mem) nxt = Some w"
    and "(if index_next w \<noteq> 0 \<and> n \<le> index_next w then store meta (index_next w - n) i else Some meta) = Some meta1"
    and "store (index_table_expn mem) nxt 0 = Some xs \<and> mem\<lparr>index_table_expn := xs\<rparr> = mem1"
    and "fetch (index_table mem1) i = Some h"
    and "if n \<le> index_entry h
      then fetch (ipv4_expn_rules mem1) (index_entry h - n) = Some r \<and>
        store (ipv4_expn_rules mem1) (index_entry h - n) (UpdateSwSpecParams True (of_nat i) r) = Some rs \<and>
        mem1\<lparr>ipv4_expn_rules := rs\<rparr> = mem2
      else fetch (ipv4_rules mem1) (index_entry h) = Some r \<and>
        store (ipv4_rules mem1) (index_entry h) (UpdateSwSpecParams True (of_nat i) r) = Some rs \<and>
        mem1\<lparr>ipv4_rules := rs\<rparr> = mem2"
  shows "index_del_after n i indx_expn nxt DEL_HEAD (mem, meta) = Some (mem2, meta1)"
  using assms by (auto simp: index_del_after_def Let_def split: if_splits)

lemma index_del_after_at:
  assumes g: "geom n m mem" "geom n m mem'" and i: "i < n + m" and len: "length meta = m" and small: "n + m < 65536"
    and I: "idx_at n mem' = idx_at n (after_index_cmds n i meta mem)"
    and q: "n \<le> i \<Longrightarrow> meta ! (i - n) < n + m \<and> meta ! (i - n) \<noteq> i"
    and s: "index_next (idx_at n mem i) \<noteq> 0 \<Longrightarrow> n < index_next (idx_at n mem i) \<and> index_next (idx_at n mem i) < n + m \<and>
      index_next (idx_at n mem i) \<noteq> i"
    and e: "i < n \<Longrightarrow> index_next (idx_at n mem i) \<noteq> 0 \<Longrightarrow>
      index_entry (idx_at n mem (index_next (idx_at n mem i))) < n + m \<and>
      (index_next (idx_at n mem (index_next (idx_at n mem i))) \<noteq> 0 \<longrightarrow>
       n \<le> index_next (idx_at n mem (index_next (idx_at n mem i))) \<and>
       index_next (idx_at n mem (index_next (idx_at n mem i))) < n + m)"
  shows "\<exists>mem2. index_del_after n (if n \<le> i then i - n else i) (n \<le> i) (sub16 (index_next (idx_at n mem i)) n)
      (rule_pos_of n i (index_next (idx_at n mem i))) (mem', meta) = Some (mem2, del_meta n i meta (idx_at n mem)) \<and>
    geom n m mem2 \<and> (\<forall>y < n + m. idx_at n mem2 y = del_indx n i meta (idx_at n mem) y) \<and>
    (\<forall>y < n + m. rule_at n mem2 y = moved n i (idx_at n mem) (rule_at n mem') y)"
proof -
  let ?w = "idx_at n mem i"
  let ?s = "index_next ?w" and ?q = "meta ! (i - n)"
  have A: "idx_at n mem' y =
      (if n \<le> i then if y = ?q then set_half True (of_nat ?s) (idx_at n mem y) else idx_at n mem y
       else if y = i then (if ?s = 0 then set_half False 0 ?w else idx_at n mem ?s) else idx_at n mem y)"
    if "y < n + m" for y
    using that g(1) i q unfolding I by (auto simp: after_index_cmds_def Let_def)
  have sub: "?s \<noteq> 0 \<Longrightarrow> sub16 ?s n = ?s - n" using s small by (intro sub16_expn) auto
  consider (expn) "n \<le> i" | (head) "i < n" "?s \<noteq> 0" | (one) "i < n" "?s = 0" by linarith
  then show ?thesis
  proof cases
    case expn
    have f: "fetch (index_table_expn mem') (i - n) = Some ?w"
      using fetch_at(3) [OF g(2) expn i] A [OF i] expn q by simp
    note st = store_idx(1) [OF g(2) expn i, of 0]
    have im: "i - n < length meta" using expn i len by linarith
    have "?s \<noteq> 0 \<Longrightarrow> ?s - n < length meta" "?s \<noteq> 0 \<Longrightarrow> n \<le> ?s" using s len by auto
    then have "index_del_after n (i - n) True (sub16 ?s n) (rule_pos_of n i ?s) (mem', meta) =
        Some (put_idx n i 0 mem', del_meta n i meta (idx_at n mem))"
      using f st im expn by (auto simp: index_del_after_def rule_pos_of_def del_meta_def Let_def fetch_def [of meta] store_def [of meta]
          store_def [of "meta[?s - n := ?q]"])
    moreover have "idx_at n (put_idx n i 0 mem') y = del_indx n i meta (idx_at n mem) y" if "y < n + m" for y
      using A [OF that] g(2) i that expn by (simp add: del_indx_def Let_def)
    ultimately show ?thesis using expn g(2) by (auto simp: moved_def)
  next
    case head
    let ?v = "idx_at n mem ?s"
    let ?e = "index_entry ?v" and ?B = "put_idx n ?s 0 mem'"
    have sb: "n \<le> ?s" "?s < n + m" "?s \<noteq> i" using s head by auto
    have f: "fetch (index_table_expn mem') (?s - n) = Some ?v"
      using fetch_at(3) [OF g(2) sb(1,2)] A [OF sb(2)] sb head by simp
    note st = store_idx(1) [OF g(2) sb(1,2), of 0]
    have gB: "geom n m ?B" using g(2) by simp
    have fB: "fetch (index_table ?B) i = Some ?v"
      using fetch_at(4) [OF gB head(1)] A [OF i] g(2) i sb head by simp
    have eb: "?e < n + m" "index_next ?v \<noteq> 0 \<Longrightarrow> n \<le> index_next ?v \<and> index_next ?v - n < m" using e head by auto
    define u where "u = UpdateSwSpecParams True (of_nat i) (rule_at n mem' ?e)"
    have fr: "fetch (if n \<le> ?e then ipv4_expn_rules ?B else ipv4_rules ?B) (if n \<le> ?e then ?e - n else ?e) = Some (rule_at n mem' ?e)"
      using fetch_rule [OF gB eb(1)] by simp
    have meta: "(if index_next ?v \<noteq> 0 \<and> n \<le> index_next ?v then store meta (index_next ?v - n) i else Some meta) =
        Some (del_meta n i meta (idx_at n mem))"
      using head eb(2) len by (auto simp: store_def del_meta_def Let_def)
    have "index_del_after n i False (sub16 ?s n) DEL_HEAD (mem', meta) =
        Some (put_rule n ?e u ?B, del_meta n i meta (idx_at n mem))"
      unfolding sub [OF head(2)]
    proof (cases "n \<le> ?e")
      case True
      have "fetch (ipv4_expn_rules ?B) (?e - n) = Some (rule_at n mem' ?e)"
        using fetch_at(1) [OF gB True eb(1)] by simp
      with store_rule(1) [OF gB True eb(1), of u, unfolded u_def]
      show "index_del_after n i False (?s - n) DEL_HEAD (mem', meta) = Some (put_rule n ?e u ?B, del_meta n i meta (idx_at n mem))"
        unfolding u_def
        by (intro index_del_head_run [OF f meta st fB, where r = "rule_at n mem' ?e" and
              rs = "(ipv4_expn_rules ?B)[?e - n := UpdateSwSpecParams True (of_nat i) (rule_at n mem' ?e)]"])
          (simp only: True if_True simp_thms)
    next
      case False
      then have lt: "?e < n" by simp
      have "fetch (ipv4_rules ?B) ?e = Some (rule_at n mem' ?e)"
        using fetch_at(2) [OF gB lt] by simp
      with store_rule(2) [OF gB lt, of u, unfolded u_def]
      show "index_del_after n i False (?s - n) DEL_HEAD (mem', meta) = Some (put_rule n ?e u ?B, del_meta n i meta (idx_at n mem))"
        unfolding u_def
        by (intro index_del_head_run [OF f meta st fB, where r = "rule_at n mem' ?e" and
              rs = "(ipv4_rules ?B)[?e := UpdateSwSpecParams True (of_nat i) (rule_at n mem' ?e)]"])
          (simp only: False if_False simp_thms)
    qed
    moreover have "idx_at n (put_rule n ?e u ?B) y = del_indx n i meta (idx_at n mem) y" if "y < n + m" for y
      using A [OF that] g(2) sb that head by (simp add: del_indx_def Let_def)
    moreover have "rule_at n (put_rule n ?e u ?B) y = moved n i (idx_at n mem) (rule_at n mem') y" if "y < n + m" for y
      using gB eb that head by (simp add: moved_def u_def)
    ultimately show ?thesis using head gB by (auto simp: rule_pos_of_def)
  next
    case one
    have f: "fetch (index_table mem') i = Some (set_half False 0 ?w)"
      using fetch_at(4) [OF g(2) one(1)] A [OF i] one by simp
    note st = store_idx(2) [OF g(2) one(1), of 0]
    have "index_del_after n i False (sub16 ?s n) DEL_ONLY_ONE (mem', meta) = Some (put_idx n i 0 mem', meta)"
      using f st one by (simp add: index_del_after_def Let_def)
    moreover have "idx_at n (put_idx n i 0 mem') y = del_indx n i meta (idx_at n mem) y" if "y < n + m" for y
      using A [OF that] g(2) i that one by (simp add: del_indx_def Let_def)
    ultimately show ?thesis using one g(2) by (auto simp: rule_pos_of_def moved_def del_meta_def)
  qed
qed

lemma rule_id_parts: "odd (rule_id n x) \<longleftrightarrow> n \<le> x" "rule_id n x div 2 = (if n \<le> x then x - n else x)"
  by (auto simp: rule_id_def)

lemma post_del_spec:
  assumes k: "dma_works k" and inv: "nat_inv c mem meta ids rc ic"
  defines "n \<equiv> table_entries (ip4_tbl c)" and "m \<equiv> expn_table_entries (ip4_tbl c)"
  assumes x: "x < n + m" "live (rule_at n mem x)"
  shows "\<exists>c' mem'. post_del_dma_cmd k (if n \<le> x then x - n else x) (n \<le> x) (rule_pos_of n x (rule_next (rule_at n mem x))) c = Some (0, c') \<and>
    same_config c c' \<and> rule_id_array (ip4_tbl c') = Some ids \<and> t_mem (ip4_tbl c') = Some mem' \<and>
    index_expn_table_meta (ip4_tbl c') = Some (del_meta n (rule_indx (rule_at n mem x)) meta (idx_at n mem)) \<and> geom n m mem' \<and>
    (\<forall>y < n + m. rule_at n mem' y =
      moved n (rule_indx (rule_at n mem x)) (idx_at n mem) (del_rule n x (rule_at n mem)) y) \<and>
    (\<forall>y < n + m. idx_at n mem' y = del_indx n (rule_indx (rule_at n mem x)) meta (idx_at n mem) y)"
proof -
  note inv' = nat_invD [OF inv, folded n_def m_def]
  note t = tables_okD [OF inv'(8)]
  let ?r = "rule_at n mem x"
  define i where "i = rule_indx ?r"
  let ?w = "idx_at n mem i" and ?te = "if n \<le> x then x - n else x" and ?pos = "rule_pos_of n x (rule_next ?r)"
  have small: "n + m < 65536" using sizes_bounds [OF inv'(6)] by simp
  have en: "rule_enabled ?r" using x(2) by (simp add: live_def)
  have i: "i < n + m" "index_entry ?w = x" using t(7) x by (simp_all add: crossed_def i_def)
  have "x \<noteq> 0" using en t(3) by metis
  then have used: "index_entry ?w \<noteq> 0" using i(2) by simp
  note nx = neighbours [OF t(2) x(1) en] and ni = neighbours [OF t(4) i(1) used]
  have e: "index_entry (idx_at n mem (index_next ?w)) < n + m \<and>
      (index_next (idx_at n mem (index_next ?w)) \<noteq> 0 \<longrightarrow>
       n \<le> index_next (idx_at n mem (index_next ?w)) \<and> index_next (idx_at n mem (index_next ?w)) < n + m)"
    if "index_next ?w \<noteq> 0"
  proof -
    have s: "index_next ?w < n + m" "index_entry (idx_at n mem (index_next ?w)) \<noteq> 0" using ni(2) [OF that] by auto
    show ?thesis using t(7) s neighbours(2) [OF t(4) s] by (auto simp: crossed_def)
  qed
  have s: "n \<le> index_next ?w \<and> index_next ?w < n + m" if "index_next ?w \<noteq> 0"
    using ni(2) [OF that] by simp
  from fold_del_cmds [OF n_def [THEN meta_eq_to_obj_eq, symmetric] inv'(2,4) t(1,6) small i(1) s, of x] obtain cmds where cmds:
    "index_del_cmds (ip4_tbl c) mem ?w (if n \<le> i then i - n else i) (rule_pos_of n i (index_next ?w)) = Some cmds"
    "fold dma_write (ReorderCmds (rule_del_cmd (ip4_tbl c) ?r ?te ?pos # cmds)) mem =
      after_rule_cmd n x (after_index_cmds n i meta mem)" by blast
  define mem1 where "mem1 = after_index_cmds n i meta mem"
  have g1: "geom n m mem1" "rule_at n mem1 = rule_at n mem"
    using t(1) by (simp_all add: mem1_def after_index_cmds_def Let_def fun_eq_iff)
  from same_but_mem_dma [OF k inv'(3), of "ReorderCmds (rule_del_cmd (ip4_tbl c) ?r ?te ?pos # cmds)"] obtain c1 where c1:
    "ioctl_dma k (ReorderCmds (rule_del_cmd (ip4_tbl c) ?r ?te ?pos # cmds)) c = Some (0, c1)"
    "same_but_mem c (after_rule_cmd n x mem1) c1" unfolding cmds(2) mem1_def by blast
  have "\<exists>mem2. rule_del_after n ?te (n \<le> x) ?pos (after_rule_cmd n x mem1) = Some mem2 \<and> geom n m mem2 \<and>
      idx_at n mem2 = idx_at n mem1 \<and> (\<forall>y < n + m. rule_at n mem2 y = del_rule n x (rule_at n mem) y)"
    using rule_del_after_at [OF g1(1) x(1) small, unfolded g1(2)] nx by blast
  then obtain mem2 where mem2: "rule_del_after n ?te (n \<le> x) ?pos (after_rule_cmd n x mem1) = Some mem2" "geom n m mem2"
      "idx_at n mem2 = idx_at n mem1" "\<forall>y < n + m. rule_at n mem2 y = del_rule n x (rule_at n mem) y" by blast
  have "\<exists>mem3. index_del_after n (if n \<le> i then i - n else i) (n \<le> i) (sub16 (index_next ?w) n)
      (rule_pos_of n i (index_next ?w)) (mem2, meta) = Some (mem3, del_meta n i meta (idx_at n mem)) \<and>
    geom n m mem3 \<and> (\<forall>y < n + m. idx_at n mem3 y = del_indx n i meta (idx_at n mem) y) \<and>
    (\<forall>y < n + m. rule_at n mem3 y = moved n i (idx_at n mem) (rule_at n mem2) y)"
    by (rule index_del_after_at [OF t(1) mem2(2) i(1) t(6) small])
      (use mem2(3) ni e in \<open>simp_all add: mem1_def\<close>)
  then obtain mem3 where mem3: "index_del_after n (if n \<le> i then i - n else i) (n \<le> i) (sub16 (index_next ?w) n)
      (rule_pos_of n i (index_next ?w)) (mem2, meta) = Some (mem3, del_meta n i meta (idx_at n mem))"
    "geom n m mem3" "\<forall>y < n + m. idx_at n mem3 y = del_indx n i meta (idx_at n mem) y"
    "\<forall>y < n + m. rule_at n mem3 y = moved n i (idx_at n mem) (rule_at n mem2) y" by blast
  define c2 where "c2 = c1\<lparr>ip4_tbl := (ip4_tbl c1)\<lparr>t_mem := Some mem3,
      index_expn_table_meta := Some (del_meta n i meta (idx_at n mem))\<rparr>\<rparr>"
  have t1: "t_mem (ip4_tbl c1) = Some (after_rule_cmd n x mem1)" using c1(2) by (simp add: same_but_mem_def)
  have "post_del_dma_cmd k ?te (n \<le> x) ?pos c = Some (0, c2)"
    unfolding post_del_dma_cmd_def Let_def n_def [symmetric] inv'(3,4) Option.bind.simps
      fetch_rule [OF t(1) x(1)] i_def [symmetric] find_index_rule_pos_at [OF t(1) i(1)] fetch_idx [OF t(1) i(1)] cmds(1) c1(1)
      prod.case t1 mem2(1) mem3(1)
    using en by (simp add: c2_def t1 mem2(1) mem3(1))
  moreover have "same_config c c2" using c1(2) by (simp add: c2_def same_config_def same_but_mem_def)
  moreover have "rule_id_array (ip4_tbl c2) = Some ids" using c1(2) inv'(5) by (simp add: c2_def same_but_mem_def)
  moreover have "\<forall>y < n + m. rule_at n mem3 y = moved n i (idx_at n mem) (del_rule n x (rule_at n mem)) y"
    using mem3(4) mem2(4) by (simp add: moved_def)
  ultimately show ?thesis
    using mem3(2,3) by (intro exI [of _ c2] exI [of _ mem3]) (simp add: c2_def i_def [symmetric])
qed

text \<open>A handle without a rule is refused.\<close>

lemma nati_del_none:
  assumes inv: "nat_inv c mem meta ids rc ic" and h: "0 < h" "h < 65536"
    and none: "rules_of (table_entries (ip4_tbl c)) mem ids h = None"
  shows "nati_del_ipv4_rule k h c = Some (-22, c)"
proof -
  note inv' = nat_invD [OF inv]
  note d = ids_okD [OF tables_okD(10) [OF inv'(8)]]
  have "parse_ipv4_rule_hdl h (ip4_tbl c) = Some (False, 0)"
    using h none inv'(5) d(1) by (auto simp: parse_ipv4_rule_hdl_def rules_of_def fetch_def split: if_splits)
  with h show ?thesis by (simp add: nati_del_ipv4_rule_def)
qed

lemma nati_del_spec:
  assumes k: "dma_works k" and inv: "nat_inv c mem meta ids rc ic"
  defines "n \<equiv> table_entries (ip4_tbl c)"
  assumes some: "rules_of n mem ids h \<noteq> None"
  shows "\<exists>c' mem' meta' ids' rc' ic'. nati_del_ipv4_rule k h c = Some (0, c') \<and> same_config c c' \<and>
    nat_inv c' mem' meta' ids' rc' ic' \<and> rules_of n mem' ids' = (rules_of n mem ids)(h := None)"
proof -
  define m where "m = expn_table_entries (ip4_tbl c)"
  note inv' = nat_invD [OF inv, folded n_def m_def]
  note t = tables_okD [OF inv'(8)]
  note d = ids_okD [OF t(10)]
  have small: "n + m < 65536" using sizes_bounds [OF inv'(6)] by simp
  have h: "0 < h" "h < n + m" "ids ! (h - 1) \<noteq> 0" using some d(1) by (auto simp: rules_of_def split: if_splits)
  then have j: "h - 1 < n + m" "Suc (h - 1) = h" by auto
  from d(3) [OF j(1) h(3)] obtain x where x: "x < n + m" "ids ! (h - 1) = rule_id n x" "live (rule_at n mem x)" by blast
  have x0: "x \<noteq> 0" using x(3) t(3) unfolding live_def by metis
  have xn: "x \<noteq> n"
    using x(3) chained_expn_0 [OF t(2)] sizes_bounds [OF inv'(6)] unfolding live_def by auto
  let ?te = "if n \<le> x then x - n else x" and ?pos = "rule_pos_of n x (rule_next (rule_at n mem x))"
  have parse: "parse_ipv4_rule_hdl (h mod 65536) (ip4_tbl c) = Some (n \<le> x, ?te)"
    using h x(2) inv'(5) d(1) small
    by (simp add: parse_ipv4_rule_hdl_def fetch_def rule_id_parts n_def [symmetric] m_def [symmetric])
  have te: "?te \<noteq> 0" using x0 xn by auto
  have pos: "find_rule_pos mem (n \<le> x) ?te = Some ?pos" by (rule find_rule_pos_at [OF t(1) x(1)])
  from post_del_spec [OF k inv, folded n_def m_def, OF x(1,3)] obtain c1 mem1 where c1:
    "post_del_dma_cmd k ?te (n \<le> x) ?pos c = Some (0, c1)"
    "same_config c c1" "rule_id_array (ip4_tbl c1) = Some ids" "t_mem (ip4_tbl c1) = Some mem1"
    "index_expn_table_meta (ip4_tbl c1) = Some (del_meta n (rule_indx (rule_at n mem x)) meta (idx_at n mem))" "geom n m mem1"
    "\<forall>y < n + m. rule_at n mem1 y =
      moved n (rule_indx (rule_at n mem x)) (idx_at n mem) (del_rule n x (rule_at n mem)) y"
    "\<forall>y < n + m. idx_at n mem1 y = del_indx n (rule_indx (rule_at n mem x)) meta (idx_at n mem) y" by blast
  define mem2 where "mem2 = mem1\<lparr>ipv4_rules :=
      map (\<lambda>r. if read_protocol (ts_proto r) = 0xFF \<and> rule_next r = 0 then zero_hw_rule else r) (ipv4_rules mem1)\<rparr>"
  define c2 where "c2 = (set_mem mem2 c1)\<lparr>ip4_tbl := (ip4_tbl (set_mem mem2 c1))\<lparr>rule_id_array := Some (ids[h - 1 := 0])\<rparr>\<rparr>"
  have run: "nati_del_ipv4_rule k h c = Some (0, c2)"
    unfolding nati_del_ipv4_rule_def parse Option.bind.simps prod.case
    using te inv'(1,3) pos c1(1,3,4) j(1) d(1)
    by (simp add: del_dead_ipv4_head_nodes_def mem2_def [symmetric] store_def c2_def)
  have g2: "geom n m mem2" using c1(6) by (simp add: mem2_def geom_def)
  have R: "rule_at n mem2 y =
      reaped n (moved n (rule_indx (rule_at n mem x)) (idx_at n mem) (del_rule n x (rule_at n mem))) y" if "y < n + m" for y
  proof -
    have "rule_at n mem2 y = reaped n (rule_at n mem1) y"
      using that c1(6) by (auto simp: mem2_def rule_at_def reaped_def proto_of_def geom_def)
    also have "\<dots> = reaped n (moved n (rule_indx (rule_at n mem x)) (idx_at n mem) (del_rule n x (rule_at n mem))) y"
      using c1(7) that by (simp add: reaped_def)
    finally show ?thesis .
  qed
  have I: "idx_at n mem2 y = del_indx n (rule_indx (rule_at n mem x)) meta (idx_at n mem) y" if "y < n + m" for y
  proof -
    have "idx_at n mem2 y = idx_at n mem1 y" by (simp add: mem2_def idx_at_def)
    with c1(8) that show ?thesis by metis
  qed
  note del = tables_del [OF inv'(8) small x(1,3) j(1) x(2) g2 R I, unfolded j(2)]
  have same: "same_config c c2" using c1(2) by (simp add: c2_def same_config_def set_mem_def)
  from del(1) obtain rc' ic' where "tables_ok (dst_of c) (src_of c) n m mem2
      (del_meta n (rule_indx (rule_at n mem x)) meta (idx_at n mem)) (ids[h - 1 := 0]) rc' ic'" by blast
  then have "nat_inv c2 mem2 (del_meta n (rule_indx (rule_at n mem x)) meta (idx_at n mem)) (ids[h - 1 := 0]) rc' ic'"
    using inv' same same_config_hashes [OF same] c1(5)
    by (simp add: nat_inv_def Let_def c2_def same_config_def n_def m_def)
  with run same del(2) show ?thesis by blast
qed

end
