(* ===== verification/IpaNatRules.thy ===== *)
theory IpaNatRules
  imports IpaNatDelete
begin

text \<open>
  The NAT driver as a finite map from handles to rules: making the table, what a state holds, any
  sequence of additions and deletions, the look-up by hash, and what a kernel that refuses the DMA
  commands does to it.
\<close>

section \<open>What a state of the driver holds\<close>

definition nat_rules :: "ipa_nat_cache \<Rightarrow> nat \<rightharpoonup> ipa_nat_ipv4_rule" where
  "nat_rules c =
     (case (t_mem (ip4_tbl c), rule_id_array (ip4_tbl c)) of
        (Some mem, Some ids) \<Rightarrow> rules_of (table_entries (ip4_tbl c)) mem ids
      | _ \<Rightarrow> Map.empty)"

text \<open>What the hardware finds for a hash of the public side, and for one of the private side.\<close>

definition dst_bucket :: "ipa_nat_cache \<Rightarrow> nat \<Rightarrow> ipa_nat_ipv4_rule list" where
  "dst_bucket c b =
     (case t_mem (ip4_tbl c) of
        None \<Rightarrow> []
      | Some mem \<Rightarrow>
          let at = rule_at (table_entries (ip4_tbl c)) mem
          in map client_of (filter live (map at
               (follow (Suc (expn_table_entries (ip4_tbl c))) (\<lambda>x. rule_next (at x)) b))))"

definition src_bucket :: "ipa_nat_cache \<Rightarrow> nat \<Rightarrow> ipa_nat_ipv4_rule list" where
  "src_bucket c b =
     (case t_mem (ip4_tbl c) of
        None \<Rightarrow> []
      | Some mem \<Rightarrow>
          let n = table_entries (ip4_tbl c); at = idx_at n mem
          in map (\<lambda>x. client_of (rule_at n mem x)) (filter (\<lambda>x. x \<noteq> 0) (map (\<lambda>i. index_entry (at i))
               (follow (Suc (expn_table_entries (ip4_tbl c))) (\<lambda>i. index_next (at i)) b))))"

lemma nat_rules_inv: "nat_inv c mem meta ids rc ic \<Longrightarrow> nat_rules c = rules_of (table_entries (ip4_tbl c)) mem ids"
  using nat_invD [of c mem meta ids rc ic] by (simp add: nat_rules_def)

text \<open>The rules are those of the live entries.\<close>

lemma rules_live:
  assumes ok: "ids_ok n m mem ids" and x0: "\<not> live (rule_at n mem 0)"
  shows "ran (rules_of n mem ids) = {client_of (rule_at n mem x) | x. x < n + m \<and> live (rule_at n mem x)}"
proof -
  note d = ids_okD [OF ok]
  have "\<exists>x. x < n + m \<and> live (rule_at n mem x) \<and> r = client_of (rule_at n mem x)" if h: "rules_of n mem ids h = Some r" for h r
  proof -
    have hb: "h - 1 < n + m" "ids ! (h - 1) \<noteq> 0" "r = client_of (rule_at n mem (id_entry n (ids ! (h - 1))))"
      using h d(1) by (auto simp: rules_of_def split: if_splits)
    from d(3) [OF hb(1,2)] obtain x where "x < n + m" "ids ! (h - 1) = rule_id n x" "live (rule_at n mem x)" by blast
    with hb(3) show ?thesis by auto
  qed
  moreover have "\<exists>h. rules_of n mem ids h = Some (client_of (rule_at n mem x))" if x: "x < n + m" "live (rule_at n mem x)" for x
  proof -
    obtain j where j: "j < n + m" "ids ! j = rule_id n x" using d(5) [OF x] d(1) by (auto simp: in_set_conv_nth)
    have "x \<noteq> 0" using x(2) x0 by metis
    then have nz: "ids ! j \<noteq> 0" using j(2) by (simp add: rule_id_0)
    have "rules_of n mem ids (Suc j) = Some (client_of (rule_at n mem x))"
      using j d(1) d(2) [OF j(1) nz] nz by (simp add: rules_of_def)
    then show ?thesis by blast
  qed
  ultimately show ?thesis by (auto simp: ran_def)
qed

lemma nat_inv_facts:
  assumes "nat_inv c mem meta ids rc ic"
  defines "n \<equiv> table_entries (ip4_tbl c)" and "m \<equiv> expn_table_entries (ip4_tbl c)"
  shows "ran (nat_rules c) = {client_of (rule_at n mem x) | x. x < n + m \<and> live (rule_at n mem x)}"
proof -
  note t = tables_okD [OF nat_invD(8) [OF assms(1)]]
  have "\<not> live (rule_at n mem 0)" using t(3) by (simp add: live_def n_def)
  then show ?thesis using rules_live [OF t(10)] nat_rules_inv [OF assms(1)] by (simp add: n_def m_def)
qed

lemma dst_bucket_exact:
  assumes inv: "nat_inv c mem meta ids rc ic" and b: "b < table_entries (ip4_tbl c)"
  shows "set (dst_bucket c b) = {r \<in> ran (nat_rules c). dst_of c r = b}"
proof -
  define n where "n = table_entries (ip4_tbl c)"
  define m where "m = expn_table_entries (ip4_tbl c)"
  note inv' = nat_invD [OF inv, folded n_def m_def]
  note t = tables_okD [OF inv'(8)]
  have bn: "b < n" using b by (simp add: n_def)
  note p = chained_path [OF t(2)] and q = chained_bounds [OF t(2)]
  have "0 \<notin> set (rc b)" using q [OF bn] by force
  then have f: "follow (Suc m) (\<lambda>x. rule_next (rule_at n mem x)) b = b # rc b"
    using p [OF bn] chain_length [OF t(2) bn] by (intro follow_links) auto
  have mem: "(\<exists>x. (x = b \<or> x \<in> set (rc b)) \<and> live (rule_at n mem x) \<and> r = client_of (rule_at n mem x)) \<longleftrightarrow>
      (\<exists>x. x < n + m \<and> live (rule_at n mem x) \<and> r = client_of (rule_at n mem x)) \<and> dst_of c r = b" for r
  proof
    assume "\<exists>x. (x = b \<or> x \<in> set (rc b)) \<and> live (rule_at n mem x) \<and> r = client_of (rule_at n mem x)"
    then obtain x where x: "x \<in> set (b # rc b)" "live (rule_at n mem x)" "r = client_of (rule_at n mem x)" by auto
    moreover have "x < n + m" using x(1) q [OF bn, of x] bn by auto
    ultimately show "(\<exists>x. x < n + m \<and> live (rule_at n mem x) \<and> r = client_of (rule_at n mem x)) \<and> dst_of c r = b"
      using hashedD(1) [OF t(9) bn x(1,2)] by blast
  next
    assume "(\<exists>x. x < n + m \<and> live (rule_at n mem x) \<and> r = client_of (rule_at n mem x)) \<and> dst_of c r = b"
    then obtain x where x: "x < n + m" "live (rule_at n mem x)" "r = client_of (rule_at n mem x)" "dst_of c r = b" by blast
    have "\<exists>b' < n. x \<in> set (b' # rc b')"
    proof (cases "x < n")
      case False
      with chained_covers [OF t(2), of x] x show ?thesis by (auto simp: live_def)
    qed auto
    then obtain b' where b': "b' < n" "x \<in> set (b' # rc b')" by blast
    with hashedD(1) [OF t(9) b' x(2)] x show "\<exists>x. (x = b \<or> x \<in> set (rc b)) \<and> live (rule_at n mem x) \<and> r = client_of (rule_at n mem x)"
      by auto
  qed
  have "dst_bucket c b = map client_of (filter live (map (rule_at n mem) (b # rc b)))"
    using inv'(3) f by (simp add: dst_bucket_def Let_def n_def m_def del: follow.simps)
  then have "r \<in> set (dst_bucket c b) \<longleftrightarrow>
      (\<exists>x. (x = b \<or> x \<in> set (rc b)) \<and> live (rule_at n mem x) \<and> r = client_of (rule_at n mem x))" for r
    by auto
  then show ?thesis using mem nat_inv_facts [OF inv, folded n_def m_def] by auto
qed

lemma src_bucket_exact:
  assumes inv: "nat_inv c mem meta ids rc ic" and b: "b < table_entries (ip4_tbl c)"
  shows "set (src_bucket c b) = {r \<in> ran (nat_rules c). src_of c r = b}"
proof -
  define n where "n = table_entries (ip4_tbl c)"
  define m where "m = expn_table_entries (ip4_tbl c)"
  note inv' = nat_invD [OF inv, folded n_def m_def]
  note t = tables_okD [OF inv'(8)]
  have bn: "b < n" using b by (simp add: n_def)
  note p = chained_path [OF t(4)] and q = chained_bounds [OF t(4)]
  have "0 \<notin> set (ic b)" using q [OF bn] by force
  then have f: "follow (Suc m) (\<lambda>i. index_next (idx_at n mem i)) b = b # ic b"
    using p [OF bn] chain_length [OF t(4) bn] by (intro follow_links) auto
  let ?e = "\<lambda>i. index_entry (idx_at n mem i)"
  have mem: "(\<exists>i. (i = b \<or> i \<in> set (ic b)) \<and> ?e i \<noteq> 0 \<and> r = client_of (rule_at n mem (?e i))) \<longleftrightarrow>
      (\<exists>x. x < n + m \<and> live (rule_at n mem x) \<and> r = client_of (rule_at n mem x)) \<and> src_of c r = b" for r
  proof
    assume "\<exists>i. (i = b \<or> i \<in> set (ic b)) \<and> ?e i \<noteq> 0 \<and> r = client_of (rule_at n mem (?e i))"
    then obtain i where i: "i \<in> set (b # ic b)" "?e i \<noteq> 0" "r = client_of (rule_at n mem (?e i))" by auto
    moreover have "i < n + m" using i(1) q [OF bn, of i] bn by auto
    moreover from this have "?e i < n + m" "live (rule_at n mem (?e i))" using t(7) i(2) by (simp_all add: crossed_def)
    ultimately show "(\<exists>x. x < n + m \<and> live (rule_at n mem x) \<and> r = client_of (rule_at n mem x)) \<and> src_of c r = b"
      using hashedD(2) [OF t(9) bn i(1,2)] by blast
  next
    assume "(\<exists>x. x < n + m \<and> live (rule_at n mem x) \<and> r = client_of (rule_at n mem x)) \<and> src_of c r = b"
    then obtain x where x: "x < n + m" "live (rule_at n mem x)" "r = client_of (rule_at n mem x)" "src_of c r = b" by blast
    define i where "i = rule_indx (rule_at n mem x)"
    have i: "i < n + m" "?e i = x" using t(7) x(1,2) by (simp_all add: crossed_def i_def)
    have "x \<noteq> 0" using x(2) t(3) unfolding live_def by metis
    then have used: "?e i \<noteq> 0" using i(2) by simp
    have "\<exists>b' < n. i \<in> set (b' # ic b')"
    proof (cases "i < n")
      case False
      with chained_covers [OF t(4), of i] i(1) used show ?thesis by auto
    qed auto
    then obtain b' where b': "b' < n" "i \<in> set (b' # ic b')" by blast
    from hashedD(2) [OF t(9) b' used] x i(2) have "b' = b" by simp
    then show "\<exists>i. (i = b \<or> i \<in> set (ic b)) \<and> ?e i \<noteq> 0 \<and> r = client_of (rule_at n mem (?e i))"
      using b'(2) used x(3) i(2) by auto
  qed
  have "src_bucket c b = map (\<lambda>x. client_of (rule_at n mem x)) (filter (\<lambda>x. x \<noteq> 0) (map ?e (b # ic b)))"
    using inv'(3) f by (simp add: src_bucket_def Let_def n_def m_def del: follow.simps)
  then have "r \<in> set (src_bucket c b) \<longleftrightarrow>
      (\<exists>i. (i = b \<or> i \<in> set (ic b)) \<and> ?e i \<noteq> 0 \<and> r = client_of (rule_at n mem (?e i)))" for r
    by auto
  then show ?thesis using mem nat_inv_facts [OF inv, folded n_def m_def] by auto
qed

text \<open>When an expansion table is full, there are that many rules.\<close>

lemma card_live:
  assumes ok: "ids_ok n m mem ids" and x0: "\<not> live (rule_at n mem 0)"
    and X: "X \<subseteq> {..<n + m}" "\<And>x. x \<in> X \<Longrightarrow> live (rule_at n mem x)"
  shows "card X \<le> card (dom (rules_of n mem ids))"
proof -
  note d = ids_okD [OF ok]
  define h where "h x = (SOME j. j < n + m \<and> ids ! j = rule_id n x)" for x
  have h: "h x < n + m" "ids ! h x = rule_id n x" if "x \<in> X" for x
  proof -
    have "\<exists>j. j < n + m \<and> ids ! j = rule_id n x"
      using d(5) [of x] X that d(1) by (auto simp: in_set_conv_nth)
    from someI_ex [OF this] show "h x < n + m" "ids ! h x = rule_id n x" by (simp_all add: h_def)
  qed
  have "inj_on (\<lambda>x. Suc (h x)) X"
    by (rule inj_onI) (metis h(2) nat.inject rule_id_inj)
  moreover have "(\<lambda>x. Suc (h x)) ` X \<subseteq> dom (rules_of n mem ids)"
  proof
    fix j assume "j \<in> (\<lambda>x. Suc (h x)) ` X"
    then obtain x where x: "x \<in> X" "j = Suc (h x)" by blast
    have "x \<noteq> 0" using X(2) [OF x(1)] x0 by metis
    then have nz: "ids ! h x \<noteq> 0" using h [OF x(1)] by (simp add: rule_id_0)
    then show "j \<in> dom (rules_of n mem ids)"
      using x d(1) d(2) [OF h(1) [OF x(1)] nz] by (simp add: rules_of_def domIff)
  qed
  moreover have "finite (dom (rules_of n mem ids))"
    by (rule finite_subset [of _ "{..<n + m}"]) (auto simp: rules_of_def d(1) split: if_splits)
  ultimately show ?thesis by (rule card_inj_on_le)
qed

lemma tables_full_card:
  assumes inv: "nat_inv c mem meta ids rc ic"
  defines "n \<equiv> table_entries (ip4_tbl c)" and "m \<equiv> expn_table_entries (ip4_tbl c)"
  assumes full: "tables_full n m mem"
  shows "m - 1 \<le> card (dom (nat_rules c))"
proof -
  note inv' = nat_invD [OF inv, folded n_def m_def]
  note t = tables_okD [OF inv'(8)]
  have x0: "\<not> live (rule_at n mem 0)" using t(3) by (simp add: live_def)
  have "\<exists>X. X \<subseteq> {..<n + m} \<and> (\<forall>x \<in> X. live (rule_at n mem x)) \<and> card X = m - 1"
    using full unfolding tables_full_def
  proof
    assume a: "\<forall>y. n < y \<longrightarrow> y < n + m \<longrightarrow> rule_enabled (rule_at n mem y)"
    have "live (rule_at n mem y)" if "y \<in> {Suc n..<n + m}" for y
      using a that t(8) by (auto simp: live_def dead_heads_def)
    then show ?thesis by (intro exI [of _ "{Suc n..<n + m}"]) auto
  next
    let ?e = "\<lambda>i. index_entry (idx_at n mem i)"
    assume "\<forall>y. n < y \<longrightarrow> y < n + m \<longrightarrow> ?e y \<noteq> 0"
    then have a: "?e y < n + m \<and> live (rule_at n mem (?e y)) \<and> rule_indx (rule_at n mem (?e y)) = y" if "y \<in> {Suc n..<n + m}" for y
      using that t(7) by (simp add: crossed_def)
    have "inj_on ?e {Suc n..<n + m}" by (rule inj_onI) (metis a)
    then have "card (?e ` {Suc n..<n + m}) = m - 1" by (simp add: card_image)
    then show ?thesis using a by (intro exI [of _ "?e ` {Suc n..<n + m}"]) auto
  qed
  then show ?thesis
    using card_live [OF t(10) x0] nat_rules_inv [OF inv] by (metis n_def)
qed

section \<open>Making the table\<close>

text \<open>
  A kernel that carries out what it is asked, but refuses to allocate a second table; the memory it
  gives starts at offset 0.
\<close>

definition kernel_works :: "nat_kernel \<Rightarrow> bool" where
  "kernel_works k \<longleftrightarrow>
     dma_works k \<and> mem_offset k = 0 \<and>
     (\<forall>log op. answer k log op = (case op of IoAllocMem _ \<Rightarrow> if table_allocated log then -1 else 0 | _ \<Rightarrow> 0))"

lemma zero_tables_ok:
  assumes "2 \<le> n" and "2 \<le> m"
  shows "tables_ok D S n m
    \<lparr>ipv4_rules = replicate n zero_hw_rule, ipv4_expn_rules = replicate m zero_hw_rule,
     index_table = replicate n 0, index_table_expn = replicate m 0\<rparr>
    (replicate m 0) (replicate (n + m) 0) (\<lambda>_. []) (\<lambda>_. [])" (is "tables_ok D S n m ?mem _ _ _ _")
proof -
  have R: "rule_at n ?mem x = zero_hw_rule" if "x < n + m" for x using that by (simp add: rule_at_def)
  have I: "idx_at n ?mem x = 0" if "x < n + m" for x using that by (simp add: idx_at_def)
  have "geom n m ?mem" by (simp add: geom_def)
  moreover have "rules_chained n m ?mem (\<lambda>_. [])" using assms by (simp add: rules_chained_def chained_def R)
  moreover have "index_chained n m ?mem (replicate m 0) (\<lambda>_. [])" using assms by (simp add: index_chained_def chained_def I)
  moreover have "crossed n m ?mem" by (simp add: crossed_def R I)
  moreover have "dead_heads n m ?mem" by (simp add: dead_heads_def R)
  moreover have "hashed D S n ?mem (\<lambda>_. []) (\<lambda>_. [])" using assms by (simp add: hashed_def R I)
  moreover have "ids_ok n m ?mem (replicate (n + m) 0)" by (simp add: ids_ok_def R)
  ultimately show ?thesis by (simp add: tables_ok_def)
qed

text \<open>The state without a table.\<close>

definition no_table :: "ipa_nat_cache \<Rightarrow> bool" where
  "no_table c \<longleftrightarrow> ip4_tbl c = zero_table \<and> table_cnt c = 0 \<and> \<not> table_allocated (io_log c) \<and>
     0 < length (pdns c) \<and> length (pdns c) \<le> 16"

definition small_table :: "u16 \<Rightarrow> bool" where
  "small_table entries \<longleftrightarrow> 0 < unat entries \<and> unat entries \<le> 20480"

lemma small_table_sizes:
  "small_table entries \<Longrightarrow> \<exists>te me. table_sizes entries = (0, te, me) \<and> sizes_ok (unat te) (unat me) \<and> unat entries div 5 \<le> unat me"
proof -
  assume "small_table entries"
  then have b: "0 < unat entries" "unat entries \<le> 20480" by (simp_all add: small_table_def)
  from table_sizes_exact [OF b(1)] b(2) obtain j te me where
    s: "table_sizes entries = (0, te, me)" "0 < j" "unat te = 2 ^ j" "2 \<le> unat me" "unat entries div 5 \<le> unat me"
      "unat me \<le> unat entries div 5 + 2" "j = 1 \<or> 2 ^ j < 2 * (unat entries * 4 div 5)" by auto
  have "j \<le> 14"
  proof (rule ccontr)
    assume "\<not> j \<le> 14"
    then have "(2 :: nat) ^ 15 \<le> 2 ^ j" by (intro power_increasing) auto
    moreover have "2 * (unat entries * 4 div 5) \<le> 32768" using b(2) by simp
    ultimately show False using s(7) \<open>\<not> j \<le> 14\<close> by auto
  qed
  then have "sizes_ok (unat te) (unat me)" using s b(2) by (auto simp: sizes_ok_def)
  with s show ?thesis by blast
qed

text \<open>Making a table where there is none gives an empty one.\<close>

lemma add_tbl_spec:
  assumes k: "kernel_works k" and c: "no_table c" and e: "small_table entries"
  shows "\<exists>c' mem meta ids. nat_add_ipv4_tbl k ip entries c = Some (0, Some 1, c') \<and>
    nat_inv c' mem meta ids (\<lambda>_. []) (\<lambda>_. []) \<and> nat_rules c' = Map.empty \<and> table_cnt c' = 1 \<and>
    table_allocated (io_log c') \<and> unat entries div 5 \<le> expn_table_entries (ip4_tbl c') \<and>
    pdns c' = (pdns c)[0 := (pdns c ! 0)\<lparr>p_public_ip := ip\<rparr>] \<and> ver_v4_0 c' = hw_v4_0 k \<and> ipa_fd c'"
proof -
  from small_table_sizes [OF e] obtain te me where
    sz: "table_sizes entries = (0, te, me)" "sizes_ok (unat te) (unat me)" "unat entries div 5 \<le> unat me" by blast
  let ?n = "unat te" and ?m = "unat me"
  let ?mem = "\<lparr>ipv4_rules = replicate ?n zero_hw_rule, ipv4_expn_rules = replicate ?m zero_hw_rule,
     index_table = replicate ?n 0, index_table_expn = replicate ?m 0\<rparr>"
  have ans: "answer k log IoOpenIpa = 0" "answer k log IoGetVersion = 0" "answer k log IoOpenTable = 0" "answer k log IoMap = 0"
    "answer k log (IoInit a b d) = 0" "answer k log (IoAllocMem s) = (if table_allocated log then -1 else 0)" for log a b d s
    using k by (simp_all add: kernel_works_def)
  have en: "entries \<noteq> 0" using e by (auto simp: small_table_def)
  have run: "\<exists>c'. nat_add_ipv4_tbl k ip entries c = Some (0, Some 1, c') \<and> ip4_tbl c' = zero_table\<lparr>t_valid := True,
      t_public_addr := ip, table_entries := ?n, expn_table_entries := ?m,
      t_mem := Some ?mem, index_expn_table_meta := Some (replicate ?m 0), rule_id_array := Some (replicate (?n + ?m) 0)\<rparr> \<and>
    table_cnt c' = 1 \<and> table_allocated (io_log c') \<and> pdns c' = (pdns c)[0 := (pdns c ! 0)\<lparr>p_public_ip := ip\<rparr>] \<and>
    ver_v4_0 c' = hw_v4_0 k \<and> ipa_fd c'"
    using c k en
    by (simp add: nat_add_ipv4_tbl_def nati_add_ipv4_tbl_def alloc_table_def sz(1) syscall_def ans Let_def update_cache_def
        no_table_def zero_table_def post_ipv4_init_cmd_def reset_tbl_def set_mem_def kernel_works_def table_allocated_append table_allocated_snoc
        fetch_def store_def)
  then obtain c' where c': "nat_add_ipv4_tbl k ip entries c = Some (0, Some 1, c')"
    "ip4_tbl c' = zero_table\<lparr>t_valid := True, t_public_addr := ip, table_entries := ?n, expn_table_entries := ?m,
      t_mem := Some ?mem, index_expn_table_meta := Some (replicate ?m 0), rule_id_array := Some (replicate (?n + ?m) 0)\<rparr>"
    "table_cnt c' = 1" "table_allocated (io_log c')" "pdns c' = (pdns c)[0 := (pdns c ! 0)\<lparr>p_public_ip := ip\<rparr>]"
    "ver_v4_0 c' = hw_v4_0 k" "ipa_fd c'" by blast
  have "nat_inv c' ?mem (replicate ?m 0) (replicate (?n + ?m) 0) (\<lambda>_. []) (\<lambda>_. [])"
    using c'(2,5) sz(2) sizes_bounds [OF sz(2)] c zero_tables_ok [of ?n ?m]
    by (simp add: nat_inv_def Let_def zero_table_def no_table_def)
  moreover from nat_rules_inv [OF this] have "nat_rules c' = Map.empty"
    by (auto simp: rules_of_def fun_eq_iff)
  ultimately show ?thesis using c' sz(3) by (simp add: zero_table_def) blast
qed

section \<open>The driver as a finite map\<close>

datatype nat_op = OpAdd ipa_nat_ipv4_rule | OpDel nat

text \<open>A result is the return code and the handle, where one was written.\<close>

definition nat_do :: "nat_kernel \<Rightarrow> nat_op \<Rightarrow> ipa_nat_cache \<Rightarrow> ((int \<times> nat option) \<times> ipa_nat_cache) option" where
  "nat_do k op c =
     (case op of
        OpAdd r \<Rightarrow> map_option (\<lambda>(ret, hdl, c'). ((ret, hdl), c')) (nat_add_ipv4_rule k 1 r c)
      | OpDel h \<Rightarrow> map_option (\<lambda>(ret, c'). ((ret, None), c')) (nat_del_ipv4_rule k 1 h c))"

fun nat_run :: "nat_kernel \<Rightarrow> nat_op list \<Rightarrow> ipa_nat_cache \<Rightarrow> ((int \<times> nat option) list \<times> ipa_nat_cache) option" where
  "nat_run k [] c = Some ([], c)"
| "nat_run k (op # ops) c =
     do {
       (res, c1) \<leftarrow> nat_do k op c;
       (rs, c2) \<leftarrow> nat_run k ops c1;
       Some (res # rs, c2)
     }"

text \<open>
  What the results mean for a map from handles to rules: a new rule gets a handle of its own, and is
  refused only when there are at least \<open>cap\<close> rules or its network has no address; a handle with a
  rule can be deleted, another one is refused.
\<close>

fun spec_step :: "nat \<Rightarrow> nat_op \<times> int \<times> nat option \<Rightarrow> (nat \<rightharpoonup> ipa_nat_ipv4_rule) \<Rightarrow> (nat \<rightharpoonup> ipa_nat_ipv4_rule) option" where
  "spec_step cap (OpAdd r, ret, Some h) m = (if ret = 0 \<and> 0 < h \<and> m h = None then Some (m(h \<mapsto> r)) else None)"
| "spec_step cap (OpAdd r, ret, None) m =
     (if ret = -22 \<and> (cap \<le> card (dom m) \<or> nr_pdn_index r \<noteq> 0) then Some m else None)"
| "spec_step cap (OpDel h, ret, Some _) m = None"
| "spec_step cap (OpDel h, ret, None) m =
     (if m h = None then if ret = -22 then Some m else None
      else if ret = 0 then Some (m(h := None)) else None)"

fun spec_run :: "nat \<Rightarrow> (nat_op \<times> int \<times> nat option) list \<Rightarrow> (nat \<rightharpoonup> ipa_nat_ipv4_rule) \<Rightarrow> (nat \<rightharpoonup> ipa_nat_ipv4_rule) option" where
  "spec_run cap [] m = Some m"
| "spec_run cap (x # xs) m = Option.bind (spec_step cap x m) (spec_run cap xs)"

fun op_ok :: "nat_op \<Rightarrow> bool" where
  "op_ok (OpAdd r) = (nr_protocol r \<noteq> 0xFF)"
| "op_ok (OpDel h) = (h < 65536)"

definition has_table :: "ipa_nat_cache \<Rightarrow> bool" where
  "has_table c \<longleftrightarrow> (\<exists>mem meta ids rc ic. nat_inv c mem meta ids rc ic) \<and> pdns c \<noteq> [] \<and> p_public_ip (pdns c ! 0) \<noteq> 0"

lemma has_tableI:
  "nat_inv c' mem meta ids rc ic \<Longrightarrow> same_config c c' \<Longrightarrow> has_table c \<Longrightarrow> has_table c'"
  unfolding has_table_def same_config_def by metis

lemma nat_add_ok:
  assumes k: "dma_works k" and c: "has_table c" and proto: "nr_protocol r \<noteq> 0xFF"
  shows "\<exists>res c'. nat_do k (OpAdd r) c = Some (res, c') \<and> has_table c' \<and> same_config c c' \<and>
    spec_step (expn_table_entries (ip4_tbl c) - 1) (OpAdd r, res) (nat_rules c) = Some (nat_rules c')"
proof -
  from c obtain mem meta ids rc ic where inv: "nat_inv c mem meta ids rc ic" by (auto simp: has_table_def)
  let ?full = "expn_table_entries (ip4_tbl c) - 1 \<le> card (dom (nat_rules c))"
  show ?thesis
  proof (cases "length (pdns c) \<le> unat (nr_pdn_index r) \<or> p_public_ip (pdns c ! unat (nr_pdn_index r)) = 0")
    case True
    then have "nr_pdn_index r \<noteq> 0" using c by (auto simp: has_table_def)
    then have "nat_do k (OpAdd r) c = Some ((-22, None), c)"
      "spec_step (expn_table_entries (ip4_tbl c) - 1) (OpAdd r, -22, None) (nat_rules c) = Some (nat_rules c)"
      using True by (simp_all add: nat_do_def nat_add_ipv4_rule_def nati_add_ipv4_rule_def)
    with c show ?thesis using same_config_refl by blast
  next
    case False
    then have pdn: "unat (nr_pdn_index r) < length (pdns c)" "p_public_ip (pdns c ! unat (nr_pdn_index r)) \<noteq> 0" by auto
    from nati_add_spec [OF k inv pdn proto] show ?thesis
    proof (elim disjE exE conjE)
      assume a: "nati_add_ipv4_rule k r c = Some (-22, None, c)"
        "tables_full (table_entries (ip4_tbl c)) (expn_table_entries (ip4_tbl c)) mem"
      then have "nat_do k (OpAdd r) c = Some ((-22, None), c)" by (simp add: nat_do_def nat_add_ipv4_rule_def)
      moreover have "spec_step (expn_table_entries (ip4_tbl c) - 1) (OpAdd r, -22, None) (nat_rules c) = Some (nat_rules c)"
        using tables_full_card [OF inv a(2)] by simp
      ultimately show ?thesis using c same_config_refl by blast
    next
      fix j c' mem' meta' ids' rc' ic'
      assume a: "nati_add_ipv4_rule k r c = Some (0, Some (Suc j), c')" "same_config c c'"
        "nat_inv c' mem' meta' ids' rc' ic'"
        "rules_of (table_entries (ip4_tbl c)) mem ids (Suc j) = None"
        "rules_of (table_entries (ip4_tbl c)) mem' ids' = (rules_of (table_entries (ip4_tbl c)) mem ids)(Suc j \<mapsto> r)"
      have n: "table_entries (ip4_tbl c') = table_entries (ip4_tbl c)" using a(2) by (simp add: same_config_def)
      have m: "nat_rules c' = (nat_rules c)(Suc j \<mapsto> r)" "nat_rules c (Suc j) = None"
        using a(4,5) nat_rules_inv [OF a(3)] nat_rules_inv [OF inv] by (simp_all add: n)
      have "nat_do k (OpAdd r) c = Some ((0, Some (Suc j)), c')"
        using a(1) by (simp add: nat_do_def nat_add_ipv4_rule_def)
      moreover have "spec_step (expn_table_entries (ip4_tbl c) - 1) (OpAdd r, 0, Some (Suc j)) (nat_rules c) = Some (nat_rules c')"
        using m by simp
      ultimately show ?thesis using a(2) has_tableI [OF a(3,2) c] by blast
    qed
  qed
qed

lemma nat_del_ok:
  assumes k: "dma_works k" and c: "has_table c" and h: "h < 65536"
  shows "\<exists>res c'. nat_do k (OpDel h) c = Some (res, c') \<and> has_table c' \<and> same_config c c' \<and>
    spec_step (expn_table_entries (ip4_tbl c) - 1) (OpDel h, res) (nat_rules c) = Some (nat_rules c')"
proof -
  from c obtain mem meta ids rc ic where inv: "nat_inv c mem meta ids rc ic" by (auto simp: has_table_def)
  note m = nat_rules_inv [OF inv]
  show ?thesis
  proof (cases "nat_rules c h")
    case None
    have "nat_do k (OpDel h) c = Some ((-22, None), c)"
    proof (cases "h = 0")
      case False
      with nati_del_none [OF inv _ h, of k] None show ?thesis by (simp add: m nat_do_def nat_del_ipv4_rule_def)
    qed (simp add: nat_do_def nat_del_ipv4_rule_def)
    moreover have "spec_step (expn_table_entries (ip4_tbl c) - 1) (OpDel h, -22, None) (nat_rules c) = Some (nat_rules c)"
      using None by simp
    ultimately show ?thesis using c same_config_refl by blast
  next
    case (Some r)
    then have "h \<noteq> 0" by (auto simp: m rules_of_def split: if_splits)
    from nati_del_spec [OF k inv, of h] Some obtain c' mem' meta' ids' rc' ic' where
      a: "nati_del_ipv4_rule k h c = Some (0, c')" "same_config c c'" "nat_inv c' mem' meta' ids' rc' ic'"
        "rules_of (table_entries (ip4_tbl c)) mem' ids' = (rules_of (table_entries (ip4_tbl c)) mem ids)(h := None)"
      by (auto simp: m)
    have n: "table_entries (ip4_tbl c') = table_entries (ip4_tbl c)" using a(2) by (simp add: same_config_def)
    have "nat_do k (OpDel h) c = Some ((0, None), c')"
      using a(1) \<open>h \<noteq> 0\<close> by (simp add: nat_do_def nat_del_ipv4_rule_def)
    moreover have "spec_step (expn_table_entries (ip4_tbl c) - 1) (OpDel h, 0, None) (nat_rules c) = Some (nat_rules c')"
      using Some a(4) nat_rules_inv [OF a(3)] by (simp add: m n)
    ultimately show ?thesis using a(2) has_tableI [OF a(3,2) c] by blast
  qed
qed

lemma nat_do_ok:
  "dma_works k \<Longrightarrow> has_table c \<Longrightarrow> op_ok op \<Longrightarrow>
   \<exists>res c'. nat_do k op c = Some (res, c') \<and> has_table c' \<and> same_config c c' \<and>
     spec_step (expn_table_entries (ip4_tbl c) - 1) (op, res) (nat_rules c) = Some (nat_rules c')"
  using nat_add_ok nat_del_ok by (cases op) auto

lemma nat_run_ok:
  "dma_works k \<Longrightarrow> has_table c \<Longrightarrow> list_all op_ok ops \<Longrightarrow>
   \<exists>rs c'. nat_run k ops c = Some (rs, c') \<and> length rs = length ops \<and> has_table c' \<and> same_config c c' \<and>
     spec_run (expn_table_entries (ip4_tbl c) - 1) (zip ops rs) (nat_rules c) = Some (nat_rules c')"
proof (induction ops arbitrary: c)
  case Nil
  then show ?case by simp
next
  case (Cons op ops)
  from nat_do_ok [OF Cons.prems(1,2), of op] Cons.prems(3) obtain res c1 where
    1: "nat_do k op c = Some (res, c1)" "has_table c1" "same_config c c1"
      "spec_step (expn_table_entries (ip4_tbl c) - 1) (op, res) (nat_rules c) = Some (nat_rules c1)" by auto
  have m: "expn_table_entries (ip4_tbl c1) = expn_table_entries (ip4_tbl c)" using 1(3) by (simp add: same_config_def)
  from Cons.IH [OF Cons.prems(1) 1(2)] Cons.prems(3) obtain rs c2 where
    2: "nat_run k ops c1 = Some (rs, c2)" "length rs = length ops" "has_table c2" "same_config c1 c2"
      "spec_run (expn_table_entries (ip4_tbl c) - 1) (zip ops rs) (nat_rules c1) = Some (nat_rules c2)" by (auto simp: m)
  have "nat_run k (op # ops) c = Some (res # rs, c2)" using 1(1) 2(1) by (cases res) simp
  with 1 2 same_config_trans [OF 1(3) 2(4)] show ?case by (intro exI [of _ "res # rs"] exI [of _ c2]) simp
qed

lemma fresh_has_table:
  assumes "kernel_works k" and "small_table entries" and "ip \<noteq> 0" and "0 < num" and "num \<le> 16"
  shows "\<exists>c. nat_add_ipv4_tbl k ip entries (new_nat_cache num) = Some (0, Some 1, c) \<and> has_table c \<and>
    nat_rules c = Map.empty \<and> unat entries div 5 \<le> expn_table_entries (ip4_tbl c)"
proof -
  have "no_table (new_nat_cache num)"
    using assms(4,5) by (simp add: no_table_def new_nat_cache_def table_allocated_def)
  from add_tbl_spec [OF assms(1) this assms(2), of ip] obtain c mem meta ids where c:
    "nat_add_ipv4_tbl k ip entries (new_nat_cache num) = Some (0, Some 1, c)"
    "nat_inv c mem meta ids (\<lambda>_. []) (\<lambda>_. [])" "nat_rules c = Map.empty"
    "unat entries div 5 \<le> expn_table_entries (ip4_tbl c)"
    "pdns c = (pdns (new_nat_cache num))[0 := (pdns (new_nat_cache num) ! 0)\<lparr>p_public_ip := ip\<rparr>]" by blast
  have "p_public_ip (pdns c ! 0) \<noteq> 0" "pdns c \<noteq> []" using c(5) assms(3,4) by (auto simp: new_nat_cache_def)
  with c(2) have "has_table c" unfolding has_table_def by blast
  with c show ?thesis by blast
qed

section \<open>Examples\<close>

text \<open>A kernel that works, as a function.\<close>

definition ideal_kernel :: nat_kernel where
  "ideal_kernel =
     \<lparr>answer = \<lambda>log op. case op of IoAllocMem _ \<Rightarrow> if table_allocated log then -1 else 0 | _ \<Rightarrow> 0,
      dma_effect = \<lambda>log cmds mem. fold dma_write cmds mem, hw_v4_0 = True, mem_offset = 0,
      mapped_mem = \<lparr>ipv4_rules = [], ipv4_expn_rules = [], index_table = [], index_table_expn = []\<rparr>\<rparr>"

lemma ideal_kernel_works: "kernel_works ideal_kernel"
  by (simp add: kernel_works_def dma_works_def ideal_kernel_def split: nat_io.split)

definition example_nat_rule :: "u16 \<Rightarrow> ipa_nat_ipv4_rule" where
  "example_nat_rule port =
     \<lparr>nr_target_ip = 20, nr_private_ip = 10, nr_target_port = 80, nr_private_port = 1000, nr_public_port = port,
      nr_protocol = 6, nr_pdn_index = 0\<rparr>"

section \<open>A failing kernel\<close>

text \<open>A kernel that refuses the DMA commands, without effect.\<close>

definition dma_fails :: "nat_kernel \<Rightarrow> bool" where
  "dma_fails k \<longleftrightarrow> (\<forall>log cmds mem. answer k log (IoDma cmds) \<noteq> 0 \<and> dma_effect k log cmds mem = mem)"

definition used_index_entries :: "ipa_nat_cache \<Rightarrow> nat" where
  "used_index_entries c =
     (case t_mem (ip4_tbl c) of
        None \<Rightarrow> 0
      | Some mem \<Rightarrow> length (filter (\<lambda>w. index_entry w \<noteq> 0) (index_table mem @ index_table_expn mem)))"

lemma length_filter_update:
  "i < length xs \<Longrightarrow> \<not> P (xs ! i) \<Longrightarrow> P v \<Longrightarrow> length (filter P (xs[i := v])) = Suc (length (filter P xs))"
  by (induction xs arbitrary: i) (auto split: nat.splits simp: nth_Cons' less_Suc_eq_0_disj)

lemma put_idx_append:
  "geom n m mem \<Longrightarrow> i < n + m \<Longrightarrow>
   index_table (put_idx n i w mem) @ index_table_expn (put_idx n i w mem) = (index_table mem @ index_table_expn mem)[i := w]"
  by (auto simp: put_idx_def geom_def list_update_append)

lemma idx_at_append:
  "geom n m mem \<Longrightarrow> i < n + m \<Longrightarrow> (index_table mem @ index_table_expn mem) ! i = idx_at n mem i"
  by (auto simp: idx_at_def geom_def nth_append)

lemma ioctl_dma_fails:
  "dma_fails k \<Longrightarrow> t_mem (ip4_tbl c) = Some mem \<Longrightarrow>
   \<exists>ret. ret \<noteq> 0 \<and> ioctl_dma k cmds c = Some (ret, set_mem mem (c\<lparr>io_log := io_log c @ [IoDma cmds]\<rparr>))"
  by (simp add: ioctl_dma_def syscall_def dma_fails_def)

lemma write_next_fails:
  assumes "dma_fails k" and "t_mem (ip4_tbl c) = Some mem"
  shows "\<exists>c'. write_next_index k tt v off c = Some c' \<and> ip4_tbl c' = ip4_tbl c"
proof -
  from ioctl_dma_fails [OF assms] obtain ret where
    "ioctl_dma k [\<lparr>base_addr = tt, dma_data = v, dma_offset = off\<rparr>] c =
      Some (ret, set_mem mem (c\<lparr>io_log := io_log c @ [IoDma [\<lparr>base_addr = tt, dma_data = v, dma_offset = off\<rparr>]]\<rparr>))" by blast
  moreover have "(ip4_tbl c)\<lparr>t_mem := Some mem\<rparr> = ip4_tbl c" using assms(2) by simp
  ultimately show ?thesis by (simp add: write_next_index_def set_mem_def)
qed

lemma copies_fail:
  assumes k: "dma_fails k" and mem: "t_mem (ip4_tbl c) = Some mem" and n: "table_entries (ip4_tbl c) = n"
    and g: "geom n m mem" and x: "x < n + m"
  shows "\<exists>c'. copy_ipv4_rule_to_hw k sw x c = Some c' \<and> ip4_tbl c' = (ip4_tbl c)\<lparr>t_mem := Some (put_rule n x (rule_to_hw sw) mem)\<rparr>"
    and "\<exists>c'. copy_ipv4_index_rule_to_hw k v q x c = Some c' \<and>
      ip4_tbl c' = (ip4_tbl c)\<lparr>t_mem := Some (put_idx n x (mk32 0 (of_nat v)) mem)\<rparr>"
proof -
  have w: "\<exists>c'. write_next_index k tt v off (set_mem mem' c) = Some c' \<and> ip4_tbl c' = (ip4_tbl c)\<lparr>t_mem := Some mem'\<rparr>"
    for tt v off mem'
    using write_next_fails [OF k, of "set_mem mem' c" mem' tt v off] by (simp add: set_mem_def)
  show "\<exists>c'. copy_ipv4_rule_to_hw k sw x c = Some c' \<and> ip4_tbl c' = (ip4_tbl c)\<lparr>t_mem := Some (put_rule n x (rule_to_hw sw) mem)\<rparr>"
    using mem g x w by (auto simp: copy_ipv4_rule_to_hw_def Let_def store_def put_rule_def geom_def n set_mem_def)
  show "\<exists>c'. copy_ipv4_index_rule_to_hw k v q x c = Some c' \<and>
      ip4_tbl c' = (ip4_tbl c)\<lparr>t_mem := Some (put_idx n x (mk32 0 (of_nat v)) mem)\<rparr>"
    using mem g x w by (auto simp: copy_ipv4_index_rule_to_hw_def Let_def store_def put_idx_def geom_def n set_mem_def)
qed

lemma failed_add:
  assumes k: "dma_fails k" and c: "has_table c" and r: "nr_pdn_index r = 0"
    and room: "card (dom (nat_rules c)) < expn_table_entries (ip4_tbl c) - 1"
  shows "\<exists>c'. nat_add_ipv4_rule k 1 r c = Some (-22, None, c') \<and> nat_rules c' = nat_rules c \<and>
    used_index_entries c' = Suc (used_index_entries c)"
proof -
  define n where "n = table_entries (ip4_tbl c)"
  define m where "m = expn_table_entries (ip4_tbl c)"
  from c obtain mem meta ids rc ic where inv: "nat_inv c mem meta ids rc ic" by (auto simp: has_table_def)
  note inv' = nat_invD [OF inv, folded n_def m_def]
  note t = tables_okD [OF inv'(8)]
  have pdn: "unat (nr_pdn_index r) < length (pdns c)" "p_public_ip (pdns c ! unat (nr_pdn_index r)) \<noteq> 0"
    using c r by (simp_all add: has_table_def)
  have full: "\<not> tables_full n m mem" using tables_full_card [OF inv] room by (auto simp: n_def m_def)
  let ?ip = "p_public_ip (pdns c ! unat (nr_pdn_index r))"
  from generate_rule_spec [OF inv pdn(1), folded n_def m_def] full obtain x p i q meta' where
    gen: "generate_rule c r = Some (Some (client_to_sw ?ip r\<lparr>s_prev_index := of_nat p, s_indx_tbl_entry := of_nat i\<rparr>, x, i, q),
      c\<lparr>ip4_tbl := (ip4_tbl c)\<lparr>index_expn_table_meta := Some meta'\<rparr>\<rparr>)" and nz: "x \<noteq> 0"
    and sx: "slot_for n m (\<lambda>x. rule_enabled (rule_at n mem x)) rc (dst_of c r) x p"
    and si: "slot_for n m (\<lambda>i. index_entry (idx_at n mem i) \<noteq> 0) ic (src_of c r) i q" by blast
  have ich2: "\<not> index_entry (idx_at n mem 0) \<noteq> 0" using t(5) by simp
  note fx = slot_for_facts [OF t(2) sx t(3)] and fi = slot_for_facts [OF t(4) si ich2]
  let ?sw = "client_to_sw ?ip r\<lparr>s_prev_index := of_nat p, s_indx_tbl_entry := of_nat i\<rparr>"
    and ?c1 = "c\<lparr>ip4_tbl := (ip4_tbl c)\<lparr>index_expn_table_meta := Some meta'\<rparr>\<rparr>"
  define mem1 where "mem1 = put_rule n x (rule_to_hw ?sw) mem"
  define mem2 where "mem2 = put_idx n i (mk32 0 (of_nat x)) mem1"
  have g1: "geom n m mem1" using t(1) by (simp add: mem1_def)
  have m1: "t_mem (ip4_tbl ?c1) = Some mem" "table_entries (ip4_tbl ?c1) = n" using inv'(3) by (simp_all add: n_def)
  from copies_fail(1) [OF k m1 t(1) fx(1)] obtain c2 where c2: "copy_ipv4_rule_to_hw k ?sw x ?c1 = Some c2"
    "ip4_tbl c2 = (ip4_tbl ?c1)\<lparr>t_mem := Some mem1\<rparr>" unfolding mem1_def by blast
  have m2: "t_mem (ip4_tbl c2) = Some mem1" "table_entries (ip4_tbl c2) = n" by (simp_all add: c2(2) n_def)
  from copies_fail(2) [OF k m2 g1 fi(1)] obtain c3 where c3: "copy_ipv4_index_rule_to_hw k x q i c2 = Some c3"
    "ip4_tbl c3 = (ip4_tbl c2)\<lparr>t_mem := Some mem2\<rparr>" unfolding mem2_def by blast
  have m3: "t_mem (ip4_tbl c3) = Some mem2" by (simp add: c3(2))
  obtain c4 where c4: "post_ipv4_dma_cmd k x c3 = Some (-5, c4)" "ip4_tbl c4 = ip4_tbl c3"
  proof -
    let ?cmds = "[if x < table_entries (ip4_tbl c3)
        then \<lparr>base_addr = IPA_NAT_BASE_TBL, dma_data = 0x8000, dma_offset = x * 32 + 18\<rparr>
        else \<lparr>base_addr = IPA_NAT_EXPN_TBL, dma_data = 0x8000,
              dma_offset = (x - table_entries (ip4_tbl c3)) * 32 + 18 + tbl_addr_offset (ip4_tbl c3)\<rparr>]"
    have "(ip4_tbl c3)\<lparr>t_mem := Some mem2\<rparr> = ip4_tbl c3" using m3 by simp
    with ioctl_dma_fails [OF k m3, of ?cmds] that show ?thesis by (auto simp: post_ipv4_dma_cmd_def Let_def set_mem_def)
  qed
  have run: "nat_add_ipv4_rule k 1 r c = Some (-22, None, c4)"
    using pdn by (simp add: nat_add_ipv4_rule_def nati_add_ipv4_rule_def gen c2(1) c3(1) c4(1))
  have t4: "t_mem (ip4_tbl c4) = Some mem2" "rule_id_array (ip4_tbl c4) = Some ids" "table_entries (ip4_tbl c4) = n"
    using inv'(5) by (simp_all add: c4(2) c3(2) c2(2) n_def)
  have "rules_of n mem2 ids = rules_of n mem ids"
  proof
    fix h
    show "rules_of n mem2 ids h = rules_of n mem ids h"
    proof (cases "0 < h \<and> h < length ids \<and> ids ! (h - 1) \<noteq> 0")
      case True
      note d = ids_okD [OF t(10)]
      have hb: "h - 1 < n + m" "ids ! (h - 1) \<noteq> 0" using True d(1) by auto
      from d(3) [OF hb] obtain y where y: "y < n + m" "ids ! (h - 1) = rule_id n y" "live (rule_at n mem y)" by blast
      then have "y \<noteq> x" using fx(2) by (auto simp: live_def)
      then show ?thesis using y t(1) fx(1) by (simp add: rules_of_def mem2_def mem1_def)
    qed (auto simp: rules_of_def)
  qed
  then have rules: "nat_rules c4 = nat_rules c" using t4 nat_rules_inv [OF inv] by (simp add: nat_rules_def n_def)
  let ?used = "\<lambda>w. index_entry w \<noteq> 0"
  have x16: "x < 65536" using fx(1) sizes_bounds [OF inv'(6)] by simp
  have "length (filter ?used (index_table mem2 @ index_table_expn mem2)) =
      Suc (length (filter ?used (index_table mem1 @ index_table_expn mem1)))"
    unfolding mem2_def put_idx_append [OF g1 fi(1)]
    by (rule length_filter_update) (use g1 fi(1,2) idx_at_append [OF g1 fi(1)] nz x16 in \<open>simp_all add: geom_def mem1_def\<close>)
  moreover have "index_table mem1 = index_table mem" "index_table_expn mem1 = index_table_expn mem"
    by (simp_all add: mem1_def put_rule_def)
  ultimately have "used_index_entries c4 = Suc (used_index_entries c)"
    using t4(1) inv'(3) by (simp add: used_index_entries_def)
  with run rules show ?thesis by blast
qed

definition deaf_kernel :: nat_kernel where
  "deaf_kernel = ideal_kernel\<lparr>answer := \<lambda>log op. case op of IoDma _ \<Rightarrow> -1 | _ \<Rightarrow> answer ideal_kernel log op,
     dma_effect := \<lambda>log cmds mem. mem\<rparr>"

section \<open>Properties\<close>





text \<open>
  Once the kernel refuses the DMA commands, adding a rule to a table with room fails, as it
  should, but the index entry written for it stays in use: no rule refers to it, so no later deletion
  will free it.
\<close>

theorem nat_failed_add_leaks_index:
  assumes "kernel_works k" and "small_table entries" and "ip \<noteq> 0" and "0 < num" and "num \<le> 16"
    and "list_all op_ok ops"
    and "nat_add_ipv4_tbl k ip entries (new_nat_cache num) = Some (0, Some 1, c)" and "nat_run k ops c = Some (rs, c')"
    and "dma_fails k'" and "nr_pdn_index r = 0"
    and "card (dom (nat_rules c')) < expn_table_entries (ip4_tbl c') - 1"
  shows "\<exists>c''. nat_add_ipv4_rule k' 1 r c' = Some (-22, None, c'') \<and> nat_rules c'' = nat_rules c' \<and>
    used_index_entries c'' = Suc (used_index_entries c')"
proof -
  have "has_table c" using fresh_has_table [OF assms(1-5)] assms(7) by auto
  moreover have "dma_works k" using assms(1) by (simp add: kernel_works_def)
  ultimately have "has_table c'" using nat_run_ok [of k c ops] assms(6,8) by auto
  from failed_add [OF assms(9) this assms(10,11)] show ?thesis .
qed

theorem nat_failed_add_leaks_index_witness:
  "\<exists>c c''. nat_add_ipv4_tbl ideal_kernel 7 100 (new_nat_cache 5) = Some (0, Some 1, c) \<and>
    nat_add_ipv4_rule deaf_kernel 1 (example_nat_rule 1) c = Some (-22, None, c'') \<and> nat_rules c'' = Map.empty \<and>
    used_index_entries c'' = Suc (used_index_entries c)"
proof -
  have small: "small_table 100" by (simp add: small_table_def)
  from fresh_has_table [OF ideal_kernel_works small, of 7 5] obtain c where
    c: "nat_add_ipv4_tbl ideal_kernel 7 100 (new_nat_cache 5) = Some (0, Some 1, c)" "nat_rules c = Map.empty"
      "20 \<le> expn_table_entries (ip4_tbl c)" by auto
  have "dma_fails deaf_kernel" by (simp add: dma_fails_def deaf_kernel_def)
  with nat_failed_add_leaks_index [OF ideal_kernel_works small _ _ _ _ c(1), of "[]" "[]" c deaf_kernel "example_nat_rule 1"] c
  show ?thesis by (simp add: example_nat_rule_def)
qed

end
