(* ===== verification/NatCache.thy ===== *)
theory NatCache
  imports IpaNatBits
begin

text \<open>
  The NAT application of the IPA connection manager (\<open>IPACM_Conntrack_NATApp.cpp\<close> and its header):
  a cache of connections, of which those enabled are rules of the hardware NAT table, a small table of
  connections that wait for an interface, and the list of clients in power save.

  The model is the build of \<open>Android.mk\<close> (\<open>FEATURE_IPACM_HAL\<close>). The C library \<open>ipa_nat_drv\<close> is a
  parameter: a \<open>nat_driver\<close> answers each call from the history of calls, so it may fail at any time.
  Every call and its answer is kept in \<open>driver_log\<close>. Arrays are lists of fixed length and
  \<open>max_entries\<close> is the length of the cache; the C loops are folds over the indexes.
\<close>

unbundle bit_operations_syntax

section \<open>Types\<close>

record nat_table_entry =
  private_ip :: u32
  private_port :: u16
  target_ip :: u32
  target_port :: u16
  public_ip :: u32
  public_port :: u16
  protocol :: u8
  timestamp :: u32
  dst_nat :: bool
  enabled :: bool
  rule_hdl :: u32

text \<open>\<open>memset(&e, 0, sizeof(e))\<close>\<close>

definition zero_entry :: nat_table_entry where
  "zero_entry =
     \<lparr>private_ip = 0, private_port = 0, target_ip = 0, target_port = 0, public_ip = 0, public_port = 0,
      protocol = 0, timestamp = 0, dst_nat = False, enabled = False, rule_hdl = 0\<rparr>"

definition nat_rule_of :: "nat_table_entry \<Rightarrow> ipa_nat_ipv4_rule" where
  "nat_rule_of e =
     \<lparr>nr_target_ip = target_ip e, nr_private_ip = private_ip e, nr_target_port = target_port e,
      nr_private_port = private_port e, nr_public_port = public_port e, nr_protocol = protocol e,
      nr_pdn_index = 0\<rparr>"

text \<open>The calls of the driver with their results; \<open>None\<close> where the out pointer was not written.\<close>

datatype nat_call =
    AddTbl u32 u16 int "u32 option"
  | DelTbl u32 int
  | AddRule u32 ipa_nat_ipv4_rule int "u32 option"
  | DelRule u32 u32 int
  | QueryTs u32 u32 int "u32 option"

record nat_driver =
  add_tbl :: "nat_call list \<Rightarrow> u32 \<Rightarrow> u16 \<Rightarrow> int \<times> u32 option"
  del_tbl :: "nat_call list \<Rightarrow> u32 \<Rightarrow> int"
  add_rule :: "nat_call list \<Rightarrow> u32 \<Rightarrow> ipa_nat_ipv4_rule \<Rightarrow> int \<times> u32 option"
  del_rule :: "nat_call list \<Rightarrow> u32 \<Rightarrow> u32 \<Rightarrow> int"
  query_ts :: "nat_call list \<Rightarrow> u32 \<Rightarrow> u32 \<Rightarrow> int \<times> u32 option"

abbreviation (input) MAX_TEMP_ENTRIES :: nat where "MAX_TEMP_ENTRIES \<equiv> 25"
abbreviation (input) IPA_MAX_NUM_WIFI_CLIENTS :: nat where "IPA_MAX_NUM_WIFI_CLIENTS \<equiv> 32"
abbreviation (input) IPPROTO_UDP :: u8 where "IPPROTO_UDP \<equiv> 17"

text \<open>What \<open>updateTimeout\<close> of the framework gets: is it UDP, source and destination.\<close>

type_synonym timeout_update = "bool \<times> (u32 \<times> u16) \<times> (u32 \<times> u16)"

record NatApp =
  cache :: "nat_table_entry list"
  temp :: "nat_table_entry list"
  pub_ip_addr :: u32
  pub_ip_addr_pre :: u32
  nat_table_hdl :: u32
  curCnt :: int
  pALGPorts :: "(u8 \<times> u16) list"
  tcp_timeout :: u32
  udp_timeout :: u32
  PwrSaveIfs :: "u32 list"
  touInstance :: "timeout_update list option"
  driver_log :: "nat_call list"

definition written :: "u32 \<Rightarrow> u32 option \<Rightarrow> u32" where
  "written old out = (case out of None \<Rightarrow> old | Some v \<Rightarrow> v)"

definition set_slot :: "nat \<Rightarrow> nat_table_entry \<Rightarrow> NatApp \<Rightarrow> NatApp" where
  "set_slot cnt e n = n\<lparr>cache := (cache n)[cnt := e]\<rparr>"

definition for_cache :: "(nat \<Rightarrow> NatApp \<Rightarrow> NatApp) \<Rightarrow> NatApp \<Rightarrow> NatApp" where
  "for_cache body n = fold body [0..<length (cache n)] n"

section \<open>Construction\<close>

text \<open>
  The constructor and \<open>Init\<close>. The constructor leaves \<open>pub_ip_addr_pre\<close>, the timeouts and
  \<open>PwrSaveIfs\<close> as the allocator gives them; they are arguments. Which allocations succeed is an
  argument too; without ALG ports \<open>Init\<close> fails.
\<close>

definition new_NatApp :: "u32 \<Rightarrow> u32 \<Rightarrow> u32 \<Rightarrow> u32 list \<Rightarrow> timeout_update list option \<Rightarrow> NatApp" where
  "new_NatApp pre tcp udp pwr tou =
     \<lparr>cache = [], temp = replicate MAX_TEMP_ENTRIES zero_entry, pub_ip_addr = 0, pub_ip_addr_pre = pre,
      nat_table_hdl = 0, curCnt = 0, pALGPorts = [], tcp_timeout = tcp, udp_timeout = udp,
      PwrSaveIfs = pwr, touInstance = tou, driver_log = []\<rparr>"

definition Init :: "nat \<Rightarrow> (u8 \<times> u16) list \<Rightarrow> bool \<Rightarrow> bool \<Rightarrow> NatApp \<Rightarrow> NatApp option" where
  "Init max_entries alg cache_allocated alg_allocated n =
     (if \<not> cache_allocated then None
      else if alg = [] then None
      else if \<not> alg_allocated then None
      else Some (n\<lparr>cache := replicate max_entries zero_entry, pALGPorts := alg\<rparr>))"

text \<open>
  \<open>GetInstance\<close>: the static pointer is NULL, valid or dangling. When \<open>Init\<close> fails the object is
  deleted and NULL returned, but the pointer keeps the address; the next call returns it.
\<close>

datatype instance_ptr = NullPtr | Valid NatApp | Dangling

definition GetInstance ::
  "nat \<Rightarrow> (u8 \<times> u16) list \<Rightarrow> bool \<Rightarrow> bool \<Rightarrow> NatApp \<Rightarrow> instance_ptr \<Rightarrow> instance_ptr \<times> instance_ptr" where
  "GetInstance max_entries alg a1 a2 fresh pInstance =
     (case pInstance of
        NullPtr \<Rightarrow>
          (case Init max_entries alg a1 a2 fresh of
             None \<Rightarrow> (NullPtr, Dangling)
           | Some n \<Rightarrow> (Valid n, Valid n))
      | p \<Rightarrow> (p, p))"

section \<open>Searching\<close>

definition same_tuple :: "nat_table_entry \<Rightarrow> nat_table_entry \<Rightarrow> bool" where
  "same_tuple a b \<longleftrightarrow>
     private_ip a = private_ip b \<and> target_ip a = target_ip b \<and> private_port a = private_port b \<and>
     target_port a = target_port b \<and> protocol a = protocol b"

definition free_slot :: "nat_table_entry \<Rightarrow> bool" where
  "free_slot e \<longleftrightarrow>
     private_ip e = 0 \<and> target_ip e = 0 \<and> private_port e = 0 \<and> target_port e = 0 \<and> protocol e = 0"

definition invalid_rule :: "nat_table_entry \<Rightarrow> bool" where
  "invalid_rule e \<longleftrightarrow>
     private_ip e = 0 \<or> target_ip e = 0 \<or> private_port e = 0 \<or> target_port e = 0 \<or> protocol e = 0"

definition ChkForDup :: "nat_table_entry \<Rightarrow> NatApp \<Rightarrow> bool" where
  "ChkForDup rule n = list_ex (\<lambda>e. same_tuple e rule) (cache n)"

definition isAlgPort :: "u8 \<Rightarrow> u16 \<Rightarrow> NatApp \<Rightarrow> bool" where
  "isAlgPort proto port n = list_ex (\<lambda>(p, q). proto = p \<and> port = q) (pALGPorts n)"

definition isPwrSaveIf :: "u32 \<Rightarrow> NatApp \<Rightarrow> bool" where
  "isPwrSaveIf ip n = list_ex (\<lambda>x. 0 \<noteq> x \<and> ip = x) (PwrSaveIfs n)"

definition GetTableHdl :: "u32 \<Rightarrow> NatApp \<Rightarrow> u32" where
  "GetTableHdl ip n = (if ip = pub_ip_addr n then nat_table_hdl n else -1)"

section \<open>The driver\<close>

text \<open>\<open>ipa_nat_add_ipv4_rule(nat_table_hdl, &nat_rule, &cache[cnt].rule_hdl)\<close>\<close>

definition drv_add_rule :: "nat_driver \<Rightarrow> ipa_nat_ipv4_rule \<Rightarrow> nat \<Rightarrow> NatApp \<Rightarrow> int \<times> NatApp" where
  "drv_add_rule drv r cnt n =
     (case add_rule drv (driver_log n) (nat_table_hdl n) r of (ret, out) \<Rightarrow>
        (ret, set_slot cnt ((cache n ! cnt)\<lparr>rule_hdl := written (rule_hdl (cache n ! cnt)) out\<rparr>)
                (n\<lparr>driver_log := driver_log n @ [AddRule (nat_table_hdl n) r ret out]\<rparr>)))"

definition drv_del_rule :: "nat_driver \<Rightarrow> u32 \<Rightarrow> NatApp \<Rightarrow> int \<times> NatApp" where
  "drv_del_rule drv h n =
     (let ret = del_rule drv (driver_log n) (nat_table_hdl n) h
      in (ret, n\<lparr>driver_log := driver_log n @ [DelRule (nat_table_hdl n) h ret]\<rparr>))"

text \<open>A rule goes back into the table, or its entry is dropped.\<close>

definition reinstall :: "nat_driver \<Rightarrow> nat \<Rightarrow> NatApp \<Rightarrow> NatApp" where
  "reinstall drv cnt n =
     (case drv_add_rule drv (nat_rule_of (cache n ! cnt)) cnt n of (ret, n1) \<Rightarrow>
        if ret < 0 then (set_slot cnt zero_entry n1)\<lparr>curCnt := curCnt n1 - 1\<rparr>
        else set_slot cnt ((cache n1 ! cnt)\<lparr>enabled := True\<rparr>) n1)"

section \<open>The table\<close>

definition restore_slot :: "nat_driver \<Rightarrow> nat \<Rightarrow> NatApp \<Rightarrow> NatApp" where
  "restore_slot drv cnt n = (if private_ip (cache n ! cnt) \<noteq> 0 then reinstall drv cnt n else n)"

definition AddTable :: "nat_driver \<Rightarrow> u32 \<Rightarrow> NatApp \<Rightarrow> int \<times> NatApp" where
  "AddTable drv pub_ip n =
     (case add_tbl drv (driver_log n) pub_ip (of_nat (length (cache n))) of (ret, out) \<Rightarrow>
        let n1 = n\<lparr>nat_table_hdl := written (nat_table_hdl n) out,
                   driver_log := driver_log n @ [AddTbl pub_ip (of_nat (length (cache n))) ret out]\<rparr>
        in if ret \<noteq> 0 then (ret, n1)
           else let n2 = (if pub_ip = pub_ip_addr_pre n1
                          then for_cache (restore_slot drv) n1
                          else n1)
                in (0, n2\<lparr>pub_ip_addr := pub_ip\<rparr>))"

definition disable_slot :: "nat \<Rightarrow> NatApp \<Rightarrow> NatApp" where
  "disable_slot cnt n = set_slot cnt ((cache n ! cnt)\<lparr>enabled := False\<rparr>) n"

definition NatReset :: "NatApp \<Rightarrow> NatApp" where
  "NatReset n =
     for_cache disable_slot (n\<lparr>nat_table_hdl := 0, pub_ip_addr := 0\<rparr>)"

definition DeleteTable :: "nat_driver \<Rightarrow> u32 \<Rightarrow> NatApp \<Rightarrow> int \<times> NatApp" where
  "DeleteTable drv pub_ip n =
     (if nat_table_hdl n = 0 then (-1, n)
      else if pub_ip_addr n \<noteq> pub_ip then (-1, n)
      else let ret = del_tbl drv (driver_log n) (nat_table_hdl n);
               n1 = n\<lparr>driver_log := driver_log n @ [DelTbl (nat_table_hdl n) ret]\<rparr>
           in if ret \<noteq> 0 then (ret, n1)
              else (0, NatReset (n1\<lparr>pub_ip_addr_pre := pub_ip_addr n1\<rparr>)))"

section \<open>Entries\<close>

definition DeleteEntry :: "nat_driver \<Rightarrow> nat_table_entry \<Rightarrow> NatApp \<Rightarrow> int \<times> NatApp" where
  "DeleteEntry drv rule n =
     (let cnt = first_index (\<lambda>e. same_tuple e rule) (cache n)
      in if cnt < length (cache n) then
           (let n1 = (if enabled (cache n ! cnt) then snd (drv_del_rule drv (rule_hdl (cache n ! cnt)) n)
                      else n)
            in (0, (set_slot cnt zero_entry n1)\<lparr>curCnt := curCnt n1 - 1\<rparr>))
         else (0, n))"

text \<open>The assignments at the end of \<open>AddEntry\<close>: \<open>public_ip\<close> is not among them.\<close>

definition store_fields :: "nat_table_entry \<Rightarrow> nat_table_entry \<Rightarrow> nat_table_entry" where
  "store_fields rule e =
     e\<lparr>private_ip := private_ip rule, target_ip := target_ip rule, target_port := target_port rule,
       private_port := private_port rule, protocol := protocol rule, timestamp := 0,
       public_port := public_port rule, dst_nat := dst_nat rule\<rparr>"

definition AddEntry :: "nat_driver \<Rightarrow> nat_table_entry \<Rightarrow> NatApp \<Rightarrow> int \<times> NatApp" where
  "AddEntry drv rule n =
     (if nat_table_hdl n = 0 then (-1, n)
      else if isAlgPort (protocol rule) (private_port rule) n \<or>
              isAlgPort (protocol rule) (target_port rule) n then (-1, n)
      else if invalid_rule rule then (0, n)
      else if ChkForDup rule n then (-1, n)
      else let cnt = first_index free_slot (cache n)
           in if cnt = length (cache n) then (-1, n)
              else let (ret, n1) =
                     (if isPwrSaveIf (private_ip rule) n \<or> isPwrSaveIf (target_ip rule) n
                      then (0 :: int, set_slot cnt ((cache n ! cnt)\<lparr>enabled := False, rule_hdl := 0\<rparr>) n)
                      else case drv_add_rule drv (nat_rule_of rule) cnt n of (r, n1) \<Rightarrow>
                             (if r < 0 then -1 else 0,
                              if r < 0 then n1
                              else set_slot cnt ((cache n1 ! cnt)\<lparr>enabled := True\<rparr>) n1))
                   in if ret < 0 then (-1, n1)
                      else (0, (set_slot cnt (store_fields rule (cache n1 ! cnt)) n1)
                                 \<lparr>curCnt := curCnt n1 + 1\<rparr>))"

definition CacheEntry :: "nat_table_entry \<Rightarrow> NatApp \<Rightarrow> NatApp" where
  "CacheEntry rule n =
     (if invalid_rule rule then n
      else if ChkForDup rule n then n
      else let cnt = first_index free_slot (cache n)
           in if cnt = length (cache n) then n
              else (set_slot cnt
                      ((store_fields rule (cache n ! cnt))
                         \<lparr>enabled := False, rule_hdl := 0, public_ip := public_ip rule\<rparr>) n)
                     \<lparr>curCnt := curCnt n + 1\<rparr>)"

section \<open>Timestamps\<close>

definition Read_TcpUdp_Timeout :: "NatApp \<Rightarrow> NatApp" where
  "Read_TcpUdp_Timeout n = n\<lparr>tcp_timeout := 432000, udp_timeout := 180\<rparr>"

definition timeout_entry :: "nat_table_entry \<Rightarrow> u32 \<Rightarrow> timeout_update" where
  "timeout_entry e pub =
     (protocol e = IPPROTO_UDP,
      if \<not> dst_nat e then ((htonl (private_ip e), private_port e), (htonl (target_ip e), target_port e))
      else ((htonl (target_ip e), target_port e), (htonl pub, public_port e)))"

definition UpdateCTUdpTs :: "nat \<Rightarrow> u32 \<Rightarrow> NatApp \<Rightarrow> NatApp" where
  "UpdateCTUdpTs cnt new_ts n =
     (case touInstance n of
        None \<Rightarrow> n
      | Some updates \<Rightarrow>
          set_slot cnt ((cache n ! cnt)\<lparr>timestamp := new_ts\<rparr>)
            (n\<lparr>touInstance := Some (updates @ [timeout_entry (cache n ! cnt) (pub_ip_addr n)])\<rparr>))"

definition udp_slot :: "nat_driver \<Rightarrow> nat \<Rightarrow> bool \<times> NatApp \<Rightarrow> bool \<times> NatApp" where
  "udp_slot drv cnt s =
     (let (read_to, n) = s; e = cache n ! cnt
      in if enabled e \<and> private_ip e \<noteq> public_ip e then
           (case query_ts drv (driver_log n) (nat_table_hdl n) (rule_hdl e) of (ret, out) \<Rightarrow>
              let n1 = n\<lparr>driver_log := driver_log n @ [QueryTs (nat_table_hdl n) (rule_hdl e) ret out]\<rparr>;
                  ts = written 0 out
              in if ret < 0 then (read_to, n1)
                 else if timestamp e = ts then (read_to, n1)
                 else (True, UpdateCTUdpTs cnt ts (if read_to then n1 else Read_TcpUdp_Timeout n1)))
         else (read_to, n))"

definition UpdateUDPTimeStamp :: "nat_driver \<Rightarrow> NatApp \<Rightarrow> NatApp" where
  "UpdateUDPTimeStamp drv n = snd (fold (udp_slot drv) [0..<length (cache n)] (False, n))"

section \<open>Clients\<close>

text \<open>The two loops over \<open>PwrSaveIfs\<close> stop at the first match.\<close>

definition replace_first :: "u32 \<Rightarrow> u32 \<Rightarrow> u32 list \<Rightarrow> u32 list" where
  "replace_first old new xs =
     (let cnt = first_index (\<lambda>x. x = old) xs in if cnt < length xs then xs[cnt := new] else xs)"

definition power_down_slot :: "nat_driver \<Rightarrow> u32 \<Rightarrow> nat \<Rightarrow> NatApp \<Rightarrow> NatApp" where
  "power_down_slot drv ip cnt n =
     (if private_ip (cache n ! cnt) = ip \<and> enabled (cache n ! cnt) then
        (case drv_del_rule drv (rule_hdl (cache n ! cnt)) n of (ret, n1) \<Rightarrow>
           if ret < 0 then n1
           else set_slot cnt ((cache n1 ! cnt)\<lparr>enabled := False, rule_hdl := 0\<rparr>) n1)
      else n)"

definition UpdatePwrSaveIf :: "nat_driver \<Rightarrow> u32 \<Rightarrow> NatApp \<Rightarrow> int \<times> NatApp" where
  "UpdatePwrSaveIf drv ip n =
     (if ip = 0 then (-1, n)
      else if ip \<in> set (PwrSaveIfs n) then (0, n)
      else (0, for_cache (power_down_slot drv ip) (n\<lparr>PwrSaveIfs := replace_first 0 ip (PwrSaveIfs n)\<rparr>)))"

definition power_up_slot :: "nat_driver \<Rightarrow> u32 \<Rightarrow> nat \<Rightarrow> NatApp \<Rightarrow> NatApp" where
  "power_up_slot drv ip cnt n =
     (if private_ip (cache n ! cnt) = ip \<and> \<not> enabled (cache n ! cnt) then reinstall drv cnt n else n)"

definition ResetPwrSaveIf :: "nat_driver \<Rightarrow> u32 \<Rightarrow> NatApp \<Rightarrow> int \<times> NatApp" where
  "ResetPwrSaveIf drv ip n =
     (if ip = 0 then (-1, n)
      else (-1, for_cache (power_up_slot drv ip) (n\<lparr>PwrSaveIfs := replace_first ip 0 (PwrSaveIfs n)\<rparr>)))"

definition discon_slot :: "nat_driver \<Rightarrow> u32 \<Rightarrow> nat \<Rightarrow> NatApp \<Rightarrow> NatApp" where
  "discon_slot drv ip cnt n =
     (if private_ip (cache n ! cnt) = ip \<and> enabled (cache n ! cnt) then
        (case drv_del_rule drv (rule_hdl (cache n ! cnt)) n of (ret, n1) \<Rightarrow>
           if ret < 0 then n1 else set_slot cnt ((cache n1 ! cnt)\<lparr>enabled := False\<rparr>) n1)
      else n)"

definition DelEntriesOnClntDiscon :: "nat_driver \<Rightarrow> u32 \<Rightarrow> NatApp \<Rightarrow> int \<times> NatApp" where
  "DelEntriesOnClntDiscon drv ip n =
     (if ip = 0 then (-1, n)
      else (0, for_cache (discon_slot drv ip) (n\<lparr>PwrSaveIfs := replace_first ip 0 (PwrSaveIfs n)\<rparr>)))"

definition sta_discon_slot :: "nat_driver \<Rightarrow> u32 \<Rightarrow> nat \<Rightarrow> NatApp \<Rightarrow> NatApp" where
  "sta_discon_slot drv ip cnt n =
     (if target_ip (cache n ! cnt) = ip then
        (let (ret, n1) = (if enabled (cache n ! cnt)
                          then drv_del_rule drv (rule_hdl (cache n ! cnt)) n else (0, n))
         in if ret < 0 then n1
            else (set_slot cnt zero_entry n1)\<lparr>curCnt := curCnt n1 - 1\<rparr>)
      else n)"

definition DelEntriesOnSTAClntDiscon :: "nat_driver \<Rightarrow> u32 \<Rightarrow> NatApp \<Rightarrow> int \<times> NatApp" where
  "DelEntriesOnSTAClntDiscon drv ip n =
     (if ip = 0 then (-1, n) else (0, for_cache (sta_discon_slot drv ip) n))"

section \<open>Temporary entries\<close>

definition AddTempEntry :: "nat_table_entry \<Rightarrow> NatApp \<Rightarrow> NatApp" where
  "AddTempEntry e n =
     (if isAlgPort (protocol e) (private_port e) n \<or> isAlgPort (protocol e) (target_port e) n then n
      else if ChkForDup e n then n
      else if list_ex (\<lambda>t. same_tuple t e) (temp n) then n
      else let cnt = first_index (\<lambda>t. private_ip t = 0 \<and> target_ip t = 0) (temp n)
           in if cnt < length (temp n) then n\<lparr>temp := (temp n)[cnt := e]\<rparr> else n)"

definition DeleteTempEntry :: "nat_table_entry \<Rightarrow> NatApp \<Rightarrow> NatApp" where
  "DeleteTempEntry e n =
     (let cnt = first_index (\<lambda>t. same_tuple t e) (temp n)
      in if cnt < length (temp n) then n\<lparr>temp := (temp n)[cnt := zero_entry]\<rparr> else n)"

definition flush_slot :: "nat_driver \<Rightarrow> u32 \<Rightarrow> bool \<Rightarrow> bool \<Rightarrow> nat \<Rightarrow> NatApp \<Rightarrow> NatApp" where
  "flush_slot drv ip isAdd isDummy cnt n =
     (let t = temp n ! cnt
      in if private_ip t = ip \<or> target_ip t = ip then
           (if isAdd \<and> public_ip t = pub_ip_addr n then
              (let t1 = (if isDummy then t\<lparr>private_ip := public_ip t, private_port := public_port t\<rparr> else t);
                   (ret, n1) = AddEntry drv t1 (n\<lparr>temp := (temp n)[cnt := t1]\<rparr>)
               in if ret \<noteq> 0 then n1 else n1\<lparr>temp := (temp n1)[cnt := zero_entry]\<rparr>)
            else n\<lparr>temp := (temp n)[cnt := zero_entry]\<rparr>)
         else n)"

definition FlushTempEntries :: "nat_driver \<Rightarrow> u32 \<Rightarrow> bool \<Rightarrow> bool \<Rightarrow> NatApp \<Rightarrow> NatApp" where
  "FlushTempEntries drv ip isAdd isDummy n =
     fold (flush_slot drv ip isAdd isDummy) [0..<length (temp n)] n"


section \<open>Well-formedness of the cache\<close>

definition tuple_of :: "nat_table_entry \<Rightarrow> u32 \<times> u32 \<times> u16 \<times> u16 \<times> u8" where
  "tuple_of e = (private_ip e, target_ip e, private_port e, target_port e, protocol e)"

lemma same_tuple_iff: "same_tuple a b \<longleftrightarrow> tuple_of a = tuple_of b"
  by (auto simp: same_tuple_def tuple_of_def)

lemma free_slot_iff: "free_slot e \<longleftrightarrow> tuple_of e = (0, 0, 0, 0, 0)"
  by (auto simp: free_slot_def tuple_of_def)

lemma zero_entry_simps [simp]:
  "tuple_of zero_entry = (0, 0, 0, 0, 0)" "free_slot zero_entry" "\<not> enabled zero_entry"
  by (simp_all add: zero_entry_def tuple_of_def free_slot_def)

definition slot_ok :: "nat_table_entry \<Rightarrow> bool" where
  "slot_ok e \<longleftrightarrow> (free_slot e \<and> \<not> enabled e) \<or> (\<not> free_slot e \<and> \<not> invalid_rule e)"

definition slots_ok :: "nat_table_entry list \<Rightarrow> bool" where
  "slots_ok xs \<longleftrightarrow>
     list_all slot_ok xs \<and> distinct (map tuple_of (filter (\<lambda>e. \<not> free_slot e) xs))"

definition cache_ok :: "NatApp \<Rightarrow> bool" where
  "cache_ok n \<longleftrightarrow> slots_ok (cache n) \<and> curCnt n = int (count_if (\<lambda>e. \<not> free_slot e) (cache n))"

lemma slots_ok_update:
  assumes "slots_ok xs" and "i < length xs" and "slot_ok e"
    and "\<And>j. j < length xs \<Longrightarrow> j \<noteq> i \<Longrightarrow> \<not> free_slot e \<Longrightarrow> tuple_of (xs ! j) \<noteq> tuple_of e"
  shows "slots_ok (xs[i := e])"
proof -
  have "list_all slot_ok (xs[i := e])"
    using assms(1,3) set_update_subset_insert [of xs i e] by (auto simp: slots_ok_def list_all_iff)
  moreover have "distinct (map tuple_of (filter (\<lambda>e. \<not> free_slot e) (xs[i := e])))"
    unfolding distinct_map_filter_nth length_list_update
  proof (intro allI impI)
    fix j k
    assume b: "j < length xs" "k < length xs"
      and occ: "\<not> free_slot (xs[i := e] ! j)" "\<not> free_slot (xs[i := e] ! k)"
      and eq: "tuple_of (xs[i := e] ! j) = tuple_of (xs[i := e] ! k)"
    show "j = k"
    proof (cases "j = i \<or> k = i")
      case True
      then show ?thesis
        using b occ eq assms(2) assms(4) [of j] assms(4) [of k] by (auto simp: nth_list_update split: if_splits)
    next
      case False
      with b occ eq assms(1) show ?thesis by (simp add: slots_ok_def distinct_map_filter_nth)
    qed
  qed
  ultimately show ?thesis by (simp add: slots_ok_def)
qed

text \<open>The three ways a slot changes: other fields, cleared, filled.\<close>

lemma ok_same_tuple:
  assumes "cache_ok n" and "i < length (cache n)" and "tuple_of e = tuple_of (cache n ! i)"
    and "enabled e \<Longrightarrow> \<not> free_slot e"
  shows "cache_ok (set_slot i e n)"
proof -
  have f: "free_slot e = free_slot (cache n ! i)" and inv: "invalid_rule e = invalid_rule (cache n ! i)"
    using assms(3) by (auto simp: free_slot_iff invalid_rule_def tuple_of_def)
  have s: "slot_ok (cache n ! i)"
    using assms(1,2) by (simp add: cache_ok_def slots_ok_def list_all_length)
  have "slots_ok ((cache n)[i := e])"
  proof (rule slots_ok_update)
    show "slot_ok e" using s f inv assms(4) by (auto simp: slot_ok_def)
    show "tuple_of (cache n ! j) \<noteq> tuple_of e"
      if "j < length (cache n)" "j \<noteq> i" "\<not> free_slot e" for j
      using assms(1,2,3) that f by (auto simp: cache_ok_def slots_ok_def distinct_map_filter_nth free_slot_iff)
  qed (use assms in \<open>simp_all add: cache_ok_def\<close>)
  moreover have "count_if (\<lambda>e. \<not> free_slot e) ((cache n)[i := e]) = count_if (\<lambda>e. \<not> free_slot e) (cache n)"
    using count_if_update [OF assms(2), of "\<lambda>e. \<not> free_slot e" e] f by (simp split: if_splits)
  ultimately show ?thesis using assms(1) by (simp add: cache_ok_def set_slot_def)
qed

lemma ok_cleared:
  assumes "cache_ok n" and "i < length (cache n)" and "\<not> free_slot (cache n ! i)"
  shows "cache_ok ((set_slot i zero_entry n)\<lparr>curCnt := curCnt n - 1\<rparr>)"
proof -
  have "slots_ok ((cache n)[i := zero_entry])"
    by (rule slots_ok_update) (use assms in \<open>auto simp: cache_ok_def slot_ok_def\<close>)
  moreover have "count_if (\<lambda>e. \<not> free_slot e) ((cache n)[i := zero_entry]) + 1 =
      count_if (\<lambda>e. \<not> free_slot e) (cache n)"
    using count_if_update [OF assms(2), of "\<lambda>e. \<not> free_slot e" zero_entry] assms(3) by simp
  ultimately show ?thesis using assms(1) by (simp add: cache_ok_def set_slot_def)
qed

lemma ok_filled:
  assumes "cache_ok n" and "i < length (cache n)" and "free_slot (cache n ! i)"
    and "\<not> invalid_rule e" and "\<not> list_ex (\<lambda>x. same_tuple x e) (cache n)"
  shows "cache_ok ((set_slot i e n)\<lparr>curCnt := curCnt n + 1\<rparr>)"
proof -
  have occ: "\<not> free_slot e" using assms(4) by (auto simp: free_slot_def invalid_rule_def)
  have "slots_ok ((cache n)[i := e])"
    by (rule slots_ok_update)
      (use assms occ in \<open>auto simp: cache_ok_def slot_ok_def list_ex_iff same_tuple_iff\<close>)
  moreover have "count_if (\<lambda>e. \<not> free_slot e) ((cache n)[i := e]) =
      count_if (\<lambda>e. \<not> free_slot e) (cache n) + 1"
    using count_if_update [OF assms(2), of "\<lambda>e. \<not> free_slot e" e] assms(3) occ by simp
  ultimately show ?thesis using assms(1) by (simp add: cache_ok_def set_slot_def)
qed

lemma cache_ok_slot:
  "cache_ok n \<Longrightarrow> i < length (cache n) \<Longrightarrow> slot_ok (cache n ! i)"
  by (simp add: cache_ok_def slots_ok_def list_all_length)

lemma cache_ok_frame:
  "cache m = cache n \<Longrightarrow> curCnt m = curCnt n \<Longrightarrow> cache_ok m = cache_ok n"
  by (simp add: cache_ok_def)

lemma set_slot_simps [simp]:
  "cache (set_slot i e n) = (cache n)[i := e]"
  "curCnt (set_slot i e n) = curCnt n"
  "driver_log (set_slot i e n) = driver_log n"
  "nat_table_hdl (set_slot i e n) = nat_table_hdl n"
  "pub_ip_addr (set_slot i e n) = pub_ip_addr n"
  "pub_ip_addr_pre (set_slot i e n) = pub_ip_addr_pre n"
  "PwrSaveIfs (set_slot i e n) = PwrSaveIfs n"
  "pALGPorts (set_slot i e n) = pALGPorts n"
  "touInstance (set_slot i e n) = touInstance n"
  "temp (set_slot i e n) = temp n"
  by (simp_all add: set_slot_def)

lemma tuple_of_fields [simp]:
  "tuple_of (e\<lparr>enabled := b\<rparr>) = tuple_of e" "tuple_of (e\<lparr>rule_hdl := h\<rparr>) = tuple_of e"
  "tuple_of (e\<lparr>timestamp := t\<rparr>) = tuple_of e"
  by (simp_all add: tuple_of_def)

lemma free_slot_fields [simp]:
  "free_slot (e\<lparr>enabled := b\<rparr>) = free_slot e" "free_slot (e\<lparr>rule_hdl := h\<rparr>) = free_slot e"
  "free_slot (e\<lparr>timestamp := t\<rparr>) = free_slot e"
  by (simp_all add: free_slot_iff)

section \<open>What the hardware holds\<close>

text \<open>
  The table as the history of calls determines it: whether one exists, and its rules by handle.
\<close>

fun track :: "nat_call \<Rightarrow> bool \<times> (u32 \<rightharpoonup> ipa_nat_ipv4_rule) \<Rightarrow> bool \<times> (u32 \<rightharpoonup> ipa_nat_ipv4_rule)" where
  "track (AddTbl _ _ ret _) (op, m) = (if ret = 0 then (True, Map.empty) else (op, m))"
| "track (DelTbl _ ret) (op, m) = (if ret = 0 then (False, Map.empty) else (op, m))"
| "track (AddRule _ r ret out) (op, m) =
     (op, if ret < 0 then m else case out of None \<Rightarrow> m | Some h \<Rightarrow> m(h \<mapsto> r))"
| "track (DelRule _ h ret) (op, m) = (op, if ret < 0 then m else m(h := None))"
| "track (QueryTs _ _ _ _) (op, m) = (op, m)"

definition hardware :: "nat_call list \<Rightarrow> bool \<times> (u32 \<rightharpoonup> ipa_nat_ipv4_rule)" where
  "hardware log = fold track log (False, Map.empty)"

fun failed_delete :: "nat_call \<Rightarrow> bool" where
  "failed_delete (DelRule _ _ ret) = (ret < 0)"
| "failed_delete _ = False"

text \<open>
  What the documentation of the driver promises: there is one table, rules go into an existing
  table only, and the handle of a new rule is not the handle of another rule in it.
\<close>

definition driver_lawful :: "nat_driver \<Rightarrow> bool" where
  "driver_lawful drv \<longleftrightarrow>
     (\<forall>log ip k. fst (add_tbl drv log ip k) = 0 \<longrightarrow> \<not> fst (hardware log)) \<and>
     (\<forall>log t r. 0 \<le> fst (add_rule drv log t r) \<longrightarrow>
        fst (hardware log) \<and> (\<exists>h. snd (add_rule drv log t r) = Some h \<and> snd (hardware log) h = None))"

definition hw_sync :: "NatApp \<Rightarrow> bool" where
  "hw_sync n \<longleftrightarrow>
     list_all (\<lambda>e. enabled e \<longrightarrow> snd (hardware (driver_log n)) (rule_hdl e) = Some (nat_rule_of e)) (cache n) \<and>
     distinct (map rule_hdl (filter enabled (cache n))) \<and>
     (fst (hardware (driver_log n)) \<or> \<not> list_ex enabled (cache n)) \<and>
     (list_ex failed_delete (driver_log n) \<or>
      dom (snd (hardware (driver_log n))) \<subseteq> set (map rule_hdl (filter enabled (cache n))))"

lemma hw_sync_nth:
  "hw_sync n \<longleftrightarrow>
     (\<forall>i < length (cache n). enabled (cache n ! i) \<longrightarrow>
        snd (hardware (driver_log n)) (rule_hdl (cache n ! i)) = Some (nat_rule_of (cache n ! i))) \<and>
     (\<forall>i < length (cache n). \<forall>j < length (cache n). enabled (cache n ! i) \<longrightarrow> enabled (cache n ! j) \<longrightarrow>
        rule_hdl (cache n ! i) = rule_hdl (cache n ! j) \<longrightarrow> i = j) \<and>
     (fst (hardware (driver_log n)) \<or> (\<forall>i < length (cache n). \<not> enabled (cache n ! i))) \<and>
     (list_ex failed_delete (driver_log n) \<or>
      (\<forall>h r. snd (hardware (driver_log n)) h = Some r \<longrightarrow>
         (\<exists>i < length (cache n). enabled (cache n ! i) \<and> rule_hdl (cache n ! i) = h)))"
  unfolding hw_sync_def distinct_map_filter_nth
  by (simp add: list_all_length list_ex_length subset_iff dom_def image_iff in_set_conv_nth) blast

lemma hardware_snoc: "hardware (log @ [c]) = track c (hardware log)"
  by (simp add: hardware_def)

lemma hw_sync_frame:
  "hw_sync n \<Longrightarrow> cache m = cache n \<Longrightarrow> driver_log m = driver_log n \<Longrightarrow> hw_sync m"
  by (simp add: hw_sync_def)

lemma hw_sync_same:
  assumes "hw_sync n" and "i < length (cache n)" and "cache m = (cache n)[i := e]"
    and "driver_log m = driver_log n" and "enabled e = enabled (cache n ! i)"
    and "enabled e \<Longrightarrow> rule_hdl e = rule_hdl (cache n ! i) \<and> nat_rule_of e = nat_rule_of (cache n ! i)"
  shows "hw_sync m"
proof -
  have nth: "enabled (cache m ! j) = enabled (cache n ! j)" if "j < length (cache n)" for j
    using assms that by (cases "j = i") simp_all
  have nth2: "rule_hdl (cache m ! j) = rule_hdl (cache n ! j) \<and> nat_rule_of (cache m ! j) = nat_rule_of (cache n ! j)"
    if "j < length (cache n)" "enabled (cache n ! j)" for j
    using assms that by (cases "j = i") simp_all
  have len: "length (cache m) = length (cache n)" using assms(3) by simp
  from assms(1) show ?thesis
    unfolding hw_sync_nth assms(4) len
    by (simp add: nth nth2 cong: conj_cong imp_cong)
qed

lemma driver_lawful_add:
  "driver_lawful drv \<Longrightarrow> 0 \<le> fst (add_rule drv log t r) \<Longrightarrow>
   fst (hardware log) \<and> (\<exists>h. snd (add_rule drv log t r) = Some h \<and> snd (hardware log) h = None)"
  by (simp add: driver_lawful_def)

lemma driver_lawful_tbl:
  "driver_lawful drv \<Longrightarrow> fst (add_tbl drv log ip k) = 0 \<Longrightarrow> \<not> fst (hardware log)"
  by (auto simp: driver_lawful_def)

lemma hw_sync_add:
  assumes "hw_sync n" and "i < length (cache n)" and "\<not> enabled (cache n ! i)"
    and lawful: "driver_lawful drv" and ans: "add_rule drv (driver_log n) t r = (ret, out)" and "0 \<le> ret"
    and m: "cache m = (cache n)[i := e]" "driver_log m = driver_log n @ [AddRule t r ret out]"
    and e: "enabled e" "nat_rule_of e = r" "rule_hdl e = written old out"
  shows "hw_sync m"
proof -
  from lawful ans \<open>0 \<le> ret\<close> have op: "fst (hardware (driver_log n))"
    and "\<exists>h. out = Some h \<and> snd (hardware (driver_log n)) h = None"
    using driver_lawful_add [OF lawful, of "driver_log n" t r] by auto
  then obtain h where h: "out = Some h" "snd (hardware (driver_log n)) h = None" by blast
  obtain mm where mm: "hardware (driver_log n) = (True, mm)" using op by (cases "hardware (driver_log n)") auto
  have new: "hardware (driver_log m) = (True, mm(h \<mapsto> r))"
    using m(2) mm h(1) \<open>0 \<le> ret\<close> by (simp add: hardware_snoc)
  have old_ne: "rule_hdl (cache n ! j) \<noteq> h" if "j < length (cache n)" "enabled (cache n ! j)" for j
    using assms(1) that h(2) unfolding hw_sync_nth by auto
  have eh: "rule_hdl e = h" using e(3) h(1) by (simp add: written_def)
  have fd: "list_ex failed_delete (driver_log m) = list_ex failed_delete (driver_log n)" using m(2) by simp
  have i: "i < length (cache n)" by fact
  show ?thesis
    unfolding hw_sync_nth new fd
  proof (intro conjI)
    show "\<forall>j < length (cache m). enabled (cache m ! j) \<longrightarrow>
        snd (True, mm(h \<mapsto> r)) (rule_hdl (cache m ! j)) = Some (nat_rule_of (cache m ! j))"
    proof (intro allI impI)
      fix j
      assume j: "j < length (cache m)" "enabled (cache m ! j)"
      show "snd (True, mm(h \<mapsto> r)) (rule_hdl (cache m ! j)) = Some (nat_rule_of (cache m ! j))"
      proof (cases "j = i")
        case True
        with i e(2) eh show ?thesis by (simp add: m(1))
      next
        case False
        with j have "j < length (cache n)" "enabled (cache n ! j)" by (simp_all add: m(1))
        with assms(1) mm old_ne [of j] False show ?thesis by (simp add: m(1) hw_sync_nth)
      qed
    qed
    show "\<forall>j < length (cache m). \<forall>k < length (cache m). enabled (cache m ! j) \<longrightarrow> enabled (cache m ! k) \<longrightarrow>
        rule_hdl (cache m ! j) = rule_hdl (cache m ! k) \<longrightarrow> j = k"
    proof (intro allI impI)
      fix j k
      assume b: "j < length (cache m)" "k < length (cache m)" "enabled (cache m ! j)" "enabled (cache m ! k)"
        and eq: "rule_hdl (cache m ! j) = rule_hdl (cache m ! k)"
      consider "j = i" "k = i" | "j = i" "k \<noteq> i" | "j \<noteq> i" "k = i" | "j \<noteq> i" "k \<noteq> i" by blast
      then show "j = k"
      proof cases
        case 2
        with b eq i eh old_ne [of k] show ?thesis by (simp add: m(1))
      next
        case 3
        with b eq i eh old_ne [of j] show ?thesis by (simp add: m(1))
      next
        case 4
        with b eq assms(1) show ?thesis by (simp add: m(1) hw_sync_nth)
      qed simp
    qed
    show "fst (True, mm(h \<mapsto> r)) \<or> (\<forall>i < length (cache m). \<not> enabled (cache m ! i))" by simp
    show "list_ex failed_delete (driver_log n) \<or>
      (\<forall>k s. snd (True, mm(h \<mapsto> r)) k = Some s \<longrightarrow>
         (\<exists>i < length (cache m). enabled (cache m ! i) \<and> rule_hdl (cache m ! i) = k))"
    proof (cases "list_ex failed_delete (driver_log n)", simp, intro disjI2 allI impI)
      fix k s
      assume "\<not> list_ex failed_delete (driver_log n)" and k: "snd (True, mm(h \<mapsto> r)) k = Some s"
      show "\<exists>i < length (cache m). enabled (cache m ! i) \<and> rule_hdl (cache m ! i) = k"
      proof (cases "k = h")
        case True
        with i e(1) eh show ?thesis by (intro exI [of _ i]) (simp add: m(1))
      next
        case False
        with k assms(1) mm \<open>\<not> list_ex failed_delete (driver_log n)\<close>
        obtain j where j: "j < length (cache n)" "enabled (cache n ! j)" "rule_hdl (cache n ! j) = k"
          unfolding hw_sync_nth by auto
        with assms(3) have "j \<noteq> i" by auto
        with j show ?thesis by (intro exI [of _ j]) (simp add: m(1))
      qed
    qed
  qed
qed

lemma hw_sync_disabled:
  assumes "hw_sync n" and "i < length (cache n)" and "\<not> enabled (cache n ! i)" and "\<not> enabled e"
    and "cache m = (cache n)[i := e]" and "driver_log m = driver_log n"
  shows "hw_sync m"
  by (rule hw_sync_same [OF assms(1,2,5,6)]) (use assms in simp_all)

lemma hw_sync_log:
  assumes "hw_sync n" and "cache m = cache n" and "driver_log m = driver_log n @ [c]"
    and "hardware (driver_log n @ [c]) = hardware (driver_log n)"
  shows "hw_sync m"
  using assms by (auto simp: hw_sync_def)

lemma hw_sync_remove:
  assumes "hw_sync n" and "i < length (cache n)" and "enabled (cache n ! i)" and "\<not> enabled e"
    and m: "cache m = (cache n)[i := e]" "driver_log m = driver_log n @ [DelRule t (rule_hdl (cache n ! i)) ret]"
  shows "hw_sync m"
proof -
  obtain op mm where mm: "hardware (driver_log n) = (op, mm)" by fastforce
  let ?h = "rule_hdl (cache n ! i)"
  have new: "hardware (driver_log m) = (op, if ret < 0 then mm else mm(?h := None))"
    using m(2) mm by (simp add: hardware_snoc)
  have other: "rule_hdl (cache n ! j) \<noteq> ?h" if "j < length (cache n)" "enabled (cache n ! j)" "j \<noteq> i" for j
    using assms(1,2,3) that unfolding hw_sync_nth by auto
  have nth: "enabled (cache m ! j) \<longleftrightarrow> j \<noteq> i \<and> enabled (cache n ! j)"
    and nth2: "j \<noteq> i \<Longrightarrow> cache m ! j = cache n ! j" if "j < length (cache n)" for j
    using assms(2,4) that by (auto simp: m(1) nth_list_update)
  have len: "length (cache m) = length (cache n)" by (simp add: m(1))
  show ?thesis
    unfolding hw_sync_nth new len
  proof (intro conjI)
    show "\<forall>j < length (cache n). enabled (cache m ! j) \<longrightarrow>
        snd (op, if ret < 0 then mm else mm(?h := None)) (rule_hdl (cache m ! j)) = Some (nat_rule_of (cache m ! j))"
      using assms(1) mm other by (auto simp: nth nth2 hw_sync_nth)
    show "\<forall>j < length (cache n). \<forall>k < length (cache n). enabled (cache m ! j) \<longrightarrow> enabled (cache m ! k) \<longrightarrow>
        rule_hdl (cache m ! j) = rule_hdl (cache m ! k) \<longrightarrow> j = k"
      using assms(1) by (auto simp: nth nth2 hw_sync_nth)
    show "fst (op, if ret < 0 then mm else mm(?h := None)) \<or> (\<forall>i < length (cache n). \<not> enabled (cache m ! i))"
      using assms(1,2,3) mm by (auto simp: hw_sync_nth)
    show "list_ex failed_delete (driver_log m) \<or>
      (\<forall>k s. snd (op, if ret < 0 then mm else mm(?h := None)) k = Some s \<longrightarrow>
         (\<exists>i < length (cache n). enabled (cache m ! i) \<and> rule_hdl (cache m ! i) = k))"
    proof (cases "ret < 0 \<or> list_ex failed_delete (driver_log n)")
      case True
      then show ?thesis by (auto simp: m(2))
    next
      case False
      show ?thesis
      proof (intro disjI2 allI impI)
        fix k s
        assume "snd (op, if ret < 0 then mm else mm(?h := None)) k = Some s"
        with False have k: "mm k = Some s" "k \<noteq> ?h" by (auto split: if_splits)
        with assms(1) mm False obtain j where j: "j < length (cache n)" "enabled (cache n ! j)" "rule_hdl (cache n ! j) = k"
          unfolding hw_sync_nth by auto
        with k have "j \<noteq> i" by auto
        with j nth [of j] nth2 [of j] show "\<exists>i < length (cache n). enabled (cache m ! i) \<and> rule_hdl (cache m ! i) = k"
          by (intro exI [of _ j]) simp
      qed
    qed
  qed
qed

section \<open>Every operation keeps the cache well-formed\<close>

lemma cache_ok_same:
  assumes "cache_ok n" and "i < length (cache n)" and "cache m = (cache n)[i := e]" and "curCnt m = curCnt n"
    and "tuple_of e = tuple_of (cache n ! i)" and "enabled e \<Longrightarrow> \<not> free_slot e"
  shows "cache_ok m"
  using ok_same_tuple [OF assms(1,2,5,6)] assms(3,4) by (simp add: cache_ok_def)

lemma cache_ok_cleared:
  assumes "cache_ok n" and "i < length (cache n)" and "cache m = (cache n)[i := zero_entry]"
    and "curCnt m = curCnt n - 1" and "\<not> free_slot (cache n ! i)"
  shows "cache_ok m"
  using ok_cleared [OF assms(1,2,5)] assms(3,4) by (simp add: cache_ok_def)

lemma cache_ok_filled:
  assumes "cache_ok n" and "i < length (cache n)" and "cache m = (cache n)[i := e]"
    and "curCnt m = curCnt n + 1" and "free_slot (cache n ! i)" and "\<not> invalid_rule e" and "\<not> ChkForDup e n"
  shows "cache_ok m"
  using ok_filled [OF assms(1,2,5,6)] assms(3,4,7) by (simp add: cache_ok_def ChkForDup_def)

lemma cache_ok_upd:
  "cache_ok n \<Longrightarrow> cache m = cache n \<Longrightarrow> curCnt m = curCnt n \<Longrightarrow> cache_ok m"
  by (simp add: cache_ok_def)

lemma enabled_not_free:
  "cache_ok n \<Longrightarrow> i < length (cache n) \<Longrightarrow> enabled (cache n ! i) \<Longrightarrow> \<not> free_slot (cache n ! i)"
  using cache_ok_slot [of n i] by (auto simp: slot_ok_def)

lemma ip_not_free: "private_ip e \<noteq> 0 \<or> target_ip e \<noteq> 0 \<Longrightarrow> \<not> free_slot e"
  by (auto simp: free_slot_def)

lemma reinstall_eq:
  assumes "i < length (cache n)"
    and "add_rule drv (driver_log n) (nat_table_hdl n) (nat_rule_of (cache n ! i)) = (ret, out)"
  shows "reinstall drv i n =
    (if ret < 0
     then n\<lparr>cache := (cache n)[i := zero_entry], curCnt := curCnt n - 1,
            driver_log := driver_log n @ [AddRule (nat_table_hdl n) (nat_rule_of (cache n ! i)) ret out]\<rparr>
     else n\<lparr>cache := (cache n)[i := (cache n ! i)\<lparr>rule_hdl := written (rule_hdl (cache n ! i)) out, enabled := True\<rparr>],
            driver_log := driver_log n @ [AddRule (nat_table_hdl n) (nat_rule_of (cache n ! i)) ret out]\<rparr>)"
  using assms by (simp add: reinstall_def drv_add_rule_def set_slot_def)

lemma length_reinstall [simp]: "length (cache (reinstall drv i n)) = length (cache n)"
  by (simp add: reinstall_def drv_add_rule_def split: prod.split)

lemma cache_ok_reinstall:
  assumes "cache_ok n" and i: "i < length (cache n)" and "\<not> free_slot (cache n ! i)"
  shows "cache_ok (reinstall drv i n)"
proof -
  obtain ret out where a: "add_rule drv (driver_log n) (nat_table_hdl n) (nat_rule_of (cache n ! i)) = (ret, out)"
    by fastforce
  show ?thesis
  proof (cases "ret < 0")
    case True
    show ?thesis by (rule cache_ok_cleared [OF assms(1) i]) (use assms True in \<open>simp_all add: reinstall_eq [OF i a]\<close>)
  next
    case False
    show ?thesis
      by (rule cache_ok_same [OF assms(1) i, where e = "(cache n ! i)\<lparr>rule_hdl := written (rule_hdl (cache n ! i)) out, enabled := True\<rparr>"])
        (use assms False in \<open>simp_all add: reinstall_eq [OF i a]\<close>)
  qed
qed

lemma nat_rule_of_fields [simp]:
  "nat_rule_of (e\<lparr>enabled := b\<rparr>) = nat_rule_of e" "nat_rule_of (e\<lparr>rule_hdl := h\<rparr>) = nat_rule_of e"
  "nat_rule_of (e\<lparr>timestamp := t\<rparr>) = nat_rule_of e"
  by (simp_all add: nat_rule_of_def)

lemma hw_sync_reinstall:
  assumes "hw_sync n" and "driver_lawful drv" and i: "i < length (cache n)" and "\<not> enabled (cache n ! i)"
  shows "hw_sync (reinstall drv i n)"
proof -
  obtain ret out where a: "add_rule drv (driver_log n) (nat_table_hdl n) (nat_rule_of (cache n ! i)) = (ret, out)"
    by fastforce
  show ?thesis
  proof (cases "ret < 0")
    case True
    let ?n = "n\<lparr>driver_log := driver_log n @ [AddRule (nat_table_hdl n) (nat_rule_of (cache n ! i)) ret out]\<rparr>"
    have "hw_sync ?n"
      by (rule hw_sync_log [OF assms(1)]) (use True in \<open>cases "hardware (driver_log n)"; simp add: hardware_snoc\<close>)+
    then show ?thesis
      by (rule hw_sync_disabled [of ?n i zero_entry]) (use assms True in \<open>simp_all add: reinstall_eq [OF i a]\<close>)
  next
    case False
    show ?thesis
      by (rule hw_sync_add [OF assms(1) i assms(4,2) a, where old = "rule_hdl (cache n ! i)" and
            e = "(cache n ! i)\<lparr>rule_hdl := written (rule_hdl (cache n ! i)) out, enabled := True\<rparr>"])
        (use False in \<open>simp_all add: reinstall_eq [OF i a]\<close>)
  qed
qed

text \<open>The other slot-wise steps of the loops.\<close>

lemma length_drv_del_rule [simp]: "cache (snd (drv_del_rule drv h n)) = cache n" "curCnt (snd (drv_del_rule drv h n)) = curCnt n"
  by (simp_all add: drv_del_rule_def Let_def)

lemma hw_sync_failed_del:
  "hw_sync n \<Longrightarrow> ret < 0 \<Longrightarrow> cache m = cache n \<Longrightarrow> driver_log m = driver_log n @ [DelRule t h ret] \<Longrightarrow> hw_sync m"
  by (rule hw_sync_log) (auto simp: hardware_snoc split: prod.split, cases "hardware (driver_log n)", simp)

text \<open>A loop over the cache whose body keeps the length and the invariant.\<close>

lemma for_cache_inv:
  assumes "P n" and "\<And>i m. i < length (cache m) \<Longrightarrow> P m \<Longrightarrow> P (body i m)"
    and "\<And>i m. length (cache (body i m)) = length (cache m)"
  shows "P (for_cache body n)"
proof -
  have "P (fold body [0..<length (cache n)] n) \<and>
      length (cache (fold body [0..<length (cache n)] n)) = length (cache n)"
    by (rule fold_inv [where P = "\<lambda>m. P m \<and> length (cache m) = length (cache n)"]) (use assms in auto)
  then show ?thesis by (simp add: for_cache_def)
qed

lemma cache_ok_fields [simp]:
  "cache_ok (n\<lparr>driver_log := l\<rparr>) = cache_ok n" "cache_ok (n\<lparr>PwrSaveIfs := p\<rparr>) = cache_ok n"
  "cache_ok (n\<lparr>temp := t\<rparr>) = cache_ok n" "cache_ok (n\<lparr>touInstance := u\<rparr>) = cache_ok n"
  "cache_ok (n\<lparr>nat_table_hdl := h\<rparr>) = cache_ok n" "cache_ok (n\<lparr>pub_ip_addr := i\<rparr>) = cache_ok n"
  "cache_ok (n\<lparr>pub_ip_addr_pre := i\<rparr>) = cache_ok n"
  "cache_ok (n\<lparr>tcp_timeout := x\<rparr>) = cache_ok n" "cache_ok (n\<lparr>udp_timeout := x\<rparr>) = cache_ok n"
  by (simp_all add: cache_ok_def)

lemma restore_slot_ok: "cache_ok n \<Longrightarrow> i < length (cache n) \<Longrightarrow> cache_ok (restore_slot drv i n)"
  by (simp add: restore_slot_def cache_ok_reinstall ip_not_free)

lemma length_restore_slot [simp]: "length (cache (restore_slot drv i n)) = length (cache n)"
  by (simp add: restore_slot_def)

lemma AddTable_ok: "cache_ok n \<Longrightarrow> cache_ok (snd (AddTable drv ip n))"
  by (auto simp: AddTable_def Let_def restore_slot_ok split: prod.split
      intro!: for_cache_inv [where P = cache_ok])

lemma disable_slot_ok: "cache_ok n \<Longrightarrow> i < length (cache n) \<Longrightarrow> cache_ok (disable_slot i n)"
  by (auto simp: disable_slot_def intro!: ok_same_tuple)

lemma length_disable_slot [simp]: "length (cache (disable_slot i n)) = length (cache n)"
  by (simp add: disable_slot_def)

lemma NatReset_ok: "cache_ok n \<Longrightarrow> cache_ok (NatReset n)"
  by (auto simp: NatReset_def disable_slot_ok intro!: for_cache_inv [where P = cache_ok])

lemma DeleteTable_ok: "cache_ok n \<Longrightarrow> cache_ok (snd (DeleteTable drv ip n))"
  by (auto simp: DeleteTable_def Let_def intro!: NatReset_ok)

lemma DeleteEntry_ok:
  assumes "cache_ok n" and "\<not> free_slot r"
  shows "cache_ok (snd (DeleteEntry drv r n))"
proof (cases "first_index (\<lambda>e. same_tuple e r) (cache n) < length (cache n)")
  case True
  let ?i = "first_index (\<lambda>e. same_tuple e r) (cache n)"
  have "same_tuple (cache n ! ?i) r" by (rule first_index_holds [OF True])
  with assms(2) have "\<not> free_slot (cache n ! ?i)" by (simp add: same_tuple_iff free_slot_iff)
  with True show ?thesis
    by (intro cache_ok_cleared [OF assms(1) True]) (auto simp: DeleteEntry_def Let_def)
qed (simp add: DeleteEntry_def assms Let_def)

lemma store_fields_simps [simp]:
  "tuple_of (store_fields r e) = tuple_of r" "enabled (store_fields r e) = enabled e"
  "rule_hdl (store_fields r e) = rule_hdl e" "nat_rule_of (store_fields r e) = nat_rule_of r"
  "public_ip (store_fields r e) = public_ip e" "public_port (store_fields r e) = public_port r"
  "dst_nat (store_fields r e) = dst_nat r"
  by (simp_all add: store_fields_def tuple_of_def nat_rule_of_def)

lemma store_fields_tuple [simp]:
  "invalid_rule (store_fields r e) = invalid_rule r" "ChkForDup (store_fields r e) n = ChkForDup r n"
  by (simp_all add: store_fields_def invalid_rule_def ChkForDup_def same_tuple_def)

text \<open>The slot \<open>AddEntry\<close> takes, and the two ways it ends there.\<close>

definition power_save_rule :: "nat_table_entry \<Rightarrow> NatApp \<Rightarrow> bool" where
  "power_save_rule r n \<longleftrightarrow> isPwrSaveIf (private_ip r) n \<or> isPwrSaveIf (target_ip r) n"

definition add_refused :: "nat_table_entry \<Rightarrow> NatApp \<Rightarrow> bool" where
  "add_refused r n \<longleftrightarrow>
     nat_table_hdl n = 0 \<or> isAlgPort (protocol r) (private_port r) n \<or>
     isAlgPort (protocol r) (target_port r) n \<or>
     (\<not> invalid_rule r \<and> (ChkForDup r n \<or> \<not> list_ex free_slot (cache n)))"

lemma AddEntry_cases:
  obtains (refused) "add_refused r n" "AddEntry drv r n = (-1, n)"
  | (invalid) "\<not> add_refused r n" "invalid_rule r" "AddEntry drv r n = (0, n)"
  | (cached) i where "\<not> add_refused r n" "\<not> invalid_rule r" "\<not> ChkForDup r n" "power_save_rule r n"
      "i = first_index free_slot (cache n)" "i < length (cache n)" "free_slot (cache n ! i)"
      "AddEntry drv r n =
        (0, n\<lparr>cache := (cache n)[i := store_fields r ((cache n ! i)\<lparr>enabled := False, rule_hdl := 0\<rparr>)],
              curCnt := curCnt n + 1\<rparr>)"
  | (rejected) i ret out where "\<not> add_refused r n" "\<not> invalid_rule r" "\<not> power_save_rule r n"
      "i = first_index free_slot (cache n)" "i < length (cache n)" "free_slot (cache n ! i)"
      "add_rule drv (driver_log n) (nat_table_hdl n) (nat_rule_of r) = (ret, out)" "ret < 0"
      "AddEntry drv r n =
        (-1, n\<lparr>cache := (cache n)[i := (cache n ! i)\<lparr>rule_hdl := written (rule_hdl (cache n ! i)) out\<rparr>],
               driver_log := driver_log n @ [AddRule (nat_table_hdl n) (nat_rule_of r) ret out]\<rparr>)"
  | (installed) i ret out where "\<not> add_refused r n" "\<not> invalid_rule r" "\<not> ChkForDup r n" "\<not> power_save_rule r n"
      "i = first_index free_slot (cache n)" "i < length (cache n)" "free_slot (cache n ! i)"
      "add_rule drv (driver_log n) (nat_table_hdl n) (nat_rule_of r) = (ret, out)" "0 \<le> ret"
      "AddEntry drv r n =
        (0, n\<lparr>cache := (cache n)[i := store_fields r ((cache n ! i)\<lparr>rule_hdl := written (rule_hdl (cache n ! i)) out,
                  enabled := True\<rparr>)],
              curCnt := curCnt n + 1,
              driver_log := driver_log n @ [AddRule (nat_table_hdl n) (nat_rule_of r) ret out]\<rparr>)"
proof (cases "add_refused r n")
  case True
  have "first_index free_slot (cache n) = length (cache n)" if "\<not> list_ex free_slot (cache n)"
    using that by (simp add: first_index_eq_length list_ex_iff)
  with True have "AddEntry drv r n = (-1, n)" by (auto simp: AddEntry_def add_refused_def Let_def)
  with True show ?thesis by (rule refused)
next
  case False
  show ?thesis
  proof (cases "invalid_rule r")
    case True
    with False have "AddEntry drv r n = (0, n)" by (simp add: AddEntry_def add_refused_def)
    with False True show ?thesis by (rule invalid)
  next
    case valid: False
    let ?i = "first_index free_slot (cache n)"
    from False valid have nd: "\<not> ChkForDup r n" and i: "?i < length (cache n)"
      by (simp_all add: add_refused_def first_index_less list_ex_iff)
    have free: "free_slot (cache n ! ?i)" by (rule first_index_holds [OF i])
    obtain ret out where a: "add_rule drv (driver_log n) (nat_table_hdl n) (nat_rule_of r) = (ret, out)" by fastforce
    have len: "(?i = length (cache n)) = False" using i by simp
    note body = AddEntry_def len Let_def drv_add_rule_def a set_slot_def
    show ?thesis
    proof (cases "power_save_rule r n")
      case True
      with False valid nd i have "AddEntry drv r n =
        (0, n\<lparr>cache := (cache n)[?i := store_fields r ((cache n ! ?i)\<lparr>enabled := False, rule_hdl := 0\<rparr>)],
              curCnt := curCnt n + 1\<rparr>)"
        by (simp add: body add_refused_def power_save_rule_def)
      with False valid nd True i free show ?thesis by (intro cached) simp_all
    next
      case np: False
      show ?thesis
      proof (cases "ret < 0")
        case True
        with False valid nd i np have "AddEntry drv r n =
          (-1, n\<lparr>cache := (cache n)[?i := (cache n ! ?i)\<lparr>rule_hdl := written (rule_hdl (cache n ! ?i)) out\<rparr>],
               driver_log := driver_log n @ [AddRule (nat_table_hdl n) (nat_rule_of r) ret out]\<rparr>)"
          by (simp add: body add_refused_def power_save_rule_def)
        with False valid np i free a True show ?thesis by (intro rejected) simp_all
      next
        case ok: False
        with False valid nd i np have "AddEntry drv r n =
          (0, n\<lparr>cache := (cache n)[?i := store_fields r ((cache n ! ?i)\<lparr>rule_hdl := written (rule_hdl (cache n ! ?i)) out,
                  enabled := True\<rparr>)],
              curCnt := curCnt n + 1,
              driver_log := driver_log n @ [AddRule (nat_table_hdl n) (nat_rule_of r) ret out]\<rparr>)"
          by (simp add: body add_refused_def power_save_rule_def)
        with False valid nd np i free a ok show ?thesis by (intro installed) simp_all
      qed
    qed
  qed
qed

lemma AddEntry_ok:
  assumes "cache_ok n" shows "cache_ok (snd (AddEntry drv r n))"
proof (cases rule: AddEntry_cases [of r n drv])
  case (cached i)
  show ?thesis
    by (rule cache_ok_filled [OF assms cached(6),
          where e = "store_fields r ((cache n ! i)\<lparr>enabled := False, rule_hdl := 0\<rparr>)"])
      (use cached in \<open>simp_all\<close>)
next
  case (rejected i ret out)
  show ?thesis
    by (rule cache_ok_same [OF assms rejected(5),
          where e = "(cache n ! i)\<lparr>rule_hdl := written (rule_hdl (cache n ! i)) out\<rparr>"])
      (use rejected cache_ok_slot [OF assms rejected(5)] in \<open>auto simp: slot_ok_def\<close>)
next
  case (installed i ret out)
  show ?thesis
    by (rule cache_ok_filled [OF assms installed(6), where e = "store_fields r
          ((cache n ! i)\<lparr>rule_hdl := written (rule_hdl (cache n ! i)) out, enabled := True\<rparr>)"])
      (use installed in \<open>simp_all\<close>)
qed (use assms in simp_all)


lemma CacheEntry_cases:
  obtains (unchanged) "invalid_rule r \<or> ChkForDup r n \<or> \<not> list_ex free_slot (cache n)" "CacheEntry r n = n"
  | (cached) i where "\<not> invalid_rule r" "\<not> ChkForDup r n" "i = first_index free_slot (cache n)"
      "i < length (cache n)" "free_slot (cache n ! i)"
      "CacheEntry r n = n\<lparr>cache := (cache n)[i := (store_fields r (cache n ! i))
           \<lparr>enabled := False, rule_hdl := 0, public_ip := public_ip r\<rparr>], curCnt := curCnt n + 1\<rparr>"
proof (cases "invalid_rule r \<or> ChkForDup r n \<or> \<not> list_ex free_slot (cache n)")
  case True
  have "first_index free_slot (cache n) = length (cache n)" if "\<not> list_ex free_slot (cache n)"
    using that by (simp add: first_index_eq_length list_ex_iff)
  with True have "CacheEntry r n = n" by (auto simp: CacheEntry_def Let_def)
  with True show ?thesis by (rule unchanged)
next
  case False
  let ?i = "first_index free_slot (cache n)"
  from False have i: "?i < length (cache n)" by (simp add: first_index_less list_ex_iff)
  have "(?i = length (cache n)) = False" using i by simp
  with False have "CacheEntry r n = n\<lparr>cache := (cache n)[?i := (store_fields r (cache n ! ?i))
           \<lparr>enabled := False, rule_hdl := 0, public_ip := public_ip r\<rparr>], curCnt := curCnt n + 1\<rparr>"
    by (simp add: CacheEntry_def Let_def set_slot_def)
  with False i first_index_holds [OF i] show ?thesis by (intro cached) simp_all
qed

lemma public_ip_fields [simp]:
  "tuple_of (e\<lparr>public_ip := p\<rparr>) = tuple_of e" "invalid_rule (e\<lparr>public_ip := p\<rparr>) = invalid_rule e"
  "invalid_rule (e\<lparr>enabled := b\<rparr>) = invalid_rule e" "invalid_rule (e\<lparr>rule_hdl := h\<rparr>) = invalid_rule e"
  "ChkForDup (e\<lparr>public_ip := p\<rparr>) n = ChkForDup e n" "ChkForDup (e\<lparr>enabled := b\<rparr>) n = ChkForDup e n"
  "ChkForDup (e\<lparr>rule_hdl := h\<rparr>) n = ChkForDup e n"
  by (simp_all add: tuple_of_def invalid_rule_def ChkForDup_def same_tuple_def)

lemma CacheEntry_ok:
  assumes "cache_ok n" shows "cache_ok (CacheEntry r n)"
proof (cases rule: CacheEntry_cases [of r n])
  case (cached i)
  show ?thesis
    by (rule cache_ok_filled [OF assms cached(4), where e = "(store_fields r (cache n ! i))
           \<lparr>enabled := False, rule_hdl := 0, public_ip := public_ip r\<rparr>"])
      (use cached in simp_all)
qed (use assms in simp)

text \<open>The bodies of the loops over the cache, by name.\<close>

lemma UpdateCTUdpTs_ok:
  assumes "cache_ok n" and i: "i < length (cache n)"
  shows "cache_ok (UpdateCTUdpTs i ts n)"
proof (cases "touInstance n")
  case (Some ups)
  show ?thesis
    by (rule cache_ok_same [OF assms(1) i, where e = "(cache n ! i)\<lparr>timestamp := ts\<rparr>"])
      (use Some enabled_not_free [OF assms] in \<open>simp_all add: UpdateCTUdpTs_def\<close>)
qed (simp add: UpdateCTUdpTs_def assms)

lemma length_UpdateCTUdpTs [simp]: "length (cache (UpdateCTUdpTs i ts n)) = length (cache n)"
  by (simp add: UpdateCTUdpTs_def split: option.split)

lemma udp_slot_ok:
  "cache_ok (snd s) \<Longrightarrow> i < length (cache (snd s)) \<Longrightarrow> cache_ok (snd (udp_slot drv i s))"
  by (auto simp: udp_slot_def Let_def Read_TcpUdp_Timeout_def split: prod.split intro!: UpdateCTUdpTs_ok)

lemma length_udp_slot [simp]: "length (cache (snd (udp_slot drv i s))) = length (cache (snd s))"
  by (auto simp: udp_slot_def Let_def Read_TcpUdp_Timeout_def split: prod.split)

lemma UpdateUDPTimeStamp_ok:
  assumes "cache_ok n" shows "cache_ok (UpdateUDPTimeStamp drv n)"
  unfolding UpdateUDPTimeStamp_def
  by (rule fold_inv [where P = "\<lambda>s. cache_ok (snd s) \<and> length (cache (snd s)) = length (cache n)", THEN conjunct1])
    (use assms in \<open>auto simp: udp_slot_ok\<close>)

lemma disable_ok:
  assumes "cache_ok n" and i: "i < length (cache n)" and "\<not> enabled e" and "tuple_of e = tuple_of (cache n ! i)"
    and "cache m = (cache n)[i := e]" and "curCnt m = curCnt n"
  shows "cache_ok m"
  by (rule cache_ok_same [OF assms(1,2,5,6,4)]) (use assms(3) in simp)

lemma drv_del_rule_eq:
  "drv_del_rule drv h n = (del_rule drv (driver_log n) (nat_table_hdl n) h,
     n\<lparr>driver_log := driver_log n @ [DelRule (nat_table_hdl n) h (del_rule drv (driver_log n) (nat_table_hdl n) h)]\<rparr>)"
  by (simp add: drv_del_rule_def Let_def)

lemma power_down_slot_ok: "cache_ok n \<Longrightarrow> i < length (cache n) \<Longrightarrow> cache_ok (power_down_slot drv ip i n)"
  by (auto simp: power_down_slot_def drv_del_rule_eq intro!: ok_same_tuple)

lemma discon_slot_ok: "cache_ok n \<Longrightarrow> i < length (cache n) \<Longrightarrow> cache_ok (discon_slot drv ip i n)"
  by (auto simp: discon_slot_def drv_del_rule_eq intro!: ok_same_tuple)

lemma power_up_slot_ok:
  "cache_ok n \<Longrightarrow> i < length (cache n) \<Longrightarrow> ip \<noteq> 0 \<Longrightarrow> cache_ok (power_up_slot drv ip i n)"
  by (auto simp: power_up_slot_def intro!: cache_ok_reinstall ip_not_free)

lemma sta_discon_slot_ok:
  assumes "cache_ok n" and "i < length (cache n)" and "ip \<noteq> 0"
  shows "cache_ok (sta_discon_slot drv ip i n)"
proof (cases "target_ip (cache n ! i) = ip")
  case True
  with assms(3) have "\<not> free_slot (cache n ! i)" by (simp add: ip_not_free)
  with assms True show ?thesis
    by (auto simp: sta_discon_slot_def drv_del_rule_eq Let_def intro: cache_ok_cleared)
qed (simp add: sta_discon_slot_def assms)

lemma length_slots [simp]:
  "length (cache (power_down_slot drv ip i n)) = length (cache n)"
  "length (cache (power_up_slot drv ip i n)) = length (cache n)"
  "length (cache (discon_slot drv ip i n)) = length (cache n)"
  "length (cache (sta_discon_slot drv ip i n)) = length (cache n)"
  by (simp_all add: power_down_slot_def power_up_slot_def discon_slot_def sta_discon_slot_def
      drv_del_rule_eq Let_def)

lemma clients_ok:
  assumes "cache_ok n"
  shows "cache_ok (snd (UpdatePwrSaveIf drv ip n))" "cache_ok (snd (ResetPwrSaveIf drv ip n))"
    "cache_ok (snd (DelEntriesOnClntDiscon drv ip n))" "cache_ok (snd (DelEntriesOnSTAClntDiscon drv ip n))"
  using assms
  by (auto simp: UpdatePwrSaveIf_def ResetPwrSaveIf_def DelEntriesOnClntDiscon_def DelEntriesOnSTAClntDiscon_def
      power_down_slot_ok power_up_slot_ok discon_slot_ok sta_discon_slot_ok
      intro!: for_cache_inv [where P = cache_ok])

lemma temp_ok:
  "cache_ok n \<Longrightarrow> cache_ok (AddTempEntry e n)" "cache_ok n \<Longrightarrow> cache_ok (DeleteTempEntry e n)"
  by (simp_all add: AddTempEntry_def DeleteTempEntry_def Let_def)

lemma flush_slot_ok: "cache_ok n \<Longrightarrow> cache_ok (flush_slot drv ip isAdd isDummy i n)"
proof -
  assume "cache_ok n"
  then have "cache_ok (snd (AddEntry drv t (n\<lparr>temp := ts\<rparr>)))" for t ts by (simp add: AddEntry_ok)
  then show ?thesis using \<open>cache_ok n\<close> unfolding flush_slot_def Let_def
    by (simp add: case_prod_beta)
qed

lemma FlushTempEntries_ok: "cache_ok n \<Longrightarrow> cache_ok (FlushTempEntries drv ip isAdd isDummy n)"
  unfolding FlushTempEntries_def by (rule fold_inv) (simp_all add: flush_slot_ok)

section \<open>Histories\<close>

datatype nat_event =
    EvAddTable u32 | EvDeleteTable u32
  | EvAddEntry nat_table_entry | EvDeleteEntry nat_table_entry | EvCacheEntry nat_table_entry
  | EvUpdateUDPTimeStamp
  | EvUpdatePwrSaveIf u32 | EvResetPwrSaveIf u32
  | EvClntDiscon u32 | EvSTAClntDiscon u32
  | EvAddTempEntry nat_table_entry | EvDeleteTempEntry nat_table_entry
  | EvFlushTempEntries u32 bool bool

fun nat_step :: "nat_driver \<Rightarrow> nat_event \<Rightarrow> NatApp \<Rightarrow> NatApp" where
  "nat_step drv (EvAddTable ip) n = snd (AddTable drv ip n)"
| "nat_step drv (EvDeleteTable ip) n = snd (DeleteTable drv ip n)"
| "nat_step drv (EvAddEntry r) n = snd (AddEntry drv r n)"
| "nat_step drv (EvDeleteEntry r) n = snd (DeleteEntry drv r n)"
| "nat_step drv (EvCacheEntry r) n = CacheEntry r n"
| "nat_step drv EvUpdateUDPTimeStamp n = UpdateUDPTimeStamp drv n"
| "nat_step drv (EvUpdatePwrSaveIf ip) n = snd (UpdatePwrSaveIf drv ip n)"
| "nat_step drv (EvResetPwrSaveIf ip) n = snd (ResetPwrSaveIf drv ip n)"
| "nat_step drv (EvClntDiscon ip) n = snd (DelEntriesOnClntDiscon drv ip n)"
| "nat_step drv (EvSTAClntDiscon ip) n = snd (DelEntriesOnSTAClntDiscon drv ip n)"
| "nat_step drv (EvAddTempEntry r) n = AddTempEntry r n"
| "nat_step drv (EvDeleteTempEntry r) n = DeleteTempEntry r n"
| "nat_step drv (EvFlushTempEntries ip isAdd isDummy) n = FlushTempEntries drv ip isAdd isDummy n"

text \<open>A deletion names a connection, not the empty tuple.\<close>

fun real_event :: "nat_event \<Rightarrow> bool" where
  "real_event (EvDeleteEntry r) = (\<not> free_slot r)"
| "real_event _ = True"

lemma nat_step_ok: "cache_ok n \<Longrightarrow> real_event e \<Longrightarrow> cache_ok (nat_step drv e n)"
  by (cases e) (simp_all add: AddTable_ok DeleteTable_ok AddEntry_ok DeleteEntry_ok CacheEntry_ok
      UpdateUDPTimeStamp_ok clients_ok temp_ok FlushTempEntries_ok)

interpretation nat_cache: event_machine "nat_step drv" cache_ok real_event for drv
  by unfold_locales (rule nat_step_ok)

lemma Init_ok: "Init k alg a1 a2 (new_NatApp pre tcp udp pwr tou) = Some n \<Longrightarrow> cache_ok n"
  by (auto simp: Init_def new_NatApp_def cache_ok_def slots_ok_def slot_ok_def list_all_iff count_if_def split: if_splits)

section \<open>Every operation keeps the hardware table in step\<close>

lemma hw_sync_fields [simp]:
  "hw_sync (n\<lparr>PwrSaveIfs := p\<rparr>) = hw_sync n" "hw_sync (n\<lparr>curCnt := c\<rparr>) = hw_sync n"
  "hw_sync (n\<lparr>temp := t\<rparr>) = hw_sync n" "hw_sync (n\<lparr>touInstance := u\<rparr>) = hw_sync n"
  "hw_sync (n\<lparr>nat_table_hdl := h\<rparr>) = hw_sync n" "hw_sync (n\<lparr>pub_ip_addr := i\<rparr>) = hw_sync n"
  "hw_sync (n\<lparr>pub_ip_addr_pre := i\<rparr>) = hw_sync n"
  "hw_sync (n\<lparr>tcp_timeout := x\<rparr>) = hw_sync n" "hw_sync (n\<lparr>udp_timeout := x\<rparr>) = hw_sync n"
  by (simp_all add: hw_sync_def)

lemma hw_sync_quiet:
  "hw_sync n \<Longrightarrow> track c (hardware (driver_log n)) = hardware (driver_log n) \<Longrightarrow>
   hw_sync (n\<lparr>driver_log := driver_log n @ [c]\<rparr>)"
  by (rule hw_sync_log) (simp_all add: hardware_snoc)

lemma track_quiet [simp]:
  "track (QueryTs t h ret out) s = s"
  "ret < 0 \<Longrightarrow> track (DelRule t h ret) s = s"
  "ret < 0 \<Longrightarrow> track (AddRule t r ret out) s = s"
  "ret \<noteq> 0 \<Longrightarrow> track (AddTbl ip k ret out) s = s"
  "ret \<noteq> 0 \<Longrightarrow> track (DelTbl t ret) s = s"
  by (cases s; simp)+

text \<open>A table just made or deleted: nothing is enabled, nothing is installed.\<close>

lemma hw_sync_empty:
  "\<not> list_ex enabled (cache n) \<Longrightarrow> snd (hardware (driver_log n)) = Map.empty \<Longrightarrow> hw_sync n"
  by (auto simp: hw_sync_def list_all_iff list_ex_iff filter_empty_conv)

lemma restore_keeps_later:
  "j \<noteq> i \<Longrightarrow> cache (restore_slot drv i n) ! j = cache n ! j"
  by (simp add: restore_slot_def reinstall_def drv_add_rule_def split: prod.split)

lemma AddTable_sync:
  assumes "hw_sync n" and lawful: "driver_lawful drv"
  shows "hw_sync (snd (AddTable drv ip n))"
proof -
  obtain ret out where a: "add_tbl drv (driver_log n) ip (of_nat (length (cache n))) = (ret, out)" by fastforce
  let ?n1 = "n\<lparr>nat_table_hdl := written (nat_table_hdl n) out,
               driver_log := driver_log n @ [AddTbl ip (of_nat (length (cache n))) ret out]\<rparr>"
  show ?thesis
  proof (cases "ret = 0")
    case False
    with assms(1) a show ?thesis
      using hw_sync_quiet [OF assms(1), of "AddTbl ip (of_nat (length (cache n))) ret out"]
      by (simp add: AddTable_def Let_def hw_sync_def)
  next
    case True
    have "\<not> fst (hardware (driver_log n))" using driver_lawful_tbl [OF lawful] a True by (metis fst_conv)
    with assms(1) have off: "\<not> list_ex enabled (cache n)" by (simp add: hw_sync_def)
    have new: "snd (hardware (driver_log ?n1)) = Map.empty"
      using True by (cases "hardware (driver_log n)") (simp add: hardware_snoc)
    have s1: "hw_sync ?n1" by (rule hw_sync_empty) (use off new in simp_all)
    let ?P = "\<lambda>k (m :: NatApp). hw_sync m \<and> length (cache m) = length (cache n) \<and>
                (\<forall>j. k \<le> j \<longrightarrow> j < length (cache n) \<longrightarrow> \<not> enabled (cache m ! j))"
    have "?P (length (cache n)) (fold (restore_slot drv) [0..<length (cache n)] ?n1)"
    proof (rule fold_upt_inv [where P = ?P])
      show "?P 0 ?n1" using s1 off by (auto simp: list_ex_length)
      fix i m assume i: "i < length (cache n)" and P: "?P i m"
      then have "hw_sync (restore_slot drv i m)"
        by (auto simp: restore_slot_def intro!: hw_sync_reinstall lawful)
      with P show "?P (Suc i) (restore_slot drv i m)" by (auto simp: restore_keeps_later)
    qed
    then have "hw_sync (for_cache (restore_slot drv) ?n1)" by (simp add: for_cache_def)
    with s1 a True show ?thesis by (auto simp: AddTable_def Let_def)
  qed
qed

lemma disable_slot_enabled:
  "i < length (cache m) \<Longrightarrow>
   enabled (cache (disable_slot i m) ! j) \<longleftrightarrow> j \<noteq> i \<and> enabled (cache m ! j)"
  by (cases "j = i") (simp_all add: disable_slot_def)

lemma NatReset_disables:
  "\<not> list_ex enabled (cache (NatReset n))" "driver_log (NatReset n) = driver_log n"
proof -
  let ?n = "n\<lparr>nat_table_hdl := 0, pub_ip_addr := 0\<rparr>"
  let ?P = "\<lambda>k (m :: NatApp). length (cache m) = length (cache n) \<and> driver_log m = driver_log n \<and>
              (\<forall>j < k. \<not> enabled (cache m ! j))"
  have "?P (length (cache n)) (fold disable_slot [0..<length (cache n)] ?n)"
  proof (rule fold_upt_inv [where P = ?P])
    show "?P 0 ?n" by simp
    fix i m assume "i < length (cache n)" and "?P i m"
    then show "?P (Suc i) (disable_slot i m)"
      using less_antisym by (auto simp: disable_slot_enabled) (simp add: disable_slot_def)
  qed
  then show "\<not> list_ex enabled (cache (NatReset n))" "driver_log (NatReset n) = driver_log n"
    by (simp_all add: NatReset_def for_cache_def list_ex_length)
qed

lemma DeleteTable_sync:
  assumes "hw_sync n" shows "hw_sync (snd (DeleteTable drv ip n))"
proof -
  let ?ret = "del_tbl drv (driver_log n) (nat_table_hdl n)"
  let ?n1 = "n\<lparr>driver_log := driver_log n @ [DelTbl (nat_table_hdl n) ?ret]\<rparr>"
  have "hw_sync ?n1" if "?ret \<noteq> 0" using that assms by (intro hw_sync_quiet) simp_all
  moreover have "hw_sync (NatReset (?n1\<lparr>pub_ip_addr_pre := pub_ip_addr ?n1\<rparr>))" if "?ret = 0"
    by (rule hw_sync_empty)
      (use that in \<open>cases "hardware (driver_log n)"; simp add: NatReset_disables hardware_snoc\<close>)+
  ultimately show ?thesis using assms by (auto simp: DeleteTable_def Let_def)
qed

lemma DeleteEntry_sync:
  assumes "hw_sync n" shows "hw_sync (snd (DeleteEntry drv r n))"
proof (cases "first_index (\<lambda>e. same_tuple e r) (cache n) < length (cache n)")
  case True
  let ?i = "first_index (\<lambda>e. same_tuple e r) (cache n)"
  show ?thesis
  proof (cases "enabled (cache n ! ?i)")
    case en: True
    show ?thesis
      by (rule hw_sync_remove [OF assms True en, where e = zero_entry])
        (use True en in \<open>simp_all add: DeleteEntry_def Let_def drv_del_rule_eq\<close>)
  next
    case False
    show ?thesis
      by (rule hw_sync_disabled [OF assms True False, where e = zero_entry])
        (use True False in \<open>simp_all add: DeleteEntry_def Let_def\<close>)
  qed
qed (simp add: DeleteEntry_def assms Let_def)

lemma free_disabled:
  "cache_ok n \<Longrightarrow> i < length (cache n) \<Longrightarrow> free_slot (cache n ! i) \<Longrightarrow> \<not> enabled (cache n ! i)"
  using enabled_not_free by blast

lemma AddEntry_sync:
  assumes "hw_sync n" and "cache_ok n" and lawful: "driver_lawful drv"
  shows "hw_sync (snd (AddEntry drv r n))"
proof (cases rule: AddEntry_cases [of r n drv])
  case (cached i)
  show ?thesis
    by (rule hw_sync_disabled [OF assms(1) cached(6) free_disabled [OF assms(2) cached(6,7)],
          where e = "store_fields r ((cache n ! i)\<lparr>enabled := False, rule_hdl := 0\<rparr>)"])
      (use cached in simp_all)
next
  case (rejected i ret out)
  let ?n = "n\<lparr>driver_log := driver_log n @ [AddRule (nat_table_hdl n) (nat_rule_of r) ret out]\<rparr>"
  have 1: "hw_sync ?n" by (rule hw_sync_quiet [OF assms(1)]) (simp add: rejected)
  have off: "\<not> enabled (cache n ! i)" using free_disabled [OF assms(2) rejected(5,6)] .
  show ?thesis
    by (rule hw_sync_disabled [OF 1, of i "(cache n ! i)\<lparr>rule_hdl := written (rule_hdl (cache n ! i)) out\<rparr>"])
      (use rejected off in simp_all)
next
  case (installed i ret out)
  show ?thesis
    by (rule hw_sync_add [OF assms(1) installed(6) free_disabled [OF assms(2) installed(6,7)] lawful installed(8,9),
          where old = "rule_hdl (cache n ! i)" and e = "store_fields r
          ((cache n ! i)\<lparr>rule_hdl := written (rule_hdl (cache n ! i)) out, enabled := True\<rparr>)"])
      (use installed in simp_all)
qed (use assms in simp_all)

lemma CacheEntry_sync:
  assumes "hw_sync n" and "cache_ok n" shows "hw_sync (CacheEntry r n)"
proof (cases rule: CacheEntry_cases [of r n])
  case (cached i)
  show ?thesis
    by (rule hw_sync_disabled [OF assms(1) cached(4) free_disabled [OF assms(2) cached(4,5)],
          where e = "(store_fields r (cache n ! i))
           \<lparr>enabled := False, rule_hdl := 0, public_ip := public_ip r\<rparr>"])
      (use cached in simp_all)
qed (use assms in simp)

lemma UpdateCTUdpTs_sync:
  assumes "hw_sync n" and "i < length (cache n)" shows "hw_sync (UpdateCTUdpTs i ts n)"
proof (cases "touInstance n")
  case (Some ups)
  show ?thesis
    by (rule hw_sync_same [OF assms, where e = "(cache n ! i)\<lparr>timestamp := ts\<rparr>"])
      (use Some in \<open>simp_all add: UpdateCTUdpTs_def\<close>)
qed (simp add: UpdateCTUdpTs_def assms)

lemma udp_slot_sync:
  "hw_sync (snd s) \<Longrightarrow> i < length (cache (snd s)) \<Longrightarrow> hw_sync (snd (udp_slot drv i s))"
  by (auto simp: udp_slot_def Let_def Read_TcpUdp_Timeout_def split: prod.split
      intro!: UpdateCTUdpTs_sync hw_sync_quiet)

lemma UpdateUDPTimeStamp_sync:
  assumes "hw_sync n" shows "hw_sync (UpdateUDPTimeStamp drv n)"
  unfolding UpdateUDPTimeStamp_def
  by (rule fold_inv [where P = "\<lambda>s. hw_sync (snd s) \<and> length (cache (snd s)) = length (cache n)", THEN conjunct1])
    (use assms in \<open>auto simp: udp_slot_sync\<close>)

text \<open>A slot whose rule is deleted: in step whatever the driver answers.\<close>

lemma failed_del_sync:
  "hw_sync n \<Longrightarrow> ret < 0 \<Longrightarrow> hw_sync (n\<lparr>driver_log := driver_log n @ [DelRule t h ret]\<rparr>)"
  by (simp add: hw_sync_quiet)

lemma del_slot_sync:
  "hw_sync n \<Longrightarrow> i < length (cache n) \<Longrightarrow> enabled (cache n ! i) \<Longrightarrow> \<not> enabled e \<Longrightarrow>
   hw_sync (set_slot i e (n\<lparr>driver_log := driver_log n @ [DelRule t (rule_hdl (cache n ! i)) ret]\<rparr>))"
  by (rule hw_sync_remove [of n i e]) simp_all

lemma power_down_slot_sync: "hw_sync n \<Longrightarrow> i < length (cache n) \<Longrightarrow> hw_sync (power_down_slot drv ip i n)"
  by (auto simp: power_down_slot_def drv_del_rule_eq intro!: failed_del_sync del_slot_sync)

lemma discon_slot_sync: "hw_sync n \<Longrightarrow> i < length (cache n) \<Longrightarrow> hw_sync (discon_slot drv ip i n)"
  by (auto simp: discon_slot_def drv_del_rule_eq intro!: failed_del_sync del_slot_sync)

lemma power_up_slot_sync:
  "hw_sync n \<Longrightarrow> driver_lawful drv \<Longrightarrow> i < length (cache n) \<Longrightarrow> hw_sync (power_up_slot drv ip i n)"
  by (auto simp: power_up_slot_def intro!: hw_sync_reinstall)

lemma sta_discon_slot_sync:
  assumes "hw_sync n" and "i < length (cache n)" shows "hw_sync (sta_discon_slot drv ip i n)"
proof (cases "enabled (cache n ! i)")
  case True
  with assms show ?thesis by (auto simp: sta_discon_slot_def Let_def drv_del_rule_eq intro!: failed_del_sync del_slot_sync)
next
  case False
  have "hw_sync (set_slot i zero_entry n)"
    by (rule hw_sync_disabled [OF assms False, where e = zero_entry]) simp_all
  with False assms show ?thesis by (simp add: sta_discon_slot_def)
qed

lemma clients_sync:
  assumes "hw_sync n"
  shows "hw_sync (snd (UpdatePwrSaveIf drv ip n))"
    and "driver_lawful drv \<Longrightarrow> hw_sync (snd (ResetPwrSaveIf drv ip n))"
    and "hw_sync (snd (DelEntriesOnClntDiscon drv ip n))"
    and "hw_sync (snd (DelEntriesOnSTAClntDiscon drv ip n))"
  using assms
  by (auto simp: UpdatePwrSaveIf_def ResetPwrSaveIf_def DelEntriesOnClntDiscon_def DelEntriesOnSTAClntDiscon_def
      power_down_slot_sync power_up_slot_sync discon_slot_sync sta_discon_slot_sync
      intro!: for_cache_inv [where P = hw_sync])

lemma temp_sync:
  "hw_sync n \<Longrightarrow> hw_sync (AddTempEntry e n)" "hw_sync n \<Longrightarrow> hw_sync (DeleteTempEntry e n)"
  by (simp_all add: AddTempEntry_def DeleteTempEntry_def Let_def)

lemma FlushTempEntries_sync:
  assumes "hw_sync n" and "cache_ok n" and "driver_lawful drv"
  shows "hw_sync (FlushTempEntries drv ip isAdd isDummy n)"
proof -
  have "hw_sync (flush_slot drv ip isAdd isDummy i m)" if "hw_sync m" "cache_ok m" for i m
  proof -
    have "hw_sync (snd (AddEntry drv t (m\<lparr>temp := ts\<rparr>)))" for t ts
      using that assms(3) by (simp add: AddEntry_sync)
    then show ?thesis using that unfolding flush_slot_def Let_def by (simp add: case_prod_beta)
  qed
  then show ?thesis
    unfolding FlushTempEntries_def
    by (intro fold_inv [where P = "\<lambda>m. hw_sync m \<and> cache_ok m", THEN conjunct1])
      (use assms in \<open>simp_all add: flush_slot_ok\<close>)
qed

lemma nat_step_sync:
  "hw_sync n \<Longrightarrow> cache_ok n \<Longrightarrow> driver_lawful drv \<Longrightarrow> hw_sync (nat_step drv e n)"
  by (cases e) (simp_all add: AddTable_sync DeleteTable_sync AddEntry_sync DeleteEntry_sync CacheEntry_sync
      UpdateUDPTimeStamp_sync clients_sync temp_sync FlushTempEntries_sync)

interpretation nat_table: event_machine "nat_step drv"
  "\<lambda>n. cache_ok n \<and> (driver_lawful drv \<longrightarrow> hw_sync n)" real_event for drv
  by unfold_locales (auto intro: nat_step_ok nat_step_sync)

section \<open>The cache as a map of connections\<close>

type_synonym nat_tuple = "u32 \<times> u32 \<times> u16 \<times> u16 \<times> u8"

definition connections :: "NatApp \<Rightarrow> nat_tuple \<rightharpoonup> u16 \<times> bool" where
  "connections n t =
     map_option (\<lambda>e. (public_port e, dst_nat e)) (find (\<lambda>e. \<not> free_slot e \<and> tuple_of e = t) (cache n))"

lemma connections_iff:
  assumes "cache_ok n"
  shows "connections n t = Some v \<longleftrightarrow>
    (\<exists>i < length (cache n). \<not> free_slot (cache n ! i) \<and> tuple_of (cache n ! i) = t \<and>
       v = (public_port (cache n ! i), dst_nat (cache n ! i)))"
proof
  assume "connections n t = Some v"
  then obtain e where "find (\<lambda>e. \<not> free_slot e \<and> tuple_of e = t) (cache n) = Some e"
    and v: "v = (public_port e, dst_nat e)" by (auto simp: connections_def)
  then have "e \<in> set (cache n)" "\<not> free_slot e" "tuple_of e = t" by (auto dest!: find_Some)
  then show "\<exists>i < length (cache n). \<not> free_slot (cache n ! i) \<and> tuple_of (cache n ! i) = t \<and>
       v = (public_port (cache n ! i), dst_nat (cache n ! i))"
    using v by (auto simp: in_set_conv_nth)
next
  assume "\<exists>i < length (cache n). \<not> free_slot (cache n ! i) \<and> tuple_of (cache n ! i) = t \<and>
       v = (public_port (cache n ! i), dst_nat (cache n ! i))"
  then obtain i where i: "i < length (cache n)" "\<not> free_slot (cache n ! i)" "tuple_of (cache n ! i) = t"
    "v = (public_port (cache n ! i), dst_nat (cache n ! i))" by blast
  then have "find (\<lambda>e. \<not> free_slot e \<and> tuple_of e = t) (cache n) \<noteq> None" by (auto simp: find_None)
  then obtain e where e: "find (\<lambda>e. \<not> free_slot e \<and> tuple_of e = t) (cache n) = Some e" by blast
  then have "e \<in> set (cache n)" "\<not> free_slot e" "tuple_of e = t" by (auto dest!: find_Some)
  moreover obtain j where "j < length (cache n)" "e = cache n ! j"
    using \<open>e \<in> set (cache n)\<close> by (auto simp: in_set_conv_nth)
  ultimately have "e = cache n ! i"
    using assms i by (auto simp: cache_ok_def slots_ok_def distinct_map_filter_nth)
  with e i(4) show "connections n t = Some v" by (simp add: connections_def)
qed

lemma connections_filled:
  assumes n: "cache_ok n" and m: "cache_ok m" and i: "i < length (cache n)" and "cache m = (cache n)[i := e]"
    and "free_slot (cache n ! i)" and "\<not> free_slot e"
  shows "connections m = (connections n)(tuple_of e \<mapsto> (public_port e, dst_nat e))"
proof (rule map_eqI)
  fix t v
  have new: "connections m (tuple_of e) = Some (public_port e, dst_nat e)"
    unfolding connections_iff [OF m] using assms by (intro exI [of _ i]) simp
  have "connections m t = Some v \<longleftrightarrow> connections n t = Some v" if "t \<noteq> tuple_of e"
    unfolding connections_iff [OF m] connections_iff [OF n] using assms that
    by (auto simp: nth_list_update split: if_splits)
  with new show "connections m t = Some v \<longleftrightarrow>
      ((connections n)(tuple_of e \<mapsto> (public_port e, dst_nat e))) t = Some v"
    by auto
qed

lemma connections_cleared:
  assumes n: "cache_ok n" and m: "cache_ok m" and i: "i < length (cache n)"
    and "cache m = (cache n)[i := zero_entry]" and "\<not> free_slot (cache n ! i)"
  shows "connections m = (connections n)(tuple_of (cache n ! i) := None)"
proof (rule map_eqI)
  fix t v
  have uniq: "j = i" if "j < length (cache n)" "\<not> free_slot (cache n ! j)" "tuple_of (cache n ! j) = tuple_of (cache n ! i)" for j
    using n that assms by (auto simp: cache_ok_def slots_ok_def distinct_map_filter_nth)
  have "connections m t \<noteq> Some v" if "t = tuple_of (cache n ! i)"
    unfolding connections_iff [OF m] using assms(4) that uniq i by (auto simp: nth_list_update split: if_splits)
  moreover have "connections m t = Some v \<longleftrightarrow> connections n t = Some v" if "t \<noteq> tuple_of (cache n ! i)"
    unfolding connections_iff [OF m] connections_iff [OF n] using assms that
    by (auto simp: nth_list_update split: if_splits)
  ultimately show "connections m t = Some v \<longleftrightarrow> ((connections n)(tuple_of (cache n ! i) := None)) t = Some v"
    by auto
qed

lemma find_update_same:
  "i < length xs \<Longrightarrow> p e = p (xs ! i) \<Longrightarrow> f e = f (xs ! i) \<Longrightarrow>
   map_option f (find p (xs[i := e])) = map_option f (find p xs)"
proof (induction xs arbitrary: i)
  case (Cons x xs)
  then show ?case by (cases i) auto
qed simp

lemma connections_same:
  assumes "i < length (cache n)" and "cache m = (cache n)[i := e]" and "tuple_of e = tuple_of (cache n ! i)"
    and "public_port e = public_port (cache n ! i)" and "dst_nat e = dst_nat (cache n ! i)"
  shows "connections m = connections n"
  unfolding connections_def assms(2)
  by (rule ext, rule find_update_same) (use assms in \<open>simp_all add: free_slot_iff\<close>)

lemma connections_frame: "cache m = cache n \<Longrightarrow> connections m = connections n"
  by (rule ext) (simp add: connections_def)

lemma slots_keep_connections:
  assumes "i < length (cache n)"
  shows "connections (disable_slot i n) = connections n"
    "connections (power_down_slot drv ip i n) = connections n"
    "connections (discon_slot drv ip i n) = connections n"
proof -
  show "connections (disable_slot i n) = connections n"
    by (rule connections_same [OF assms, where e = "(cache n ! i)\<lparr>enabled := False\<rparr>"]) (simp_all add: disable_slot_def)
  let ?del = "n\<lparr>driver_log := driver_log n @ [DelRule (nat_table_hdl n) (rule_hdl (cache n ! i))
      (del_rule drv (driver_log n) (nat_table_hdl n) (rule_hdl (cache n ! i)))]\<rparr>"
  have log: "connections ?del = connections n" by (rule connections_frame) simp
  have "connections (set_slot i ((cache n ! i)\<lparr>enabled := False, rule_hdl := 0\<rparr>) ?del) = connections n"
    by (rule connections_same [OF assms, where e = "(cache n ! i)\<lparr>enabled := False, rule_hdl := 0\<rparr>"]) simp_all
  with log show "connections (power_down_slot drv ip i n) = connections n"
    by (simp add: power_down_slot_def drv_del_rule_eq)
  have "connections (set_slot i ((cache n ! i)\<lparr>enabled := False\<rparr>) ?del) = connections n"
    by (rule connections_same [OF assms, where e = "(cache n ! i)\<lparr>enabled := False\<rparr>"]) simp_all
  with log show "connections (discon_slot drv ip i n) = connections n"
    by (simp add: discon_slot_def drv_del_rule_eq)
qed

lemma for_cache_keeps_connections:
  assumes "connections n' = connections n"
    and "\<And>i m. i < length (cache m) \<Longrightarrow> connections (body i m) = connections m"
    and "\<And>i m. length (cache (body i m)) = length (cache m)"
  shows "connections (for_cache body n') = connections n"
  by (rule for_cache_inv [where P = "\<lambda>m. connections m = connections n"]) (use assms in simp_all)

lemma AddEntry_connections:
  assumes n: "cache_ok n"
  shows "connections (snd (AddEntry drv r n)) =
    (if fst (AddEntry drv r n) = 0 \<and> \<not> invalid_rule r
     then (connections n)(tuple_of r \<mapsto> (public_port r, dst_nat r)) else connections n)"
proof -
  have occ: "\<not> free_slot (store_fields r e)" if "\<not> invalid_rule r" for e
    using that by (auto simp: free_slot_def invalid_rule_def store_fields_def)
  have m: "cache_ok (snd (AddEntry drv r n))" by (rule AddEntry_ok [OF n])
  show ?thesis
  proof (cases rule: AddEntry_cases [of r n drv])
    case (cached i)
    have "connections (snd (AddEntry drv r n)) = (connections n)(tuple_of r \<mapsto> (public_port r, dst_nat r))"
      using connections_filled [OF n m cached(6), of "store_fields r ((cache n ! i)\<lparr>enabled := False, rule_hdl := 0\<rparr>)"]
        cached occ by simp
    with cached show ?thesis by simp
  next
    case (rejected i ret out)
    have "connections (snd (AddEntry drv r n)) = connections n"
      by (rule connections_same [OF rejected(5), where e = "(cache n ! i)\<lparr>rule_hdl := written (rule_hdl (cache n ! i)) out\<rparr>"])
        (simp_all add: rejected)
    with rejected show ?thesis by simp
  next
    case (installed i ret out)
    have "connections (snd (AddEntry drv r n)) = (connections n)(tuple_of r \<mapsto> (public_port r, dst_nat r))"
      using connections_filled [OF n m installed(6), of "store_fields r
          ((cache n ! i)\<lparr>rule_hdl := written (rule_hdl (cache n ! i)) out, enabled := True\<rparr>)"]
        installed occ by simp
    with installed show ?thesis by simp
  qed simp_all
qed

lemma dup_connections:
  assumes "cache_ok n" and "\<not> invalid_rule r"
  shows "ChkForDup r n \<longleftrightarrow> connections n (tuple_of r) \<noteq> None"
proof -
  have "\<not> free_slot x" if "tuple_of x = tuple_of r" for x
    using that assms(2) by (auto simp: free_slot_def invalid_rule_def tuple_of_def)
  then show ?thesis
    by (auto simp: ChkForDup_def connections_def find_None list_ex_iff same_tuple_iff)
qed

lemma CacheEntry_connections:
  assumes n: "cache_ok n"
  shows "connections (CacheEntry r n) =
    (if invalid_rule r \<or> connections n (tuple_of r) \<noteq> None \<or> \<not> list_ex free_slot (cache n) then connections n
     else (connections n)(tuple_of r \<mapsto> (public_port r, dst_nat r)))"
proof -
  have m: "cache_ok (CacheEntry r n)" by (rule CacheEntry_ok [OF n])
  show ?thesis
  proof (cases rule: CacheEntry_cases [of r n])
    case unchanged
    then show ?thesis using dup_connections [OF n, of r] by auto
  next
    case (cached i)
    let ?e = "(store_fields r (cache n ! i))\<lparr>enabled := False, rule_hdl := 0, public_ip := public_ip r\<rparr>"
    have "\<not> free_slot ?e" using cached(1) by (auto simp: free_slot_def invalid_rule_def store_fields_def)
    then have "connections (CacheEntry r n) = (connections n)(tuple_of r \<mapsto> (public_port r, dst_nat r))"
      using connections_filled [OF n m cached(4), of ?e] cached by simp
    moreover have "connections n (tuple_of r) = None" using dup_connections [OF n cached(1)] cached(2) by blast
    moreover have "list_ex free_slot (cache n)" using cached(4,5) by (auto simp: list_ex_length)
    ultimately show ?thesis using cached(1) by simp
  qed
qed

lemma DeleteEntry_connections:
  assumes n: "cache_ok n" and "\<not> free_slot r"
  shows "connections (snd (DeleteEntry drv r n)) = (connections n)(tuple_of r := None)"
proof (cases "first_index (\<lambda>e. same_tuple e r) (cache n) < length (cache n)")
  case True
  let ?i = "first_index (\<lambda>e. same_tuple e r) (cache n)"
  have t: "tuple_of (cache n ! ?i) = tuple_of r" using first_index_holds [OF True] by (simp add: same_tuple_iff)
  have m: "cache_ok (snd (DeleteEntry drv r n))" by (rule DeleteEntry_ok [OF assms])
  have "connections (snd (DeleteEntry drv r n)) = (connections n)(tuple_of (cache n ! ?i) := None)"
    by (rule connections_cleared [OF n m True])
      (use True t assms(2) in \<open>simp_all add: DeleteEntry_def Let_def free_slot_iff\<close>)
  with t show ?thesis by simp
next
  case False
  then have "\<not> (\<exists>x \<in> set (cache n). same_tuple x r)" by (simp add: first_index_less)
  then have "connections n (tuple_of r) = None" by (auto simp: connections_def find_None same_tuple_iff)
  with False show ?thesis by (auto simp: DeleteEntry_def Let_def)
qed

section \<open>Power save\<close>

lemma power_down_slot_log:
  "private_ip (cache (power_down_slot drv ip i n) ! j) = private_ip (cache n ! j)"
  by (cases "j = i"; cases "i < length (cache n)")
    (simp_all add: power_down_slot_def drv_del_rule_eq list_update_beyond)

lemma power_down_slot_others:
  "j \<noteq> i \<Longrightarrow> cache (power_down_slot drv ip i n) ! j = cache n ! j"
  by (simp add: power_down_slot_def drv_del_rule_eq)

lemma power_down_slot_frame:
  "PwrSaveIfs (power_down_slot drv ip i n) = PwrSaveIfs n"
  by (simp add: power_down_slot_def drv_del_rule_eq)

lemma power_down_slot_off:
  "(\<And>log t h. 0 \<le> del_rule drv log t h) \<Longrightarrow> i < length (cache n) \<Longrightarrow>
   private_ip (cache n ! i) = ip \<Longrightarrow> \<not> enabled (cache (power_down_slot drv ip i n) ! i)"
  by (simp add: power_down_slot_def drv_del_rule_eq) (metis not_less)

lemma replace_first_mem: "old \<in> set xs \<Longrightarrow> new \<in> set (replace_first old new xs)"
  by (auto simp: replace_first_def Let_def first_index_less set_update_memI)

lemma connections_log:
  "connections (n\<lparr>driver_log := l\<rparr>) = connections n" "connections (n\<lparr>PwrSaveIfs := p\<rparr>) = connections n"
  by (rule connections_frame, simp)+

section \<open>Properties\<close>

text \<open>A driver for examples: one table, and each new handle is the number of calls so far.\<close>

definition counting_driver :: nat_driver where
  "counting_driver =
     \<lparr>add_tbl = \<lambda>log ip k. if fst (hardware log) then (-1, None) else (0, Some 1),
      del_tbl = \<lambda>log t. 0,
      add_rule = \<lambda>log t r. let h = of_nat (length log)
        in if fst (hardware log) \<and> snd (hardware log) h = None then (0, Some h) else (-1, None),
      del_rule = \<lambda>log t h. 0,
      query_ts = \<lambda>log t h. (-1, None)\<rparr>"

lemma counting_driver_lawful: "driver_lawful counting_driver"
  by (simp add: driver_lawful_def counting_driver_def Let_def)

definition example_rule :: nat_table_entry where
  "example_rule = zero_entry\<lparr>private_ip := 10, private_port := 1000, target_ip := 20, target_port := 80,
     public_port := 5000, protocol := 6\<rparr>"

text \<open>
  C7: With a driver that keeps its documented promises but may refuse any call, after any
  history of operations each enabled entry of the cache is a rule of the hardware table under its
  handle, no two entries share a handle, nothing is enabled without a table, and the table holds
  nothing else unless the driver refused to delete a rule.
\<close>

theorem nat_hardware_in_step:
  assumes "Init max_entries alg True True (new_NatApp pre tcp udp pwr tou) = Some n"
    and "driver_lawful drv" and "list_all real_event es"
  shows "hw_sync (fold (nat_step drv) es n)"
proof -
  have "cache n = replicate max_entries zero_entry" "driver_log n = []"
    using assms(1) by (auto simp: Init_def new_NatApp_def split: if_splits)
  then have "hw_sync n" by (auto intro: hw_sync_empty simp: list_ex_iff hardware_def)
  with nat_table.run_inv [OF _ assms(3), of n drv] Init_ok [OF assms(1)] assms(2) show ?thesis by blast
qed

theorem nat_hardware_in_step_witness:
  "let n = fold (nat_step counting_driver) [EvAddTable 7, EvAddEntry example_rule]
             (the (Init 2 [(6, 21)] True True (new_NatApp 0 0 0 (replicate 32 0) None)))
   in hw_sync n \<and> snd (hardware (driver_log n)) 1 = Some (nat_rule_of example_rule)"
proof -
  let ?n = "the (Init 2 [(6, 21)] True True (new_NatApp 0 0 0 (replicate 32 0) None))"
  have init: "Init 2 [(6, 21)] True True (new_NatApp 0 0 0 (replicate 32 0) None) = Some ?n"
    by (simp add: Init_def)
  have "snd (hardware (driver_log (fold (nat_step counting_driver) [EvAddTable 7, EvAddEntry example_rule] ?n))) 1 =
      Some (nat_rule_of example_rule)"
    by code_simp
  with nat_hardware_in_step [OF init counting_driver_lawful, of "[EvAddTable 7, EvAddEntry example_rule]"]
  show ?thesis by (simp add: Let_def)
qed

text \<open>
  Whatever the driver answers, after any history of operations (deletions naming a
  connection) every slot is free and disabled or holds a complete connection, no connection is held
  twice, and the counter is the number of connections held.
\<close>

theorem nat_cache_wellformed:
  assumes "Init max_entries alg True True (new_NatApp pre tcp udp pwr tou) = Some n"
    and "list_all real_event es"
  shows "cache_ok (fold (nat_step drv) es n)"
  by (rule nat_cache.run_inv [OF Init_ok [OF assms(1)] assms(2)])

theorem nat_cache_wellformed_witness:
  "let n = fold (nat_step counting_driver) [EvCacheEntry example_rule, EvDeleteEntry example_rule]
             (the (Init 2 [(6, 21)] True True (new_NatApp 0 0 0 (replicate 32 0) None)))
   in cache_ok n"
proof -
  have "Init 2 [(6, 21)] True True (new_NatApp 0 0 0 (replicate 32 0) None) =
      Some (the (Init 2 [(6, 21)] True True (new_NatApp 0 0 0 (replicate 32 0) None)))"
    by (simp add: Init_def)
  moreover have "list_all real_event [EvCacheEntry example_rule, EvDeleteEntry example_rule]"
    by (simp add: example_rule_def free_slot_def)
  ultimately show ?thesis unfolding Let_def by (rule nat_cache_wellformed)
qed

text \<open>
  C8: A well-formed cache is a finite map from connections to public port and direction: adding
  stores the connection exactly when it succeeds on a complete one, caching stores it unless known,
  incomplete or out of room, deleting removes it, and losing the table, a client going to power
  save or a client leaving changes nothing of the map.
\<close>

theorem nat_cache_refines_map:
  assumes "cache_ok n"
  shows "connections (snd (AddEntry drv r n)) =
      (if fst (AddEntry drv r n) = 0 \<and> \<not> invalid_rule r
       then (connections n)(tuple_of r \<mapsto> (public_port r, dst_nat r)) else connections n) \<and>
    connections (CacheEntry r n) =
      (if invalid_rule r \<or> connections n (tuple_of r) \<noteq> None \<or> \<not> list_ex free_slot (cache n) then connections n
       else (connections n)(tuple_of r \<mapsto> (public_port r, dst_nat r))) \<and>
    (free_slot r \<or> connections (snd (DeleteEntry drv r n)) = (connections n)(tuple_of r := None)) \<and>
    connections (snd (DeleteTable drv ip n)) = connections n \<and>
    connections (snd (UpdatePwrSaveIf drv ip n)) = connections n \<and>
    connections (snd (DelEntriesOnClntDiscon drv ip n)) = connections n"
proof (intro conjI)
  show "free_slot r \<or> connections (snd (DeleteEntry drv r n)) = (connections n)(tuple_of r := None)"
    using DeleteEntry_connections [OF assms] by blast
  have reset: "connections (NatReset m) = connections n" if "cache m = cache n" for m
    unfolding NatReset_def
    by (rule for_cache_keeps_connections, rule connections_frame)
      (simp_all add: slots_keep_connections that)
  show "connections (snd (DeleteTable drv ip n)) = connections n"
    by (simp add: DeleteTable_def Let_def reset connections_log)
  show "connections (snd (UpdatePwrSaveIf drv ip n)) = connections n"
    by (auto simp: UpdatePwrSaveIf_def slots_keep_connections connections_log intro!: for_cache_keeps_connections)
  show "connections (snd (DelEntriesOnClntDiscon drv ip n)) = connections n"
    by (auto simp: DelEntriesOnClntDiscon_def slots_keep_connections connections_log
        intro!: for_cache_keeps_connections)
qed (rule AddEntry_connections [OF assms], rule CacheEntry_connections [OF assms])

theorem nat_cache_refines_map_witness:
  "connections (snd (DeleteEntry counting_driver example_rule
     ((new_NatApp 0 0 0 (replicate 32 0) None)\<lparr>cache := [example_rule], curCnt := 1\<rparr>))) = Map.empty"
proof -
  let ?n = "(new_NatApp 0 0 0 (replicate 32 0) None)\<lparr>cache := [example_rule], curCnt := 1\<rparr>"
  have occ: "\<not> free_slot example_rule" by (simp add: free_slot_def example_rule_def)
  have "cache_ok ?n"
    by (simp add: cache_ok_def slots_ok_def slot_ok_def occ) (simp add: invalid_rule_def example_rule_def)
  from nat_cache_refines_map [OF this, where r = example_rule and drv = counting_driver] occ
  have "connections (snd (DeleteEntry counting_driver example_rule ?n)) = (connections ?n)(tuple_of example_rule := None)"
    by blast
  also have "\<dots> = Map.empty" using occ by (auto simp: connections_def)
  finally show ?thesis .
qed

text \<open>
  When a client goes to power save and the driver deletes what it is asked to, no entry of
  the client stays enabled; if the list of such clients had room, a new connection of the client is
  cached without a call to the driver until it wakes up.
\<close>

theorem nat_power_save:
  assumes "\<And>log t h. 0 \<le> del_rule drv log t h" and "ip \<noteq> 0" and "ip \<notin> set (PwrSaveIfs n)"
  shows "\<not> list_ex (\<lambda>e. private_ip e = ip \<and> enabled e) (cache (snd (UpdatePwrSaveIf drv ip n))) \<and>
    (0 \<notin> set (PwrSaveIfs n) \<or> private_ip r \<noteq> ip \<or>
     driver_log (snd (AddEntry drv r (snd (UpdatePwrSaveIf drv ip n)))) =
       driver_log (snd (UpdatePwrSaveIf drv ip n)))"
proof
  let ?n = "n\<lparr>PwrSaveIfs := replace_first 0 ip (PwrSaveIfs n)\<rparr>"
  let ?m = "for_cache (power_down_slot drv ip) ?n"
  let ?P = "\<lambda>k (m :: NatApp). length (cache m) = length (cache n) \<and> PwrSaveIfs m = PwrSaveIfs ?n \<and>
      (\<forall>j < k. private_ip (cache m ! j) = ip \<longrightarrow> \<not> enabled (cache m ! j))"
  have m: "snd (UpdatePwrSaveIf drv ip n) = ?m" using assms by (simp add: UpdatePwrSaveIf_def)
  have "?P (length (cache n)) (fold (power_down_slot drv ip) [0..<length (cache n)] ?n)"
  proof (rule fold_upt_inv [where P = ?P])
    fix i m assume i: "i < length (cache n)" and P: "?P i m"
    have "\<not> enabled (cache (power_down_slot drv ip i m) ! j)"
      if "j < Suc i" "private_ip (cache (power_down_slot drv ip i m) ! j) = ip" for j
    proof (cases "j = i")
      case True
      with that i P show ?thesis
        using power_down_slot_off [of drv i m ip, OF assms(1)] by (simp add: power_down_slot_log)
    next
      case False
      with that P show ?thesis by (simp add: power_down_slot_others)
    qed
    with P show "?P (Suc i) (power_down_slot drv ip i m)" by (simp add: power_down_slot_frame)
  qed simp
  then have off: "length (cache ?m) = length (cache n)" "PwrSaveIfs ?m = replace_first 0 ip (PwrSaveIfs n)"
    "\<forall>j < length (cache n). private_ip (cache ?m ! j) = ip \<longrightarrow> \<not> enabled (cache ?m ! j)"
    by (simp_all add: for_cache_def)
  then show "\<not> list_ex (\<lambda>e. private_ip e = ip \<and> enabled e) (cache (snd (UpdatePwrSaveIf drv ip n)))"
    by (auto simp: m list_ex_length)
  have "power_save_rule r ?m" if "0 \<in> set (PwrSaveIfs n)" "private_ip r = ip"
    using replace_first_mem [OF that(1), of ip] assms(2) that(2) off(2)
    by (auto simp: power_save_rule_def isPwrSaveIf_def list_ex_iff)
  then show "0 \<notin> set (PwrSaveIfs n) \<or> private_ip r \<noteq> ip \<or>
     driver_log (snd (AddEntry drv r (snd (UpdatePwrSaveIf drv ip n)))) =
       driver_log (snd (UpdatePwrSaveIf drv ip n))"
    unfolding m by (cases rule: AddEntry_cases [of r ?m drv]) auto
qed

theorem nat_power_save_witness:
  "\<not> list_ex (\<lambda>e. private_ip e = 10 \<and> enabled e) (cache (snd (UpdatePwrSaveIf counting_driver 10
      ((new_NatApp 0 0 0 (replicate 32 0) None)\<lparr>cache := [example_rule\<lparr>enabled := True\<rparr>]\<rparr>))))"
  using nat_power_save [of counting_driver 10
      "(new_NatApp 0 0 0 (replicate 32 0) None)\<lparr>cache := [example_rule\<lparr>enabled := True\<rparr>]\<rparr>" example_rule]
  by (simp add: counting_driver_def new_NatApp_def)

text \<open>
  Restoring the cache after the table was made again for the same address does not look at
  power save: the connection of a client that sleeps is put back into the hardware table, where
  adding it would only have cached it.
\<close>

theorem nat_restore_ignores_power_save:
  "let run = fold (nat_step counting_driver);
       n0 = the (Init 1 [(6, 21)] True True (new_NatApp 0 0 0 (replicate 32 0) None));
       n1 = run [EvAddTable 7, EvAddEntry example_rule, EvUpdatePwrSaveIf 10] n0;
       n2 = run [EvDeleteTable 7, EvAddTable 7] n1
   in isPwrSaveIf 10 n1 \<and> \<not> list_ex enabled (cache n1) \<and>
      isPwrSaveIf 10 n2 \<and> list_ex (\<lambda>e. private_ip e = 10 \<and> enabled e) (cache n2)"
  by code_simp

text \<open>The empty tuple names every free slot: deleting it spoils the counter.\<close>

lemma delete_empty_tuple:
  assumes "list_ex free_slot (cache n)" and "cache_ok n"
  shows "\<not> cache_ok (snd (DeleteEntry drv zero_entry n))"
proof -
  have "\<exists>x \<in> set (cache n). same_tuple x zero_entry"
    using assms(1) by (auto simp: list_ex_iff same_tuple_iff free_slot_iff)
  then have i: "first_index (\<lambda>e. same_tuple e zero_entry) (cache n) < length (cache n)"
    by (simp add: first_index_less)
  let ?i = "first_index (\<lambda>e. same_tuple e zero_entry) (cache n)"
  have free: "free_slot (cache n ! ?i)" using first_index_holds [OF i] by (simp add: same_tuple_iff free_slot_iff)
  have "\<not> enabled (cache n ! ?i)" using free_disabled [OF assms(2) i free] .
  then have "curCnt (snd (DeleteEntry drv zero_entry n)) = curCnt n - 1"
    and "cache (snd (DeleteEntry drv zero_entry n)) = (cache n)[?i := zero_entry]"
    using i by (simp_all add: DeleteEntry_def Let_def)
  moreover have "count_if (\<lambda>e. \<not> free_slot e) ((cache n)[?i := zero_entry]) = count_if (\<lambda>e. \<not> free_slot e) (cache n)"
    using count_if_update [OF i, of "\<lambda>e. \<not> free_slot e" zero_entry] free by simp
  ultimately show ?thesis using assms(2) by (simp add: cache_ok_def)
qed

text \<open>After a failed first construction the next caller gets the address of the deleted object.\<close>

lemma GetInstance_dangling:
  "GetInstance k [] a1 a2 fresh NullPtr = (NullPtr, Dangling) \<and>
   fst (GetInstance k alg a1 a2 fresh (snd (GetInstance k [] b1 b2 fresh NullPtr))) = Dangling"
  by (simp add: GetInstance_def Init_def)

end
