(* ===== verification/IpaNatCache.thy ===== *)
theory IpaNatCache
  imports IpaNatRules NatCache
begin

text \<open>
  The connection cache on the NAT driver: the driver keeps the promises the cache relies on, so the
  enabled connections of the cache are rules in the tables of the driver.
\<close>

section \<open>The driver behind the connection cache\<close>

text \<open>
  The calls the driver is asked for, on its state; \<open>None\<close> is a crash or a call against its contract: a
  table too large for the 16-bit offsets, a rule with the protocol number that marks a dead entry, a
  handle that is not a 16-bit number.
\<close>

definition call_add_tbl :: "nat_kernel \<Rightarrow> u32 \<Rightarrow> u16 \<Rightarrow> ipa_nat_cache \<Rightarrow> (int \<times> nat option \<times> ipa_nat_cache) option" where
  "call_add_tbl k ip n c = (if small_table n then nat_add_ipv4_tbl k ip n c else None)"

definition call_add_rule :: "nat_kernel \<Rightarrow> u32 \<Rightarrow> ipa_nat_ipv4_rule \<Rightarrow> ipa_nat_cache \<Rightarrow> (int \<times> nat option \<times> ipa_nat_cache) option" where
  "call_add_rule k t r c = (if nr_protocol r \<noteq> 0xFF then nat_add_ipv4_rule k (unat t) r c else None)"

definition call_del_rule :: "nat_kernel \<Rightarrow> u32 \<Rightarrow> u32 \<Rightarrow> ipa_nat_cache \<Rightarrow> (int \<times> ipa_nat_cache) option" where
  "call_del_rule k t h c = (if unat h < 65536 then nat_del_ipv4_rule k (unat t) (unat h) c else None)"

abbreviation (input) hdl32 :: "nat option \<Rightarrow> u32 option" where "hdl32 \<equiv> map_option of_nat"

text \<open>
  The state after a call of the log, when the answer in the log is the one the driver gives.
\<close>

fun replay_call :: "nat_kernel \<Rightarrow> nat_call \<Rightarrow> ipa_nat_cache \<Rightarrow> ipa_nat_cache option" where
  "replay_call k (AddTbl ip n ret out) c =
     do { (r, h, c') \<leftarrow> call_add_tbl k ip n c; if ret = r \<and> out = hdl32 h then Some c' else None }"
| "replay_call k (DelTbl t ret) c =
     (case nat_del_ipv4_tbl k (unat t) c of (r, c') \<Rightarrow> if ret = r then Some c' else None)"
| "replay_call k (AddRule t rule ret out) c =
     do { (r, h, c') \<leftarrow> call_add_rule k t rule c; if ret = r \<and> out = hdl32 h then Some c' else None }"
| "replay_call k (DelRule t h ret) c =
     do { (r, c') \<leftarrow> call_del_rule k t h c; if ret = r then Some c' else None }"
| "replay_call k (QueryTs t h ret out) c = Some c"

definition replay :: "nat_kernel \<Rightarrow> nat \<Rightarrow> nat_call list \<Rightarrow> ipa_nat_cache option" where
  "replay k num log = fold (\<lambda>call s. Option.bind s (replay_call k call)) log (Some (new_nat_cache num))"

text \<open>The driver as its client sees it; \<open>-1\<close> after a history it would not have answered so.\<close>

definition ipa_driver :: "nat_kernel \<Rightarrow> nat \<Rightarrow> nat_driver" where
  "ipa_driver k num =
     \<lparr>add_tbl = \<lambda>log ip n. case Option.bind (replay k num log) (call_add_tbl k ip n) of
          None \<Rightarrow> (-1, None) | Some (r, h, _) \<Rightarrow> (r, hdl32 h),
      del_tbl = \<lambda>log t. case replay k num log of
          None \<Rightarrow> -1 | Some c \<Rightarrow> fst (nat_del_ipv4_tbl k (unat t) c),
      add_rule = \<lambda>log t r. case Option.bind (replay k num log) (call_add_rule k t r) of
          None \<Rightarrow> (-1, None) | Some (r, h, _) \<Rightarrow> (r, hdl32 h),
      del_rule = \<lambda>log t h. case Option.bind (replay k num log) (call_del_rule k t h) of
          None \<Rightarrow> -1 | Some (r, _) \<Rightarrow> r,
      query_ts = \<lambda>log t h. case Option.bind (replay k num log) (nat_query_timestamp (unat t) (unat h)) of
          None \<Rightarrow> (-1, None) | Some (r, ts) \<Rightarrow> (r, ts)\<rparr>"

definition in_order :: "ipa_nat_cache \<Rightarrow> bool" where
  "in_order c \<longleftrightarrow> (\<exists>mem meta ids rc ic. nat_inv c mem meta ids rc ic)"

lemma in_orderI: "nat_inv c mem meta ids rc ic \<Longrightarrow> in_order c"
  unfolding in_order_def by blast

text \<open>The state of the driver agrees with the table as the history determines it.\<close>

definition driver_at :: "nat_kernel \<Rightarrow> bool \<times> (u32 \<rightharpoonup> ipa_nat_ipv4_rule) \<Rightarrow> ipa_nat_cache \<Rightarrow> bool" where
  "driver_at k hw c \<longleftrightarrow>
     (if fst hw
      then in_order c \<and> table_cnt c = 1 \<and> table_allocated (io_log c) \<and>
        ver_v4_0 c = hw_v4_0 k \<and> ipa_fd c \<and> pdns c \<noteq> [] \<and> snd hw = (\<lambda>h. nat_rules c (unat h))
      else no_table c)"

lemma nat_rules_small: "nat_inv c mem meta ids rc ic \<Longrightarrow> 65536 \<le> h \<Longrightarrow> nat_rules c h = None"
proof -
  assume inv: "nat_inv c mem meta ids rc ic" and h: "65536 \<le> h"
  have "length ids < 65536"
    using ids_okD(1) [OF tables_okD(10) [OF nat_invD(8) [OF inv]]] sizes_bounds [OF nat_invD(6) [OF inv]] by simp
  then show ?thesis using h nat_rules_inv [OF inv] by (simp add: rules_of_def)
qed

lemma driver_add_tbl:
  assumes k: "kernel_works k" and c: "driver_at k hw c" and r: "call_add_tbl k ip n c = Some (ret, out, c')"
  shows "driver_at k (track (AddTbl ip n ret (hdl32 out)) hw) c' \<and> (ret = 0 \<longrightarrow> \<not> fst hw)"
proof -
  have small: "small_table n" and run: "nat_add_ipv4_tbl k ip n c = Some (ret, out, c')"
    using r by (simp_all add: call_add_tbl_def split: if_splits)
  show ?thesis
  proof (cases "fst hw")
    case False
    with c have nt: "no_table c" by (simp add: driver_at_def)
    then have "0 < length (pdns c)" by (simp add: no_table_def)
    with add_tbl_spec [OF k nt small, of ip] run False show ?thesis by (cases hw) (auto simp: driver_at_def intro: in_orderI)
  next
    case True
    from c True obtain mem meta ids rc ic where inv: "nat_inv c mem meta ids rc ic" and
      h: "table_cnt c = 1" "table_allocated (io_log c)" "ver_v4_0 c = hw_v4_0 k" "ipa_fd c" "pdns c \<noteq> []"
      "snd hw = (\<lambda>h. nat_rules c (unat h))" by (auto simp: driver_at_def in_order_def)
    from small_table_sizes [OF small] obtain te me where sz: "table_sizes n = (0, te, me)" by blast
    have ans: "answer k log IoGetVersion = 0" "answer k log (IoAllocMem s) = (if table_allocated log then -1 else 0)" for log s
      using k by (simp_all add: kernel_works_def)
    have "n \<noteq> 0" using small by (auto simp: small_table_def)
    then have c': "ret = -22" "ip4_tbl c' = ip4_tbl c" "pdns c' = pdns c" "ver_v4_0 c' = ver_v4_0 c" "table_cnt c' = 1"
      "ipa_fd c'" "table_allocated (io_log c')"
      using run h by (auto simp: nat_add_ipv4_tbl_def nati_add_ipv4_tbl_def alloc_table_def sz syscall_def ans Let_def
          table_allocated_append table_allocated_snoc)
    have "dst_of c' = dst_of c" "src_of c' = src_of c" using c' by (simp_all add: dst_of_def src_of_def fun_eq_iff)
    then have "nat_inv c' mem meta ids rc ic" using inv c' by (simp add: nat_inv_def)
    moreover have "nat_rules c' = nat_rules c" unfolding nat_rules_def c'(2) ..
    ultimately show ?thesis using True h c' by (cases hw) (auto simp: driver_at_def intro: in_orderI)
  qed
qed

lemma driver_del_tbl:
  assumes k: "kernel_works k" and c: "driver_at k hw c"
  shows "driver_at k (track (DelTbl t (fst (nat_del_ipv4_tbl k (unat t) c))) hw) (snd (nat_del_ipv4_tbl k (unat t) c))"
proof (cases "unat t = 1 \<and> fst hw")
  case False
  then have "nat_del_ipv4_tbl k (unat t) c = (-22, c)"
    using c by (auto simp: nat_del_ipv4_tbl_def nati_del_ipv4_table_def driver_at_def no_table_def zero_table_def)
  then show ?thesis using c by (cases hw) simp
next
  case True
  with c obtain mem meta ids rc ic where inv: "nat_inv c mem meta ids rc ic" and h: "table_cnt c = 1" "pdns c \<noteq> []"
    by (auto simp: driver_at_def in_order_def)
  have ans: "answer k log IoClose = 0" "answer k log (IoDelete a) = 0" for log a using k by (simp_all add: kernel_works_def)
  show ?thesis
    using True nat_invD(1,7) [OF inv] h
    by (cases hw) (simp add: nat_del_ipv4_tbl_def nati_del_ipv4_table_def syscall_def ans Let_def driver_at_def no_table_def
        table_allocated_append table_allocated_snoc)
qed

lemma driver_keep:
  assumes "driver_at k hw c" and "fst hw" and "same_config c c'" and "nat_inv c' mem meta ids rc ic"
    and "snd hw' = (\<lambda>h. nat_rules c' (unat h))" and "fst hw'"
  shows "driver_at k hw' c'"
  using assms in_orderI [OF assms(4)] by (simp add: driver_at_def same_config_def)

lemma driver_add_rule:
  assumes k: "kernel_works k" and c: "driver_at k hw c" and r: "call_add_rule k t rule c = Some (ret, out, c')"
  shows "driver_at k (track (AddRule t rule ret (hdl32 out)) hw) c' \<and>
    (0 \<le> ret \<longrightarrow> fst hw \<and> (\<exists>h. hdl32 out = Some h \<and> snd hw h = None))"
proof (cases "ret = -22 \<and> c' = c")
  case True
  with c show ?thesis by (cases hw) simp
next
  case False
  have proto: "nr_protocol rule \<noteq> 0xFF" and run: "nat_add_ipv4_rule k (unat t) rule c = Some (ret, out, c')"
    using r by (simp_all add: call_add_rule_def split: if_splits)
  then have pdn: "unat (nr_pdn_index rule) < length (pdns c)" "p_public_ip (pdns c ! unat (nr_pdn_index rule)) \<noteq> 0"
    using False by (auto simp: nat_add_ipv4_rule_def nati_add_ipv4_rule_def split: if_splits)
  have "fst hw"
  proof (rule ccontr)
    assume "\<not> fst hw"
    then have "t_mem (ip4_tbl c) = None" using c by (simp add: driver_at_def no_table_def zero_table_def)
    then have "generate_rule c rule = None" by (simp add: generate_rule_def generate_tbl_rule_def)
    then show False using run False pdn by (auto simp: nat_add_ipv4_rule_def nati_add_ipv4_rule_def split: if_splits)
  qed
  with c obtain mem meta ids rc ic where inv: "nat_inv c mem meta ids rc ic"
    and hw: "snd hw = (\<lambda>h. nat_rules c (unat h))" by (auto simp: driver_at_def in_order_def)
  have dma: "dma_works k" using k by (simp add: kernel_works_def)
  from nati_add_spec [OF dma inv pdn proto] show ?thesis
  proof (elim disjE exE conjE)
    assume "nati_add_ipv4_rule k rule c = Some (-22, None, c)"
    then show ?thesis using run False by (auto simp: nat_add_ipv4_rule_def split: if_splits)
  next
    fix j c1 mem' meta' ids' rc' ic'
    assume a: "nati_add_ipv4_rule k rule c = Some (0, Some (Suc j), c1)" "same_config c c1"
      "nat_inv c1 mem' meta' ids' rc' ic'" "Suc j < table_entries (ip4_tbl c) + expn_table_entries (ip4_tbl c)"
      "rules_of (table_entries (ip4_tbl c)) mem ids (Suc j) = None"
      "rules_of (table_entries (ip4_tbl c)) mem' ids' = (rules_of (table_entries (ip4_tbl c)) mem ids)(Suc j \<mapsto> rule)"
    have c1: "ret = 0" "out = Some (Suc j)" "c' = c1"
      using run a(1) False by (auto simp: nat_add_ipv4_rule_def split: if_splits)
    have small: "Suc j < 2 ^ 32" using a(4) sizes_bounds [OF nat_invD(6) [OF inv]] by simp
    then have u: "unat (of_nat (Suc j) :: u32) = Suc j" by (simp only: unsigned_of_nat) (simp add: take_bit_nat_eq_self)
    have n: "table_entries (ip4_tbl c1) = table_entries (ip4_tbl c)" using a(2) by (simp add: same_config_def)
    have m: "nat_rules c1 = (nat_rules c)(Suc j \<mapsto> rule)" "nat_rules c (Suc j) = None"
      using a(5,6) nat_rules_inv [OF a(3)] nat_rules_inv [OF inv] by (simp_all add: n)
    have "snd (track (AddRule t rule ret (hdl32 out)) hw) = (\<lambda>h. nat_rules c1 (unat h))"
    proof -
      have eq: "(h = of_nat (Suc j)) = (unat h = Suc j)" for h :: u32 using u by (metis word_unat_eq_iff)
      have "snd (track (AddRule t rule ret (hdl32 out)) hw) = (snd hw)(of_nat (Suc j) \<mapsto> rule)"
        by (cases hw) (simp add: c1)
      then show ?thesis by (simp only: hw m(1) fun_eq_iff fun_upd_apply eq simp_thms)
    qed
    moreover have "fst (track (AddRule t rule ret (hdl32 out)) hw)" using \<open>fst hw\<close> by (cases hw) simp
    ultimately have "driver_at k (track (AddRule t rule ret (hdl32 out)) hw) c1"
      by (rule driver_keep [OF c \<open>fst hw\<close> a(2,3)])
    moreover have "snd hw (of_nat (Suc j)) = None" using m(2) u by (simp add: hw del: of_nat_Suc)
    ultimately show ?thesis using \<open>fst hw\<close> c1 by simp
  qed
qed

lemma driver_del_rule:
  assumes k: "kernel_works k" and c: "driver_at k hw c" and r: "call_del_rule k t h c = Some (ret, c')"
  shows "driver_at k (track (DelRule t h ret) hw) c'"
proof (cases "ret = -22 \<and> c' = c")
  case True
  with c show ?thesis by (cases hw) simp
next
  case False
  have h: "unat h < 65536" and run: "nati_del_ipv4_rule k (unat h) c = Some (ret, c')" and h0: "0 < unat h"
    using r False by (auto simp: call_del_rule_def nat_del_ipv4_rule_def unat_gt_0 split: if_splits)
  have "fst hw"
  proof (rule ccontr)
    assume "\<not> fst hw"
    then have "ip4_tbl c = zero_table" using c by (simp add: driver_at_def no_table_def)
    then show False using run False h
      by (auto simp: nati_del_ipv4_rule_def parse_ipv4_rule_hdl_def zero_table_def)
  qed
  with c obtain mem meta ids rc ic where inv: "nat_inv c mem meta ids rc ic"
    and hw: "snd hw = (\<lambda>h. nat_rules c (unat h))" by (auto simp: driver_at_def in_order_def)
  have dma: "dma_works k" using k by (simp add: kernel_works_def)
  have "rules_of (table_entries (ip4_tbl c)) mem ids (unat h) \<noteq> None"
    using nati_del_none [OF inv h0 h, of k] run False by auto
  from nati_del_spec [OF dma inv this] obtain c1 mem' meta' ids' rc' ic' where
    a: "nati_del_ipv4_rule k (unat h) c = Some (0, c1)" "same_config c c1" "nat_inv c1 mem' meta' ids' rc' ic'"
      "rules_of (table_entries (ip4_tbl c)) mem' ids' = (rules_of (table_entries (ip4_tbl c)) mem ids)(unat h := None)" by blast
  have c1: "ret = 0" "c' = c1" using a(1) run by auto
  have n: "table_entries (ip4_tbl c1) = table_entries (ip4_tbl c)" using a(2) by (simp add: same_config_def)
  have m: "nat_rules c1 = (nat_rules c)(unat h := None)"
    using a(4) nat_rules_inv [OF a(3)] nat_rules_inv [OF inv] by (simp add: n)
  show ?thesis
    unfolding c1
  proof (rule driver_keep [OF c \<open>fst hw\<close> a(2,3)])
    show "snd (track (DelRule t h 0) hw) = (\<lambda>h. nat_rules c1 (unat h))"
      using hw by (cases hw) (auto simp: m fun_eq_iff word_unat_eq_iff)
    show "fst (track (DelRule t h 0) hw)" using \<open>fst hw\<close> by (cases hw) simp
  qed
qed

lemma replay_call_at:
  assumes "kernel_works k" and "driver_at k hw c" and "replay_call k call c = Some c'"
  shows "driver_at k (track call hw) c'"
proof (cases call)
  case (AddTbl ip n ret out)
  with assms(3) driver_add_tbl [OF assms(1,2), of ip n] show ?thesis
    by (auto simp: bind_eq_Some_conv split: if_splits)
next
  case (DelTbl t ret)
  with assms(3) driver_del_tbl [OF assms(1,2), of t] show ?thesis by (auto split: prod.splits if_splits)
next
  case (AddRule t rule ret out)
  with assms(3) driver_add_rule [OF assms(1,2), of t rule] show ?thesis
    by (auto simp: bind_eq_Some_conv split: if_splits)
next
  case (DelRule t h ret)
  with assms(3) driver_del_rule [OF assms(1,2), of t h] show ?thesis
    by (auto simp: bind_eq_Some_conv split: if_splits)
next
  case (QueryTs t h ret out)
  with assms show ?thesis by (cases hw) simp
qed

lemma replay_at:
  assumes "kernel_works k" and "0 < num" and "num \<le> 16"
  shows "replay k num log = Some c \<Longrightarrow> driver_at k (hardware log) c"
proof (induction log arbitrary: c rule: rev_induct)
  case Nil
  then have "c = new_nat_cache num" by (simp add: replay_def)
  then show ?case using assms(2,3)
    by (simp add: hardware_def driver_at_def no_table_def new_nat_cache_def table_allocated_def)
next
  case (snoc call log)
  from snoc.prems obtain c0 where "replay k num log = Some c0" "replay_call k call c0 = Some c"
    by (auto simp: replay_def bind_eq_Some_conv)
  with snoc.IH replay_call_at [OF assms(1)] show ?case by (simp add: hardware_snoc)
qed

lemma ipa_driver_lawful:
  assumes "kernel_works k" and "0 < num" and "num \<le> 16"
  shows "driver_lawful (ipa_driver k num)"
  unfolding driver_lawful_def
proof (intro conjI allI impI)
  fix log ip n assume a: "fst (add_tbl (ipa_driver k num) log ip n) = 0"
  then obtain c out c' where c: "replay k num log = Some c" "call_add_tbl k ip n c = Some (0, out, c')"
    by (auto simp: ipa_driver_def bind_eq_Some_conv split: option.splits bind_splits)
  from driver_add_tbl [OF assms(1) replay_at [OF assms c(1)] c(2)] show "\<not> fst (hardware log)" by simp
next
  fix log t r assume a: "0 \<le> fst (add_rule (ipa_driver k num) log t r)"
  then obtain c ret out c' where c: "replay k num log = Some c" "call_add_rule k t r c = Some (ret, out, c')" "0 \<le> ret"
    by (auto simp: ipa_driver_def bind_eq_Some_conv split: option.splits bind_splits)
  from driver_add_rule [OF assms(1) replay_at [OF assms c(1)] c(2)] c
  show "fst (hardware log)" "\<exists>h. snd (add_rule (ipa_driver k num) log t r) = Some h \<and> snd (hardware log) h = None"
    by (auto simp: ipa_driver_def)
qed

section \<open>Examples\<close>

lemma first_connection:
  assumes "add_tbl drv [] 7 2 = (0, Some 1)"
    and "add_rule drv [AddTbl 7 2 0 (Some 1)] 1 (nat_rule_of example_rule) = (0, Some h)"
    and n0: "Init 2 [(6, 21)] True True (new_NatApp 0 0 0 (replicate 32 0) None) = Some n0"
  shows "cache (fold (nat_step drv) [EvAddTable 7, EvAddEntry example_rule] n0) =
      [example_rule\<lparr>rule_hdl := h, enabled := True\<rparr>, zero_entry]"
    and "driver_log (fold (nat_step drv) [EvAddTable 7, EvAddEntry example_rule] n0) =
      [AddTbl 7 2 0 (Some 1), AddRule 1 (nat_rule_of example_rule) 0 (Some h)]"
proof -
  define n1 where "n1 = n0\<lparr>nat_table_hdl := 1, driver_log := [AddTbl 7 2 0 (Some 1)], pub_ip_addr := 7\<rparr>"
  have n0': "cache n0 = [zero_entry, zero_entry]" "driver_log n0 = []" "nat_table_hdl n0 = 0" "pub_ip_addr_pre n0 = 0"
    "PwrSaveIfs n0 = replicate 32 0" "pALGPorts n0 = [(6, 21)]"
  proof -
    have "replicate 2 zero_entry = [zero_entry, zero_entry]" by (simp add: numeral_2_eq_2)
    then show "cache n0 = [zero_entry, zero_entry]" using n0 by (auto simp: Init_def)
  qed (use n0 in \<open>auto simp: Init_def new_NatApp_def\<close>)
  have 1: "snd (AddTable drv 7 n0) = n1"
    using assms(1) by (simp add: AddTable_def n0' written_def n1_def)
  have free: "free_slot zero_entry" by (simp add: free_slot_def zero_entry_def)
  have dup: "\<not> ChkForDup example_rule n1"
    by (simp add: ChkForDup_def n1_def n0' same_tuple_def example_rule_def zero_entry_def)
  have pwr: "\<not> isPwrSaveIf ip n1" for ip by (simp add: isPwrSaveIf_def n1_def n0' list_ex_iff)
  have alg: "\<not> isAlgPort (protocol example_rule) (private_port example_rule) n1"
    "\<not> isAlgPort (protocol example_rule) (target_port example_rule) n1" "\<not> invalid_rule example_rule"
    by (simp_all add: isAlgPort_def n1_def n0' example_rule_def invalid_rule_def)
  have stored: "store_fields example_rule (zero_entry\<lparr>rule_hdl := h, enabled := True\<rparr>) = example_rule\<lparr>rule_hdl := h, enabled := True\<rparr>"
    by (simp add: store_fields_def example_rule_def zero_entry_def)
  have n1': "cache n1 = [zero_entry, zero_entry]" "driver_log n1 = [AddTbl 7 2 0 (Some 1)]" "nat_table_hdl n1 = 1"
    by (simp_all add: n1_def n0')
  have "cache (snd (AddEntry drv example_rule n1)) = [example_rule\<lparr>rule_hdl := h, enabled := True\<rparr>, zero_entry] \<and>
    driver_log (snd (AddEntry drv example_rule n1)) = [AddTbl 7 2 0 (Some 1), AddRule 1 (nat_rule_of example_rule) 0 (Some h)]"
    using assms(2) stored
    by (simp add: AddEntry_def alg dup pwr n1' free drv_add_rule_def written_def set_slot_def Let_def)
  with 1 show "cache (fold (nat_step drv) [EvAddTable 7, EvAddEntry example_rule] n0) =
      [example_rule\<lparr>rule_hdl := h, enabled := True\<rparr>, zero_entry]"
    "driver_log (fold (nat_step drv) [EvAddTable 7, EvAddEntry example_rule] n0) =
      [AddTbl 7 2 0 (Some 1), AddRule 1 (nat_rule_of example_rule) 0 (Some h)]" by simp_all
qed

lemma example_log_replays:
  "\<exists>h c. add_tbl (ipa_driver ideal_kernel 5) [] 7 2 = (0, Some 1) \<and>
     add_rule (ipa_driver ideal_kernel 5) [AddTbl 7 2 0 (Some 1)] 1 (nat_rule_of example_rule) = (0, Some h) \<and>
     replay ideal_kernel 5 [AddTbl 7 2 0 (Some 1), AddRule 1 (nat_rule_of example_rule) 0 (Some h)] = Some c"
proof -
  have small: "small_table 2" by (simp add: small_table_def)
  have "no_table (new_nat_cache 5)" by (simp add: no_table_def new_nat_cache_def table_allocated_def)
  from add_tbl_spec [OF ideal_kernel_works this small, of 7] obtain c mem meta ids where c:
    "nat_add_ipv4_tbl ideal_kernel 7 2 (new_nat_cache 5) = Some (0, Some 1, c)"
    "nat_inv c mem meta ids (\<lambda>_. []) (\<lambda>_. [])" "nat_rules c = Map.empty"
    "pdns c = (pdns (new_nat_cache 5))[0 := (pdns (new_nat_cache 5) ! 0)\<lparr>p_public_ip := 7\<rparr>]" by blast
  have call: "call_add_tbl ideal_kernel 7 2 (new_nat_cache 5) = Some (0, Some 1, c)"
    using c(1) small by (simp add: call_add_tbl_def)
  then have tbl: "add_tbl (ipa_driver ideal_kernel 5) [] 7 2 = (0, Some 1)"
    "replay ideal_kernel 5 [AddTbl 7 2 0 (Some 1)] = Some c"
    by (simp_all add: ipa_driver_def replay_def)
  let ?r = "nat_rule_of example_rule"
  have r: "nr_pdn_index ?r = 0" "nr_protocol ?r \<noteq> 0xFF" by (simp_all add: nat_rule_of_def example_rule_def)
  have pdn: "unat (nr_pdn_index ?r) < length (pdns c)" "p_public_ip (pdns c ! unat (nr_pdn_index ?r)) \<noteq> 0"
    using c(4) r(1) by (simp_all add: new_nat_cache_def)
  have dma: "dma_works ideal_kernel" using ideal_kernel_works by (simp add: kernel_works_def)
  have "\<not> tables_full (table_entries (ip4_tbl c)) (expn_table_entries (ip4_tbl c)) mem"
    using tables_full_card [OF c(2)] c(3) sizes_bounds [OF nat_invD(6) [OF c(2)]] by auto
  with nati_add_spec [OF dma c(2) pdn r(2)] obtain j c' where
    "nati_add_ipv4_rule ideal_kernel ?r c = Some (0, Some (Suc j), c')" by blast
  then have rule: "call_add_rule ideal_kernel 1 ?r c = Some (0, Some (Suc j), c')"
    using r(2) by (simp add: call_add_rule_def nat_add_ipv4_rule_def)
  then have "add_rule (ipa_driver ideal_kernel 5) [AddTbl 7 2 0 (Some 1)] 1 ?r = (0, Some (of_nat (Suc j)))"
    using tbl(2) by (simp add: ipa_driver_def)
  moreover have "replay ideal_kernel 5 [AddTbl 7 2 0 (Some 1), AddRule 1 ?r 0 (Some (of_nat (Suc j)))] = Some c'"
    using tbl(2) rule by (simp add: replay_def)
  ultimately show ?thesis using tbl(1) by blast
qed

section \<open>Properties\<close>



end
