(* ===== verification/StdAlgo.thy ===== *)
theory StdAlgo
  imports Prelude
begin

text \<open>
  The parts of the C++ standard library the data item code uses: \<open>std::map\<close> as an association list
  in key order, and the algorithms on \<open>std::list\<close>. The set algorithms and \<open>list::merge\<close> are the
  loops of the library, so they also say what happens on lists that are not in order, which the code
  does pass to them; \<open>list::unique\<close> is \<open>remdups_adj\<close>, \<open>list::sort\<close> is \<open>sort\<close>, erasing what
  \<open>find\<close> returns is \<open>remove1\<close>.
\<close>

section \<open>\<open>std::map\<close>\<close>

type_synonym ('k, 'v) stdmap = "('k \<times> 'v) list"

text \<open>Insert or overwrite, keeping the keys in order.\<close>

fun map_put :: "'k :: linorder \<Rightarrow> 'v \<Rightarrow> ('k, 'v) stdmap \<Rightarrow> ('k, 'v) stdmap" where
  "map_put k v [] = [(k, v)]"
| "map_put k v ((k', v') # m) =
     (if k < k' then (k, v) # (k', v') # m
      else if k = k' then (k, v) # m
      else (k', v') # map_put k v m)"

definition map_erase :: "'k \<Rightarrow> ('k, 'v) stdmap \<Rightarrow> ('k, 'v) stdmap" where
  "map_erase k m = filter (\<lambda>(k', v). k' \<noteq> k) m"

definition map_ok :: "('k :: linorder, 'v) stdmap \<Rightarrow> bool" where
  "map_ok m = sorted_wrt (<) (map fst m)"

lemma map_ok_Nil [simp]: "map_ok []"
  by (simp add: map_ok_def)

lemma map_put_keys: "fst ` set (map_put k v m) = insert k (fst ` set m)"
proof (induction m)
  case (Cons p m)
  obtain k' v' where "p = (k', v')" by fastforce
  with Cons.IH show ?case by (simp add: insert_commute)
qed simp

lemma map_ok_put [simp]: "map_ok m \<Longrightarrow> map_ok (map_put k v m)"
proof (induction m)
  case (Cons p m)
  obtain k' v' where p: "p = (k', v')" by fastforce
  from Cons.prems have "map_ok m" "\<forall>x \<in> fst ` set m. k' < x" by (auto simp: map_ok_def p)
  with Cons.IH map_put_keys [of k v m] show ?case
    by (auto simp: map_ok_def p)
qed (simp add: map_ok_def)

lemma map_ok_erase [simp]: "map_ok m \<Longrightarrow> map_ok (map_erase k m)"
  by (induction m) (auto simp: map_ok_def map_erase_def)

lemma map_of_put [simp]: "map_ok m \<Longrightarrow> map_of (map_put k v m) = (map_of m)(k \<mapsto> v)"
proof (induction m)
  case (Cons p m)
  obtain k' v' where p: "p = (k', v')" by fastforce
  from Cons.prems have "map_ok m" "\<forall>x \<in> fst ` set m. k' < x" by (auto simp: map_ok_def p)
  then show ?case using Cons.IH by (auto simp: p fun_eq_iff)
qed simp

lemma map_of_erase [simp]: "map_of (map_erase k m) = (map_of m)(k := None)"
  by (induction m) (auto simp: map_erase_def fun_eq_iff)

lemma map_of_mem: "map_ok m \<Longrightarrow> map_of m k = Some v \<longleftrightarrow> (k, v) \<in> set m"
proof -
  assume "map_ok m"
  then have "distinct (map fst m)"
    by (simp add: map_ok_def strict_sorted_iff)
  then show ?thesis by (simp add: map_of_eq_Some_iff)
qed

section \<open>Set algorithms\<close>

fun set_intersection :: "'a :: linorder list \<Rightarrow> 'a list \<Rightarrow> 'a list" where
  "set_intersection (x # xs) (y # ys) =
     (if x < y then set_intersection xs (y # ys)
      else if y < x then set_intersection (x # xs) ys
      else x # set_intersection xs ys)"
| "set_intersection _ _ = []"

fun set_difference :: "'a :: linorder list \<Rightarrow> 'a list \<Rightarrow> 'a list" where
  "set_difference (x # xs) (y # ys) =
     (if x < y then x # set_difference xs (y # ys)
      else if y < x then set_difference (x # xs) ys
      else set_difference xs ys)"
| "set_difference xs [] = xs"
| "set_difference [] ys = []"

fun list_merge :: "'a :: linorder list \<Rightarrow> 'a list \<Rightarrow> 'a list" where
  "list_merge (x # xs) (y # ys) =
     (if y < x then y # list_merge (x # xs) ys else x # list_merge xs (y # ys))"
| "list_merge xs [] = xs"
| "list_merge [] ys = ys"

text \<open>Without any order: what is left out was matched, what is taken was there.\<close>

lemma set_difference_bounds:
  "set xs - set ys \<subseteq> set (set_difference xs ys)" "set (set_difference xs ys) \<subseteq> set xs"
  by (induction xs ys rule: set_difference.induct) auto

lemma set_intersection_subset:
  "set (set_intersection xs ys) \<subseteq> set xs \<inter> set ys"
  by (induction xs ys rule: set_intersection.induct) auto

lemma set_list_merge [simp]: "set (list_merge xs ys) = set xs \<union> set ys"
  by (induction xs ys rule: list_merge.induct) auto

lemma list_merge_Nil [simp]: "list_merge [] ys = ys"
  by (cases ys) auto

text \<open>On lists in order they are the operations on sets.\<close>

lemma set_intersection_sorted:
  "sorted xs \<Longrightarrow> sorted ys \<Longrightarrow> distinct xs \<Longrightarrow> distinct ys \<Longrightarrow>
   set_intersection xs ys = filter (\<lambda>x. x \<in> set ys) xs"
proof (induction xs ys rule: set_intersection.induct)
  case (1 x xs y ys)
  consider "x < y" | "y < x" | "x = y" by force
  then show ?case
  proof cases
    case 1
    with "1.prems" have "x \<notin> set (y # ys)" by auto
    with 1 "1.IH"(1) "1.prems" show ?thesis by simp
  next
    case 2
    with "1.prems" have "y \<notin> set (x # xs)" by auto
    have nlt: "\<not> x < y" using 2 by simp
    from \<open>y \<notin> set (x # xs)\<close> have "filter (\<lambda>z. z \<in> set (y # ys)) (x # xs) = filter (\<lambda>z. z \<in> set ys) (x # xs)"
      by (intro filter_cong) auto
    with 2 "1.IH"(2) "1.prems" nlt show ?thesis by (simp del: filter.simps)
  next
    case 3
    with "1.prems" have "filter (\<lambda>z. z = y \<or> z \<in> set ys) xs = filter (\<lambda>z. z \<in> set ys) xs"
      by (intro filter_cong) auto
    with 3 "1.IH"(3) "1.prems" show ?thesis by simp
  qed
qed auto

lemma set_intersection_set_sorted:
  "sorted xs \<Longrightarrow> sorted ys \<Longrightarrow> set (set_intersection xs ys) = set xs \<inter> set ys"
proof (induction xs ys rule: set_intersection.induct)
  case (1 x xs y ys)
  consider "x < y" | "y < x" | "x = y" by force
  then show ?case
  proof cases
    case 1
    with "1.prems" have "x \<notin> set (y # ys)" by auto
    with 1 "1.IH"(1) "1.prems" show ?thesis by auto
  next
    case 2
    with "1.prems" have "y \<notin> set (x # xs)" by auto
    with 2 "1.IH"(2) "1.prems" show ?thesis by auto
  next
    case 3
    have "set xs \<inter> {x} \<subseteq> {x}" "set ys \<inter> {x} \<subseteq> {x}" by auto
    with 3 "1.IH"(3) "1.prems" show ?thesis by auto
  qed
qed auto

text \<open>
  Intersecting with one element, as the code does to remove one client, finds it exactly when
  nothing at least as large stands before it.
\<close>

lemma set_intersection_single:
  "set_intersection xs [c] =
     (case dropWhile (\<lambda>x. x < c) xs of [] \<Rightarrow> [] | x # _ \<Rightarrow> if x = c then [c] else [])"
  by (induction xs) auto

end
