(* ===== verification/DataItemIndexes.thy ===== *)
theory DataItemIndexes
  imports StdAlgo
begin

text \<open>
  The two subscription indexes of \<open>gps/core/data-items/common\<close>: \<open>ClientIndex\<close>, the data items of
  each client, and \<open>DataItemIndex\<close>, the clients of each data item. The classes are templates over
  client and item type, the model is polymorphic over two linear orders (the order of \<open>operator<\<close>).
  An \<open>out\<close> parameter is an argument and a result; where every caller passes an empty list it is a
  result only.
\<close>

section \<open>\<open>ClientIndex\<close>\<close>

type_synonym ('c, 'd) ClientIndex = "('c, 'd list) stdmap"

definition isSubscribedClient :: "'c \<Rightarrow> ('c, 'd) ClientIndex \<Rightarrow> bool" where
  "isSubscribedClient client m \<longleftrightarrow> map_of m client \<noteq> None"

definition getSubscribedList :: "'c \<Rightarrow> ('c, 'd) ClientIndex \<Rightarrow> 'd list \<Rightarrow> 'd list" where
  "getSubscribedList client m out = (case map_of m client of None \<Rightarrow> out | Some l \<Rightarrow> l)"

definition ci_remove_client :: "'c \<Rightarrow> ('c, 'd) ClientIndex \<Rightarrow> int \<times> ('c, 'd) ClientIndex" where
  "ci_remove_client client m = (0, map_erase client m)"

text \<open>Take the elements of \<open>r\<close> out of every list, and drop the keys whose list is empty then.\<close>

fun remove_from_all :: "'b list \<Rightarrow> ('a, 'b list) stdmap \<Rightarrow> 'a list \<Rightarrow> ('a, 'b list) stdmap \<times> 'a list" where
  "remove_from_all r [] out = ([], out)"
| "remove_from_all r ((k, l) # m) out =
     (let l' = fold remove1 r l
      in if l' = [] then remove_from_all r m (out @ [k])
         else case remove_from_all r m out of (m', out') \<Rightarrow> ((k, l') # m', out'))"

definition ci_remove_items ::
  "'d list \<Rightarrow> ('c, 'd) ClientIndex \<Rightarrow> 'c list \<Rightarrow> ('c, 'd) ClientIndex \<times> 'c list" where
  "ci_remove_items r m out = remove_from_all r m out"

text \<open>Take what is in \<open>r\<close> out of the list of one key.\<close>

definition remove_from_key ::
  "'a :: linorder \<Rightarrow> 'b :: linorder list \<Rightarrow> ('a, 'b list) stdmap \<Rightarrow> ('a, 'b list) stdmap \<times> 'b list" where
  "remove_from_key k r m =
     (case map_of m k of
        None \<Rightarrow> (m, [])
      | Some l \<Rightarrow>
          let out = set_intersection l r; l' = fold remove1 out l
          in (if l' = [] then map_erase k m else map_put k l' m, out))"

definition ci_remove ::
  "'c :: linorder \<Rightarrow> 'd :: linorder list \<Rightarrow> ('c, 'd) ClientIndex \<Rightarrow> ('c, 'd) ClientIndex \<times> 'd list" where
  "ci_remove client r m = remove_from_key client r m"

definition ci_add ::
  "'c :: linorder \<Rightarrow> 'd :: linorder list \<Rightarrow> ('c, 'd) ClientIndex \<Rightarrow> 'd list \<Rightarrow> ('c, 'd) ClientIndex \<times> 'd list" where
  "ci_add client l m out =
     (case map_of m client of
        Some old \<Rightarrow>
          let difference = set_difference l old
          in if difference \<noteq> []
             then (map_put client (remdups_adj (list_merge old (sort difference))) m, sort difference)
             else (m, out)
      | None \<Rightarrow> (map_put client l m, l))"

section \<open>\<open>DataItemIndex\<close>\<close>

type_synonym ('c, 'd) DataItemIndex = "('d, 'c list) stdmap"

definition getListOfSubscribedClients :: "'d \<Rightarrow> ('c, 'd) DataItemIndex \<Rightarrow> 'c list \<Rightarrow> 'c list" where
  "getListOfSubscribedClients d m out = (case map_of m d of None \<Rightarrow> out | Some l \<Rightarrow> l)"

definition di_remove_item :: "'d \<Rightarrow> ('c, 'd) DataItemIndex \<Rightarrow> int \<times> ('c, 'd) DataItemIndex" where
  "di_remove_item d m = (0, map_erase d m)"

definition di_remove_clients ::
  "'c list \<Rightarrow> ('c, 'd) DataItemIndex \<Rightarrow> 'd list \<Rightarrow> ('c, 'd) DataItemIndex \<times> 'd list" where
  "di_remove_clients r m out = remove_from_all r m out"

definition di_remove ::
  "'d :: linorder \<Rightarrow> 'c :: linorder list \<Rightarrow> ('c, 'd) DataItemIndex \<Rightarrow> ('c, 'd) DataItemIndex \<times> 'c list" where
  "di_remove d r m = remove_from_key d r m"

definition di_add ::
  "'d :: linorder \<Rightarrow> 'c :: linorder list \<Rightarrow> ('c, 'd) DataItemIndex \<Rightarrow> 'c list \<Rightarrow> ('c, 'd) DataItemIndex \<times> 'c list" where
  "di_add d l m out =
     (case map_of m d of
        Some old \<Rightarrow>
          let difference = set_difference l old
          in if difference \<noteq> [] then (map_put d (list_merge old (sort difference)) m, sort difference)
             else (m, out)
      | None \<Rightarrow> (map_put d l m, l))"

fun di_add_client ::
  "'c \<Rightarrow> 'd :: linorder list \<Rightarrow> ('c, 'd) DataItemIndex \<Rightarrow> 'd list \<Rightarrow> ('c, 'd) DataItemIndex \<times> 'd list" where
  "di_add_client client [] m out = (m, out)"
| "di_add_client client (d # l) m out =
     (case map_of m d of
        None \<Rightarrow> di_add_client client l (map_put d [client] m) (out @ [d])
      | Some clients \<Rightarrow>
          di_add_client client l
            (if client \<in> set clients then m else map_put d (clients @ [client]) m) out)"

section \<open>What an index promises\<close>

text \<open>
  Both indexes are a relation between clients and items. Adding relates a client to the items of
  a list and changes nothing else; so does a sequence of requests.
\<close>

locale subscription_index =
  fixes subs :: "'ix \<Rightarrow> 'c \<Rightarrow> 'd set" and add :: "'c \<Rightarrow> 'd list \<Rightarrow> 'ix \<Rightarrow> 'ix" and ok :: "'ix \<Rightarrow> bool"
  assumes add_ok: "ok ix \<Longrightarrow> ok (add c l ix)"
    and add_subs: "ok ix \<Longrightarrow> subs (add c l ix) c' = subs ix c' \<union> (if c' = c then set l else {})"
begin

lemma requests_ok: "ok ix \<Longrightarrow> ok (fold (\<lambda>(c, l). add c l) reqs ix)"
  by (induction reqs arbitrary: ix) (auto simp: add_ok)

lemma requests_subs:
  "ok ix \<Longrightarrow>
   subs (fold (\<lambda>(c, l). add c l) reqs ix) c = subs ix c \<union> {d. \<exists>l. (c, l) \<in> set reqs \<and> d \<in> set l}"
  by (induction reqs arbitrary: ix) (auto simp: add_ok add_subs split: if_splits)

end

definition client_items :: "('c, 'd) ClientIndex \<Rightarrow> 'c \<Rightarrow> 'd set" where
  "client_items m c = set (getSubscribedList c m [])"

definition items_with_client :: "('c, 'd) DataItemIndex \<Rightarrow> 'c \<Rightarrow> 'd set" where
  "items_with_client m c = {d. c \<in> set (getListOfSubscribedClients d m [])}"

lemma ci_add_ok: "map_ok m \<Longrightarrow> map_ok (fst (ci_add c l m out))"
  by (auto simp: ci_add_def Let_def split: option.split)

lemma ci_add_items:
  "map_ok m \<Longrightarrow>
   client_items (fst (ci_add c l m out)) c' = client_items m c' \<union> (if c' = c then set l else {})"
proof (cases "map_of m c")
  case (Some old)
  assume ok: "map_ok m"
  have "set (remdups_adj (list_merge old (sort (set_difference l old)))) = set old \<union> set l"
    using set_difference_bounds [of l old] by auto
  moreover have "set l \<subseteq> set old" if "set_difference l old = []"
    using set_difference_bounds(1) [of l old] that by auto
  ultimately show ?thesis using ok Some
    by (auto simp: ci_add_def client_items_def getSubscribedList_def Let_def)
qed (simp add: ci_add_def client_items_def getSubscribedList_def)

lemma di_add_client_ok: "map_ok m \<Longrightarrow> map_ok (fst (di_add_client c l m out))"
  by (induction c l m out rule: di_add_client.induct) (auto split: option.split)

lemma di_add_client_items:
  "map_ok m \<Longrightarrow>
   items_with_client (fst (di_add_client c l m out)) c' =
   items_with_client m c' \<union> (if c' = c then set l else {})"
proof (induction c l m out rule: di_add_client.induct)
  case (2 client d l m out)
  show ?case
  proof (cases "map_of m d")
    case None
    have "items_with_client (map_put d [client] m) c' = items_with_client m c' \<union> (if c' = client then {d} else {})"
      using None "2.prems" by (auto simp: items_with_client_def getListOfSubscribedClients_def)
    with None "2.IH"(1) "2.prems" show ?thesis by auto
  next
    case (Some clients)
    let ?m = "if client \<in> set clients then m else map_put d (clients @ [client]) m"
    have "items_with_client ?m c' = items_with_client m c' \<union> (if c' = client then {d} else {})"
      using Some "2.prems" by (auto simp: items_with_client_def getListOfSubscribedClients_def)
    with Some "2.IH"(2) [OF Some] "2.prems" show ?thesis by auto
  qed
qed simp

interpretation client_index: subscription_index client_items "\<lambda>c l m. fst (ci_add c l m [])" map_ok
  by unfold_locales (simp_all add: ci_add_ok ci_add_items)

interpretation data_item_index: subscription_index items_with_client
  "\<lambda>c l m. fst (di_add_client c l m [])" map_ok
  by unfold_locales (simp_all add: di_add_client_ok di_add_client_items)


section \<open>Removing with lists in order\<close>

definition strictly_sorted :: "'a :: linorder list \<Rightarrow> bool" where
  "strictly_sorted l \<longleftrightarrow> sorted l \<and> distinct l"

definition lists_sorted :: "('k, 'a :: linorder list) stdmap \<Rightarrow> bool" where
  "lists_sorted m = list_all (\<lambda>(k, l). strictly_sorted l) m"

lemma lists_sorted_of: "lists_sorted m \<Longrightarrow> map_of m k = Some l \<Longrightarrow> strictly_sorted l"
  by (auto simp: lists_sorted_def list_all_iff dest: map_of_SomeD)

lemma lists_sorted_put: "lists_sorted m \<Longrightarrow> strictly_sorted l \<Longrightarrow> lists_sorted (map_put k l m)"
  by (induction m) (auto simp: lists_sorted_def)

lemma lists_sorted_erase: "lists_sorted m \<Longrightarrow> lists_sorted (map_erase k m)"
  by (auto simp: lists_sorted_def map_erase_def list_all_iff)

lemma sorted_list_merge: "sorted xs \<Longrightarrow> sorted ys \<Longrightarrow> sorted (list_merge xs ys)"
  by (induction xs ys rule: list_merge.induct) auto

lemma strictly_sorted_remdups_adj: "sorted l \<Longrightarrow> strictly_sorted (remdups_adj l)"
proof (induction l rule: remdups_adj.induct)
  case (3 x y l)
  show ?case
  proof (cases "x = y")
    case False
    with "3.prems" have "x \<notin> set (y # l)" by auto
    with False "3.IH"(2) "3.prems" show ?thesis by (auto simp: strictly_sorted_def)
  qed (use 3 in simp)
qed (simp_all add: strictly_sorted_def)

lemma fold_remove1:
  "distinct l \<Longrightarrow> fold remove1 r l = filter (\<lambda>x. x \<notin> set r) l"
proof (induction r arbitrary: l)
  case (Cons x r)
  have "fold remove1 r (filter (\<lambda>y. y \<noteq> x) l) = filter (\<lambda>y. y \<notin> set r) (filter (\<lambda>y. y \<noteq> x) l)"
    using Cons by simp
  with Cons.prems show ?case by (simp add: distinct_remove1_removeAll removeAll_filter_not_eq conj_commute eq_commute)
qed simp

lemma strictly_sorted_filter: "strictly_sorted l \<Longrightarrow> strictly_sorted (filter p l)"
  by (simp add: strictly_sorted_def sorted_wrt_filter)

definition list_of :: "('k, 'a list) stdmap \<Rightarrow> 'k \<Rightarrow> 'a list" where
  "list_of m k = (case map_of m k of None \<Rightarrow> [] | Some l \<Rightarrow> l)"

lemma remove_from_key_sorted:
  assumes "map_ok m" and "lists_sorted m" and "strictly_sorted r"
  shows "lists_sorted (fst (remove_from_key k r m)) \<and>
    set (list_of (fst (remove_from_key k r m)) k) = set (list_of m k) - set r \<and>
    snd (remove_from_key k r m) = filter (\<lambda>x. x \<in> set r) (list_of m k) \<and>
    (j = k \<or> map_of (fst (remove_from_key k r m)) j = map_of m j)"
proof (cases "map_of m k")
  case None
  with assms show ?thesis by (simp add: remove_from_key_def list_of_def)
next
  case (Some l)
  have l: "strictly_sorted l" by (rule lists_sorted_of [OF assms(2) Some])
  have out: "set_intersection l r = filter (\<lambda>x. x \<in> set r) l"
    using l assms(3) by (simp add: set_intersection_sorted strictly_sorted_def)
  have rest: "fold remove1 (set_intersection l r) l = filter (\<lambda>x. x \<notin> set r) l"
    using l by (simp add: out fold_remove1 strictly_sorted_def cong: filter_cong)
  have eq: "remove_from_key k r m =
    (if filter (\<lambda>x. x \<notin> set r) l = [] then map_erase k m else map_put k (filter (\<lambda>x. x \<notin> set r) l) m,
     filter (\<lambda>x. x \<in> set r) l)"
    using Some rest out by (simp add: remove_from_key_def Let_def)
  have "lists_sorted (fst (remove_from_key k r m))"
    unfolding eq using assms l by (simp add: lists_sorted_put lists_sorted_erase strictly_sorted_filter)
  moreover have "set (list_of (fst (remove_from_key k r m)) k) = set (list_of m k) - set r"
    unfolding eq using assms(1) Some by (auto simp: list_of_def filter_empty_conv)
  moreover have "j = k \<or> map_of (fst (remove_from_key k r m)) j = map_of m j"
    unfolding eq using assms(1) by simp
  ultimately show ?thesis using Some by (simp add: eq list_of_def)
qed

lemma ci_add_sorted:
  assumes "map_ok m" and "lists_sorted m" and "strictly_sorted l"
  shows "lists_sorted (fst (ci_add c l m out))"
proof (cases "map_of m c")
  case (Some old)
  have "sorted (list_merge old (sort (set_difference l old)))"
    using lists_sorted_of [OF assms(2) Some] by (intro sorted_list_merge) (simp_all add: strictly_sorted_def)
  with Some assms show ?thesis
    by (simp add: ci_add_def Let_def lists_sorted_put strictly_sorted_remdups_adj)
qed (simp add: ci_add_def lists_sorted_put assms)

section \<open>Properties\<close>

text \<open>
  While the lists of a client index are in order and without repetition, adding a list of
  that kind keeps them so, and removing one leaves the client exactly its other items, reports the
  items it had, and touches no other client.
\<close>

theorem client_index_exact:
  assumes "map_ok m" and "lists_sorted m" and "strictly_sorted l"
  shows "lists_sorted (fst (ci_add c l m out)) \<and> lists_sorted (fst (ci_remove c l m)) \<and>
    client_items (fst (ci_add c l m out)) c = client_items m c \<union> set l \<and>
    client_items (fst (ci_remove c l m)) c = client_items m c - set l \<and>
    set (snd (ci_remove c l m)) = client_items m c \<inter> set l \<and>
    (c' = c \<or> client_items (fst (ci_remove c l m)) c' = client_items m c')"
proof -
  have items: "client_items m' k = set (list_of m' k)" for m' :: "('a, 'b) ClientIndex" and k
    by (simp add: client_items_def getSubscribedList_def list_of_def)
  have other: "c' = c \<or> client_items (fst (ci_remove c l m)) c' = client_items m c'"
    using remove_from_key_sorted [OF assms, of c c'] unfolding items ci_remove_def list_of_def by metis
  have add: "client_items (fst (ci_add c l m out)) c = client_items m c \<union> set l"
    using ci_add_items [OF assms(1), of c l out c] by simp
  show ?thesis
    using remove_from_key_sorted [OF assms, of c c'] ci_add_sorted [OF assms, of c out] other add
    unfolding items ci_remove_def by auto
qed

theorem client_index_exact_witness:
  "client_items (fst (ci_remove (1 :: nat) [5] [(1, [3, 5 :: nat, 9])])) 1 = {3, 9}"
proof -
  have "map_ok [(1 :: nat, [3, 5 :: nat, 9])]" "lists_sorted [(1 :: nat, [3, 5 :: nat, 9])]"
    "strictly_sorted [5 :: nat]"
    by (simp_all add: map_ok_def lists_sorted_def strictly_sorted_def)
  from client_index_exact [OF this, where c = 1]
  have "client_items (fst (ci_remove (1 :: nat) [5] [(1, [3, 5 :: nat, 9])])) 1 =
      client_items [(1 :: nat, [3, 5 :: nat, 9])] 1 - set [5]"
    by blast
  then show ?thesis by (simp add: client_items_def getSubscribedList_def insert_Diff_if)
qed

end
