(* ===== verification/OsObserver.thy ===== *)
theory OsObserver
  imports DataItemIndexes
begin

text \<open>
  The observer between the location stack and the OS framework
  (\<open>gps/core/SystemStatusOsObserver.cpp\<close>): clients subscribe to data items, the observer
  subscribes with the framework for all of them, keeps the latest items and passes them on.

  Clients are the addresses of observers, an item is its id with a value. A call of the interface
  posts a message to the queue of the message task; \<open>proc\<close> is what the task does with it later. What
  goes out is appended to \<open>outputs\<close>. The factory of data items is loaded from a library and
  \<open>copy\<close> belongs to the item classes: both are arguments (\<open>item_ops\<close>); copying into a new item gives it
  the contents. A \<open>None\<close> is a NULL pointer that is followed.
\<close>

section \<open>State\<close>

datatype ('c, 'd, 'v) os_msg =
    HandleSubscribeReq "'d list" 'c
  | HandleUpdateSubscriptionReq "'d list" 'c
  | HandleRequestData "'d list" 'c
  | HandleUnsubscribeReq "'d list" 'c
  | HandleUnsubscribeAllReq 'c
  | HandleNotify "('d \<times> 'v) list"
  | HandleTurnOnMsg 'd int
  | HandleTurnOffMsg 'd

datatype ('c, 'd, 'v) os_output =
    FwSubscribe "'d list"
  | FwUnsubscribe "'d list"
  | FwRequestData "'d list"
  | FwTurnOn 'd int
  | FwTurnOff 'd
  | ClientNotify 'c "('d \<times> 'v) list"

record ('c, 'd, 'v) SystemStatusOsObserver =
  mSubscriptionObj :: bool
  mFrameworkActionReqObj :: bool
  mClientIndex :: "('c, 'd list) stdmap"
  mDataItemIndex :: "('d, 'c list) stdmap"
  mDataItemCache :: "('d, 'v) stdmap"
  mActiveRequestCount :: "('d, int) stdmap"
  mSubscribeReqCache :: "('c, 'd list) stdmap"
  mReqDataCache :: "('c, 'd list) stdmap"
  msgQueue :: "('c, 'd, 'v) os_msg list"
  outputs :: "('c, 'd, 'v) os_output list"

record ('d, 'v) item_ops =
  createNewDataItem :: "'d \<Rightarrow> bool"
  copyItem :: "'v \<Rightarrow> 'v \<Rightarrow> 'v \<times> bool"

definition new_observer :: "('c, 'd, 'v) SystemStatusOsObserver" where
  "new_observer =
     \<lparr>mSubscriptionObj = False, mFrameworkActionReqObj = False, mClientIndex = [], mDataItemIndex = [],
      mDataItemCache = [], mActiveRequestCount = [], mSubscribeReqCache = [], mReqDataCache = [],
      msgQueue = [], outputs = []\<rparr>"

definition sendMsg ::
  "('c, 'd, 'v) os_msg \<Rightarrow> ('c, 'd, 'v) SystemStatusOsObserver \<Rightarrow> ('c, 'd, 'v) SystemStatusOsObserver" where
  "sendMsg m s = s\<lparr>msgQueue := msgQueue s @ [m]\<rparr>"

definition send_out ::
  "('c, 'd, 'v) os_output \<Rightarrow> ('c, 'd, 'v) SystemStatusOsObserver \<Rightarrow> ('c, 'd, 'v) SystemStatusOsObserver" where
  "send_out e s = s\<lparr>outputs := outputs s @ [e]\<rparr>"

section \<open>Helpers\<close>

definition cacheObserverRequest ::
  "('c :: linorder, 'd :: linorder list) stdmap \<Rightarrow> 'd list \<Rightarrow> 'c \<Rightarrow> ('c, 'd list) stdmap" where
  "cacheObserverRequest reqCache l client =
     (case map_of reqCache client of
        Some old \<Rightarrow>
          let difference = set_difference l old
          in if difference \<noteq> [] then map_put client (remdups_adj (list_merge old (sort difference))) reqCache
             else reqCache
      | None \<Rightarrow> map_put client l reqCache)"

definition cached_items :: "'d list \<Rightarrow> ('d, 'v) stdmap \<Rightarrow> ('d \<times> 'v) list" where
  "cached_items l cache = List.map_filter (\<lambda>d. map_option (Pair d) (map_of cache d)) l"

definition sendFirstResponse ::
  "'d list \<Rightarrow> 'c \<Rightarrow> ('c, 'd, 'v) SystemStatusOsObserver \<Rightarrow> ('c, 'd, 'v) SystemStatusOsObserver" where
  "sendFirstResponse l to s =
     (if l = [] then s
      else let dataItems = cached_items l (mDataItemCache s)
           in if dataItems = [] then s else send_out (ClientNotify to dataItems) s)"

definition sendCachedDataItems ::
  "'d list \<Rightarrow> 'c \<Rightarrow> ('c, 'd, 'v) SystemStatusOsObserver \<Rightarrow> ('c, 'd, 'v) SystemStatusOsObserver option" where
  "sendCachedDataItems l to s =
     (if list_all (\<lambda>d. map_of (mDataItemCache s) d \<noteq> None) l
      then Some (send_out (ClientNotify to (cached_items l (mDataItemCache s))) s) else None)"

definition updateCache ::
  "('d :: linorder, 'v) item_ops \<Rightarrow> 'd \<times> 'v \<Rightarrow> ('c, 'd, 'v) SystemStatusOsObserver \<Rightarrow>
   bool \<times> ('c, 'd, 'v) SystemStatusOsObserver" where
  "updateCache ops item s =
     (case item of (d, v) \<Rightarrow>
        (case map_of (mDataItemCache s) d of
           None \<Rightarrow>
             if \<not> createNewDataItem ops d then (False, s)
             else (True, s\<lparr>mDataItemCache := map_put d v (mDataItemCache s)\<rparr>)
         | Some old \<Rightarrow>
             (case copyItem ops old v of (v', updated) \<Rightarrow>
                (updated, s\<lparr>mDataItemCache := map_put d v' (mDataItemCache s)\<rparr>))))"

section \<open>The interface\<close>

definition subscribe ::
  "'d :: linorder list \<Rightarrow> 'c :: linorder \<Rightarrow> ('c, 'd, 'v) SystemStatusOsObserver \<Rightarrow>
   ('c, 'd, 'v) SystemStatusOsObserver" where
  "subscribe l client s =
     (if \<not> mSubscriptionObj s
      then s\<lparr>mSubscribeReqCache := cacheObserverRequest (mSubscribeReqCache s) l client\<rparr>
      else sendMsg (HandleSubscribeReq l client) s)"

definition updateSubscription ::
  "'d list \<Rightarrow> 'c \<Rightarrow> ('c, 'd, 'v) SystemStatusOsObserver \<Rightarrow> ('c, 'd, 'v) SystemStatusOsObserver" where
  "updateSubscription l client s =
     (if \<not> mSubscriptionObj s then s else sendMsg (HandleUpdateSubscriptionReq l client) s)"

definition requestData ::
  "'d :: linorder list \<Rightarrow> 'c :: linorder \<Rightarrow> ('c, 'd, 'v) SystemStatusOsObserver \<Rightarrow>
   ('c, 'd, 'v) SystemStatusOsObserver" where
  "requestData l client s =
     (if \<not> mSubscriptionObj s
      then s\<lparr>mReqDataCache := cacheObserverRequest (mReqDataCache s) l client\<rparr>
      else sendMsg (HandleRequestData l client) s)"

definition unsubscribe ::
  "'d list \<Rightarrow> 'c \<Rightarrow> ('c, 'd, 'v) SystemStatusOsObserver \<Rightarrow> ('c, 'd, 'v) SystemStatusOsObserver" where
  "unsubscribe l client s =
     (if \<not> mSubscriptionObj s then s else sendMsg (HandleUnsubscribeReq l client) s)"

definition unsubscribeAll ::
  "'c \<Rightarrow> ('c, 'd, 'v) SystemStatusOsObserver \<Rightarrow> ('c, 'd, 'v) SystemStatusOsObserver" where
  "unsubscribeAll client s =
     (if \<not> mSubscriptionObj s then s else sendMsg (HandleUnsubscribeAllReq client) s)"

text \<open>
  \<open>notify\<close> copies each item and asks \<open>SystemStatus\<close> whether it is new; its answers are the argument
  \<open>recorded\<close>, a function of the items of this call recorded before. An item that cannot be created
  ends the call.
\<close>

fun notify_items ::
  "('d, 'v) item_ops \<Rightarrow> (('d \<times> 'v) list \<Rightarrow> 'd \<times> 'v \<Rightarrow> bool) \<Rightarrow> ('d \<times> 'v) list \<Rightarrow> ('d \<times> 'v) list \<Rightarrow>
   ('d \<times> 'v) list option" where
  "notify_items ops recorded acc [] = Some acc"
| "notify_items ops recorded acc (item # rest) =
     (if \<not> createNewDataItem ops (fst item) then None
      else notify_items ops recorded (if recorded acc item then acc @ [item] else acc) rest)"

definition notify ::
  "('d, 'v) item_ops \<Rightarrow> (('d \<times> 'v) list \<Rightarrow> 'd \<times> 'v \<Rightarrow> bool) \<Rightarrow> ('d \<times> 'v) list \<Rightarrow>
   ('c, 'd, 'v) SystemStatusOsObserver \<Rightarrow> ('c, 'd, 'v) SystemStatusOsObserver" where
  "notify ops recorded dlist s =
     (case notify_items ops recorded [] dlist of None \<Rightarrow> s | Some l \<Rightarrow> sendMsg (HandleNotify l) s)"

text \<open>The message that \<open>turnOn\<close> posts carries \<open>this\<close> as the framework object.\<close>

definition turnOn ::
  "'d :: linorder \<Rightarrow> int \<Rightarrow> ('c, 'd, 'v) SystemStatusOsObserver \<Rightarrow> ('c, 'd, 'v) SystemStatusOsObserver" where
  "turnOn dit timeOut s =
     (if \<not> mFrameworkActionReqObj s then s
      else case map_of (mActiveRequestCount s) dit of
             None \<Rightarrow>
               sendMsg (HandleTurnOnMsg dit timeOut)
                 (s\<lparr>mActiveRequestCount := map_put dit 1 (mActiveRequestCount s)\<rparr>)
           | Some k \<Rightarrow> s\<lparr>mActiveRequestCount := map_put dit (k + 1) (mActiveRequestCount s)\<rparr>)"

definition turnOff ::
  "'d :: linorder \<Rightarrow> ('c, 'd, 'v) SystemStatusOsObserver \<Rightarrow> ('c, 'd, 'v) SystemStatusOsObserver" where
  "turnOff dit s =
     (if \<not> mFrameworkActionReqObj s then s
      else case map_of (mActiveRequestCount s) dit of
             None \<Rightarrow> s
           | Some k \<Rightarrow>
               if k - 1 = 0
               then sendMsg (HandleTurnOffMsg dit)
                      (s\<lparr>mActiveRequestCount := map_erase dit (mActiveRequestCount s)\<rparr>)
               else s\<lparr>mActiveRequestCount := map_put dit (k - 1) (mActiveRequestCount s)\<rparr>)"

definition setSubscriptionObj ::
  "bool \<Rightarrow> ('c :: linorder, 'd :: linorder, 'v) SystemStatusOsObserver \<Rightarrow>
   ('c, 'd, 'v) SystemStatusOsObserver" where
  "setSubscriptionObj obj s =
     (let s1 = s\<lparr>mSubscriptionObj := obj\<rparr>;
          s2 = fold (\<lambda>(client, l). subscribe l client) (mSubscribeReqCache s1) s1
      in fold (\<lambda>(client, l). requestData l client) (mReqDataCache s2) s2)"

section \<open>The messages\<close>

text \<open>Subscribe for the items the index did not know.\<close>

definition fw_subscribe ::
  "'d list \<Rightarrow> ('c, 'd, 'v) SystemStatusOsObserver \<Rightarrow> ('c, 'd, 'v) SystemStatusOsObserver" where
  "fw_subscribe l s = (if l = [] then s else send_out (FwSubscribe l) s)"

definition fw_unsubscribe ::
  "'d list \<Rightarrow> ('c, 'd, 'v) SystemStatusOsObserver \<Rightarrow> ('c, 'd, 'v) SystemStatusOsObserver" where
  "fw_unsubscribe l s = (if l = [] then s else send_out (FwUnsubscribe l) s)"

definition procSubscribe ::
  "'d :: linorder list \<Rightarrow> 'c :: linorder \<Rightarrow> ('c, 'd, 'v) SystemStatusOsObserver \<Rightarrow>
   ('c, 'd, 'v) SystemStatusOsObserver" where
  "procSubscribe l client s =
     (if l = [] then s
      else let s1 = s\<lparr>mClientIndex := fst (ci_add client l (mClientIndex s) [])\<rparr>;
               s2 = sendFirstResponse l client s1;
               (ix, yetToSubscribe) = di_add_client client l (mDataItemIndex s2) []
           in fw_subscribe yetToSubscribe (s2\<lparr>mDataItemIndex := ix\<rparr>))"

definition procUpdateSubscription ::
  "'d :: linorder list \<Rightarrow> 'c :: linorder \<Rightarrow> ('c, 'd, 'v) SystemStatusOsObserver \<Rightarrow>
   ('c, 'd, 'v) SystemStatusOsObserver" where
  "procUpdateSubscription l client s =
     (if l = [] then s
      else let current = getSubscribedList client (mClientIndex s) [];
               removeList = set_difference current l;
               (ci, pending) = ci_add client l (mClientIndex s) [];
               s1 = sendFirstResponse pending client (s\<lparr>mClientIndex := ci\<rparr>);
               (ix, yetToSubscribe) = di_add_client client l (mDataItemIndex s1) [];
               s2 = fw_subscribe yetToSubscribe (s1\<lparr>mDataItemIndex := ix\<rparr>);
               s3 = s2\<lparr>mClientIndex := fst (ci_remove client removeList (mClientIndex s2))\<rparr>;
               (ix', unsubscribeList) =
                 (if \<not> isSubscribedClient client (mClientIndex s3)
                  then di_remove_clients [client] (mDataItemIndex s3) [] else (mDataItemIndex s3, []))
           in fw_unsubscribe unsubscribeList (s3\<lparr>mDataItemIndex := ix'\<rparr>))"

definition procRequestData ::
  "'d :: linorder list \<Rightarrow> 'c :: linorder \<Rightarrow> ('c, 'd, 'v) SystemStatusOsObserver \<Rightarrow>
   ('c, 'd, 'v) SystemStatusOsObserver" where
  "procRequestData l client s =
     (if l = [] then s
      else let (ci, yet) = ci_add client l (mClientIndex s) [];
               (ix, yet') = di_add_client client l (mDataItemIndex s) yet
           in send_out (FwRequestData l) (s\<lparr>mClientIndex := ci, mDataItemIndex := ix\<rparr>))"

fun unsubscribe_items ::
  "'c :: linorder \<Rightarrow> 'd :: linorder list \<Rightarrow> ('c, 'd) DataItemIndex \<Rightarrow> 'd list \<Rightarrow>
   ('c, 'd) DataItemIndex \<times> 'd list" where
  "unsubscribe_items client [] ix out = (ix, out)"
| "unsubscribe_items client (d # l) ix out =
     (let ix' = fst (di_remove d [client] ix)
      in unsubscribe_items client l ix'
           (if getListOfSubscribedClients d ix' [] = [] then out @ [d] else out))"

definition procUnsubscribe ::
  "'d :: linorder list \<Rightarrow> 'c :: linorder \<Rightarrow> ('c, 'd, 'v) SystemStatusOsObserver \<Rightarrow>
   ('c, 'd, 'v) SystemStatusOsObserver" where
  "procUnsubscribe l client s =
     (if l = [] then s
      else let s1 = s\<lparr>mClientIndex := fst (ci_remove client l (mClientIndex s))\<rparr>;
               (ix, unsubscribeList) = unsubscribe_items client l (mDataItemIndex s1) []
           in fw_unsubscribe unsubscribeList (s1\<lparr>mDataItemIndex := ix\<rparr>))"

definition procUnsubscribeAll ::
  "'c \<Rightarrow> ('c, 'd, 'v) SystemStatusOsObserver \<Rightarrow> ('c, 'd, 'v) SystemStatusOsObserver" where
  "procUnsubscribeAll client s =
     (case ci_remove_client client (mClientIndex s) of (ret, ci) \<Rightarrow>
        let s1 = s\<lparr>mClientIndex := ci\<rparr>
        in if ret = 0 then s1
           else case di_remove_clients [client] (mDataItemIndex s1) [] of (ix, unsubscribeList) \<Rightarrow>
                  fw_unsubscribe unsubscribeList (s1\<lparr>mDataItemIndex := ix\<rparr>))"

fun update_items ::
  "('d :: linorder, 'v) item_ops \<Rightarrow> ('d \<times> 'v) list \<Rightarrow> ('c, 'd, 'v) SystemStatusOsObserver \<Rightarrow> 'd list \<Rightarrow>
   ('c, 'd, 'v) SystemStatusOsObserver \<times> 'd list" where
  "update_items ops [] s ids = (s, ids)"
| "update_items ops (item # rest) s ids =
     (case updateCache ops item s of (updated, s') \<Rightarrow>
        update_items ops rest s' (if updated then ids @ [fst item] else ids))"

definition clients_to_notify :: "'d list \<Rightarrow> ('d, 'c list) stdmap \<Rightarrow> 'c list" where
  "clients_to_notify ids ix = remdups_adj (concat (map (\<lambda>d. getListOfSubscribedClients d ix []) ids))"

fun send_all ::
  "'d :: linorder list \<Rightarrow> 'c list \<Rightarrow> ('c, 'd, 'v) SystemStatusOsObserver \<Rightarrow>
   ('c, 'd, 'v) SystemStatusOsObserver option" where
  "send_all ids [] s = Some s"
| "send_all ids (client # rest) s =
     (case sendCachedDataItems
             (set_intersection (sort ids) (sort (getSubscribedList client (mClientIndex s) []))) client s of
        None \<Rightarrow> None
      | Some s' \<Rightarrow> send_all ids rest s')"

definition procNotify ::
  "('d :: linorder, 'v) item_ops \<Rightarrow> ('d \<times> 'v) list \<Rightarrow> ('c, 'd, 'v) SystemStatusOsObserver \<Rightarrow>
   ('c, 'd, 'v) SystemStatusOsObserver option" where
  "procNotify ops items s =
     (case update_items ops items s [] of (s1, ids) \<Rightarrow>
        send_all ids (clients_to_notify ids (mDataItemIndex s1)) s1)"

fun proc ::
  "('d :: linorder, 'v) item_ops \<Rightarrow> ('c :: linorder, 'd, 'v) os_msg \<Rightarrow> ('c, 'd, 'v) SystemStatusOsObserver \<Rightarrow>
   ('c, 'd, 'v) SystemStatusOsObserver option" where
  "proc ops (HandleSubscribeReq l c) s = Some (procSubscribe l c s)"
| "proc ops (HandleUpdateSubscriptionReq l c) s = Some (procUpdateSubscription l c s)"
| "proc ops (HandleRequestData l c) s = Some (procRequestData l c s)"
| "proc ops (HandleUnsubscribeReq l c) s = Some (procUnsubscribe l c s)"
| "proc ops (HandleUnsubscribeAllReq c) s = Some (procUnsubscribeAll c s)"
| "proc ops (HandleNotify items) s = procNotify ops items s"
| "proc ops (HandleTurnOnMsg d t) s = Some (turnOn d t s)"
| "proc ops (HandleTurnOffMsg d) s = Some (send_out (FwTurnOff d) s)"

text \<open>The calls of the interface and the message task, which takes the oldest message.\<close>

datatype ('c, 'd, 'v) os_event =
    Subscribe "'d list" 'c
  | UpdateSubscription "'d list" 'c
  | RequestData "'d list" 'c
  | Unsubscribe "'d list" 'c
  | UnsubscribeAll 'c
  | Notify "('d \<times> 'v) list \<Rightarrow> 'd \<times> 'v \<Rightarrow> bool" "('d \<times> 'v) list"
  | TurnOn 'd int
  | TurnOff 'd
  | SetSubscriptionObj bool
  | SetFrameworkActionReqObj bool
  | ProcessMsg

fun os_step ::
  "('d :: linorder, 'v) item_ops \<Rightarrow> ('c :: linorder, 'd, 'v) os_event \<Rightarrow>
   ('c, 'd, 'v) SystemStatusOsObserver \<Rightarrow> ('c, 'd, 'v) SystemStatusOsObserver option" where
  "os_step ops (Subscribe l c) s = Some (subscribe l c s)"
| "os_step ops (UpdateSubscription l c) s = Some (updateSubscription l c s)"
| "os_step ops (RequestData l c) s = Some (requestData l c s)"
| "os_step ops (Unsubscribe l c) s = Some (unsubscribe l c s)"
| "os_step ops (UnsubscribeAll c) s = Some (unsubscribeAll c s)"
| "os_step ops (Notify recorded dlist) s = Some (notify ops recorded dlist s)"
| "os_step ops (TurnOn d t) s = Some (turnOn d t s)"
| "os_step ops (TurnOff d) s = Some (turnOff d s)"
| "os_step ops (SetSubscriptionObj obj) s = Some (setSubscriptionObj obj s)"
| "os_step ops (SetFrameworkActionReqObj obj) s = Some (s\<lparr>mFrameworkActionReqObj := obj\<rparr>)"
| "os_step ops ProcessMsg s =
     (case msgQueue s of [] \<Rightarrow> Some s | m # rest \<Rightarrow> proc ops m (s\<lparr>msgQueue := rest\<rparr>))"

fun os_run ::
  "('d :: linorder, 'v) item_ops \<Rightarrow> ('c :: linorder, 'd, 'v) os_event list \<Rightarrow>
   ('c, 'd, 'v) SystemStatusOsObserver \<Rightarrow> ('c, 'd, 'v) SystemStatusOsObserver option" where
  "os_run ops [] s = Some s"
| "os_run ops (e # es) s = (case os_step ops e s of None \<Rightarrow> None | Some s' \<Rightarrow> os_run ops es s')"


section \<open>The framework is never asked to turn anything on\<close>

fun is_turn_on :: "('c, 'd, 'v) os_output \<Rightarrow> bool" where
  "is_turn_on (FwTurnOn _ _) = True"
| "is_turn_on _ = False"

definition turn_ons :: "('c, 'd, 'v) SystemStatusOsObserver \<Rightarrow> ('c, 'd, 'v) os_output list" where
  "turn_ons s = filter is_turn_on (outputs s)"

lemma turn_ons_send_out [simp]: "\<not> is_turn_on e \<Longrightarrow> turn_ons (send_out e s) = turn_ons s"
  by (simp add: turn_ons_def send_out_def)

lemma turn_ons_sendMsg [simp]: "turn_ons (sendMsg m s) = turn_ons s"
  by (simp add: turn_ons_def sendMsg_def)

lemma turn_ons_fields [simp]:
  "turn_ons (s\<lparr>mClientIndex := ci\<rparr>) = turn_ons s" "turn_ons (s\<lparr>mDataItemIndex := ix\<rparr>) = turn_ons s"
  "turn_ons (s\<lparr>mDataItemCache := dc\<rparr>) = turn_ons s" "turn_ons (s\<lparr>mActiveRequestCount := ac\<rparr>) = turn_ons s"
  "turn_ons (s\<lparr>mSubscribeReqCache := rc\<rparr>) = turn_ons s" "turn_ons (s\<lparr>mReqDataCache := rc\<rparr>) = turn_ons s"
  "turn_ons (s\<lparr>mSubscriptionObj := b\<rparr>) = turn_ons s" "turn_ons (s\<lparr>mFrameworkActionReqObj := b\<rparr>) = turn_ons s"
  "turn_ons (s\<lparr>msgQueue := q\<rparr>) = turn_ons s"
  by (simp_all add: turn_ons_def)

lemma turn_ons_helpers [simp]:
  "turn_ons (sendFirstResponse l to s) = turn_ons s"
  "turn_ons (fw_subscribe l s) = turn_ons s" "turn_ons (fw_unsubscribe l s) = turn_ons s"
  "turn_ons (subscribe l c s) = turn_ons s" "turn_ons (updateSubscription l c s) = turn_ons s"
  "turn_ons (requestData l c s) = turn_ons s" "turn_ons (unsubscribe l c s) = turn_ons s"
  "turn_ons (unsubscribeAll c s) = turn_ons s"
  "turn_ons (turnOn d t s) = turn_ons s" "turn_ons (turnOff d s) = turn_ons s"
  by (simp_all add: sendFirstResponse_def fw_subscribe_def fw_unsubscribe_def subscribe_def updateSubscription_def
      requestData_def unsubscribe_def unsubscribeAll_def turnOn_def turnOff_def Let_def split: option.split)

lemma turn_ons_fold:
  "turn_ons (fold (\<lambda>(c, l). subscribe l c) reqs s) = turn_ons s"
  "turn_ons (fold (\<lambda>(c, l). requestData l c) reqs s) = turn_ons s"
  by (induction reqs arbitrary: s) (auto split: prod.split)

lemma turn_ons_procs [simp]:
  "turn_ons (procSubscribe l c s) = turn_ons s" "turn_ons (procUpdateSubscription l c s) = turn_ons s"
  "turn_ons (procRequestData l c s) = turn_ons s" "turn_ons (procUnsubscribe l c s) = turn_ons s"
  "turn_ons (procUnsubscribeAll c s) = turn_ons s"
  by (simp_all add: procSubscribe_def procUpdateSubscription_def procRequestData_def procUnsubscribe_def
      procUnsubscribeAll_def Let_def split: prod.split)

lemma turn_ons_updateCache: "turn_ons (snd (updateCache ops item s)) = turn_ons s"
  by (auto simp: updateCache_def split: prod.split option.split)

lemma turn_ons_update_items: "turn_ons (fst (update_items ops items s ids)) = turn_ons s"
proof (induction ops items s ids rule: update_items.induct)
  case (2 ops item rest s ids)
  obtain u s' where u: "updateCache ops item s = (u, s')" by fastforce
  with 2 [OF u [symmetric]] turn_ons_updateCache [of ops item s] show ?case by simp
qed simp

lemma turn_ons_send_all: "send_all ids cs s = Some s' \<Longrightarrow> turn_ons s' = turn_ons s"
  by (induction cs arbitrary: s) (auto simp: sendCachedDataItems_def split: option.splits if_splits)

lemma turn_ons_step: "os_step ops e s = Some s' \<Longrightarrow> turn_ons s' = turn_ons s"
proof (cases e)
  case (Notify recorded dlist)
  assume "os_step ops e s = Some s'"
  with Notify show ?thesis by (auto simp: notify_def split: option.split)
next
  case ProcessMsg
  assume step: "os_step ops e s = Some s'"
  show ?thesis
  proof (cases "msgQueue s")
    case (Cons m rest)
    show ?thesis
    proof (cases m)
      case (HandleNotify items)
      let ?s = "s\<lparr>msgQueue := rest\<rparr>"
      obtain s1 ids where u: "update_items ops items ?s [] = (s1, ids)" by fastforce
      with step ProcessMsg Cons HandleNotify have "send_all ids (clients_to_notify ids (mDataItemIndex s1)) s1 = Some s'"
        by (simp add: procNotify_def)
      with turn_ons_send_all turn_ons_update_items [of ops items ?s "[]"] u show ?thesis by fastforce
    qed (use step ProcessMsg Cons in auto)
  qed (use step ProcessMsg in simp)
qed (auto simp: setSubscriptionObj_def Let_def turn_ons_fold)

lemma turn_ons_run: "os_run ops es s = Some s' \<Longrightarrow> turn_ons s' = turn_ons s"
  by (induction es arbitrary: s) (auto split: option.splits dest: turn_ons_step)

section \<open>Subscriptions\<close>

lemma di_add_client_new:
  "map_ok m \<Longrightarrow>
   \<exists>new. snd (di_add_client c l m out) = out @ new \<and> distinct new \<and> set new = set l - dom (map_of m) \<and>
         dom (map_of (fst (di_add_client c l m out))) = dom (map_of m) \<union> set l"
proof (induction c l m out rule: di_add_client.induct)
  case (2 client d l m out)
  show ?case
  proof (cases "map_of m d")
    case None
    have "map_ok (map_put d [client] m)" using "2.prems" by simp
    from "2.IH"(1) [OF None this] obtain new where new:
      "snd (di_add_client client l (map_put d [client] m) (out @ [d])) = (out @ [d]) @ new" "distinct new"
      "set new = set l - dom (map_of (map_put d [client] m))"
      "dom (map_of (fst (di_add_client client l (map_put d [client] m) (out @ [d])))) =
        dom (map_of (map_put d [client] m)) \<union> set l"
      by blast
    with None "2.prems" show ?thesis by (intro exI [of _ "d # new"]) auto
  next
    case (Some clients)
    let ?m = "if client \<in> set clients then m else map_put d (clients @ [client]) m"
    have "map_ok ?m" using "2.prems" by simp
    from "2.IH"(2) [OF Some this] obtain new where new:
      "snd (di_add_client client l ?m out) = out @ new" "distinct new" "set new = set l - dom (map_of ?m)"
      "dom (map_of (fst (di_add_client client l ?m out))) = dom (map_of ?m) \<union> set l"
      by blast
    moreover have "dom (map_of ?m) = dom (map_of m)" using Some "2.prems" by auto
    ultimately show ?thesis using Some by (intro exI [of _ new]) auto
  qed
qed simp

definition fw_subscribed :: "('c, 'd, 'v) SystemStatusOsObserver \<Rightarrow> 'd list" where
  "fw_subscribed s = concat (map (\<lambda>e. case e of FwSubscribe l \<Rightarrow> l | _ \<Rightarrow> []) (outputs s))"

lemma fw_subscribed_sends:
  "fw_subscribed (sendFirstResponse l to s) = fw_subscribed s"
  "fw_subscribed (fw_subscribe l s) = fw_subscribed s @ l"
  "fw_subscribed (s\<lparr>mClientIndex := ci\<rparr>) = fw_subscribed s"
  "fw_subscribed (s\<lparr>mDataItemIndex := ix\<rparr>) = fw_subscribed s"
  by (simp_all add: fw_subscribed_def sendFirstResponse_def fw_subscribe_def send_out_def Let_def)

lemma sendFirstResponse_frame [simp]:
  "mClientIndex (sendFirstResponse l to s) = mClientIndex s"
  "mDataItemIndex (sendFirstResponse l to s) = mDataItemIndex s"
  by (simp_all add: sendFirstResponse_def send_out_def Let_def)

lemma fw_subscribe_frame [simp]:
  "mClientIndex (fw_subscribe l s) = mClientIndex s" "mDataItemIndex (fw_subscribe l s) = mDataItemIndex s"
  by (simp_all add: fw_subscribe_def send_out_def)

lemma procSubscribe_indexes:
  "l \<noteq> [] \<Longrightarrow> mClientIndex (procSubscribe l c s) = fst (ci_add c l (mClientIndex s) [])"
  "l \<noteq> [] \<Longrightarrow> mDataItemIndex (procSubscribe l c s) = fst (di_add_client c l (mDataItemIndex s) [])"
  by (simp_all add: procSubscribe_def Let_def split: prod.split)

lemma procSubscribe_fw:
  "fw_subscribed (procSubscribe l c s) =
   fw_subscribed s @ snd (di_add_client c l (mDataItemIndex s) [])"
  by (simp add: procSubscribe_def Let_def fw_subscribed_sends split: prod.split)

lemma procSubscribe_Nil [simp]: "procSubscribe [] c s = s"
  by (simp add: procSubscribe_def)

text \<open>A sequence of subscriptions, as the two indexes see it.\<close>

lemma subscriptions_indexes:
  "mClientIndex (fold (\<lambda>(c, l). procSubscribe l c) reqs s) =
     fold (\<lambda>(c, l) m. fst (ci_add c l m [])) (filter (\<lambda>(c, l). l \<noteq> []) reqs) (mClientIndex s)"
  "mDataItemIndex (fold (\<lambda>(c, l). procSubscribe l c) reqs s) =
     fold (\<lambda>(c, l) m. fst (di_add_client c l m [])) (filter (\<lambda>(c, l). l \<noteq> []) reqs) (mDataItemIndex s)"
  by (induction reqs arbitrary: s) (auto simp: procSubscribe_indexes)

definition fw_knows_index :: "('c, 'd :: linorder, 'v) SystemStatusOsObserver \<Rightarrow> bool" where
  "fw_knows_index s \<longleftrightarrow>
     map_ok (mDataItemIndex s) \<and> distinct (fw_subscribed s) \<and>
     set (fw_subscribed s) = dom (map_of (mDataItemIndex s))"

lemma fw_knows_index_subscribe: "fw_knows_index s \<Longrightarrow> fw_knows_index (procSubscribe l c s)"
proof (cases "l = []")
  case False
  assume k: "fw_knows_index s"
  then obtain new where "snd (di_add_client c l (mDataItemIndex s) []) = new" "distinct new"
    "set new = set l - dom (map_of (mDataItemIndex s))"
    "dom (map_of (fst (di_add_client c l (mDataItemIndex s) []))) = dom (map_of (mDataItemIndex s)) \<union> set l"
    using di_add_client_new [of "mDataItemIndex s" c l "[]"] by (auto simp: fw_knows_index_def)
  with k False show ?thesis
    by (auto simp: fw_knows_index_def procSubscribe_fw procSubscribe_indexes di_add_client_ok)
qed simp

lemma fw_knows_index_subscriptions:
  "fw_knows_index s \<Longrightarrow> fw_knows_index (fold (\<lambda>(c, l). procSubscribe l c) reqs s)"
  by (induction reqs arbitrary: s) (auto simp: fw_knows_index_subscribe)

section \<open>Notifications\<close>

definition all_cached :: "'d list \<Rightarrow> ('d, 'v) stdmap \<Rightarrow> bool" where
  "all_cached ids cache = list_all (\<lambda>d. map_of cache d \<noteq> None) ids"

lemma updateCache_caches:
  assumes "updateCache ops item s = (u, s')" and "map_ok (mDataItemCache s)"
  shows "map_ok (mDataItemCache s')" and "dom (map_of (mDataItemCache s)) \<subseteq> dom (map_of (mDataItemCache s'))"
    and "u \<Longrightarrow> map_of (mDataItemCache s') (fst item) \<noteq> None"
    and "mClientIndex s' = mClientIndex s" and "mDataItemIndex s' = mDataItemIndex s" and "outputs s' = outputs s"
proof -
  obtain d v where item: "item = (d, v)" by fastforce
  show "map_ok (mDataItemCache s')" and "dom (map_of (mDataItemCache s)) \<subseteq> dom (map_of (mDataItemCache s'))"
    and "u \<Longrightarrow> map_of (mDataItemCache s') (fst item) \<noteq> None"
    and "mClientIndex s' = mClientIndex s" and "mDataItemIndex s' = mDataItemIndex s" and "outputs s' = outputs s"
    using assms by (auto simp: updateCache_def item split: option.splits prod.splits if_splits)
qed

lemma update_items_caches:
  assumes "update_items ops items s ids = (s', ids')" and "map_ok (mDataItemCache s)"
    and "all_cached ids (mDataItemCache s)"
  shows "all_cached ids' (mDataItemCache s') \<and> map_ok (mDataItemCache s') \<and> mClientIndex s' = mClientIndex s \<and>
    mDataItemIndex s' = mDataItemIndex s \<and> outputs s' = outputs s"
  using assms
proof (induction ops items s ids rule: update_items.induct)
  case (2 ops item rest s ids)
  obtain u s1 where u: "updateCache ops item s = (u, s1)" by fastforce
  note c = updateCache_caches [OF u "2.prems"(2)]
  have "all_cached (if u then ids @ [fst item] else ids) (mDataItemCache s1)"
    using "2.prems"(3) c(2,3) by (auto simp: all_cached_def list_all_iff subset_iff dom_def)
  with 2 u c show ?case by auto
qed simp

lemma map_filter_set: "set (List.map_filter f l) = {y. \<exists>x \<in> set l. f x = Some y}"
  by (induction l) (auto simp: map_filter_simps split: option.split)

lemma cached_items_set:
  "set (cached_items l cache) = {(d, v). d \<in> set l \<and> map_of cache d = Some v}"
  by (auto simp: cached_items_def map_filter_set)

text \<open>What one client gets of the updated items.\<close>

definition items_for :: "'d :: linorder list \<Rightarrow> ('c, 'd, 'v) SystemStatusOsObserver \<Rightarrow> 'c \<Rightarrow> 'd list" where
  "items_for ids s c = set_intersection (sort ids) (sort (getSubscribedList c (mClientIndex s) []))"

lemma items_for_set: "set (items_for ids s c) = set ids \<inter> client_items (mClientIndex s) c"
  by (simp add: items_for_def set_intersection_set_sorted client_items_def)

lemma items_for_frame: "mClientIndex t = mClientIndex s \<Longrightarrow> items_for ids t = items_for ids s"
  by (rule ext) (simp add: items_for_def)

lemma send_all_eq:
  "all_cached ids (mDataItemCache s) \<Longrightarrow>
   send_all ids cs s =
     Some (s\<lparr>outputs := outputs s @
       map (\<lambda>c. ClientNotify c (cached_items (items_for ids s c) (mDataItemCache s))) cs\<rparr>)"
proof (induction cs arbitrary: s)
  case (Cons c cs)
  have "list_all (\<lambda>d. map_of (mDataItemCache s) d \<noteq> None) (items_for ids s c)"
    using Cons.prems items_for_set [of ids s c] by (auto simp: all_cached_def list_all_iff)
  then have "sendCachedDataItems (items_for ids s c) c s =
      Some (send_out (ClientNotify c (cached_items (items_for ids s c) (mDataItemCache s))) s)"
    by (simp add: sendCachedDataItems_def)
  moreover have "items_for ids (send_out e s) = items_for ids s" for e
    by (rule items_for_frame) (simp add: send_out_def)
  ultimately show ?case
    using Cons.IH [of "send_out (ClientNotify c (cached_items (items_for ids s c) (mDataItemCache s))) s"] Cons.prems
    by (simp add: items_for_def send_out_def)
qed simp

lemma clients_to_notify_set:
  "c \<in> set (clients_to_notify ids ix) \<longleftrightarrow> (\<exists>d \<in> set ids. d \<in> items_with_client ix c)"
  by (auto simp: clients_to_notify_def items_with_client_def)

lemma subscriptions_dom:
  "map_ok (mDataItemIndex s) \<Longrightarrow>
   dom (map_of (mDataItemIndex (fold (\<lambda>(c, l). procSubscribe l c) reqs s))) =
     dom (map_of (mDataItemIndex s)) \<union> {d. \<exists>c l. (c, l) \<in> set reqs \<and> d \<in> set l}"
proof (induction reqs arbitrary: s)
  case (Cons r reqs)
  obtain c l where r: "r = (c, l)" by fastforce
  have "map_ok (mDataItemIndex (procSubscribe l c s)) \<and>
      dom (map_of (mDataItemIndex (procSubscribe l c s))) = dom (map_of (mDataItemIndex s)) \<union> set l"
    using di_add_client_new [OF Cons.prems, of c l "[]"] Cons.prems
    by (cases "l = []") (auto simp: procSubscribe_indexes di_add_client_ok)
  with Cons.IH [of "procSubscribe l c s"] show ?case by (auto simp: r)
qed simp

section \<open>Properties\<close>

text \<open>
  C27: After any sequence of subscriptions, both indexes relate a client to exactly the items it
  asked for, and the framework was asked for each item of any client exactly once.
\<close>

theorem os_subscriptions:
  "let s = fold (\<lambda>(c, l). procSubscribe l c) reqs (new_observer :: ('c :: linorder, 'd :: linorder, 'v) SystemStatusOsObserver)
   in client_items (mClientIndex s) c = {d. \<exists>l. (c, l) \<in> set reqs \<and> d \<in> set l} \<and>
      items_with_client (mDataItemIndex s) c = {d. \<exists>l. (c, l) \<in> set reqs \<and> d \<in> set l} \<and>
      distinct (fw_subscribed s) \<and>
      set (fw_subscribed s) = {d. \<exists>c l. (c, l) \<in> set reqs \<and> d \<in> set l}"
proof -
  let ?s = "fold (\<lambda>(c, l). procSubscribe l c) reqs (new_observer :: ('c :: linorder, 'd :: linorder, 'v) SystemStatusOsObserver)"
  let ?real = "filter (\<lambda>(c, l). l \<noteq> []) reqs"
  have none: "client_items [] c = {}" "items_with_client [] c = {}" for c
    by (simp_all add: client_items_def getSubscribedList_def items_with_client_def getListOfSubscribedClients_def)
  have 1: "client_items (mClientIndex ?s) c = {d. \<exists>l. (c, l) \<in> set reqs \<and> d \<in> set l}"
    unfolding subscriptions_indexes
    using client_index.requests_subs [of "[]" ?real c] by (auto simp: new_observer_def none)
  have 2: "items_with_client (mDataItemIndex ?s) c = {d. \<exists>l. (c, l) \<in> set reqs \<and> d \<in> set l}" for c
    unfolding subscriptions_indexes
    using data_item_index.requests_subs [of "[]" ?real c] by (auto simp: new_observer_def none)
  have "fw_knows_index (new_observer :: ('c :: linorder, 'd :: linorder, 'v) SystemStatusOsObserver)"
    by (simp add: fw_knows_index_def new_observer_def fw_subscribed_def)
  then have k: "fw_knows_index ?s" by (rule fw_knows_index_subscriptions)
  have "dom (map_of (mDataItemIndex ?s)) = {d. \<exists>c l. (c, l) \<in> set reqs \<and> d \<in> set l}"
    using subscriptions_dom [of "(new_observer :: ('c :: linorder, 'd :: linorder, 'v) SystemStatusOsObserver)" reqs] by (auto simp: new_observer_def)
  with 1 2 k show ?thesis by (simp add: fw_knows_index_def Let_def)
qed


text \<open>
  C28: A notification that updates items never follows a NULL pointer, reaches exactly the clients
  that the item index has for one of them, and each message to a client holds the current values of
  exactly those of the updated items that the client subscribed to.
\<close>

theorem os_notify_delivers:
  assumes "map_ok (mDataItemCache s)"
  shows "case (update_items ops items s [], procNotify ops items s) of
      ((s1, ids), Some s') \<Rightarrow>
        (c \<in> {c. \<exists>xs. ClientNotify c xs \<in> set (drop (length (outputs s)) (outputs s'))} \<longleftrightarrow>
           c \<in> {c. \<exists>d. d \<in> set ids \<and> d \<in> items_with_client (mDataItemIndex s) c}) \<and>
        set (drop (length (outputs s)) (outputs s')) \<subseteq>
          {e. \<exists>c xs. e = ClientNotify c xs \<and>
             set xs = {(d, v). d \<in> set ids \<and> d \<in> client_items (mClientIndex s) c \<and>
                              map_of (mDataItemCache s1) d = Some v}}
    | ((s1, ids), None) \<Rightarrow> False"
proof -
  obtain s1 ids where u: "update_items ops items s [] = (s1, ids)" by fastforce
  have f: "all_cached ids (mDataItemCache s1)" "mClientIndex s1 = mClientIndex s"
    "mDataItemIndex s1 = mDataItemIndex s" "outputs s1 = outputs s"
    using update_items_caches [OF u assms] by (simp_all add: all_cached_def)
  let ?cs = "clients_to_notify ids (mDataItemIndex s)"
  let ?msg = "\<lambda>c. ClientNotify c (cached_items (items_for ids s1 c) (mDataItemCache s1))"
  have p: "procNotify ops items s = Some (s1\<lparr>outputs := outputs s @ map ?msg ?cs\<rparr>)"
    using send_all_eq [OF f(1), of ?cs] f by (simp add: procNotify_def u)
  have msg: "set (cached_items (items_for ids s1 c) (mDataItemCache s1)) =
      {(d, v). d \<in> set ids \<and> d \<in> client_items (mClientIndex s) c \<and> map_of (mDataItemCache s1) d = Some v}" for c
    by (auto simp: cached_items_set items_for_set f(2))
  have "(\<exists>xs. ClientNotify c xs \<in> ?msg ` set ?cs) \<longleftrightarrow> c \<in> set ?cs" for c by auto
  then show ?thesis
    by (simp add: u p clients_to_notify_set msg) (auto simp: msg)
qed

definition plain_items :: "(nat, nat) item_ops" where
  "plain_items = \<lparr>createNewDataItem = \<lambda>d. True, copyItem = \<lambda>old new. (new, old \<noteq> new)\<rparr>"

theorem os_notify_delivers_witness:
  "\<not> Option.is_none (procNotify plain_items [(7, 1)] (procSubscribe [7 :: nat] (3 :: nat) new_observer)) \<and>
   outputs (the (procNotify plain_items [(7, 1)] (procSubscribe [7 :: nat] (3 :: nat) new_observer))) =
     [FwSubscribe [7], ClientNotify 3 [(7, 1)]]"
proof -
  let ?s = "procSubscribe [7 :: nat] (3 :: nat) (new_observer :: (nat, nat, nat) SystemStatusOsObserver)"
  have "map_ok (mDataItemCache ?s)" by code_simp
  from os_notify_delivers [OF this, where ops = plain_items and items = "[(7, 1)]" and c = 3]
  have "\<not> Option.is_none (procNotify plain_items [(7, 1)] ?s)"
    by (auto split: option.splits prod.splits simp: Option.is_none_def)
  moreover have "outputs (the (procNotify plain_items [(7, 1)] ?s)) = [FwSubscribe [7], ClientNotify 3 [(7, 1)]]"
    by code_simp
  ultimately show ?thesis by blast
qed

text \<open>
  A client that subscribed to an item after a client with a larger address cannot
  unsubscribe: it stays in the item index, so it is still notified, with no items, and the
  framework stays subscribed after the other client has left too.
\<close>

theorem os_unsubscribe_misses_client:
  "let run = os_run plain_items; a = 1 :: nat; b = 2; d = 7;
       s = the (run [SetSubscriptionObj True, Subscribe [d] b, Subscribe [d] a, ProcessMsg, ProcessMsg,
                     Unsubscribe [d] a, ProcessMsg, Unsubscribe [d] b, ProcessMsg] new_observer);
       s' = the (run [Notify (\<lambda>_ _. True) [(d, 9)], ProcessMsg] s)
   in \<not> isSubscribedClient a (mClientIndex s) \<and> \<not> isSubscribedClient b (mClientIndex s) \<and>
      getListOfSubscribedClients d (mDataItemIndex s) [] = [a] \<and>
      outputs s = [FwSubscribe [d]] \<and> outputs s' = [FwSubscribe [d], ClientNotify a []]"
  by code_simp

text \<open>
  \<open>unsubscribeAll\<close> forgets the client only in the client index: the framework stays
  subscribed, and the client, which may be gone, is still notified, with no items.
\<close>

theorem os_unsubscribeAll_keeps_client:
  "let run = os_run plain_items;
       s = the (run [SetSubscriptionObj True, Subscribe [d] c, ProcessMsg, UnsubscribeAll c, ProcessMsg,
                     Notify (\<lambda>_ _. True) [(d, v)], ProcessMsg] (new_observer :: (nat, nat, nat) SystemStatusOsObserver))
   in \<not> isSubscribedClient c (mClientIndex s) \<and> getListOfSubscribedClients d (mDataItemIndex s) [] = [c] \<and>
      outputs s = [FwSubscribe [d], ClientNotify c []]"
  by (simp add: plain_items_def setSubscriptionObj_def subscribe_def unsubscribeAll_def notify_def sendMsg_def
      procSubscribe_def procUnsubscribeAll_def sendFirstResponse_def cached_items_def List.map_filter_def
      ci_add_def ci_remove_client_def fw_subscribe_def send_out_def new_observer_def
      map_erase_def isSubscribedClient_def getListOfSubscribedClients_def
      procNotify_def updateCache_def clients_to_notify_def getSubscribedList_def
        sendCachedDataItems_def Let_def)

text \<open>
  In no history does the framework receive a request to turn something on: the message that
  should carry it comes back to the observer, which counts it as a second reference. So the matching
  request to turn it off does not reach the framework either.
\<close>

theorem os_turnOn_never_arrives:
  "(case os_run ops es new_observer of None \<Rightarrow> True | Some s \<Rightarrow> \<not> list_ex is_turn_on (outputs s)) \<and>
   (let s = the (os_run ops [SetFrameworkActionReqObj True, TurnOn d t, ProcessMsg, TurnOff d, ProcessMsg]
                   new_observer)
    in outputs s = [] \<and> map_of (mActiveRequestCount s) d = Some 1)"
proof
  show "case os_run ops es new_observer of None \<Rightarrow> True | Some s \<Rightarrow> \<not> list_ex is_turn_on (outputs s)"
  proof (cases "os_run ops es new_observer")
    case (Some s)
    from turn_ons_run [OF Some] have "filter is_turn_on (outputs s) = []"
      by (simp add: turn_ons_def new_observer_def)
    with Some show ?thesis by (simp add: filter_empty_conv list_ex_iff)
  qed simp
qed (simp add: turnOn_def turnOff_def sendMsg_def new_observer_def)

end
