(* ===== verification/EventQueue.thy ===== *)
theory EventQueue
  imports Prelude
begin

text \<open>
  The event loop of the IPA connection manager (\<open>IPACM_CmdQueue.cpp\<close>, \<open>IPACM_EvtDispatcher.cpp\<close>):
  two message queues, linked through pointers, and a linked list of listeners.

  Pointers are numbers, NULL is \<open>None\<close>; the nodes of a list live in a partial map, from which
  \<open>free\<close> and \<open>delete\<close> remove them. Following a pointer to a node that is not there is a fault,
  \<open>None\<close> as the result of the operation. Addresses come from a counter, so none is used twice. The
  loops over the linked lists take fuel, the number of nodes ever allocated is enough. The mutex
  makes each enqueue and each dequeue atomic; allocation and the pthread calls succeed.

  The lemmas show that the linked structures hold what was put into them: a queue its messages in
  order (\<open>holds\<close>), the list of listeners its registrations (\<open>listens\<close>), without leaking a node.
  \<open>EventLoop\<close> has the properties of the loop as a whole.
\<close>

section \<open>Data\<close>

record ipacm_cmd_q_data =
  event :: int
  evt_data :: "nat option"

text \<open>The number of external events in the enumeration \<open>ipa_cm_event_id\<close>.\<close>

abbreviation (input) IPA_EXTERNAL_EVENT_MAX :: int where "IPA_EXTERNAL_EVENT_MAX \<equiv> 40"

record Message =
  m_next :: "nat option"
  evt :: ipacm_cmd_q_data

record MessageQueue =
  Head :: "nat option"
  Tail :: "nat option"
  nodes :: "nat \<rightharpoonup> Message"

definition new_queue :: MessageQueue where
  "new_queue = \<lparr>Head = None, Tail = None, nodes = Map.empty\<rparr>"

record cmd_evts =
  ce_event :: int
  ce_obj :: nat
  ce_next :: "nat option"

section \<open>The message queue\<close>

definition setnext :: "nat \<Rightarrow> nat \<Rightarrow> MessageQueue \<Rightarrow> MessageQueue option" where
  "setnext a item q =
     (case nodes q a of
        None \<Rightarrow> None
      | Some m \<Rightarrow> Some (q\<lparr>nodes := (nodes q)(a \<mapsto> m\<lparr>m_next := Some item\<rparr>)\<rparr>))"

definition enqueue :: "nat \<Rightarrow> MessageQueue \<Rightarrow> MessageQueue option" where
  "enqueue item q =
     (case Head q of
        None \<Rightarrow> Some (q\<lparr>Tail := Some item, Head := Some item\<rparr>)
      | Some h \<Rightarrow>
          (case (case Tail q of None \<Rightarrow> setnext h item q | Some t \<Rightarrow> setnext t item q) of
             None \<Rightarrow> None
           | Some q' \<Rightarrow> Some (q'\<lparr>Tail := Some item\<rparr>)))"

definition dequeue :: "MessageQueue \<Rightarrow> (nat option \<times> MessageQueue) option" where
  "dequeue q =
     (case Head q of
        None \<Rightarrow> Some (None, q)
      | Some h \<Rightarrow>
          (case nodes q h of None \<Rightarrow> None | Some m \<Rightarrow> Some (Some h, q\<lparr>Head := m_next m\<rparr>)))"

definition delete_message :: "nat \<Rightarrow> MessageQueue \<Rightarrow> MessageQueue" where
  "delete_message a q = q\<lparr>nodes := (nodes q)(a := None)\<rparr>"

section \<open>The listeners\<close>

text \<open>The walk to the last node, \<open>while(tmp->next) tmp = tmp->next\<close>.\<close>

fun last_node :: "nat \<Rightarrow> (nat \<rightharpoonup> cmd_evts) \<Rightarrow> nat \<Rightarrow> nat option" where
  "last_node 0 mem tmp = None"
| "last_node (Suc fuel) mem tmp =
     (case mem tmp of
        None \<Rightarrow> None
      | Some n \<Rightarrow> (case ce_next n of None \<Rightarrow> Some tmp | Some t \<Rightarrow> last_node fuel mem t))"

text \<open>
  The loop of \<open>deregistr\<close> with its locals: \<open>prev\<close>, \<open>tmp\<close>, and the head and the nodes it changes.
\<close>

fun deregistr_loop ::
  "nat \<Rightarrow> nat \<Rightarrow> nat option \<Rightarrow> nat option \<Rightarrow> nat option \<Rightarrow> (nat \<rightharpoonup> cmd_evts) \<Rightarrow>
   (nat option \<times> (nat \<rightharpoonup> cmd_evts)) option" where
  "deregistr_loop fuel param prev None head mem = Some (head, mem)"
| "deregistr_loop 0 param prev (Some tmp) head mem = None"
| "deregistr_loop (Suc fuel) param prev (Some tmp) head mem =
     (case mem tmp of
        None \<Rightarrow> None
      | Some n \<Rightarrow>
          if ce_obj n = param then
            (if head = Some tmp then
               deregistr_loop fuel param prev (ce_next n) (ce_next n) (mem(tmp := None))
             else case prev of
                    None \<Rightarrow> None
                  | Some p \<Rightarrow>
                      (case mem p of
                         None \<Rightarrow> None
                       | Some pn \<Rightarrow>
                           deregistr_loop fuel param prev (ce_next n) head
                             ((mem(p \<mapsto> pn\<lparr>ce_next := ce_next n\<rparr>))(tmp := None))))
          else deregistr_loop fuel param (Some tmp) (ce_next n) head mem)"

section \<open>The whole\<close>

text \<open>
  What a listener does when it is called back, besides its own work: post events, register and
  deregister listeners. It is an argument of the model.
\<close>

datatype listener_act =
    ActPost ipacm_cmd_q_data
  | ActRegistr int nat
  | ActDeregistr nat

record ipacm =
  internal :: MessageQueue
  external :: MessageQueue
  list_head :: "nat option"
  list_nodes :: "nat \<rightharpoonup> cmd_evts"
  fresh :: nat
  ipacm_event_stats :: "int \<Rightarrow> u32"
  called :: "(nat \<times> ipacm_cmd_q_data) list"
  freed :: "nat list"

definition new_ipacm :: ipacm where
  "new_ipacm =
     \<lparr>internal = new_queue, external = new_queue, list_head = None, list_nodes = Map.empty, fresh = 0,
      ipacm_event_stats = (\<lambda>_. 0), called = [], freed = []\<rparr>"

definition is_external :: "ipacm_cmd_q_data \<Rightarrow> bool" where
  "is_external data \<longleftrightarrow> event data < IPA_EXTERNAL_EVENT_MAX"

definition PostEvt :: "ipacm_cmd_q_data \<Rightarrow> ipacm \<Rightarrow> ipacm option" where
  "PostEvt data s =
     (let item = fresh s;
          s1 = s\<lparr>fresh := fresh s + 1\<rparr>;
          alloc = (\<lambda>q. q\<lparr>nodes := (nodes q)(item \<mapsto> \<lparr>m_next = None, evt = data\<rparr>)\<rparr>)
      in if is_external data
         then map_option (\<lambda>q. s1\<lparr>external := q\<rparr>) (enqueue item (alloc (external s1)))
         else map_option (\<lambda>q. s1\<lparr>internal := q\<rparr>) (enqueue item (alloc (internal s1))))"

definition registr :: "int \<Rightarrow> nat \<Rightarrow> ipacm \<Rightarrow> ipacm option" where
  "registr ev obj s =
     (let nw = fresh s;
          s1 = s\<lparr>fresh := fresh s + 1,
                 list_nodes := (list_nodes s)(nw \<mapsto> \<lparr>ce_event = ev, ce_obj = obj, ce_next = None\<rparr>)\<rparr>
      in case list_head s1 of
           None \<Rightarrow> Some (s1\<lparr>list_head := Some nw\<rparr>)
         | Some h \<Rightarrow>
             (case last_node (fresh s1) (list_nodes s1) h of
                None \<Rightarrow> None
              | Some t \<Rightarrow>
                  (case list_nodes s1 t of
                     None \<Rightarrow> None
                   | Some n \<Rightarrow> Some (s1\<lparr>list_nodes := (list_nodes s1)(t \<mapsto> n\<lparr>ce_next := Some nw\<rparr>)\<rparr>))))"

definition deregistr :: "nat \<Rightarrow> ipacm \<Rightarrow> ipacm option" where
  "deregistr param s =
     map_option (\<lambda>(head, mem). s\<lparr>list_head := head, list_nodes := mem\<rparr>)
       (deregistr_loop (fresh s) param (list_head s) (list_head s) (list_head s) (list_nodes s))"

fun do_act :: "listener_act \<Rightarrow> ipacm \<Rightarrow> ipacm option" where
  "do_act (ActPost data) s = PostEvt data s"
| "do_act (ActRegistr ev obj) s = registr ev obj s"
| "do_act (ActDeregistr obj) s = deregistr obj s"

fun do_acts :: "listener_act list \<Rightarrow> ipacm \<Rightarrow> ipacm option" where
  "do_acts [] s = Some s"
| "do_acts (a # as) s = (case do_act a s of None \<Rightarrow> None | Some s' \<Rightarrow> do_acts as s')"

type_synonym listeners = "nat \<Rightarrow> ipacm_cmd_q_data \<Rightarrow> listener_act list"

text \<open>
  The loop of \<open>ProcessEvt\<close> copies the node before it calls back, and goes on with the \<open>next\<close> of the
  copy. Callbacks may lengthen the list; the fuel bounds the nodes visited, running out is \<open>None\<close> too.
\<close>

fun process_loop :: "nat \<Rightarrow> listeners \<Rightarrow> ipacm_cmd_q_data \<Rightarrow> nat option \<Rightarrow> ipacm \<Rightarrow> ipacm option" where
  "process_loop fuel callback data None s = Some s"
| "process_loop 0 callback data (Some tmp) s = None"
| "process_loop (Suc fuel) callback data (Some tmp) s =
     (case list_nodes s tmp of
        None \<Rightarrow> None
      | Some tmp1 \<Rightarrow>
          if event data = ce_event tmp1 then
            (case do_acts (callback (ce_obj tmp1) data)
                    (s\<lparr>ipacm_event_stats := (ipacm_event_stats s)(event data := ipacm_event_stats s (event data) + 1),
                       called := called s @ [(ce_obj tmp1, data)]\<rparr>) of
               None \<Rightarrow> None
             | Some s' \<Rightarrow> process_loop fuel callback data (ce_next tmp1) s')
          else process_loop fuel callback data (ce_next tmp1) s)"

definition ProcessEvt :: "nat \<Rightarrow> listeners \<Rightarrow> ipacm_cmd_q_data \<Rightarrow> ipacm \<Rightarrow> ipacm option" where
  "ProcessEvt fuel callback data s =
     map_option (\<lambda>s'. s'\<lparr>freed := freed s' @ (case evt_data data of None \<Rightarrow> [] | Some p \<Rightarrow> [p])\<rparr>)
       (process_loop fuel callback data (list_head s) s)"

text \<open>One round of \<open>Process\<close>: internal messages first; with both queues empty it waits.\<close>

definition process_item ::
  "nat \<Rightarrow> listeners \<Rightarrow> bool \<Rightarrow> nat \<Rightarrow> ipacm \<Rightarrow> ipacm option" where
  "process_item fuel callback ext item s =
     (case nodes (if ext then external s else internal s) item of
        None \<Rightarrow> None
      | Some m \<Rightarrow>
          map_option
            (\<lambda>s'. if ext then s'\<lparr>external := delete_message item (external s')\<rparr>
                  else s'\<lparr>internal := delete_message item (internal s')\<rparr>)
            (ProcessEvt fuel callback (evt m) s))"

definition Process :: "nat \<Rightarrow> listeners \<Rightarrow> ipacm \<Rightarrow> ipacm option" where
  "Process fuel callback s =
     (case dequeue (internal s) of
        None \<Rightarrow> None
      | Some (Some item, q) \<Rightarrow> process_item fuel callback False item (s\<lparr>internal := q\<rparr>)
      | Some (None, _) \<Rightarrow>
          (case dequeue (external s) of
             None \<Rightarrow> None
           | Some (Some item, q) \<Rightarrow> process_item fuel callback True item (s\<lparr>external := q\<rparr>)
           | Some (None, _) \<Rightarrow> Some s))"

section \<open>Linked lists\<close>

fun linked :: "('n \<Rightarrow> nat option) \<Rightarrow> (nat \<rightharpoonup> 'n) \<Rightarrow> nat option \<Rightarrow> nat list \<Rightarrow> bool" where
  "linked nx mem p [] = (p = None)"
| "linked nx mem p (a # as) =
     (p = Some a \<and> (case mem a of None \<Rightarrow> False | Some n \<Rightarrow> linked nx mem (nx n) as))"

lemma linked_allocated: "linked nx mem p as \<Longrightarrow> a \<in> set as \<Longrightarrow> mem a \<noteq> None"
  by (induction as arbitrary: p) (auto split: option.splits)

lemma linked_frame: "linked nx mem p as \<Longrightarrow> (\<And>a. a \<in> set as \<Longrightarrow> mem' a = mem a) \<Longrightarrow> linked nx mem' p as"
  by (induction as arbitrary: p) (auto split: option.splits)

lemma linked_Some: "linked nx mem (Some a) as \<Longrightarrow> \<exists>bs. as = a # bs"
  by (cases as) auto

lemma linked_head: "linked nx mem p as \<Longrightarrow> p = (case as of [] \<Rightarrow> None | a # _ \<Rightarrow> Some a)"
  by (cases as) auto

text \<open>Changing the last node to point to a new last node.\<close>

lemma linked_extend:
  assumes "linked nx mem p as" and "as \<noteq> []" and "distinct as" and "new \<notin> set as"
    and "mem (last as) = Some n" and "nx n' = Some new" and "mem' (last as) = Some n'"
    and "mem' new = Some m" and "nx m = None"
    and "\<And>a. a \<in> set (butlast as) \<Longrightarrow> mem' a = mem a"
  shows "linked nx mem' p (as @ [new])"
  using assms
proof (induction as arbitrary: p)
  case (Cons a as)
  show ?case
  proof (cases "as = []")
    case True
    with Cons.prems show ?thesis by simp
  next
    case False
    obtain na where na: "mem a = Some na" using Cons.prems(1) by (auto split: option.splits)
    have "linked nx mem' (nx na) (as @ [new])"
      using Cons.IH [of "nx na"] Cons.prems False na by auto
    with Cons.prems False na show ?thesis by auto
  qed
qed simp

section \<open>The queue is first in, first out\<close>

definition content :: "MessageQueue \<Rightarrow> nat list \<Rightarrow> ipacm_cmd_q_data list" where
  "content q as = map (\<lambda>a. case nodes q a of None \<Rightarrow> \<lparr>event = 0, evt_data = None\<rparr> | Some m \<Rightarrow> evt m) as"

text \<open>
  A queue holds a sequence of messages in nodes below a bound. The only other nodes still allocated
  are those of a given set (the message that is being processed has left the queue, but is not yet
  deleted).
\<close>

definition holds :: "MessageQueue \<Rightarrow> nat \<Rightarrow> nat set \<Rightarrow> ipacm_cmd_q_data list \<Rightarrow> bool" where
  "holds q bound avoid ds \<longleftrightarrow>
     (\<exists>as. linked m_next (nodes q) (Head q) as \<and> distinct as \<and> (as = [] \<or> Tail q = Some (last as)) \<and>
           (\<forall>a \<in> set as. a < bound \<and> a \<notin> avoid) \<and> content q as = ds \<and> dom (nodes q) = set as \<union> avoid)"

lemma holds_new: "holds new_queue bound {} []"
  by (simp add: holds_def new_queue_def content_def)

lemma holds_mono: "holds q bound avoid ds \<Longrightarrow> bound \<le> bound' \<Longrightarrow> holds q bound' avoid ds"
  by (fastforce simp: holds_def)

lemma holds_delete:
  assumes "holds q bound {a} ds"
  shows "holds (delete_message a q) bound {} ds"
proof -
  from assms obtain as where as: "linked m_next (nodes q) (Head q) as" "distinct as"
    "as = [] \<or> Tail q = Some (last as)" "\<forall>b \<in> set as. b < bound \<and> b \<notin> {a}" "content q as = ds"
    "dom (nodes q) = set as \<union> {a}"
    by (auto simp: holds_def)
  have "linked m_next ((nodes q)(a := None)) (Head q) as"
    by (rule linked_frame [OF as(1)]) (use as(4) in auto)
  moreover have "content (delete_message a q) as = content q as"
    using as(4) by (auto simp: content_def delete_message_def)
  moreover have "dom ((nodes q)(a := None)) = set as" using as(4,6) by auto
  ultimately show ?thesis
    unfolding holds_def using as(2-5) by (intro exI [of _ as]) (simp add: delete_message_def)
qed

lemma holds_enqueue:
  assumes "holds q bound avoid ds" and avoid: "bound \<notin> avoid"
  shows "\<exists>q'. enqueue bound (q\<lparr>nodes := (nodes q)(bound \<mapsto> \<lparr>m_next = None, evt = d\<rparr>)\<rparr>) = Some q' \<and>
    holds q' (Suc bound) avoid (ds @ [d])"
proof -
  from assms obtain as where as: "linked m_next (nodes q) (Head q) as" "distinct as"
    "as = [] \<or> Tail q = Some (last as)" "\<forall>a \<in> set as. a < bound \<and> a \<notin> avoid" "content q as = ds"
    "dom (nodes q) = set as \<union> avoid"
    by (auto simp: holds_def)
  let ?q = "q\<lparr>nodes := (nodes q)(bound \<mapsto> \<lparr>m_next = None, evt = d\<rparr>)\<rparr>"
  show ?thesis
  proof (cases "as = []")
    case True
    then show ?thesis
      using as avoid by (auto simp: enqueue_def holds_def content_def intro!: exI [of _ "[bound]"])
  next
    case False
    then obtain h where h: "Head q = Some h" using as(1) by (cases as) auto
    obtain n where n: "nodes q (last as) = Some n"
      using linked_allocated [OF as(1), of "last as"] False by auto
    have nb: "bound \<notin> set as" using as(4) by auto
    then have lb: "last as \<noteq> bound" using False last_in_set by metis
    let ?nodes = "(nodes ?q)(last as \<mapsto> n\<lparr>m_next := Some bound\<rparr>)"
    let ?q' = "?q\<lparr>nodes := ?nodes, Tail := Some bound\<rparr>"
    have "enqueue bound ?q = Some ?q'"
      using h as(3) False n lb by (simp add: enqueue_def setnext_def)
    moreover have "holds ?q' (Suc bound) avoid (ds @ [d])"
    proof -
      have "linked m_next ?nodes (Head q) (as @ [bound])"
      proof (rule linked_extend [OF as(1) False as(2) nb n, where n' = "n\<lparr>m_next := Some bound\<rparr>" and
            m = "\<lparr>m_next = None, evt = d\<rparr>"])
        show "?nodes a = nodes q a" if "a \<in> set (butlast as)" for a
        proof -
          have "a \<noteq> last as" using that as(2) False
            by (metis append_butlast_last_id distinct_append disjoint_insert(1) list.set(2))
          moreover have "a \<noteq> bound" using that nb in_set_butlastD by metis
          ultimately show ?thesis by simp
        qed
      qed (use lb in simp_all)
      moreover have "content ?q' as = ds"
        using as(5) nb n by (auto simp: content_def)
      moreover have "content ?q' [bound] = [d]" using lb by (simp add: content_def)
      moreover have "dom ?nodes = set (as @ [bound]) \<union> avoid" using as(6) n lb False by auto
      ultimately show ?thesis
        using as(2,4) nb avoid by (auto simp: holds_def content_def less_Suc_eq intro!: exI [of _ "as @ [bound]"])
    qed
    ultimately show ?thesis by blast
  qed
qed

lemma holds_dequeue_Nil: "holds q bound avoid [] \<Longrightarrow> dequeue q = Some (None, q)"
  by (auto simp: holds_def content_def dequeue_def)

lemma holds_dequeue:
  assumes "holds q bound {} (d # ds)"
  shows "\<exists>a q'. dequeue q = Some (Some a, q') \<and> nodes q' = nodes q \<and> map_option evt (nodes q a) = Some d \<and>
    a < bound \<and> holds q' bound {a} ds"
proof -
  from assms obtain as where as: "linked m_next (nodes q) (Head q) as" "distinct as"
    "as = [] \<or> Tail q = Some (last as)" "\<forall>a \<in> set as. a < bound" "content q as = d # ds"
    "dom (nodes q) = set as"
    by (auto simp: holds_def)
  then obtain a bs where ab: "as = a # bs" by (cases as) (auto simp: content_def)
  from as(1) ab obtain n where n: "Head q = Some a" "nodes q a = Some n" "linked m_next (nodes q) (m_next n) bs"
    by (auto split: option.splits)
  have "holds (q\<lparr>Head := m_next n\<rparr>) bound {a} ds"
    using as ab n by (auto simp: holds_def content_def intro!: exI [of _ bs])
  then show ?thesis
    using n as(4,5) ab by (auto simp: dequeue_def content_def intro!: exI [of _ a])
qed

section \<open>The list of listeners\<close>

definition registrations :: "(nat \<rightharpoonup> cmd_evts) \<Rightarrow> nat list \<Rightarrow> (int \<times> nat) list" where
  "registrations mem as = map (\<lambda>a. case mem a of None \<Rightarrow> (0, 0) | Some n \<Rightarrow> (ce_event n, ce_obj n)) as"

definition listens :: "nat option \<Rightarrow> (nat \<rightharpoonup> cmd_evts) \<Rightarrow> nat \<Rightarrow> nat list \<Rightarrow> (int \<times> nat) list \<Rightarrow> bool" where
  "listens p mem bound as rs \<longleftrightarrow>
     linked ce_next mem p as \<and> distinct as \<and> (\<forall>a \<in> set as. a < bound) \<and> registrations mem as = rs \<and>
     dom mem = set as"

lemma length_below: "distinct as \<Longrightarrow> \<forall>a \<in> set as. a < (bound :: nat) \<Longrightarrow> length as \<le> bound"
proof -
  assume "distinct as" and "\<forall>a \<in> set as. a < bound"
  then have "card (set as) \<le> card {..<bound}" by (intro card_mono) auto
  with \<open>distinct as\<close> show ?thesis by (simp add: distinct_card)
qed

lemma last_node_linked:
  "linked ce_next mem (Some p) as \<Longrightarrow> length as \<le> fuel \<Longrightarrow> last_node fuel mem p = Some (last as)"
proof (induction fuel arbitrary: p as)
  case 0
  then show ?case by (cases as) auto
next
  case (Suc fuel)
  then obtain bs n where as: "as = p # bs" "mem p = Some n" "linked ce_next mem (ce_next n) bs"
    by (cases as) (auto split: option.splits)
  show ?case
  proof (cases bs)
    case Nil
    with as show ?thesis by simp
  next
    case (Cons b cs)
    with as(3) have "ce_next n = Some b" by simp
    with Suc as Cons show ?thesis by (simp del: linked.simps)
  qed
qed

lemma registr_listens:
  assumes "listens (list_head s) (list_nodes s) (fresh s) as rs"
  shows "\<exists>s'. registr ev obj s = Some s' \<and>
    listens (list_head s') (list_nodes s') (fresh s') (as @ [fresh s]) (rs @ [(ev, obj)]) \<and>
    s' = s\<lparr>list_head := list_head s', list_nodes := list_nodes s', fresh := Suc (fresh s)\<rparr>"
proof -
  let ?nw = "fresh s"
  let ?node = "\<lparr>ce_event = ev, ce_obj = obj, ce_next = None\<rparr>"
  let ?mem = "(list_nodes s)(?nw \<mapsto> ?node)"
  from assms have as: "linked ce_next (list_nodes s) (list_head s) as" "distinct as"
    "\<forall>a \<in> set as. a < fresh s" "registrations (list_nodes s) as = rs" "dom (list_nodes s) = set as"
    by (simp_all add: listens_def)
  have nw: "?nw \<notin> set as" using as(3) by auto
  have frame: "linked ce_next ?mem (list_head s) as" by (rule linked_frame [OF as(1)]) (use nw in auto)
  have reg: "registrations ?mem as = rs" using as(4) nw by (auto simp: registrations_def)
  show ?thesis
  proof (cases "as = []")
    case True
    with as(1,4,5) show ?thesis by (auto simp: registr_def Let_def listens_def registrations_def)
  next
    case False
    then obtain h where h: "list_head s = Some h" using as(1) by (cases as) auto
    have last: "last_node (Suc (fresh s)) ?mem h = Some (last as)"
      using frame h length_below [OF as(2,3)] by (intro last_node_linked) simp_all
    have ln: "last as \<noteq> ?nw" using False nw last_in_set by metis
    obtain n where n: "list_nodes s (last as) = Some n"
      using linked_allocated [OF as(1), of "last as"] False by auto
    let ?mem' = "?mem(last as \<mapsto> n\<lparr>ce_next := Some ?nw\<rparr>)"
    have eq: "registr ev obj s = Some (s\<lparr>fresh := Suc (fresh s), list_nodes := ?mem'\<rparr>)"
      using h last n ln by (simp add: registr_def Let_def del: last_node.simps)
    have "linked ce_next ?mem' (list_head s) (as @ [?nw])"
    proof (rule linked_extend [OF as(1) False as(2) nw n, where n' = "n\<lparr>ce_next := Some ?nw\<rparr>" and m = ?node])
      show "?mem' a = list_nodes s a" if "a \<in> set (butlast as)" for a
      proof -
        have "a \<noteq> last as" using that as(2) False
          by (metis append_butlast_last_id distinct_append disjoint_insert(1) list.set(2))
        moreover have "a \<noteq> ?nw" using that nw in_set_butlastD by metis
        ultimately show ?thesis by simp
      qed
    qed (use ln in simp_all)
    moreover have "registrations ?mem' (as @ [?nw]) = rs @ [(ev, obj)]"
      using as(4) nw n ln by (auto simp: registrations_def)
    moreover have "dom ?mem' = set (as @ [?nw])" using as(5) n ln False by auto
    ultimately show ?thesis
      using eq as(2,3) nw by (auto simp: listens_def less_Suc_eq intro!: exI [of _ "s\<lparr>fresh := Suc (fresh s), list_nodes := ?mem'\<rparr>"])
  qed
qed

lemma linked_bridge:
  assumes "linked nx mem p (as @ x # bs)" and "as \<noteq> []" and "distinct (as @ x # bs)"
    and "mem (last as) = Some n" and "mem x = Some nxt" and "nx n' = nx nxt"
  shows "linked nx ((mem(last as \<mapsto> n'))(x := None)) p (as @ bs)"
  using assms
proof (induction as arbitrary: p)
  case (Cons a as)
  obtain na where na: "mem a = Some na" using Cons.prems(1) by (auto split: option.splits)
  have rest: "linked nx mem (nx na) (as @ x # bs)" using Cons.prems(1) na by simp
  show ?case
  proof (cases "as = []")
    case True
    with rest Cons.prems na have "linked nx mem (nx nxt) bs" by (auto split: option.splits)
    then have "linked nx ((mem(a \<mapsto> n'))(x := None)) (nx nxt) bs"
      by (rule linked_frame) (use Cons.prems(3) True in auto)
    with True Cons.prems na show ?thesis by (auto simp: fun_upd_def)
  next
    case False
    let ?mem = "(mem(last as \<mapsto> n'))(x := None)"
    have tail: "linked nx ?mem (nx na) (as @ bs)"
      by (rule Cons.IH [OF rest False]) (use Cons.prems False in auto)
    have "?mem a = Some na" using Cons.prems(3) False na by auto
    moreover have "p = Some a" using Cons.prems(1) by simp
    moreover have "last (a # as) = last as" using False by simp
    ultimately show ?thesis using tail by (simp only: append_Cons linked.simps option.case)
  qed
qed simp

lemma registrations_update:
  "mem a = Some n \<Longrightarrow> ce_event n' = ce_event n \<Longrightarrow> ce_obj n' = ce_obj n \<Longrightarrow> x \<notin> set as \<Longrightarrow>
   registrations ((mem(a \<mapsto> n'))(x := None)) as = registrations mem as"
  by (auto simp: registrations_def)

lemma registrations_delete: "x \<notin> set as \<Longrightarrow> registrations (mem(x := None)) as = registrations mem as"
  by (auto simp: registrations_def)

lemma registrations_append: "registrations mem (as @ bs) = registrations mem as @ registrations mem bs"
  by (simp add: registrations_def)

definition keeps :: "(nat \<rightharpoonup> cmd_evts) \<Rightarrow> nat \<Rightarrow> nat \<Rightarrow> bool" where
  "keeps mem param x = (case mem x of None \<Rightarrow> False | Some n \<Rightarrow> ce_obj n \<noteq> param)"

lemma registrations_keeps:
  "set as \<subseteq> dom mem \<Longrightarrow>
   registrations mem (filter (keeps mem param) as) = filter (\<lambda>(e, ob). ob \<noteq> param) (registrations mem as)"
  by (induction as) (auto simp: registrations_def keeps_def)

lemma linked_follow:
  "linked nx mem p (as @ x # bs) \<Longrightarrow> mem x = Some n \<Longrightarrow> nx n = (case bs of [] \<Rightarrow> None | a # _ \<Rightarrow> Some a)"
proof (induction as arbitrary: p)
  case Nil
  then show ?case using linked_head by fastforce
qed (auto split: option.splits)

text \<open>
  The loop of \<open>deregistr\<close> in the middle: the nodes it has kept, ending in \<open>prev\<close>, then those to come.
\<close>

lemma deregistr_loop_linked:
  assumes "linked ce_next mem head (kept @ rest)" and "distinct (kept @ rest)" and "length rest \<le> fuel"
    and "tmp = (case rest of [] \<Rightarrow> None | a # _ \<Rightarrow> Some a)" and "kept = [] \<or> prev = Some (last kept)"
  shows "\<exists>head' mem'. deregistr_loop fuel param prev tmp head mem = Some (head', mem') \<and>
    linked ce_next mem' head' (kept @ filter (keeps mem param) rest) \<and>
    registrations mem' (kept @ filter (keeps mem param) rest) = registrations mem (kept @ filter (keeps mem param) rest) \<and>
    dom mem' = dom mem - {x \<in> set rest. \<not> keeps mem param x}"
  using assms
proof (induction rest arbitrary: fuel kept prev tmp head mem)
  case Nil
  then show ?case by simp
next
  case (Cons x rest)
  obtain fuel' where fuel: "fuel = Suc fuel'" using Cons.prems(3) by (cases fuel) auto
  have tmp: "tmp = Some x" using Cons.prems(4) by simp
  obtain n where n: "mem x = Some n" using linked_allocated [OF Cons.prems(1), of x] by auto
  note follow = linked_follow [OF Cons.prems(1) n]
  have x: "x \<notin> set kept" "x \<notin> set rest" using Cons.prems(2) by auto
  show ?case
  proof (cases "ce_obj n = param")
    case False
    have "\<exists>head' mem'. deregistr_loop fuel' param (Some x) (ce_next n) head mem = Some (head', mem') \<and>
        linked ce_next mem' head' ((kept @ [x]) @ filter (keeps mem param) rest) \<and>
        registrations mem' ((kept @ [x]) @ filter (keeps mem param) rest) =
          registrations mem ((kept @ [x]) @ filter (keeps mem param) rest) \<and>
        dom mem' = dom mem - {y \<in> set rest. \<not> keeps mem param y}"
      by (rule Cons.IH) (use Cons.prems fuel follow in simp_all)
    moreover have "keeps mem param x" using n False by (simp add: keeps_def)
    ultimately show ?thesis using False n by (auto simp: fuel tmp)
  next
    case del: True
    then have gone: "\<not> keeps mem param x" using n by (simp add: keeps_def)
    show ?thesis
    proof (cases "kept = []")
      case True
      let ?mem = "mem(x := None)"
      have hd: "head = Some x" using Cons.prems(1) True by simp
      have l: "linked ce_next ?mem (ce_next n) rest"
        by (rule linked_frame [of _ mem]) (use Cons.prems(1,2) True n in auto)
      have "keeps ?mem param y = keeps mem param y" if "y \<in> set rest" for y
        using that x by (cases "y = x") (auto simp: keeps_def)
      then have same: "filter (keeps ?mem param) rest = filter (keeps mem param) rest"
        "{y \<in> set rest. \<not> keeps ?mem param y} = {y \<in> set rest. \<not> keeps mem param y}"
        by (auto cong: filter_cong)
      have "\<exists>head' mem'. deregistr_loop fuel' param prev (ce_next n) (ce_next n) ?mem = Some (head', mem') \<and>
          linked ce_next mem' head' ([] @ filter (keeps ?mem param) rest) \<and>
          registrations mem' ([] @ filter (keeps ?mem param) rest) =
            registrations ?mem ([] @ filter (keeps ?mem param) rest) \<and>
          dom mem' = dom ?mem - {y \<in> set rest. \<not> keeps ?mem param y}"
        by (rule Cons.IH) (use Cons.prems l fuel follow in \<open>simp_all add: fun_upd_def\<close>)
      moreover have "registrations ?mem (filter (keeps mem param) rest) = registrations mem (filter (keeps mem param) rest)"
        using x by (intro registrations_delete) simp
      moreover have "dom ?mem - {y \<in> set rest. \<not> keeps mem param y} =
          dom mem - {y \<in> set (x # rest). \<not> keeps mem param y}"
        using gone by auto
      ultimately show ?thesis using del n hd True gone by (simp add: fuel tmp same)
    next
      case False
      have prev: "prev = Some (last kept)" using Cons.prems(5) False by simp
      have nhd: "head \<noteq> Some x" using Cons.prems(1,2) False by (cases kept) auto
      obtain pn where pn: "mem (last kept) = Some pn"
        using linked_allocated [OF Cons.prems(1), of "last kept"] False by auto
      let ?mem = "(mem(last kept \<mapsto> pn\<lparr>ce_next := ce_next n\<rparr>))(x := None)"
      have l: "linked ce_next ?mem head (kept @ rest)"
        by (rule linked_bridge [OF Cons.prems(1) False Cons.prems(2) pn n]) simp
      have last: "last kept \<notin> set rest" "last kept \<noteq> x"
        using x Cons.prems(2) last_in_set [OF False] by (auto simp: disjoint_iff simp del: last_in_set)
      have "keeps ?mem param y = keeps mem param y" if "y \<in> set rest" for y
        using that x last by (cases "y = x") (auto simp: keeps_def)
      then have same: "filter (keeps ?mem param) rest = filter (keeps mem param) rest"
        "{y \<in> set rest. \<not> keeps ?mem param y} = {y \<in> set rest. \<not> keeps mem param y}"
        by (auto cong: filter_cong)
      have "\<exists>head' mem'. deregistr_loop fuel' param prev (ce_next n) head ?mem = Some (head', mem') \<and>
          linked ce_next mem' head' (kept @ filter (keeps ?mem param) rest) \<and>
          registrations mem' (kept @ filter (keeps ?mem param) rest) =
            registrations ?mem (kept @ filter (keeps ?mem param) rest) \<and>
          dom mem' = dom ?mem - {y \<in> set rest. \<not> keeps ?mem param y}"
        by (rule Cons.IH) (use Cons.prems l fuel follow prev in \<open>simp_all add: fun_upd_def\<close>)
      moreover have "registrations ?mem (kept @ filter (keeps mem param) rest) =
          registrations mem (kept @ filter (keeps mem param) rest)"
        using pn x by (intro registrations_update) auto
      moreover have "dom ?mem - {y \<in> set rest. \<not> keeps mem param y} =
          dom mem - {y \<in> set (x # rest). \<not> keeps mem param y}"
        using gone last pn by auto
      ultimately show ?thesis using del n nhd pn gone by (simp add: fuel tmp prev same)
    qed
  qed
qed

lemma deregistr_listens:
  assumes "listens (list_head s) (list_nodes s) (fresh s) as rs"
  shows "\<exists>s'. deregistr obj s = Some s' \<and>
    listens (list_head s') (list_nodes s') (fresh s') (filter (keeps (list_nodes s) obj) as)
      (filter (\<lambda>(e, ob). ob \<noteq> obj) rs) \<and>
    s' = s\<lparr>list_head := list_head s', list_nodes := list_nodes s'\<rparr>"
proof -
  let ?mem = "list_nodes s"
  from assms have as: "linked ce_next ?mem (list_head s) as" "distinct as"
    "\<forall>a \<in> set as. a < fresh s" "registrations ?mem as = rs" "dom ?mem = set as"
    by (simp_all add: listens_def)
  have dom: "dom ?mem - {x \<in> set as. \<not> keeps ?mem obj x} = set (filter (keeps ?mem obj) as)"
    using as(5) by auto
  have "\<exists>head' mem'. deregistr_loop (fresh s) obj (list_head s) (list_head s) (list_head s) ?mem = Some (head', mem') \<and>
    linked ce_next mem' head' ([] @ filter (keeps ?mem obj) as) \<and>
    registrations mem' ([] @ filter (keeps ?mem obj) as) = registrations ?mem ([] @ filter (keeps ?mem obj) as) \<and>
    dom mem' = dom ?mem - {x \<in> set as. \<not> keeps ?mem obj x}"
    by (rule deregistr_loop_linked) (use as length_below [OF as(2,3)] linked_head [OF as(1)] in simp_all)
  then obtain head' mem' where
    d: "deregistr_loop (fresh s) obj (list_head s) (list_head s) (list_head s) ?mem = Some (head', mem')"
      "linked ce_next mem' head' (filter (keeps ?mem obj) as)"
      "registrations mem' (filter (keeps ?mem obj) as) = filter (\<lambda>(e, ob). ob \<noteq> obj) rs"
      "dom mem' = set (filter (keeps ?mem obj) as)"
    unfolding dom using as(4,5) by (simp add: registrations_keeps) blast
  with as(2,3) show ?thesis by (auto simp: deregistr_def listens_def)
qed

end
