(* ===== verification/EventLoop.thy ===== *)
theory EventLoop
  imports EventQueue
begin

text \<open>
  The event loop of \<open>EventQueue\<close> against its abstract counterpart on lists, where a callback may do
  anything: a simulation of every operation, the conditions under which a round is safe, and the
  properties of the loop.
\<close>

section \<open>The event loop on lists\<close>

text \<open>
  What the loop does, without pointers: two sequences of events, a sequence of registrations. A
  round takes the first internal event, or else the first external one, and goes through the
  registrations by position. What it keeps across a callback is the next position: registrations
  removed before it move it, and when its own registration is removed it dangles.
\<close>

record abs_ipacm =
  a_internal :: "ipacm_cmd_q_data list"
  a_external :: "ipacm_cmd_q_data list"
  a_listeners :: "(int \<times> nat) list"
  a_called :: "(nat \<times> ipacm_cmd_q_data) list"
  a_freed :: "nat list"

datatype cursor = AtEnd | AtListener nat | Dangling

definition a_new :: abs_ipacm where
  "a_new = \<lparr>a_internal = [], a_external = [], a_listeners = [], a_called = [], a_freed = []\<rparr>"

definition a_post :: "ipacm_cmd_q_data \<Rightarrow> abs_ipacm \<Rightarrow> abs_ipacm" where
  "a_post d a =
     (if is_external d then a\<lparr>a_external := a_external a @ [d]\<rparr> else a\<lparr>a_internal := a_internal a @ [d]\<rparr>)"

definition others :: "nat \<Rightarrow> (int \<times> nat) list \<Rightarrow> (int \<times> nat) list" where
  "others obj = filter (\<lambda>(e, ob). ob \<noteq> obj)"

fun a_act :: "listener_act \<Rightarrow> abs_ipacm \<times> cursor \<Rightarrow> abs_ipacm \<times> cursor" where
  "a_act (ActPost d) (a, c) = (a_post d a, c)"
| "a_act (ActRegistr ev obj) (a, c) = (a\<lparr>a_listeners := a_listeners a @ [(ev, obj)]\<rparr>, c)"
| "a_act (ActDeregistr obj) (a, c) =
     (a\<lparr>a_listeners := others obj (a_listeners a)\<rparr>,
      case c of
        AtListener k \<Rightarrow>
          if snd (a_listeners a ! k) = obj then Dangling
          else AtListener (length (others obj (take k (a_listeners a))))
      | _ \<Rightarrow> c)"

fun a_loop :: "nat \<Rightarrow> listeners \<Rightarrow> ipacm_cmd_q_data \<Rightarrow> cursor \<Rightarrow> abs_ipacm \<Rightarrow> abs_ipacm option" where
  "a_loop fuel callback d AtEnd a = Some a"
| "a_loop fuel callback d Dangling a = None"
| "a_loop 0 callback d (AtListener i) a = None"
| "a_loop (Suc fuel) callback d (AtListener i) a =
     (let (e, obj) = a_listeners a ! i;
          c = (if Suc i < length (a_listeners a) then AtListener (Suc i) else AtEnd)
      in if event d = e then
           (let (a', c') = fold a_act (callback obj d) (a\<lparr>a_called := a_called a @ [(obj, d)]\<rparr>, c)
            in a_loop fuel callback d c' a')
         else a_loop fuel callback d c a)"

definition a_dispatch :: "nat \<Rightarrow> listeners \<Rightarrow> ipacm_cmd_q_data \<Rightarrow> abs_ipacm \<Rightarrow> abs_ipacm option" where
  "a_dispatch fuel callback d a =
     map_option (\<lambda>a'. a'\<lparr>a_freed := a_freed a' @ (case evt_data d of None \<Rightarrow> [] | Some p \<Rightarrow> [p])\<rparr>)
       (a_loop fuel callback d (if a_listeners a = [] then AtEnd else AtListener 0) a)"

definition a_process :: "nat \<Rightarrow> listeners \<Rightarrow> abs_ipacm \<Rightarrow> abs_ipacm option" where
  "a_process fuel callback a =
     (case (a_internal a, a_external a) of
        (d # ds, _) \<Rightarrow> a_dispatch fuel callback d (a\<lparr>a_internal := ds\<rparr>)
      | ([], d # ds) \<Rightarrow> a_dispatch fuel callback d (a\<lparr>a_external := ds\<rparr>)
      | ([], []) \<Rightarrow> Some a)"

section \<open>The simulation\<close>

definition rep :: "nat set \<Rightarrow> nat set \<Rightarrow> nat list \<Rightarrow> ipacm \<Rightarrow> abs_ipacm \<Rightarrow> bool" where
  "rep xi xe as s a \<longleftrightarrow>
     holds (internal s) (fresh s) xi (a_internal a) \<and> holds (external s) (fresh s) xe (a_external a) \<and>
     (\<forall>x \<in> xi \<union> xe. x < fresh s) \<and>
     listens (list_head s) (list_nodes s) (fresh s) as (a_listeners a) \<and>
     called s = a_called a \<and> freed s = a_freed a"

lemma listens_mono: "listens p mem bound as rs \<Longrightarrow> bound \<le> bound' \<Longrightarrow> listens p mem bound' as rs"
  by (fastforce simp: listens_def)

lemma rep_new: "rep {} {} [] new_ipacm a_new"
  by (simp add: rep_def new_ipacm_def a_new_def holds_new listens_def registrations_def)

lemma rep_post:
  assumes "rep xi xe as s a"
  shows "\<exists>s'. PostEvt d s = Some s' \<and> fresh s' = Suc (fresh s) \<and> rep xi xe as s' (a_post d a)"
proof -
  from assms have fr: "fresh s \<notin> xi" "fresh s \<notin> xe" by (auto simp: rep_def)
  from assms have "listens (list_head s) (list_nodes s) (fresh s) as (a_listeners a)"
    by (auto simp: rep_def)
  then have l: "listens (list_head s) (list_nodes s) (Suc (fresh s)) as (a_listeners a)"
    by (rule listens_mono) simp
  have more: "\<forall>x \<in> xi \<union> xe. x < Suc (fresh s)" using assms by (auto simp: rep_def less_Suc_eq)
  show ?thesis
  proof (cases "is_external d")
    case True
    from holds_enqueue [of "external s" "fresh s" xe "a_external a" d] assms fr
    obtain q where q: "enqueue (fresh s) ((external s)\<lparr>nodes := (nodes (external s))(fresh s \<mapsto> \<lparr>m_next = None, evt = d\<rparr>)\<rparr>) = Some q"
      "holds q (Suc (fresh s)) xe (a_external a @ [d])" by (auto simp: rep_def)
    with True l more assms holds_mono [of "internal s" "fresh s" xi _ "Suc (fresh s)"] show ?thesis
      by (auto simp: PostEvt_def Let_def rep_def a_post_def)
  next
    case False
    from holds_enqueue [of "internal s" "fresh s" xi "a_internal a" d] assms fr
    obtain q where q: "enqueue (fresh s) ((internal s)\<lparr>nodes := (nodes (internal s))(fresh s \<mapsto> \<lparr>m_next = None, evt = d\<rparr>)\<rparr>) = Some q"
      "holds q (Suc (fresh s)) xi (a_internal a @ [d])" by (auto simp: rep_def)
    with False l more assms holds_mono [of "external s" "fresh s" xe _ "Suc (fresh s)"] show ?thesis
      by (auto simp: PostEvt_def Let_def rep_def a_post_def)
  qed
qed

lemma rep_registr:
  assumes "rep xi xe as s a"
  shows "\<exists>s'. registr ev obj s = Some s' \<and> fresh s' = Suc (fresh s) \<and>
    rep xi xe (as @ [fresh s]) s' (a\<lparr>a_listeners := a_listeners a @ [(ev, obj)]\<rparr>)"
proof -
  from assms have "listens (list_head s) (list_nodes s) (fresh s) as (a_listeners a)"
    by (auto simp: rep_def)
  from registr_listens [OF this, of ev obj] obtain s' where
    s': "registr ev obj s = Some s'"
      "listens (list_head s') (list_nodes s') (fresh s') (as @ [fresh s]) (a_listeners a @ [(ev, obj)])"
      "s' = s\<lparr>list_head := list_head s', list_nodes := list_nodes s', fresh := Suc (fresh s)\<rparr>"
    by blast
  have f: "internal s' = internal s" "external s' = external s" "called s' = called s" "freed s' = freed s"
    "fresh s' = Suc (fresh s)"
    by (subst s'(3), simp)+
  have "rep xi xe (as @ [fresh s]) s' (a\<lparr>a_listeners := a_listeners a @ [(ev, obj)]\<rparr>)"
    using assms s'(2) holds_mono [of "internal s" "fresh s" xi _ "Suc (fresh s)"]
      holds_mono [of "external s" "fresh s" xe _ "Suc (fresh s)"]
    by (auto simp: rep_def f less_Suc_eq)
  with s'(1) f(5) show ?thesis by blast
qed

lemma rep_deregistr:
  assumes "rep xi xe as s a"
  shows "\<exists>s'. deregistr obj s = Some s' \<and> fresh s' = fresh s \<and>
    rep xi xe (filter (keeps (list_nodes s) obj) as) s' (a\<lparr>a_listeners := others obj (a_listeners a)\<rparr>)"
proof -
  from assms have "listens (list_head s) (list_nodes s) (fresh s) as (a_listeners a)"
    by (auto simp: rep_def)
  from deregistr_listens [OF this, of obj] obtain s' where
    s': "deregistr obj s = Some s'"
      "listens (list_head s') (list_nodes s') (fresh s') (filter (keeps (list_nodes s) obj) as)
        (others obj (a_listeners a))"
      "s' = s\<lparr>list_head := list_head s', list_nodes := list_nodes s'\<rparr>"
    unfolding others_def by blast
  have f: "internal s' = internal s" "external s' = external s" "called s' = called s" "freed s' = freed s"
    "fresh s' = fresh s"
    by (subst s'(3), simp)+
  have "rep xi xe (filter (keeps (list_nodes s) obj) as) s' (a\<lparr>a_listeners := others obj (a_listeners a)\<rparr>)"
    using assms s'(2) by (simp add: rep_def f)
  with s'(1) f(5) show ?thesis by blast
qed

lemma linked_nth:
  "linked nx mem p as \<Longrightarrow> i < length as \<Longrightarrow>
   \<exists>n. mem (as ! i) = Some n \<and> nx n = (if Suc i < length as then Some (as ! Suc i) else None)"
proof (induction as arbitrary: p i)
  case (Cons a as)
  then obtain n where n: "mem a = Some n" "linked nx mem (nx n) as" by (auto split: option.splits)
  show ?case
  proof (cases i)
    case 0
    with n show ?thesis by (cases as) auto
  next
    case (Suc j)
    with Cons.IH [OF n(2), of j] Cons.prems(2) show ?thesis by (cases "Suc j < length as") auto
  qed
qed simp

lemma rep_node:
  assumes "rep xi xe as s a" and "i < length as"
  shows "\<exists>n. list_nodes s (as ! i) = Some n \<and> a_listeners a ! i = (ce_event n, ce_obj n) \<and>
    ce_next n = (if Suc i < length as then Some (as ! Suc i) else None)"
proof -
  have l: "linked ce_next (list_nodes s) (list_head s) as" "registrations (list_nodes s) as = a_listeners a"
    using assms(1) by (simp_all add: rep_def listens_def)
  from linked_nth [OF l(1) assms(2)] l(2) [symmetric] assms(2) show ?thesis
    by (auto simp: registrations_def)
qed

lemma rep_length: "rep xi xe as s a \<Longrightarrow> length (a_listeners a) = length as"
  unfolding rep_def listens_def registrations_def by (metis length_map)

text \<open>The pointer the loop of \<open>ProcessEvt\<close> goes on with, and the position it stands for.\<close>

fun points :: "nat list \<Rightarrow> nat \<Rightarrow> nat option \<Rightarrow> cursor \<Rightarrow> bool" where
  "points as bound p AtEnd \<longleftrightarrow> p = None"
| "points as bound p (AtListener k) \<longleftrightarrow> k < length as \<and> p = Some (as ! k)"
| "points as bound p Dangling \<longleftrightarrow> (\<exists>x. p = Some x \<and> x < bound \<and> x \<notin> set as)"

lemma points_mono: "points as bound p c \<Longrightarrow> bound \<le> bound' \<Longrightarrow> points as bound' p c"
  by (cases c) auto

lemma points_append: "points as bound p c \<Longrightarrow> bound \<le> x \<Longrightarrow> points (as @ [x]) (Suc x) p c"
  by (cases c) (auto simp: nth_append)

lemma keeps_length:
  "map g as = rs \<Longrightarrow> (\<And>x. x \<in> set as \<Longrightarrow> P x = (snd (g x) \<noteq> obj)) \<Longrightarrow>
   length (filter P as) = length (others obj rs)"
  by (induction as arbitrary: rs) (auto simp: others_def split: prod.splits)

lemma nth_filter_take:
  "k < length as \<Longrightarrow> P (as ! k) \<Longrightarrow>
   length (filter P (take k as)) < length (filter P as) \<and> filter P as ! length (filter P (take k as)) = as ! k"
proof (induction as arbitrary: k)
  case (Cons a as)
  then show ?case by (cases k) auto
qed simp

lemma rep_keeps:
  assumes "rep xi xe as s a" and "x \<in> set as"
  shows "keeps (list_nodes s) obj x = (snd (case list_nodes s x of None \<Rightarrow> (0, 0) | Some n \<Rightarrow> (ce_event n, ce_obj n)) \<noteq> obj)"
proof -
  have "linked ce_next (list_nodes s) (list_head s) as" using assms(1) by (simp add: rep_def listens_def)
  then have "list_nodes s x \<noteq> None" using assms(2) by (rule linked_allocated)
  then show ?thesis by (auto simp: keeps_def)
qed

lemma points_deregistr:
  assumes r: "rep xi xe as s a" and p: "points as (fresh s) p c"
  shows "points (filter (keeps (list_nodes s) obj) as) (fresh s) p (snd (a_act (ActDeregistr obj) (a, c)))"
proof (cases c)
  case (AtListener k)
  let ?K = "keeps (list_nodes s) obj"
  from p AtListener have k: "k < length as" "p = Some (as ! k)" by simp_all
  from rep_node [OF r k(1)] obtain n where n: "list_nodes s (as ! k) = Some n"
    "a_listeners a ! k = (ce_event n, ce_obj n)" by blast
  have below: "as ! k < fresh s" using r k(1) by (auto simp: rep_def listens_def)
  have regs: "a_listeners a = map (\<lambda>x. case list_nodes s x of None \<Rightarrow> (0, 0) | Some n \<Rightarrow> (ce_event n, ce_obj n)) as"
    using r by (auto simp: rep_def listens_def registrations_def)
  show ?thesis
  proof (cases "ce_obj n = obj")
    case True
    then have "\<not> ?K (as ! k)" using n by (simp add: keeps_def)
    with True n k below AtListener show ?thesis by simp
  next
    case False
    then have "?K (as ! k)" using n by (simp add: keeps_def)
    moreover have "length (others obj (take k (a_listeners a))) = length (filter ?K (take k as))"
      by (rule sym, rule keeps_length [OF sym]) (auto simp: regs take_map rep_keeps [OF r] dest: in_set_takeD)
    ultimately show ?thesis using False n k AtListener nth_filter_take [of k as ?K] by simp
  qed
qed (use p in auto)

lemma rep_act:
  assumes r: "rep xi xe as s a" and p: "points as (fresh s) p c"
  shows "\<exists>s' as' a' c'. do_act act s = Some s' \<and> a_act act (a, c) = (a', c') \<and> rep xi xe as' s' a' \<and>
    points as' (fresh s') p c'"
proof (cases act)
  case (ActPost d)
  from rep_post [OF r, of d] points_mono [OF p, of "Suc (fresh s)"] ActPost show ?thesis by fastforce
next
  case (ActRegistr ev obj)
  from rep_registr [OF r, of ev obj] points_append [OF p, of "fresh s"] ActRegistr show ?thesis by fastforce
next
  case (ActDeregistr obj)
  from rep_deregistr [OF r, of obj] points_deregistr [OF r p, of obj] ActDeregistr show ?thesis by fastforce
qed

lemma rep_acts:
  assumes "rep xi xe as s a" and "points as (fresh s) p c"
  shows "\<exists>s' as' a' c'. do_acts acts s = Some s' \<and> fold a_act acts (a, c) = (a', c') \<and> rep xi xe as' s' a' \<and>
    points as' (fresh s') p c'"
  using assms
proof (induction acts arbitrary: s a as c)
  case (Cons act acts)
  from rep_act [OF Cons.prems, of act] obtain s1 as1 a1 c1 where
    s1: "do_act act s = Some s1" "a_act act (a, c) = (a1, c1)" "rep xi xe as1 s1 a1" "points as1 (fresh s1) p c1"
    by blast
  from Cons.IH [OF s1(3,4)] s1(1,2) show ?case by simp
qed auto

definition sim :: "nat set \<Rightarrow> nat set \<Rightarrow> ipacm option \<Rightarrow> abs_ipacm option \<Rightarrow> bool" where
  "sim xi xe = rel_option (\<lambda>s a. \<exists>as. rep xi xe as s a)"

lemma sim_simps [simp]:
  "sim xi xe (Some s) (Some a) = (\<exists>as. rep xi xe as s a)" "sim xi xe None None"
  "\<not> sim xi xe (Some s) None" "\<not> sim xi xe None (Some a)"
  by (simp_all add: sim_def)

lemma sim_cases:
  "sim xi xe x y \<Longrightarrow> (x = None \<and> y = None \<Longrightarrow> P) \<Longrightarrow>
   (\<And>s a as. x = Some s \<Longrightarrow> y = Some a \<Longrightarrow> rep xi xe as s a \<Longrightarrow> P) \<Longrightarrow> P"
  by (cases x; cases y) auto

lemma sim_loop:
  assumes "rep xi xe as s a" and "points as (fresh s) p c"
  shows "sim xi xe (process_loop fuel callback d p s) (a_loop fuel callback d c a)"
  using assms
proof (induction fuel arbitrary: p c s a as)
  case 0
  then show ?case by (cases c) auto
next
  case (Suc fuel)
  note len = rep_length [OF Suc.prems(1)]
  show ?case
  proof (cases c)
    case AtEnd
    with Suc.prems show ?thesis by auto
  next
    case Dangling
    with Suc.prems obtain x where x: "p = Some x" "x \<notin> set as" by auto
    moreover have "dom (list_nodes s) = set as" using Suc.prems(1) by (simp add: rep_def listens_def)
    ultimately have "list_nodes s x = None" by auto
    with x Dangling show ?thesis by simp
  next
    case (AtListener i)
    with Suc.prems(2) have i: "i < length as" "p = Some (as ! i)" by simp_all
    from rep_node [OF Suc.prems(1) i(1)] obtain n where
      n: "list_nodes s (as ! i) = Some n" "a_listeners a ! i = (ce_event n, ce_obj n)"
        "ce_next n = (if Suc i < length as then Some (as ! Suc i) else None)" by blast
    let ?c = "if Suc i < length (a_listeners a) then AtListener (Suc i) else AtEnd"
    have c: "points as (fresh s) (ce_next n) ?c" using n(3) len by simp
    show ?thesis
    proof (cases "event d = ce_event n")
      case True
      let ?s = "s\<lparr>ipacm_event_stats := (ipacm_event_stats s)(event d := ipacm_event_stats s (event d) + 1),
                  called := called s @ [(ce_obj n, d)]\<rparr>"
      let ?a = "a\<lparr>a_called := a_called a @ [(ce_obj n, d)]\<rparr>"
      have "rep xi xe as ?s ?a" using Suc.prems(1) by (simp add: rep_def)
      from rep_acts [OF this, of "ce_next n" ?c "callback (ce_obj n) d"] c obtain s' as' a' c' where
        "do_acts (callback (ce_obj n) d) ?s = Some s'" "fold a_act (callback (ce_obj n) d) (?a, ?c) = (a', c')"
        "rep xi xe as' s' a'" "points as' (fresh s') (ce_next n) c'" by auto
      with Suc.IH [of as' s' a' "ce_next n" c'] True n(1,2) i(2) AtListener show ?thesis by simp
    next
      case False
      with Suc.IH [OF Suc.prems(1) c] n(1,2) i(2) AtListener show ?thesis by simp
    qed
  qed
qed

lemma sim_ProcessEvt:
  assumes "rep xi xe as s a"
  shows "sim xi xe (ProcessEvt fuel callback d s) (a_dispatch fuel callback d a)"
proof -
  have "points as (fresh s) (list_head s) (if a_listeners a = [] then AtEnd else AtListener 0)"
    using assms linked_head [of ce_next "list_nodes s" "list_head s" as] rep_length [OF assms]
    by (cases as) (auto simp: rep_def listens_def)
  from sim_loop [OF assms this, of fuel callback d] show ?thesis
    unfolding ProcessEvt_def a_dispatch_def
    by (auto elim!: sim_cases intro!: exI simp: rep_def)
qed

lemma rep_delete:
  "rep {x} xe as s a \<Longrightarrow> rep {} xe as (s\<lparr>internal := delete_message x (internal s)\<rparr>) a"
  "rep xi {x} as s a \<Longrightarrow> rep xi {} as (s\<lparr>external := delete_message x (external s)\<rparr>) a"
  by (auto simp: rep_def intro: holds_delete)

lemma sim_Process:
  assumes r: "rep {} {} as s a"
  shows "sim {} {} (Process fuel callback s) (a_process fuel callback a)"
proof -
  have h: "holds (internal s) (fresh s) {} (a_internal a)" "holds (external s) (fresh s) {} (a_external a)"
    using r by (simp_all add: rep_def)
  show ?thesis
  proof (cases "a_internal a")
    case (Cons d ds)
    with holds_dequeue [of "internal s" "fresh s" d ds] h obtain x q where
      q: "dequeue (internal s) = Some (Some x, q)" "nodes q = nodes (internal s)"
        "map_option evt (nodes (internal s) x) = Some d" "x < fresh s" "holds q (fresh s) {x} ds" by auto
    have "rep {x} {} as (s\<lparr>internal := q\<rparr>) (a\<lparr>a_internal := ds\<rparr>)" using r q by (simp add: rep_def)
    from sim_ProcessEvt [OF this, of fuel callback d] q Cons show ?thesis
      by (auto simp: Process_def process_item_def a_process_def elim!: sim_cases dest!: rep_delete(1))
  next
    case int: Nil
    show ?thesis
    proof (cases "a_external a")
      case (Cons d ds)
      with holds_dequeue [of "external s" "fresh s" d ds] h obtain x q where
        q: "dequeue (external s) = Some (Some x, q)" "nodes q = nodes (external s)"
          "map_option evt (nodes (external s) x) = Some d" "x < fresh s" "holds q (fresh s) {x} ds" by auto
      have "rep {} {x} as (s\<lparr>external := q\<rparr>) (a\<lparr>a_external := ds\<rparr>)" using r q by (simp add: rep_def)
      from sim_ProcessEvt [OF this, of fuel callback d] q Cons int
        holds_dequeue_Nil [of "internal s" "fresh s" "{}"] h show ?thesis
        by (auto simp: Process_def process_item_def a_process_def elim!: sim_cases dest!: rep_delete(2))
    next
      case ext: Nil
      with int h r show ?thesis
        by (auto simp: Process_def holds_dequeue_Nil [of "internal s" "fresh s" "{}"]
            holds_dequeue_Nil [of "external s" "fresh s" "{}"] a_process_def)
    qed
  qed
qed

section \<open>Runs\<close>

text \<open>What happens to the loop from outside, in any order.\<close>

datatype ipacm_input =
    EPost ipacm_cmd_q_data
  | ERegistr int nat
  | EDeregistr nat
  | EProcess

fun ipacm_step :: "nat \<Rightarrow> listeners \<Rightarrow> ipacm_input \<Rightarrow> ipacm \<Rightarrow> ipacm option" where
  "ipacm_step fuel callback (EPost d) s = PostEvt d s"
| "ipacm_step fuel callback (ERegistr ev obj) s = registr ev obj s"
| "ipacm_step fuel callback (EDeregistr obj) s = deregistr obj s"
| "ipacm_step fuel callback EProcess s = Process fuel callback s"

fun ipacm_run :: "nat \<Rightarrow> listeners \<Rightarrow> ipacm_input list \<Rightarrow> ipacm \<Rightarrow> ipacm option" where
  "ipacm_run fuel callback [] s = Some s"
| "ipacm_run fuel callback (e # es) s =
     (case ipacm_step fuel callback e s of None \<Rightarrow> None | Some s' \<Rightarrow> ipacm_run fuel callback es s')"

fun a_step :: "nat \<Rightarrow> listeners \<Rightarrow> ipacm_input \<Rightarrow> abs_ipacm \<Rightarrow> abs_ipacm option" where
  "a_step fuel callback (EPost d) a = Some (a_post d a)"
| "a_step fuel callback (ERegistr ev obj) a = Some (a\<lparr>a_listeners := a_listeners a @ [(ev, obj)]\<rparr>)"
| "a_step fuel callback (EDeregistr obj) a = Some (a\<lparr>a_listeners := others obj (a_listeners a)\<rparr>)"
| "a_step fuel callback EProcess a = a_process fuel callback a"

fun a_run :: "nat \<Rightarrow> listeners \<Rightarrow> ipacm_input list \<Rightarrow> abs_ipacm \<Rightarrow> abs_ipacm option" where
  "a_run fuel callback [] a = Some a"
| "a_run fuel callback (e # es) a =
     (case a_step fuel callback e a of None \<Rightarrow> None | Some a' \<Rightarrow> a_run fuel callback es a')"

lemma sim_step:
  assumes "rep {} {} as s a"
  shows "sim {} {} (ipacm_step fuel callback e s) (a_step fuel callback e a)"
proof (cases e)
  case (EPost d)
  with rep_post [OF assms, of d] show ?thesis by auto
next
  case (ERegistr ev obj)
  with rep_registr [OF assms, of ev obj] show ?thesis by auto
next
  case (EDeregistr obj)
  with rep_deregistr [OF assms, of obj] show ?thesis by auto
next
  case EProcess
  with sim_Process [OF assms, of fuel callback] show ?thesis by simp
qed

lemma sim_run: "rep {} {} as s a \<Longrightarrow> sim {} {} (ipacm_run fuel callback es s) (a_run fuel callback es a)"
proof (induction es arbitrary: s a as)
  case (Cons e es)
  from sim_step [OF Cons.prems, of fuel callback e] Cons.IH show ?case
    by (auto elim!: sim_cases)
qed auto

lemmas run_sim = sim_run [OF rep_new]

text \<open>
  What is kept of a queue and of the list of listeners: the messages and registrations that can be
  reached, and how many nodes are allocated.
\<close>

definition represents :: "ipacm \<Rightarrow> abs_ipacm \<Rightarrow> bool" where
  "represents s a \<longleftrightarrow> (\<exists>as. rep {} {} as s a)"

lemma represents_new: "represents new_ipacm a_new"
  using rep_new by (auto simp: represents_def)

lemma represents_Process:
  "represents s a \<Longrightarrow> rel_option represents (Process fuel callback s) (a_process fuel callback a)"
proof -
  assume "represents s a"
  then obtain as where "rep {} {} as s a" by (auto simp: represents_def)
  from sim_Process [OF this, of fuel callback] show ?thesis
    by (auto simp: represents_def elim!: sim_cases)
qed

lemma holds_size: "holds q bound {} ds \<Longrightarrow> finite (dom (nodes q)) \<and> card (dom (nodes q)) = length ds"
  by (auto simp: holds_def content_def distinct_card)

lemma listens_size: "listens p mem bound as rs \<Longrightarrow> finite (dom mem) \<and> card (dom mem) = length rs"
  by (auto simp: listens_def registrations_def distinct_card)

section \<open>Callbacks a round is safe for\<close>

definition deregs :: "listeners \<Rightarrow> ipacm_cmd_q_data \<Rightarrow> nat \<Rightarrow> bool" where
  "deregs callback d obj \<longleftrightarrow> ActDeregistr obj \<in> set (callback obj d)"

text \<open>
  A callback may post, register other listeners for other events and deregister its own object; an
  object that deregisters itself does so at its last registration.
\<close>

definition orderly :: "listeners \<Rightarrow> ipacm_cmd_q_data \<Rightarrow> bool" where
  "orderly callback d \<longleftrightarrow>
     (\<forall>obj. list_all (\<lambda>act. case act of
        ActPost _ \<Rightarrow> True
      | ActRegistr ev ob \<Rightarrow> ev \<noteq> event d \<and> \<not> deregs callback d ob
      | ActDeregistr ob \<Rightarrow> ob = obj) (callback obj d))"

fun self_last :: "listeners \<Rightarrow> ipacm_cmd_q_data \<Rightarrow> (int \<times> nat) list \<Rightarrow> bool" where
  "self_last callback d [] = True"
| "self_last callback d ((e, obj) # rs) =
     ((e = event d \<and> deregs callback d obj \<longrightarrow> obj \<notin> snd ` set rs) \<and> self_last callback d rs)"

fun remaining :: "cursor \<Rightarrow> (int \<times> nat) list \<Rightarrow> (int \<times> nat) list option" where
  "remaining AtEnd ls = Some []"
| "remaining (AtListener k) ls = (if k < length ls then Some (drop k ls) else None)"
| "remaining Dangling ls = None"

definition wants :: "ipacm_cmd_q_data \<Rightarrow> (int \<times> nat) list \<Rightarrow> nat list" where
  "wants d rs = map snd (filter (\<lambda>(e, obj). e = event d) rs)"

lemma wants_append [simp]: "wants d (rs @ rs') = wants d rs @ wants d rs'"
  by (simp add: wants_def)

lemma others_absent: "obj \<notin> snd ` set rs \<Longrightarrow> others obj rs = rs"
  by (force simp: others_def filter_id_conv)

lemma others_append: "others obj (rs @ rs') = others obj rs @ others obj rs'"
  by (simp add: others_def)

lemma remaining_deregistr:
  assumes "remaining c ls = Some R" and "obj \<notin> snd ` set R"
  shows "remaining (snd (a_act (ActDeregistr obj) (a\<lparr>a_listeners := ls\<rparr>, c))) (others obj ls) = Some R"
proof (cases c)
  case (AtListener k)
  with assms(1) have k: "k < length ls" "R = drop k ls" by (simp_all split: if_splits)
  then have "ls ! k \<in> set R" by (metis Cons_nth_drop_Suc list.set_intros(1))
  then have "snd (ls ! k) \<noteq> obj" using assms(2) by auto
  moreover have "others obj ls = others obj (take k ls) @ R"
    using others_append [of obj "take k ls" "drop k ls"] others_absent [OF assms(2)] k(2) by simp
  moreover have "R \<noteq> []" using k by simp
  ultimately show ?thesis using AtListener by simp
qed (use assms in simp_all)

lemma remaining_registr:
  "remaining c ls = Some R \<Longrightarrow>
   \<exists>app. remaining c (ls @ [r]) = Some (R @ app) \<and> set app \<subseteq> {r}"
  by (cases c) (auto split: if_splits)

definition harmless :: "listeners \<Rightarrow> ipacm_cmd_q_data \<Rightarrow> (int \<times> nat) list \<Rightarrow> bool" where
  "harmless callback d app \<longleftrightarrow> (\<forall>(ev, ob) \<in> set app. ev \<noteq> event d \<and> \<not> deregs callback d ob)"

lemma harmless_wants: "harmless callback d app \<Longrightarrow> wants d app = []"
  by (auto simp: harmless_def wants_def filter_empty_conv)

lemma harmless_self_last: "harmless callback d app \<Longrightarrow> self_last callback d app"
  by (induction app) (auto simp: harmless_def)

lemma self_last_append:
  "self_last callback d rs \<Longrightarrow> harmless callback d app \<Longrightarrow> self_last callback d (rs @ app)"
  by (induction callback d rs rule: self_last.induct) (auto simp: harmless_self_last, auto simp: harmless_def)

lemma orderly_acts:
  assumes "remaining c (a_listeners a) = Some R"
    and "list_all (\<lambda>act. case act of
        ActPost _ \<Rightarrow> True
      | ActRegistr ev ob \<Rightarrow> ev \<noteq> event d \<and> \<not> deregs callback d ob
      | ActDeregistr ob \<Rightarrow> ob = obj \<and> deregs callback d obj) acts"
    and "deregs callback d obj \<Longrightarrow> obj \<notin> snd ` set R"
  shows "\<exists>a' c' app. fold a_act acts (a, c) = (a', c') \<and> remaining c' (a_listeners a') = Some (R @ app) \<and>
    harmless callback d app \<and> a_called a' = a_called a \<and> a_freed a' = a_freed a"
  using assms
proof (induction acts arbitrary: a c R)
  case Nil
  then show ?case by (auto simp: harmless_def)
next
  case (Cons act acts)
  have "\<exists>a1 c1 app. a_act act (a, c) = (a1, c1) \<and> remaining c1 (a_listeners a1) = Some (R @ app) \<and>
      harmless callback d app \<and> a_called a1 = a_called a \<and> a_freed a1 = a_freed a"
  proof (cases act)
    case (ActPost p)
    with Cons.prems(1) show ?thesis by (auto simp: a_post_def harmless_def intro!: exI [of _ "[]"])
  next
    case (ActRegistr ev ob)
    with remaining_registr [OF Cons.prems(1), of "(ev, ob)"] Cons.prems(2) show ?thesis
      by (fastforce simp: harmless_def)
  next
    case (ActDeregistr ob)
    with Cons.prems(2) have "ob = obj" "obj \<notin> snd ` set R" using Cons.prems(3) by auto
    with remaining_deregistr [OF Cons.prems(1), of obj a] ActDeregistr show ?thesis
      by (auto simp: harmless_def intro!: exI [of _ "[]"])
  qed
  then obtain a1 c1 app where s1: "a_act act (a, c) = (a1, c1)" "remaining c1 (a_listeners a1) = Some (R @ app)"
    "harmless callback d app" "a_called a1 = a_called a" "a_freed a1 = a_freed a" by blast
  have "\<exists>a' c' app'. fold a_act acts (a1, c1) = (a', c') \<and> remaining c' (a_listeners a') = Some ((R @ app) @ app') \<and>
      harmless callback d app' \<and> a_called a' = a_called a1 \<and> a_freed a' = a_freed a1"
    by (rule Cons.IH [OF s1(2)]) (use Cons.prems(2,3) s1(3) in \<open>auto simp: harmless_def\<close>)
  then obtain a' c' app' where "fold a_act acts (a1, c1) = (a', c')"
    "remaining c' (a_listeners a') = Some ((R @ app) @ app')" "harmless callback d app'"
    "a_called a' = a_called a1" "a_freed a' = a_freed a1" by blast
  with s1 show ?case by (auto simp: harmless_def intro!: exI [of _ "app @ app'"])
qed

lemma remaining_Nil: "remaining c ls = Some [] \<Longrightarrow> c = AtEnd"
  by (cases c) (auto split: if_splits)

lemma remaining_Cons:
  assumes "remaining c ls = Some (r # R)"
  shows "\<exists>i. c = AtListener i \<and> i < length ls \<and> ls ! i = r \<and>
    remaining (if Suc i < length ls then AtListener (Suc i) else AtEnd) ls = Some R"
proof (cases c)
  case (AtListener i)
  with assms have "i < length ls" "drop i ls = r # R" by (auto split: if_splits)
  moreover from this have "ls ! i = r" "drop (Suc i) ls = R" by (metis Cons_nth_drop_Suc list.inject)+
  ultimately show ?thesis using AtListener by auto
qed (use assms in auto)

lemma less_induct_pair [case_names step]:
  fixes P :: "nat \<times> nat \<Rightarrow> bool"
  assumes "\<And>p. (\<And>q. fst q < fst p \<or> fst q = fst p \<and> snd q < snd p \<Longrightarrow> P q) \<Longrightarrow> P p"
  shows "P p"
proof (induction p rule: wf_induct_rule [OF wf_measures [of "[fst, snd]"]])
  case (1 p)
  show ?case by (rule assms) (use 1 in auto)
qed

lemma orderly_loop:
  assumes "orderly callback d" and "remaining c (a_listeners a) = Some R" and "self_last callback d R"
  shows "\<exists>fuel a'. a_loop fuel callback d c a = Some a' \<and>
    a_called a' = a_called a @ map (\<lambda>obj. (obj, d)) (wants d R) \<and> a_freed a' = a_freed a"
  using assms(2,3)
proof (induction "(length (wants d R), length R)" arbitrary: R a c rule: less_induct_pair)
  case (step R a c)
  show ?case
  proof (cases R)
    case Nil
    with step.prems remaining_Nil [of c "a_listeners a"] have "c = AtEnd" by simp
    with Nil show ?thesis by (auto simp: wants_def intro!: exI [of _ 0] exI [of _ a])
  next
    case (Cons r R')
    obtain e obj where r: "r = (e, obj)" by (cases r)
    let ?c = "\<lambda>i. if Suc i < length (a_listeners a) then AtListener (Suc i) else AtEnd"
    from remaining_Cons step.prems(1) Cons obtain i where i: "c = AtListener i" "i < length (a_listeners a)"
      "a_listeners a ! i = (e, obj)" "remaining (?c i) (a_listeners a) = Some R'" unfolding r by blast
    show ?thesis
    proof (cases "event d = e")
      case False
      have "\<exists>fuel a'. a_loop fuel callback d (?c i) a = Some a' \<and>
          a_called a' = a_called a @ map (\<lambda>obj. (obj, d)) (wants d R') \<and> a_freed a' = a_freed a"
        by (rule step.hyps) (use step.prems i Cons r False in \<open>auto simp: wants_def\<close>)
      then obtain fuel a' where "a_loop fuel callback d (?c i) a = Some a'"
        "a_called a' = a_called a @ map (\<lambda>obj. (obj, d)) (wants d R')" "a_freed a' = a_freed a" by blast
      with i Cons r False show ?thesis
        by (auto simp: wants_def intro!: exI [of _ "Suc fuel"] exI [of _ a'])
    next
      case True
      let ?a = "a\<lparr>a_called := a_called a @ [(obj, d)]\<rparr>"
      have "\<exists>a' c' app. fold a_act (callback obj d) (?a, ?c i) = (a', c') \<and>
          remaining c' (a_listeners a') = Some (R' @ app) \<and>
          harmless callback d app \<and> a_called a' = a_called ?a \<and> a_freed a' = a_freed ?a"
      proof (rule orderly_acts)
        show "list_all (\<lambda>act. case act of ActPost _ \<Rightarrow> True
            | ActRegistr ev ob \<Rightarrow> ev \<noteq> event d \<and> \<not> deregs callback d ob
            | ActDeregistr ob \<Rightarrow> ob = obj \<and> deregs callback d obj) (callback obj d)"
          unfolding list_all_iff
        proof
          fix act assume "act \<in> set (callback obj d)"
          with assms(1) show "case act of ActPost _ \<Rightarrow> True
            | ActRegistr ev ob \<Rightarrow> ev \<noteq> event d \<and> \<not> deregs callback d ob
            | ActDeregistr ob \<Rightarrow> ob = obj \<and> deregs callback d obj"
            by (cases act) (fastforce simp: orderly_def list_all_iff deregs_def)+
        qed
      qed (use i step.prems(2) Cons r True in auto)
      then obtain a1 c1 app where s1: "fold a_act (callback obj d) (?a, ?c i) = (a1, c1)"
        "remaining c1 (a_listeners a1) = Some (R' @ app)" "harmless callback d app"
        "a_called a1 = a_called ?a" "a_freed a1 = a_freed ?a" by blast
      have "\<exists>fuel a'. a_loop fuel callback d c1 a1 = Some a' \<and>
          a_called a' = a_called a1 @ map (\<lambda>obj. (obj, d)) (wants d (R' @ app)) \<and> a_freed a' = a_freed a1"
      proof (rule step.hyps [OF _ s1(2)])
        have "wants d R = obj # wants d R'" using Cons r True by (simp add: wants_def)
        then show "fst (length (wants d (R' @ app)), length (R' @ app)) < fst (length (wants d R), length R) \<or>
          fst (length (wants d (R' @ app)), length (R' @ app)) = fst (length (wants d R), length R) \<and>
          snd (length (wants d (R' @ app)), length (R' @ app)) < snd (length (wants d R), length R)"
          using s1(3) by (simp add: harmless_wants)
        show "self_last callback d (R' @ app)"
          using step.prems(2) s1(3) Cons r by (simp add: self_last_append)
      qed
      then obtain fuel a' where "a_loop fuel callback d c1 a1 = Some a'"
        "a_called a' = a_called a1 @ map (\<lambda>obj. (obj, d)) (wants d R')" "a_freed a' = a_freed a1"
        using s1(3) by (auto simp: harmless_wants)
      with i Cons r True s1 show ?thesis
        by (auto simp: wants_def Let_def intro!: exI [of _ "Suc fuel"] exI [of _ a'])
    qed
  qed
qed

section \<open>Properties\<close>

lemma run_represents:
  assumes "ipacm_run fuel callback es new_ipacm = Some s" and "a_run fuel callback es a_new = Some a"
  shows "represents s a"
  using run_sim [of fuel callback es] assms by (auto simp: represents_def)

lemma represents_observed:
  "represents s a \<Longrightarrow> called s = a_called a \<and> freed s = a_freed a"
  by (auto simp: represents_def rep_def)

definition first_event :: "abs_ipacm \<Rightarrow> ipacm_cmd_q_data option" where
  "first_event a = (case a_internal a @ a_external a of [] \<Rightarrow> None | d # _ \<Rightarrow> Some d)"

lemma a_process_orderly:
  assumes "first_event a = Some d" and "orderly callback d" and "self_last callback d (a_listeners a)"
  shows "\<exists>fuel a'. a_process fuel callback a = Some a' \<and>
    a_called a' = a_called a @ map (\<lambda>obj. (obj, d)) (wants d (a_listeners a)) \<and>
    a_freed a' = a_freed a @ (case evt_data d of None \<Rightarrow> [] | Some p \<Rightarrow> [p])"
proof -
  define a1 where "a1 = (case a_internal a of [] \<Rightarrow> a\<lparr>a_external := tl (a_external a)\<rparr> | _ # ds \<Rightarrow> a\<lparr>a_internal := ds\<rparr>)"
  have a1: "a_listeners a1 = a_listeners a" "a_called a1 = a_called a" "a_freed a1 = a_freed a"
    by (simp_all add: a1_def split: list.split)
  have process: "a_process fuel callback a = a_dispatch fuel callback d a1" for fuel
    using assms(1) by (auto simp: a_process_def first_event_def a1_def split: list.splits)
  have "remaining (if a_listeners a1 = [] then AtEnd else AtListener 0) (a_listeners a1) = Some (a_listeners a1)"
    by simp
  from orderly_loop [OF assms(2) this] assms(3) obtain fuel a' where
    "a_loop fuel callback d (if a_listeners a1 = [] then AtEnd else AtListener 0) a1 = Some a'"
    "a_called a' = a_called a1 @ map (\<lambda>obj. (obj, d)) (wants d (a_listeners a1))" "a_freed a' = a_freed a1"
    by (auto simp only: a1(1))
  then show ?thesis
    by (intro exI [of _ fuel] exI [of _ "a'\<lparr>a_freed := a_freed a' @ (case evt_data d of None \<Rightarrow> [] | Some p \<Rightarrow> [p])\<rparr>"])
      (simp add: process a_dispatch_def a1)
qed

text \<open>
  C29: whatever is posted, registered and deregistered, and whatever the callbacks do, the two linked
  queues and the linked list of listeners behave as two sequences of events and a sequence of
  registrations: the loop calls back the same objects with the same events in the same order, frees
  the same data, and follows a freed pointer exactly when the position it goes on with was
  deregistered under it.
\<close>

theorem ipacm_loop_refines:
  "rel_option (\<lambda>s a. represents s a \<and> called s = a_called a \<and> freed s = a_freed a)
     (ipacm_run fuel callback es new_ipacm) (a_run fuel callback es a_new)"
  using run_sim [of fuel callback es]
  by (auto elim!: sim_cases simp: represents_def rep_def)

text \<open>
  no message and no registration leaks: after any run the nodes allocated in each queue are as
  many as the events waiting in it, and those of the list of listeners as many as the registrations.
\<close>

theorem ipacm_no_leak:
  assumes "ipacm_run fuel callback es new_ipacm = Some s" and "a_run fuel callback es a_new = Some a"
  shows "card (dom (nodes (internal s))) = length (a_internal a) \<and>
    card (dom (nodes (external s))) = length (a_external a) \<and>
    card (dom (list_nodes s)) = length (a_listeners a) \<and>
    finite (dom (nodes (internal s))) \<and> finite (dom (nodes (external s))) \<and> finite (dom (list_nodes s))"
  using run_represents [OF assms]
  by (auto simp: represents_def rep_def dest!: holds_size listens_size)

text \<open>
  in any reachable state a round ends, takes the first internal event or else the first external
  one, calls back each object once per registration for it, in the order of registration, and then
  frees its data once, if callbacks deregister only their own object, at its last registration, and
  register others only for other events.
\<close>

theorem ipacm_round_orderly:
  assumes "ipacm_run fuel0 callback0 es new_ipacm = Some s" and "a_run fuel0 callback0 es a_new = Some a"
    and "first_event a = Some d" and "orderly callback d" and "self_last callback d (a_listeners a)"
  shows "\<exists>fuel s'. Process fuel callback s = Some s' \<and>
    called s' = called s @ map (\<lambda>obj. (obj, d)) (wants d (a_listeners a)) \<and>
    freed s' = freed s @ (case evt_data d of None \<Rightarrow> [] | Some p \<Rightarrow> [p])"
proof -
  note r = run_represents [OF assms(1,2)]
  from a_process_orderly [OF assms(3-5)] obtain fuel a' where a':
    "a_process fuel callback a = Some a'"
    "a_called a' = a_called a @ map (\<lambda>obj. (obj, d)) (wants d (a_listeners a))"
    "a_freed a' = a_freed a @ (case evt_data d of None \<Rightarrow> [] | Some p \<Rightarrow> [p])" by blast
  from represents_Process [OF r, of fuel callback] a'(1) obtain s' where
    "Process fuel callback s = Some s'" "represents s' a'" by (cases "Process fuel callback s") auto
  with a' represents_observed [OF r] show ?thesis
    by (intro exI [of _ fuel] exI [of _ s']) (auto dest!: represents_observed)
qed

definition wan_callback :: listeners where
  "wan_callback obj d =
     (if obj = 7 \<and> event d = 0 then [ActPost \<lparr>event = 5, evt_data = Some 1\<rparr>, ActDeregistr 7] else [])"

text \<open>
  the instance of a WAN interface registers for the configuration change in the middle of its
  events, and on that event posts a link-up event and deletes itself, which deregisters it. The loop
  then goes on from the node of its next registration, which is freed, whatever else is registered
  before it. Were that event its last registration, the round would end well.
\<close>

theorem ipacm_self_delete_use_after_free:
  "ipacm_run fuel wan_callback
     [ERegistr 0 1, ERegistr 0 7, ERegistr 36 7, ERegistr 4 7, EPost \<lparr>event = 0, evt_data = None\<rparr>, EProcess]
     new_ipacm = None \<and>
   map_option called (ipacm_run 5 wan_callback
     [ERegistr 0 1, ERegistr 36 7, ERegistr 4 7, ERegistr 0 7, ERegistr 0 8,
      EPost \<lparr>event = 0, evt_data = None\<rparr>, EProcess] new_ipacm) =
   Some [(1, \<lparr>event = 0, evt_data = None\<rparr>), (7, \<lparr>event = 0, evt_data = None\<rparr>), (8, \<lparr>event = 0, evt_data = None\<rparr>)]"
  (is "?fault \<and> ?fine")
proof
  let ?es = "[ERegistr 0 1, ERegistr 0 7, ERegistr 36 7, ERegistr 4 7,
              EPost \<lparr>event = 0, evt_data = None\<rparr>, EProcess]"
  have "a_run fuel wan_callback ?es a_new = None"
  proof (cases fuel)
    case (Suc f)
    then show ?thesis
      by (cases f) (simp_all add: a_new_def a_post_def is_external_def a_process_def a_dispatch_def wan_callback_def)
  qed (simp add: a_new_def a_post_def is_external_def a_process_def a_dispatch_def)
  then show ?fault using run_sim [of fuel wan_callback ?es] by (auto elim: sim_cases)
  show ?fine by code_simp
qed

section \<open>Witnesses\<close>

text \<open>Two listeners, one of which deletes itself at its last registration; one event posted.\<close>

definition demo_callback :: listeners where
  "demo_callback obj d = (if obj = 7 then [ActPost \<lparr>event = 50, evt_data = None\<rparr>, ActDeregistr 7] else [ActRegistr 9 3])"

definition demo_inputs :: "ipacm_input list" where
  "demo_inputs = [ERegistr 0 1, ERegistr 4 7, ERegistr 0 7, ERegistr 0 2, EPost \<lparr>event = 0, evt_data = Some 5\<rparr>]"

definition demo_state :: ipacm where
  "demo_state = the (ipacm_run 0 demo_callback demo_inputs new_ipacm)"

definition demo_abs :: abs_ipacm where
  "demo_abs = the (a_run 0 demo_callback demo_inputs a_new)"

lemma demo_a_run: "a_run 0 demo_callback demo_inputs a_new = Some demo_abs"
  by (simp add: demo_abs_def demo_inputs_def)

lemma demo_run: "ipacm_run 0 demo_callback demo_inputs new_ipacm = Some demo_state"
  using run_sim [of 0 demo_callback demo_inputs] unfolding demo_state_def
  by (auto simp: demo_a_run elim: sim_cases)

lemma demo_parts:
  "a_listeners demo_abs = [(0, 1), (4, 7), (0, 7), (0, 2)]"
  "first_event demo_abs = Some \<lparr>event = 0, evt_data = Some 5\<rparr>"
  by (simp_all add: demo_abs_def demo_inputs_def a_new_def a_post_def is_external_def first_event_def)

lemma ipacm_no_leak_witness:
  "card (dom (nodes (external demo_state))) = 1 \<and> card (dom (list_nodes demo_state)) = 4"
  using ipacm_no_leak [OF demo_run demo_a_run]
  by (simp add: demo_abs_def demo_inputs_def a_new_def a_post_def is_external_def)

lemma ipacm_round_orderly_witness:
  "\<exists>fuel s'. Process fuel demo_callback demo_state = Some s' \<and>
    called s' = called demo_state @ map (\<lambda>obj. (obj, \<lparr>event = 0, evt_data = Some 5\<rparr>)) [1, 7, 2] \<and>
    freed s' = freed demo_state @ [5]"
proof -
  have "orderly demo_callback \<lparr>event = 0, evt_data = Some 5\<rparr>"
    by (auto simp: orderly_def demo_callback_def deregs_def)
  moreover have "self_last demo_callback \<lparr>event = 0, evt_data = Some 5\<rparr> (a_listeners demo_abs)"
    by (simp add: demo_parts demo_callback_def deregs_def)
  ultimately show ?thesis
    using ipacm_round_orderly [OF demo_run demo_a_run demo_parts(2)] by (simp add: demo_parts(1) wants_def)
qed

end
