(* ===== verification/OffloadPrefix.thy ===== *)
theory OffloadPrefix
  imports Prelude 
begin

unbundle bit_operations_syntax

text \<open>
  The prefix parser of the tethering HAL (\<open>hal/src/PrefixParser.cpp\<close>), which turns strings such as
  \<open>192.168.1.0/24\<close> into the structure \<open>Prefix\<close> of \<open>IOffloadManager.h\<close>, and the translation of an
  address back into a string by \<open>CtUpdateAmbassador.cpp\<close>.

  Of the C library, \<open>atoi\<close> (on a machine whose \<open>long\<close> has 64 bits) and \<open>inet_pton\<close> and
  \<open>inet_ntop\<close> for IPv4 are modelled as POSIX describes them; \<open>inet_pton\<close> for IPv6 is a parameter
  that gives the sixteen bytes. Addresses in memory are little endian.
\<close>

section \<open>Strings\<close>

definition c_str :: "string \<Rightarrow> string" where
  "c_str s = takeWhile (\<lambda>c. c \<noteq> CHR 0x00) s"

definition is_digit :: "char \<Rightarrow> bool" where
  "is_digit c = (48 \<le> (of_char c :: nat) \<and> (of_char c :: nat) \<le> 57)"

definition is_space :: "char \<Rightarrow> bool" where
  "is_space c = ((of_char c :: nat) = 32 \<or> 9 \<le> (of_char c :: nat) \<and> (of_char c :: nat) \<le> 13)"

definition digit_char :: "nat \<Rightarrow> char" where
  "digit_char d = char_of (48 + d)"

definition digits_val :: "string \<Rightarrow> nat" where
  "digits_val s = foldl (\<lambda>v c. v * 10 + (of_char c - 48)) 0 s"

fun print_nat :: "nat \<Rightarrow> string" where
  "print_nat n = (if n < 10 then [digit_char n] else print_nat (n div 10) @ [digit_char (n mod 10)])"

declare print_nat.simps [simp del]

definition to_string :: "int \<Rightarrow> string" where
  "to_string i = (if i < 0 then CHR ''-'' # print_nat (nat (- i)) else print_nat (nat i))"

text \<open>\<open>atoi\<close> is \<open>strtol\<close>, which stops at the limits of \<open>long\<close>, cut to the 32 bits of \<open>int\<close>.\<close>

definition atoi :: "string \<Rightarrow> int" where
  "atoi s =
     (let t = dropWhile is_space s;
          (neg, u) = (case t of c # cs \<Rightarrow> if c = CHR ''-'' then (True, cs) else if c = CHR ''+'' then (False, cs) else (False, t)
                              | [] \<Rightarrow> (False, []));
          v = int (digits_val (takeWhile is_digit u));
          l = (if neg then max (- (2 ^ 63)) (- v) else min (2 ^ 63 - 1) v)
      in signed_take_bit 31 l)"

fun split_at :: "char \<Rightarrow> string \<Rightarrow> string list" where
  "split_at c [] = [[]]"
| "split_at c (x # xs) = (if x = c then [] # split_at c xs
     else case split_at c xs of p # ps \<Rightarrow> (x # p) # ps | [] \<Rightarrow> [[x]])"

definition octet_ok :: "string \<Rightarrow> bool" where
  "octet_ok p = (1 \<le> length p \<and> length p \<le> 3 \<and> list_all is_digit p \<and> digits_val p \<le> 255)"

definition inet_pton4 :: "string \<Rightarrow> nat list option" where
  "inet_pton4 s =
     (let ps = split_at CHR ''.'' s
      in if length ps = 4 \<and> list_all octet_ok ps then Some (map digits_val ps) else None)"

definition bytes_of :: "u32 \<Rightarrow> nat list" where
  "bytes_of w = map (\<lambda>i. unat (drop_bit (8 * i) w AND 0xFF)) [0, 1, 2, 3]"

definition inet_ntop4 :: "u32 \<Rightarrow> string" where
  "inet_ntop4 w = (case map print_nat (bytes_of w) of
     [a, b, c, d] \<Rightarrow> a @ ''.'' @ b @ ''.'' @ c @ ''.'' @ d | _ \<Rightarrow> [])"

definition word_of_bytes :: "nat list \<Rightarrow> u32" where
  "word_of_bytes bs = foldr (\<lambda>b w. push_bit 8 w OR of_nat b) bs 0"

section \<open>Prefixes\<close>

datatype ip_fam = V4 | V6 | INVALID

record prefix =
  fam :: ip_fam
  v4Addr :: u32
  v4Mask :: u32
  v6Addr :: "u32 list"
  v6Mask :: "u32 list"

record prefix_parser =
  mPrefixes :: "prefix list"
  mLastErr :: string

definition new_parser :: prefix_parser where
  "new_parser = \<lparr>mPrefixes = [], mLastErr = ''No Err''\<rparr>"

definition makeBlankPrefix :: "ip_fam \<Rightarrow> prefix" where
  "makeBlankPrefix famHint =
     \<lparr>fam = famHint, v4Addr = 0, v4Mask = 0, v6Addr = [0, 0, 0, 0], v6Mask = [0, 0, 0, 0]\<rparr>"

definition createMask :: "int \<Rightarrow> u32" where
  "createMask msk =
     (if msk \<ge> 32 then NOT 0
      else fold (\<lambda>i ret. if int i < msk then push_bit 1 ret OR 1 else push_bit 1 ret) [0..<32] 0)"

definition populateV4Mask :: "int \<Rightarrow> prefix \<Rightarrow> bool \<times> prefix" where
  "populateV4Mask msk out =
     (if msk < 0 \<or> msk > 32 then (False, out) else (True, out\<lparr>v4Mask := createMask msk\<rparr>))"

definition populateV6Mask :: "int \<Rightarrow> prefix \<Rightarrow> bool \<times> prefix" where
  "populateV6Mask msk out =
     (if msk < 0 \<or> msk > 128 then (False, out)
      else let step = (\<lambda>m. if m > 32 then m - 32 else 0)
           in (True, out\<lparr>v6Mask := map createMask [msk, step msk, step (step msk), step (step (step msk))]\<rparr>))"

definition guessIPFamily :: "string \<Rightarrow> ip_fam" where
  "guessIPFamily s = (if CHR '':'' \<in> set s then V6 else V4)"

text \<open>The address and the mask; \<open>None\<close> when there is nothing before the slash.\<close>

definition splitIntoAddrAndMask :: "string \<Rightarrow> (string \<times> string) option" where
  "splitIntoAddrAndMask s =
     (if CHR ''/'' \<in> set s
      then let addr = takeWhile (\<lambda>c. c \<noteq> CHR ''/'') s
           in if addr = [] then None else Some (addr, drop (Suc (length addr)) s)
      else Some (s, []))"

definition parseSubnetMask :: "string \<Rightarrow> ip_fam \<Rightarrow> int" where
  "parseSubnetMask s famHint = (if s = [] then if famHint = V6 then 128 else 32 else atoi (c_str s))"

definition isMaskValid :: "int \<Rightarrow> ip_fam \<Rightarrow> bool" where
  "isMaskValid msk f =
     (if msk < 0 then False
      else if msk = 0 then False
      else if f = V4 \<and> msk > 32 then False
      else if f = V6 \<and> msk > 128 then False
      else True)"

text \<open>\<open>s_addr\<close> is the number whose bytes in memory are those of the address.\<close>

definition parseV4Addr :: "string \<Rightarrow> prefix \<Rightarrow> bool \<times> prefix" where
  "parseV4Addr s out =
     (case inet_pton4 (c_str s) of
        None \<Rightarrow> (False, out)
      | Some bs \<Rightarrow> (True, out\<lparr>v4Addr := htonl (word_of_bytes bs)\<rparr>))"

definition be_word :: "nat list \<Rightarrow> u32" where
  "be_word bs = (push_bit 24 (of_nat (bs ! 0)) OR push_bit 16 (of_nat (bs ! 1))
     OR push_bit 8 (of_nat (bs ! 2)) OR of_nat (bs ! 3))"

definition parseV6Addr :: "(string \<Rightarrow> nat list option) \<Rightarrow> string \<Rightarrow> prefix \<Rightarrow> bool \<times> prefix" where
  "parseV6Addr inet_pton6 s out =
     (case inet_pton6 (c_str s) of
        None \<Rightarrow> (False, out)
      | Some bs \<Rightarrow> (True, out\<lparr>v6Addr := map (\<lambda>i. be_word (take 4 (drop (4 * i) bs))) [0, 1, 2, 3]\<rparr>))"

text \<open>\<open>add\<close> of one string, with a hint on its family.\<close>

definition parser_add1 ::
  "(string \<Rightarrow> nat list option) \<Rightarrow> string \<Rightarrow> ip_fam \<Rightarrow> prefix_parser \<Rightarrow> bool \<times> prefix_parser" where
  "parser_add1 inet_pton6 s hint p =
     (let fail = (\<lambda>err. (False, p\<lparr>mLastErr := err\<rparr>)) in
      if length s = 0 then fail ''Failed to parse string, length = 0...''
      else
        let famHint = (if hint = INVALID then guessIPFamily s else hint) in
        case splitIntoAddrAndMask s of
          None \<Rightarrow> fail (''Failed to split into Address and Mask('' @ s @ '')'')
        | Some (addr, subnet) \<Rightarrow>
            let msk = parseSubnetMask subnet famHint in
            if \<not> isMaskValid msk famHint then fail ''Invalid mask''
            else
              let (ok, pre) = (if famHint = V4 then parseV4Addr addr (makeBlankPrefix famHint)
                               else parseV6Addr inet_pton6 addr (makeBlankPrefix famHint)) in
              if \<not> ok
              then fail (if famHint = V4 then ''Failed to parse V4 Address('' @ addr @ '')''
                         else ''Failed to parse V6 Address('' @ addr @ '')'')
              else
                let (ok4, pre4) = (if famHint = V4 then populateV4Mask msk pre else (True, pre)) in
                if \<not> ok4
                then fail (''Failed to populate IPv4 Mask('' @ to_string msk @ '', '' @ addr @ '')'')
                else
                  let (ok6, pre6) = populateV6Mask msk pre4 in
                  if \<not> ok6
                  then fail (''Failed to populate IPv6 Mask('' @ to_string msk @ '', '' @ addr @ '')'')
                  else (True, p\<lparr>mPrefixes := mPrefixes p @ [pre6]\<rparr>))"

primrec parser_each ::
  "(string \<Rightarrow> nat list option) \<Rightarrow> ip_fam \<Rightarrow> string list \<Rightarrow> prefix_parser \<Rightarrow> bool \<times> prefix_parser" where
  "parser_each inet_pton6 hint [] p = (True, p)"
| "parser_each inet_pton6 hint (s # ss) p =
     (let (ok, p1) = parser_add1 inet_pton6 s hint p
      in if \<not> ok then (False, p1) else parser_each inet_pton6 hint ss p1)"

text \<open>
  \<open>add\<close> of a vector, which fails for an empty one; \<open>addV6\<close> has a loop of its own, which does not.
\<close>

definition parser_add_all ::
  "(string \<Rightarrow> nat list option) \<Rightarrow> ip_fam \<Rightarrow> string list \<Rightarrow> prefix_parser \<Rightarrow> bool \<times> prefix_parser" where
  "parser_add_all inet_pton6 hint ss p = (if ss = [] then (False, p) else parser_each inet_pton6 hint ss p)"

definition parser_addV6_all ::
  "(string \<Rightarrow> nat list option) \<Rightarrow> string list \<Rightarrow> prefix_parser \<Rightarrow> bool \<times> prefix_parser" where
  "parser_addV6_all inet_pton6 ss p = parser_each inet_pton6 V6 ss p"

definition getFirstPrefix :: "ip_fam \<Rightarrow> prefix_parser \<Rightarrow> prefix" where
  "getFirstPrefix famHint p = (if 1 \<le> length (mPrefixes p) then mPrefixes p ! 0 else makeBlankPrefix famHint)"

definition allAreFullyQualified :: "prefix_parser \<Rightarrow> bool" where
  "allAreFullyQualified p =
     list_all (\<lambda>q. if fam q = V4 then v4Addr q AND v4Mask q = v4Addr q
                   else list_all (\<lambda>j. v6Addr q ! j AND v6Mask q ! j = v6Addr q ! j) [0, 1, 2, 3])
       (mPrefixes p)"

section \<open>Masks\<close>

lemma createMask_steps:
  assumes "0 \<le> m"
  shows "fold (\<lambda>i ret. if int i < m then push_bit 1 ret OR 1 else push_bit 1 ret) [0..<k] (0 :: u32)
    = push_bit (k - nat m) (mask (min k (nat m)))"
proof (induction k)
  case (Suc k)
  have s: "push_bit 1 (mask k :: u32) OR 1 = mask (Suc k)"
    by (simp add: mask_Suc_double or.commute mult.commute)
  show ?case
  proof (cases "int k < m")
    case True
    then have "k < nat m" by simp
    then have "min (Suc k) (nat m) = Suc k" "min k (nat m) = k" "k - nat m = 0" "Suc k - nat m = 0" by simp_all
    then show ?thesis using Suc True s by simp
  next
    case False
    then have "nat m \<le> k" by simp
    then have "min (Suc k) (nat m) = nat m" "min k (nat m) = nat m" "Suc k - nat m = 1 + (k - nat m)" by simp_all
    moreover have "fold (\<lambda>i ret. if int i < m then push_bit 1 ret OR 1 else push_bit 1 ret) [0..<Suc k] (0 :: u32) =
        push_bit 1 (push_bit (k - nat m) (mask (min k (nat m))))"
      by (simp only: Suc.IH [symmetric]) (simp add: False)
    ultimately show ?thesis by (simp only: push_bit_push_bit)
  qed
qed simp

lemma bit_createMask:
  assumes "0 \<le> m"
  shows "bit (createMask m) n \<longleftrightarrow> n < 32 \<and> 32 - nat m \<le> n"
  using assms unfolding createMask_def createMask_steps [OF assms]
  by (auto simp: bit_simps nat_le_iff min_def)

lemma createMask_top: "0 \<le> m \<Longrightarrow> createMask m = NOT (mask (32 - nat m))"
  by (rule bit_word_eqI) (auto simp: bit_createMask bit_simps)

definition v6_word :: "u32 list \<Rightarrow> 128 word" where
  "v6_word ws = foldl (\<lambda>acc w. push_bit 32 acc OR ucast w) 0 ws"

lemma bit_v6_word:
  "bit (v6_word [a, b, c, d]) n \<longleftrightarrow> n < 128 \<and> bit ([d, c, b, a] ! (n div 32)) (n mod 32)"
proof (cases "n < 128")
  case True
  then consider "n < 32" | "32 \<le> n" "n < 64" | "64 \<le> n" "n < 96" | "96 \<le> n" "n < 128" by linarith
  then show ?thesis
  proof cases
    case 1
    then show ?thesis by (auto simp: v6_word_def bit_simps dest: bit_imp_le_length)
  next
    case 2
    then have "n div 32 = 1" "n mod 32 = n - 32" by (simp_all add: div_nat_eqI mod_nat_eqI)
    with 2 show ?thesis by (auto simp: v6_word_def bit_simps dest: bit_imp_le_length)
  next
    case 3
    then have "n div 32 = 2" "n mod 32 = n - 64" by (simp_all add: div_nat_eqI mod_nat_eqI)
    with 3 show ?thesis by (auto simp: v6_word_def bit_simps dest: bit_imp_le_length)
  next
    case 4
    then have "n div 32 = 3" "n mod 32 = n - 96" by (simp_all add: div_nat_eqI mod_nat_eqI)
    with 4 show ?thesis by (auto simp: v6_word_def bit_simps dest: bit_imp_le_length)
  qed
qed (auto dest: bit_imp_le_length)

lemma populateV6Mask_word:
  assumes "0 \<le> m" and "m \<le> 128"
  shows "populateV6Mask m p = (True, p\<lparr>v6Mask := v6Mask (snd (populateV6Mask m p))\<rparr>)"
    and "v6_word (v6Mask (snd (populateV6Mask m p))) = NOT (mask (128 - nat m))"
    and "length (v6Mask (snd (populateV6Mask m p))) = 4"
proof -
  define step :: "int \<Rightarrow> int" where "step x = (if x > 32 then x - 32 else 0)" for x
  have e: "populateV6Mask m p = (True, p\<lparr>v6Mask := map createMask [m, step m, step (step m), step (step (step m))]\<rparr>)"
    using assms by (simp add: populateV6Mask_def step_def Let_def)
  show "populateV6Mask m p = (True, p\<lparr>v6Mask := v6Mask (snd (populateV6Mask m p))\<rparr>)"
    "length (v6Mask (snd (populateV6Mask m p))) = 4" by (simp_all add: e)
  have ge: "0 \<le> step x" for x by (simp add: step_def)
  show "v6_word (v6Mask (snd (populateV6Mask m p))) = NOT (mask (128 - nat m))"
  proof (rule bit_word_eqI)
    fix n assume "n < LENGTH(128)"
    then have n: "n < 128" by simp
    define q where "q = n div 32"
    define r where "r = n mod 32"
    have nqr: "n = 32 * q + r" "r < 32" "q < 4" using n by (auto simp: q_def r_def)
    have "bit (v6_word (v6Mask (snd (populateV6Mask m p)))) n \<longleftrightarrow>
        bit ([createMask (step (step (step m))), createMask (step (step m)), createMask (step m), createMask m] ! q) r"
      using n by (simp add: e bit_v6_word q_def r_def)
    also have "\<dots> \<longleftrightarrow> 128 - nat m \<le> n"
    proof -
      consider "q = 0" | "q = 1" | "q = 2" | "q = 3" using nqr by linarith
      then show ?thesis
        by cases (use nqr assms ge in \<open>auto simp: bit_createMask step_def split: if_splits\<close>)
    qed
    finally show "bit (v6_word (v6Mask (snd (populateV6Mask m p)))) n = bit (NOT (mask (128 - nat m)) :: 128 word) n"
      using n by (auto simp: bit_simps)
  qed
qed

section \<open>Decimal numbers\<close>

lemma of_char_digit [simp]: "d < 10 \<Longrightarrow> (of_char (digit_char d) :: nat) = 48 + d"
  by (simp add: digit_char_def)

lemma is_digit_char [simp]: "d < 10 \<Longrightarrow> is_digit (digit_char d)"
  by (simp add: is_digit_def)

lemma digits_val_snoc [simp]: "digits_val (s @ [c]) = digits_val s * 10 + (of_char c - 48)"
  by (simp add: digits_val_def)

lemma digits_val_single [simp]: "digits_val [c] = of_char c - 48"
  by (simp add: digits_val_def)

lemma print_nat_digits [simp]: "list_all is_digit (print_nat n)"
proof (induction n rule: print_nat.induct)
  case (1 n)
  then show ?case by (subst print_nat.simps) auto
qed

lemma digits_print_nat [simp]: "digits_val (print_nat n) = n"
proof (induction n rule: print_nat.induct)
  case (1 n)
  then show ?case by (subst print_nat.simps) auto
qed

lemma print_nat_Nil [simp]: "print_nat n \<noteq> []"
  by (subst print_nat.simps) auto

lemma length_print_nat: "n < 10 ^ Suc k \<Longrightarrow> length (print_nat n) \<le> Suc k"
proof (induction k arbitrary: n)
  case 0
  then show ?case by (subst print_nat.simps) auto
next
  case (Suc k)
  then have "n div 10 < 10 ^ Suc k" by auto
  then show ?case using Suc.IH [of "n div 10"] by (subst print_nat.simps) auto
qed

lemma is_digit_not:
  "is_digit c \<Longrightarrow> c \<noteq> CHR ''.''" "is_digit c \<Longrightarrow> c \<noteq> CHR ''/''" "is_digit c \<Longrightarrow> c \<noteq> CHR '':''"
  "is_digit c \<Longrightarrow> c \<noteq> CHR 0x00" "is_digit c \<Longrightarrow> \<not> is_space c" "is_digit c \<Longrightarrow> c \<noteq> CHR ''-''" "is_digit c \<Longrightarrow> c \<noteq> CHR ''+''"
  by (auto simp: is_digit_def is_space_def)

lemma print_nat_chars: "c \<in> set (print_nat n) \<Longrightarrow> is_digit c"
  using print_nat_digits [of n] by (simp add: list_all_iff)

lemma split_at_none: "c \<notin> set p \<Longrightarrow> split_at c p = [p]"
  by (induction p) auto

lemma split_at_append: "c \<notin> set p \<Longrightarrow> split_at c (p @ c # s) = p # split_at c s"
  by (induction p) auto

lemma atoi_print_nat:
  assumes "n < 2 ^ 31"
  shows "atoi (print_nat n) = int n"
proof -
  obtain c cs where p: "print_nat n = c # cs" by (cases "print_nat n") auto
  have d: "is_digit c" "list_all is_digit cs" using print_nat_digits [of n] by (simp_all add: p)
  have "takeWhile is_digit (c # cs) = c # cs" using d by (simp only: takeWhile_eq_all_conv) (simp add: list_all_iff)
  moreover have "digits_val (c # cs) = n" using p by (metis digits_print_nat)
  moreover have "signed_take_bit 31 (min (2 ^ 63 - 1) (int n)) = int n"
    using assms by (auto simp: signed_take_bit_int_eq_self_iff min_def)
  ultimately show ?thesis using d by (simp add: atoi_def p is_digit_not Let_def del: takeWhile.simps takeWhile_eq_all_conv)
qed

lemma c_str_id: "CHR 0x00 \<notin> set s \<Longrightarrow> c_str s = s"
  by (auto simp: c_str_def takeWhile_eq_all_conv)

lemma bytes_of_less: "b \<in> set (bytes_of w) \<Longrightarrow> b < 256"
proof -
  assume "b \<in> set (bytes_of w)"
  then obtain i where "b = unat (drop_bit (8 * i) w AND 0xFF)" unfolding bytes_of_def set_map by (elim imageE)
  moreover have "drop_bit (8 * i) w AND 0xFF \<le> 0xFF" by (rule word_and_le1)
  then have "unat (drop_bit (8 * i) w AND 0xFF) \<le> 255" by (simp add: word_le_nat_alt)
  ultimately show ?thesis by simp
qed

lemma length_bytes_of [simp]: "length (bytes_of w) = 4"
  by (simp add: bytes_of_def)

lemma word_of_bytes_of [simp]: "word_of_bytes (bytes_of w) = w"
proof -
  have m: "(0xFF :: u32) = mask 8" by (simp add: mask_eq_exp_minus_1)
  show ?thesis
  proof (rule bit_word_eqI)
    fix n assume "n < LENGTH(32)"
    then consider "n < 8" | "8 \<le> n" "n < 16" | "16 \<le> n" "n < 24" | "24 \<le> n" "n < 32" by auto linarith
    then show "bit (word_of_bytes (bytes_of w)) n = bit w n"
      by cases (auto simp: word_of_bytes_def bytes_of_def m bit_simps)
  qed
qed

lemma inet_pton4_ntop4: "inet_pton4 (inet_ntop4 w) = Some (bytes_of w)"
proof -
  obtain a b c d where e: "bytes_of w = [a, b, c, d]"
    by (auto simp: bytes_of_def)
  then have l: "a < 256" "b < 256" "c < 256" "d < 256" using bytes_of_less [of _ w] by auto
  have nd: "CHR ''.'' \<notin> set (print_nat n)" for n using print_nat_chars is_digit_not(1) by blast
  have ok: "octet_ok (print_nat n)" if "n < 256" for n
    using that length_print_nat [of n 2] by (simp add: octet_ok_def Suc_le_eq)
  have "split_at CHR ''.'' (inet_ntop4 w) = map print_nat [a, b, c, d]"
    using nd by (simp add: inet_ntop4_def e split_at_append split_at_none)
  then show ?thesis using ok l by (simp add: inet_pton4_def e Let_def)
qed



definition v4_prefix :: "u32 \<Rightarrow> int \<Rightarrow> prefix" where
  "v4_prefix a m = \<lparr>fam = V4, v4Addr = a, v4Mask = createMask m, v6Addr = [0, 0, 0, 0],
     v6Mask = v6Mask (snd (populateV6Mask m (makeBlankPrefix V4)))\<rparr>"

lemma ntop4_chars: "c \<in> set (inet_ntop4 w) \<Longrightarrow> is_digit c \<or> c = CHR ''.''"
  using print_nat_chars by (auto simp: inet_ntop4_def split: list.splits)

lemma ntop4_not:
  "CHR ''/'' \<notin> set (inet_ntop4 w)" "CHR '':'' \<notin> set (inet_ntop4 w)" "CHR 0x00 \<notin> set (inet_ntop4 w)" "inet_ntop4 w \<noteq> []"
  subgoal using ntop4_chars [of _ w] is_digit_not(2) by fastforce
  subgoal using ntop4_chars [of _ w] is_digit_not(3) by fastforce
  subgoal using ntop4_chars [of _ w] is_digit_not(4) by fastforce
  subgoal by (auto simp: inet_ntop4_def bytes_of_def)
  done

lemma populate_v6_other: "0 \<le> m \<Longrightarrow> m \<le> 128 \<Longrightarrow>
  v6Mask (snd (populateV6Mask m p)) = v6Mask (snd (populateV6Mask m q))"
  by (simp add: populateV6Mask_def Let_def)

lemma parse_v4:
  assumes h: "hint = V4 \<or> hint = INVALID" and sp: "splitIntoAddrAndMask s = Some (inet_ntop4 (htonl a), sub)"
    and s: "s \<noteq> []" "CHR '':'' \<notin> set s" and m: "parseSubnetMask sub V4 = m"
  shows "parser_add1 pton6 s hint p =
    (if 1 \<le> m \<and> m \<le> 32 then (True, p\<lparr>mPrefixes := mPrefixes p @ [v4_prefix a m]\<rparr>)
     else (False, p\<lparr>mLastErr := ''Invalid mask''\<rparr>))"
proof -
  have f: "(if hint = INVALID then guessIPFamily s else hint) = V4" using h s by (auto simp: guessIPFamily_def)
  have v: "isMaskValid m V4 \<longleftrightarrow> 1 \<le> m \<and> m \<le> 32" by (auto simp: isMaskValid_def)
  have a: "parseV4Addr (inet_ntop4 (htonl a)) q = (True, q\<lparr>v4Addr := a\<rparr>)" for q
    by (simp add: parseV4Addr_def c_str_id ntop4_not inet_pton4_ntop4)
  show ?thesis
  proof (cases "1 \<le> m \<and> m \<le> 32")
    case True
    let ?q = "(makeBlankPrefix V4)\<lparr>v4Addr := a, v4Mask := createMask m\<rparr>"
    have "populateV4Mask m ((makeBlankPrefix V4)\<lparr>v4Addr := a\<rparr>) = (True, ?q)"
      using True by (simp add: populateV4Mask_def)
    moreover have "populateV6Mask m ?q = (True, v4_prefix a m)"
      using True populateV6Mask_word(1) [of m ?q] populate_v6_other [of m ?q "makeBlankPrefix V4"]
      by (simp add: v4_prefix_def makeBlankPrefix_def)
    ultimately show ?thesis using True
      by (simp add: parser_add1_def s(1) f sp m v a Let_def)
  qed (simp add: parser_add1_def s(1) f sp m v Let_def)
qed

lemma split_slash:
  "splitIntoAddrAndMask (inet_ntop4 w @ CHR ''/'' # sub) = Some (inet_ntop4 w, sub)"
  "splitIntoAddrAndMask (inet_ntop4 w) = Some (inet_ntop4 w, [])"
proof -
  have "takeWhile (\<lambda>c. c \<noteq> CHR ''/'') (inet_ntop4 w @ CHR ''/'' # sub) = inet_ntop4 w"
    using ntop4_not(1) [of w] by (subst takeWhile_append2) auto
  then show "splitIntoAddrAndMask (inet_ntop4 w @ CHR ''/'' # sub) = Some (inet_ntop4 w, sub)"
    "splitIntoAddrAndMask (inet_ntop4 w) = Some (inet_ntop4 w, [])"
    by (simp_all add: splitIntoAddrAndMask_def Let_def ntop4_not)
qed

text \<open>
  C20: the parser reads back what is printed: an address in dotted notation, as the HAL prints those
  of a connection, followed by a slash and a number, gives one prefix with that address and the mask
  of that length if the number is between 1 and 32, and is refused otherwise; without a
  number the mask is full. This holds with the family given and with the family guessed.
\<close>

theorem prefix_v4_roundtrip:
  assumes "n < 2 ^ 31" and "hint = V4 \<or> hint = INVALID"
  shows "parser_add1 pton6 (inet_ntop4 (htonl a) @ ''/'' @ print_nat n) hint p =
      (if 1 \<le> n \<and> n \<le> 32 then (True, p\<lparr>mPrefixes := mPrefixes p @ [v4_prefix a (int n)]\<rparr>)
       else (False, p\<lparr>mLastErr := ''Invalid mask''\<rparr>)) \<and>
    parser_add1 pton6 (inet_ntop4 (htonl a)) hint p = (True, p\<lparr>mPrefixes := mPrefixes p @ [v4_prefix a 32]\<rparr>) \<and>
    v4Mask (v4_prefix a (int n)) = NOT (mask (32 - n))"
proof (intro conjI)
  have d: "CHR '':'' \<notin> set (print_nat n)" "CHR 0x00 \<notin> set (print_nat n)"
    using print_nat_chars is_digit_not by blast+
  have "parseSubnetMask (print_nat n) V4 = int n"
    using assms(1) d by (simp add: parseSubnetMask_def c_str_id atoi_print_nat)
  then show "parser_add1 pton6 (inet_ntop4 (htonl a) @ ''/'' @ print_nat n) hint p =
      (if 1 \<le> n \<and> n \<le> 32 then (True, p\<lparr>mPrefixes := mPrefixes p @ [v4_prefix a (int n)]\<rparr>)
       else (False, p\<lparr>mLastErr := ''Invalid mask''\<rparr>))"
    using assms(2) d ntop4_not by (subst parse_v4) (auto simp: split_slash)
  show "parser_add1 pton6 (inet_ntop4 (htonl a)) hint p = (True, p\<lparr>mPrefixes := mPrefixes p @ [v4_prefix a 32]\<rparr>)"
    using assms(2) ntop4_not by (subst parse_v4 [where m = 32 and sub = "[]"]) (auto simp: split_slash parseSubnetMask_def)
  show "v4Mask (v4_prefix a (int n)) = NOT (mask (32 - n))"
    by (simp add: v4_prefix_def createMask_top)
qed

lemma prefix_v4_roundtrip_witness:
  "parser_add1 (\<lambda>_. None) (inet_ntop4 (htonl 0xC0A80100) @ ''/'' @ print_nat 24) INVALID new_parser =
   (True, new_parser\<lparr>mPrefixes := [v4_prefix 0xC0A80100 24]\<rparr>)"
  using prefix_v4_roundtrip [of 24 INVALID "\<lambda>_. None" "0xC0A80100" new_parser] by (simp add: new_parser_def)

text \<open>
  for every length from 1 to the one of the family, and only for those, a prefix
  gets a mask, and its words together are that many ones followed by zeros: 32 bits for IPv4, 128 for IPv6.
\<close>

theorem prefix_masks:
  "(isMaskValid m V4 \<longleftrightarrow> 1 \<le> m \<and> m \<le> 32) \<and> (isMaskValid m V6 \<longleftrightarrow> 1 \<le> m \<and> m \<le> 128) \<and>
   (isMaskValid m V4 \<longrightarrow> populateV4Mask m q = (True, q\<lparr>v4Mask := NOT (mask (32 - nat m))\<rparr>)) \<and>
   (isMaskValid m V6 \<longrightarrow> (\<exists>ws. populateV6Mask m q = (True, q\<lparr>v6Mask := ws\<rparr>) \<and> length ws = 4 \<and>
      v6_word ws = NOT (mask (128 - nat m))))"
  using populateV6Mask_word [of m q]
  by (auto simp: isMaskValid_def populateV4Mask_def createMask_top)

lemma prefix_masks_witness:
  "populateV4Mask 24 (makeBlankPrefix V4) = (True, (makeBlankPrefix V4)\<lparr>v4Mask := NOT (mask 8)\<rparr>)"
  using prefix_masks [of 24 "makeBlankPrefix V4"] by (simp add: isMaskValid_def)

end
