(* ===== verification/NatIfaces.thy ===== *)
theory NatIfaces
  imports OffloadPrefix
begin

text \<open>
  The list of interfaces with NAT rules that \<open>IPACM_Config.cpp\<close> keeps, on an array that is allocated
  for the interfaces of the configuration file. The manager of tethering offload asks it whether an
  interface is ready.
\<close>

section \<open>Interfaces with NAT rules\<close>

record nat_iface =
  iface_name :: string
  v4_up :: bool
  v6_up :: bool

text \<open>The array has \<open>ipa_num_ipa_interfaces\<close> elements; a result \<open>None\<close> is an access beyond them.\<close>

record nat_config =
  pNatIfaces :: "nat_iface list"
  ipa_nat_iface_entries :: nat

definition zero_iface :: nat_iface where
  "zero_iface = \<lparr>iface_name = [], v4_up = False, v6_up = False\<rparr>"

definition new_nat_config :: "nat \<Rightarrow> nat_config" where
  "new_nat_config ipa_num_ipa_interfaces =
     \<lparr>pNatIfaces = replicate ipa_num_ipa_interfaces zero_iface, ipa_nat_iface_entries = 0\<rparr>"

text \<open>The loops over the entries: the position of the first with that name, if any.\<close>

definition find_iface :: "string \<Rightarrow> nat_config \<Rightarrow> nat option option" where
  "find_iface name c =
     (let n = ipa_nat_iface_entries c;
          i = first_index (\<lambda>e. iface_name e = name) (take n (pNatIfaces c))
      in if i < min n (length (pNatIfaces c)) then Some (Some i)
         else if n \<le> length (pNatIfaces c) then Some None else None)"

definition set_up :: "ip_fam \<Rightarrow> nat_iface \<Rightarrow> nat_iface" where
  "set_up f e = (if f = V4 then e\<lparr>v4_up := True\<rparr> else if f = V6 then e\<lparr>v6_up := True\<rparr> else e)"

definition AddNatIfaces :: "string \<Rightarrow> ip_fam \<Rightarrow> nat_config \<Rightarrow> nat_config option" where
  "AddNatIfaces name f c =
     (case find_iface name c of
        None \<Rightarrow> None
      | Some (Some i) \<Rightarrow> Some (c\<lparr>pNatIfaces := (pNatIfaces c)[i := set_up f (pNatIfaces c ! i)]\<rparr>)
      | Some None \<Rightarrow>
          let n = ipa_nat_iface_entries c + 1; c1 = c\<lparr>ipa_nat_iface_entries := n\<rparr>
          in if n < length (pNatIfaces c)
             then Some (c1\<lparr>pNatIfaces := (pNatIfaces c)[n - 1 := set_up f ((pNatIfaces c ! (n - 1))\<lparr>iface_name := take 15 name\<rparr>)]\<rparr>)
             else Some c1)"

definition DelNatIfaces :: "string \<Rightarrow> nat_config \<Rightarrow> nat_config option" where
  "DelNatIfaces name c =
     (case find_iface name c of
        None \<Rightarrow> None
      | Some None \<Rightarrow> Some c
      | Some (Some i) \<Rightarrow>
          let n = ipa_nat_iface_entries c; xs = pNatIfaces c
          in if n \<le> length xs
             then Some \<lparr>pNatIfaces = take i xs @ drop (i + 1) (take n xs) @ [zero_iface] @ drop n xs, ipa_nat_iface_entries = n - 1\<rparr>
             else None)"

definition CheckNatIfaces :: "string \<Rightarrow> ip_fam \<Rightarrow> nat_config \<Rightarrow> int option" where
  "CheckNatIfaces name f c =
     (case find_iface name c of
        None \<Rightarrow> None
      | Some None \<Rightarrow> Some (- 1)
      | Some (Some i) \<Rightarrow>
          let e = pNatIfaces c ! i
          in Some (if f = V4 \<and> v4_up e then 0 else if f = V6 \<and> v6_up e then 0 else - 1))"

text \<open>The names of the first \<open>nIfaces\<close> entries, for a client with an array of that length.\<close>

definition GetNatIfaces :: "nat \<Rightarrow> nat_config \<Rightarrow> (int \<times> string list) option" where
  "GetNatIfaces nIfaces c =
     (if nIfaces = 0 then Some (- 1, [])
      else if nIfaces \<le> length (pNatIfaces c) then Some (0, map iface_name (take nIfaces (pNatIfaces c)))
      else None)"

section \<open>The list of interfaces as a map\<close>

text \<open>The configuration whose used entries are \<open>es\<close>; the others are still zero.\<close>

definition mk_config :: "nat \<Rightarrow> nat_iface list \<Rightarrow> nat_config" where
  "mk_config num es = \<lparr>pNatIfaces = es @ replicate (num - length es) zero_iface, ipa_nat_iface_entries = length es\<rparr>"

abbreviation named :: "string \<Rightarrow> nat_iface \<Rightarrow> bool" where
  "named name \<equiv> \<lambda>e. iface_name e = name"

lemma find_iface_mk [simp]:
  "find_iface name (mk_config num es) =
     Some (if name \<in> iface_name ` set es then Some (first_index (named name) es) else None)"
proof (cases "name \<in> iface_name ` set es")
  case True
  then have "first_index (named name) es < length es" by (auto simp: first_index_less)
  then show ?thesis using True by (simp add: find_iface_def mk_config_def Let_def)
next
  case False
  then have "first_index (named name) es = length es" by (auto simp: first_index_eq_length)
  then show ?thesis using False by (simp add: find_iface_def mk_config_def Let_def)
qed

definition add_entry :: "string \<Rightarrow> ip_fam \<Rightarrow> nat_iface list \<Rightarrow> nat_iface list" where
  "add_entry name f es =
     (if name \<in> iface_name ` set es
      then let i = first_index (named name) es in es[i := set_up f (es ! i)]
      else es @ [set_up f (zero_iface\<lparr>iface_name := name\<rparr>)])"

definition del_entry :: "string \<Rightarrow> nat_iface list \<Rightarrow> nat_iface list" where
  "del_entry name es =
     (let i = first_index (named name) es in take i es @ drop (i + 1) es)"

lemma first_index_named:
  assumes "name \<in> iface_name ` set es"
  shows "first_index (named name) es < length es" "iface_name (es ! first_index (named name) es) = name"
proof -
  show "first_index (named name) es < length es" using assms by (auto simp: first_index_less)
  then show "iface_name (es ! first_index (named name) es) = name" by (rule first_index_holds)
qed

lemma Add_mk:
  assumes "length name \<le> 15" and "name \<in> iface_name ` set es \<or> length es + 1 < num"
  shows "AddNatIfaces name f (mk_config num es) = Some (mk_config num (add_entry name f es))"
proof (cases "name \<in> iface_name ` set es")
  case True
  then show ?thesis using first_index_named [OF True]
    by (simp add: AddNatIfaces_def add_entry_def Let_def) (simp add: mk_config_def list_update_append nth_append)
next
  case False
  then have l: "length es + 1 < num" using assms(2) by simp
  then have "num - length es = Suc (Suc (num - length es - 2))" by simp
  then obtain k where k: "num - length es = Suc (Suc k)" by blast
  then have k': "num - Suc (length es) = Suc k" by simp
  show ?thesis using False l assms(1)
    by (simp add: AddNatIfaces_def add_entry_def Let_def)
      (simp add: mk_config_def k k' nth_append list_update_append)
qed

lemma Del_mk:
  assumes "length es \<le> num"
  shows "DelNatIfaces name (mk_config num es) = Some (mk_config num (del_entry name es))"
proof (cases "name \<in> iface_name ` set es")
  case True
  let ?i = "first_index (named name) es"
  have i: "?i < length es" by (rule first_index_named [OF True])
  have r: "num - (length es - Suc 0) = Suc (num - length es)" using i assms by simp
  show ?thesis using True i assms
    by (simp add: DelNatIfaces_def Let_def) (simp add: mk_config_def del_entry_def Let_def r min_def)
next
  case False
  then have "first_index (named name) es = length es" by (auto simp: first_index_eq_length)
  then show ?thesis using False by (simp add: DelNatIfaces_def del_entry_def Let_def)
qed

definition iface_up :: "string \<Rightarrow> ip_fam \<Rightarrow> nat_iface list \<Rightarrow> bool" where
  "iface_up name f es = list_ex (\<lambda>e. iface_name e = name \<and> (f = V4 \<and> v4_up e \<or> f = V6 \<and> v6_up e)) es"

lemma distinct_first_index:
  assumes "distinct (map iface_name es)" and "e \<in> set es" and "iface_name e = name"
  shows "e = es ! first_index (named name) es"
proof -
  have m: "name \<in> iface_name ` set es" using assms by auto
  obtain j where "j < length es" "e = es ! j" using assms(2) by (auto simp: in_set_conv_nth)
  then show ?thesis using assms(1,3) first_index_named [OF m] by (auto simp: distinct_map inj_on_def)
qed

lemma Check_mk:
  assumes "distinct (map iface_name es)"
  shows "CheckNatIfaces name f (mk_config num es) = Some (if iface_up name f es then 0 else - 1)"
proof (cases "name \<in> iface_name ` set es")
  case True
  let ?i = "first_index (named name) es"
  have i: "?i < length es" "iface_name (es ! ?i) = name" by (rule first_index_named [OF True])+
  have "iface_up name f es \<longleftrightarrow> f = V4 \<and> v4_up (es ! ?i) \<or> f = V6 \<and> v6_up (es ! ?i)"
    using i distinct_first_index [OF assms] by (auto simp: iface_up_def list_ex_iff)
  moreover have "pNatIfaces (mk_config num es) ! ?i = es ! ?i" using i by (simp add: mk_config_def nth_append)
  ultimately show ?thesis using True by (auto simp: CheckNatIfaces_def Let_def)
next
  case False
  then show ?thesis by (auto simp: CheckNatIfaces_def iface_up_def list_ex_iff)
qed

datatype iface_op = AddIface string ip_fam | DelIface string

fun iface_step :: "iface_op \<Rightarrow> nat_config \<Rightarrow> nat_config option" where
  "iface_step (AddIface name f) c = AddNatIfaces name f c"
| "iface_step (DelIface name) c = DelNatIfaces name c"

primrec iface_run :: "iface_op list \<Rightarrow> nat_config \<Rightarrow> nat_config option" where
  "iface_run [] c = Some c"
| "iface_run (x # xs) c = (case iface_step x c of None \<Rightarrow> None | Some c' \<Rightarrow> iface_run xs c')"

text \<open>The specification: the interface was added for the family, and not deleted since.\<close>

fun up_step :: "string \<Rightarrow> ip_fam \<Rightarrow> iface_op \<Rightarrow> bool \<Rightarrow> bool" where
  "up_step name f (AddIface n g) u = (u \<or> n = name \<and> g = f)"
| "up_step name f (DelIface n) u = (u \<and> n \<noteq> name)"

definition up_after :: "string \<Rightarrow> ip_fam \<Rightarrow> iface_op list \<Rightarrow> bool" where
  "up_after name f ops = fold (up_step name f) ops False"

fun added :: "iface_op list \<Rightarrow> string set" where
  "added [] = {}"
| "added (AddIface n f # xs) = insert n (added xs)"
| "added (DelIface n # xs) = added xs"

lemma iface_name_set_up [simp]: "iface_name (set_up f e) = iface_name e"
  by (simp add: set_up_def)

lemma add_entry_props:
  assumes "distinct (map iface_name es)"
  shows "distinct (map iface_name (add_entry n g es))" "iface_name ` set (add_entry n g es) = insert n (iface_name ` set es)"
    "f \<noteq> INVALID \<Longrightarrow> iface_up name f (add_entry n g es) \<longleftrightarrow> iface_up name f es \<or> n = name \<and> g = f"
proof -
  let ?i = "first_index (named n) es"
  have m: "map iface_name (add_entry n g es) = (if n \<in> iface_name ` set es then map iface_name es else map iface_name es @ [n])"
    using first_index_named [of n es]
    by (auto simp: add_entry_def map_update Let_def list_update_same_conv)
  show "distinct (map iface_name (add_entry n g es))" using assms by (auto simp: m)
  have "set (map iface_name (add_entry n g es)) = insert n (set (map iface_name es))" by (auto simp: m)
  then show "iface_name ` set (add_entry n g es) = insert n (iface_name ` set es)" by simp
  show "iface_up name f (add_entry n g es) \<longleftrightarrow> iface_up name f es \<or> n = name \<and> g = f" if "f \<noteq> INVALID"
  proof (cases "n \<in> iface_name ` set es")
    case True
    have i: "?i < length es" "iface_name (es ! ?i) = n" by (rule first_index_named [OF True])+
    have "es = take ?i es @ es ! ?i # drop (Suc ?i) es" using i(1) by (rule id_take_nth_drop)
    moreover have "add_entry n g es = take ?i es @ set_up g (es ! ?i) # drop (Suc ?i) es"
      using True i(1) by (simp add: add_entry_def Let_def upd_conv_take_nth_drop)
    moreover have "iface_up name f (xs @ x # ys) \<longleftrightarrow> iface_up name f xs \<or> iface_up name f [x] \<or> iface_up name f ys" for xs x ys
      by (simp add: iface_up_def)
    ultimately have "iface_up name f es \<longleftrightarrow> iface_up name f (take ?i es) \<or> iface_up name f [es ! ?i] \<or> iface_up name f (drop (Suc ?i) es)"
      "iface_up name f (add_entry n g es) \<longleftrightarrow> iface_up name f (take ?i es) \<or> iface_up name f [set_up g (es ! ?i)] \<or> iface_up name f (drop (Suc ?i) es)"
      by metis+
    moreover have "iface_up name f [set_up g (es ! ?i)] \<longleftrightarrow> iface_up name f [es ! ?i] \<or> n = name \<and> g = f"
      using i(2) that by (cases f; cases g) (auto simp: iface_up_def set_up_def)
    ultimately show ?thesis by blast
  next
    case False
    then show ?thesis using that
      by (cases f; cases g) (auto simp: add_entry_def iface_up_def list_ex_append set_up_def zero_iface_def)
  qed
qed

lemma del_entry_props:
  assumes "distinct (map iface_name es)"
  shows "distinct (map iface_name (del_entry n es))" "iface_name ` set (del_entry n es) \<subseteq> iface_name ` set es"
    "iface_up name f (del_entry n es) \<longleftrightarrow> iface_up name f es \<and> n \<noteq> name" "length (del_entry n es) \<le> length es"
proof -
  have "del_entry n es = filter (\<lambda>e. iface_name e \<noteq> n) es" using assms
  proof (induction es)
    case (Cons e es)
    show ?case
    proof (cases "iface_name e = n")
      case True
      have "iface_name x \<noteq> n" if "x \<in> set es" for x using Cons.prems that True by (metis distinct.simps(2) image_eqI list.simps(9) set_map)
      then have "filter (\<lambda>e. iface_name e \<noteq> n) es = es" by (simp add: filter_True)
      then show ?thesis using True by (simp add: del_entry_def)
    next
      case False
      then show ?thesis using Cons by (simp add: del_entry_def Let_def)
    qed
  qed (simp add: del_entry_def)
  note e = this
  show "distinct (map iface_name (del_entry n es))" using assms by (simp add: e distinct_map_filter)
  show "iface_name ` set (del_entry n es) \<subseteq> iface_name ` set es" by (auto simp: e)
  show "iface_up name f (del_entry n es) \<longleftrightarrow> iface_up name f es \<and> n \<noteq> name" by (auto simp: e iface_up_def list_ex_iff)
  show "length (del_entry n es) \<le> length es" by (simp add: e)
qed

lemma iface_run_mk:
  assumes "distinct (map iface_name es)" and "finite S" and "iface_name ` set es \<union> added ops \<subseteq> S" and "card S < num"
    and "\<forall>n \<in> added ops. length n \<le> 15"
  shows "\<exists>es'. iface_run ops (mk_config num es) = Some (mk_config num es') \<and> distinct (map iface_name es') \<and>
    (\<forall>name f. f \<noteq> INVALID \<longrightarrow> iface_up name f es' = fold (up_step name f) ops (iface_up name f es))"
  using assms
proof (induction ops arbitrary: es)
  case Nil
  then show ?case by (intro exI [of _ es]) simp
next
  case (Cons x xs)
  have "length es = card (iface_name ` set es)" using Cons.prems(1) by (metis distinct_card length_map set_map)
  also have "\<dots> \<le> card S" using Cons.prems(2,3) by (intro card_mono) auto
  finally have len: "length es < num" using Cons.prems(4) by simp
  show ?case
  proof (cases x)
    case (AddIface n g)
    have "n \<in> iface_name ` set es \<or> length es + 1 < num"
    proof (rule disjCI)
      assume "\<not> length es + 1 < num"
      show "n \<in> iface_name ` set es"
      proof (rule ccontr)
        assume new: "n \<notin> iface_name ` set es"
        have "card (insert n (iface_name ` set es)) \<le> card S" using Cons.prems(2,3) AddIface by (intro card_mono) auto
        then have "Suc (length es) \<le> card S" using new Cons.prems(1) by (simp add: \<open>length es = card (iface_name ` set es)\<close>)
        then show False using \<open>\<not> length es + 1 < num\<close> Cons.prems(4) by simp
      qed
    qed
    then have "iface_step x (mk_config num es) = Some (mk_config num (add_entry n g es))"
      using Cons.prems(5) AddIface by (simp add: Add_mk)
    then show ?thesis
      using Cons.IH [of "add_entry n g es"] Cons.prems AddIface add_entry_props [OF Cons.prems(1)] by simp
  next
    case (DelIface n)
    have "iface_step x (mk_config num es) = Some (mk_config num (del_entry n es))" using DelIface len by (simp add: Del_mk)
    moreover have "iface_name ` set (del_entry n es) \<union> added xs \<subseteq> S"
      using Cons.prems(3) DelIface del_entry_props(2) [OF Cons.prems(1), of n] by auto
    ultimately show ?thesis
      using Cons.IH [of "del_entry n es"] Cons.prems DelIface del_entry_props [OF Cons.prems(1)] by simp
  qed
qed

lemma iface_run_append:
  "iface_run (xs @ ys) c = (case iface_run xs c of None \<Rightarrow> None | Some c' \<Rightarrow> iface_run ys c')"
  by (induction xs arbitrary: c) (simp_all split: option.split)

lemma iface_run_check:
  assumes "iface_run ops (new_nat_config num) = Some c" and "card (added ops) < num" and "\<forall>n \<in> added ops. length n \<le> 15"
    and "f \<noteq> INVALID"
  shows "CheckNatIfaces name f c = Some (if up_after name f ops then 0 else - 1)"
proof -
  have fin: "finite (added ops)" by (induction ops rule: added.induct) auto
  have n: "new_nat_config num = mk_config num []" by (simp add: new_nat_config_def mk_config_def)
  obtain es where "iface_run ops (mk_config num []) = Some (mk_config num es)" "distinct (map iface_name es)"
      "\<And>name f. f \<noteq> INVALID \<Longrightarrow> iface_up name f es = fold (up_step name f) ops (iface_up name f [])"
    using iface_run_mk [of "[]" "added ops" ops num] fin assms by auto
  then show ?thesis using assms(1,4) Check_mk by (auto simp: n up_after_def iface_up_def)
qed

text \<open>
  As long as fewer different interfaces are added than are configured, the list never runs out
  of bounds and answers for each interface and family whether it was added and not deleted since.
\<close>

theorem nat_ifaces_exact:
  assumes "card (added ops) < num" and "\<forall>n \<in> added ops. length n \<le> 15" and "f \<noteq> INVALID"
  shows "\<exists>c. iface_run ops (new_nat_config num) = Some c \<and>
    CheckNatIfaces name f c = Some (if up_after name f ops then 0 else - 1)"
proof -
  have fin: "finite (added ops)" by (induction ops rule: added.induct) auto
  have n: "new_nat_config num = mk_config num []" by (simp add: new_nat_config_def mk_config_def)
  obtain c where c: "iface_run ops (new_nat_config num) = Some c"
    using iface_run_mk [of "[]" "added ops" ops num] fin assms by (auto simp: n)
  show ?thesis using c iface_run_check [OF c assms] by blast
qed

lemma nat_ifaces_exact_witness:
  "\<exists>c. iface_run [AddIface ''rmnet0'' V4, AddIface ''wlan0'' V6, DelIface ''rmnet0''] (new_nat_config 3) = Some c \<and>
     CheckNatIfaces ''wlan0'' V6 c = Some 0"
  using nat_ifaces_exact [of "[AddIface ''rmnet0'' V4, AddIface ''wlan0'' V6, DelIface ''rmnet0'']" 3 V6 "''wlan0''"]
  by (simp add: up_after_def)

text \<open>
  When as many are added as are configured, the last one is counted but not stored: it never counts as up, and
  after one more the loops leave the array.
\<close>

lemma nat_ifaces_last_lost:
  assumes "length es + 1 = num" and "n \<notin> iface_name ` set es" and "n \<noteq> []" and "distinct (map iface_name es)"
    and "m \<notin> iface_name ` set es" and "m \<noteq> []"
  shows "\<exists>c c'. AddNatIfaces n V4 (mk_config num es) = Some c \<and> CheckNatIfaces n V4 c = Some (- 1) \<and>
    AddNatIfaces m V4 c = Some c' \<and> CheckNatIfaces m V4 c' = None"
proof -
  let ?xs = "es @ [zero_iface]"
  let ?c = "\<lparr>pNatIfaces = ?xs, ipa_nat_iface_entries = length es + 1\<rparr>"
  let ?c' = "?c\<lparr>ipa_nat_iface_entries := length es + 2\<rparr>"
  have l: "num - length es = Suc 0" using assms(1) by simp
  have add: "AddNatIfaces n V4 (mk_config num es) = Some ?c"
    using assms(1,2) by (simp add: AddNatIfaces_def Let_def) (simp add: mk_config_def l)
  have fi: "first_index (named k) ?xs = length es + 1" if "k \<notin> iface_name ` set es" "k \<noteq> []" for k
  proof -
    have "first_index (named k) ?xs = length ?xs" using that by (subst first_index_eq_length) (auto simp: zero_iface_def)
    then show ?thesis by simp
  qed
  have "find_iface n ?c = Some None" "find_iface m ?c = Some None" "find_iface m ?c' = None"
    using fi assms by (simp_all add: find_iface_def Let_def)
  then have "CheckNatIfaces n V4 ?c = Some (- 1)" "AddNatIfaces m V4 ?c = Some ?c'" "CheckNatIfaces m V4 ?c' = None"
    by (simp_all add: CheckNatIfaces_def AddNatIfaces_def Let_def)
  then show ?thesis using add by blast
qed
end
