(* ===== verification/OffloadManager.thy ===== *)
theory OffloadManager
  imports NatIfaces
begin

text \<open>
  The IPACM side of tethering offload, \<open>IPACM_OffloadManager.cpp\<close>: the manager turns the requests
  of the framework into events for the interfaces and keeps those that come too early in a cache.

  What the kernel answers is a parameter of each call: the index of an interface, the copies of file
  descriptors, and the results of the calls on \<open>/dev/wwan_ioctl\<close>. The posted events and the calls
  to the outside are kept in the order in which they happen. Allocation succeeds. Interface names are C
  strings, without their terminating zero.
\<close>

section \<open>Data of the manager\<close>

datatype RET = FAIL_TOO_MANY_PREFIXES | FAIL_UNSUPPORTED | FAIL_INPUT_CHECK | FAIL_HARDWARE | FAIL_UNNEEDED
  | FAIL_TRY_AGAIN | SUCCESS | SUCCESS_DUPLICATE_CONFIG | SUCCESS_NO_OP | SUCCESS_OPTIMIZED

datatype cm_event_id = IPA_CFG_CHANGE_EVENT | IPA_DOWNSTREAM_ADD | IPA_DOWNSTREAM_DEL
  | IPA_WAN_UPSTREAM_ROUTE_ADD_EVENT | IPA_WAN_UPSTREAM_ROUTE_DEL_EVENT

text \<open>The events it posts: of an upstream route, with family, interface and gateway, or of a downstream.\<close>

datatype offload_evt =
    RouteEvt cm_event_id ip_fam int u32 "u32 list"
  | StreamEvt cm_event_id int prefix

datatype outside_call =
    SetQuota string "64 word"
  | QueryStats string bool
  | ResetStats string
  | SetNoEnobufs int
  | CreateConnTrackThreads

record framework_event_cache =
  event :: cm_event_id
  dev_name :: string
  prefix_cache :: prefix
  prefix_cache_v6 :: prefix
  valid :: bool

record offload_mgr =
  elrInstance :: "nat option"
  touInstance :: "nat option"
  valid_ifaces :: "string list"
  upstream_v4_up :: bool
  upstream_v6_up :: bool
  default_gw_index :: int
  event_cache :: "framework_event_cache list"
  latest_cache_index :: nat
  is_cache :: bool
  fd_tcp :: int
  fd_udp :: int
  posted :: "offload_evt list"
  outside :: "outside_call list"

text \<open>
  The answers of the world to a call. \<open>netdev\<close> gives the index of an interface, \<open>nat_ready\<close> the
  answer of \<open>CheckNatIfaces\<close>.
\<close>

datatype quota_answer = QuotaOk | QuotaNoDevice | QuotaError

record offload_env =
  netdev :: "string \<Rightarrow> int option"
  nat_ready :: "string \<Rightarrow> ip_fam \<Rightarrow> bool"
  ct_client :: bool
  dup_fd :: "int \<Rightarrow> int"
  wwan_opens :: bool
  quota_answer :: quota_answer
  stats_answer :: "(64 word \<times> 64 word) option"

definition INVALID_IFACE :: int where
  "INVALID_IFACE = - 1"

definition blank_entry :: framework_event_cache where
  "blank_entry = \<lparr>event = IPA_CFG_CHANGE_EVENT, dev_name = [], prefix_cache = makeBlankPrefix V4,
     prefix_cache_v6 = makeBlankPrefix V4, valid = False\<rparr>"

definition blank_cache :: "framework_event_cache list" where
  "blank_cache = replicate 10 blank_entry"

definition new_mgr :: offload_mgr where
  "new_mgr =
     \<lparr>elrInstance = None, touInstance = None, valid_ifaces = [], upstream_v4_up = False, upstream_v6_up = False,
      default_gw_index = INVALID_IFACE, event_cache = blank_cache, latest_cache_index = 0, is_cache = False,
      fd_tcp = - 1, fd_udp = - 1, posted = [], outside = []\<rparr>"

section \<open>Listeners and file descriptors\<close>

text \<open>The result that is computed for a second registration is not the one that is returned.\<close>

definition registerEventListener :: "nat \<Rightarrow> offload_mgr \<Rightarrow> RET \<times> offload_mgr" where
  "registerEventListener l s = (SUCCESS, s\<lparr>elrInstance := Some l\<rparr>)"

definition unregisterEventListener :: "offload_mgr \<Rightarrow> RET \<times> offload_mgr" where
  "unregisterEventListener s = (SUCCESS, if elrInstance s \<noteq> None then s\<lparr>elrInstance := None\<rparr> else s)"

definition registerCtTimeoutUpdater :: "nat \<Rightarrow> offload_mgr \<Rightarrow> RET \<times> offload_mgr" where
  "registerCtTimeoutUpdater l s = (SUCCESS, s\<lparr>touInstance := Some l\<rparr>)"

definition unregisterCtTimeoutUpdater :: "offload_mgr \<Rightarrow> RET \<times> offload_mgr" where
  "unregisterCtTimeoutUpdater s = (SUCCESS, if touInstance s \<noteq> None then s\<lparr>touInstance := None\<rparr> else s)"

definition call_out :: "outside_call \<Rightarrow> offload_mgr \<Rightarrow> offload_mgr" where
  "call_out c s = s\<lparr>outside := outside s @ [c]\<rparr>"

text \<open>The groups of a file descriptor: those of the TCP, of the UDP subscription, or others.\<close>

datatype ct_groups = TCP_SUBSCRIPTIONS | UDP_SUBSCRIPTIONS | OTHER_GROUPS

definition provideFd :: "offload_env \<Rightarrow> int \<Rightarrow> ct_groups \<Rightarrow> offload_mgr \<Rightarrow> RET \<times> offload_mgr" where
  "provideFd env fd groups s =
     (if \<not> ct_client env then (FAIL_HARDWARE, s)
      else if fd_tcp s > - 1 \<and> fd_udp s > - 1 then (SUCCESS, s)
      else
        let s1 = (case groups of
                    TCP_SUBSCRIPTIONS \<Rightarrow> let s' = s\<lparr>fd_tcp := dup_fd env fd\<rparr> in call_out (SetNoEnobufs (fd_tcp s')) s'
                  | UDP_SUBSCRIPTIONS \<Rightarrow> let s' = s\<lparr>fd_udp := dup_fd env fd\<rparr> in call_out (SetNoEnobufs (fd_tcp s')) s'
                  | OTHER_GROUPS \<Rightarrow> s)
        in (SUCCESS, if fd_tcp s1 > 0 \<and> fd_udp s1 > 0 then call_out CreateConnTrackThreads s1 else s1))"

definition clearAllFds :: RET where
  "clearAllFds = SUCCESS"

section \<open>Downstreams\<close>

text \<open>The bound of \<open>strnlen\<close> is the size of a pointer, so the name is never found too long, but cut.\<close>

definition ipa_get_if_index :: "offload_env \<Rightarrow> string \<Rightarrow> int option" where
  "ipa_get_if_index env if_name = (if min (length if_name) 8 \<ge> 16 then None else netdev env (take 15 if_name))"

definition post_evt :: "offload_evt \<Rightarrow> offload_mgr \<Rightarrow> offload_mgr" where
  "post_evt e s = s\<lparr>posted := posted s @ [e]\<rparr>"

text \<open>
  The loop that looks for a free entry from the latest one on; the result says whether one was found. The
  argument is the number of rounds that are left.
\<close>

fun cache_put ::
  "nat \<Rightarrow> (framework_event_cache \<Rightarrow> framework_event_cache) \<Rightarrow> offload_mgr \<Rightarrow> bool \<times> offload_mgr" where
  "cache_put 0 f s = (False, s)"
| "cache_put (Suc rounds) f s =
     (let k = latest_cache_index s; e = event_cache s ! k;
          s1 = s\<lparr>latest_cache_index := (k + 1) mod 10\<rparr>
      in if \<not> valid e
         then (True, s1\<lparr>event_cache := (event_cache s)[k := f e]\<rparr>)
         else cache_put rounds f s1)"

definition addDownstream :: "offload_env \<Rightarrow> string \<Rightarrow> prefix \<Rightarrow> offload_mgr \<Rightarrow> RET \<times> offload_mgr" where
  "addDownstream env name pre s =
     (case ipa_get_if_index env name of
        None \<Rightarrow> (FAIL_INPUT_CHECK, s)
      | Some index \<Rightarrow>
          let s1 = (if name \<in> set (valid_ifaces s) then s else s\<lparr>valid_ifaces := valid_ifaces s @ [name]\<rparr>);
              cache_need = (fam pre = V4 \<and> \<not> nat_ready env name V4 \<or> fam pre = V6 \<and> \<not> nat_ready env name V6)
          in if cache_need
             then
               let (ok, s2) = cache_put 10
                     (\<lambda>e. e\<lparr>valid := True, event := IPA_DOWNSTREAM_ADD, dev_name := take 16 name, prefix_cache := pre\<rparr>) s1
               in (if ok then SUCCESS else FAIL_HARDWARE, s2)
             else (SUCCESS, post_evt (StreamEvt IPA_DOWNSTREAM_ADD index pre) s1))"

definition removeDownstream :: "offload_env \<Rightarrow> string \<Rightarrow> prefix \<Rightarrow> offload_mgr \<Rightarrow> RET \<times> offload_mgr" where
  "removeDownstream env name pre s =
     (if name = [] then (FAIL_HARDWARE, s)
      else if name \<notin> set (valid_ifaces s) then (FAIL_HARDWARE, s)
      else case ipa_get_if_index env name of
             None \<Rightarrow> (SUCCESS, s)
           | Some index \<Rightarrow> (SUCCESS, post_evt (StreamEvt IPA_DOWNSTREAM_DEL index pre) s))"

section \<open>The upstream\<close>

definition post_route_evt :: "ip_fam \<Rightarrow> int \<Rightarrow> cm_event_id \<Rightarrow> prefix \<Rightarrow> offload_mgr \<Rightarrow> offload_mgr" where
  "post_route_evt iptype index e gw s = post_evt (RouteEvt e iptype index (v4Addr gw) (v6Addr gw)) s"

text \<open>Posting the end or the begin of a route, with the flag that goes with it.\<close>

definition close_v4 :: "prefix \<Rightarrow> offload_mgr \<Rightarrow> offload_mgr" where
  "close_v4 gw s = (post_route_evt V4 (default_gw_index s) IPA_WAN_UPSTREAM_ROUTE_DEL_EVENT gw s)\<lparr>upstream_v4_up := False\<rparr>"

definition close_v6 :: "prefix \<Rightarrow> offload_mgr \<Rightarrow> offload_mgr" where
  "close_v6 gw s = (post_route_evt V6 (default_gw_index s) IPA_WAN_UPSTREAM_ROUTE_DEL_EVENT gw s)\<lparr>upstream_v6_up := False\<rparr>"

definition open_v4 :: "int \<Rightarrow> prefix \<Rightarrow> offload_mgr \<Rightarrow> offload_mgr" where
  "open_v4 index gw s = (post_route_evt V4 index IPA_WAN_UPSTREAM_ROUTE_ADD_EVENT gw s)\<lparr>upstream_v4_up := True\<rparr>"

definition open_v6 :: "int \<Rightarrow> prefix \<Rightarrow> offload_mgr \<Rightarrow> offload_mgr" where
  "open_v6 index gw s =
     (if list_all (\<lambda>w. w = 0) (v6Addr gw) then s
      else (post_route_evt V6 index IPA_WAN_UPSTREAM_ROUTE_ADD_EVENT gw s)\<lparr>upstream_v6_up := True\<rparr>)"

definition resetTetherStats :: "offload_env \<Rightarrow> string \<Rightarrow> offload_mgr \<Rightarrow> offload_mgr" where
  "resetTetherStats env name s =
     (if \<not> wwan_opens env then s else if length name \<ge> 16 then s else call_out (ResetStats name) s)"

text \<open>No interface: the default route is removed, or a pending upstream with all that is pending.\<close>

definition clearUpstream :: "prefix \<Rightarrow> prefix \<Rightarrow> offload_mgr \<Rightarrow> RET \<times> offload_mgr" where
  "clearUpstream gw4 gw6 s =
     (if default_gw_index s = INVALID_IFACE
      then if list_ex (\<lambda>e. valid e \<and> event e = IPA_WAN_UPSTREAM_ROUTE_ADD_EVENT) (event_cache s)
           then (SUCCESS, s\<lparr>event_cache := blank_cache\<rparr>)
           else (FAIL_INPUT_CHECK, s)
      else
        let s1 = (if fam gw4 = V4 \<and> upstream_v4_up s then close_v4 gw4 s else s);
            s2 = (if fam gw6 = V6 \<and> upstream_v6_up s1 then close_v6 gw6 s1 else s1)
        in (SUCCESS, s2\<lparr>default_gw_index := INVALID_IFACE\<rparr>))"

text \<open>A change of the interface ends the routes of the old one.\<close>

definition switchUpstream :: "offload_env \<Rightarrow> string \<Rightarrow> int \<Rightarrow> prefix \<Rightarrow> prefix \<Rightarrow> offload_mgr \<Rightarrow> offload_mgr" where
  "switchUpstream env name index gw4 gw6 s =
     (if index \<noteq> default_gw_index s
      then
        let s1 = (if upstream_v4_up s then close_v4 gw4 s else s);
            s2 = (if upstream_v6_up s1 then close_v6 gw6 s1 else s1);
            s3 = s2\<lparr>default_gw_index := INVALID_IFACE\<rparr>
        in if name = ''wlan0'' then resetTetherStats env name s3 else s3
      else s)"

text \<open>The routes of the new one, by the families of the gateways.\<close>

definition addRoutes :: "int \<Rightarrow> prefix \<Rightarrow> prefix \<Rightarrow> offload_mgr \<Rightarrow> RET \<times> offload_mgr" where
  "addRoutes index gw4 gw6 s =
     (if fam gw4 = V4 \<and> fam gw6 = V6
      then
        let s1 = (if \<not> upstream_v4_up s then open_v4 index gw4 s else s)
        in (SUCCESS, if \<not> upstream_v6_up s1 then open_v6 index gw6 s1 else s1)
      else if fam gw4 = V4
      then
        let s1 = (if upstream_v6_up s \<and> default_gw_index s \<noteq> INVALID_IFACE then close_v6 gw6 s else s)
        in if \<not> upstream_v4_up s1 then (SUCCESS, open_v4 index gw4 s1) else (SUCCESS_DUPLICATE_CONFIG, s1)
      else if fam gw6 = V6
      then
        let s1 = (if upstream_v4_up s \<and> default_gw_index s \<noteq> INVALID_IFACE then close_v4 gw4 s else s)
        in if \<not> upstream_v6_up s1 then (SUCCESS, open_v6 index gw6 s1) else (SUCCESS_DUPLICATE_CONFIG, s1)
      else (SUCCESS, s))"

definition setUpstream ::
  "offload_env \<Rightarrow> string option \<Rightarrow> prefix \<Rightarrow> prefix \<Rightarrow> offload_mgr \<Rightarrow> RET \<times> offload_mgr" where
  "setUpstream env upstream_name gw4 gw6 s =
     (case upstream_name of
        None \<Rightarrow> clearUpstream gw4 gw6 s
      | Some name \<Rightarrow>
          (case ipa_get_if_index env name of
             None \<Rightarrow> (FAIL_INPUT_CHECK, s)
           | Some index \<Rightarrow>
               if fam gw4 = V4 \<and> \<not> nat_ready env name V4 \<or> fam gw6 = V6 \<and> \<not> nat_ready env name V6
               then
                 let (ok, s1) = cache_put 10
                       (\<lambda>e. e\<lparr>valid := True, event := IPA_WAN_UPSTREAM_ROUTE_ADD_EVENT, dev_name := take 16 name,
                              prefix_cache := gw4, prefix_cache_v6 := gw6\<rparr>) s
                 in if ok then (SUCCESS, s1\<lparr>is_cache := True\<rparr>) else (FAIL_HARDWARE, s1)
               else
                 let (result, s1) = addRoutes index gw4 gw6 (switchUpstream env name index gw4 gw6 s)
                 in (result, s1\<lparr>default_gw_index := index\<rparr>)))"

definition stopAllOffload :: "offload_mgr \<Rightarrow> RET \<times> offload_mgr" where
  "stopAllOffload s =
     (let (result, s1) = clearUpstream (makeBlankPrefix V4) (makeBlankPrefix V6) s
      in (result, s1\<lparr>default_gw_index := INVALID_IFACE, upstream_v4_up := False, upstream_v6_up := False,
                     event_cache := blank_cache, latest_cache_index := 0, valid_ifaces := []\<rparr>))"

section \<open>Statistics and limits\<close>

definition setQuota :: "offload_env \<Rightarrow> string \<Rightarrow> 64 word \<Rightarrow> offload_mgr \<Rightarrow> RET \<times> offload_mgr" where
  "setQuota env name mb s =
     (if \<not> wwan_opens env then (FAIL_HARDWARE, s)
      else if length name \<ge> 16 then (FAIL_INPUT_CHECK, s)
      else (case quota_answer env of QuotaOk \<Rightarrow> SUCCESS | QuotaNoDevice \<Rightarrow> FAIL_UNSUPPORTED | QuotaError \<Rightarrow> FAIL_TRY_AGAIN,
            call_out (SetQuota name mb) s))"

text \<open>The result with the transmitted and the received bytes.\<close>

definition getStats ::
  "offload_env \<Rightarrow> string \<Rightarrow> bool \<Rightarrow> offload_mgr \<Rightarrow> RET \<times> 64 word \<times> 64 word \<times> offload_mgr" where
  "getStats env name reset s =
     (if \<not> wwan_opens env then (FAIL_HARDWARE, 0, 0, s)
      else if length name \<ge> 16 then (FAIL_INPUT_CHECK, 0, 0, s)
      else let s1 = call_out (QueryStats name reset) s
           in case stats_answer env of None \<Rightarrow> (FAIL_TRY_AGAIN, 0, 0, s1) | Some (tx, rx) \<Rightarrow> (SUCCESS, tx, rx, s1))"

section \<open>The pending events of an interface\<close>

definition search_slot :: "offload_env \<Rightarrow> string \<Rightarrow> nat \<Rightarrow> bool \<times> offload_mgr \<Rightarrow> bool \<times> offload_mgr" where
  "search_slot env name i = (\<lambda>(rel, s).
     let e = event_cache s ! i in
     if valid e \<and> take 16 (dev_name e) = take 16 name
     then
       let s1 = (case event e of
                   IPA_DOWNSTREAM_ADD \<Rightarrow> snd (addDownstream env name (prefix_cache e) s)
                 | IPA_WAN_UPSTREAM_ROUTE_ADD_EVENT \<Rightarrow> snd (setUpstream env (Some name) (prefix_cache e) (prefix_cache_v6 e) s)
                 | _ \<Rightarrow> s)
       in (True, s1\<lparr>event_cache := (event_cache s1)[i := (event_cache s1 ! i)\<lparr>valid := False\<rparr>]\<rparr>)
     else (rel, s))"

definition search_framwork_cache :: "offload_env \<Rightarrow> string \<Rightarrow> offload_mgr \<Rightarrow> bool \<times> offload_mgr" where
  "search_framwork_cache env name s = fold (search_slot env name) [0..<10] (False, s)"

section \<open>Routes\<close>

text \<open>The begins and ends of the routes of one family, and the route that is open after them, if they match.\<close>

definition route_log :: "ip_fam \<Rightarrow> offload_evt list \<Rightarrow> (bool \<times> int) list" where
  "route_log f es = concat (map (\<lambda>e. case e of
     RouteEvt ev f' i _ _ \<Rightarrow> if f' = f then [(ev = IPA_WAN_UPSTREAM_ROUTE_ADD_EVENT, i)] else [] | _ \<Rightarrow> []) es)"

fun brackets :: "int option \<Rightarrow> (bool \<times> int) list \<Rightarrow> int option option" where
  "brackets r [] = Some r"
| "brackets None ((b, i) # es) = (if b then brackets (Some i) es else None)"
| "brackets (Some j) ((b, i) # es) = (if \<not> b \<and> i = j then brackets None es else None)"

lemma brackets_append: "brackets r (xs @ ys) = (case brackets r xs of None \<Rightarrow> None | Some r' \<Rightarrow> brackets r' ys)"
  by (induction r xs rule: brackets.induct) auto

definition open_route :: "ip_fam \<Rightarrow> offload_mgr \<Rightarrow> int option option" where
  "open_route f s = brackets None (route_log f (posted s))"

lemma route_log_snoc:
  "route_log f (es @ [e]) = route_log f es @ route_log f [e]"
  by (simp add: route_log_def)

lemma open_route_post [simp]:
  "open_route f (post_evt e s) = (case open_route f s of None \<Rightarrow> None | Some r \<Rightarrow> brackets r (route_log f [e]))"
  by (simp add: open_route_def post_evt_def route_log_snoc brackets_append)

lemma open_route_cong: "posted s = posted t \<Longrightarrow> open_route f s = open_route f t"
  by (simp add: open_route_def)

lemma open_route_update [simp]:
  "open_route f (s\<lparr>upstream_v4_up := b\<rparr>) = open_route f s" "open_route f (s\<lparr>upstream_v6_up := b\<rparr>) = open_route f s"
  "open_route f (s\<lparr>default_gw_index := i\<rparr>) = open_route f s" "open_route f (s\<lparr>event_cache := c\<rparr>) = open_route f s"
  "open_route f (s\<lparr>latest_cache_index := k\<rparr>) = open_route f s" "open_route f (s\<lparr>valid_ifaces := v\<rparr>) = open_route f s"
  "open_route f (s\<lparr>is_cache := b\<rparr>) = open_route f s" "open_route f (s\<lparr>outside := l\<rparr>) = open_route f s"
  "open_route f (s\<lparr>elrInstance := x\<rparr>) = open_route f s" "open_route f (s\<lparr>touInstance := x\<rparr>) = open_route f s"
  "open_route f (s\<lparr>fd_tcp := x'\<rparr>) = open_route f s" "open_route f (s\<lparr>fd_udp := x'\<rparr>) = open_route f s"
  by (simp_all add: open_route_def)

lemma post_evt_fields [simp]:
  "upstream_v4_up (post_evt e s) = upstream_v4_up s" "upstream_v6_up (post_evt e s) = upstream_v6_up s"
  "default_gw_index (post_evt e s) = default_gw_index s" "event_cache (post_evt e s) = event_cache s"
  "latest_cache_index (post_evt e s) = latest_cache_index s" "elrInstance (post_evt e s) = elrInstance s"
  "touInstance (post_evt e s) = touInstance s" "valid_ifaces (post_evt e s) = valid_ifaces s"
  by (simp_all add: post_evt_def)

lemma route_log_one:
  "route_log f [RouteEvt IPA_WAN_UPSTREAM_ROUTE_ADD_EVENT f' i a b] = (if f' = f then [(True, i)] else [])"
  "route_log f [RouteEvt IPA_WAN_UPSTREAM_ROUTE_DEL_EVENT f' i a b] = (if f' = f then [(False, i)] else [])"
  "route_log f [StreamEvt ev i p] = []"
  by (simp_all add: route_log_def)

lemmas route_steps = close_v4_def close_v6_def open_v4_def open_v6_def post_route_evt_def route_log_one

text \<open>Each flag says that the route of its family is open, with index \<open>i\<close>.\<close>

definition routes_at :: "int \<Rightarrow> offload_mgr \<Rightarrow> bool" where
  "routes_at i s \<longleftrightarrow>
     open_route V4 s = Some (if upstream_v4_up s then Some i else None) \<and>
     open_route V6 s = Some (if upstream_v6_up s then Some i else None) \<and>
     (upstream_v4_up s \<or> upstream_v6_up s \<longrightarrow> default_gw_index s = i)"

definition mgr_ok :: "offload_mgr \<Rightarrow> bool" where
  "mgr_ok s \<longleftrightarrow> routes_at (default_gw_index s) s \<and>
     (upstream_v4_up s \<or> upstream_v6_up s \<longrightarrow> default_gw_index s \<noteq> INVALID_IFACE) \<and>
     length (event_cache s) = 10 \<and> latest_cache_index s < 10"

lemma routes_at_cong:
  assumes "posted s = posted t" "upstream_v4_up s = upstream_v4_up t" "upstream_v6_up s = upstream_v6_up t"
    "default_gw_index s = default_gw_index t"
  shows "routes_at i s = routes_at i t"
  using assms by (simp add: routes_at_def open_route_def)

lemma mgr_ok_new: "mgr_ok new_mgr"
  by (simp add: mgr_ok_def routes_at_def new_mgr_def open_route_def route_log_def blank_cache_def)

lemma mgr_okD:
  assumes "mgr_ok s"
  shows "routes_at (default_gw_index s) s" "length (event_cache s) = 10" "latest_cache_index s < 10"
    "default_gw_index s = INVALID_IFACE \<Longrightarrow> \<not> upstream_v4_up s \<and> \<not> upstream_v6_up s"
  using assms by (auto simp: mgr_ok_def)

lemma cache_put_fields:
  "posted (snd (cache_put n f s)) = posted s" "upstream_v4_up (snd (cache_put n f s)) = upstream_v4_up s"
  "upstream_v6_up (snd (cache_put n f s)) = upstream_v6_up s" "default_gw_index (snd (cache_put n f s)) = default_gw_index s"
  "length (event_cache (snd (cache_put n f s))) = length (event_cache s)"
  "elrInstance (snd (cache_put n f s)) = elrInstance s" "touInstance (snd (cache_put n f s)) = touInstance s"
  "outside (snd (cache_put n f s)) = outside s" "valid_ifaces (snd (cache_put n f s)) = valid_ifaces s"
  "latest_cache_index s < 10 \<Longrightarrow> latest_cache_index (snd (cache_put n f s)) < 10"
  by (induction n arbitrary: s) (simp_all add: Let_def)

lemma mgr_ok_cache_put: "mgr_ok s \<Longrightarrow> mgr_ok (snd (cache_put n f s))"
  using routes_at_cong [of "snd (cache_put n f s)" s]
  by (simp add: mgr_ok_def cache_put_fields)

lemma mgr_ok_update:
  assumes "mgr_ok s"
  shows "mgr_ok (s\<lparr>valid_ifaces := v\<rparr>)" "mgr_ok (s\<lparr>is_cache := b\<rparr>)" "mgr_ok (s\<lparr>outside := l\<rparr>)"
    "mgr_ok (s\<lparr>elrInstance := x\<rparr>)" "mgr_ok (s\<lparr>touInstance := x\<rparr>)" "mgr_ok (s\<lparr>fd_tcp := y\<rparr>)" "mgr_ok (s\<lparr>fd_udp := y\<rparr>)"
    "mgr_ok (post_evt (StreamEvt ev i p) s)" "length c = 10 \<Longrightarrow> mgr_ok (s\<lparr>event_cache := c\<rparr>)"
  using assms by (simp_all add: mgr_ok_def routes_at_def route_log_one)

lemma addDownstream_ok: "mgr_ok s \<Longrightarrow> mgr_ok (snd (addDownstream env name pre s))"
  by (simp add: addDownstream_def Let_def case_prod_unfold mgr_ok_update mgr_ok_cache_put split: option.split)

lemma removeDownstream_ok: "mgr_ok s \<Longrightarrow> mgr_ok (snd (removeDownstream env name pre s))"
  unfolding removeDownstream_def by (auto simp: mgr_ok_update split: option.splits)

lemma clearUpstream_ok:
  assumes "mgr_ok s" and "fam gw4 = V4" and "fam gw6 = V6"
  shows "mgr_ok (snd (clearUpstream gw4 gw6 s)) \<and> default_gw_index (snd (clearUpstream gw4 gw6 s)) = INVALID_IFACE"
proof (cases "default_gw_index s = INVALID_IFACE")
  case True
  then show ?thesis using assms mgr_ok_update(9) [OF assms(1), of blank_cache]
    by (simp add: clearUpstream_def blank_cache_def)
next
  case False
  then show ?thesis using assms
    by (auto simp: clearUpstream_def mgr_ok_def routes_at_def route_steps Let_def)
qed

lemma switchUpstream_ok:
  assumes "mgr_ok s"
  shows "routes_at index (switchUpstream env name index gw4 gw6 s) \<and>
    length (event_cache (switchUpstream env name index gw4 gw6 s)) = 10 \<and>
    latest_cache_index (switchUpstream env name index gw4 gw6 s) < 10"
  using assms
  by (auto simp: switchUpstream_def mgr_ok_def routes_at_def route_steps resetTetherStats_def call_out_def Let_def)

lemma addRoutes_ok:
  assumes "routes_at index s" and "index \<noteq> INVALID_IFACE"
  shows "routes_at index ((snd (addRoutes index gw4 gw6 s))\<lparr>default_gw_index := index\<rparr>)"
  using assms by (auto simp: addRoutes_def routes_at_def route_steps Let_def)

lemma addRoutes_fields [simp]:
  "event_cache (snd (addRoutes index gw4 gw6 s)) = event_cache s"
  "latest_cache_index (snd (addRoutes index gw4 gw6 s)) = latest_cache_index s"
  "elrInstance (snd (addRoutes index gw4 gw6 s)) = elrInstance s"
  "touInstance (snd (addRoutes index gw4 gw6 s)) = touInstance s"
  by (simp_all add: addRoutes_def route_steps Let_def)

lemma switchUpstream_fields [simp]:
  "event_cache (switchUpstream env name index gw4 gw6 s) = event_cache s"
  "elrInstance (switchUpstream env name index gw4 gw6 s) = elrInstance s"
  "touInstance (switchUpstream env name index gw4 gw6 s) = touInstance s"
  by (simp_all add: switchUpstream_def route_steps resetTetherStats_def call_out_def Let_def)

definition env_ok :: "offload_env \<Rightarrow> bool" where
  "env_ok env \<longleftrightarrow> (\<forall>n. netdev env n \<noteq> Some INVALID_IFACE)"

lemma setUpstream_ok:
  assumes "mgr_ok s" and "env_ok env" and "name = None \<Longrightarrow> fam gw4 = V4 \<and> fam gw6 = V6"
  shows "mgr_ok (snd (setUpstream env name gw4 gw6 s))"
proof (cases name)
  case None
  then show ?thesis using clearUpstream_ok assms by (simp add: setUpstream_def)
next
  case (Some n)
  show ?thesis
  proof (cases "ipa_get_if_index env n")
    case None
    then show ?thesis using Some assms by (simp add: setUpstream_def)
  next
    case i: (Some index)
    then have ne: "index \<noteq> INVALID_IFACE" using assms(2) by (auto simp: ipa_get_if_index_def env_ok_def)
    show ?thesis
    proof (cases "fam gw4 = V4 \<and> \<not> nat_ready env n V4 \<or> fam gw6 = V6 \<and> \<not> nat_ready env n V6")
      case True
      show ?thesis using mgr_ok_cache_put [OF assms(1)] mgr_ok_update(2)
        by (simp add: setUpstream_def Some i True case_prod_unfold Let_def)
    next
      case False
      let ?s = "switchUpstream env n index gw4 gw6 s"
      have "mgr_ok ((snd (addRoutes index gw4 gw6 ?s))\<lparr>default_gw_index := index\<rparr>)"
        using addRoutes_ok [of index ?s gw4 gw6] switchUpstream_ok [OF assms(1), of index env n gw4 gw6] ne
        by (simp add: mgr_ok_def)
      moreover have "snd (setUpstream env name gw4 gw6 s) = (snd (addRoutes index gw4 gw6 ?s))\<lparr>default_gw_index := index\<rparr>"
        using False by (auto simp: setUpstream_def Some i case_prod_unfold Let_def)
      ultimately show ?thesis by simp
    qed
  qed
qed

lemma stopAllOffload_ok:
  assumes "mgr_ok s"
  shows "mgr_ok (snd (stopAllOffload s))"
proof -
  have "mgr_ok (snd (clearUpstream (makeBlankPrefix V4) (makeBlankPrefix V6) s))"
    "default_gw_index (snd (clearUpstream (makeBlankPrefix V4) (makeBlankPrefix V6) s)) = INVALID_IFACE"
    using clearUpstream_ok [OF assms] by (simp_all add: makeBlankPrefix_def)
  then show ?thesis
    by (auto simp: stopAllOffload_def mgr_ok_def routes_at_def blank_cache_def split: prod.splits)
qed

lemma search_slot_ok:
  assumes "mgr_ok (snd rs)" and "env_ok env" and "i < 10"
  shows "mgr_ok (snd (search_slot env name i rs))"
proof -
  obtain rel s where rs: "rs = (rel, s)" by (cases rs)
  let ?e = "event_cache s ! i"
  define s1 where "s1 = (case event ?e of
      IPA_DOWNSTREAM_ADD \<Rightarrow> snd (addDownstream env name (prefix_cache ?e) s)
    | IPA_WAN_UPSTREAM_ROUTE_ADD_EVENT \<Rightarrow> snd (setUpstream env (Some name) (prefix_cache ?e) (prefix_cache_v6 ?e) s)
    | _ \<Rightarrow> s)"
  have "mgr_ok s1" using assms addDownstream_ok setUpstream_ok [where name = "Some name"] by (simp add: s1_def rs split: cm_event_id.split)
  then have "mgr_ok (s1\<lparr>event_cache := (event_cache s1)[i := (event_cache s1 ! i)\<lparr>valid := False\<rparr>]\<rparr>)"
    by (intro mgr_ok_update) (simp_all add: mgr_okD)
  then show ?thesis using assms(1) by (simp add: search_slot_def rs s1_def Let_def)
qed

lemma search_ok:
  assumes "mgr_ok s" and "env_ok env"
  shows "mgr_ok (snd (search_framwork_cache env name s))"
proof -
  have "mgr_ok (snd (fold (search_slot env name) is rs))" if "mgr_ok (snd rs)" "\<forall>i \<in> set is. i < 10" for "is" rs
    using that by (induction "is" arbitrary: rs) (simp_all add: search_slot_ok assms(2))
  then show ?thesis using assms(1) by (simp add: search_framwork_cache_def)
qed

lemma provideFd_ok: "mgr_ok s \<Longrightarrow> mgr_ok (snd (provideFd env fd g s))"
  by (simp add: provideFd_def call_out_def Let_def mgr_ok_update split: ct_groups.split)

text \<open>What a call leaves alone.\<close>

lemma listeners_kept [simp]:
  "elrInstance (snd (addDownstream env name pre s)) = elrInstance s"
  "touInstance (snd (addDownstream env name pre s)) = touInstance s"
  "elrInstance (snd (removeDownstream env name pre s)) = elrInstance s"
  "touInstance (snd (removeDownstream env name pre s)) = touInstance s"
  "elrInstance (snd (clearUpstream g4 g6 s)) = elrInstance s"
  "touInstance (snd (clearUpstream g4 g6 s)) = touInstance s"
  "elrInstance (snd (provideFd env fd g s)) = elrInstance s"
  "touInstance (snd (provideFd env fd g s)) = touInstance s"
  by (simp_all add: addDownstream_def removeDownstream_def clearUpstream_def provideFd_def call_out_def route_steps
      case_prod_unfold Let_def cache_put_fields split: option.split ct_groups.split)

lemma listeners_kept_up [simp]:
  "elrInstance (snd (setUpstream env nm g4 g6 s)) = elrInstance s"
  "touInstance (snd (setUpstream env nm g4 g6 s)) = touInstance s"
  "elrInstance (snd (stopAllOffload s)) = elrInstance s"
  "touInstance (snd (stopAllOffload s)) = touInstance s"
  by (simp_all add: setUpstream_def stopAllOffload_def case_prod_unfold Let_def cache_put_fields split: option.split)

lemma listeners_kept_search [simp]:
  "elrInstance (snd (search_framwork_cache env name s)) = elrInstance s"
  "touInstance (snd (search_framwork_cache env name s)) = touInstance s"
proof -
  have step: "elrInstance (snd (search_slot env name i rs)) = elrInstance (snd rs) \<and>
      touInstance (snd (search_slot env name i rs)) = touInstance (snd rs)" for i rs
    by (cases rs) (simp add: search_slot_def Let_def split: cm_event_id.split)
  have "elrInstance (snd (fold (search_slot env name) is rs)) = elrInstance (snd rs) \<and>
      touInstance (snd (fold (search_slot env name) is rs)) = touInstance (snd rs)" for "is" rs
    by (induction "is" arbitrary: rs) (simp_all add: step)
  then show "elrInstance (snd (search_framwork_cache env name s)) = elrInstance s"
    "touInstance (snd (search_framwork_cache env name s)) = touInstance s"
    by (simp_all add: search_framwork_cache_def)
qed

section \<open>Pending events\<close>

text \<open>The pending downstreams of an interface, in the order of the entries, and the downstreams that were posted.\<close>

definition is_pending :: "string \<Rightarrow> framework_event_cache \<Rightarrow> bool" where
  "is_pending name e \<longleftrightarrow> valid e \<and> take 16 (dev_name e) = take 16 name"

definition pending_of :: "string \<Rightarrow> framework_event_cache list \<Rightarrow> prefix list" where
  "pending_of name es = map prefix_cache (filter (\<lambda>e. is_pending name e \<and> event e = IPA_DOWNSTREAM_ADD) es)"

definition streams :: "offload_evt list \<Rightarrow> (cm_event_id \<times> int \<times> prefix) list" where
  "streams es = concat (map (\<lambda>e. case e of StreamEvt ev i p \<Rightarrow> [(ev, i, p)] | _ \<Rightarrow> []) es)"

lemma streams_post [simp]:
  "streams (posted (post_evt e s)) = streams (posted s) @ streams [e]"
  by (simp add: post_evt_def streams_def)

lemma streams_one [simp]: "streams [RouteEvt ev f i a b] = []" "streams [StreamEvt ev i p] = [(ev, i, p)]"
  by (simp_all add: streams_def)

lemma streams_setUpstream_ready:
  assumes "netdev env (take 15 name) = Some i" and "nat_ready env name V4" and "nat_ready env name V6"
  shows "streams (posted (snd (setUpstream env (Some name) g4 g6 s))) = streams (posted s)"
    and "event_cache (snd (setUpstream env (Some name) g4 g6 s)) = event_cache s"
proof -
  have a: "streams (posted (snd (addRoutes i g4 g6 t))) = streams (posted t)" for t
    by (simp add: addRoutes_def route_steps Let_def)
  have w: "streams (posted (switchUpstream env name i g4 g6 s)) = streams (posted s)"
    by (simp add: switchUpstream_def route_steps resetTetherStats_def call_out_def Let_def)
  show "streams (posted (snd (setUpstream env (Some name) g4 g6 s))) = streams (posted s)"
    "event_cache (snd (setUpstream env (Some name) g4 g6 s)) = event_cache s"
    using assms by (simp_all add: setUpstream_def ipa_get_if_index_def case_prod_unfold Let_def a w)
qed

lemma addDownstream_ready:
  assumes "netdev env (take 15 name) = Some i" and "nat_ready env name V4" and "nat_ready env name V6"
  shows "streams (posted (snd (addDownstream env name p s))) = streams (posted s) @ [(IPA_DOWNSTREAM_ADD, i, p)]"
    and "event_cache (snd (addDownstream env name p s)) = event_cache s"
  using assms by (simp_all add: addDownstream_def ipa_get_if_index_def Let_def)

lemma search_slot_ready:
  assumes "netdev env (take 15 name) = Some i" and "nat_ready env name V4" and "nat_ready env name V6"
    and "length (event_cache s) = 10" and "k < 10"
  shows "event_cache (snd (search_slot env name k (r, s))) =
      (if is_pending name (event_cache s ! k) then (event_cache s)[k := (event_cache s ! k)\<lparr>valid := False\<rparr>] else event_cache s)"
    and "streams (posted (snd (search_slot env name k (r, s)))) =
      streams (posted s) @ map (\<lambda>p. (IPA_DOWNSTREAM_ADD, i, p)) (pending_of name [event_cache s ! k])"
    and "fst (search_slot env name k (r, s)) = (r \<or> is_pending name (event_cache s ! k))"
  using assms addDownstream_ready [OF assms(1-3)] streams_setUpstream_ready [OF assms(1-3)]
  by (auto simp: search_slot_def is_pending_def pending_of_def Let_def split: cm_event_id.split)

definition taken :: "string \<Rightarrow> framework_event_cache \<Rightarrow> framework_event_cache" where
  "taken name e = (if is_pending name e then e\<lparr>valid := False\<rparr> else e)"

lemma search_loop_ready:
  assumes "netdev env (take 15 name) = Some i" and "nat_ready env name V4" and "nat_ready env name V6"
    and "length (event_cache s) = 10" and "n \<le> 10"
  shows "event_cache (snd (fold (search_slot env name) [0..<n] (r, s))) =
      map (taken name) (take n (event_cache s)) @ drop n (event_cache s) \<and>
    streams (posted (snd (fold (search_slot env name) [0..<n] (r, s)))) =
      streams (posted s) @ map (\<lambda>p. (IPA_DOWNSTREAM_ADD, i, p)) (pending_of name (take n (event_cache s))) \<and>
    fst (fold (search_slot env name) [0..<n] (r, s)) = (r \<or> list_ex (is_pending name) (take n (event_cache s)))"
  using assms(5)
proof (induction n)
  case (Suc n)
  let ?c = "event_cache s"
  obtain r1 s1 where f: "fold (search_slot env name) [0..<n] (r, s) = (r1, s1)" by (cases "fold (search_slot env name) [0..<n] (r, s)")
  have IH: "event_cache s1 = map (taken name) (take n ?c) @ drop n ?c"
      "streams (posted s1) = streams (posted s) @ map (\<lambda>p. (IPA_DOWNSTREAM_ADD, i, p)) (pending_of name (take n ?c))"
      "r1 = (r \<or> list_ex (is_pending name) (take n ?c))"
    using Suc by (simp_all add: f)
  have l: "length (event_cache s1) = 10" "n < 10" using IH(1) assms(4) Suc.prems by simp_all
  have at: "event_cache s1 ! n = ?c ! n" using IH(1) assms(4) l by (simp add: nth_append)
  have tk: "take (Suc n) ?c = take n ?c @ [?c ! n]" "drop n ?c = ?c ! n # drop (Suc n) ?c"
    using assms(4) l(2) by (simp_all add: take_Suc_conv_app_nth Cons_nth_drop_Suc)
  have ev: "event_cache (snd (search_slot env name n (r1, s1))) = map (taken name) (take (Suc n) ?c) @ drop (Suc n) ?c"
    using search_slot_ready(1) [OF assms(1-3) l, of r1] assms(4) l(2)
    by (simp add: at IH(1) tk taken_def list_update_append nth_append)
  show ?case
    using ev search_slot_ready(2,3) [OF assms(1-3) l, of r1]
    by (simp add: f at IH(2,3) tk(1) pending_of_def list_ex_append)
qed (simp add: pending_of_def)

lemma search_ready:
  assumes "netdev env (take 15 name) = Some i" and "nat_ready env name V4" and "nat_ready env name V6"
    and "length (event_cache s) = 10"
  shows "event_cache (snd (search_framwork_cache env name s)) = map (taken name) (event_cache s)"
    and "streams (posted (snd (search_framwork_cache env name s))) =
      streams (posted s) @ map (\<lambda>p. (IPA_DOWNSTREAM_ADD, i, p)) (pending_of name (event_cache s))"
    and "fst (search_framwork_cache env name s) \<longleftrightarrow> list_ex (is_pending name) (event_cache s)"
  using search_loop_ready [OF assms, of 10 False] assms(4) by (simp_all add: search_framwork_cache_def)

lemma pending_taken:
  "pending_of other (map (taken name) es) = (if take 16 other = take 16 name then [] else pending_of other es)"
  by (induction es) (auto simp: pending_of_def is_pending_def taken_def)

text \<open>Finding a place: the first free entry from the latest one on, in a circle.\<close>

lemma cache_put_spec:
  assumes "length (event_cache s) = 10" and "latest_cache_index s < 10"
  shows "(\<exists>j < n. let k = (latest_cache_index s + j) mod 10 in \<not> valid (event_cache s ! k) \<and> fst (cache_put n f s) \<and>
      event_cache (snd (cache_put n f s)) = (event_cache s)[k := f (event_cache s ! k)]) \<or>
    (\<forall>j < n. valid (event_cache s ! ((latest_cache_index s + j) mod 10))) \<and> \<not> fst (cache_put n f s) \<and>
      event_cache (snd (cache_put n f s)) = event_cache s"
  using assms
proof (induction n arbitrary: s)
  case (Suc n)
  let ?k = "latest_cache_index s"
  show ?case
  proof (cases "valid (event_cache s ! ?k)")
    case False
    then have "(let k = (?k + 0) mod 10 in \<not> valid (event_cache s ! k) \<and> fst (cache_put (Suc n) f s) \<and>
        event_cache (snd (cache_put (Suc n) f s)) = (event_cache s)[k := f (event_cache s ! k)])"
      using Suc.prems by (simp add: Let_def)
    then show ?thesis by blast
  next
    case True
    let ?s = "s\<lparr>latest_cache_index := (?k + 1) mod 10\<rparr>"
    have r: "cache_put (Suc n) f s = cache_put n f ?s" using True by (simp add: Let_def)
    have m: "(Suc ?k mod 10 + j) mod 10 = Suc (?k + j) mod 10" for j
      by (metis add_Suc mod_add_left_eq)
    have IH: "(\<exists>j < n. let k = (?k + Suc j) mod 10 in \<not> valid (event_cache s ! k) \<and> fst (cache_put n f ?s) \<and>
        event_cache (snd (cache_put n f ?s)) = (event_cache s)[k := f (event_cache s ! k)]) \<or>
      (\<forall>j < n. valid (event_cache s ! ((?k + Suc j) mod 10))) \<and> \<not> fst (cache_put n f ?s) \<and>
        event_cache (snd (cache_put n f ?s)) = event_cache s"
      using Suc.IH [of ?s] Suc.prems by (simp add: m Let_def)
    have all: "(\<forall>j < Suc n. valid (event_cache s ! ((?k + j) mod 10)))" if "\<forall>j < n. valid (event_cache s ! ((?k + Suc j) mod 10))"
      using that True Suc.prems(2) by (auto simp: less_Suc_eq_0_disj)
    from IH show ?thesis
    proof
      assume "\<exists>j < n. let k = (?k + Suc j) mod 10 in \<not> valid (event_cache s ! k) \<and> fst (cache_put n f ?s) \<and>
        event_cache (snd (cache_put n f ?s)) = (event_cache s)[k := f (event_cache s ! k)]"
      then show ?thesis unfolding r by (meson Suc_mono)
    qed (use all r in auto)
  qed
qed simp

lemma cache_put_circle:
  assumes "latest_cache_index s < (10 :: nat)" and "i < 10"
  shows "\<exists>j < 10. (latest_cache_index s + j) mod 10 = i"
proof (cases "latest_cache_index s \<le> i")
  case True
  then show ?thesis using assms by (intro exI [of _ "i - latest_cache_index s"]) simp
next
  case False
  then have "(latest_cache_index s + (10 + i - latest_cache_index s)) mod 10 = i" using assms by simp
  then show ?thesis using False assms by (intro exI [of _ "10 + i - latest_cache_index s"]) simp
qed

lemma mset_pending: "mset (pending_of name es) =
  image_mset prefix_cache (filter_mset (\<lambda>e. is_pending name e \<and> event e = IPA_DOWNSTREAM_ADD) (mset es))"
  by (simp add: pending_of_def)

lemma mset_pending_fill:
  assumes "k < length es" and "\<not> valid (es ! k)"
  shows "mset (pending_of name (es[k := e])) =
    mset (pending_of name es) + (if is_pending name e \<and> event e = IPA_DOWNSTREAM_ADD then {#prefix_cache e#} else {#})"
proof -
  have "\<not> is_pending name (es ! k)" using assms(2) by (simp add: is_pending_def)
  then have "filter_mset (\<lambda>e. is_pending name e \<and> event e = IPA_DOWNSTREAM_ADD) (mset es - {#es ! k#}) =
      filter_mset (\<lambda>e. is_pending name e \<and> event e = IPA_DOWNSTREAM_ADD) (mset es)"
    by (simp add: diff_single_trivial)
  then show ?thesis using assms(1) by (simp add: mset_pending mset_update)
qed

lemma addDownstream_pending:
  assumes "mgr_ok s" and "netdev env (take 15 name) = Some i" and "fam p \<noteq> INVALID" and "\<not> nat_ready env name (fam p)"
  shows "posted (snd (addDownstream env name p s)) = posted s"
    and "list_all valid (event_cache s) \<Longrightarrow> fst (addDownstream env name p s) = FAIL_HARDWARE \<and>
      event_cache (snd (addDownstream env name p s)) = event_cache s"
    and "\<not> list_all valid (event_cache s) \<Longrightarrow> fst (addDownstream env name p s) = SUCCESS \<and>
      mset (pending_of other (event_cache (snd (addDownstream env name p s)))) =
        mset (pending_of other (event_cache s)) + (if take 16 other = take 16 name then {#p#} else {#})"
proof -
  define t where "t = (if name \<in> set (valid_ifaces s) then s else s\<lparr>valid_ifaces := valid_ifaces s @ [name]\<rparr>)"
  define f where "f = (\<lambda>e :: framework_event_cache. e\<lparr>valid := True, event := IPA_DOWNSTREAM_ADD, dev_name := take 16 name, prefix_cache := p\<rparr>)"
  have need: "fam p = V4 \<and> \<not> nat_ready env name V4 \<or> fam p = V6 \<and> \<not> nat_ready env name V6"
    using assms(3,4) by (cases "fam p") auto
  have e: "addDownstream env name p s = (if fst (cache_put 10 f t) then SUCCESS else FAIL_HARDWARE, snd (cache_put 10 f t))"
    using assms(2) need by (auto simp: addDownstream_def ipa_get_if_index_def t_def f_def Let_def case_prod_unfold)
  have t: "event_cache t = event_cache s" "latest_cache_index t = latest_cache_index s" "posted t = posted s" by (simp_all add: t_def)
  have l: "length (event_cache t) = 10" "latest_cache_index t < 10" using mgr_okD [OF assms(1)] t by simp_all
  show "posted (snd (addDownstream env name p s)) = posted s" by (simp add: e cache_put_fields t)
  have "(\<exists>k < 10. \<not> valid (event_cache s ! k) \<and> fst (cache_put 10 f t) \<and>
      event_cache (snd (cache_put 10 f t)) = (event_cache s)[k := f (event_cache s ! k)]) \<or>
    (\<forall>j < 10. valid (event_cache s ! ((latest_cache_index s + j) mod 10))) \<and> \<not> fst (cache_put 10 f t) \<and>
      event_cache (snd (cache_put 10 f t)) = event_cache s"
    using cache_put_spec [OF l, of 10 f] unfolding t Let_def by (meson mod_less_divisor zero_less_numeral)
  then consider (put) k where "k < 10" "\<not> valid (event_cache s ! k)" "fst (cache_put 10 f t)"
      "event_cache (snd (cache_put 10 f t)) = (event_cache s)[k := f (event_cache s ! k)]"
    | (full) "\<forall>j < 10. valid (event_cache s ! ((latest_cache_index s + j) mod 10))" "\<not> fst (cache_put 10 f t)"
      "event_cache (snd (cache_put 10 f t)) = event_cache s"
    by blast
  note cases = this
  have all: "list_all valid (event_cache s)" if "\<forall>j < 10. valid (event_cache s ! ((latest_cache_index s + j) mod 10))"
    using that cache_put_circle [of s] l t by (auto simp: list_all_length)
  show "fst (addDownstream env name p s) = FAIL_HARDWARE \<and> event_cache (snd (addDownstream env name p s)) = event_cache s"
    if "list_all valid (event_cache s)"
    using cases
  proof cases
    case (put k)
    then show ?thesis using that l t by (auto simp: list_all_length)
  next
    case full
    then show ?thesis by (simp add: e)
  qed
  show "fst (addDownstream env name p s) = SUCCESS \<and>
      mset (pending_of other (event_cache (snd (addDownstream env name p s)))) =
        mset (pending_of other (event_cache s)) + (if take 16 other = take 16 name then {#p#} else {#})"
    if "\<not> list_all valid (event_cache s)"
    using cases
  proof cases
    case (put k)
    have "event_cache (snd (addDownstream env name p s)) = (event_cache s)[k := f (event_cache s ! k)]" using put by (simp add: e)
    then show ?thesis using put l t by (auto simp: e mset_pending_fill is_pending_def f_def)
  next
    case full
    then show ?thesis using that all by blast
  qed
qed

lemma blank_cache_list:
  "blank_cache = [blank_entry, blank_entry, blank_entry, blank_entry, blank_entry, blank_entry, blank_entry,
     blank_entry, blank_entry, blank_entry]"
  by (simp add: blank_cache_def numeral_eq_Suc)

lemma cache_put_10:
  "cache_put 10 f s =
     (let k = latest_cache_index s; e = event_cache s ! k; s1 = s\<lparr>latest_cache_index := (k + 1) mod 10\<rparr>
      in if \<not> valid e then (True, s1\<lparr>event_cache := (event_cache s)[k := f e]\<rparr>) else cache_put 9 f s1)"
  using cache_put.simps(2) [of 9 f s] by simp

definition unready_env :: offload_env where
  "unready_env = \<lparr>netdev = (\<lambda>_. Some 7), nat_ready = (\<lambda>_ _. False), ct_client = True, dup_fd = id,
     wwan_opens = True, quota_answer = QuotaOk, stats_answer = None\<rparr>"

lemma pending_delivered:
  assumes "mgr_ok s" and "netdev env (take 15 name) = Some i" and "fam p \<noteq> INVALID" and "\<not> nat_ready env name (fam p)"
    and "netdev env' (take 15 name) = Some i'" and "nat_ready env' name V4" and "nat_ready env' name V6"
    and "addDownstream env name p s = (r, s1)" and "search_framwork_cache env' name s1 = (found, s2)"
  shows "if list_all valid (event_cache s) then r = FAIL_HARDWARE \<and> posted s1 = posted s \<and> event_cache s1 = event_cache s
    else r = SUCCESS \<and> posted s1 = posted s \<and> found \<and> pending_of name (event_cache s2) = [] \<and>
      (\<exists>ps. streams (posted s2) = streams (posted s) @ map (\<lambda>q. (IPA_DOWNSTREAM_ADD, i', q)) ps \<and>
        mset ps = add_mset p (mset (pending_of name (event_cache s)))) \<and>
      (\<forall>other. take 16 other \<noteq> take 16 name \<longrightarrow>
        mset (pending_of other (event_cache s2)) = mset (pending_of other (event_cache s)))"
proof -
  have s1: "s1 = snd (addDownstream env name p s)" "r = fst (addDownstream env name p s)" using assms(8) by simp_all
  have s2: "s2 = snd (search_framwork_cache env' name s1)" "found = fst (search_framwork_cache env' name s1)" using assms(9) by simp_all
  note add = addDownstream_pending [OF assms(1-4), folded s1]
  have "length (event_cache s1) = 10" using addDownstream_ok [OF assms(1)] s1 mgr_okD by simp
  note search = search_ready [OF assms(5-7) this, folded s2]
  show ?thesis
  proof (cases "list_all valid (event_cache s)")
    case False
    have m: "mset (pending_of name (event_cache s1)) = add_mset p (mset (pending_of name (event_cache s)))"
      using add(3) [OF False, of name] by simp
    then have "pending_of name (event_cache s1) \<noteq> []" by auto
    then have "found" unfolding search(3) by (auto simp: pending_of_def list_ex_iff filter_empty_conv)
    then show ?thesis using False add(1) add(3) [OF False] m search(1,2) by (auto simp: pending_taken)
  qed (use add(1,2) in simp)
qed

text \<open>The manager asks the list of interfaces whether one is ready.\<close>

definition with_ifaces :: "nat_config \<Rightarrow> offload_env \<Rightarrow> offload_env" where
  "with_ifaces c env = env\<lparr>nat_ready := (\<lambda>n f. CheckNatIfaces n f c = Some 0)\<rparr>"



text \<open>
  When the framework clears its upstream while that is still pending, every pending downstream
  is forgotten with it, although they were accepted and never removed: no interface that comes up finds any.
\<close>

theorem offload_clear_drops_downstreams:
  assumes "default_gw_index s = INVALID_IFACE" and "list_ex (\<lambda>e. valid e \<and> event e = IPA_WAN_UPSTREAM_ROUTE_ADD_EVENT) (event_cache s)"
    and "setUpstream env None gw4 gw6 s = (r, s1)"
  shows "r = SUCCESS \<and> posted s1 = posted s \<and> (\<forall>name. pending_of name (event_cache s1) = []) \<and>
    (\<forall>env' name. search_framwork_cache env' name s1 = (False, s1))"
proof -
  have s1: "r = SUCCESS" "s1 = s\<lparr>event_cache := blank_cache\<rparr>" using assms by (simp_all add: setUpstream_def clearUpstream_def)
  have "search_slot env' name i (False, s1) = (False, s1)" if "i < 10" for env' name i
    using that by (simp add: s1 search_slot_def blank_cache_def blank_entry_def)
  then have "fold (search_slot env' name) is (False, s1) = (False, s1)" if "\<forall>i \<in> set is. i < 10" for env' name "is"
    using that by (induction "is") simp_all
  then have "search_framwork_cache env' name s1 = (False, s1)" for env' name by (simp add: search_framwork_cache_def)
  then show ?thesis using s1 by (simp add: pending_of_def is_pending_def blank_cache_def blank_entry_def)
qed

definition example_down :: framework_event_cache where
  "example_down = blank_entry\<lparr>valid := True, event := IPA_DOWNSTREAM_ADD, dev_name := ''wlan0'', prefix_cache := v4_prefix 0xC0A80100 24\<rparr>"

definition example_up :: framework_event_cache where
  "example_up = blank_entry\<lparr>valid := True, event := IPA_WAN_UPSTREAM_ROUTE_ADD_EVENT, dev_name := ''rmnet0'',
     prefix_cache := v4_prefix 0x0A000001 32, prefix_cache_v6 := makeBlankPrefix INVALID\<rparr>"

lemma example_pending:
  "snd (setUpstream unready_env (Some ''rmnet0'') (v4_prefix 0x0A000001 32) (makeBlankPrefix INVALID)
     (snd (addDownstream unready_env ''wlan0'' (v4_prefix 0xC0A80100 24) new_mgr))) =
   new_mgr\<lparr>valid_ifaces := [''wlan0''], is_cache := True, latest_cache_index := 2,
     event_cache := example_down # example_up # drop 2 blank_cache\<rparr>"
proof -
  have f: "fam (v4_prefix a m) = V4" for a m by (simp add: v4_prefix_def)
  have b: "\<not> valid blank_entry" by (simp add: blank_entry_def)
  have 1: "snd (addDownstream unready_env ''wlan0'' (v4_prefix 0xC0A80100 24) new_mgr) =
      new_mgr\<lparr>valid_ifaces := [''wlan0''], latest_cache_index := 1, event_cache := example_down # drop 1 blank_cache\<rparr>"
    by (simp add: addDownstream_def ipa_get_if_index_def unready_env_def f b cache_put_10 new_mgr_def blank_cache_list Let_def example_down_def)
  show ?thesis
    unfolding 1
    by (simp add: setUpstream_def ipa_get_if_index_def unready_env_def f b cache_put_10 new_mgr_def blank_cache_list Let_def example_up_def)
qed

lemma offload_clear_drops_downstreams_witness:
  "\<exists>s s1. s = snd (setUpstream unready_env (Some ''rmnet0'') (v4_prefix 0x0A000001 32) (makeBlankPrefix INVALID)
       (snd (addDownstream unready_env ''wlan0'' (v4_prefix 0xC0A80100 24) new_mgr))) \<and>
     pending_of ''wlan0'' (event_cache s) = [v4_prefix 0xC0A80100 24] \<and>
     setUpstream unready_env None (makeBlankPrefix V4) (makeBlankPrefix V6) s = (SUCCESS, s1) \<and>
     pending_of ''wlan0'' (event_cache s1) = []"
proof -
  let ?s = "new_mgr\<lparr>valid_ifaces := [''wlan0''], is_cache := True, latest_cache_index := 2,
     event_cache := example_down # example_up # drop 2 blank_cache\<rparr>"
  have n: "pending_of ''wlan0'' (example_down # example_up # drop 2 blank_cache) = [v4_prefix 0xC0A80100 24]"
    by (simp add: pending_of_def is_pending_def example_down_def example_up_def blank_cache_list blank_entry_def)
  obtain r s1 where s1: "setUpstream unready_env None (makeBlankPrefix V4) (makeBlankPrefix V6) ?s = (r, s1)" by (meson surj_pair)
  have "r = SUCCESS \<and> pending_of ''wlan0'' (event_cache s1) = []"
    using offload_clear_drops_downstreams [OF _ _ s1] by (simp add: new_mgr_def example_up_def)
  then show ?thesis using n s1 by (simp add: example_pending)
qed
end
