(* ===== verification/OffloadHal.thy ===== *)
theory OffloadHal
  imports OffloadManager
begin

text \<open>
  The tethering HAL (\<open>hal/src/HAL.cpp\<close>): the requests of the framework, checked and parsed, then
  given to the manager of \<open>OffloadManager\<close>; the log of its calls (\<open>LocalLogBuffer.cpp\<close>) and the two
  objects that carry news back (\<open>IpaEventRelay.cpp\<close>, \<open>CtUpdateAmbassador.cpp\<close>).

  The callback object of the framework is a number, \<open>None\<close> a null pointer. A handle is the list of its
  file descriptors. A result \<open>None\<close> is a null pointer followed. Binder and the service manager, which
  only carry the calls, are left out.
\<close>

section \<open>The log of calls\<close>

record function_log =
  fl_name :: string
  fl_args_provided :: bool
  fl_args :: string
  fl_return :: string

definition new_log :: "string \<Rightarrow> function_log" where
  "new_log name = \<lparr>fl_name = name, fl_args_provided = False, fl_args = [], fl_return = []\<rparr>"

definition maybeAddArgsComma :: "function_log \<Rightarrow> function_log" where
  "maybeAddArgsComma fl =
     (if \<not> fl_args_provided fl then fl\<lparr>fl_args_provided := True\<rparr> else fl\<lparr>fl_args := fl_args fl @ '', ''\<rparr>)"

definition addArg :: "string \<Rightarrow> string \<Rightarrow> function_log \<Rightarrow> function_log" where
  "addArg kw arg fl = (let fl1 = maybeAddArgsComma fl in fl1\<lparr>fl_args := fl_args fl1 @ kw @ ''='' @ arg\<rparr>)"

definition addArg_num :: "string \<Rightarrow> 64 word \<Rightarrow> function_log \<Rightarrow> function_log" where
  "addArg_num kw arg = addArg kw (print_nat (unat arg))"

fun comma_list :: "string list \<Rightarrow> string" where
  "comma_list [] = []"
| "comma_list [s] = s"
| "comma_list (s # ss) = s @ '', '' @ comma_list ss"

definition addArg_list :: "string \<Rightarrow> string list \<Rightarrow> function_log \<Rightarrow> function_log" where
  "addArg_list kw args = addArg kw (''['' @ comma_list args @ '']'')"

definition setResult :: "bool \<Rightarrow> string \<Rightarrow> function_log \<Rightarrow> function_log" where
  "setResult success msg fl =
     fl\<lparr>fl_return := fl_return fl @ ''['' @ (if success then ''success'' else ''failure'') @ '', '' @ msg @ '']''\<rparr>"

definition setResult_stats :: "64 word \<Rightarrow> 64 word \<Rightarrow> function_log \<Rightarrow> function_log" where
  "setResult_stats rx tx fl =
     fl\<lparr>fl_return := fl_return fl @ ''[rx='' @ print_nat (unat rx) @ '', tx='' @ print_nat (unat tx) @ '']''\<rparr>"

definition log_string :: "function_log \<Rightarrow> string" where
  "log_string fl = fl_name fl @ ''('' @ fl_args fl @ '') returned '' @ fl_return fl"

text \<open>The deque is shortened while it has more than \<open>mMaxLogs\<close> elements, and then one is added.\<close>

definition addLog :: "nat \<Rightarrow> function_log \<Rightarrow> function_log list \<Rightarrow> function_log list" where
  "addLog mMaxLogs log mLogs = drop (length mLogs - mMaxLogs) mLogs @ [log]"

section \<open>Data\<close>

record hal =
  mIPA :: offload_mgr
  mHandle1 :: "int list"
  mHandle2 :: "int list"
  mLogs :: "function_log list"
  mCb :: "nat option"
  mCbIpa :: "nat option"
  mCbCt :: "nat option"

record bool_result =
  success :: bool
  errMsg :: string

definition new_hal :: "offload_mgr \<Rightarrow> hal" where
  "new_hal mgr = \<lparr>mIPA = mgr, mHandle1 = [], mHandle2 = [], mLogs = [], mCb = None, mCbIpa = None, mCbCt = None\<rparr>"

definition makeIPAHAL :: "int \<Rightarrow> offload_mgr option \<Rightarrow> hal option" where
  "makeIPAHAL version mgr = (case mgr of None \<Rightarrow> None | Some m \<Rightarrow> if version \<noteq> 1 then None else Some (new_hal m))"

definition makeInputCheckFailure :: "string \<Rightarrow> bool_result" where
  "makeInputCheckFailure customErr = \<lparr>success = False, errMsg = ''Failed Input Checks: '' @ customErr\<rparr>"

definition ret_ok :: "RET \<Rightarrow> bool" where
  "ret_ok r = (r \<in> {SUCCESS, SUCCESS_DUPLICATE_CONFIG, SUCCESS_NO_OP, SUCCESS_OPTIMIZED})"

definition ipaResultToBoolResult :: "RET \<Rightarrow> bool_result" where
  "ipaResultToBoolResult r =
     \<lparr>success = ret_ok r,
      errMsg = (case r of
         FAIL_TOO_MANY_PREFIXES \<Rightarrow> ''Too Many Prefixes Provided''
       | FAIL_UNSUPPORTED \<Rightarrow> ''Unsupported by Hardware''
       | FAIL_INPUT_CHECK \<Rightarrow> ''Failed Input Checks''
       | FAIL_HARDWARE \<Rightarrow> ''Hardware did not accept''
       | FAIL_TRY_AGAIN \<Rightarrow> ''Try Again''
       | SUCCESS \<Rightarrow> ''Successful''
       | SUCCESS_DUPLICATE_CONFIG \<Rightarrow> ''Successful: Was a duplicate configuration''
       | SUCCESS_NO_OP \<Rightarrow> ''Successful: No action needed''
       | SUCCESS_OPTIMIZED \<Rightarrow> ''Successful: Performed optimized version of action''
       | FAIL_UNNEEDED \<Rightarrow> ''Unknown Error'')\<rparr>"

definition isInitialized :: "hal \<Rightarrow> bool" where
  "isInitialized h = (mCb h \<noteq> None)"

definition add_log :: "function_log \<Rightarrow> hal \<Rightarrow> hal" where
  "add_log fl h = h\<lparr>mLogs := addLog 50 fl (mLogs h)\<rparr>"

text \<open>Answering the framework with a result, which is logged.\<close>

definition answer :: "bool_result \<Rightarrow> function_log \<Rightarrow> hal \<Rightarrow> bool_result \<times> hal" where
  "answer res fl h = (res, add_log (setResult (success res) (errMsg res) fl) h)"

section \<open>Listeners\<close>

definition registerIpaCb :: "hal \<Rightarrow> hal" where
  "registerIpaCb h =
     (case mCb h of
        Some cb \<Rightarrow> if mCbIpa h = None
          then add_log (new_log ''registerEventListener'')
                 (h\<lparr>mCbIpa := Some cb, mIPA := snd (registerEventListener cb (mIPA h))\<rparr>)
          else h
      | None \<Rightarrow> h)"

definition registerCtCb :: "hal \<Rightarrow> hal" where
  "registerCtCb h =
     (case mCb h of
        Some cb \<Rightarrow> if mCbCt h = None
          then add_log (new_log ''registerCtTimeoutUpdater'')
                 (h\<lparr>mCbCt := Some cb, mIPA := snd (registerCtTimeoutUpdater cb (mIPA h))\<rparr>)
          else h
      | None \<Rightarrow> h)"

definition unregisterIpaCb :: "hal \<Rightarrow> hal" where
  "unregisterIpaCb h =
     (if mCbIpa h \<noteq> None
      then add_log (new_log ''unregisterEventListener'')
             (h\<lparr>mCbIpa := None, mIPA := snd (unregisterEventListener (mIPA h))\<rparr>)
      else h)"

definition unregisterCtCb :: "hal \<Rightarrow> hal" where
  "unregisterCtCb h =
     (if mCbCt h \<noteq> None
      then add_log (new_log ''unregisterCtTimeoutUpdater'')
             (h\<lparr>mCbCt := None, mIPA := snd (unregisterCtTimeoutUpdater (mIPA h))\<rparr>)
      else h)"

definition clearHandles :: "hal \<Rightarrow> hal" where
  "clearHandles h = h\<lparr>mHandle1 := [], mHandle2 := []\<rparr>"

section \<open>The requests of the framework\<close>

definition hal_initOffload :: "nat option \<Rightarrow> hal \<Rightarrow> bool_result \<times> hal" where
  "hal_initOffload cb h =
     (let fl = new_log ''initOffload'' in
      if isInitialized h then answer (makeInputCheckFailure ''Already initialized'') fl h
      else answer (ipaResultToBoolResult SUCCESS) fl (registerCtCb (registerIpaCb (h\<lparr>mCb := cb\<rparr>))))"

definition hal_stopOffload :: "hal \<Rightarrow> bool_result \<times> hal" where
  "hal_stopOffload h =
     (let fl = new_log ''stopOffload'' in
      if \<not> isInitialized h then answer (makeInputCheckFailure ''Was never initialized'') fl h
      else
        let h1 = unregisterCtCb (unregisterIpaCb (h\<lparr>mCb := None\<rparr>));
            (ipaReturn, mgr) = stopAllOffload (mIPA h1);
            h2 = h1\<lparr>mIPA := mgr\<rparr>;
            h3 = (if clearAllFds = SUCCESS then clearHandles h2 else h2)
        in answer (ipaResultToBoolResult (if ipaReturn \<noteq> SUCCESS then ipaReturn else clearAllFds)) fl h3)"

text \<open>The file descriptors of the handles are copied; \<open>data[0]\<close> of a handle is its first one.\<close>

definition hal_setHandles :: "offload_env \<Rightarrow> int list option \<Rightarrow> int list option \<Rightarrow> hal \<Rightarrow> (bool_result \<times> hal) option" where
  "hal_setHandles env fd1 fd2 h =
     (let fl = new_log ''setHandles'' in
      case fd1 of
        None \<Rightarrow> None
      | Some f1 \<Rightarrow>
          if length f1 \<noteq> 1 then Some (answer (makeInputCheckFailure ''Must provide exactly one FD per handle (fd1)'') fl h)
          else case fd2 of
            None \<Rightarrow> None
          | Some f2 \<Rightarrow>
              if length f2 \<noteq> 1 then Some (answer (makeInputCheckFailure ''Must provide exactly one FD per handle (fd2)'') fl h)
              else
                let a = dup_fd env (f1 ! 0); b = dup_fd env (f2 ! 0);
                    h1 = h\<lparr>mHandle1 := [a], mHandle2 := [b]\<rparr>;
                    fl1 = addArg_num ''fd2'' (of_int b) (addArg_num ''fd1'' (of_int a) fl);
                    (r1, m1) = provideFd env a UDP_SUBSCRIPTIONS (mIPA h1);
                    (r2, m2) = (if r1 = SUCCESS then provideFd env b TCP_SUBSCRIPTIONS m1 else (r1, m1));
                    h2 = h1\<lparr>mIPA := m2\<rparr>
                in Some (answer (ipaResultToBoolResult r2) fl1 (if r2 \<noteq> SUCCESS then clearHandles h2 else h2)))"

text \<open>
  Before initialisation the answer is the one cleared with \<open>memset\<close>: the failure that is made is a
  variable of the inner block.
\<close>

definition hal_setLocalPrefixes :: "(string \<Rightarrow> nat list option) \<Rightarrow> string list \<Rightarrow> hal \<Rightarrow> bool_result \<times> hal" where
  "hal_setLocalPrefixes pton6 prefixes h =
     (let fl = addArg_list ''prefixes'' prefixes (new_log ''setLocalPrefixes'');
          (ok, p) = parser_add_all pton6 INVALID prefixes new_parser;
          res = (if \<not> isInitialized h then \<lparr>success = False, errMsg = []\<rparr>
                 else if length prefixes < 1 then ipaResultToBoolResult FAIL_INPUT_CHECK
                 else if \<not> ok then makeInputCheckFailure (mLastErr p)
                 else ipaResultToBoolResult SUCCESS)
      in answer res fl h)"

text \<open>The received and the transmitted bytes.\<close>

definition hal_getForwardedStats :: "offload_env \<Rightarrow> string \<Rightarrow> hal \<Rightarrow> (64 word \<times> 64 word) \<times> hal" where
  "hal_getForwardedStats env upstream h =
     (let fl = addArg ''upstream'' upstream (new_log ''getForwardedStats'');
          (ipaReturn, tx, rx, mgr) = getStats env (c_str upstream) True (mIPA h);
          (rx', tx') = (if ipaReturn = SUCCESS then (rx, tx) else (0, 0))
      in ((rx', tx'), add_log (setResult_stats rx' tx' fl) (h\<lparr>mIPA := mgr\<rparr>)))"

definition hal_setDataLimit :: "offload_env \<Rightarrow> string \<Rightarrow> 64 word \<Rightarrow> hal \<Rightarrow> bool_result \<times> hal" where
  "hal_setDataLimit env upstream limit h =
     (let fl = addArg_num ''limit'' limit (addArg ''upstream'' upstream (new_log ''setDataLimit'')) in
      if \<not> isInitialized h then answer (makeInputCheckFailure ''Not initialized (setDataLimit)'') fl h
      else
        let (ipaReturn, mgr) = setQuota env (c_str upstream) limit (mIPA h)
        in answer (ipaResultToBoolResult (if ipaReturn = FAIL_TRY_AGAIN then SUCCESS else ipaReturn)) fl (h\<lparr>mIPA := mgr\<rparr>))"

definition hal_setUpstreamParameters ::
  "(string \<Rightarrow> nat list option) \<Rightarrow> offload_env \<Rightarrow> string \<Rightarrow> string \<Rightarrow> string \<Rightarrow> string list \<Rightarrow> hal \<Rightarrow> bool_result \<times> hal" where
  "hal_setUpstreamParameters pton6 env iface v4addr v4gw v6gws h =
     (let fl = addArg_list ''v6Gws'' v6gws (addArg ''v4Gw'' v4gw (addArg ''v4Addr'' v4addr
                 (addArg ''iface'' iface (new_log ''setUpstreamParameters''))));
          (okA, pA) = parser_add1 pton6 v4addr V4 new_parser;
          (ok4, p4) = parser_add1 pton6 v4gw V4 new_parser;
          (ok6, p6) = (if length v6gws \<ge> 1 then parser_addV6_all pton6 v6gws new_parser else (True, new_parser))
      in if \<not> isInitialized h then answer (makeInputCheckFailure ''Not initialized (setUpstreamParameters)'') fl h
         else if \<not> okA \<and> v4addr \<noteq> [] then answer (makeInputCheckFailure (mLastErr pA)) fl h
         else if \<not> ok4 \<and> v4gw \<noteq> [] then answer (makeInputCheckFailure (mLastErr p4)) fl h
         else if length v6gws \<ge> 1 \<and> \<not> ok6 then answer (makeInputCheckFailure (mLastErr p6)) fl h
         else
           let (ipaReturn, mgr) =
             (if length iface \<ge> 1
              then setUpstream env (Some (c_str iface)) (getFirstPrefix INVALID p4) (getFirstPrefix INVALID p6) (mIPA h)
              else setUpstream env None (getFirstPrefix V4 p4) (getFirstPrefix V6 p6) (mIPA h))
           in answer (ipaResultToBoolResult ipaReturn) fl (h\<lparr>mIPA := mgr\<rparr>))"

definition hal_addDownstream ::
  "(string \<Rightarrow> nat list option) \<Rightarrow> offload_env \<Rightarrow> string \<Rightarrow> string \<Rightarrow> hal \<Rightarrow> bool_result \<times> hal" where
  "hal_addDownstream pton6 env iface pre h =
     (let fl = addArg ''prefix'' pre (addArg ''iface'' iface (new_log ''addDownstream''));
          (ok, p) = parser_add1 pton6 pre INVALID new_parser
      in if \<not> isInitialized h then answer (makeInputCheckFailure ''Not initialized (setUpstreamParameters)'') fl h
         else if \<not> ok then answer (makeInputCheckFailure (mLastErr p)) fl h
         else
           let (ipaReturn, mgr) = addDownstream env (c_str iface) (getFirstPrefix INVALID p) (mIPA h)
           in answer (ipaResultToBoolResult ipaReturn) fl (h\<lparr>mIPA := mgr\<rparr>))"

definition hal_removeDownstream ::
  "(string \<Rightarrow> nat list option) \<Rightarrow> offload_env \<Rightarrow> string \<Rightarrow> string \<Rightarrow> hal \<Rightarrow> bool_result \<times> hal" where
  "hal_removeDownstream pton6 env iface pre h =
     (let fl = addArg ''prefix'' pre (addArg ''iface'' iface (new_log ''removeDownstream''));
          (ok, p) = parser_add1 pton6 pre INVALID new_parser
      in if \<not> isInitialized h then answer (makeInputCheckFailure ''Not initialized (setUpstreamParameters)'') fl h
         else if \<not> ok then answer (makeInputCheckFailure (mLastErr p)) fl h
         else
           let (ipaReturn, mgr) = removeDownstream env (c_str iface) (getFirstPrefix INVALID p) (mIPA h)
           in answer (ipaResultToBoolResult ipaReturn) fl (h\<lparr>mIPA := mgr\<rparr>))"

section \<open>News for the framework\<close>

datatype stopped_reason = REQUESTED | ERROR | UNSUPPORTED

datatype offload_callback_event = OFFLOAD_STARTED | OFFLOAD_STOPPED_ERROR | OFFLOAD_STOPPED_UNSUPPORTED
  | OFFLOAD_SUPPORT_AVAILABLE | OFFLOAD_STOPPED_LIMIT_REACHED

definition onOffloadStopped :: "stopped_reason \<Rightarrow> offload_callback_event list" where
  "onOffloadStopped reason =
     (case reason of REQUESTED \<Rightarrow> [] | ERROR \<Rightarrow> [OFFLOAD_STOPPED_ERROR] | UNSUPPORTED \<Rightarrow> [OFFLOAD_STOPPED_UNSUPPORTED])"

datatype l4_protocol = TCP | UDP

datatype network_protocol = HAL_TCP | HAL_UDP

record nat_timeout =
  to_src :: "u32 \<times> u16"
  to_dst :: "u32 \<times> u16"
  to_proto :: l4_protocol

record hal_nat_timeout =
  hal_src :: "string \<times> u16"
  hal_dst :: "string \<times> u16"
  hal_proto :: network_protocol

definition L4ToNetwork :: "l4_protocol \<Rightarrow> network_protocol" where
  "L4ToNetwork p = (case p of TCP \<Rightarrow> HAL_TCP | UDP \<Rightarrow> HAL_UDP)"

text \<open>The translation of an address cannot fail: the buffer is large enough for it.\<close>

definition translate_pair :: "u32 \<times> u16 \<Rightarrow> string \<times> u16" where
  "translate_pair ap = (inet_ntop4 (fst ap), snd ap)"

definition translate_timeout :: "nat_timeout \<Rightarrow> hal_nat_timeout" where
  "translate_timeout t =
     \<lparr>hal_src = translate_pair (to_src t), hal_dst = translate_pair (to_dst t), hal_proto = L4ToNetwork (to_proto t)\<rparr>"

section \<open>Histories\<close>

text \<open>
  A history of the HAL: the requests of the framework, and the interfaces that ask for their pending
  events when they have come up.
\<close>

datatype hal_event =
    InitOffload "nat option"
  | StopOffload
  | SetHandles offload_env "int list option" "int list option"
  | SetLocalPrefixes "string list"
  | GetForwardedStats offload_env string
  | SetDataLimit offload_env string "64 word"
  | SetUpstreamParameters offload_env string string string "string list"
  | AddDownstream offload_env string string
  | RemoveDownstream offload_env string string
  | InterfaceUp offload_env string

fun hal_step :: "(string \<Rightarrow> nat list option) \<Rightarrow> hal_event \<Rightarrow> hal \<Rightarrow> hal option" where
  "hal_step pton6 (InitOffload cb) h = Some (snd (hal_initOffload cb h))"
| "hal_step pton6 StopOffload h = Some (snd (hal_stopOffload h))"
| "hal_step pton6 (SetHandles env f1 f2) h = map_option snd (hal_setHandles env f1 f2 h)"
| "hal_step pton6 (SetLocalPrefixes ps) h = Some (snd (hal_setLocalPrefixes pton6 ps h))"
| "hal_step pton6 (GetForwardedStats env up) h = Some (snd (hal_getForwardedStats env up h))"
| "hal_step pton6 (SetDataLimit env up l) h = Some (snd (hal_setDataLimit env up l h))"
| "hal_step pton6 (SetUpstreamParameters env i a g gs) h = Some (snd (hal_setUpstreamParameters pton6 env i a g gs h))"
| "hal_step pton6 (AddDownstream env i p) h = Some (snd (hal_addDownstream pton6 env i p h))"
| "hal_step pton6 (RemoveDownstream env i p) h = Some (snd (hal_removeDownstream pton6 env i p h))"
| "hal_step pton6 (InterfaceUp env name) h = Some (h\<lparr>mIPA := snd (search_framwork_cache env name (mIPA h))\<rparr>)"

primrec hal_run :: "(string \<Rightarrow> nat list option) \<Rightarrow> hal_event list \<Rightarrow> hal \<Rightarrow> hal option" where
  "hal_run pton6 [] h = Some h"
| "hal_run pton6 (e # es) h = (case hal_step pton6 e h of None \<Rightarrow> None | Some h' \<Rightarrow> hal_run pton6 es h')"

fun event_env_ok :: "hal_event \<Rightarrow> bool" where
  "event_env_ok (SetUpstreamParameters env i a g gs) = env_ok env"
| "event_env_ok (InterfaceUp env name) = env_ok env"
| "event_env_ok _ = True"

text \<open>Without a client nothing is open and nothing is pending.\<close>

definition quiet :: "offload_mgr \<Rightarrow> bool" where
  "quiet s \<longleftrightarrow> default_gw_index s = INVALID_IFACE \<and> \<not> upstream_v4_up s \<and> \<not> upstream_v6_up s \<and> event_cache s = blank_cache"

definition hal_ok :: "hal \<Rightarrow> bool" where
  "hal_ok h \<longleftrightarrow> mgr_ok (mIPA h) \<and> length (mLogs h) \<le> 51 \<and> mCbIpa h = mCb h \<and> mCbCt h = mCb h \<and>
     elrInstance (mIPA h) = mCb h \<and> touInstance (mIPA h) = mCb h \<and> (mCb h = None \<longrightarrow> quiet (mIPA h))"

lemma length_addLog [simp]: "length l \<le> 51 \<Longrightarrow> length (addLog 50 fl l) \<le> 51"
  by (simp add: addLog_def)

lemma hal_ok_answer: "hal_ok h \<Longrightarrow> hal_ok (snd (answer r fl h))"
  by (simp add: hal_ok_def answer_def add_log_def)

lemma hal_ok_answered: "answer r fl h = (a, h') \<Longrightarrow> hal_ok h \<Longrightarrow> hal_ok h'"
  using hal_ok_answer [of h r fl] by simp

lemma hal_ok_mgr:
  assumes "hal_ok h" and "mgr_ok m" and "elrInstance m = elrInstance (mIPA h)" and "touInstance m = touInstance (mIPA h)"
    and "mCb h = None \<Longrightarrow> quiet (mIPA h) \<Longrightarrow> quiet m"
  shows "hal_ok (h\<lparr>mIPA := m\<rparr>)"
  using assms by (simp add: hal_ok_def)

text \<open>A parser that is told the family has only prefixes of that family.\<close>

lemma parser_add1_fam:
  assumes "hint \<noteq> INVALID" and "\<forall>q \<in> set (mPrefixes p). fam q = hint"
  shows "\<forall>q \<in> set (mPrefixes (snd (parser_add1 pton6 s hint p))). fam q = hint"
proof -
  have 4: "fam (snd (parseV4Addr a q)) = fam q" for a q by (simp add: parseV4Addr_def split: option.split)
  have 6: "fam (snd (parseV6Addr pton6 a q)) = fam q" for a q by (simp add: parseV6Addr_def split: option.split)
  have m4: "fam (snd (populateV4Mask m q)) = fam q" for m q by (simp add: populateV4Mask_def)
  have m6: "fam (snd (populateV6Mask m q)) = fam q" for m q by (simp add: populateV6Mask_def Let_def)
  show ?thesis using assms
    by (simp add: parser_add1_def Let_def case_prod_unfold 4 6 m4 m6 makeBlankPrefix_def split: option.split)
qed

lemma parser_each_fam:
  "hint \<noteq> INVALID \<Longrightarrow> \<forall>q \<in> set (mPrefixes p). fam q = hint \<Longrightarrow>
   \<forall>q \<in> set (mPrefixes (snd (parser_each pton6 hint ss p))). fam q = hint"
proof (induction ss arbitrary: p)
  case (Cons s ss)
  then show ?case using parser_add1_fam [OF Cons.prems, of pton6 s]
    by (simp add: Let_def case_prod_unfold)
qed simp

lemma getFirstPrefix_fam: "\<forall>q \<in> set (mPrefixes p). fam q = f \<Longrightarrow> fam (getFirstPrefix f p) = f"
  by (cases "mPrefixes p") (auto simp: getFirstPrefix_def makeBlankPrefix_def)

lemma quiet_search:
  assumes "quiet s"
  shows "snd (search_framwork_cache env name s) = s"
proof -
  have "search_slot env name i (r, s) = (r, s)" if "i < 10" for i r
    using assms that by (simp add: search_slot_def quiet_def blank_cache_def blank_entry_def)
  then have "fold (search_slot env name) is (r, s) = (r, s)" if "\<forall>i \<in> set is. i < 10" for "is" r
    using that by (induction "is") simp_all
  then show ?thesis by (simp add: search_framwork_cache_def)
qed

lemma hal_ok_log: "hal_ok h \<Longrightarrow> hal_ok (add_log fl h)"
  by (simp add: hal_ok_def add_log_def)

lemma hal_step_ok:
  assumes "hal_step pton6 e h = Some h'" and "hal_ok h" and "event_env_ok e"
  shows "hal_ok h'"
  using assms
proof (induction pton6 e h rule: hal_step.induct)
  case (1 pton6 cb h)
  show ?case
  proof (cases "mCb h")
    case None
    then have "hal_ok (registerCtCb (registerIpaCb (h\<lparr>mCb := cb\<rparr>)))"
      using "1.prems"(2) mgr_ok_update
      by (cases cb) (auto simp: hal_ok_def registerCtCb_def registerIpaCb_def add_log_def
          registerEventListener_def registerCtTimeoutUpdater_def)
    then show ?thesis using "1.prems" None by (auto simp: hal_initOffload_def isInitialized_def Let_def hal_ok_answer)
  next
    case (Some c)
    then show ?thesis using "1.prems" by (auto simp: hal_initOffload_def isInitialized_def Let_def hal_ok_answer)
  qed
next
  case (2 pton6 h)
  show ?case
  proof (cases "mCb h")
    case None
    then show ?thesis using "2.prems" by (auto simp: hal_stopOffload_def isInitialized_def Let_def hal_ok_answer)
  next
    case (Some c)
    define h1 where "h1 = unregisterCtCb (unregisterIpaCb (h\<lparr>mCb := None\<rparr>))"
    have m: "mgr_ok (mIPA h1)" "length (mLogs h1) \<le> 51" "mCbIpa h1 = None" "mCbCt h1 = None" "mCb h1 = None"
        "elrInstance (mIPA h1) = None" "touInstance (mIPA h1) = None"
      using "2.prems"(2) Some mgr_ok_update
      by (simp_all add: h1_def hal_ok_def unregisterCtCb_def unregisterIpaCb_def add_log_def
          unregisterEventListener_def unregisterCtTimeoutUpdater_def)
    have q: "quiet (snd (stopAllOffload (mIPA h1)))" by (simp add: stopAllOffload_def quiet_def case_prod_unfold Let_def)
    have "hal_ok (clearHandles (h1\<lparr>mIPA := snd (stopAllOffload (mIPA h1))\<rparr>))"
      using m q stopAllOffload_ok by (simp add: hal_ok_def clearHandles_def)
    then show ?thesis using "2.prems"(1) Some
      by (auto simp: hal_stopOffload_def isInitialized_def clearAllFds_def Let_def case_prod_unfold hal_ok_answer simp flip: h1_def)
  qed
next
  case (3 pton6 env f1 f2 h)
  have qp: "quiet (snd (provideFd env x g s))" if "quiet s" for x g s
    using that by (simp add: quiet_def provideFd_def call_out_def Let_def split: ct_groups.split)
  have one: "hal_ok (h\<lparr>mHandle1 := a, mHandle2 := b, mIPA := snd (provideFd env x g (mIPA h))\<rparr>)"
      "hal_ok (clearHandles (h\<lparr>mHandle1 := a, mHandle2 := b, mIPA := snd (provideFd env x g (mIPA h))\<rparr>))"
      "hal_ok (h\<lparr>mHandle1 := a, mHandle2 := b, mIPA := snd (provideFd env x' g' (snd (provideFd env x g (mIPA h))))\<rparr>)"
      "hal_ok (clearHandles (h\<lparr>mHandle1 := a, mHandle2 := b, mIPA := snd (provideFd env x' g' (snd (provideFd env x g (mIPA h))))\<rparr>))"
    for a b x g x' g'
    using "3.prems"(2) by (auto simp: hal_ok_def clearHandles_def provideFd_ok qp)
  show ?case using "3.prems"
    by (auto simp: hal_setHandles_def Let_def case_prod_unfold split: option.splits if_splits intro: hal_ok_answered one)
next
  case (4 pton6 ps h)
  then show ?case by (auto simp: hal_setLocalPrefixes_def Let_def case_prod_unfold hal_ok_answer)
next
  case (5 pton6 env up h)
  have "mgr_ok (snd (snd (snd (getStats env n r (mIPA h)))))" "quiet (mIPA h) \<Longrightarrow> quiet (snd (snd (snd (getStats env n r (mIPA h)))))"
      "elrInstance (snd (snd (snd (getStats env n r (mIPA h))))) = elrInstance (mIPA h)"
      "touInstance (snd (snd (snd (getStats env n r (mIPA h))))) = touInstance (mIPA h)" for n r
    using 5 mgr_okD
    by (simp_all add: hal_ok_def getStats_def call_out_def quiet_def Let_def mgr_ok_update split: option.split)
  then show ?case using 5
    by (auto simp: hal_getForwardedStats_def Let_def case_prod_unfold intro!: hal_ok_log hal_ok_mgr)
next
  case (6 pton6 env up l h)
  have "mgr_ok (snd (setQuota env n l (mIPA h)))" "quiet (mIPA h) \<Longrightarrow> quiet (snd (setQuota env n l (mIPA h)))"
      "elrInstance (snd (setQuota env n l (mIPA h))) = elrInstance (mIPA h)"
      "touInstance (snd (setQuota env n l (mIPA h))) = touInstance (mIPA h)" for n
    using 6 by (simp_all add: hal_ok_def setQuota_def call_out_def quiet_def mgr_ok_update)
  then show ?case using 6
    by (auto simp: hal_setDataLimit_def Let_def case_prod_unfold hal_ok_answer intro!: hal_ok_answer hal_ok_mgr)
next
  case (7 pton6 env i a g gs h)
  let ?p4 = "snd (parser_add1 pton6 g V4 new_parser)"
  let ?p6 = "snd (if length gs \<ge> 1 then parser_addV6_all pton6 gs new_parser else (True, new_parser))"
  have n: "\<forall>q \<in> set (mPrefixes new_parser). fam q = f" for f by (simp add: new_parser_def)
  have f4: "fam (getFirstPrefix V4 ?p4) = V4" by (intro getFirstPrefix_fam parser_add1_fam n) simp
  have f6: "fam (getFirstPrefix V6 ?p6) = V6"
    using parser_each_fam [OF _ n, of V6 pton6 gs] n
    by (intro getFirstPrefix_fam) (simp add: parser_addV6_all_def)
  have up: "hal_ok (h\<lparr>mIPA := snd (setUpstream env nm p q (mIPA h))\<rparr>)"
    if "mCb h \<noteq> None" "nm = None \<Longrightarrow> fam p = V4 \<and> fam q = V6" for nm p q
    using 7 that by (intro hal_ok_mgr setUpstream_ok) (auto simp: hal_ok_def)
  show ?case
  proof (cases "mCb h")
    case None
    then show ?thesis using 7
      by (auto simp: hal_setUpstreamParameters_def isInitialized_def Let_def case_prod_unfold hal_ok_answer)
  next
    case (Some c)
    then show ?thesis using 7 up [of None "getFirstPrefix V4 ?p4" "getFirstPrefix V6 ?p6"] up [of "Some (c_str i)"] f4 f6
      by (auto simp: hal_setUpstreamParameters_def isInitialized_def Let_def case_prod_unfold split: if_splits intro!: hal_ok_answer)
  qed
next
  case (8 pton6 env i p h)
  have "hal_ok (h\<lparr>mIPA := snd (addDownstream env n q (mIPA h))\<rparr>)" if "mCb h \<noteq> None" for n q
    using 8 that by (intro hal_ok_mgr addDownstream_ok) (auto simp: hal_ok_def)
  then show ?case using 8
    by (auto simp: hal_addDownstream_def isInitialized_def Let_def case_prod_unfold intro!: hal_ok_answer)
next
  case (9 pton6 env i p h)
  have "hal_ok (h\<lparr>mIPA := snd (removeDownstream env n q (mIPA h))\<rparr>)" if "mCb h \<noteq> None" for n q
    using 9 that by (intro hal_ok_mgr removeDownstream_ok) (auto simp: hal_ok_def)
  then show ?case using 9
    by (auto simp: hal_removeDownstream_def isInitialized_def Let_def case_prod_unfold intro!: hal_ok_answer)
next
  case (10 pton6 env name h)
  then show ?case
    by (auto simp: hal_ok_def quiet_search search_ok)
qed

lemma hal_ok_new: "hal_ok (new_hal new_mgr)"
  using mgr_ok_new by (simp add: hal_ok_def new_hal_def quiet_def) (simp add: new_mgr_def)

lemma hal_run_ok: "hal_run pton6 es h = Some h' \<Longrightarrow> hal_ok h \<Longrightarrow> list_all event_env_ok es \<Longrightarrow> hal_ok h'"
proof (induction es arbitrary: h)
  case (Cons e es)
  then obtain h1 where "hal_step pton6 e h = Some h1" "hal_run pton6 es h1 = Some h'" by (auto split: option.splits)
  then show ?case using Cons.IH hal_step_ok Cons.prems by fastforce
qed simp

section \<open>What the HAL promises\<close>

lemma posted_kept [simp]:
  "posted (snd (provideFd env fd g s)) = posted s" "posted (snd (snd (snd (getStats env n r s)))) = posted s"
  "posted (snd (registerEventListener l s)) = posted s" "posted (snd (registerCtTimeoutUpdater l s)) = posted s"
  by (simp_all add: provideFd_def getStats_def call_out_def registerEventListener_def registerCtTimeoutUpdater_def Let_def
      split: ct_groups.split option.split)

lemma uninitialised_posts_nothing:
  assumes "hal_step pton6 e h = Some h'" and "hal_ok h" and "mCb h = None"
  shows "posted (mIPA h') = posted (mIPA h)"
  using assms
proof (induction pton6 e h rule: hal_step.induct)
  case (1 pton6 cb h)
  then show ?case
    by (auto simp: hal_initOffload_def isInitialized_def answer_def add_log_def registerCtCb_def registerIpaCb_def Let_def split: option.splits)
next
  case (3 pton6 env f1 f2 h)
  then show ?case
    by (auto simp: hal_setHandles_def answer_def add_log_def clearHandles_def Let_def case_prod_unfold split: option.splits if_splits)
next
  case (10 pton6 env name h)
  then show ?case by (auto simp: hal_ok_def quiet_search)
qed (auto simp: hal_stopOffload_def hal_setLocalPrefixes_def hal_getForwardedStats_def hal_setDataLimit_def
    hal_setUpstreamParameters_def hal_addDownstream_def hal_removeDownstream_def isInitialized_def answer_def add_log_def
    Let_def case_prod_unfold)

definition example_env :: offload_env where
  "example_env = \<lparr>netdev = (\<lambda>_. Some 3), nat_ready = (\<lambda>n f. n \<noteq> ''wlan1''), ct_client = True, dup_fd = (\<lambda>fd. fd + 10),
     wwan_opens = True, quota_answer = QuotaOk, stats_answer = Some (0, 0)\<rparr>"

lemma example_env_ok [simp]: "env_ok example_env"
  by (simp add: env_ok_def example_env_def INVALID_IFACE_def)

text \<open>
  C18: Whatever the framework asks, in whatever order, and whichever interfaces come up in between, the
  route events of each family match: a route begins only when none is open, it ends with the index of the
  interface it began with, the flag of the family says whether one is open, and without a client none is.
\<close>

theorem offload_routes_matched:
  assumes "hal_run pton6 es (new_hal new_mgr) = Some h" and "list_all event_env_ok es"
  shows "open_route V4 (mIPA h) = Some (if upstream_v4_up (mIPA h) then Some (default_gw_index (mIPA h)) else None) \<and>
    open_route V6 (mIPA h) = Some (if upstream_v6_up (mIPA h) then Some (default_gw_index (mIPA h)) else None) \<and>
    (mCb h = None \<longrightarrow> open_route V4 (mIPA h) = Some None \<and> open_route V6 (mIPA h) = Some None)"
proof -
  have "hal_ok h" using hal_run_ok [OF assms(1) hal_ok_new assms(2)] .
  then show ?thesis by (auto simp: hal_ok_def mgr_ok_def routes_at_def quiet_def)
qed

lemma offload_routes_matched_witness:
  "\<exists>h. hal_run (\<lambda>_. None) [InitOffload (Some 1), SetUpstreamParameters example_env ''rmnet0'' '''' ''10.0.0.1'' [], StopOffload]
       (new_hal new_mgr) = Some h \<and> mCb h = None \<and> open_route V4 (mIPA h) = Some None"
proof -
  let ?es = "[InitOffload (Some 1), SetUpstreamParameters example_env ''rmnet0'' '''' ''10.0.0.1'' [], StopOffload]"
  obtain h where h: "hal_run (\<lambda>_. None) ?es (new_hal new_mgr) = Some h" by simp
  moreover have "mCb h = None"
    using h by (auto simp: hal_stopOffload_def isInitialized_def answer_def add_log_def clearAllFds_def clearHandles_def
        unregisterCtCb_def unregisterIpaCb_def Let_def case_prod_unfold)
  moreover have "list_all event_env_ok ?es" by simp
  ultimately show ?thesis using offload_routes_matched [OF h] by blast
qed

text \<open>
  At any time the listeners of the manager are those of the client, the log has at most 51 calls,
  and while there is no client no interface is the default, no route is up, nothing is pending, and no
  request, nor any interface that comes up, posts an event.
\<close>

theorem hal_client_discipline:
  assumes "hal_run pton6 es (new_hal new_mgr) = Some h" and "list_all event_env_ok es"
  shows "elrInstance (mIPA h) = mCb h \<and> touInstance (mIPA h) = mCb h \<and> length (mLogs h) \<le> 51 \<and>
    (mCb h = None \<longrightarrow> quiet (mIPA h) \<and>
      (\<forall>e h'. hal_step pton6 e h = Some h' \<longrightarrow> posted (mIPA h') = posted (mIPA h)))"
proof -
  have "hal_ok h" using hal_run_ok [OF assms(1) hal_ok_new assms(2)] .
  then show ?thesis using uninitialised_posts_nothing by (auto simp: hal_ok_def)
qed

lemma hal_client_discipline_witness:
  "\<exists>h. hal_run (\<lambda>_. None) [AddDownstream example_env ''wlan0'' ''192.168.1.0/24'', InterfaceUp example_env ''wlan0''] (new_hal new_mgr) = Some h \<and>
     posted (mIPA h) = [] \<and> quiet (mIPA h)"
proof -
  let ?es = "[AddDownstream example_env ''wlan0'' ''192.168.1.0/24'', InterfaceUp example_env ''wlan0'']"
  have none: "hal_run (\<lambda>_. None) [] (new_hal new_mgr) = Some (new_hal new_mgr)" "mCb (new_hal new_mgr) = None"
    by (simp_all add: new_hal_def)
  obtain h1 h where r: "hal_step (\<lambda>_. None) (?es ! 0) (new_hal new_mgr) = Some h1" "hal_step (\<lambda>_. None) (?es ! 1) h1 = Some h"
    by simp
  then have run: "hal_run (\<lambda>_. None) (take 1 ?es) (new_hal new_mgr) = Some h1" "hal_run (\<lambda>_. None) ?es (new_hal new_mgr) = Some h"
    by simp_all
  have cb: "mCb h1 = None" "mCb h = None"
    using r by (auto simp: new_hal_def hal_addDownstream_def isInitialized_def answer_def add_log_def Let_def case_prod_unfold)
  have e: "list_all event_env_ok []" "list_all event_env_ok (take 1 ?es)" "list_all event_env_ok ?es" by simp_all
  have "posted (mIPA h1) = posted (mIPA (new_hal new_mgr))" using hal_client_discipline [OF none(1) e(1)] r(1) none(2) by blast
  moreover have "posted (mIPA h) = posted (mIPA h1)" using hal_client_discipline [OF run(1) e(2)] r(2) cb by blast
  moreover have "quiet (mIPA h)" using hal_client_discipline [OF run(2) e(3)] cb by blast
  ultimately show ?thesis using run(2) by (simp add: new_hal_def new_mgr_def)
qed
end
