(* ===== verification/CtListener.thy ===== *)
theory CtListener
  imports NatCache NatIfaces
begin

text \<open>
  The connection tracking listener (\<open>IPACM_ConntrackListener.cpp\<close>): it keeps the addresses of the
  clients and the state of the WAN, and turns the messages of the kernel about connections into calls of
  the NAT application of \<open>NatCache\<close>.

  A message is the record of the attributes that \<open>libnetfilter_conntrack\<close> gives for it, in network
  byte order. What other components hold, and what the kernel answers about interfaces and threads, is in
  the environment of each event. The model is the build of \<open>Android.mk\<close>, without \<open>CT_OPT\<close> and
  \<open>IPACM_DEBUG\<close>. The effect on the kernel's filters (\<open>IPACM_ConntrackClient\<close>) is left out. A
  result \<open>None\<close> is a NULL pointer followed or an access outside the list of NAT interfaces.
\<close>

section \<open>Data\<close>

datatype ct_type = NFCT_T_NEW | NFCT_T_UPDATE | NFCT_T_DESTROY

record nf_conntrack =
  ATTR_STATUS :: u32
  ATTR_ORIG_L4PROTO :: u8
  ATTR_REPL_L4PROTO :: u8
  ATTR_ORIG_IPV4_SRC :: u32
  ATTR_ORIG_IPV4_DST :: u32
  ATTR_ORIG_PORT_SRC :: u16
  ATTR_ORIG_PORT_DST :: u16
  ATTR_REPL_IPV4_SRC :: u32
  ATTR_REPL_PORT_SRC :: u16
  ATTR_REPL_PORT_DST :: u16
  ATTR_TCP_STATE :: u8

text \<open>The constants of the kernel's headers.\<close>

abbreviation (input) IPS_SRC_NAT :: u32 where "IPS_SRC_NAT \<equiv> 0x10"
abbreviation (input) IPS_DST_NAT :: u32 where "IPS_DST_NAT \<equiv> 0x20"
abbreviation (input) IPPROTO_TCP :: u8 where "IPPROTO_TCP \<equiv> 6"
abbreviation (input) TCP_CONNTRACK_ESTABLISHED :: u8 where "TCP_CONNTRACK_ESTABLISHED \<equiv> 3"
abbreviation (input) TCP_CONNTRACK_FIN_WAIT :: u8 where "TCP_CONNTRACK_FIN_WAIT \<equiv> 4"

record ct_listener =
  nat_inst :: "NatApp option"
  isCTReg :: bool
  isNatThreadStart :: bool
  WanUp :: bool
  isStaMode :: bool
  wan_ifname :: string
  wan_ipaddr :: u32
  nat_iface_ipv4_addr :: "u32 list"
  nonnat_iface_ipv4_addr :: "u32 list"
  sta_clnt_ipv4_addr :: "u32 list"
  StaClntCnt :: int

text \<open>
  What the listener asks of others: the configuration, the address \<open>IPACM_Wan::getWANIP\<close>, the name of
  an interface, and whether threads can be made.
\<close>

record ct_env =
  nat_ifaces :: nat_config
  private_subnets :: "(u32 \<times> u32) list"
  ip_passthrough :: bool
  getWANIP :: u32
  ifname :: "int \<Rightarrow> string option"
  tcp_thread :: bool
  udp_thread :: bool
  timeout_thread :: bool

datatype ipa_ip_type = IPA_IP_v4 | IPA_IP_v6

record event_data_all =
  iptype :: ipa_ip_type
  if_index :: int
  ipv4_addr :: u32

record event_iface_up =
  up_ifname :: string
  up_ipv4_addr :: u32
  up_is_sta :: bool

text \<open>The constructor leaves \<open>wan_ipaddr\<close> and \<open>isStaMode\<close> as they are; they are arguments.\<close>

definition new_listener :: "NatApp option \<Rightarrow> bool \<Rightarrow> u32 \<Rightarrow> ct_listener" where
  "new_listener inst sta wan =
     \<lparr>nat_inst = inst, isCTReg = False, isNatThreadStart = False, WanUp = False, isStaMode = sta, wan_ifname = [],
      wan_ipaddr = wan, nat_iface_ipv4_addr = replicate 50 0, nonnat_iface_ipv4_addr = replicate 50 0,
      sta_clnt_ipv4_addr = replicate 10 0, StaClntCnt = 0\<rparr>"

text \<open>A call of the NAT application through the pointer.\<close>

definition nat_call :: "nat_driver \<Rightarrow> nat_event \<Rightarrow> ct_listener \<Rightarrow> ct_listener option" where
  "nat_call drv e s =
     (case nat_inst s of None \<Rightarrow> None | Some n \<Rightarrow> Some (s\<lparr>nat_inst := Some (nat_step drv e n)\<rparr>))"

definition nat_calls :: "nat_driver \<Rightarrow> nat_event list \<Rightarrow> ct_listener \<Rightarrow> ct_listener option" where
  "nat_calls drv es s = fold (\<lambda>e r. case r of None \<Rightarrow> None | Some s' \<Rightarrow> nat_call drv e s') es (Some s)"

section \<open>Clients\<close>

text \<open>Whether the call succeeds, and whether the interface is a NAT interface.\<close>

definition CheckNatIface :: "ct_env \<Rightarrow> event_data_all \<Rightarrow> (bool \<times> bool) option" where
  "CheckNatIface env data =
     (if ipv4_addr data = 0 \<or> iptype data \<noteq> IPA_IP_v4 then Some (False, False)
      else case GetNatIfaces (ipa_nat_iface_entries (nat_ifaces env)) (nat_ifaces env) of
             None \<Rightarrow> None
           | Some (ret, names) \<Rightarrow>
               if ret \<noteq> 0 then Some (False, False)
               else case ifname env (if_index data) of
                      None \<Rightarrow> Some (False, False)
                    | Some name \<Rightarrow> Some (True, name \<in> set names))"

text \<open>Interfaces without NAT: their connections get dummy rules.\<close>

definition HandleNonNatIPAddr ::
  "nat_driver \<Rightarrow> ct_env \<Rightarrow> event_data_all \<Rightarrow> bool \<Rightarrow> ct_listener \<Rightarrow> ct_listener option" where
  "HandleNonNatIPAddr drv env data AddOp s =
     (if isStaMode s then Some s
      else if AddOp then
        (case CheckNatIface env data of
           None \<Rightarrow> None
         | Some (ok, NatIface) \<Rightarrow>
             if \<not> NatIface \<and> ok then
               let cnt = first_index (\<lambda>a. a = 0) (nonnat_iface_ipv4_addr s)
               in if cnt < length (nonnat_iface_ipv4_addr s)
                  then nat_calls drv [EvFlushTempEntries (ipv4_addr data) True True]
                         (s\<lparr>nonnat_iface_ipv4_addr := (nonnat_iface_ipv4_addr s)[cnt := ipv4_addr data]\<rparr>)
                  else Some s
             else Some s)
      else
        let cnt = first_index (\<lambda>a. a = ipv4_addr data) (nonnat_iface_ipv4_addr s)
        in if cnt < length (nonnat_iface_ipv4_addr s)
           then nat_calls drv [EvFlushTempEntries (ipv4_addr data) False False, EvClntDiscon (ipv4_addr data)]
                  (s\<lparr>nonnat_iface_ipv4_addr := (nonnat_iface_ipv4_addr s)[cnt := 0]\<rparr>)
           else Some s)"

definition HandleNeighIpAddrAddEvt :: "nat_driver \<Rightarrow> ct_env \<Rightarrow> event_data_all \<Rightarrow> ct_listener \<Rightarrow> ct_listener option" where
  "HandleNeighIpAddrAddEvt drv env data s =
     (case CheckNatIface env data of
        None \<Rightarrow> None
      | Some (ok, NatIface) \<Rightarrow>
          if NatIface \<and> ok then
            let addrs = nat_iface_ipv4_addr s;
                j = first_index (\<lambda>a. a = ipv4_addr data \<or> a = 0) addrs
            in if j < length addrs
               then nat_calls drv [EvResetPwrSaveIf (ipv4_addr data), EvFlushTempEntries (ipv4_addr data) True False]
                      (if addrs ! j = ipv4_addr data then s else s\<lparr>nat_iface_ipv4_addr := addrs[j := ipv4_addr data]\<rparr>)
               else Some s
          else Some s)"

text \<open>All entries with the address are reset, each with its calls.\<close>

definition neigh_del_slot :: "nat_driver \<Rightarrow> u32 \<Rightarrow> nat \<Rightarrow> ct_listener option \<Rightarrow> ct_listener option" where
  "neigh_del_slot drv ip cnt r =
     (case r of
        None \<Rightarrow> None
      | Some s \<Rightarrow>
          if nat_iface_ipv4_addr s ! cnt = ip
          then nat_calls drv [EvFlushTempEntries ip False False, EvClntDiscon ip]
                 (s\<lparr>nat_iface_ipv4_addr := (nat_iface_ipv4_addr s)[cnt := 0]\<rparr>)
          else Some s)"

definition HandleNeighIpAddrDelEvt :: "nat_driver \<Rightarrow> u32 \<Rightarrow> ct_listener \<Rightarrow> ct_listener option" where
  "HandleNeighIpAddrDelEvt drv ip s =
     (if ip = 0 then Some s
      else fold (neigh_del_slot drv ip) [0..<length (nat_iface_ipv4_addr s)] (Some s))"

definition HandleSTAClientAddEvt :: "nat_driver \<Rightarrow> u32 \<Rightarrow> ct_listener \<Rightarrow> ct_listener option" where
  "HandleSTAClientAddEvt drv clnt_ip_addr s =
     (if StaClntCnt s \<ge> 10 then Some s
      else
        let addrs = sta_clnt_ipv4_addr s;
            cnt = first_index (\<lambda>a. a \<noteq> 0 \<and> a = clnt_ip_addr \<or> a = 0) addrs
        in nat_calls drv [EvFlushTempEntries clnt_ip_addr True False]
             (if cnt < length addrs \<and> \<not> (addrs ! cnt \<noteq> 0 \<and> addrs ! cnt = clnt_ip_addr)
              then s\<lparr>sta_clnt_ipv4_addr := addrs[cnt := clnt_ip_addr], StaClntCnt := StaClntCnt s + 1\<rparr>
              else s))"

definition HandleSTAClientDelEvt :: "nat_driver \<Rightarrow> u32 \<Rightarrow> ct_listener \<Rightarrow> ct_listener option" where
  "HandleSTAClientDelEvt drv clnt_ip_addr s =
     (let addrs = sta_clnt_ipv4_addr s;
          cnt = first_index (\<lambda>a. a \<noteq> 0 \<and> a = clnt_ip_addr) addrs
      in if cnt < length addrs
         then nat_calls drv [EvSTAClntDiscon clnt_ip_addr, EvFlushTempEntries clnt_ip_addr False False]
                (s\<lparr>sta_clnt_ipv4_addr := addrs[cnt := 0], StaClntCnt := StaClntCnt s - 1\<rparr>)
         else nat_calls drv [EvFlushTempEntries clnt_ip_addr False False] s)"

section \<open>The WAN\<close>

definition CreateConnTrackThreads :: "ct_env \<Rightarrow> ct_listener \<Rightarrow> ct_listener" where
  "CreateConnTrackThreads env s =
     (if \<not> isCTReg s \<and> tcp_thread env \<and> udp_thread env then s\<lparr>isCTReg := True\<rparr> else s)"

definition CreateNatThreads :: "ct_env \<Rightarrow> ct_listener \<Rightarrow> ct_listener" where
  "CreateNatThreads env s = (if \<not> isNatThreadStart s \<and> timeout_thread env then s\<lparr>isNatThreadStart := True\<rparr> else s)"

definition TriggerWANDown :: "nat_driver \<Rightarrow> u32 \<Rightarrow> ct_listener \<Rightarrow> ct_listener" where
  "TriggerWANDown drv wan_addr s =
     (case nat_inst s of
        None \<Rightarrow> s
      | Some n \<Rightarrow>
          let (ret, n') = DeleteTable drv wan_addr n; s' = s\<lparr>nat_inst := Some n'\<rparr>
          in if ret \<noteq> 0 then s' else s'\<lparr>WanUp := False, wan_ipaddr := 0\<rparr>)"

definition TriggerWANUp :: "nat_driver \<Rightarrow> ct_env \<Rightarrow> event_iface_up \<Rightarrow> ct_listener \<Rightarrow> ct_listener" where
  "TriggerWANUp drv env d s =
     (if up_ipv4_addr d = 0 then s
      else if WanUp s \<and> wan_ipaddr s = up_ipv4_addr d then s
      else
        let s1 = (if WanUp s then TriggerWANDown drv (wan_ipaddr s) s else s);
            s2 = s1\<lparr>WanUp := True, isStaMode := up_is_sta d, wan_ipaddr := up_ipv4_addr d, wan_ifname := take 16 (up_ifname d)\<rparr>;
            s3 = (case nat_inst s2 of None \<Rightarrow> s2 | Some n \<Rightarrow> s2\<lparr>nat_inst := Some (snd (AddTable drv (up_ipv4_addr d) n))\<rparr>)
        in CreateNatThreads env s3)"

section \<open>Connections\<close>

definition isPrivateSubnet :: "ct_env \<Rightarrow> u32 \<Rightarrow> bool" where
  "isPrivateSubnet env ip = list_ex (\<lambda>(subnet_addr, subnet_mask). subnet_addr = (subnet_mask AND ip)) (private_subnets env)"

text \<open>Whether the connection is of interest, its rule, and whether it has to wait.\<close>

definition AddIface :: "ct_env \<Rightarrow> ct_listener \<Rightarrow> nat_table_entry \<Rightarrow> bool \<times> nat_table_entry \<times> bool" where
  "AddIface env s rule =
     (let is_client = (\<lambda>a. a \<noteq> 0 \<and> (private_ip rule = a \<or> target_ip rule = a)) in
      if ip_passthrough env \<and> private_ip rule = getWANIP env then (True, rule, False)
      else if list_ex is_client (nat_iface_ipv4_addr s) then (True, rule, False)
      else if \<not> isStaMode s \<and> list_ex is_client (nonnat_iface_ipv4_addr s)
      then (True, rule\<lparr>private_ip := public_ip rule, private_port := public_port rule\<rparr>, False)
      else if isPrivateSubnet env (private_ip rule) \<or> isPrivateSubnet env (target_ip rule) then (True, rule, True)
      else (False, rule, False))"

definition PopulateTCPorUDPEntry :: "nf_conntrack \<Rightarrow> u32 \<Rightarrow> nat_table_entry \<Rightarrow> nat_table_entry" where
  "PopulateTCPorUDPEntry ct status rule =
     (if status = IPS_DST_NAT
      then rule\<lparr>dst_nat := True, target_ip := htonl (ATTR_ORIG_IPV4_SRC ct), target_port := htons (ATTR_ORIG_PORT_SRC ct),
                public_port := htons (ATTR_ORIG_PORT_DST ct), private_ip := htonl (ATTR_REPL_IPV4_SRC ct),
                private_port := htons (ATTR_REPL_PORT_SRC ct)\<rparr>
      else if status = IPS_SRC_NAT
      then rule\<lparr>dst_nat := False, target_ip := htonl (ATTR_ORIG_IPV4_DST ct), target_port := htons (ATTR_ORIG_PORT_DST ct),
                public_port := htons (ATTR_REPL_PORT_DST ct), private_ip := htonl (ATTR_ORIG_IPV4_SRC ct),
                private_port := htons (ATTR_ORIG_PORT_SRC ct)\<rparr>
      else rule)"

text \<open>Whether a connection has to wait because its target is an unknown client of the station.\<close>

definition CheckSTAClient :: "ct_listener \<Rightarrow> nat_table_entry \<Rightarrow> bool \<Rightarrow> bool" where
  "CheckSTAClient s rule isTempEntry =
     (if \<not> isStaMode s \<or> StaClntCnt s = 0 then isTempEntry
      else if (sta_clnt_ipv4_addr s ! 0) AND 0xFFFFFF00 \<noteq> target_ip rule AND 0xFFFFFF00 then isTempEntry
      else if list_ex (\<lambda>a. target_ip rule = a) (take (nat (StaClntCnt s)) (sta_clnt_ipv4_addr s)) then isTempEntry
      else True)"

text \<open>The kind of translation: by the flags, or by the side that has the address of the WAN.\<close>

definition nat_status :: "ct_listener \<Rightarrow> nf_conntrack \<Rightarrow> u32 option" where
  "nat_status s ct =
     (if IPS_DST_NAT AND ATTR_STATUS ct \<noteq> 0 then Some IPS_DST_NAT
      else if IPS_SRC_NAT AND ATTR_STATUS ct \<noteq> 0 then Some IPS_SRC_NAT
      else if htonl (ATTR_ORIG_IPV4_SRC ct) = 0 then None
      else if htonl (ATTR_ORIG_IPV4_DST ct) = 0 then None
      else if htonl (ATTR_ORIG_IPV4_SRC ct) = wan_ipaddr s then Some IPS_SRC_NAT
      else if htonl (ATTR_ORIG_IPV4_DST ct) = wan_ipaddr s then Some IPS_DST_NAT
      else None)"

text \<open>\<open>ProcessTCPorUDPMsg\<close> up to its last call: the rule and whether it has to wait.\<close>

definition nat_entry_of :: "ct_env \<Rightarrow> ct_listener \<Rightarrow> nf_conntrack \<Rightarrow> (nat_table_entry \<times> bool) option" where
  "nat_entry_of env s ct =
     (case nat_status s ct of
        None \<Rightarrow> None
      | Some status \<Rightarrow>
          let rule = (PopulateTCPorUDPEntry ct status (zero_entry\<lparr>protocol := ATTR_REPL_L4PROTO ct\<rparr>))
                       \<lparr>public_ip := wan_ipaddr s\<rparr>
          in if private_ip rule \<noteq> wan_ipaddr s
             then (case AddIface env s rule of (isAdd, rule', isTempEntry) \<Rightarrow>
                     if \<not> isAdd then None else Some (rule', CheckSTAClient s rule' isTempEntry))
             else if isStaMode s then None
             else let rule' = rule\<lparr>private_port := public_port rule\<rparr>
                  in Some (rule', CheckSTAClient s rule' False))"

definition add_event :: "ct_listener \<Rightarrow> nat_table_entry \<Rightarrow> bool \<Rightarrow> nat_event" where
  "add_event s rule isTempEntry =
     (if \<not> WanUp s then EvCacheEntry rule else if isTempEntry then EvAddTempEntry rule else EvAddEntry rule)"

definition AddORDeleteNatEntry ::
  "nat_driver \<Rightarrow> nf_conntrack \<Rightarrow> ct_type \<Rightarrow> nat_table_entry \<Rightarrow> bool \<Rightarrow> ct_listener \<Rightarrow> ct_listener option" where
  "AddORDeleteNatEntry drv ct type rule isTempEntry s =
     (if nat_inst s = None then Some s
      else if protocol rule = IPPROTO_TCP then
        (if ATTR_TCP_STATE ct = TCP_CONNTRACK_ESTABLISHED then nat_calls drv [add_event s rule isTempEntry] s
         else if ATTR_TCP_STATE ct = TCP_CONNTRACK_FIN_WAIT \<or> type = NFCT_T_DESTROY
         then nat_calls drv [EvDeleteEntry rule, EvDeleteTempEntry rule] s
         else Some s)
      else if protocol rule = IPPROTO_UDP then
        (if type = NFCT_T_NEW then nat_calls drv [add_event s rule isTempEntry] s
         else if type = NFCT_T_DESTROY then nat_calls drv [EvDeleteEntry rule, EvDeleteTempEntry rule] s
         else Some s)
      else Some s)"

definition ProcessTCPorUDPMsg ::
  "nat_driver \<Rightarrow> ct_env \<Rightarrow> nf_conntrack \<Rightarrow> ct_type \<Rightarrow> ct_listener \<Rightarrow> ct_listener option" where
  "ProcessTCPorUDPMsg drv env ct type s =
     (case nat_entry_of env s ct of
        None \<Rightarrow> Some s
      | Some (rule, isTempEntry) \<Rightarrow> AddORDeleteNatEntry drv ct type rule isTempEntry s)"

definition ProcessCTMessage ::
  "nat_driver \<Rightarrow> ct_env \<Rightarrow> nf_conntrack \<Rightarrow> ct_type \<Rightarrow> ct_listener \<Rightarrow> ct_listener option" where
  "ProcessCTMessage drv env ct type s =
     (if ATTR_ORIG_L4PROTO ct \<noteq> IPPROTO_UDP \<and> ATTR_ORIG_L4PROTO ct \<noteq> IPPROTO_TCP then Some s
      else ProcessTCPorUDPMsg drv env ct type s)"

section \<open>Events\<close>

datatype ct_event =
    IPA_PROCESS_CT_MESSAGE nf_conntrack ct_type
  | IPA_HANDLE_WAN_UP event_iface_up
  | IPA_HANDLE_WAN_DOWN event_iface_up
  | IPA_HANDLE_LAN_UP event_iface_up
  | IPA_NEIGH_CLIENT_IP_ADDR_ADD_EVENT event_data_all
  | IPA_NEIGH_CLIENT_IP_ADDR_DEL_EVENT event_data_all

text \<open>With the event for WLAN interfaces, which is handled like that for LAN interfaces.\<close>

fun ct_event_callback :: "nat_driver \<Rightarrow> ct_env \<Rightarrow> ct_event \<Rightarrow> ct_listener \<Rightarrow> ct_listener option" where
  "ct_event_callback drv env (IPA_PROCESS_CT_MESSAGE ct type) s = ProcessCTMessage drv env ct type s"
| "ct_event_callback drv env (IPA_HANDLE_WAN_UP d) s = Some (TriggerWANUp drv env d (CreateConnTrackThreads env s))"
| "ct_event_callback drv env (IPA_HANDLE_WAN_DOWN d) s = Some (if WanUp s then TriggerWANDown drv (up_ipv4_addr d) s else s)"
| "ct_event_callback drv env (IPA_HANDLE_LAN_UP d) s = Some (if WanUp s then CreateConnTrackThreads env s else s)"
| "ct_event_callback drv env (IPA_NEIGH_CLIENT_IP_ADDR_ADD_EVENT d) s = HandleNonNatIPAddr drv env d True s"
| "ct_event_callback drv env (IPA_NEIGH_CLIENT_IP_ADDR_DEL_EVENT d) s = HandleNonNatIPAddr drv env d False s"

section \<open>Histories\<close>

text \<open>
  What happens to a listener: the events it is registered for, the calls of the LAN, WLAN and WAN
  interfaces, and the calls the WLAN interface and the timeout thread make to the NAT application itself.
\<close>

datatype ct_input =
    Callback ct_env ct_event
  | NeighAdd ct_env event_data_all
  | NeighDel u32
  | StaAdd u32
  | StaDel u32
  | OffloadStart ct_env
  | TimeoutThread
  | WlanPowerSave u32
  | WlanPowerUp u32

fun ct_input_step :: "nat_driver \<Rightarrow> ct_input \<Rightarrow> ct_listener \<Rightarrow> ct_listener option" where
  "ct_input_step drv (Callback env e) s = ct_event_callback drv env e s"
| "ct_input_step drv (NeighAdd env d) s = HandleNeighIpAddrAddEvt drv env d s"
| "ct_input_step drv (NeighDel ip) s = HandleNeighIpAddrDelEvt drv ip s"
| "ct_input_step drv (StaAdd ip) s = HandleSTAClientAddEvt drv ip s"
| "ct_input_step drv (StaDel ip) s = HandleSTAClientDelEvt drv ip s"
| "ct_input_step drv (OffloadStart env) s = Some (CreateConnTrackThreads env s)"
| "ct_input_step drv TimeoutThread s = nat_call drv EvUpdateUDPTimeStamp s"
| "ct_input_step drv (WlanPowerSave ip) s = nat_call drv (EvUpdatePwrSaveIf ip) s"
| "ct_input_step drv (WlanPowerUp ip) s = nat_call drv (EvResetPwrSaveIf ip) s"

definition ct_step :: "nat_driver \<Rightarrow> ct_input \<Rightarrow> ct_listener option \<Rightarrow> ct_listener option" where
  "ct_step drv i r = (case r of None \<Rightarrow> None | Some s \<Rightarrow> ct_input_step drv i s)"

text \<open>The list of NAT interfaces stays within its array, and a client of the station has an address.\<close>

definition env_ok :: "ct_env \<Rightarrow> bool" where
  "env_ok env \<longleftrightarrow> ipa_nat_iface_entries (nat_ifaces env) \<le> length (pNatIfaces (nat_ifaces env))"

fun input_ok :: "ct_input \<Rightarrow> bool" where
  "input_ok (Callback env e) = env_ok env"
| "input_ok (NeighAdd env d) = env_ok env"
| "input_ok (StaAdd ip) = (ip \<noteq> 0)"
| "input_ok _ = True"

section \<open>The invariant of the listener and its NAT application\<close>

text \<open>What holds of the lists, and what of the NAT application.\<close>

definition lists_ok :: "ct_listener \<Rightarrow> bool" where
  "lists_ok s \<longleftrightarrow>
     length (nat_iface_ipv4_addr s) = 50 \<and> length (nonnat_iface_ipv4_addr s) = 50 \<and>
     length (sta_clnt_ipv4_addr s) = 10 \<and> StaClntCnt s = int (count_if (\<lambda>a. a \<noteq> 0) (sta_clnt_ipv4_addr s))"

definition nat_good :: "(NatApp \<Rightarrow> bool) \<Rightarrow> ct_listener option \<Rightarrow> bool" where
  "nat_good P r = (case r of None \<Rightarrow> False | Some s \<Rightarrow> lists_ok s \<and> (case nat_inst s of None \<Rightarrow> False | Some n \<Rightarrow> P n))"

lemma nat_good_none: "\<not> nat_good P None"
  by (simp add: nat_good_def)

text \<open>The addresses in the lists and the state of the WAN are not seen by the NAT application.\<close>

lemma lists_ok_fields [simp]:
  "lists_ok (s\<lparr>nat_inst := i\<rparr>) = lists_ok s" "lists_ok (s\<lparr>isCTReg := b\<rparr>) = lists_ok s"
  "lists_ok (s\<lparr>isNatThreadStart := b\<rparr>) = lists_ok s" "lists_ok (s\<lparr>WanUp := b\<rparr>) = lists_ok s"
  "lists_ok (s\<lparr>isStaMode := b\<rparr>) = lists_ok s" "lists_ok (s\<lparr>wan_ifname := x\<rparr>) = lists_ok s"
  "lists_ok (s\<lparr>wan_ipaddr := ip\<rparr>) = lists_ok s"
  by (simp_all add: lists_ok_def)

lemma lists_ok_addr:
  "lists_ok s \<Longrightarrow> lists_ok (s\<lparr>nat_iface_ipv4_addr := (nat_iface_ipv4_addr s)[i := a]\<rparr>)"
  "lists_ok s \<Longrightarrow> lists_ok (s\<lparr>nonnat_iface_ipv4_addr := (nonnat_iface_ipv4_addr s)[i := a]\<rparr>)"
  by (simp_all add: lists_ok_def)

lemma lists_ok_sta_add:
  assumes "lists_ok s" and "i < length (sta_clnt_ipv4_addr s)" and "sta_clnt_ipv4_addr s ! i = 0" and "a \<noteq> 0"
  shows "lists_ok (s\<lparr>sta_clnt_ipv4_addr := (sta_clnt_ipv4_addr s)[i := a], StaClntCnt := StaClntCnt s + 1\<rparr>)"
  using assms count_if_update [OF assms(2), of "\<lambda>a. a \<noteq> 0" a] by (simp add: lists_ok_def)

lemma lists_ok_sta_del:
  assumes "lists_ok s" and "i < length (sta_clnt_ipv4_addr s)" and "sta_clnt_ipv4_addr s ! i \<noteq> 0"
  shows "lists_ok (s\<lparr>sta_clnt_ipv4_addr := (sta_clnt_ipv4_addr s)[i := 0], StaClntCnt := StaClntCnt s - 1\<rparr>)"
  using assms count_if_update [OF assms(2), of "\<lambda>a. a \<noteq> 0" 0] by (simp add: lists_ok_def)

lemma CheckNatIface_total: "env_ok env \<Longrightarrow> CheckNatIface env d \<noteq> None"
  by (auto simp: CheckNatIface_def GetNatIfaces_def env_ok_def split: option.splits)

text \<open>
  A NAT application that keeps \<open>P\<close> under the calls a listener makes: every call but the deletion of the
  empty tuple. What follows is proved for any such \<open>P\<close> and used for the well-formed cache and the
  hardware table.
\<close>

locale nat_client =
  fixes drv :: nat_driver and P :: "NatApp \<Rightarrow> bool"
  assumes keeps: "P n \<Longrightarrow> real_event e \<Longrightarrow> P (nat_step drv e n)"
begin

lemma call_good: "nat_good P (Some s) \<Longrightarrow> real_event e \<Longrightarrow> nat_good P (nat_call drv e s)"
  by (auto simp: nat_good_def nat_call_def keeps split: option.splits)

lemma calls_good:
  assumes "nat_good P (Some s)" and "list_all real_event es"
  shows "nat_good P (nat_calls drv es s)"
proof -
  let ?f = "\<lambda>e r. case r of None \<Rightarrow> None | Some s' \<Rightarrow> nat_call drv e s'"
  have "nat_good P (fold ?f es r)" if "nat_good P r" "list_all real_event es" for r
    using that
  proof (induction es arbitrary: r)
    case (Cons e es)
    then obtain s' where "r = Some s'" by (cases r) (auto simp: nat_good_def)
    with Cons call_good show ?case by simp
  qed simp
  with assms show ?thesis by (simp add: nat_calls_def)
qed

lemma good_fields:
  "nat_good P (Some s) \<Longrightarrow> lists_ok s' \<Longrightarrow> nat_inst s' = nat_inst s \<Longrightarrow> nat_good P (Some s')"
  by (simp add: nat_good_def)

lemma good_lists: "nat_good P (Some s) \<Longrightarrow> lists_ok s"
  by (simp add: nat_good_def)

lemma good_inst: "nat_good P (Some s) \<Longrightarrow> \<exists>n. nat_inst s = Some n \<and> P n"
  by (auto simp: nat_good_def split: option.splits)

lemma nonnat_good:
  assumes "nat_good P (Some s)" and "env_ok env"
  shows "nat_good P (HandleNonNatIPAddr drv env d AddOp s)"
  using assms CheckNatIface_total [OF assms(2), of d]
  by (auto simp: HandleNonNatIPAddr_def Let_def good_lists lists_ok_addr split: option.splits
      intro!: calls_good good_fields [of s])

lemma neigh_add_good:
  assumes "nat_good P (Some s)" and "env_ok env"
  shows "nat_good P (HandleNeighIpAddrAddEvt drv env d s)"
  using assms CheckNatIface_total [OF assms(2), of d]
  by (auto simp: HandleNeighIpAddrAddEvt_def Let_def good_lists lists_ok_addr split: option.splits
      intro!: calls_good good_fields [of s])

lemma neigh_del_good:
  assumes "nat_good P (Some s)"
  shows "nat_good P (HandleNeighIpAddrDelEvt drv ip s)"
proof -
  have "nat_good P (neigh_del_slot drv ip i r)" if "nat_good P r" for i r
  proof (cases r)
    case None
    with that show ?thesis by (simp add: nat_good_def)
  next
    case (Some s')
    with that show ?thesis
      by (auto simp: neigh_del_slot_def good_lists lists_ok_addr intro!: calls_good good_fields [of s'])
  qed
  then show ?thesis using assms
    by (auto simp: HandleNeighIpAddrDelEvt_def intro!: fold_inv [where P = "nat_good P"])
qed

lemma sta_add_good:
  assumes "nat_good P (Some s)" and "ip \<noteq> 0"
  shows "nat_good P (HandleSTAClientAddEvt drv ip s)"
proof -
  let ?p = "\<lambda>a. a \<noteq> 0 \<and> a = ip \<or> a = 0"
  let ?i = "first_index ?p (sta_clnt_ipv4_addr s)"
  have "lists_ok (s\<lparr>sta_clnt_ipv4_addr := (sta_clnt_ipv4_addr s)[?i := ip], StaClntCnt := StaClntCnt s + 1\<rparr>)"
    if "?i < length (sta_clnt_ipv4_addr s)" "\<not> (sta_clnt_ipv4_addr s ! ?i \<noteq> 0 \<and> sta_clnt_ipv4_addr s ! ?i = ip)"
    using lists_ok_sta_add [OF good_lists [OF assms(1)] that(1)] first_index_holds [OF that(1)] that(2) assms(2) by simp
  then show ?thesis using assms
    by (auto simp: HandleSTAClientAddEvt_def Let_def intro!: calls_good intro: good_fields [OF assms(1)])
qed

lemma sta_del_good:
  assumes "nat_good P (Some s)"
  shows "nat_good P (HandleSTAClientDelEvt drv ip s)"
proof -
  let ?p = "\<lambda>a. a \<noteq> 0 \<and> a = ip"
  let ?i = "first_index ?p (sta_clnt_ipv4_addr s)"
  have "lists_ok (s\<lparr>sta_clnt_ipv4_addr := (sta_clnt_ipv4_addr s)[?i := 0], StaClntCnt := StaClntCnt s - 1\<rparr>)"
    if "?i < length (sta_clnt_ipv4_addr s)"
    using lists_ok_sta_del [OF good_lists [OF assms] that] first_index_holds [OF that] by auto
  then show ?thesis using assms
    by (auto simp: HandleSTAClientDelEvt_def Let_def intro!: calls_good intro: good_fields [OF assms])
qed

lemma delete_table_good: "P n \<Longrightarrow> P (snd (DeleteTable drv ip n))"
  using keeps [of n "EvDeleteTable ip"] by simp

lemma add_table_good: "P n \<Longrightarrow> P (snd (AddTable drv ip n))"
  using keeps [of n "EvAddTable ip"] by simp

lemma wan_down_good: "nat_good P (Some s) \<Longrightarrow> nat_good P (Some (TriggerWANDown drv ip s))"
  by (auto simp: nat_good_def TriggerWANDown_def case_prod_unfold Let_def delete_table_good split: option.splits)

lemma ct_threads_good: "nat_good P (Some s) \<Longrightarrow> nat_good P (Some (CreateConnTrackThreads env s))"
  by (simp add: nat_good_def CreateConnTrackThreads_def)

lemma nat_threads_good: "nat_good P (Some s) \<Longrightarrow> nat_good P (Some (CreateNatThreads env s))"
  by (simp add: nat_good_def CreateNatThreads_def)

lemma wan_up_good:
  assumes "nat_good P (Some s)"
  shows "nat_good P (Some (TriggerWANUp drv env d s))"
proof -
  have up: "nat_good P (Some (case nat_inst s1 of
        None \<Rightarrow> s1\<lparr>WanUp := u, isStaMode := m, wan_ipaddr := i, wan_ifname := f\<rparr>
      | Some n \<Rightarrow> s1\<lparr>WanUp := u, isStaMode := m, wan_ipaddr := i, wan_ifname := f, nat_inst := Some (snd (AddTable drv ip n))\<rparr>))"
    if "nat_good P (Some s1)" for s1 u m i f ip
    using that by (auto simp: nat_good_def add_table_good split: option.splits)
  show ?thesis using assms
    by (auto simp: TriggerWANUp_def Let_def intro!: nat_threads_good up wan_down_good)
qed

lemma message_good:
  assumes "nat_good P (Some s)"
  shows "nat_good P (ProcessCTMessage drv env ct type s)"
proof -
  have real: "real_event (EvDeleteEntry r)" "real_event (EvDeleteTempEntry r)" if "protocol r = 6 \<or> protocol r = 17" for r
    using that by (auto simp: free_slot_def)
  have "nat_good P (AddORDeleteNatEntry drv ct type r tmp s)" for r tmp
    using assms good_inst [OF assms] real [of r]
    by (auto simp: AddORDeleteNatEntry_def add_event_def intro!: calls_good)
  with assms show ?thesis
    by (auto simp: ProcessCTMessage_def ProcessTCPorUDPMsg_def split: option.splits prod.splits)
qed

lemma input_good:
  assumes "nat_good P (Some s)" and "input_ok i"
  shows "nat_good P (ct_input_step drv i s)"
proof (cases i)
  case (Callback env e)
  with assms show ?thesis
    by (cases e) (auto intro!: message_good wan_up_good wan_down_good ct_threads_good nonnat_good)
qed (use assms in \<open>auto intro!: neigh_add_good neigh_del_good sta_add_good sta_del_good ct_threads_good call_good\<close>)

lemma step_good: "nat_good P r \<Longrightarrow> input_ok i \<Longrightarrow> nat_good P (ct_step drv i r)"
  by (cases r) (simp_all add: ct_step_def input_good nat_good_none)

end

text \<open>
  The model's NAT application with its two invariants is such an application, and so the listener with
  its lists is an event machine.
\<close>

definition nat_sound :: "nat_driver \<Rightarrow> NatApp \<Rightarrow> bool" where
  "nat_sound drv n \<longleftrightarrow> cache_ok n \<and> (driver_lawful drv \<longrightarrow> hw_sync n)"

interpretation ct_nat: nat_client drv "nat_sound drv" for drv
  by unfold_locales (auto simp: nat_sound_def intro: nat_step_ok nat_step_sync)

interpretation ct_listener: event_machine "ct_step drv" "nat_good (nat_sound drv)" input_ok for drv
  by unfold_locales (rule ct_nat.step_good)

end
