(* ===== verification/CtFlow.thy ===== *)
theory CtFlow
  imports CtListener
begin

text \<open>
  Properties of the connection tracking listener with its NAT application: what any history keeps, a
  connection from its first message to its last, a connection that waits for its client, and what goes
  wrong when the table cannot be made or a client without NAT leaves before its connections.
\<close>

section \<open>What the calls leave as it is\<close>

lemma AddEntry_frame [simp]:
  "temp (snd (AddEntry drv r n)) = temp n" "pub_ip_addr (snd (AddEntry drv r n)) = pub_ip_addr n"
  "nat_table_hdl (snd (AddEntry drv r n)) = nat_table_hdl n" "pALGPorts (snd (AddEntry drv r n)) = pALGPorts n"
  by (cases rule: AddEntry_cases [of r n drv]; simp)+

lemma CacheEntry_frame [simp]:
  "temp (CacheEntry r n) = temp n" "nat_table_hdl (CacheEntry r n) = nat_table_hdl n"
  "driver_log (CacheEntry r n) = driver_log n"
  by (cases rule: CacheEntry_cases [of r n]; simp)+

lemma DeleteEntry_frame [simp]: "temp (snd (DeleteEntry drv r n)) = temp n"
  "nat_table_hdl (snd (DeleteEntry drv r n)) = nat_table_hdl n"
  by (simp_all add: DeleteEntry_def Let_def drv_del_rule_eq)

lemma temp_frame [simp]:
  "connections (AddTempEntry r n) = connections n" "connections (DeleteTempEntry r n) = connections n"
  "connections (n\<lparr>temp := ts\<rparr>) = connections n" "nat_table_hdl (AddTempEntry r n) = nat_table_hdl n"
  "nat_table_hdl (DeleteTempEntry r n) = nat_table_hdl n"
  by (auto intro: connections_frame simp: AddTempEntry_def DeleteTempEntry_def Let_def)

lemma AddTempEntry_same:
  "\<not> list_ex (\<lambda>t. same_tuple t r) (temp n) \<Longrightarrow>
   temp (AddTempEntry r n) = temp n \<or>
   (\<exists>i < length (temp n). temp (AddTempEntry r n) = (temp n)[i := r])"
  by (auto simp: AddTempEntry_def Let_def)

text \<open>A connection that is at most once in the list of waiting ones is not in it after its deletion.\<close>

lemma DeleteTempEntry_gone:
  assumes "count_if (\<lambda>t. same_tuple t r) (temp n) \<le> 1" and "\<not> free_slot r"
  shows "\<not> list_ex (\<lambda>t. same_tuple t r) (temp (DeleteTempEntry r n))"
proof (cases "first_index (\<lambda>t. same_tuple t r) (temp n) < length (temp n)")
  case True
  let ?i = "first_index (\<lambda>t. same_tuple t r) (temp n)"
  have z: "\<not> same_tuple zero_entry r" using assms(2) by (simp add: same_tuple_iff free_slot_iff eq_commute)
  have "count_if (\<lambda>t. same_tuple t r) ((temp n)[?i := zero_entry]) = 0"
    using count_if_update [OF True, of "\<lambda>t. same_tuple t r" zero_entry] first_index_holds [OF True] z assms(1) by simp
  then have "\<not> list_ex (\<lambda>t. same_tuple t r) ((temp n)[?i := zero_entry])"
    using count_if_pos [of "\<lambda>t. same_tuple t r" "(temp n)[?i := zero_entry]"] by (auto simp: list_ex_iff)
  with True show ?thesis by (simp add: DeleteTempEntry_def Let_def)
next
  case False
  then show ?thesis by (auto simp: DeleteTempEntry_def Let_def first_index_less list_ex_iff)
qed

lemma AddTempEntry_once:
  assumes "\<not> list_ex (\<lambda>t. same_tuple t r) (temp n)"
  shows "count_if (\<lambda>t. same_tuple t r) (temp (AddTempEntry r n)) \<le> 1"
proof -
  have none: "count_if (\<lambda>t. same_tuple t r) (temp n) = 0"
    using assms count_if_pos [of "\<lambda>t. same_tuple t r" "temp n"] by (auto simp: list_ex_iff)
  from AddTempEntry_same [OF assms] show ?thesis
  proof
    assume "\<exists>i < length (temp n). temp (AddTempEntry r n) = (temp n)[i := r]"
    then obtain i where i: "i < length (temp n)" "temp (AddTempEntry r n) = (temp n)[i := r]" by blast
    with count_if_update [OF i(1), of "\<lambda>t. same_tuple t r" r] none show ?thesis by (auto split: if_splits)
  qed (simp add: none)
qed

section \<open>Messages\<close>

text \<open>The first and the last message of a connection.\<close>

definition opens :: "nf_conntrack \<Rightarrow> ct_type \<Rightarrow> bool" where
  "opens ct type \<longleftrightarrow>
     (if ATTR_REPL_L4PROTO ct = 6 then ATTR_TCP_STATE ct = 3 else ATTR_REPL_L4PROTO ct = 17 \<and> type = NFCT_T_NEW)"

definition closes :: "nf_conntrack \<Rightarrow> ct_type \<Rightarrow> bool" where
  "closes ct type \<longleftrightarrow>
     (if ATTR_REPL_L4PROTO ct = 6 then ATTR_TCP_STATE ct \<noteq> 3 \<and> (ATTR_TCP_STATE ct = 4 \<or> type = NFCT_T_DESTROY)
      else ATTR_REPL_L4PROTO ct = 17 \<and> type = NFCT_T_DESTROY)"

lemma entry_protocol:
  assumes "nat_entry_of env s ct = Some (rule, tmp)"
  shows "protocol rule = ATTR_REPL_L4PROTO ct"
  using assms
  by (auto simp: nat_entry_of_def AddIface_def PopulateTCPorUDPEntry_def Let_def split: option.splits if_splits)

lemma entry_public:
  assumes "nat_entry_of env s ct = Some (rule, tmp)"
  shows "public_ip rule = wan_ipaddr s"
  using assms by (auto simp: nat_entry_of_def AddIface_def Let_def split: option.splits if_splits)

lemma AddIface_inst [simp]: "AddIface env (s\<lparr>nat_inst := i\<rparr>) r = AddIface env s r"
  by (simp add: AddIface_def Let_def)

lemma entry_parts_inst [simp]:
  "nat_status (s\<lparr>nat_inst := i\<rparr>) ct = nat_status s ct"
  "CheckSTAClient (s\<lparr>nat_inst := i\<rparr>) r tmp = CheckSTAClient s r tmp"
  by (simp_all add: nat_status_def CheckSTAClient_def)

lemma nat_entry_of_inst [simp]: "nat_entry_of env (s\<lparr>nat_inst := i\<rparr>) ct = nat_entry_of env s ct"
  by (simp add: nat_entry_of_def Let_def case_prod_unfold cong: option.case_cong if_cong)

lemma entry_parts_state [simp]:
  "nat_status s (ct\<lparr>ATTR_TCP_STATE := st\<rparr>) = nat_status s ct"
  "PopulateTCPorUDPEntry (ct\<lparr>ATTR_TCP_STATE := st\<rparr>) status r = PopulateTCPorUDPEntry ct status r"
  by (simp_all add: nat_status_def PopulateTCPorUDPEntry_def)

lemma nat_entry_of_state [simp]: "nat_entry_of env s (ct\<lparr>ATTR_TCP_STATE := st\<rparr>) = nat_entry_of env s ct"
  by (simp add: nat_entry_of_def cong: option.case_cong)

lemma nat_calls_Some:
  assumes "nat_inst s = Some n"
  shows "nat_calls drv [e] s = Some (s\<lparr>nat_inst := Some (nat_step drv e n)\<rparr>)"
    "nat_calls drv [e, e'] s = Some (s\<lparr>nat_inst := Some (nat_step drv e' (nat_step drv e n))\<rparr>)"
  by (simp_all add: nat_calls_def nat_call_def assms)

lemma opening_message:
  assumes "nat_inst s = Some n" and "nat_entry_of env s ct = Some (rule, tmp)" and "opens ct type"
    and "ATTR_ORIG_L4PROTO ct = ATTR_REPL_L4PROTO ct"
  shows "ProcessCTMessage drv env ct type s = Some (s\<lparr>nat_inst := Some (nat_step drv (add_event s rule tmp) n)\<rparr>)"
proof -
  have "AddORDeleteNatEntry drv ct type rule tmp s = nat_calls drv [add_event s rule tmp] s"
    using assms(1,3) entry_protocol [OF assms(2)]
    by (simp add: AddORDeleteNatEntry_def opens_def del: One_nat_def split: if_splits)
  moreover have "ATTR_ORIG_L4PROTO ct = 17 \<or> ATTR_ORIG_L4PROTO ct = 6"
    using assms(3,4) by (simp add: opens_def split: if_splits)
  ultimately show ?thesis
    by (auto simp add: ProcessCTMessage_def ProcessTCPorUDPMsg_def assms(2) nat_calls_Some [OF assms(1)])
qed

lemma closing_message:
  assumes "nat_inst s = Some n" and "nat_entry_of env s ct = Some (rule, tmp)" and "closes ct type"
    and "ATTR_ORIG_L4PROTO ct = ATTR_REPL_L4PROTO ct"
  shows "ProcessCTMessage drv env ct type s =
    Some (s\<lparr>nat_inst := Some (DeleteTempEntry rule (snd (DeleteEntry drv rule n)))\<rparr>)"
proof -
  have "AddORDeleteNatEntry drv ct type rule tmp s = nat_calls drv [EvDeleteEntry rule, EvDeleteTempEntry rule] s"
    using assms(1,3) entry_protocol [OF assms(2)]
    by (simp add: AddORDeleteNatEntry_def closes_def del: One_nat_def split: if_splits)
  moreover have "ATTR_ORIG_L4PROTO ct = 17 \<or> ATTR_ORIG_L4PROTO ct = 6"
    using assms(3,4) by (simp add: closes_def split: if_splits)
  ultimately show ?thesis
    by (auto simp add: ProcessCTMessage_def ProcessTCPorUDPMsg_def assms(2) nat_calls_Some [OF assms(1)])
qed

lemma add_event_effect:
  assumes "cache_ok n" and "\<not> list_ex (\<lambda>t. same_tuple t rule) (temp n)"
  shows "count_if (\<lambda>t. same_tuple t rule) (temp (nat_step drv (add_event s rule tmp) n)) \<le> 1 \<and>
    (connections (nat_step drv (add_event s rule tmp) n))(tuple_of rule := None) = (connections n)(tuple_of rule := None)"
proof -
  have "count_if (\<lambda>t. same_tuple t rule) (temp n) = 0"
    using assms(2) count_if_pos [of "\<lambda>t. same_tuple t rule" "temp n"] by (auto simp: list_ex_iff)
  with assms AddTempEntry_once [OF assms(2)] show ?thesis
    by (simp add: add_event_def CacheEntry_connections AddEntry_connections)
qed

lemma add_event_ok: "cache_ok n \<Longrightarrow> cache_ok (nat_step drv (add_event s rule tmp) n)"
  by (rule nat_step_ok) (simp_all add: add_event_def)

section \<open>A waiting connection\<close>

lemma AddEntry_dup:
  assumes "fst (AddEntry drv r n) = 0" and "\<not> invalid_rule r"
  shows "\<not> ChkForDup r n"
  using assms by (cases rule: AddEntry_cases [of r n drv]) auto

text \<open>Nothing is removed from the cache by a flush, and a full cache stays full.\<close>

definition known_or_full :: "nat_table_entry \<Rightarrow> NatApp \<Rightarrow> bool" where
  "known_or_full r n \<longleftrightarrow> connections n (tuple_of r) \<noteq> None \<or> \<not> list_ex free_slot (cache n)"

lemma AddEntry_known:
  assumes "cache_ok n" and "known_or_full r n"
  shows "known_or_full r (snd (AddEntry drv r' n))"
proof (cases "list_ex free_slot (cache n)")
  case True
  with assms have "connections n (tuple_of r) \<noteq> None" by (simp add: known_or_full_def)
  then show ?thesis by (simp add: known_or_full_def AddEntry_connections [OF assms(1)])
next
  case False
  then have "add_refused r' n \<or> invalid_rule r'" by (auto simp: add_refused_def)
  then have "snd (AddEntry drv r' n) = n" by (cases rule: AddEntry_cases [of r' n drv]) auto
  with assms show ?thesis by simp
qed

lemma known_temp [simp]: "known_or_full r (n\<lparr>temp := ts\<rparr>) = known_or_full r n"
  by (simp add: known_or_full_def)

lemma flush_slot_known:
  "cache_ok n \<Longrightarrow> known_or_full r n \<Longrightarrow> known_or_full r (flush_slot drv ip isAdd isDummy i n)"
  by (simp add: flush_slot_def Let_def case_prod_unfold AddEntry_known)

text \<open>A driver that takes every rule: with a table, a complete connection is added unless it is known or
  there is no room.\<close>

lemma AddEntry_takes:
  assumes "cache_ok n" and "nat_table_hdl n \<noteq> 0" and "\<And>log t r. 0 \<le> fst (add_rule drv log t r)"
    and "\<not> isAlgPort (protocol r) (private_port r) n" and "\<not> isAlgPort (protocol r) (target_port r) n"
    and "\<not> invalid_rule r"
  shows "known_or_full r (snd (AddEntry drv r n))"
proof (cases rule: AddEntry_cases [of r n drv])
  case refused
  then have "ChkForDup r n \<or> \<not> list_ex free_slot (cache n)" using assms by (simp add: add_refused_def)
  with refused(2) show ?thesis using dup_connections [OF assms(1,6)] by (auto simp: known_or_full_def)
next
  case (rejected i ret out)
  with assms(3) [of "driver_log n" "nat_table_hdl n" "nat_rule_of r"] show ?thesis by simp
qed (use AddEntry_connections [OF assms(1), of drv r] assms(6) in \<open>simp_all add: known_or_full_def\<close>)

lemma flush_slot_frame [simp]:
  "length (temp (flush_slot drv ip isAdd isDummy i n)) = length (temp n)"
  "pub_ip_addr (flush_slot drv ip isAdd isDummy i n) = pub_ip_addr n"
  "nat_table_hdl (flush_slot drv ip isAdd isDummy i n) = nat_table_hdl n"
  "pALGPorts (flush_slot drv ip isAdd isDummy i n) = pALGPorts n"
  "j \<noteq> i \<Longrightarrow> temp (flush_slot drv ip isAdd isDummy i n) ! j = temp n ! j"
  by (simp_all add: flush_slot_def Let_def case_prod_unfold)

definition takes_all :: "nat_driver \<Rightarrow> bool" where
  "takes_all drv \<longleftrightarrow> (\<forall>log t r. 0 \<le> fst (add_rule drv log t r))"

lemma flush_settles:
  assumes "cache_ok n" and "nat_table_hdl n \<noteq> 0" and "takes_all drv"
    and "j < length (temp n)" and "temp n ! j = r" and "private_ip r = ip \<or> target_ip r = ip"
    and "public_ip r = pub_ip_addr n" and "\<not> invalid_rule r"
    and "\<not> isAlgPort (protocol r) (private_port r) n" and "\<not> isAlgPort (protocol r) (target_port r) n"
  shows "known_or_full r (FlushTempEntries drv ip True False n)"
proof -
  let ?Q = "\<lambda>i m. cache_ok m \<and> length (temp m) = length (temp n) \<and> pub_ip_addr m = pub_ip_addr n \<and>
    nat_table_hdl m = nat_table_hdl n \<and> pALGPorts m = pALGPorts n \<and> (if i \<le> j then temp m ! j = r else known_or_full r m)"
  have at_j: "known_or_full r (flush_slot drv ip True False j m)"
    if "cache_ok m" "temp m ! j = r" "pub_ip_addr m = pub_ip_addr n" "nat_table_hdl m = nat_table_hdl n"
      "pALGPorts m = pALGPorts n" for m
  proof -
    have "isAlgPort p q (m\<lparr>temp := ts\<rparr>) = isAlgPort p q n" for p q ts
      using that by (simp add: isAlgPort_def)
    then have "known_or_full r (snd (AddEntry drv r (m\<lparr>temp := (temp m)[j := r]\<rparr>)))"
      by (intro AddEntry_takes) (use assms that in \<open>simp_all add: takes_all_def\<close>)
    with assms(6,7) that show ?thesis by (simp add: flush_slot_def Let_def case_prod_unfold)
  qed
  have "?Q (length (temp n)) (fold (flush_slot drv ip True False) [0..<length (temp n)] n)"
  proof (rule fold_upt_inv [where P = ?Q])
    fix i m assume "i < length (temp n)" and Q: "?Q i m"
    then have frame: "cache_ok m" "length (temp m) = length (temp n)" "pub_ip_addr m = pub_ip_addr n"
      "nat_table_hdl m = nat_table_hdl n" "pALGPorts m = pALGPorts n"
      and at: "if i \<le> j then temp m ! j = r else known_or_full r m" by blast+
    let ?m = "flush_slot drv ip True False i m"
    have "if Suc i \<le> j then temp ?m ! j = r else known_or_full r ?m"
    proof (cases i j rule: linorder_cases)
      case less
      with at show ?thesis by simp
    next
      case equal
      with at at_j [of m] frame show ?thesis by simp
    next
      case greater
      with at flush_slot_known [OF frame(1)] show ?thesis by simp
    qed
    with frame flush_slot_ok [OF frame(1)] show "?Q (Suc i) ?m" by simp
  qed (use assms in simp)
  with assms(4) show ?thesis by (simp add: FlushTempEntries_def)
qed

lemma reinstall_frame [simp]:
  "temp (reinstall drv i n) = temp n" "pub_ip_addr (reinstall drv i n) = pub_ip_addr n"
  "nat_table_hdl (reinstall drv i n) = nat_table_hdl n" "pALGPorts (reinstall drv i n) = pALGPorts n"
  by (simp_all add: reinstall_def drv_add_rule_def case_prod_unfold)

lemma ResetPwrSaveIf_frame:
  "temp (snd (ResetPwrSaveIf drv ip n)) = temp n \<and> pub_ip_addr (snd (ResetPwrSaveIf drv ip n)) = pub_ip_addr n \<and>
   nat_table_hdl (snd (ResetPwrSaveIf drv ip n)) = nat_table_hdl n \<and> pALGPorts (snd (ResetPwrSaveIf drv ip n)) = pALGPorts n"
proof -
  let ?P = "\<lambda>m. temp m = temp n \<and> pub_ip_addr m = pub_ip_addr n \<and> nat_table_hdl m = nat_table_hdl n \<and> pALGPorts m = pALGPorts n"
  have "?P (fold (power_up_slot drv ip) is m)" if "?P m" for "is" m
    by (rule fold_inv [where P = ?P]) (use that in \<open>simp_all add: power_up_slot_def\<close>)
  then show ?thesis by (simp add: ResetPwrSaveIf_def for_cache_def)
qed

lemma AddTempEntry_waits:
  assumes "\<not> isAlgPort (protocol r) (private_port r) n" and "\<not> isAlgPort (protocol r) (target_port r) n"
    and "\<not> ChkForDup r n" and "\<not> list_ex (\<lambda>t. same_tuple t r) (temp n)"
    and "list_ex (\<lambda>t. private_ip t = 0 \<and> target_ip t = 0) (temp n)"
  shows "\<exists>j < length (temp n). AddTempEntry r n = n\<lparr>temp := (temp n)[j := r]\<rparr>"
  using assms first_index_less [of "\<lambda>t. private_ip t = 0 \<and> target_ip t = 0" "temp n"]
  by (auto simp: AddTempEntry_def Let_def list_ex_iff)

section \<open>Without a table\<close>

text \<open>A NAT application without a table in which nothing is enabled makes no call to the driver.\<close>

definition idle :: "nat_call list \<Rightarrow> NatApp \<Rightarrow> bool" where
  "idle log n \<longleftrightarrow> nat_table_hdl n = 0 \<and> driver_log n = log \<and> list_all (\<lambda>e. \<not> enabled e) (cache n)"

lemma idle_fields [simp]:
  "idle log (n\<lparr>temp := ts\<rparr>) = idle log n" "idle log (n\<lparr>curCnt := c\<rparr>) = idle log n"
  "idle log (n\<lparr>PwrSaveIfs := p\<rparr>) = idle log n"
  by (simp_all add: idle_def)

lemma idle_set_slot: "idle log n \<Longrightarrow> \<not> enabled e \<Longrightarrow> idle log (set_slot i e n)"
  by (auto simp: idle_def set_slot_def list_all_iff dest!: set_update_subset [THEN subsetD])

lemma idle_nth: "idle log n \<Longrightarrow> i < length (cache n) \<Longrightarrow> \<not> enabled (cache n ! i)"
  by (simp add: idle_def list_all_length)

lemma idle_add: "idle log n \<Longrightarrow> AddEntry drv r n = (-1, n)"
  by (simp add: idle_def AddEntry_def)

lemma idle_delete: "idle log n \<Longrightarrow> idle log (snd (DeleteEntry drv r n))"
  by (auto simp: DeleteEntry_def Let_def idle_nth intro!: idle_set_slot)

lemma idle_cache: "idle log n \<Longrightarrow> idle log (CacheEntry r n)"
  by (auto simp: CacheEntry_def Let_def intro!: idle_set_slot)

lemma idle_loop:
  assumes "idle log n" and "\<And>i m. idle log m \<Longrightarrow> i < length (cache m) \<Longrightarrow> idle log (body i m)"
    and "\<And>i m. length (cache (body i m)) = length (cache m)"
  shows "idle log (for_cache body n)"
  by (rule for_cache_inv [where P = "idle log"]) (use assms in simp_all)

lemma idle_flush: "idle log n \<Longrightarrow> idle log (FlushTempEntries drv ip isAdd isDummy n)"
  unfolding FlushTempEntries_def
  by (rule fold_inv [where P = "idle log"]) (simp_all add: flush_slot_def Let_def idle_add [of log])

lemma idle_timestamps: "idle log n \<Longrightarrow> UpdateUDPTimeStamp drv n = n"
proof -
  assume n: "idle log n"
  have "fold (udp_slot drv) is (b, n) = (b, n)" if "list_all (\<lambda>i. i < length (cache n)) is" for "is" b
    using that by (induction "is") (simp_all add: udp_slot_def idle_nth [OF n] Let_def)
  then show ?thesis by (simp add: UpdateUDPTimeStamp_def list_all_iff)
qed

lemma idle_slots:
  assumes "idle log n" and "i < length (cache n)"
  shows "idle log (power_down_slot drv ip i n)" "idle log (discon_slot drv ip i n)" "idle log (sta_discon_slot drv ip i n)"
  using assms idle_nth [OF assms]
  by (auto simp: power_down_slot_def discon_slot_def sta_discon_slot_def Let_def intro!: idle_set_slot)

text \<open>Every call but making a table and waking a client.\<close>

fun quiet_event :: "nat_event \<Rightarrow> bool" where
  "quiet_event (EvAddTable ip) = False"
| "quiet_event (EvResetPwrSaveIf ip) = False"
| "quiet_event _ = True"

lemma idle_step: "idle log n \<Longrightarrow> quiet_event e \<Longrightarrow> idle log (nat_step drv e n)"
proof (cases e)
  case (EvUpdatePwrSaveIf ip)
  assume "idle log n"
  with EvUpdatePwrSaveIf show ?thesis
    by (auto simp: UpdatePwrSaveIf_def intro!: idle_loop idle_slots)
next
  case (EvClntDiscon ip)
  assume "idle log n"
  with EvClntDiscon show ?thesis
    by (auto simp: DelEntriesOnClntDiscon_def intro!: idle_loop idle_slots)
next
  case (EvSTAClntDiscon ip)
  assume "idle log n"
  with EvSTAClntDiscon show ?thesis
    by (auto simp: DelEntriesOnSTAClntDiscon_def intro!: idle_loop idle_slots)
next
  case (EvDeleteTable ip)
  assume "idle log n"
  with EvDeleteTable show ?thesis by (simp add: DeleteTable_def idle_def)
next
  case (EvAddEntry r)
  assume "idle log n"
  with EvAddEntry show ?thesis by (simp add: idle_add)
next
  case EvUpdateUDPTimeStamp
  assume "idle log n"
  with EvUpdateUDPTimeStamp show ?thesis by (simp add: idle_timestamps)
next
  case (EvAddTempEntry r)
  assume "idle log n"
  with EvAddTempEntry show ?thesis by (simp add: AddTempEntry_def Let_def)
next
  case (EvDeleteTempEntry r)
  assume "idle log n"
  with EvDeleteTempEntry show ?thesis by (simp add: DeleteTempEntry_def Let_def)
qed (simp_all add: idle_delete idle_cache idle_flush)

text \<open>The listener that believes the WAN is up although its table was not made.\<close>

definition stuck :: "u32 \<Rightarrow> nat_call list \<Rightarrow> ct_listener option \<Rightarrow> bool" where
  "stuck ip log r =
     (case r of None \<Rightarrow> True
      | Some s \<Rightarrow> WanUp s \<and> wan_ipaddr s = ip \<and> (case nat_inst s of None \<Rightarrow> False | Some n \<Rightarrow> idle log n))"

text \<open>No other address for the WAN, and no client wakes up or comes to a NAT interface.\<close>

fun same_wan :: "u32 \<Rightarrow> ct_input \<Rightarrow> bool" where
  "same_wan ip (Callback env (IPA_HANDLE_WAN_UP d)) = (up_ipv4_addr d = ip)"
| "same_wan ip (NeighAdd env d) = False"
| "same_wan ip (WlanPowerUp a) = False"
| "same_wan ip _ = True"

lemma stuck_call: "stuck ip log (Some s) \<Longrightarrow> quiet_event e \<Longrightarrow> stuck ip log (nat_call drv e s)"
  by (auto simp: stuck_def nat_call_def idle_step split: option.splits)

lemma stuck_calls:
  assumes "stuck ip log (Some s)" and "list_all quiet_event es"
  shows "stuck ip log (nat_calls drv es s)"
proof -
  let ?f = "\<lambda>e r. case r of None \<Rightarrow> None | Some s' \<Rightarrow> nat_call drv e s'"
  have "stuck ip log (fold ?f es r)" if "stuck ip log r" "list_all quiet_event es" for r
    using that
  proof (induction es arbitrary: r)
    case (Cons e es)
    then have "stuck ip log (?f e r)" by (cases r) (simp_all add: stuck_call)
    with Cons show ?case by simp
  qed simp
  with assms show ?thesis by (simp add: nat_calls_def)
qed

lemma stuck_none: "stuck ip log None"
  by (simp add: stuck_def)

lemma stuck_addr:
  "stuck ip log (Some s) \<Longrightarrow> stuck ip log (Some (s\<lparr>nonnat_iface_ipv4_addr := xs\<rparr>))"
  "stuck ip log (Some s) \<Longrightarrow> stuck ip log (Some (s\<lparr>sta_clnt_ipv4_addr := xs, StaClntCnt := k\<rparr>))"
  by (simp_all add: stuck_def)

lemma stuck_nonnat:
  assumes "stuck ip log (Some s)"
  shows "stuck ip log (HandleNonNatIPAddr drv env d AddOp s)"
proof (cases "CheckNatIface env d")
  case None
  with assms show ?thesis
    by (simp add: HandleNonNatIPAddr_def Let_def stuck_none stuck_calls [OF stuck_addr(1) [OF assms]])
next
  case (Some r)
  with assms show ?thesis
    by (cases r) (simp add: HandleNonNatIPAddr_def Let_def stuck_calls [OF stuck_addr(1) [OF assms]])
qed

lemma stuck_neigh_del: "stuck ip log (Some s) \<Longrightarrow> stuck ip log (HandleNeighIpAddrDelEvt drv a s)"
proof -
  have "stuck ip log (neigh_del_slot drv a i r)" if "stuck ip log r" for i r
  proof (cases r)
    case (Some s')
    with that have "stuck ip log (Some (s'\<lparr>nat_iface_ipv4_addr := xs\<rparr>))" for xs
      by (simp add: stuck_def)
    with Some that show ?thesis by (auto simp: neigh_del_slot_def intro!: stuck_calls)
  qed (simp add: neigh_del_slot_def stuck_none)
  then show "stuck ip log (Some s) \<Longrightarrow> ?thesis"
    by (auto simp: HandleNeighIpAddrDelEvt_def intro!: fold_inv [where P = "stuck ip log"])
qed

lemma stuck_sta:
  assumes "stuck ip log (Some s)"
  shows "stuck ip log (HandleSTAClientAddEvt drv a s)" "stuck ip log (HandleSTAClientDelEvt drv a s)"
  using assms
  by (simp_all add: HandleSTAClientAddEvt_def HandleSTAClientDelEvt_def Let_def
      stuck_calls stuck_calls [OF stuck_addr(2) [OF assms]])

lemma stuck_message:
  assumes "stuck ip log (Some s)"
  shows "stuck ip log (ProcessCTMessage drv env ct type s)"
proof -
  have "quiet_event (add_event s r tmp)" for r tmp by (simp add: add_event_def)
  with assms have "stuck ip log (AddORDeleteNatEntry drv ct type r tmp s)" for r tmp
    by (simp add: AddORDeleteNatEntry_def stuck_calls)
  with assms show ?thesis
    by (auto simp: ProcessCTMessage_def ProcessTCPorUDPMsg_def split: option.splits prod.splits)
qed

lemma stuck_down:
  assumes "stuck ip log (Some s)"
  shows "TriggerWANDown drv a s = s"
proof -
  obtain n where n: "nat_inst s = Some n" "idle log n" using assms by (auto simp: stuck_def split: option.splits)
  then have "s\<lparr>nat_inst := Some n\<rparr> = s" by simp
  with n show ?thesis by (simp add: TriggerWANDown_def DeleteTable_def idle_def)
qed

lemma stuck_threads: "stuck ip log (Some s) \<Longrightarrow> stuck ip log (Some (CreateConnTrackThreads env s))"
  by (simp add: stuck_def CreateConnTrackThreads_def)

lemma stuck_step:
  assumes "stuck ip log r" and "same_wan ip i"
  shows "stuck ip log (ct_step drv i r)"
proof (cases r)
  case (Some s)
  with assms have s: "stuck ip log (Some s)" by simp
  have up: "TriggerWANUp drv env d s' = s'" if "stuck ip log (Some s')" "up_ipv4_addr d = ip" for env d s'
    using that by (simp add: TriggerWANUp_def stuck_def)
  show ?thesis
  proof (cases i)
    case (Callback env e)
    show ?thesis
    proof (cases e)
      case (IPA_HANDLE_WAN_UP d)
      with Callback Some assms(2) s up [OF stuck_threads [OF s]] show ?thesis
        by (simp add: ct_step_def stuck_threads)
    next
      case (IPA_PROCESS_CT_MESSAGE ct type)
      with Callback Some s show ?thesis by (simp add: ct_step_def stuck_message)
    next
      case (IPA_HANDLE_WAN_DOWN d)
      with Callback Some s show ?thesis by (simp add: ct_step_def stuck_down [OF s])
    next
      case (IPA_HANDLE_LAN_UP d)
      with Callback Some s show ?thesis by (simp add: ct_step_def stuck_threads)
    qed (use Callback Some s in \<open>simp_all add: ct_step_def stuck_nonnat\<close>)
  qed (use Some s assms(2) in \<open>simp_all add: ct_step_def stuck_neigh_del stuck_sta stuck_threads stuck_call\<close>)
qed (simp add: ct_step_def stuck_none)

interpretation ct_stuck: event_machine "ct_step drv" "stuck ip log" "same_wan ip" for drv ip log
  by unfold_locales (rule stuck_step)

text \<open>A listener with a NAT application never stops at a NULL pointer or outside an array.\<close>

interpretation ct_total: nat_client drv "\<lambda>n. True" for drv
  by unfold_locales simp

interpretation ct_runs: event_machine "ct_step drv" "nat_good (\<lambda>n. True)" input_ok for drv
  by unfold_locales (rule ct_total.step_good)

lemma wan_up_failed:
  assumes "nat_inst s = Some n" and "\<not> WanUp s" and "up_ipv4_addr d \<noteq> 0"
    and "add_tbl drv (driver_log n) (up_ipv4_addr d) (of_nat (length (cache n))) = (ret, None)" and "ret \<noteq> 0"
    and "idle log n"
  shows "stuck (up_ipv4_addr d) (log @ [AddTbl (up_ipv4_addr d) (of_nat (length (cache n))) ret None])
    (Some (TriggerWANUp drv env d s))"
  using assms by (simp add: TriggerWANUp_def Let_def AddTable_def CreateNatThreads_def stuck_def idle_def written_def)

section \<open>Properties\<close>

lemma Init_sound:
  assumes "Init max_entries alg a1 a2 (new_NatApp pre tcp udp pwr tou) = Some n"
  shows "nat_sound drv n"
proof -
  have "cache n = replicate max_entries zero_entry" "driver_log n = []"
    using assms by (auto simp: Init_def new_NatApp_def split: if_splits)
  then have "hw_sync n" by (auto intro: hw_sync_empty simp: list_ex_iff hardware_def)
  with Init_ok [OF assms] show ?thesis by (simp add: nat_sound_def)
qed

lemma new_listener_lists: "lists_ok (new_listener i sta wan)"
  by (simp add: lists_ok_def new_listener_def count_if_def)

text \<open>
  An environment for examples: one NAT interface, the second network interface, the private subnet
  10.0.0.0/8, and threads that can be made. A client with address 10.0.0.5 talks to 20.0.0.9.
\<close>

definition example_ct_env :: ct_env where
  "example_ct_env =
     \<lparr>nat_ifaces = mk_config 3 [zero_iface\<lparr>iface_name := ''wlan0'', v4_up := True\<rparr>],
      private_subnets = [(0x0A000000, 0xFF000000)], ip_passthrough = False, getWANIP = 0,
      ifname = (\<lambda>i. if i = 1 then Some ''usb0'' else if i = 2 then Some ''wlan0'' else None),
      tcp_thread = True, udp_thread = True, timeout_thread = True\<rparr>"

definition example_ct :: nf_conntrack where
  "example_ct =
     \<lparr>ATTR_STATUS = 0x10, ATTR_ORIG_L4PROTO = 17, ATTR_REPL_L4PROTO = 17,
      ATTR_ORIG_IPV4_SRC = htonl 0x0A000005, ATTR_ORIG_IPV4_DST = htonl 0x14000009,
      ATTR_ORIG_PORT_SRC = htons 1000, ATTR_ORIG_PORT_DST = htons 53, ATTR_REPL_IPV4_SRC = htonl 0x14000009,
      ATTR_REPL_PORT_SRC = htons 53, ATTR_REPL_PORT_DST = htons 5000, ATTR_TCP_STATE = 0\<rparr>"

definition example_wan :: event_iface_up where
  "example_wan = \<lparr>up_ifname = ''rmnet0'', up_ipv4_addr = 7, up_is_sta = False\<rparr>"

definition example_client :: "int \<Rightarrow> event_data_all" where
  "example_client i = \<lparr>iptype = IPA_IP_v4, if_index = i, ipv4_addr = 0x0A000005\<rparr>"

definition example_app :: NatApp where
  "example_app = the (Init 2 [(6, 21)] True True (new_NatApp 0 0 0 (replicate 32 0) None))"

lemma example_app_Init: "Init 2 [(6, 21)] True True (new_NatApp 0 0 0 (replicate 32 0) None) = Some example_app"
  by (simp add: example_app_def Init_def)

lemma example_ct_env_ok: "env_ok example_ct_env"
  by (simp add: env_ok_def example_ct_env_def mk_config_def)

lemma example_entry:
  "\<not> isStaMode s \<Longrightarrow> wan_ipaddr s = 7 \<Longrightarrow> list_all (\<lambda>a. a = 0) (nat_iface_ipv4_addr s) \<Longrightarrow>
   list_all (\<lambda>a. a = 0) (nonnat_iface_ipv4_addr s) \<Longrightarrow>
   nat_entry_of example_ct_env s example_ct =
     Some (zero_entry\<lparr>private_ip := 0x0A000005, private_port := 1000, target_ip := 0x14000009, target_port := 53,
       public_ip := 7, public_port := 5000, protocol := 17\<rparr>, True)"
  by (auto simp: nat_entry_of_def nat_status_def example_ct_def PopulateTCPorUDPEntry_def AddIface_def Let_def
      example_ct_env_def isPrivateSubnet_def CheckSTAClient_def zero_entry_def list_all_iff list_ex_iff)



text \<open>
  C15: A TCP or UDP connection that is opened and then closed leaves the cache as the same
  connections as before without its own, and it does not wait either, whether the WAN is up or
  not, whether its client is known or not, and whether the driver took the rule or not.
\<close>

theorem ct_connection_roundtrip:
  assumes "nat_inst s = Some n" and "cache_ok n" and "nat_entry_of env s ct = Some (rule, tmp)"
    and "\<not> list_ex (\<lambda>t. same_tuple t rule) (temp n)"
    and "opens ct type" and "closes (ct\<lparr>ATTR_TCP_STATE := state\<rparr>) type'"
    and "ATTR_ORIG_L4PROTO ct = ATTR_REPL_L4PROTO ct"
  shows "\<exists>s1 n2. ProcessCTMessage drv env ct type s = Some s1 \<and>
    ProcessCTMessage drv env (ct\<lparr>ATTR_TCP_STATE := state\<rparr>) type' s1 = Some (s\<lparr>nat_inst := Some n2\<rparr>) \<and>
    connections n2 = (connections n)(tuple_of rule := None) \<and> \<not> list_ex (\<lambda>t. same_tuple t rule) (temp n2)"
proof -
  let ?n1 = "nat_step drv (add_event s rule tmp) n" let ?s1 = "s\<lparr>nat_inst := Some ?n1\<rparr>"
  let ?n2 = "DeleteTempEntry rule (snd (DeleteEntry drv rule ?n1))"
  have real: "\<not> free_slot rule"
    using assms(5) entry_protocol [OF assms(3)] by (auto simp: free_slot_def opens_def split: if_splits)
  have "ProcessCTMessage drv env (ct\<lparr>ATTR_TCP_STATE := state\<rparr>) type' ?s1 = Some (?s1\<lparr>nat_inst := Some ?n2\<rparr>)"
    by (rule closing_message [where tmp = tmp]) (use assms in simp_all)
  moreover have "connections ?n2 = (connections n)(tuple_of rule := None)"
    using DeleteEntry_connections [OF add_event_ok [OF assms(2)] real] add_event_effect [OF assms(2,4)] by simp
  moreover have "\<not> list_ex (\<lambda>t. same_tuple t rule) (temp ?n2)"
    by (rule DeleteTempEntry_gone) (use add_event_effect [OF assms(2,4)] real in simp_all)
  ultimately show ?thesis using opening_message [OF assms(1,3,5,7)] by auto
qed

theorem ct_connection_roundtrip_witness:
  "\<exists>s1 n2. ProcessCTMessage counting_driver example_ct_env example_ct NFCT_T_NEW
      (new_listener (Some example_app) False 7) = Some s1 \<and>
    ProcessCTMessage counting_driver example_ct_env (example_ct\<lparr>ATTR_TCP_STATE := 0\<rparr>) NFCT_T_DESTROY s1 =
      Some (new_listener (Some n2) False 7) \<and> connections n2 = Map.empty"
proof -
  let ?s = "new_listener (Some example_app) False 7"
  have entry: "nat_entry_of example_ct_env ?s example_ct =
      Some (zero_entry\<lparr>private_ip := 0x0A000005, private_port := 1000, target_ip := 0x14000009, target_port := 53,
       public_ip := 7, public_port := 5000, protocol := 17\<rparr>, True)" (is "_ = Some (?r, _)")
    by (rule example_entry) (simp_all add: new_listener_def list_all_iff)
  have app: "temp example_app = replicate 25 zero_entry" "cache example_app = replicate 2 zero_entry"
    by (simp_all add: example_app_def Init_def new_NatApp_def)
  have "\<not> same_tuple zero_entry ?r" by (simp add: same_tuple_def zero_entry_def)
  then have "\<not> list_ex (\<lambda>t. same_tuple t ?r) (temp example_app)" by (auto simp: app list_ex_iff)
  from ct_connection_roundtrip [OF _ Init_ok [OF example_app_Init] entry this, of NFCT_T_NEW 0 NFCT_T_DESTROY counting_driver]
  obtain s1 n2 where r: "ProcessCTMessage counting_driver example_ct_env example_ct NFCT_T_NEW ?s = Some s1"
    "ProcessCTMessage counting_driver example_ct_env (example_ct\<lparr>ATTR_TCP_STATE := 0\<rparr>) NFCT_T_DESTROY s1 =
       Some (?s\<lparr>nat_inst := Some n2\<rparr>)" "connections n2 = (connections example_app)(tuple_of ?r := None)"
    by (auto simp: opens_def closes_def example_ct_def new_listener_def)
  moreover have "connections example_app = Map.empty" by (auto simp: connections_def app find_None)
  ultimately show ?thesis by (auto simp: new_listener_def)
qed

text \<open>
  A connection whose client is not known yet waits, and when the client comes to a NAT
  interface the connection is in the cache, unless the cache is full; this with a table, a driver
  that takes every rule, room in both lists and ports that are not left to a gateway.
\<close>

theorem ct_waiting_delivered:
  assumes "nat_inst s = Some n" and "cache_ok n" and "nat_table_hdl n \<noteq> 0" and "takes_all drv"
    and "WanUp s" and "pub_ip_addr n = wan_ipaddr s"
    and "nat_entry_of env s ct = Some (rule, True)" and "opens ct type" and "ATTR_ORIG_L4PROTO ct = ATTR_REPL_L4PROTO ct"
    and "\<not> invalid_rule rule" and "connections n (tuple_of rule) = None" and "\<not> list_ex (\<lambda>t. same_tuple t rule) (temp n)"
    and "list_ex (\<lambda>t. private_ip t = 0 \<and> target_ip t = 0) (temp n)"
    and "\<not> isAlgPort (protocol rule) (private_port rule) n" and "\<not> isAlgPort (protocol rule) (target_port rule) n"
    and "CheckNatIface env' d = Some (True, True)" and "0 \<in> set (nat_iface_ipv4_addr s)"
    and "private_ip rule = ipv4_addr d \<or> target_ip rule = ipv4_addr d"
  shows "\<exists>s1 s2 n2. ProcessCTMessage drv env ct type s = Some s1 \<and> connections (the (nat_inst s1)) = connections n \<and>
    HandleNeighIpAddrAddEvt drv env' d s1 = Some s2 \<and> ipv4_addr d \<in> set (nat_iface_ipv4_addr s2) \<and>
    nat_inst s2 = Some n2 \<and> (connections n2 (tuple_of rule) \<noteq> None \<or> \<not> list_ex free_slot (cache n2))"
proof -
  have new: "\<not> ChkForDup rule n" using dup_connections [OF assms(2,10)] assms(11) by simp
  obtain j where j: "j < length (temp n)" "AddTempEntry rule n = n\<lparr>temp := (temp n)[j := rule]\<rparr>"
    using AddTempEntry_waits [OF assms(14,15) new assms(12,13)] by blast
  let ?n1 = "AddTempEntry rule n" let ?s1 = "s\<lparr>nat_inst := Some ?n1\<rparr>"
  have msg: "ProcessCTMessage drv env ct type s = Some ?s1"
    using opening_message [OF assms(1,7,8,9)] assms(5) by (simp add: add_event_def)
  let ?m = "snd (ResetPwrSaveIf drv (ipv4_addr d) ?n1)"
  let ?n2 = "FlushTempEntries drv (ipv4_addr d) True False ?m"
  have frame: "temp ?m = (temp n)[j := rule]" "pub_ip_addr ?m = pub_ip_addr n" "nat_table_hdl ?m = nat_table_hdl n"
    "pALGPorts ?m = pALGPorts n"
    using ResetPwrSaveIf_frame [of drv "ipv4_addr d" ?n1] j(2) by simp_all
  have "cache_ok ?m" using nat_step_ok [of ?n1 "EvResetPwrSaveIf (ipv4_addr d)"] assms(2) j(2) by simp
  then have "known_or_full rule ?n2"
    by (rule flush_settles [where j = j])
      (use assms j(1) frame entry_public [OF assms(7)] in \<open>auto simp: isAlgPort_def\<close>)
  moreover have "\<exists>s2. HandleNeighIpAddrAddEvt drv env' d ?s1 = Some s2 \<and> ipv4_addr d \<in> set (nat_iface_ipv4_addr s2) \<and> nat_inst s2 = Some ?n2"
  proof -
    let ?k = "first_index (\<lambda>a. a = ipv4_addr d \<or> a = 0) (nat_iface_ipv4_addr s)"
    have k: "?k < length (nat_iface_ipv4_addr s)" using assms(17) by (auto simp: first_index_less)
    then have "nat_iface_ipv4_addr s ! ?k = ipv4_addr d \<Longrightarrow> ipv4_addr d \<in> set (nat_iface_ipv4_addr s)"
      "ipv4_addr d \<in> set ((nat_iface_ipv4_addr s)[?k := ipv4_addr d])" by (metis nth_mem, simp add: set_update_memI)
    with k show ?thesis
      by (auto simp: HandleNeighIpAddrAddEvt_def assms(16) Let_def nat_calls_Some)
  qed
  ultimately show ?thesis using msg j(2) by (auto simp: known_or_full_def)
qed

theorem ct_waiting_delivered_witness:
  "let s = (new_listener (Some (example_app\<lparr>nat_table_hdl := 1, pub_ip_addr := 7\<rparr>)) False 7)\<lparr>WanUp := True\<rparr>;
       drv = counting_driver\<lparr>add_rule := \<lambda>log t r. (0, Some (of_nat (length log)))\<rparr>
   in \<exists>s1 s2 n2. ProcessCTMessage drv example_ct_env example_ct NFCT_T_NEW s = Some s1 \<and>
     HandleNeighIpAddrAddEvt drv example_ct_env (example_client 2) s1 = Some s2 \<and> nat_inst s2 = Some n2 \<and>
     (connections n2 (0x0A000005, 0x14000009, 1000, 53, 17) \<noteq> None \<or> \<not> list_ex free_slot (cache n2))"
proof -
  let ?n = "example_app\<lparr>nat_table_hdl := 1, pub_ip_addr := 7\<rparr>"
  let ?s = "(new_listener (Some ?n) False 7)\<lparr>WanUp := True\<rparr>"
  let ?drv = "counting_driver\<lparr>add_rule := \<lambda>log t r. (0, Some (of_nat (length log)))\<rparr>"
  have entry: "nat_entry_of example_ct_env ?s example_ct =
      Some (zero_entry\<lparr>private_ip := 0x0A000005, private_port := 1000, target_ip := 0x14000009, target_port := 53,
       public_ip := 7, public_port := 5000, protocol := 17\<rparr>, True)" (is "_ = Some (?r, _)")
    by (rule example_entry) (simp_all add: new_listener_def list_all_iff)
  have t: "tuple_of ?r = (0x0A000005, 0x14000009, 1000, 53, 17)" by (simp add: tuple_of_def)
  have app: "temp example_app = replicate 25 zero_entry" "cache example_app = replicate 2 zero_entry"
    "pALGPorts example_app = [(6, 21)]"
    by (simp_all add: example_app_def Init_def new_NatApp_def)
  have "\<not> same_tuple zero_entry ?r" by (simp add: same_tuple_def zero_entry_def)
  then have none: "\<not> list_ex (\<lambda>t. same_tuple t ?r) (temp ?n)" by (auto simp: app list_ex_iff)
  have room: "list_ex (\<lambda>t. private_ip t = 0 \<and> target_ip t = 0) (temp ?n)"
    by (simp add: app list_ex_iff zero_entry_def)
  have ok: "cache_ok ?n" using Init_ok [OF example_app_Init] by (simp add: cache_ok_def)
  have new: "connections ?n (tuple_of ?r) = None" by (auto simp: connections_def app find_None)
  have iface: "CheckNatIface example_ct_env (example_client 2) = Some (True, True)"
    by (simp add: CheckNatIface_def GetNatIfaces_def example_ct_env_def mk_config_def example_client_def)
  have alg: "\<not> isAlgPort (protocol ?r) (private_port ?r) ?n" "\<not> isAlgPort (protocol ?r) (target_port ?r) ?n"
    by (simp_all add: isAlgPort_def app)
  have "\<exists>s1 s2 n2. ProcessCTMessage ?drv example_ct_env example_ct NFCT_T_NEW ?s = Some s1 \<and>
      connections (the (nat_inst s1)) = connections ?n \<and>
      HandleNeighIpAddrAddEvt ?drv example_ct_env (example_client 2) s1 = Some s2 \<and>
      ipv4_addr (example_client 2) \<in> set (nat_iface_ipv4_addr s2) \<and> nat_inst s2 = Some n2 \<and>
      (connections n2 (tuple_of ?r) \<noteq> None \<or> \<not> list_ex free_slot (cache n2))"
    by (rule ct_waiting_delivered [OF _ ok _ _ _ _ entry _ _ _ new none room alg iface])
      (simp_all add: new_listener_def takes_all_def opens_def example_ct_def example_client_def invalid_rule_def)
  then show ?thesis unfolding Let_def t by blast
qed

text \<open>
  When the WAN comes up and the driver refuses the table, the listener nevertheless believes
  the WAN is up. From then on no event and no call makes another call to the driver, and nothing is
  in the hardware table, until the WAN comes up with another address or a client arrives or wakes up:
  also the WAN going down and up again does not repair it.
\<close>

theorem ct_failed_table_stuck:
  assumes "nat_inst s = Some n" and "lists_ok s" and "idle (driver_log n) n" and "\<not> WanUp s" and "up_ipv4_addr d \<noteq> 0"
    and "add_tbl drv (driver_log n) (up_ipv4_addr d) (of_nat (length (cache n))) = (ret, None)" and "ret \<noteq> 0"
    and "list_all input_ok is" and "list_all (same_wan (up_ipv4_addr d)) is"
  shows "\<exists>s' n'. fold (ct_step drv) is (Some (TriggerWANUp drv env d s)) = Some s' \<and> WanUp s' \<and>
    wan_ipaddr s' = up_ipv4_addr d \<and> nat_inst s' = Some n' \<and> nat_table_hdl n' = 0 \<and> \<not> list_ex enabled (cache n') \<and>
    driver_log n' = driver_log n @ [AddTbl (up_ipv4_addr d) (of_nat (length (cache n))) ret None]"
proof -
  let ?s = "TriggerWANUp drv env d s"
  have "nat_good (\<lambda>n. True) (Some ?s)"
    by (rule ct_total.wan_up_good) (use assms(1,2) in \<open>simp add: nat_good_def\<close>)
  from ct_runs.run_inv [OF this assms(8), of drv]
  obtain s' where s': "fold (ct_step drv) is (Some ?s) = Some s'" by (auto simp: nat_good_def split: option.splits)
  have "stuck (up_ipv4_addr d) (driver_log n @ [AddTbl (up_ipv4_addr d) (of_nat (length (cache n))) ret None]) (Some s')"
    using ct_stuck.run_inv [OF wan_up_failed [OF assms(1,4,5,6,7,3)] assms(9)] s' by metis
  with s' show ?thesis by (auto simp: stuck_def idle_def list_ex_iff list_all_iff split: option.splits)
qed

theorem ct_failed_table_stuck_witness:
  "let drv = counting_driver\<lparr>add_tbl := \<lambda>log ip k. (-1, None)\<rparr>
   in \<exists>s' n'. fold (ct_step drv)
      [Callback example_ct_env (IPA_PROCESS_CT_MESSAGE example_ct NFCT_T_NEW), Callback example_ct_env (IPA_HANDLE_WAN_DOWN example_wan),
       Callback example_ct_env (IPA_HANDLE_WAN_UP example_wan), TimeoutThread]
      (Some (TriggerWANUp drv example_ct_env example_wan (new_listener (Some example_app) False 0))) = Some s' \<and>
    WanUp s' \<and> nat_inst s' = Some n' \<and> nat_table_hdl n' = 0 \<and> driver_log n' = [AddTbl 7 2 (-1) None]"
proof -
  let ?drv = "counting_driver\<lparr>add_tbl := \<lambda>log ip k. (-1, None)\<rparr>"
  have app: "nat_table_hdl example_app = 0" "cache example_app = replicate 2 zero_entry" "driver_log example_app = []"
    by (simp_all add: example_app_def Init_def new_NatApp_def)
  have idle: "idle (driver_log example_app) example_app" by (simp add: idle_def app list_all_iff)
  have ip: "up_ipv4_addr example_wan = 7" by (simp add: example_wan_def)
  let ?is = "[Callback example_ct_env (IPA_PROCESS_CT_MESSAGE example_ct NFCT_T_NEW), Callback example_ct_env (IPA_HANDLE_WAN_DOWN example_wan),
       Callback example_ct_env (IPA_HANDLE_WAN_UP example_wan), TimeoutThread]"
  have "\<exists>s' n'. fold (ct_step ?drv) ?is
      (Some (TriggerWANUp ?drv example_ct_env example_wan (new_listener (Some example_app) False 0))) = Some s' \<and> WanUp s' \<and>
    wan_ipaddr s' = up_ipv4_addr example_wan \<and> nat_inst s' = Some n' \<and> nat_table_hdl n' = 0 \<and> \<not> list_ex enabled (cache n') \<and>
    driver_log n' = driver_log example_app @ [AddTbl (up_ipv4_addr example_wan) (of_nat (length (cache example_app))) (-1) None]"
    by (rule ct_failed_table_stuck [OF _ new_listener_lists idle])
      (simp_all add: new_listener_def ip example_ct_env_ok)
  then show ?thesis unfolding Let_def by (auto simp: ip app)
qed

text \<open>
  A client without NAT that leaves before its connection is closed leaves the dummy rule of
  the connection behind: it has the address of the WAN, so neither the departure of the client nor
  the last message of the connection finds it, and it stays in the hardware table.
\<close>

theorem ct_dummy_rule_left:
  "let run = fold (ct_step counting_driver);
       r = run [Callback example_ct_env (IPA_HANDLE_WAN_UP example_wan),
                Callback example_ct_env (IPA_NEIGH_CLIENT_IP_ADDR_ADD_EVENT (example_client 1)),
                Callback example_ct_env (IPA_PROCESS_CT_MESSAGE example_ct NFCT_T_NEW),
                Callback example_ct_env (IPA_NEIGH_CLIENT_IP_ADDR_DEL_EVENT (example_client 1)),
                Callback example_ct_env (IPA_PROCESS_CT_MESSAGE example_ct NFCT_T_DESTROY)]
             (Some (new_listener (Some example_app) False 0))
   in case r of None \<Rightarrow> False
      | Some s \<Rightarrow> list_all (\<lambda>a. a = 0) (nonnat_iface_ipv4_addr s) \<and>
          (case nat_inst s of None \<Rightarrow> False
           | Some n \<Rightarrow> list_ex (\<lambda>e. enabled e \<and> private_ip e = wan_ipaddr s \<and>
               snd (hardware (driver_log n)) (rule_hdl e) = Some (nat_rule_of e)) (cache n))"
  by code_simp

text \<open>
  The list of station clients has holes after a deletion, but only as many entries as there are clients
  are compared: the connection of a client behind a hole has to wait.
\<close>

lemma ct_sta_hole:
  assumes "isStaMode s" and "sta_clnt_ipv4_addr s = [a, 0, c] @ rest" and "StaClntCnt s = 2"
    and "target_ip r = c" and "c \<noteq> a" and "c \<noteq> 0" and "a AND 0xFFFFFF00 = c AND 0xFFFFFF00"
  shows "CheckSTAClient s r False"
  using assms by (auto simp: CheckSTAClient_def numeral_2_eq_2)

text \<open>While no interface has NAT rules, a client without NAT is not remembered.\<close>

lemma ct_no_nat_iface:
  assumes "ipa_nat_iface_entries (nat_ifaces env) = 0"
  shows "HandleNonNatIPAddr drv env d True s = Some s"
  using assms by (simp add: HandleNonNatIPAddr_def CheckNatIface_def GetNatIfaces_def)

end
