(* ===== verification/Neighbor.thy ===== *)
theory Neighbor
  imports CtFlow
begin

text \<open>
  The neighbour cache (\<open>IPACM_Neighbor.cpp\<close>): it remembers for each client, by MAC address, the
  interface it is on and its IPv4 address, and turns the neighbour messages of the kernel into events
  with the addresses of clients, which the connection tracking listener and the interfaces handle.
  With it the search for the index of an interface (\<open>IPACM_Iface::iface_ipa_index_query\<close>).

  The model is the build of \<open>Android.mk\<close>, without \<open>FEATURE_L2TP\<close>. What the kernel calls the
  interface with an index, whether \<open>malloc\<close> succeeds and what it returns is in the environment. Names
  are strings of at most fifteen characters, in arrays of sixteen bytes everywhere. \<open>IPA_IP_v6\<close> stands
  for every type of address that is not \<open>IPA_IP_v4\<close>.
\<close>

section \<open>Data\<close>

record ipa_neighbor_client =
  mac_addr :: "u8 list"
  iface_index :: int
  v4_addr :: u32
  ipa_if_num :: int
  client_iface :: string

text \<open>An entry of the table of interfaces in the configuration, as far as it is used here.\<close>

record ipa_ifi_dev =
  dev_name :: string
  netlink_interface_index :: int

record IPACM_Neighbor =
  num_neighbor_client :: nat
  circular_index :: nat
  neighbor_client :: "ipa_neighbor_client list"
  iface_table :: "ipa_ifi_dev list"

text \<open>The event data with the fields the connection tracking listener does not read.\<close>

record neigh_data = event_data_all +
  ipv6_addr :: "u32 list"
  data_mac :: "u8 list"
  data_iface :: string

record nb_env =
  kernel_name :: "int \<Rightarrow> string option"
  ipa_virtual_iface_name :: string
  malloc_ok :: bool
  malloc_junk :: "u32 list"

text \<open>Messages of the kernel and the WLAN driver; the events that are posted, with their data.\<close>

datatype wlan_attrib = WLAN_HDR_ATTRIB_MAC_ADDR "u8 list" | WLAN_HDR_ATTRIB_OTHER

datatype neigh_event =
    IPA_WLAN_CLIENT_ADD_EVENT_EX int "wlan_attrib list"
  | IPA_NEW_NEIGH_EVENT neigh_data
  | IPA_DEL_NEIGH_EVENT neigh_data

datatype neigh_post = ADDR_ADD neigh_data | ADDR_DEL neigh_data

definition zero_client :: ipa_neighbor_client where
  "zero_client = \<lparr>mac_addr = replicate 6 0, iface_index = 0, v4_addr = 0, ipa_if_num = 0, client_iface = []\<rparr>"

definition new_neighbor :: "ipa_ifi_dev list \<Rightarrow> IPACM_Neighbor" where
  "new_neighbor t =
     \<lparr>num_neighbor_client = 0, circular_index = 0, neighbor_client = replicate 100 zero_client, iface_table = t\<rparr>"

section \<open>The index of an interface\<close>

definition iface_ipa_index_query :: "nb_env \<Rightarrow> int \<Rightarrow> ipa_ifi_dev list \<Rightarrow> int \<times> ipa_ifi_dev list" where
  "iface_ipa_index_query env interface_index t =
     (let i = first_index (\<lambda>e. netlink_interface_index e = interface_index) t
      in if i < length t then (int i, t)
         else case kernel_name env interface_index of
                None \<Rightarrow> (- 1, t)
              | Some name \<Rightarrow>
                  let j = first_index (\<lambda>e. dev_name e = name) t
                  in if j < length t then (int j, t[j := (t ! j)\<lparr>netlink_interface_index := interface_index\<rparr>])
                     else (- 1, t))"

definition query_index :: "nb_env \<Rightarrow> int \<Rightarrow> IPACM_Neighbor \<Rightarrow> int \<times> IPACM_Neighbor" where
  "query_index env interface_index n =
     (case iface_ipa_index_query env interface_index (iface_table n) of (i, t) \<Rightarrow> (i, n\<lparr>iface_table := t\<rparr>))"

section \<open>The cache\<close>

text \<open>The loops over the known clients: the position of the first with that address, or their number.\<close>

definition find_client :: "u8 list \<Rightarrow> IPACM_Neighbor \<Rightarrow> nat" where
  "find_client mac n = first_index (\<lambda>c. mac_addr c = mac) (take (num_neighbor_client n) (neighbor_client n))"

definition put_client :: "nat \<Rightarrow> ipa_neighbor_client \<Rightarrow> IPACM_Neighbor \<Rightarrow> IPACM_Neighbor" where
  "put_client i c n = n\<lparr>neighbor_client := (neighbor_client n)[i := c]\<rparr>"

text \<open>A client not found: a new entry, or the next one in turn is used again.\<close>

definition insert_client :: "ipa_neighbor_client \<Rightarrow> IPACM_Neighbor \<Rightarrow> IPACM_Neighbor" where
  "insert_client c n =
     (if num_neighbor_client n < 100
      then (put_client (num_neighbor_client n) c n)\<lparr>num_neighbor_client := num_neighbor_client n + 1\<rparr>
      else (put_client (circular_index n) (c\<lparr>v4_addr := 0\<rparr>) n)\<lparr>circular_index := (circular_index n + 1) mod 100\<rparr>)"

text \<open>The entry is cleared and those behind it move up one by one; the last stays behind the end.\<close>

definition remove_client :: "nat \<Rightarrow> IPACM_Neighbor \<Rightarrow> IPACM_Neighbor" where
  "remove_client i n =
     n\<lparr>neighbor_client :=
         fold (\<lambda>k cs. cs[k := cs ! (k + 1)]) [i..<num_neighbor_client n - 1] ((neighbor_client n)[i := zero_client]),
       num_neighbor_client := num_neighbor_client n - 1\<rparr>"

section \<open>Events\<close>

definition post :: "bool \<Rightarrow> neigh_data \<Rightarrow> neigh_post" where
  "post is_new d = (if is_new then ADDR_ADD d else ADDR_DEL d)"

definition data_of_client :: "ipa_neighbor_client \<Rightarrow> u32 list \<Rightarrow> neigh_data" where
  "data_of_client c v6 =
     \<lparr>iptype = IPA_IP_v4, if_index = iface_index c, ipv4_addr = v4_addr c, ipv6_addr = v6, data_mac = mac_addr c,
      data_iface = client_iface c\<rparr>"

definition client_of_data :: "neigh_data \<Rightarrow> int \<Rightarrow> u32 \<Rightarrow> ipa_neighbor_client" where
  "client_of_data d ipa ip =
     \<lparr>mac_addr = data_mac d, iface_index = if_index d, v4_addr = ip, ipa_if_num = ipa, client_iface = data_iface d\<rparr>"

definition wlan_client_add :: "nb_env \<Rightarrow> int \<Rightarrow> wlan_attrib list \<Rightarrow> IPACM_Neighbor \<Rightarrow> neigh_post list \<times> IPACM_Neighbor" where
  "wlan_client_add env idx attribs n0 =
     (let (ipa, n) = query_index env idx n0
      in if ipa = - 1 then ([], n)
         else
           let mac = fold (\<lambda>a m. case a of WLAN_HDR_ATTRIB_MAC_ADDR x \<Rightarrow> x | WLAN_HDR_ATTRIB_OTHER \<Rightarrow> m) attribs (replicate 6 0);
               i = find_client mac n
           in if i < num_neighbor_client n \<and> ipa_virtual_iface_name env \<noteq> dev_name (iface_table n ! nat ipa) then
                let c = (neighbor_client n ! i)\<lparr>iface_index := idx\<rparr>; n1 = put_client i c n
                in if ipa \<noteq> ipa_if_num c then ([], n1)
                   else if v4_addr c \<noteq> 0 \<and> malloc_ok env
                   then ([ADDR_ADD (data_of_client c [0, 0, 0, 0])], snd (query_index env idx n1))
                   else ([], n1)
              else ([], n))"

text \<open>A neighbour message with an IPv4 address, on the bridge and on another interface.\<close>

definition bridge_v4 :: "nb_env \<Rightarrow> bool \<Rightarrow> neigh_data \<Rightarrow> IPACM_Neighbor \<Rightarrow> neigh_post list \<times> neigh_data \<times> IPACM_Neighbor" where
  "bridge_v4 env is_new d n =
     (let i = find_client (data_mac d) n
      in if i < num_neighbor_client n then
           let c = neighbor_client n ! i;
               d1 = d\<lparr>if_index := iface_index c, data_iface := client_iface c\<rparr>;
               n1 = put_client i (c\<lparr>v4_addr := ipv4_addr d\<rparr>) n
           in if malloc_ok env then ([post is_new d1], d1, snd (query_index env (if_index d1) n1)) else ([], d1, n1)
         else ([], d, n))"

definition port_v4 :: "nb_env \<Rightarrow> bool \<Rightarrow> int \<Rightarrow> neigh_data \<Rightarrow> IPACM_Neighbor \<Rightarrow> neigh_post list \<times> neigh_data \<times> IPACM_Neighbor" where
  "port_v4 env is_new ipa d n =
     (let i = find_client (data_mac d) n; known = i < num_neighbor_client n;
          n1 = (if is_new
                then if known then put_client i (client_of_data d ipa (ipv4_addr d)) n
                     else insert_client (client_of_data d ipa (ipv4_addr d)) n
                else if known then remove_client i n else n)
      in (if malloc_ok env then [post is_new d] else [], d, n1))"

text \<open>With an IPv6 address.\<close>

definition bridge_v6 :: "nb_env \<Rightarrow> bool \<Rightarrow> neigh_data \<Rightarrow> IPACM_Neighbor \<Rightarrow> neigh_post list \<times> neigh_data \<times> IPACM_Neighbor" where
  "bridge_v6 env is_new d n =
     (let i = find_client (data_mac d) n
      in if i < num_neighbor_client n then
           let c = neighbor_client n ! i; d1 = d\<lparr>if_index := iface_index c, data_iface := client_iface c\<rparr>
           in if malloc_ok env then ([post is_new d1], d1, snd (query_index env (if_index d1) n)) else ([], d1, n)
         else ([], d, n))"

text \<open>Without an address, for a known client: its address is posted on a port; a deletion forgets it.\<close>

definition no_addr_known :: "nb_env \<Rightarrow> bool \<Rightarrow> neigh_data \<Rightarrow> nat \<Rightarrow> IPACM_Neighbor \<Rightarrow> neigh_post list \<times> neigh_data \<times> IPACM_Neighbor" where
  "no_addr_known env is_new d i n =
     (let on_bridge = (ipa_virtual_iface_name env = data_iface d);
          c = (if on_bridge \<or> if_index d = iface_index (neighbor_client n ! i) then neighbor_client n ! i
               else (neighbor_client n ! i)\<lparr>iface_index := if_index d, client_iface := data_iface d\<rparr>);
          n1 = put_client i c n; tell = (\<not> on_bridge \<and> v4_addr c \<noteq> 0)
      in if tell \<and> \<not> malloc_ok env then ([], d, n1)
         else (if tell then [post is_new (data_of_client c (malloc_junk env))] else [], d,
               if is_new then n1 else remove_client i n1))"

definition no_addr :: "nb_env \<Rightarrow> bool \<Rightarrow> int \<Rightarrow> neigh_data \<Rightarrow> IPACM_Neighbor \<Rightarrow> neigh_post list \<times> neigh_data \<times> IPACM_Neighbor" where
  "no_addr env is_new ipa d n =
     (let i = find_client (data_mac d) n
      in if i < num_neighbor_client n then no_addr_known env is_new d i n
         else if is_new \<and> ipa_virtual_iface_name env \<noteq> data_iface d then ([], d, insert_client (client_of_data d ipa 0) n)
         else ([], d, n))"

text \<open>The events, the data as the handler leaves it to the other listeners, and the cache.\<close>

definition neigh_message :: "nb_env \<Rightarrow> bool \<Rightarrow> neigh_data \<Rightarrow> IPACM_Neighbor \<Rightarrow> neigh_post list \<times> neigh_data \<times> IPACM_Neighbor" where
  "neigh_message env is_new d n0 =
     (let (ipa, n) = query_index env (if_index d) n0;
          on_bridge = (ipa_virtual_iface_name env = data_iface d)
      in if ipa = - 1 then ([], d, n)
         else if iptype d = IPA_IP_v4 then
           (if ipv4_addr d = 0 then ([], d, n)
            else if ipv4_addr d AND 0xFFFF0000 = 0xA9FE0000 then ([], d, n)
            else if on_bridge then bridge_v4 env is_new d n else port_v4 env is_new ipa d n)
         else if list_ex (\<lambda>w. w \<noteq> 0) (ipv6_addr d) then
           (if on_bridge then bridge_v6 env is_new d n
            else (if malloc_ok env then [post is_new d] else [], d, n))
         else no_addr env is_new ipa d n)"

fun neigh_event_callback :: "nb_env \<Rightarrow> neigh_event \<Rightarrow> IPACM_Neighbor \<Rightarrow> neigh_post list \<times> IPACM_Neighbor" where
  "neigh_event_callback env (IPA_WLAN_CLIENT_ADD_EVENT_EX idx attribs) n = wlan_client_add env idx attribs n"
| "neigh_event_callback env (IPA_NEW_NEIGH_EVENT d) n =
     (case neigh_message env True d n of (ps, d', n') \<Rightarrow> (ps, n'))"
| "neigh_event_callback env (IPA_DEL_NEIGH_EVENT d) n =
     (case neigh_message env False d n of (ps, d', n') \<Rightarrow> (ps, n'))"

section \<open>The cache as a map\<close>

type_synonym client_info = "int \<times> int \<times> u32 \<times> string"

definition info :: "ipa_neighbor_client \<Rightarrow> client_info" where
  "info c = (iface_index c, ipa_if_num c, v4_addr c, client_iface c)"

definition known :: "IPACM_Neighbor \<Rightarrow> ipa_neighbor_client list" where
  "known n = take (num_neighbor_client n) (neighbor_client n)"

definition clients :: "IPACM_Neighbor \<Rightarrow> u8 list \<rightharpoonup> client_info" where
  "clients n = map_of (map (\<lambda>c. (mac_addr c, info c)) (known n))"

definition nb_ok :: "IPACM_Neighbor \<Rightarrow> bool" where
  "nb_ok n \<longleftrightarrow>
     length (neighbor_client n) = 100 \<and> num_neighbor_client n \<le> 100 \<and> circular_index n < 100 \<and>
     distinct (map mac_addr (known n))"

lemma clients_iff:
  assumes "distinct (map mac_addr (known n))"
  shows "clients n mac = Some v \<longleftrightarrow> (\<exists>c \<in> set (known n). mac_addr c = mac \<and> info c = v)"
proof -
  have "distinct (map fst (map (\<lambda>c. (mac_addr c, info c)) (known n)))" using assms by (simp add: comp_def)
  then show ?thesis unfolding clients_def by (auto simp: map_of_eq_Some_iff)
qed

lemma clients_None: "clients n mac = None \<longleftrightarrow> mac \<notin> mac_addr ` set (known n)"
  by (auto simp: clients_def map_of_eq_None_iff image_iff)

lemma length_known [simp]: "nb_ok n \<Longrightarrow> length (known n) = num_neighbor_client n"
  by (simp add: nb_ok_def known_def)

lemma find_known:
  assumes "nb_ok n"
  shows "find_client mac n < num_neighbor_client n \<longleftrightarrow> clients n mac \<noteq> None"
  unfolding clients_None find_client_def using length_known [OF assms] first_index_less [of _ "known n"]
  by (auto simp: known_def image_iff)

lemma find_entry:
  assumes "nb_ok n" and "find_client mac n < num_neighbor_client n"
  shows "mac_addr (neighbor_client n ! find_client mac n) = mac"
    and "clients n mac = Some (info (neighbor_client n ! find_client mac n))"
    and "neighbor_client n ! find_client mac n = known n ! find_client mac n"
proof -
  let ?i = "find_client mac n"
  have k: "?i < length (known n)" using assms by simp
  show e: "neighbor_client n ! ?i = known n ! ?i" using assms(2) by (simp add: known_def)
  show m: "mac_addr (neighbor_client n ! ?i) = mac"
    using first_index_holds [of "\<lambda>c. mac_addr c = mac" "known n"] k e by (simp add: find_client_def known_def)
  have "distinct (map mac_addr (known n))" using assms(1) by (simp add: nb_ok_def)
  then show "clients n mac = Some (info (neighbor_client n ! ?i))"
    using clients_iff m e k nth_mem [OF k] by (metis (no_types, lifting))
qed

text \<open>Any two caches whose known clients differ in one entry.\<close>

lemma clients_replaced:
  assumes n: "nb_ok n" and m: "distinct (map mac_addr (known m))" and i: "i < length (known n)"
    and u: "known m = (known n)[i := c]"
  shows "clients m = ((clients n)(mac_addr (known n ! i) := None))(mac_addr c \<mapsto> info c)"
proof (rule map_eqI)
  fix k v
  have d: "distinct (map mac_addr (known n))" using n by (simp add: nb_ok_def)
  then have s: "set ((known n)[i := c]) = insert c (set (known n) - {known n ! i})"
    using i by (simp add: set_update_distinct distinct_map)
  have inj: "inj_on mac_addr (set (known n))" "inj_on mac_addr (set (known m))" using d m by (simp_all add: distinct_map)
  have "known n ! i \<in> set (known n)" using i by simp
  then show "clients m k = Some v \<longleftrightarrow>
      (((clients n)(mac_addr (known n ! i) := None))(mac_addr c \<mapsto> info c)) k = Some v"
    using inj unfolding clients_iff [OF m] u s
    by (auto simp: clients_iff [OF d] inj_on_def split: if_splits)
qed

lemma distinct_middle: "distinct (map f (a @ x # b)) \<Longrightarrow> c \<in> set (a @ b) \<Longrightarrow> f c \<noteq> f x"
  by (auto simp: image_iff)

lemma clients_shrunk:
  assumes n: "nb_ok n" and i: "i < length (known n)" and u: "known m = take i (known n) @ drop (i + 1) (known n)"
  shows "clients m = (clients n)(mac_addr (known n ! i) := None)" and "distinct (map mac_addr (known m))"
proof -
  have d: "distinct (map mac_addr (known n))" using n by (simp add: nb_ok_def)
  have split: "known n = take i (known n) @ known n ! i # drop (i + 1) (known n)"
    using i by (simp add: id_take_nth_drop)
  then have "distinct (map mac_addr (take i (known n) @ known n ! i # drop (i + 1) (known n)))" using d by metis
  then show m: "distinct (map mac_addr (known m))" unfolding u by auto
  have s: "set (known n) = insert (known n ! i) (set (known m))" unfolding u by (subst split) auto
  have new: "mac_addr c \<noteq> mac_addr (known n ! i)" if "c \<in> set (known m)" for c
    using distinct_middle [OF \<open>distinct (map mac_addr (take i (known n) @ known n ! i # drop (i + 1) (known n)))\<close>] that
    unfolding u by blast
  show "clients m = (clients n)(mac_addr (known n ! i) := None)"
    by (rule map_eqI) (use new in \<open>auto simp: clients_iff [OF d] clients_iff [OF m] s\<close>)
qed

lemma copy_back: "length a = m \<Longrightarrow> (a @ x # y # r)[m := (a @ x # y # r) ! Suc m] = a @ y # y # r"
  by (simp add: list_update_append nth_append)

lemma shift_left:
  "i \<le> m \<Longrightarrow> m < length cs \<Longrightarrow>
   fold (\<lambda>k cs. cs[k := cs ! (k + 1)]) [i..<m] cs = take i cs @ drop (i + 1) (take (m + 1) cs) @ drop m cs"
proof (induction m)
  case 0
  then show ?case by simp
next
  case (Suc m)
  show ?case
  proof (cases "i = Suc m")
    case True
    then show ?thesis using Suc.prems by simp
  next
    case False
    with Suc.prems have i: "i \<le> m" and m: "m < length cs" by simp_all
    let ?a = "take i cs @ drop (i + 1) (take (m + 1) cs)"
    have len: "length ?a = m" using i m by simp
    have e: "drop m cs = cs ! m # cs ! Suc m # drop (Suc (Suc m)) cs" using Suc.prems by (simp add: Cons_nth_drop_Suc)
    have "fold (\<lambda>k cs. cs[k := cs ! (k + 1)]) [i..<Suc m] cs = (?a @ drop m cs)[m := (?a @ drop m cs) ! Suc m]"
      using Suc.IH [OF i m] i by simp
    also have "\<dots> = ?a @ cs ! Suc m # cs ! Suc m # drop (Suc (Suc m)) cs"
      unfolding e by (rule copy_back [OF len])
    also have "\<dots> = take i cs @ drop (i + 1) (take (Suc m + 1) cs) @ drop (Suc m) cs"
    proof -
      have "drop (i + 1) (take (Suc m + 1) cs) = drop (i + 1) (take (m + 1) cs) @ [cs ! Suc m]"
        using take_Suc_conv_app_nth [of "Suc m" cs] Suc.prems i by simp
      then show ?thesis using Suc.prems by (simp add: Cons_nth_drop_Suc)
    qed
    finally show ?thesis .
  qed
qed

section \<open>What the operations do to the map\<close>

lemma table_frame [simp]:
  "known (n\<lparr>iface_table := t\<rparr>) = known n" "clients (n\<lparr>iface_table := t\<rparr>) = clients n"
  "nb_ok (n\<lparr>iface_table := t\<rparr>) = nb_ok n" "find_client mac (n\<lparr>iface_table := t\<rparr>) = find_client mac n"
  by (simp_all add: known_def clients_def nb_ok_def find_client_def)

lemma query_frame [simp]:
  "known (snd (query_index env i n)) = known n" "clients (snd (query_index env i n)) = clients n"
  "nb_ok (snd (query_index env i n)) = nb_ok n" "find_client mac (snd (query_index env i n)) = find_client mac n"
  "num_neighbor_client (snd (query_index env i n)) = num_neighbor_client n"
  "neighbor_client (snd (query_index env i n)) = neighbor_client n"
  by (simp_all add: query_index_def case_prod_unfold)

lemma known_put:
  "num_neighbor_client (put_client i c n) = num_neighbor_client n"
  "i < num_neighbor_client n \<Longrightarrow> known (put_client i c n) = (known n)[i := c]"
  by (simp_all add: put_client_def known_def take_update_swap)

lemma distinct_update:
  "distinct (map f xs) \<Longrightarrow> i < length xs \<Longrightarrow> f c = f (xs ! i) \<or> f c \<notin> f ` set xs \<Longrightarrow> distinct (map f (xs[i := c]))"
  by (auto simp: map_update distinct_list_update intro: distinct_list_update)

lemma put_known:
  assumes n: "nb_ok n" and i: "find_client (mac_addr c) n < num_neighbor_client n"
  shows "clients (put_client (find_client (mac_addr c) n) c n) = (clients n)(mac_addr c \<mapsto> info c)"
    and "nb_ok (put_client (find_client (mac_addr c) n) c n)"
proof -
  let ?i = "find_client (mac_addr c) n" let ?m = "put_client ?i c n"
  have same: "mac_addr (known n ! ?i) = mac_addr c" using find_entry(1,3) [OF n i] by simp
  have k: "?i < length (known n)" using i n by simp
  have u: "known ?m = (known n)[?i := c]" by (rule known_put(2) [OF i])
  have d: "distinct (map mac_addr (known ?m))" unfolding u
    by (rule distinct_update) (use n k same in \<open>simp_all add: nb_ok_def\<close>)
  show "clients ?m = (clients n)(mac_addr c \<mapsto> info c)"
    using clients_replaced [OF n d k u] same by simp
  show "nb_ok ?m" using n d by (simp add: nb_ok_def put_client_def)
qed

lemma insert_room:
  assumes n: "nb_ok n" and new: "clients n (mac_addr c) = None" and room: "num_neighbor_client n < 100"
  shows "clients (insert_client c n) = (clients n)(mac_addr c \<mapsto> info c)" and "nb_ok (insert_client c n)"
proof -
  have u: "known (insert_client c n) = known n @ [c]"
    using n room by (simp add: insert_client_def put_client_def known_def nb_ok_def take_Suc_conv_app_nth)
  have notin: "mac_addr c \<notin> mac_addr ` set (known n)" using new by (simp add: clients_None)
  have "find (\<lambda>x. False) [] = None" by simp
  show "clients (insert_client c n) = (clients n)(mac_addr c \<mapsto> info c)"
  proof (rule ext)
    fix k
    show "clients (insert_client c n) k = ((clients n)(mac_addr c \<mapsto> info c)) k"
      using new unfolding clients_def u by (auto simp: map_add_def split: option.splits)
  qed
  show "nb_ok (insert_client c n)" using n room notin u
    by (simp add: nb_ok_def) (simp add: insert_client_def put_client_def)
qed

lemma insert_full:
  assumes n: "nb_ok n" and new: "clients n (mac_addr c) = None" and full: "\<not> num_neighbor_client n < 100"
  shows "clients (insert_client c n) =
      ((clients n)(mac_addr (neighbor_client n ! circular_index n) := None))(mac_addr c \<mapsto> info (c\<lparr>v4_addr := 0\<rparr>))"
    and "nb_ok (insert_client c n)"
proof -
  let ?i = "circular_index n" let ?c = "c\<lparr>v4_addr := 0\<rparr>" let ?m = "insert_client c n"
  have all: "num_neighbor_client n = 100" "known n = neighbor_client n" "?i < length (known n)"
    using n full by (simp_all add: nb_ok_def known_def)
  have u: "known ?m = (known n)[?i := ?c]"
    using all n by (simp add: insert_client_def put_client_def known_def nb_ok_def)
  have notin: "mac_addr ?c \<notin> mac_addr ` set (known n)" using new by (simp add: clients_None)
  have d: "distinct (map mac_addr (known ?m))" unfolding u
    by (rule distinct_update) (use n all notin in \<open>simp_all add: nb_ok_def\<close>)
  show "clients ?m = ((clients n)(mac_addr (neighbor_client n ! ?i) := None))(mac_addr c \<mapsto> info ?c)"
    using clients_replaced [OF n d all(3) u] all(2) by simp
  show "nb_ok ?m" using n d all(1) full by (simp add: nb_ok_def) (simp add: insert_client_def put_client_def)
qed

lemma remove_known:
  assumes n: "nb_ok n" and i: "find_client mac n < num_neighbor_client n"
  shows "clients (remove_client (find_client mac n) n) = (clients n)(mac := None)"
    and "nb_ok (remove_client (find_client mac n) n)"
proof -
  let ?i = "find_client mac n" let ?m = "remove_client ?i n" let ?cs = "(neighbor_client n)[?i := zero_client]"
  have len: "num_neighbor_client n - 1 < length ?cs" "?i \<le> num_neighbor_client n - 1" "Suc (num_neighbor_client n - 1) = num_neighbor_client n"
    "num_neighbor_client n \<le> length ?cs"
    using n i by (auto simp: nb_ok_def)
  have shifted: "neighbor_client ?m = take ?i ?cs @ drop (?i + 1) (take (num_neighbor_client n) ?cs) @ drop (num_neighbor_client n - 1) ?cs"
    using shift_left [OF len(2,1)] len(3) by (simp add: remove_client_def)
  have "length (take ?i ?cs @ drop (?i + 1) (take (num_neighbor_client n) ?cs)) = num_neighbor_client n - 1"
    using len i by simp
  then have "known ?m = take ?i ?cs @ drop (?i + 1) (take (num_neighbor_client n) ?cs)"
    unfolding known_def shifted using len(2) by (simp add: remove_client_def min_absorb2)
  also have "\<dots> = take ?i (known n) @ drop (?i + 1) (known n)"
    using i by (simp add: known_def min_def drop_take drop_update_cancel)
  finally have u: "known ?m = take ?i (known n) @ drop (?i + 1) (known n)" .
  have k: "?i < length (known n)" using i n by simp
  show "clients ?m = (clients n)(mac := None)"
    using clients_shrunk(1) [OF n k u] find_entry(1,3) [OF n i] by simp
  have "length (neighbor_client ?m) = length (neighbor_client n)" unfolding shifted using len i by simp
  then show "nb_ok ?m" using n clients_shrunk(2) [OF n k u]
    by (simp add: nb_ok_def) (auto simp add: remove_client_def)
qed

text \<open>A client that is known, as the handlers use it.\<close>

lemma known_cases:
  assumes "nb_ok n"
  obtains (new) "clients n mac = None" "\<not> find_client mac n < num_neighbor_client n"
  | (old) "find_client mac n < num_neighbor_client n"
      "clients n mac = Some (info (neighbor_client n ! find_client mac n))"
      "mac_addr (neighbor_client n ! find_client mac n) = mac"
proof (cases "find_client mac n < num_neighbor_client n")
  case True
  from find_entry(1,2) [OF assms True] show ?thesis by (intro old True)
next
  case False
  then have "clients n mac = None" using find_known [OF assms, of mac] by blast
  then show ?thesis using False by (rule new)
qed

lemma put_at:
  assumes "nb_ok n" and "find_client mac n < num_neighbor_client n" and "mac_addr c = mac"
  shows "clients (put_client (find_client mac n) c n) = (clients n)(mac \<mapsto> info c)"
    and "nb_ok (put_client (find_client mac n) c n)"
  using put_known [of n c] assms by simp_all

lemma remove_put: "remove_client i (put_client i c n) = remove_client i n"
  by (simp add: remove_client_def put_client_def)

section \<open>What a message means for the map\<close>

definition nb_spec ::
  "nb_env \<Rightarrow> bool \<Rightarrow> int \<Rightarrow> neigh_data \<Rightarrow> (u8 list \<rightharpoonup> client_info) \<Rightarrow> neigh_post list \<times> (u8 list \<rightharpoonup> client_info)" where
  "nb_spec env is_new ipa d m =
     (let mac = data_mac d; on_bridge = (ipa_virtual_iface_name env = data_iface d);
          v4 = (iptype d = IPA_IP_v4); v6 = list_ex (\<lambda>w. w \<noteq> 0) (ipv6_addr d)
      in if ipa = - 1 \<or> v4 \<and> (ipv4_addr d = 0 \<or> ipv4_addr d AND 0xFFFF0000 = 0xA9FE0000) then ([], m)
         else if on_bridge \<and> (v4 \<or> v6) then
           (case m mac of
              None \<Rightarrow> ([], m)
            | Some (idx, ipa', ip, name) \<Rightarrow>
                ([post is_new (d\<lparr>if_index := idx, data_iface := name\<rparr>)],
                 if v4 then m(mac \<mapsto> (idx, ipa', ipv4_addr d, name)) else m))
         else if v4 then
           ([post is_new d], if is_new then m(mac \<mapsto> (if_index d, ipa, ipv4_addr d, data_iface d)) else m(mac := None))
         else if v6 then ([post is_new d], m)
         else
           (case m mac of
              None \<Rightarrow> ([], if is_new \<and> \<not> on_bridge then m(mac \<mapsto> (if_index d, ipa, 0, data_iface d)) else m)
            | Some (idx, ipa', ip, name) \<Rightarrow>
                let (idx', name') = (if on_bridge \<or> if_index d = idx then (idx, name) else (if_index d, data_iface d))
                in (if \<not> on_bridge \<and> ip \<noteq> 0
                    then [post is_new \<lparr>iptype = IPA_IP_v4, if_index = idx', ipv4_addr = ip, ipv6_addr = malloc_junk env,
                            data_mac = mac, data_iface = name'\<rparr>]
                    else [],
                    if is_new then m(mac \<mapsto> (idx', ipa', ip, name')) else m(mac := None))))"

lemma client_of_data_fields [simp]:
  "mac_addr (client_of_data d ipa ip) = data_mac d" "info (client_of_data d ipa ip) = (if_index d, ipa, ip, data_iface d)"
  by (simp_all add: client_of_data_def info_def)

lemma bridge_spec:
  assumes "nb_ok n" and "malloc_ok env" and "ipa \<noteq> - 1" and "ipa_virtual_iface_name env = data_iface d"
  shows "iptype d = IPA_IP_v4 \<Longrightarrow> ipv4_addr d \<noteq> 0 \<Longrightarrow> ipv4_addr d AND 0xFFFF0000 \<noteq> 0xA9FE0000 \<Longrightarrow>
      (case bridge_v4 env is_new d n of (ps, d', n') \<Rightarrow> (ps, clients n') = nb_spec env is_new ipa d (clients n) \<and> nb_ok n')"
    and "iptype d \<noteq> IPA_IP_v4 \<Longrightarrow> list_ex (\<lambda>w. w \<noteq> 0) (ipv6_addr d) \<Longrightarrow>
      (case bridge_v6 env is_new d n of (ps, d', n') \<Rightarrow> (ps, clients n') = nb_spec env is_new ipa d (clients n) \<and> nb_ok n')"
proof -
  let ?i = "find_client (data_mac d) n" let ?c = "neighbor_client n ! ?i"
  have put: "clients (put_client ?i (?c\<lparr>v4_addr := ip\<rparr>) n) = (clients n)(data_mac d \<mapsto> info (?c\<lparr>v4_addr := ip\<rparr>))"
    "nb_ok (put_client ?i (?c\<lparr>v4_addr := ip\<rparr>) n)" if "?i < num_neighbor_client n" "mac_addr ?c = data_mac d" for ip
    using put_at [OF assms(1) that(1), of "?c\<lparr>v4_addr := ip\<rparr>"] that(2) by simp_all
  show "iptype d = IPA_IP_v4 \<Longrightarrow> ipv4_addr d \<noteq> 0 \<Longrightarrow> ipv4_addr d AND 0xFFFF0000 \<noteq> 0xA9FE0000 \<Longrightarrow>
      (case bridge_v4 env is_new d n of (ps, d', n') \<Rightarrow> (ps, clients n') = nb_spec env is_new ipa d (clients n) \<and> nb_ok n')"
    by (cases rule: known_cases [OF assms(1), of "data_mac d"])
      (use assms put in \<open>simp_all add: bridge_v4_def nb_spec_def Let_def info_def\<close>)
  show "iptype d \<noteq> IPA_IP_v4 \<Longrightarrow> list_ex (\<lambda>w. w \<noteq> 0) (ipv6_addr d) \<Longrightarrow>
      (case bridge_v6 env is_new d n of (ps, d', n') \<Rightarrow> (ps, clients n') = nb_spec env is_new ipa d (clients n) \<and> nb_ok n')"
    by (cases rule: known_cases [OF assms(1), of "data_mac d"])
      (use assms in \<open>simp_all add: bridge_v6_def nb_spec_def Let_def info_def\<close>)
qed

lemma port_spec:
  assumes "nb_ok n" and "malloc_ok env" and "ipa \<noteq> - 1" and "ipa_virtual_iface_name env \<noteq> data_iface d"
    and "clients n (data_mac d) \<noteq> None \<or> num_neighbor_client n < 100"
    and "iptype d = IPA_IP_v4" and "ipv4_addr d \<noteq> 0" and "ipv4_addr d AND 0xFFFF0000 \<noteq> 0xA9FE0000"
  shows "case port_v4 env is_new ipa d n of (ps, d', n') \<Rightarrow> (ps, clients n') = nb_spec env is_new ipa d (clients n) \<and> nb_ok n'"
proof -
  let ?c = "client_of_data d ipa (ipv4_addr d)"
  from assms(1) show ?thesis
  proof (cases rule: known_cases [where mac = "data_mac d"])
    case new
    then have "(clients n)(data_mac d := None) = clients n" by (auto simp: fun_upd_idem)
    with new assms insert_room [OF assms(1), of ?c] show ?thesis by (simp add: port_v4_def nb_spec_def Let_def)
  next
    case old
    with assms put_at [OF assms(1) old(1), of ?c] remove_known [OF assms(1) old(1)] show ?thesis
      by (simp add: port_v4_def nb_spec_def Let_def)
  qed
qed

lemma no_addr_spec:
  assumes "nb_ok n" and "malloc_ok env" and "ipa \<noteq> - 1"
    and "clients n (data_mac d) \<noteq> None \<or> num_neighbor_client n < 100"
    and "iptype d \<noteq> IPA_IP_v4" and "\<not> list_ex (\<lambda>w. w \<noteq> 0) (ipv6_addr d)"
  shows "case no_addr env is_new ipa d n of (ps, d', n') \<Rightarrow> (ps, clients n') = nb_spec env is_new ipa d (clients n) \<and> nb_ok n'"
  using assms(1)
proof (cases rule: known_cases [where mac = "data_mac d"])
  case new
  with assms insert_room [OF assms(1), of "client_of_data d ipa 0"] show ?thesis
    by (auto simp: no_addr_def nb_spec_def Let_def)
next
  case old
  let ?i = "find_client (data_mac d) n" let ?c = "neighbor_client n ! ?i"
  let ?c' = "if ipa_virtual_iface_name env = data_iface d \<or> if_index d = iface_index ?c then ?c
     else ?c\<lparr>iface_index := if_index d, client_iface := data_iface d\<rparr>"
  have "mac_addr ?c' = data_mac d" using old(3) by simp
  with old assms put_at [OF assms(1) old(1), of ?c'] remove_known [OF assms(1) old(1)] show ?thesis
    by (simp add: no_addr_def no_addr_known_def nb_spec_def Let_def remove_put info_def data_of_client_def)
qed

lemma message_spec:
  assumes "nb_ok n" and "malloc_ok env" and "clients n (data_mac d) \<noteq> None \<or> num_neighbor_client n < 100"
  shows "case neigh_message env is_new d n of (ps, d', n') \<Rightarrow>
    (ps, clients n') = nb_spec env is_new (fst (query_index env (if_index d) n)) d (clients n) \<and> nb_ok n'"
proof -
  let ?ipa = "fst (query_index env (if_index d) n)" let ?n = "snd (query_index env (if_index d) n)"
  let ?v6 = "list_ex (\<lambda>w. w \<noteq> 0) (ipv6_addr d)" let ?bridge = "ipa_virtual_iface_name env = data_iface d"
  have n: "nb_ok ?n" "clients ?n (data_mac d) \<noteq> None \<or> num_neighbor_client ?n < 100" using assms by simp_all
  consider (ignored) "?ipa = - 1 \<or> iptype d = IPA_IP_v4 \<and> (ipv4_addr d = 0 \<or> ipv4_addr d AND 0xFFFF0000 = 0xA9FE0000)"
    | (v4) "?ipa \<noteq> - 1" "iptype d = IPA_IP_v4" "ipv4_addr d \<noteq> 0" "ipv4_addr d AND 0xFFFF0000 \<noteq> 0xA9FE0000"
    | (v6) "?ipa \<noteq> - 1" "iptype d \<noteq> IPA_IP_v4" "?v6"
    | (none) "?ipa \<noteq> - 1" "iptype d \<noteq> IPA_IP_v4" "\<not> ?v6" by blast
  then show ?thesis
  proof cases
    case ignored
    then show ?thesis using n by (auto simp: neigh_message_def case_prod_unfold nb_spec_def Let_def)
  next
    case v4
    then show ?thesis
      using bridge_spec(1) [OF n(1) assms(2) v4(1) _ v4(2-4), of is_new] port_spec [OF n(1) assms(2) v4(1) _ n(2) v4(2-4), of is_new]
      by (cases "?bridge") (simp_all add: neigh_message_def case_prod_unfold Let_def)
  next
    case v6
    have "nb_spec env is_new ?ipa d (clients n) = ([post is_new d], clients n)" if "\<not> ?bridge"
      using that v6 by (simp add: nb_spec_def Let_def)
    then show ?thesis
      using bridge_spec(2) [OF n(1) assms(2) v6(1) _ v6(2,3), of is_new] v6 n assms(2)
      by (cases "?bridge") (simp_all add: neigh_message_def case_prod_unfold Let_def)
  next
    case none
    then show ?thesis
      using no_addr_spec [OF n(1) assms(2) none(1) n(2) none(2,3), of is_new]
      by (simp add: neigh_message_def case_prod_unfold Let_def)
  qed
qed

section \<open>Any event, also without memory and with a full cache\<close>

lemma insert_ok: "nb_ok n \<Longrightarrow> clients n (mac_addr c) = None \<Longrightarrow> nb_ok (insert_client c n)"
  using insert_room(2) insert_full(2) by blast

lemma message_ok:
  assumes "nb_ok n0"
  shows "nb_ok (snd (snd (neigh_message env is_new d n0)))"
proof -
  define n where "n = snd (query_index env (if_index d) n0)"
  have n: "nb_ok n" using assms by (simp add: n_def)
  let ?i = "find_client (data_mac d) n"
  have "nb_ok (snd (snd (bridge_v4 env is_new d n))) \<and> nb_ok (snd (snd (port_v4 env is_new ipa d n))) \<and>
      nb_ok (snd (snd (bridge_v6 env is_new d n))) \<and> nb_ok (snd (snd (no_addr env is_new ipa d n)))" for ipa
    using n
  proof (cases rule: known_cases [where mac = "data_mac d"])
    case new
    then show ?thesis using n by (simp add: bridge_v4_def port_v4_def bridge_v6_def no_addr_def Let_def insert_ok)
  next
    case old
    have put: "nb_ok (put_client ?i c n)" if "mac_addr c = data_mac d" for c using put_at(2) [OF n old(1) that] .
    show ?thesis using old n remove_known(2) [OF n old(1)]
      by (simp add: bridge_v4_def port_v4_def bridge_v6_def no_addr_def no_addr_known_def Let_def remove_put put)
  qed
  with n show ?thesis by (simp add: neigh_message_def case_prod_unfold Let_def flip: n_def)
qed

lemma wlan_ok:
  assumes "nb_ok n0"
  shows "nb_ok (snd (wlan_client_add env idx attribs n0))"
proof -
  define n where "n = snd (query_index env idx n0)"
  have n: "nb_ok n" using assms by (simp add: n_def)
  have "nb_ok (put_client (find_client mac n) ((neighbor_client n ! find_client mac n)\<lparr>iface_index := idx\<rparr>) n)"
    if "find_client mac n < num_neighbor_client n" for mac
    using put_at(2) [OF n that, of "(neighbor_client n ! find_client mac n)\<lparr>iface_index := idx\<rparr>"] find_entry(1) [OF n that]
    by simp
  with n show ?thesis by (simp add: wlan_client_add_def case_prod_unfold Let_def flip: n_def)
qed

lemma callback_ok: "nb_ok n \<Longrightarrow> nb_ok (snd (neigh_event_callback env e n))"
  using message_ok [of n env] by (cases e) (simp_all add: wlan_ok case_prod_unfold)

interpretation neighbor: event_machine "\<lambda>(env, e) n. snd (neigh_event_callback env e n)" nb_ok "\<lambda>_. True"
  by unfold_locales (auto intro: callback_ok)

lemma new_neighbor_ok: "nb_ok (new_neighbor t)"
  by (simp add: nb_ok_def new_neighbor_def known_def)

lemma known_count: "nb_ok n \<Longrightarrow> num_neighbor_client n = card (dom (clients n))"
proof -
  assume n: "nb_ok n"
  have "dom (clients n) = mac_addr ` set (known n)" by (simp add: clients_def dom_map_of_conv_image_fst image_image)
  then have "card (dom (clients n)) = length (known n)"
    using n distinct_card [of "map mac_addr (known n)"] by (simp add: nb_ok_def)
  with n show ?thesis by simp
qed

section \<open>Interfaces that are in the table\<close>

abbreviation listed :: "int \<Rightarrow> IPACM_Neighbor \<Rightarrow> bool" where
  "listed idx n \<equiv> idx \<in> netlink_interface_index ` set (iface_table n)"

lemma query_listed:
  assumes "listed idx n"
  shows "snd (query_index env idx n) = n" "fst (query_index env idx n) \<noteq> - 1"
proof -
  have "first_index (\<lambda>e. netlink_interface_index e = idx) (iface_table n) < length (iface_table n)"
    using assms by (auto simp: first_index_less)
  then show "snd (query_index env idx n) = n" "fst (query_index env idx n) \<noteq> - 1"
    by (simp_all add: query_index_def iface_ipa_index_query_def Let_def)
qed

lemma table_same [simp]:
  "iface_table (put_client i c n) = iface_table n" "iface_table (insert_client c n) = iface_table n"
  "iface_table (remove_client i n) = iface_table n"
  by (simp_all add: put_client_def insert_client_def remove_client_def)

lemma port_table:
  assumes "listed (if_index d) n" and "ipa_virtual_iface_name env \<noteq> data_iface d"
  shows "iface_table (snd (snd (neigh_message env is_new d n))) = iface_table n"
  using assms query_listed [OF assms(1), of env]
  by (simp add: neigh_message_def case_prod_unfold Let_def port_v4_def no_addr_def no_addr_known_def)

definition neigh_cb :: "nb_env \<Rightarrow> neigh_event list \<Rightarrow> IPACM_Neighbor \<Rightarrow> neigh_post list list \<times> IPACM_Neighbor" where
  "neigh_cb env es n = fold (\<lambda>e (pss, n). case neigh_event_callback env e n of (ps, n') \<Rightarrow> (pss @ [ps], n')) es ([], n)"

text \<open>The events as the connection tracking listener sees them.\<close>

fun to_ct :: "neigh_post \<Rightarrow> ct_event" where
  "to_ct (ADDR_ADD d) = IPA_NEIGH_CLIENT_IP_ADDR_ADD_EVENT (event_data_all.truncate d)"
| "to_ct (ADDR_DEL d) = IPA_NEIGH_CLIENT_IP_ADDR_DEL_EVENT (event_data_all.truncate d)"

lemma truncate_ip [simp]:
  "ipv4_addr (event_data_all.truncate d) = ipv4_addr d" "iptype (event_data_all.truncate d) = iptype d"
  by (simp_all add: event_data_all.truncate_def)

section \<open>Properties\<close>

text \<open>An environment for examples: wlan0 has index 2 and bridge0 index 9; usb0 is index 1.\<close>

definition example_nb :: IPACM_Neighbor where
  "example_nb = new_neighbor [\<lparr>dev_name = ''usb0'', netlink_interface_index = 1\<rparr>, \<lparr>dev_name = ''wlan0'', netlink_interface_index = 2\<rparr>,
     \<lparr>dev_name = ''bridge0'', netlink_interface_index = 9\<rparr>]"

definition example_nb_env :: nb_env where
  "example_nb_env = \<lparr>kernel_name = Map.empty, ipa_virtual_iface_name = ''bridge0'', malloc_ok = True, malloc_junk = []\<rparr>"

definition example_neigh :: "ipa_ip_type \<Rightarrow> int \<Rightarrow> string \<Rightarrow> u32 \<Rightarrow> neigh_data" where
  "example_neigh t idx name ip =
     \<lparr>iptype = t, if_index = idx, ipv4_addr = ip, ipv6_addr = [0, 0, 0, 0], data_mac = [2, 0, 0, 0, 0, 5], data_iface = name\<rparr>"

text \<open>
  C16: Reached by any events from the start, the cache of neighbours is a map from MAC addresses to
  the interface and address of the client. As long as the client is known or fewer than a hundred
  are, each message of the kernel posts the events and changes the map as specified: messages of a
  port are posted as they are and set or drop the entry, messages of the bridge are posted for the
  interface of the entry if there is one, and those without an address repeat the known one.
\<close>

theorem neighbor_refines_map:
  assumes "n = fold (\<lambda>(env, e) n. snd (neigh_event_callback env e n)) es (new_neighbor t)"
    and "malloc_ok env" and "clients n (data_mac d) \<noteq> None \<or> card (dom (clients n)) < 100"
  shows "case neigh_message env is_new d n of (ps, d', n') \<Rightarrow>
    (ps, clients n') = nb_spec env is_new (fst (query_index env (if_index d) n)) d (clients n)"
proof -
  have "nb_ok n" using neighbor.run_inv [OF new_neighbor_ok, of es t] assms(1) by (simp add: list_all_iff)
  with message_spec [OF _ assms(2), of n d is_new] assms(3) known_count [of n] show ?thesis
    by (auto simp: case_prod_unfold)
qed

theorem neighbor_refines_map_witness:
  "case neigh_message example_nb_env False (example_neigh IPA_IP_v4 2 ''wlan0'' 7)
      (snd (neigh_event_callback example_nb_env (IPA_NEW_NEIGH_EVENT (example_neigh IPA_IP_v4 2 ''wlan0'' 7)) example_nb))
    of (ps, d', n') \<Rightarrow> clients n' [2, 0, 0, 0, 0, 5] = None \<and> length ps = 1"
proof -
  let ?d = "example_neigh IPA_IP_v4 2 ''wlan0'' 7"
  let ?n = "snd (neigh_event_callback example_nb_env (IPA_NEW_NEIGH_EVENT ?d) example_nb)"
  have n: "?n = fold (\<lambda>(env, e) n. snd (neigh_event_callback env e n)) [(example_nb_env, IPA_NEW_NEIGH_EVENT ?d)]
      (new_neighbor (iface_table example_nb))" by (simp add: example_nb_def new_neighbor_def)
  have "clients ?n (data_mac ?d) \<noteq> None \<and> fst (query_index example_nb_env (if_index ?d) ?n) = 1" by code_simp
  with neighbor_refines_map [OF n, of example_nb_env ?d False] show ?thesis
    by (auto simp: case_prod_unfold nb_spec_def Let_def example_neigh_def example_nb_env_def prod_eq_iff)
qed

text \<open>
  C17: A client with an address on a port without NAT is told to the connection tracking listener:
  the address is in the listener's list after the kernel reports the neighbour, and after it reports
  the deletion the list and the known clients are as before.
\<close>

theorem neighbor_listener_roundtrip:
  assumes "nb_ok n" and "clients n (data_mac d) = None" and "num_neighbor_client n < 100"
    and "listed (if_index d) n" and "malloc_ok env" and "ipa_virtual_iface_name env \<noteq> data_iface d"
    and "iptype d = IPA_IP_v4" and "ipv4_addr d \<noteq> 0" and "ipv4_addr d AND 0xFFFF0000 \<noteq> 0xA9FE0000"
    and "nat_inst s = Some a" and "\<not> isStaMode s" and "CheckNatIface ce (event_data_all.truncate d) = Some (True, False)"
    and "0 \<in> set (nonnat_iface_ipv4_addr s)" and "ipv4_addr d \<notin> set (nonnat_iface_ipv4_addr s)"
  shows "\<exists>ps1 ps2 n1 n2 s1 s2. neigh_event_callback env (IPA_NEW_NEIGH_EVENT d) n = (ps1, n1) \<and>
    neigh_event_callback env (IPA_DEL_NEIGH_EVENT d) n1 = (ps2, n2) \<and> clients n2 = clients n \<and>
    fold (\<lambda>p. ct_step drv (Callback ce (to_ct p))) ps1 (Some s) = Some s1 \<and> ipv4_addr d \<in> set (nonnat_iface_ipv4_addr s1) \<and>
    fold (\<lambda>p. ct_step drv (Callback ce (to_ct p))) ps2 (Some s1) = Some s2 \<and>
    nonnat_iface_ipv4_addr s2 = nonnat_iface_ipv4_addr s"
proof -
  let ?xs = "nonnat_iface_ipv4_addr s" let ?ip = "ipv4_addr d" let ?k = "first_index (\<lambda>a. a = 0) ?xs"
  let ?ev1 = "[EvFlushTempEntries ?ip True True]"
  let ?s1 = "s\<lparr>nonnat_iface_ipv4_addr := ?xs[?k := ?ip], nat_inst := Some (nat_step drv (EvFlushTempEntries ?ip True True) a)\<rparr>"
  have k: "?k < length ?xs" "?xs ! ?k = 0" using assms(13) first_index_holds [of "\<lambda>a. a = 0" ?xs] by (auto simp: first_index_less)
  obtain ps1 d1 n1 where m1: "neigh_message env True d n = (ps1, d1, n1)" by (cases "neigh_message env True d n") auto
  have c1: "ps1 = [ADDR_ADD d]" "clients n1 (data_mac d) \<noteq> None" "clients n1 = (clients n)(data_mac d \<mapsto> the (clients n1 (data_mac d)))" "nb_ok n1"
    using message_spec [OF assms(1,5), of d True] assms query_listed [OF assms(4), of env] m1
    by (auto simp: nb_spec_def Let_def post_def)
  have t1: "listed (if_index d) n1" using port_table [OF assms(4,6), of True] assms(4) m1 by simp
  obtain ps2 d2 n2 where m2: "neigh_message env False d n1 = (ps2, d2, n2)" by (cases "neigh_message env False d n1") auto
  have c2: "ps2 = [ADDR_DEL d]" "clients n2 = (clients n1)(data_mac d := None)"
    using message_spec [OF c1(4) assms(5), of d False] assms c1(2) query_listed [OF t1, of env] m2
    by (auto simp: nb_spec_def Let_def post_def)
  have "clients n2 = clients n" using c2(2) c1(3) assms(2) by (metis fun_upd_upd fun_upd_idem)
  moreover have s1: "ct_step drv (Callback ce (to_ct (ADDR_ADD d))) (Some s) = Some ?s1"
    using assms(10-12) k by (simp add: ct_step_def HandleNonNatIPAddr_def Let_def nat_calls_Some)
  moreover have mem: "?ip \<in> set (?xs[?k := ?ip])" by (rule set_update_memI [OF k(1)])
  moreover have "\<exists>s2. ct_step drv (Callback ce (to_ct (ADDR_DEL d))) (Some ?s1) = Some s2 \<and> nonnat_iface_ipv4_addr s2 = ?xs"
  proof -
    have "first_index (\<lambda>a. a = ?ip) (?xs[?k := ?ip]) = ?k" (is "?j = _")
    proof (rule ccontr)
      have j: "?j < length (?xs[?k := ?ip])" using mem by (subst first_index_less) blast
      assume "?j \<noteq> ?k"
      then have "?xs ! ?j = ?ip" using first_index_holds [OF j] by simp
      then show False using j assms(14) by (metis length_list_update nth_mem)
    qed
    then show ?thesis using k assms(11)
      by (simp add: ct_step_def HandleNonNatIPAddr_def Let_def nat_calls_Some) (metis list_update_id)
  qed
  ultimately show ?thesis using m1 m2 c1(1) c2(1) by auto
qed

theorem neighbor_listener_roundtrip_witness:
  "\<exists>ps1 ps2 n1 n2 s1 s2.
    neigh_event_callback example_nb_env (IPA_NEW_NEIGH_EVENT (example_neigh IPA_IP_v4 1 ''usb0'' 0x0A000005)) example_nb = (ps1, n1) \<and>
    neigh_event_callback example_nb_env (IPA_DEL_NEIGH_EVENT (example_neigh IPA_IP_v4 1 ''usb0'' 0x0A000005)) n1 = (ps2, n2) \<and>
    fold (\<lambda>p. ct_step counting_driver (Callback example_ct_env (to_ct p))) ps1 (Some (new_listener (Some example_app) False 7)) = Some s1 \<and>
    0x0A000005 \<in> set (nonnat_iface_ipv4_addr s1) \<and>
    fold (\<lambda>p. ct_step counting_driver (Callback example_ct_env (to_ct p))) ps2 (Some s1) = Some s2 \<and>
    nonnat_iface_ipv4_addr s2 = replicate 50 0"
proof -
  let ?d = "example_neigh IPA_IP_v4 1 ''usb0'' 0x0A000005" let ?s = "new_listener (Some example_app) False 7"
  have ok: "nb_ok example_nb" by (simp add: example_nb_def new_neighbor_ok)
  have none: "clients example_nb (data_mac ?d) = None"
    by (simp add: clients_def known_def example_nb_def new_neighbor_def)
  have iface: "CheckNatIface example_ct_env (event_data_all.truncate ?d) = Some (True, False)"
    by (simp add: CheckNatIface_def GetNatIfaces_def example_ct_env_def mk_config_def example_neigh_def event_data_all.truncate_def
        zero_iface_def)
  have rest: "num_neighbor_client example_nb < 100" "listed (if_index ?d) example_nb" "malloc_ok example_nb_env"
    "ipa_virtual_iface_name example_nb_env \<noteq> data_iface ?d" "iptype ?d = IPA_IP_v4" "ipv4_addr ?d \<noteq> 0"
    "ipv4_addr ?d AND 0xFFFF0000 \<noteq> 0xA9FE0000"
    by (simp_all add: example_nb_def new_neighbor_def example_nb_env_def example_neigh_def)
  have lst: "nat_inst ?s = Some example_app" "\<not> isStaMode ?s" "0 \<in> set (nonnat_iface_ipv4_addr ?s)"
    "ipv4_addr ?d \<notin> set (nonnat_iface_ipv4_addr ?s)"
    by (simp_all add: new_listener_def example_neigh_def)
  have ip: "ipv4_addr ?d = 0x0A000005" by (simp add: example_neigh_def)
  from neighbor_listener_roundtrip [OF ok none rest(1-7) lst(1,2) iface lst(3,4), of counting_driver] ip show ?thesis
    by (auto simp: new_listener_def)
qed

text \<open>The next message of a client whose interface is in the table, by the specification.\<close>

lemma listed_spec:
  assumes "nb_ok n" and "listed (if_index d) n" and "malloc_ok env"
    and "clients n (data_mac d) \<noteq> None \<or> num_neighbor_client n < 100"
  obtains ps d' n' ipa where "neigh_message env is_new d n = (ps, d', n')" "(ps, clients n') = nb_spec env is_new ipa d (clients n)"
    "nb_ok n'" "ipa \<noteq> - 1"
  using message_spec [OF assms(1,3,4), of is_new] query_listed(2) [OF assms(2), of env]
  by (cases "neigh_message env is_new d n") auto

text \<open>
  The order of the kernel's messages matters. When the bridge reports the address of a client
  before its port is known, nothing is ever told about the client; when the port comes first, the
  address is told for that port.
\<close>

theorem neighbor_bridge_first_lost:
  assumes "nb_ok n" and "clients n mac = None" and "num_neighbor_client n < 100" and "malloc_ok env"
    and "listed (if_index b) n" and "listed (if_index p) n"
    and "data_mac b = mac" and "data_iface b = ipa_virtual_iface_name env" and "iptype b = IPA_IP_v4"
    and "ipv4_addr b \<noteq> 0" and "ipv4_addr b AND 0xFFFF0000 \<noteq> 0xA9FE0000"
    and "data_mac p = mac" and "data_iface p \<noteq> ipa_virtual_iface_name env" and "iptype p \<noteq> IPA_IP_v4"
    and "\<not> list_ex (\<lambda>w. w \<noteq> 0) (ipv6_addr p)"
  shows "fst (neigh_cb env [IPA_NEW_NEIGH_EVENT b, IPA_NEW_NEIGH_EVENT p] n) = [[], []] \<and>
    fst (neigh_cb env [IPA_NEW_NEIGH_EVENT p, IPA_NEW_NEIGH_EVENT b] n) =
      [[], [ADDR_ADD (b\<lparr>if_index := if_index p, data_iface := data_iface p\<rparr>)]]"
proof
  have bridge_unknown: "neigh_message env True b n = ([], b, n)"
    using assms find_known [OF assms(1), of mac] query_listed [OF assms(5), of env]
    by (simp add: neigh_message_def case_prod_unfold Let_def bridge_v4_def)
  obtain ps d' n' ipa where m: "neigh_message env True p n = (ps, d', n')" "(ps, clients n') = nb_spec env True ipa p (clients n)"
    "nb_ok n'" "ipa \<noteq> - 1"
    using listed_spec [OF assms(1,6,4)] assms(3) by metis
  then have p: "ps = []" "clients n' = (clients n)(mac \<mapsto> (if_index p, ipa, 0, data_iface p))"
    using assms by (auto simp: nb_spec_def Let_def)
  show "fst (neigh_cb env [IPA_NEW_NEIGH_EVENT b, IPA_NEW_NEIGH_EVENT p] n) = [[], []]"
    using bridge_unknown m(1) p(1) by (simp add: neigh_cb_def)
  have l: "listed (if_index b) n'" using port_table [OF assms(6), of env True] assms(5,13) m(1) by simp
  obtain qs e' n'' ipa' where q: "neigh_message env True b n' = (qs, e', n'')"
    "(qs, clients n'') = nb_spec env True ipa' b (clients n')" "ipa' \<noteq> - 1"
    using listed_spec [OF m(3) l assms(4)] p(2) assms(7) by (metis fun_upd_same option.distinct(1))
  then have "qs = [ADDR_ADD (b\<lparr>if_index := if_index p, data_iface := data_iface p\<rparr>)]"
    using assms p(2) by (auto simp: nb_spec_def Let_def post_def)
  then show "fst (neigh_cb env [IPA_NEW_NEIGH_EVENT p, IPA_NEW_NEIGH_EVENT b] n) =
      [[], [ADDR_ADD (b\<lparr>if_index := if_index p, data_iface := data_iface p\<rparr>)]]"
    using m(1) q(1) p(1) by (simp add: neigh_cb_def)
qed

theorem neighbor_bridge_first_lost_witness:
  "fst (neigh_cb example_nb_env [IPA_NEW_NEIGH_EVENT (example_neigh IPA_IP_v4 9 ''bridge0'' 7),
      IPA_NEW_NEIGH_EVENT (example_neigh IPA_IP_v6 2 ''wlan0'' 0)] example_nb) = [[], []]"
proof -
  let ?b = "example_neigh IPA_IP_v4 9 ''bridge0'' 7" let ?p = "example_neigh IPA_IP_v6 2 ''wlan0'' 0"
  have ok: "nb_ok example_nb" by (simp add: example_nb_def new_neighbor_ok)
  have none: "clients example_nb [2, 0, 0, 0, 0, 5] = None"
    by (simp add: clients_def known_def example_nb_def new_neighbor_def)
  have "fst (neigh_cb example_nb_env [IPA_NEW_NEIGH_EVENT ?b, IPA_NEW_NEIGH_EVENT ?p] example_nb) = [[], []] \<and>
    fst (neigh_cb example_nb_env [IPA_NEW_NEIGH_EVENT ?p, IPA_NEW_NEIGH_EVENT ?b] example_nb) =
      [[], [ADDR_ADD (?b\<lparr>if_index := if_index ?p, data_iface := data_iface ?p\<rparr>)]]"
    by (rule neighbor_bridge_first_lost [OF ok none])
      (simp_all add: example_nb_def new_neighbor_def example_nb_env_def example_neigh_def)
  then show ?thesis by blast
qed

text \<open>
  When a client changes its address and the kernel then gives up the old one, the cache forgets the
  client with its new address: a message without an address no longer repeats it.
\<close>

lemma neighbor_old_address_forgets:
  "let cb = neigh_cb example_nb_env; d1 = example_neigh IPA_IP_v4 2 ''wlan0'' 7; d2 = example_neigh IPA_IP_v4 2 ''wlan0'' 8;
       (pss, n) = cb [IPA_NEW_NEIGH_EVENT d1, IPA_NEW_NEIGH_EVENT d2, IPA_DEL_NEIGH_EVENT d1,
                      IPA_NEW_NEIGH_EVENT (example_neigh IPA_IP_v6 2 ''wlan0'' 0)] example_nb
   in map length pss = [1, 1, 1, 0] \<and> map_option (\<lambda>(i, a, ip, m). ip) (clients n [2, 0, 0, 0, 0, 5]) = Some 0"
  by code_simp

end
