(* ===== verification/LinkedList.thy ===== *)
theory LinkedList
  imports Prelude "HOL-Library.Monad_Syntax"
begin

text \<open>
  The doubly linked list of the location utilities (\<open>gps/utils/linked_list.c\<close>), which the message
  queue is built on: elements are added at the head and taken from the tail, may be searched and removed
  in the middle, and flushed.

  The list has its own memory: elements at addresses, allocated in turn. A data object is a number, 0
  is NULL; that the function to deallocate it is called is recorded. A handle is NULL or a list. A
  result \<open>None\<close> is a pointer to freed memory followed, or a loop that does not end.
\<close>

section \<open>Data\<close>

datatype ll_err =
    eLINKED_LIST_SUCCESS | eLINKED_LIST_FAILURE_GENERAL | eLINKED_LIST_INVALID_PARAMETER
  | eLINKED_LIST_INVALID_HANDLE | eLINKED_LIST_UNAVAILABLE_RESOURCE | eLINKED_LIST_INSUFFICIENT_BUFFER

record list_element =
  le_next :: "nat option"
  le_prev :: "nat option"
  data_ptr :: nat
  dealloc_func :: bool

record list_state =
  p_head :: "nat option"
  p_tail :: "nat option"
  elements :: "nat \<Rightarrow> list_element option"
  fresh :: nat
  dealloced :: "nat list"

section \<open>Operations\<close>

text \<open>Whether the allocation succeeds is an argument.\<close>

definition linked_list_init :: "bool \<Rightarrow> ll_err \<times> list_state option" where
  "linked_list_init calloc_ok =
     (if \<not> calloc_ok then (eLINKED_LIST_FAILURE_GENERAL, None)
      else (eLINKED_LIST_SUCCESS, Some \<lparr>p_head = None, p_tail = None, elements = Map.empty, fresh = 1, dealloced = []\<rparr>))"

definition linked_list_add ::
  "list_state option \<Rightarrow> nat \<Rightarrow> bool \<Rightarrow> bool \<Rightarrow> (ll_err \<times> list_state option) option" where
  "linked_list_add list_data data_obj dealloc malloc_ok =
     (case list_data of
        None \<Rightarrow> Some (eLINKED_LIST_INVALID_HANDLE, None)
      | Some l \<Rightarrow>
          if data_obj = 0 then Some (eLINKED_LIST_INVALID_PARAMETER, Some l)
          else if \<not> malloc_ok then Some (eLINKED_LIST_FAILURE_GENERAL, Some l)
          else
            let elem = fresh l;
                l1 = l\<lparr>elements := (elements l)(elem \<mapsto>
                         \<lparr>le_next = p_head l, le_prev = None, data_ptr = data_obj, dealloc_func = dealloc\<rparr>),
                       fresh := Suc elem, p_head := Some elem\<rparr>
            in case p_head l of
                 None \<Rightarrow> Some (eLINKED_LIST_SUCCESS, Some (l1\<lparr>p_tail := Some elem\<rparr>))
               | Some tmp \<Rightarrow>
                   do { e \<leftarrow> elements l1 tmp;
                        Some (eLINKED_LIST_SUCCESS,
                              Some (l1\<lparr>elements := (elements l1)(tmp \<mapsto> e\<lparr>le_prev := Some elem\<rparr>)\<rparr>)) })"

text \<open>The tail, with what is written to the parameter; whether the caller passes one is an argument.\<close>

definition linked_list_remove ::
  "list_state option \<Rightarrow> bool \<Rightarrow> (ll_err \<times> nat option \<times> list_state option) option" where
  "linked_list_remove list_data has_param =
     (case list_data of
        None \<Rightarrow> Some (eLINKED_LIST_INVALID_HANDLE, None, None)
      | Some l \<Rightarrow>
          if \<not> has_param then Some (eLINKED_LIST_INVALID_PARAMETER, None, Some l)
          else case p_tail l of
                 None \<Rightarrow> Some (eLINKED_LIST_UNAVAILABLE_RESOURCE, None, Some l)
               | Some tmp \<Rightarrow>
                   do { e \<leftarrow> elements l tmp;
                        l1 \<leftarrow> (case le_prev e of
                                 None \<Rightarrow> Some (l\<lparr>p_head := None, p_tail := None\<rparr>)
                               | Some p \<Rightarrow>
                                   do { pe \<leftarrow> elements l p;
                                        Some (l\<lparr>p_tail := Some p, elements := (elements l)(p \<mapsto> pe\<lparr>le_next := None\<rparr>)\<rparr>) });
                        Some (eLINKED_LIST_SUCCESS, Some (data_ptr e), Some (l1\<lparr>elements := (elements l1)(tmp := None)\<rparr>)) })"

definition linked_list_empty :: "list_state option \<Rightarrow> int" where
  "linked_list_empty list_data =
     (case list_data of None \<Rightarrow> - 3 | Some l \<Rightarrow> if p_head l = None then 1 else 0)"

partial_function (option) flush_loop :: "list_state \<Rightarrow> list_state option" where
  "flush_loop l =
     (case p_head l of
        None \<Rightarrow> Some l
      | Some a \<Rightarrow>
          do { e \<leftarrow> elements l a;
               flush_loop (l\<lparr>dealloced := dealloced l @ (if dealloc_func e then [data_ptr e] else []),
                             elements := (elements l)(a := None), p_head := le_next e\<rparr>) })"

definition linked_list_flush :: "list_state option \<Rightarrow> (ll_err \<times> list_state option) option" where
  "linked_list_flush list_data =
     (case list_data of
        None \<Rightarrow> Some (eLINKED_LIST_INVALID_HANDLE, None)
      | Some l \<Rightarrow> do { l1 \<leftarrow> flush_loop l; Some (eLINKED_LIST_SUCCESS, Some (l1\<lparr>p_tail := None\<rparr>)) })"

text \<open>
  The handle becomes NULL; what was deallocated on the way is the second result. The pointer to the
  handle is not NULL.
\<close>

definition linked_list_destroy :: "list_state option \<Rightarrow> (ll_err \<times> nat list) option" where
  "linked_list_destroy list_data =
     do { (err, r) \<leftarrow> linked_list_flush list_data;
          Some (eLINKED_LIST_SUCCESS, case r of None \<Rightarrow> [] | Some l \<Rightarrow> dealloced l) }"

text \<open>The search ends at the first element that equals, so it is a search and then the removal.\<close>

partial_function (option) search_loop :: "(nat \<Rightarrow> bool) \<Rightarrow> list_state \<Rightarrow> nat option \<Rightarrow> nat option option" where
  "search_loop equal l tmp =
     (case tmp of
        None \<Rightarrow> Some None
      | Some a \<Rightarrow>
          do { e \<leftarrow> elements l a;
               if equal (data_ptr e) then Some (Some a) else search_loop equal l (le_next e) })"

definition unlink_element :: "bool \<Rightarrow> nat \<Rightarrow> list_state \<Rightarrow> list_state option" where
  "unlink_element has_param a l =
     do { e \<leftarrow> elements l a;
          l1 \<leftarrow> (case le_prev e of
                   None \<Rightarrow> Some (l\<lparr>p_head := le_next e\<rparr>)
                 | Some p \<Rightarrow>
                     do { pe \<leftarrow> elements l p;
                          Some (l\<lparr>elements := (elements l)(p \<mapsto> pe\<lparr>le_next := le_next e\<rparr>)\<rparr>) });
          e1 \<leftarrow> elements l1 a;
          l2 \<leftarrow> (case le_next e1 of
                   None \<Rightarrow> Some (l1\<lparr>p_tail := le_prev e1\<rparr>)
                 | Some q \<Rightarrow>
                     do { qe \<leftarrow> elements l1 q;
                          Some (l1\<lparr>elements := (elements l1)(q \<mapsto> qe\<lparr>le_prev := le_prev e1\<rparr>)\<rparr>) });
          Some (l2\<lparr>elements := (elements l2)(a := None),
                   dealloced := dealloced l2 @ (if \<not> has_param \<and> dealloc_func e then [data_ptr e] else [])\<rparr>) }"

text \<open>The second result is what is written to the parameter, if the caller passes one.\<close>

definition linked_list_search ::
  "list_state option \<Rightarrow> bool \<Rightarrow> (nat \<Rightarrow> bool) option \<Rightarrow> bool \<Rightarrow> (ll_err \<times> nat option \<times> list_state option) option" where
  "linked_list_search list_data has_param equal rm_if_found =
     (case (list_data, equal) of
        (Some l, Some eq) \<Rightarrow>
          if p_tail l = None then Some (eLINKED_LIST_UNAVAILABLE_RESOURCE, None, Some l)
          else
            do { r \<leftarrow> search_loop eq l (p_head l);
                 case r of
                   None \<Rightarrow> Some (eLINKED_LIST_SUCCESS, if has_param then Some 0 else None, Some l)
                 | Some a \<Rightarrow>
                     do { e \<leftarrow> elements l a;
                          l1 \<leftarrow> (if rm_if_found then unlink_element has_param a l else Some l);
                          Some (eLINKED_LIST_SUCCESS, if has_param then Some (data_ptr e) else None, Some l1) } }
      | _ \<Rightarrow> Some (eLINKED_LIST_INVALID_HANDLE, None, list_data))"

section \<open>Segments\<close>

text \<open>A doubly linked segment from \<open>p\<close>, behind \<open>pr\<close>, whose last element points to \<open>nx\<close>.\<close>

fun dseg :: "(nat \<Rightarrow> list_element option) \<Rightarrow> nat option \<Rightarrow> nat option \<Rightarrow> nat list \<Rightarrow> nat option \<Rightarrow> bool" where
  "dseg els pr p [] nx \<longleftrightarrow> p = nx"
| "dseg els pr p (x # xs) nx \<longleftrightarrow>
     p = Some x \<and> (case els x of None \<Rightarrow> False | Some e \<Rightarrow> le_prev e = pr \<and> dseg els (Some x) (le_next e) xs nx)"

definition ends :: "nat option \<Rightarrow> nat list \<Rightarrow> nat option" where
  "ends pr xs = (if xs = [] then pr else Some (last xs))"

lemma ends_simps [simp]: "ends pr [] = pr" "ends pr (x # xs) = ends (Some x) xs" "ends pr (xs @ [x]) = Some x"
  "ends pr (xs @ y # ys) = ends (Some y) ys"
  by (simp_all add: ends_def)

lemma dseg_append: "dseg els pr p (xs @ ys) nx \<longleftrightarrow> (\<exists>m. dseg els pr p xs m \<and> dseg els (ends pr xs) m ys nx)"
  by (induction xs arbitrary: pr p) (auto split: option.splits)

lemma dseg_frame: "a \<notin> set xs \<Longrightarrow> dseg (els(a := v)) pr p xs nx = dseg els pr p xs nx"
  by (induction xs arbitrary: pr p) (auto split: option.splits)

lemma dseg_start: "dseg els pr p xs nx \<Longrightarrow> xs \<noteq> [] \<Longrightarrow> p = Some (hd xs)"
  by (cases xs) auto

lemma dseg_elements: "dseg els pr p xs nx \<Longrightarrow> x \<in> set xs \<Longrightarrow> els x \<noteq> None"
  by (induction xs arbitrary: pr p) (auto split: option.splits)

text \<open>Changing the pointer into a segment, and the one out of it.\<close>

lemma dseg_new_prev:
  assumes "dseg els pr (Some x) (x # xs) nx" and "x \<notin> set xs" and "els x = Some e"
  shows "dseg (els(x \<mapsto> e\<lparr>le_prev := pr'\<rparr>)) pr' (Some x) (x # xs) nx"
  using assms by (simp add: dseg_frame)

lemma dseg_new_next:
  assumes "dseg els pr p (xs @ [x]) nx" and "x \<notin> set xs" and "els x = Some e"
  shows "dseg (els(x \<mapsto> e\<lparr>le_next := nx'\<rparr>)) pr p (xs @ [x]) nx'"
  using assms by (auto simp: dseg_append dseg_frame)

section \<open>A list and its contents\<close>

definition val :: "list_state \<Rightarrow> nat \<Rightarrow> nat \<times> bool" where
  "val l x = (case elements l x of None \<Rightarrow> (0, False) | Some e \<Rightarrow> (data_ptr e, dealloc_func e))"

text \<open>The allocated elements are exactly those of the list, from head to tail.\<close>

definition chain :: "list_state \<Rightarrow> nat list \<Rightarrow> bool" where
  "chain l xs \<longleftrightarrow>
     distinct xs \<and> dom (elements l) = set xs \<and> (\<forall>x \<in> set xs. x < fresh l) \<and>
     dseg (elements l) None (p_head l) xs None \<and> p_tail l = ends None xs"

definition contents :: "list_state \<Rightarrow> (nat \<times> bool) list \<Rightarrow> bool" where
  "contents l cs \<longleftrightarrow> (\<exists>xs. chain l xs \<and> cs = map (val l) xs)"

lemma chain_head: "chain l xs \<Longrightarrow> p_head l = (if xs = [] then None else Some (hd xs))"
  by (cases xs) (auto simp: chain_def)

lemma chain_tail: "chain l xs \<Longrightarrow> p_tail l = ends None xs"
  by (simp add: chain_def)

lemma chain_mem: "chain l xs \<Longrightarrow> x \<in> set xs \<Longrightarrow> \<exists>e. elements l x = Some e"
  by (auto simp: chain_def)

lemma contents_init: "contents \<lparr>p_head = None, p_tail = None, elements = Map.empty, fresh = k, dealloced = d\<rparr> []"
  unfolding contents_def by (rule exI [of _ "[]"]) (simp add: chain_def)

lemma add_spec:
  assumes "contents l cs" and "d \<noteq> 0"
  shows "\<exists>l'. linked_list_add (Some l) d f True = Some (eLINKED_LIST_SUCCESS, Some l') \<and> contents l' ((d, f) # cs) \<and>
    dealloced l' = dealloced l"
proof -
  obtain xs where c: "chain l xs" and cs: "cs = map (val l) xs" using assms(1) by (auto simp: contents_def)
  let ?a = "fresh l"
  have a: "?a \<notin> set xs" "elements l ?a = None" using c by (auto simp: chain_def)
  show ?thesis
  proof (cases xs)
    case Nil
    with c assms(2) cs show ?thesis
      by (auto simp: linked_list_add_def Let_def chain_def contents_def val_def intro!: exI [of _ "[?a]"])
  next
    case (Cons y ys)
    then obtain e where e: "elements l y = Some e" using chain_mem [OF c] by auto
    have y: "y \<noteq> ?a" using a Cons by auto
    let ?els = "(elements l)(?a \<mapsto> \<lparr>le_next = Some y, le_prev = None, data_ptr = d, dealloc_func = f\<rparr>, y \<mapsto> e\<lparr>le_prev := Some ?a\<rparr>)"
    let ?l = "l\<lparr>elements := ?els, fresh := Suc ?a, p_head := Some ?a\<rparr>"
    have r: "linked_list_add (Some l) d f True = Some (eLINKED_LIST_SUCCESS, Some ?l)"
      using assms(2) chain_head [OF c] Cons e y by (simp add: linked_list_add_def Let_def)
    have "dseg (elements l) None (Some y) (y # ys) None" "y \<notin> set ys" using c Cons by (auto simp: chain_def)
    then have "dseg ((elements l)(y \<mapsto> e\<lparr>le_prev := Some ?a\<rparr>)) (Some ?a) (Some y) (y # ys) None"
      by (rule dseg_new_prev) (rule e)
    then have "dseg ?els (Some ?a) (Some y) (y # ys) None" using a Cons y by (simp add: fun_upd_twist dseg_frame)
    then have "chain ?l (?a # xs)" using c Cons a y by (auto simp: chain_def less_Suc_eq)
    moreover have "map (val ?l) (?a # xs) = (d, f) # cs" using a y e unfolding cs Cons by (auto simp: val_def)
    ultimately show ?thesis using r by (auto simp: contents_def)
  qed
qed

text \<open>Taking one element out of the middle, as both removals do.\<close>

lemma chain_parts:
  assumes "chain l (xs @ x # ys)"
  obtains e where "elements l x = Some e" "le_prev e = ends None xs" "dseg (elements l) None (p_head l) xs (Some x)"
    "dseg (elements l) (Some x) (le_next e) ys None" "x \<notin> set xs" "x \<notin> set ys" "distinct (xs @ ys)" "set xs \<inter> set ys = {}"
  using assms by (auto simp: chain_def dseg_append split: option.splits)

lemma unlink_spec:
  assumes "chain l (xs @ x # ys)"
  shows "\<exists>l'. unlink_element b x l = Some l' \<and> chain l' (xs @ ys) \<and> map (val l') (xs @ ys) = map (val l) (xs @ ys) \<and>
    dealloced l' = dealloced l @ (if \<not> b \<and> snd (val l x) then [fst (val l x)] else [])"
proof -
  obtain e where e: "elements l x = Some e" "le_prev e = ends None xs" "dseg (elements l) None (p_head l) xs (Some x)"
    "dseg (elements l) (Some x) (le_next e) ys None" "x \<notin> set xs" "x \<notin> set ys" "distinct (xs @ ys)" "set xs \<inter> set ys = {}"
    using assms by (rule chain_parts)
  have nx: "le_next e = (if ys = [] then None else Some (hd ys))" using e(4) by (cases ys) auto
  have alloc: "dom (elements l) = insert x (set xs \<union> set ys)" "\<forall>z \<in> set xs \<union> set ys. z < fresh l"
    using assms by (auto simp: chain_def)
  have tail: "p_tail l = ends (Some x) ys" using chain_tail [OF assms] by (simp add: ends_def)
  consider (only) "xs = []" "ys = []" | (first) y ys' where "xs = []" "ys = y # ys'" | (final) xs' p where "xs = xs' @ [p]" "ys = []"
    | (middle) xs' p y ys' where "xs = xs' @ [p]" "ys = y # ys'"
    by (cases xs rule: rev_cases; cases ys) auto
  then show ?thesis
  proof cases
    case only
    then have "(elements l)(x := None) = Map.empty"
      using alloc dom_eq_empty_conv [of "(elements l)(x := None)"] by simp
    with only e nx alloc show ?thesis by (auto simp: unlink_element_def chain_def val_def split: if_splits)
  next
    case first
    then obtain ye where y: "elements l y = Some ye" using alloc by auto
    with first e have ne: "y \<noteq> x" "y \<notin> set ys'" "dseg (elements l) (Some x) (Some y) (y # ys') None" using nx by auto
    from dseg_new_prev [OF ne(3,2) y] have "dseg ((elements l)(y \<mapsto> ye\<lparr>le_prev := None\<rparr>, x := None)) None (Some y) (y # ys') None"
      using e(6) first by (simp add: dseg_frame)
    with first e nx alloc y ne tail show ?thesis
      by (auto simp: unlink_element_def chain_def val_def)
  next
    case final
    then obtain pe where p: "elements l p = Some pe" using alloc by auto
    with final e have ne: "p \<noteq> x" "p \<notin> set xs'" "dseg (elements l) None (p_head l) (xs' @ [p]) (Some x)" by auto
    from dseg_new_next [OF ne(3,2) p] have "dseg ((elements l)(p \<mapsto> pe\<lparr>le_next := None\<rparr>, x := None)) None (p_head l) (xs' @ [p]) None"
      using e(5) final by (subst dseg_frame) auto
    with final e nx alloc p ne tail show ?thesis
      by (auto simp: unlink_element_def chain_def val_def)
  next
    case middle
    then have "p \<in> dom (elements l)" "y \<in> dom (elements l)" unfolding alloc(1) by simp_all
    then obtain pe ye where p: "elements l p = Some pe" and y: "elements l y = Some ye" by (meson domD)
    with middle e have ne: "p \<noteq> x" "p \<notin> set xs'" "y \<noteq> x" "y \<notin> set ys'" "p \<noteq> y" "y \<notin> set xs'" "p \<notin> set ys'"
      and seg: "dseg (elements l) None (p_head l) (xs' @ [p]) (Some x)" "dseg (elements l) (Some x) (Some y) (y # ys') None"
      using nx by auto
    let ?els = "(elements l)(p \<mapsto> pe\<lparr>le_next := Some y\<rparr>, y \<mapsto> ye\<lparr>le_prev := Some p\<rparr>, x := None)"
    have "dseg ?els None (p_head l) (xs' @ [p]) (Some y)"
      using dseg_new_next [OF seg(1) ne(2) p, of "Some y"] ne e(5) middle by (simp add: dseg_frame del: fun_upd_apply)
    moreover have "dseg ?els (Some p) (Some y) (y # ys') None"
      using dseg_new_prev [OF seg(2) ne(4) y, of "Some p"] ne e(6) middle by (simp add: fun_upd_twist dseg_frame)
    ultimately have "dseg ?els None (p_head l) ((xs' @ [p]) @ y # ys') None" unfolding dseg_append by auto
    with middle e nx alloc p y ne tail show ?thesis
      by (auto simp: unlink_element_def chain_def val_def)
  qed
qed

lemma remove_spec:
  assumes "contents l cs"
  shows "\<exists>r. linked_list_remove (Some l) True = Some r \<and>
    (case r of (err, out, l') \<Rightarrow>
       if cs = [] then err = eLINKED_LIST_UNAVAILABLE_RESOURCE \<and> out = None \<and> l' = Some l
       else err = eLINKED_LIST_SUCCESS \<and> out = Some (fst (last cs)) \<and>
         (\<exists>m. l' = Some m \<and> contents m (butlast cs) \<and> dealloced m = dealloced l))"
proof -
  obtain zs where c: "chain l zs" and cs: "cs = map (val l) zs" using assms by (auto simp: contents_def)
  show ?thesis
  proof (cases zs rule: rev_cases)
    case Nil
    with c cs chain_tail [OF c] show ?thesis by (simp add: linked_list_remove_def)
  next
    case (snoc xs x)
    with c have c': "chain l (xs @ x # [])" by simp
    obtain l' where l': "unlink_element True x l = Some l'" "chain l' xs" "map (val l') xs = map (val l) xs"
      "dealloced l' = dealloced l"
      using unlink_spec [OF c', of True] by auto
    obtain e where e: "elements l x = Some e" "le_prev e = ends None xs" using chain_parts [OF c'] by metis
    have nx: "le_next e = None" using c' e(1) by (auto simp: chain_def dseg_append)
    have "linked_list_remove (Some l) True = Some (eLINKED_LIST_SUCCESS, Some (data_ptr e), Some l')"
    proof (cases "le_prev e")
      case None
      with l'(1) e(1) nx chain_tail [OF c'] show ?thesis by (simp add: linked_list_remove_def unlink_element_def)
    next
      case (Some p)
      moreover have "p \<noteq> x" using Some e(2) c' by (auto simp: ends_def chain_def split: if_splits)
      ultimately show ?thesis using l'(1) e(1) nx chain_tail [OF c']
        by (cases "elements l p") (auto simp: linked_list_remove_def unlink_element_def)
    qed
    moreover have "contents l' (butlast cs)" using l' snoc unfolding contents_def cs by (auto simp: butlast_append)
    moreover have "fst (last cs) = data_ptr e" using e(1) snoc unfolding cs by (simp add: val_def)
    ultimately show ?thesis using l'(4) snoc cs by simp
  qed
qed

lemma flush_loop_spec:
  assumes "dseg (elements l) pr (p_head l) xs None" and "distinct xs"
  shows "flush_loop l = Some (l\<lparr>dealloced := dealloced l @ map fst (filter snd (map (val l) xs)),
    elements := (\<lambda>a. if a \<in> set xs then None else elements l a), p_head := None\<rparr>)"
  using assms
proof (induction xs arbitrary: l pr)
  case Nil
  then show ?case by (simp add: flush_loop.simps)
next
  case (Cons x xs)
  then obtain e where e: "p_head l = Some x" "elements l x = Some e" "dseg (elements l) (Some x) (le_next e) xs None"
    by (auto split: option.splits)
  define m where "m = l\<lparr>dealloced := dealloced l @ (if dealloc_func e then [data_ptr e] else []), elements := (elements l)(x := None),
    p_head := le_next e\<rparr>"
  have x: "x \<notin> set xs" "distinct xs" using Cons.prems by simp_all
  then have "dseg (elements m) (Some x) (p_head m) xs None" using e(3) by (simp add: dseg_frame m_def)
  from Cons.IH [OF this x(2)] have ih: "flush_loop m = Some (m\<lparr>dealloced := dealloced m @ map fst (filter snd (map (val m) xs)),
    elements := (\<lambda>a. if a \<in> set xs then None else elements m a), p_head := None\<rparr>)" .
  have vals: "map (val m) xs = map (val l) xs" "val l x = (data_ptr e, dealloc_func e)"
    using x(1) e(2) by (auto simp: val_def m_def)
  have els: "(\<lambda>a. if a \<in> set xs then None else elements m a) = (\<lambda>a. if a \<in> set (x # xs) then None else elements l a)"
    by (auto simp: m_def)
  have "flush_loop l = flush_loop m" using e unfolding m_def by (subst flush_loop.simps) simp
  then show ?case unfolding ih vals(1) els using vals(2) by (simp add: m_def)
qed

lemma flush_spec:
  assumes "contents l cs"
  shows "\<exists>l'. linked_list_flush (Some l) = Some (eLINKED_LIST_SUCCESS, Some l') \<and> contents l' [] \<and>
    dealloced l' = dealloced l @ map fst (filter snd cs)"
proof -
  obtain xs where c: "chain l xs" and cs: "cs = map (val l) xs" using assms by (auto simp: contents_def)
  have "dseg (elements l) None (p_head l) xs None" "distinct xs" using c by (simp_all add: chain_def)
  from flush_loop_spec [OF this] have r: "linked_list_flush (Some l) = Some (eLINKED_LIST_SUCCESS, Some (l\<lparr>dealloced := dealloced l @ map fst (filter snd cs),
    elements := (\<lambda>a. if a \<in> set xs then None else elements l a), p_head := None, p_tail := None\<rparr>))"
    unfolding cs by (simp add: linked_list_flush_def)
  have "(\<lambda>a. if a \<in> set xs then None else elements l a) = Map.empty" using c by (auto simp: chain_def domIff fun_eq_iff)
  then show ?thesis using r contents_def by (auto simp: contents_def chain_def intro!: exI [of _ "[]"])
qed

lemma search_loop_spec:
  assumes "dseg (elements l) pr p xs None"
  shows "search_loop eq l p = Some (find (\<lambda>x. eq (fst (val l x))) xs)"
  using assms
proof (induction xs arbitrary: pr p)
  case Nil
  then show ?case by (simp add: search_loop.simps)
next
  case (Cons x xs)
  then obtain e where e: "p = Some x" "elements l x = Some e" "dseg (elements l) (Some x) (le_next e) xs None"
    by (auto split: option.splits)
  with Cons.IH [OF e(3)] show ?case by (subst search_loop.simps) (simp add: val_def)
qed

lemma search_spec:
  assumes "contents l cs"
  shows "\<exists>r. linked_list_search (Some l) b (Some eq) rm = Some r \<and>
    (case r of (err, out, l') \<Rightarrow>
       if cs = [] then err = eLINKED_LIST_UNAVAILABLE_RESOURCE \<and> out = None \<and> l' = Some l
       else err = eLINKED_LIST_SUCCESS \<and>
         (case find (\<lambda>c. eq (fst c)) cs of
            None \<Rightarrow> out = (if b then Some 0 else None) \<and> l' = Some l
          | Some c \<Rightarrow> out = (if b then Some (fst c) else None) \<and>
              (\<exists>m. l' = Some m \<and> contents m (if rm then remove1 c cs else cs) \<and>
                 dealloced m = dealloced l @ (if rm \<and> \<not> b \<and> snd c then [fst c] else []))))"
proof -
  obtain zs where c: "chain l zs" and cs: "cs = map (val l) zs" using assms by (auto simp: contents_def)
  let ?p = "\<lambda>x. eq (fst (val l x))"
  have sl: "search_loop eq l (p_head l) = Some (find ?p zs)"
    using search_loop_spec [of l None "p_head l" zs eq] c by (simp add: chain_def)
  have tail: "p_tail l = None \<longleftrightarrow> zs = []" using chain_tail [OF c] by (simp add: ends_def)
  have fm: "find (\<lambda>c. eq (fst c)) cs = map_option (val l) (find ?p zs)" unfolding cs by (induction zs) auto
  show ?thesis
  proof (cases "find ?p zs")
    case None
    with sl tail fm cs show ?thesis by (auto simp: linked_list_search_def)
  next
    case (Some x)
    then obtain xs ys where zs: "zs = xs @ x # ys" and x: "?p x" "\<And>y. y \<in> set xs \<Longrightarrow> \<not> ?p y"
      unfolding find_Some_iff by (metis (no_types, lifting) id_take_nth_drop in_set_conv_nth length_take min.absorb4 nth_take)
    obtain e where e: "elements l x = Some e" using chain_mem [OF c] zs by auto
    have vx: "fst (val l x) = data_ptr e" using e by (simp add: val_def)
    have "remove1 (val l x) cs = map (val l) (xs @ ys)"
      using x unfolding cs zs by (auto simp: remove1_append)
    moreover obtain l' where "unlink_element b x l = Some l'" "chain l' (xs @ ys)" "map (val l') (xs @ ys) = map (val l) (xs @ ys)"
      "dealloced l' = dealloced l @ (if \<not> b \<and> snd (val l x) then [fst (val l x)] else [])"
      using unlink_spec [of l xs x ys b] c zs by auto
    moreover have "zs \<noteq> []" "cs \<noteq> []" using zs cs by auto
    ultimately show ?thesis using sl tail fm Some e vx assms
      by (auto simp: linked_list_search_def contents_def)
  qed
qed

section \<open>The list as a sequence\<close>

text \<open>Calls on a list, and what the caller sees of each: the result and what is written to its parameter.\<close>

datatype ll_op =
    LAdd nat bool bool
  | LRemove bool
  | LFlush
  | LSearch bool "nat \<Rightarrow> bool" bool

fun ll_call :: "ll_op \<Rightarrow> list_state option \<Rightarrow> (ll_err \<times> nat option \<times> list_state option) option" where
  "ll_call (LAdd d f ok) h = map_option (\<lambda>(err, h'). (err, None, h')) (linked_list_add h d f ok)"
| "ll_call (LRemove b) h = linked_list_remove h b"
| "ll_call LFlush h = map_option (\<lambda>(err, h'). (err, None, h')) (linked_list_flush h)"
| "ll_call (LSearch b eq rm) h = linked_list_search h b (Some eq) rm"

fun ll_run :: "ll_op list \<Rightarrow> list_state option \<Rightarrow> ((ll_err \<times> nat option) list \<times> list_state option) option" where
  "ll_run [] h = Some ([], h)"
| "ll_run (c # cs) h =
     do { (err, out, h1) \<leftarrow> ll_call c h;
          (outs, h2) \<leftarrow> ll_run cs h1;
          Some ((err, out) # outs, h2) }"

text \<open>The same on a sequence of data objects, the newest first, with the objects deallocated so far.\<close>

type_synonym seq = "(nat \<times> bool) list \<times> nat list"

fun seq_call :: "ll_op \<Rightarrow> seq \<Rightarrow> ll_err \<times> nat option \<times> seq" where
  "seq_call (LAdd d f ok) (cs, del) =
     (if d = 0 then (eLINKED_LIST_INVALID_PARAMETER, None, cs, del)
      else if \<not> ok then (eLINKED_LIST_FAILURE_GENERAL, None, cs, del)
      else (eLINKED_LIST_SUCCESS, None, (d, f) # cs, del))"
| "seq_call (LRemove b) (cs, del) =
     (if \<not> b then (eLINKED_LIST_INVALID_PARAMETER, None, cs, del)
      else if cs = [] then (eLINKED_LIST_UNAVAILABLE_RESOURCE, None, cs, del)
      else (eLINKED_LIST_SUCCESS, Some (fst (last cs)), butlast cs, del))"
| "seq_call LFlush (cs, del) = (eLINKED_LIST_SUCCESS, None, [], del @ map fst (filter snd cs))"
| "seq_call (LSearch b eq rm) (cs, del) =
     (if cs = [] then (eLINKED_LIST_UNAVAILABLE_RESOURCE, None, cs, del)
      else case find (\<lambda>c. eq (fst c)) cs of
             None \<Rightarrow> (eLINKED_LIST_SUCCESS, if b then Some 0 else None, cs, del)
           | Some c \<Rightarrow> (eLINKED_LIST_SUCCESS, if b then Some (fst c) else None, if rm then remove1 c cs else cs,
                        del @ (if rm \<and> \<not> b \<and> snd c then [fst c] else [])))"

fun seq_run :: "ll_op list \<Rightarrow> seq \<Rightarrow> (ll_err \<times> nat option) list \<times> seq" where
  "seq_run [] s = ([], s)"
| "seq_run (c # cs) s = (let (err, out, s1) = seq_call c s; (outs, s2) = seq_run cs s1 in ((err, out) # outs, s2))"

definition holds_seq :: "list_state option \<Rightarrow> seq \<Rightarrow> bool" where
  "holds_seq h s \<longleftrightarrow> (\<exists>l. h = Some l \<and> contents l (fst s) \<and> dealloced l = snd s)"

lemma call_refines:
  assumes "holds_seq h s"
  shows "\<exists>err out h'. ll_call c h = Some (err, out, h') \<and> (err, out) = (fst (seq_call c s), fst (snd (seq_call c s))) \<and>
    holds_seq h' (snd (snd (seq_call c s)))"
proof -
  obtain l cs del where h: "h = Some l" "s = (cs, del)" "contents l cs" "dealloced l = del"
    using assms by (cases s) (auto simp: holds_seq_def)
  show ?thesis
  proof (cases c)
    case (LAdd d f ok)
    show ?thesis
    proof (cases "d \<noteq> 0 \<and> ok")
      case True
      with add_spec [OF h(3), of d f] h LAdd show ?thesis by (auto simp: holds_seq_def)
    next
      case False
      with h LAdd show ?thesis by (auto simp: holds_seq_def linked_list_add_def)
    qed
  next
    case (LRemove b)
    show ?thesis
    proof (cases b)
      case True
      with remove_spec [OF h(3)] h LRemove show ?thesis by (auto simp: holds_seq_def split: if_splits)
    next
      case False
      with h LRemove show ?thesis by (auto simp: holds_seq_def linked_list_remove_def)
    qed
  next
    case LFlush
    with flush_spec [OF h(3)] h show ?thesis by (auto simp: holds_seq_def)
  next
    case (LSearch b eq rm)
    obtain r where r: "linked_list_search (Some l) b (Some eq) rm = Some r"
      "case r of (err, out, l') \<Rightarrow>
       if cs = [] then err = eLINKED_LIST_UNAVAILABLE_RESOURCE \<and> out = None \<and> l' = Some l
       else err = eLINKED_LIST_SUCCESS \<and>
         (case find (\<lambda>c. eq (fst c)) cs of
            None \<Rightarrow> out = (if b then Some 0 else None) \<and> l' = Some l
          | Some c \<Rightarrow> out = (if b then Some (fst c) else None) \<and>
              (\<exists>m. l' = Some m \<and> contents m (if rm then remove1 c cs else cs) \<and>
                 dealloced m = dealloced l @ (if rm \<and> \<not> b \<and> snd c then [fst c] else [])))"
      using search_spec [OF h(3), of b eq rm] by blast
    obtain err out l' where r3: "r = (err, out, l')" by (cases r) auto
    show ?thesis
    proof (cases "cs = [] \<or> find (\<lambda>c. eq (fst c)) cs = None")
      case True
      with r r3 h LSearch show ?thesis by (auto simp: holds_seq_def split: if_splits)
    next
      case False
      with r r3 h LSearch show ?thesis by (auto simp: holds_seq_def)
    qed
  qed
qed

lemma run_refines:
  assumes "holds_seq h s"
  shows "\<exists>h'. ll_run cs h = Some (fst (seq_run cs s), h') \<and> holds_seq h' (snd (seq_run cs s))"
  using assms
proof (induction cs arbitrary: h s)
  case (Cons c cs)
  from call_refines [OF Cons.prems, of c] obtain h1 where
    c: "ll_call c h = Some (fst (seq_call c s), fst (snd (seq_call c s)), h1)" "holds_seq h1 (snd (snd (seq_call c s)))" by auto
  from Cons.IH [OF c(2)] c(1) show ?case by (auto simp: case_prod_unfold Let_def)
qed simp

lemma contents_count: "contents l cs \<Longrightarrow> card (dom (elements l)) = length cs \<and> (linked_list_empty (Some l) = 1 \<longleftrightarrow> cs = [])"
  by (auto simp: contents_def chain_def linked_list_empty_def distinct_card dest: dseg_start split: if_splits)

section \<open>Properties\<close>

text \<open>
  C21: Whatever is added, removed, searched and flushed on a new list, no pointer to freed memory
  is followed, every loop ends, and the caller sees a sequence: additions at one end, removals from
  the other, searches from the newest. Exactly the elements of the sequence are allocated, and an
  object is deallocated when it is flushed, or removed by a search that does not hand it out, if it
  came with a function for that.
\<close>

theorem linked_list_refines:
  "case seq_run cs ([], []) of (outs, seq, del) \<Rightarrow>
     \<exists>l. ll_run cs (snd (linked_list_init True)) = Some (outs, Some l) \<and> contents l seq \<and> dealloced l = del \<and>
       card (dom (elements l)) = length seq \<and> (linked_list_empty (Some l) = 1 \<longleftrightarrow> seq = [])"
proof -
  obtain outs sq del where r: "seq_run cs ([], []) = (outs, sq, del)" by (cases "seq_run cs ([], [])") auto
  have "holds_seq (snd (linked_list_init True)) ([], [])"
    by (simp add: linked_list_init_def holds_seq_def contents_init)
  from run_refines [OF this, of cs] r show ?thesis
    using contents_count by (auto simp: holds_seq_def)
qed

text \<open>
  A search in an empty list does not write the parameter, although the description of the function
  says it is NULL when nothing matches.
\<close>

lemma linked_list_search_empty:
  "contents l [] \<Longrightarrow> linked_list_search (Some l) True (Some eq) rm = Some (eLINKED_LIST_UNAVAILABLE_RESOURCE, None, Some l)"
  using search_spec [of l "[]" True eq rm] by auto

end
