(* ===== verification/MsgQueue.thy ===== *)
theory MsgQueue
  imports LinkedList
begin

text \<open>
  The message queue of the location stack (\<open>gps/utils/msg_q.c\<close>) and the task that runs on it
  (\<open>gps/utils/MsgTask.cpp\<close>): a list under a mutex, a condition variable for the receivers that wait,
  and a flag that ends the use of the queue. \<open>LocTimer\<close>, \<open>OsObserver\<close> and \<open>Agps\<close> post their messages
  through it.

  What runs under the mutex is one step. A receiver that waits gives the mutex up; a signal wakes one
  of those that wait, which one the schedule says, a broadcast all, and a receiver may wake for no
  reason. A woken receiver goes on when the schedule says. The results of the pthread calls that make
  the mutex and the condition variable are arguments, those that use them succeed.
\<close>

section \<open>The queue\<close>

datatype q_err =
    eMSG_Q_SUCCESS | eMSG_Q_FAILURE_GENERAL | eMSG_Q_INVALID_PARAMETER
  | eMSG_Q_INVALID_HANDLE | eMSG_Q_UNAVAILABLE_RESOURCE | eMSG_Q_INSUFFICIENT_BUFFER

fun convert_linked_list_err_type :: "ll_err \<Rightarrow> q_err" where
  "convert_linked_list_err_type eLINKED_LIST_SUCCESS = eMSG_Q_SUCCESS"
| "convert_linked_list_err_type eLINKED_LIST_INVALID_PARAMETER = eMSG_Q_INVALID_PARAMETER"
| "convert_linked_list_err_type eLINKED_LIST_INVALID_HANDLE = eMSG_Q_INVALID_HANDLE"
| "convert_linked_list_err_type eLINKED_LIST_UNAVAILABLE_RESOURCE = eMSG_Q_UNAVAILABLE_RESOURCE"
| "convert_linked_list_err_type eLINKED_LIST_INSUFFICIENT_BUFFER = eMSG_Q_INSUFFICIENT_BUFFER"
| "convert_linked_list_err_type eLINKED_LIST_FAILURE_GENERAL = eMSG_Q_FAILURE_GENERAL"

record msg_q =
  msg_list :: "list_state option"
  unblocked :: bool

definition msg_q_init :: "bool \<Rightarrow> bool \<Rightarrow> bool \<Rightarrow> bool \<Rightarrow> q_err \<times> msg_q option" where
  "msg_q_init calloc_ok list_calloc_ok mutex_ok cond_ok =
     (if \<not> calloc_ok then (eMSG_Q_FAILURE_GENERAL, None)
      else case linked_list_init list_calloc_ok of (err, l) \<Rightarrow>
             if err \<noteq> eLINKED_LIST_SUCCESS then (eMSG_Q_FAILURE_GENERAL, None)
             else if \<not> mutex_ok then (eMSG_Q_FAILURE_GENERAL, None)
             else if \<not> cond_ok then (eMSG_Q_FAILURE_GENERAL, None)
             else (eMSG_Q_SUCCESS, Some \<lparr>msg_list = l, unblocked = False\<rparr>))"

definition msg_q_init2 :: "bool \<Rightarrow> bool \<Rightarrow> bool \<Rightarrow> bool \<Rightarrow> msg_q option" where
  "msg_q_init2 c l m d = (case msg_q_init c l m d of (err, q) \<Rightarrow> if err = eMSG_Q_SUCCESS then q else None)"

text \<open>The handle becomes NULL; the second result is what the list deallocated.\<close>

definition msg_q_destroy :: "msg_q \<Rightarrow> (q_err \<times> nat list) option" where
  "msg_q_destroy q = do { (err, del) \<leftarrow> linked_list_destroy (msg_list q); Some (eMSG_Q_SUCCESS, del) }"

text \<open>The second result is whether the condition variable is signalled.\<close>

definition msg_q_snd :: "msg_q option \<Rightarrow> nat \<Rightarrow> bool \<Rightarrow> bool \<Rightarrow> (q_err \<times> bool \<times> msg_q option) option" where
  "msg_q_snd msg_q_data msg_obj dealloc malloc_ok =
     (case msg_q_data of
        None \<Rightarrow> Some (eMSG_Q_INVALID_HANDLE, False, None)
      | Some q \<Rightarrow>
          if msg_obj = 0 then Some (eMSG_Q_INVALID_PARAMETER, False, Some q)
          else if unblocked q then Some (eMSG_Q_UNAVAILABLE_RESOURCE, False, Some q)
          else do { (err, l) \<leftarrow> linked_list_add (msg_list q) msg_obj dealloc malloc_ok;
                    Some (convert_linked_list_err_type err, True, Some (q\<lparr>msg_list := l\<rparr>)) })"

text \<open>The test of the loop with what follows it: the receiver waits (\<open>Inl\<close>), or it has its result.\<close>

type_synonym rcv_result = "q_err \<times> nat option \<times> msg_q option"

definition rcv_loop :: "msg_q \<Rightarrow> (unit + rcv_result) option" where
  "rcv_loop q =
     (if linked_list_empty (msg_list q) \<noteq> 0 \<and> \<not> unblocked q then Some (Inl ())
      else do { (err, out, l) \<leftarrow> linked_list_remove (msg_list q) True;
                Some (Inr (convert_linked_list_err_type err, out, Some (q\<lparr>msg_list := l\<rparr>))) })"

definition msg_q_rcv :: "msg_q option \<Rightarrow> bool \<Rightarrow> (unit + rcv_result) option" where
  "msg_q_rcv msg_q_data has_param =
     (case msg_q_data of
        None \<Rightarrow> Some (Inr (eMSG_Q_INVALID_HANDLE, None, None))
      | Some q \<Rightarrow>
          if \<not> has_param then Some (Inr (eMSG_Q_INVALID_PARAMETER, None, Some q))
          else if unblocked q then Some (Inr (eMSG_Q_UNAVAILABLE_RESOURCE, None, Some q))
          else rcv_loop q)"

definition msg_q_flush :: "msg_q option \<Rightarrow> (q_err \<times> msg_q option) option" where
  "msg_q_flush msg_q_data =
     (case msg_q_data of
        None \<Rightarrow> Some (eMSG_Q_INVALID_HANDLE, None)
      | Some q \<Rightarrow> do { (err, l) \<leftarrow> linked_list_flush (msg_list q);
                      Some (convert_linked_list_err_type err, Some (q\<lparr>msg_list := l\<rparr>)) })"

text \<open>The second result is whether all that wait are woken.\<close>

definition msg_q_unblock :: "msg_q option \<Rightarrow> q_err \<times> bool \<times> msg_q option" where
  "msg_q_unblock msg_q_data =
     (case msg_q_data of
        None \<Rightarrow> (eMSG_Q_INVALID_HANDLE, False, None)
      | Some q \<Rightarrow>
          if unblocked q then (eMSG_Q_UNAVAILABLE_RESOURCE, False, Some q)
          else (eMSG_Q_SUCCESS, True, Some (q\<lparr>unblocked := True\<rparr>)))"

section \<open>Threads\<close>

text \<open>
  The queue with its receivers: those that wait on the condition variable and those that were woken.
  For the statements, \<open>accepted\<close> are the messages that were queued, \<open>gone\<close> those that left, each with
  whether a flush took it, and \<open>results\<close> what each call of a receiver returned.
\<close>

record mq_sys =
  the_q :: "msg_q option"
  waiting :: "nat list"
  woken :: "nat list"
  accepted :: "nat list"
  gone :: "(nat \<times> bool) list"
  results :: "(nat \<times> q_err \<times> nat option) list"

datatype mq_act =
    MSend nat bool bool nat
  | MReceive nat
  | MResume nat
  | MSpurious nat
  | MFlush
  | MUnblock

definition signal :: "nat \<Rightarrow> mq_sys \<Rightarrow> mq_sys" where
  "signal k s =
     (if waiting s = [] then s
      else let t = waiting s ! (k mod length (waiting s))
           in s\<lparr>waiting := remove1 t (waiting s), woken := woken s @ [t]\<rparr>)"

definition broadcast :: "mq_sys \<Rightarrow> mq_sys" where
  "broadcast s = s\<lparr>waiting := [], woken := woken s @ waiting s\<rparr>"

definition received :: "nat \<Rightarrow> unit + rcv_result \<Rightarrow> mq_sys \<Rightarrow> mq_sys" where
  "received t r s =
     (case r of
        Inl _ \<Rightarrow> s\<lparr>waiting := waiting s @ [t]\<rparr>
      | Inr (err, out, q) \<Rightarrow>
          s\<lparr>the_q := q, results := results s @ [(t, err, out)],
            gone := gone s @ (case out of None \<Rightarrow> [] | Some m \<Rightarrow> [(m, False)])\<rparr>)"

fun mq_step :: "mq_act \<Rightarrow> mq_sys \<Rightarrow> mq_sys option" where
  "mq_step (MSend m f ok k) s =
     do { (err, sig, q) \<leftarrow> msg_q_snd (the_q s) m f ok;
          let s1 = s\<lparr>the_q := q, accepted := accepted s @ (if err = eMSG_Q_SUCCESS then [m] else [])\<rparr>;
          Some (if sig then signal k s1 else s1) }"
| "mq_step (MReceive t) s =
     (if t \<in> set (waiting s) \<union> set (woken s) then Some s
      else do { r \<leftarrow> msg_q_rcv (the_q s) True; Some (received t r s) })"
| "mq_step (MResume t) s =
     (if t \<notin> set (woken s) then Some s
      else case the_q s of
             None \<Rightarrow> None
           | Some q \<Rightarrow> do { r \<leftarrow> rcv_loop q; Some (received t r (s\<lparr>woken := remove1 t (woken s)\<rparr>)) })"
| "mq_step (MSpurious t) s =
     Some (if t \<in> set (waiting s) then s\<lparr>waiting := remove1 t (waiting s), woken := woken s @ [t]\<rparr> else s)"
| "mq_step MFlush s =
     do { (err, q) \<leftarrow> msg_q_flush (the_q s);
          Some (s\<lparr>the_q := q, gone := gone s @ map (\<lambda>m. (m, True)) (drop (length (gone s)) (accepted s))\<rparr>) }"
| "mq_step MUnblock s =
     (case msg_q_unblock (the_q s) of (err, all, q) \<Rightarrow>
        let s1 = s\<lparr>the_q := q\<rparr> in Some (if all then broadcast s1 else s1))"

fun mq_run :: "mq_act list \<Rightarrow> mq_sys \<Rightarrow> mq_sys option" where
  "mq_run [] s = Some s"
| "mq_run (a # as) s = do { s1 \<leftarrow> mq_step a s; mq_run as s1 }"

definition new_mq :: mq_sys where
  "new_mq = \<lparr>the_q = snd (msg_q_init True True True True), waiting = [], woken = [], accepted = [], gone = [], results = []\<rparr>"

section \<open>The invariant\<close>

definition handed_out :: "mq_sys \<Rightarrow> nat list" where
  "handed_out s = concat (map (\<lambda>(t, err, out). case out of None \<Rightarrow> [] | Some m \<Rightarrow> [m]) (results s))"

text \<open>While anybody waits, as many receivers are awake as messages are pending, but for \<open>k\<close>.\<close>

definition mq_inv :: "nat \<Rightarrow> mq_sys \<Rightarrow> msg_q \<Rightarrow> list_state \<Rightarrow> (nat \<times> bool) list \<Rightarrow> bool" where
  "mq_inv k s q l cs \<longleftrightarrow>
     the_q s = Some q \<and> msg_list q = Some l \<and> contents l cs \<and>
     accepted s = map fst (gone s) @ rev (map fst cs) \<and>
     handed_out s = map fst (filter (\<lambda>g. \<not> snd g) (gone s)) \<and>
     distinct (waiting s @ woken s) \<and>
     (waiting s = [] \<or> \<not> unblocked q \<and> length cs \<le> length (woken s) + k)"

definition mq_ok :: "mq_sys \<Rightarrow> bool" where
  "mq_ok s \<longleftrightarrow> (\<exists>q l cs. mq_inv 0 s q l cs)"

lemma mq_okI: "mq_inv 0 s q l cs \<Longrightarrow> mq_ok s"
  by (auto simp: mq_ok_def)

lemma mq_ok_same [simp]: "the_q s = Some q \<Longrightarrow> mq_ok (s\<lparr>the_q := Some q\<rparr>) = mq_ok s"
  by (rule arg_cong [of _ s mq_ok]) simp

lemma signal_fields [simp]:
  "the_q (signal k s) = the_q s" "accepted (signal k s) = accepted s" "gone (signal k s) = gone s"
  "handed_out (signal k s) = handed_out s"
  by (simp_all add: signal_def Let_def handed_out_def)

lemma signal_threads:
  assumes "distinct (waiting s @ woken s)"
  shows "distinct (waiting (signal k s) @ woken (signal k s))"
    and "waiting s \<noteq> [] \<Longrightarrow> length (woken (signal k s)) = Suc (length (woken s))"
    and "waiting s = [] \<Longrightarrow> signal k s = s"
proof -
  have "waiting s ! (k mod length (waiting s)) \<in> set (waiting s)" if "waiting s \<noteq> []" using that by simp
  then have "waiting s ! (k mod length (waiting s)) \<notin> set (woken s)" if "waiting s \<noteq> []" using assms that
    by (metis Int_iff distinct_append empty_iff)
  then show "distinct (waiting (signal k s) @ woken (signal k s))"
    using assms by (auto simp: signal_def Let_def)
qed (simp_all add: signal_def Let_def)

lemma new_mq_ok: "mq_ok new_mq"
  unfolding mq_ok_def mq_inv_def new_mq_def msg_q_init_def linked_list_init_def handed_out_def
  using contents_init by simp

text \<open>A receiver that leaves the loop takes the oldest message, or nothing after the queue was unblocked.\<close>

lemma rcv_loop_spec:
  assumes "msg_list q = Some l" and "contents l cs"
  shows "(if cs = [] \<and> \<not> unblocked q then rcv_loop q = Some (Inl ())
    else if cs = [] then rcv_loop q = Some (Inr (eMSG_Q_UNAVAILABLE_RESOURCE, None, Some q))
    else \<exists>l'. rcv_loop q = Some (Inr (eMSG_Q_SUCCESS, Some (fst (last cs)), Some (q\<lparr>msg_list := Some l'\<rparr>))) \<and>
      contents l' (butlast cs) \<and> dealloced l' = dealloced l)"
proof -
  have e: "linked_list_empty (Some l) \<noteq> 0 \<longleftrightarrow> cs = []"
    using contents_count [OF assms(2)] by (auto simp: linked_list_empty_def split: if_splits)
  have "q\<lparr>msg_list := Some l\<rparr> = q" using assms(1) by simp
  with e remove_spec [OF assms(2)] assms(1) show ?thesis by (auto simp: rcv_loop_def split: if_splits)
qed

lemma handed_out_snoc [simp]:
  "handed_out (s\<lparr>results := r @ [(t, err, out)]\<rparr>) = handed_out (s\<lparr>results := r\<rparr>) @ (case out of None \<Rightarrow> [] | Some m \<Rightarrow> [m])"
  "handed_out (s\<lparr>the_q := q, results := r @ [(t, err, out)]\<rparr>) =
    handed_out (s\<lparr>results := r\<rparr>) @ (case out of None \<Rightarrow> [] | Some m \<Rightarrow> [m])"
  "handed_out (s\<lparr>the_q := q, results := r @ [(t, err, out)], gone := g\<rparr>) =
    handed_out (s\<lparr>results := r\<rparr>) @ (case out of None \<Rightarrow> [] | Some m \<Rightarrow> [m])"
  "handed_out (s\<lparr>results := results s\<rparr>) = handed_out s"
  "handed_out (s\<lparr>the_q := q\<rparr>) = handed_out s" "handed_out (s\<lparr>waiting := w\<rparr>) = handed_out s"
  "handed_out (s\<lparr>woken := w\<rparr>) = handed_out s" "handed_out (s\<lparr>gone := g\<rparr>) = handed_out s"
  "handed_out (s\<lparr>accepted := a\<rparr>) = handed_out s"
  by (simp_all add: handed_out_def)

text \<open>The loop of a receiver that is not among the waiting and the woken ones.\<close>

lemma loop_ok:
  assumes "mq_inv 1 s q l cs" and "t \<notin> set (waiting s) \<union> set (woken s)"
  shows "\<exists>r. rcv_loop q = Some r \<and> mq_ok (received t r s)"
proof -
  have q: "the_q s = Some q" "msg_list q = Some l" "contents l cs" using assms(1) by (simp_all add: mq_inv_def)
  note loop = rcv_loop_spec [OF q(2,3)]
  consider (wait) "cs = []" "\<not> unblocked q" | (ended) "cs = []" "unblocked q" | (take) "cs \<noteq> []" by blast
  then show ?thesis
  proof cases
    case wait
    then have "mq_inv 0 (received t (Inl ()) s) q l cs" using assms by (simp add: mq_inv_def received_def)
    with wait loop show ?thesis by (auto intro: mq_okI)
  next
    case ended
    then have "mq_inv 0 (received t (Inr (eMSG_Q_UNAVAILABLE_RESOURCE, None, Some q)) s) q l cs"
      using assms by (simp add: mq_inv_def received_def)
    with ended loop show ?thesis by (auto intro: mq_okI)
  next
    case take
    then obtain c cs' where cs: "cs = cs' @ [c]" by (cases cs rule: rev_cases) auto
    from take loop obtain l' where l': "rcv_loop q = Some (Inr (eMSG_Q_SUCCESS, Some (fst (last cs)), Some (q\<lparr>msg_list := Some l'\<rparr>)))"
      "contents l' (butlast cs)" by auto
    have "mq_inv 0 (received t (Inr (eMSG_Q_SUCCESS, Some (fst (last cs)), Some (q\<lparr>msg_list := Some l'\<rparr>))) s)
        (q\<lparr>msg_list := Some l'\<rparr>) l' (butlast cs)"
      using assms l'(2) cs by (auto simp: mq_inv_def received_def)
    with l'(1) show ?thesis by (auto intro: mq_okI)
  qed
qed

lemma send_ok:
  assumes "mq_inv 0 s q l cs"
  shows "\<exists>s'. mq_step (MSend m f ok k) s = Some s' \<and> mq_ok s'"
proof -
  have q: "the_q s = Some q" "msg_list q = Some l" "contents l cs" using assms by (simp_all add: mq_inv_def)
  have d: "distinct (waiting s @ woken s)" using assms by (simp add: mq_inv_def)
  have sig: "mq_ok (signal k s)"
    using assms signal_threads [OF d, of k] by (cases "waiting s = []") (auto simp: mq_inv_def intro!: mq_okI [of _ q l cs])
  consider (refused) "m = 0 \<or> unblocked q" | (nomem) "m \<noteq> 0" "\<not> unblocked q" "\<not> ok" | (queued) "m \<noteq> 0" "\<not> unblocked q" "ok" by blast
  then show ?thesis
  proof cases
    case refused
    with q mq_okI [OF assms] show ?thesis by (auto simp: msg_q_snd_def)
  next
    case nomem
    have "s = s\<lparr>the_q := Some (q\<lparr>msg_list := Some l\<rparr>)\<rparr>" using q by simp
    from sig [unfolded this [THEN arg_cong, of "signal k"]] nomem q show ?thesis
      by (simp add: msg_q_snd_def linked_list_add_def)
  next
    case queued
    from add_spec [OF q(3) queued(1), of f] obtain l' where
      l': "linked_list_add (Some l) m f True = Some (eLINKED_LIST_SUCCESS, Some l')" "contents l' ((m, f) # cs)" by auto
    let ?s = "s\<lparr>the_q := Some (q\<lparr>msg_list := Some l'\<rparr>), accepted := accepted s @ [m]\<rparr>"
    have "distinct (waiting ?s @ woken ?s)" using d by simp
    from signal_threads [OF this, of k] assms l'(2)
    have "mq_inv 0 (signal k ?s) (q\<lparr>msg_list := Some l'\<rparr>) l' ((m, f) # cs)"
      by (cases "waiting s = []") (auto simp: mq_inv_def)
    with queued q l'(1) show ?thesis by (auto simp: msg_q_snd_def intro: mq_okI)
  qed
qed

lemma flush_ok:
  assumes "mq_inv 0 s q l cs"
  shows "\<exists>s'. mq_step MFlush s = Some s' \<and> mq_ok s'"
proof -
  have q: "the_q s = Some q" "msg_list q = Some l" "contents l cs" "accepted s = map fst (gone s) @ rev (map fst cs)"
    using assms by (simp_all add: mq_inv_def)
  from flush_spec [OF q(3)] obtain l' where
    l': "linked_list_flush (Some l) = Some (eLINKED_LIST_SUCCESS, Some l')" "contents l' []" by auto
  have "mq_inv 0 (s\<lparr>the_q := Some (q\<lparr>msg_list := Some l'\<rparr>), gone := gone s @ map (\<lambda>m. (m, True)) (drop (length (gone s)) (accepted s))\<rparr>)
      (q\<lparr>msg_list := Some l'\<rparr>) l' []"
    using assms l'(2) by (auto simp: mq_inv_def comp_def filter_empty_conv)
  with q l'(1) show ?thesis by (auto simp: msg_q_flush_def intro: mq_okI)
qed

lemma mq_step_ok:
  assumes "mq_ok s"
  shows "\<exists>s'. mq_step a s = Some s' \<and> mq_ok s'"
proof -
  obtain q l cs where inv: "mq_inv 0 s q l cs" using assms by (auto simp: mq_ok_def)
  then have q: "the_q s = Some q" by (simp add: mq_inv_def)
  show ?thesis
  proof (cases a)
    case (MSend m f ok k)
    with send_ok [OF inv] show ?thesis by simp
  next
    case (MReceive t)
    show ?thesis
    proof (cases "t \<in> set (waiting s) \<union> set (woken s)")
      case True
      with MReceive assms show ?thesis by simp
    next
      case new: False
      show ?thesis
      proof (cases "unblocked q")
        case True
        then have "mq_inv 0 (received t (Inr (eMSG_Q_UNAVAILABLE_RESOURCE, None, Some q)) s) q l cs"
          using inv by (simp add: mq_inv_def received_def)
        with MReceive new True q show ?thesis by (auto simp: msg_q_rcv_def intro: mq_okI)
      next
        case False
        have "mq_inv 1 s q l cs" using inv by (auto simp: mq_inv_def)
        from loop_ok [OF this new] MReceive new False q show ?thesis by (auto simp: msg_q_rcv_def)
      qed
    qed
  next
    case (MResume t)
    show ?thesis
    proof (cases "t \<in> set (woken s)")
      case True
      have "distinct (woken s)" "t \<notin> set (waiting s)" using inv True by (auto simp: mq_inv_def)
      then have new: "t \<notin> set (waiting s) \<union> set (remove1 t (woken s))" by simp
      have "mq_inv 1 (s\<lparr>woken := remove1 t (woken s)\<rparr>) q l cs"
        using inv True by (auto simp: mq_inv_def length_remove1)
      from loop_ok [OF this, of t] new
      have "\<exists>r. rcv_loop q = Some r \<and> mq_ok (received t r (s\<lparr>woken := remove1 t (woken s)\<rparr>))" by simp
      with MResume True q show ?thesis by auto
    qed (use MResume assms in simp)
  next
    case (MSpurious t)
    show ?thesis
    proof (cases "t \<in> set (waiting s)")
      case True
      then have "mq_inv 0 (s\<lparr>waiting := remove1 t (waiting s), woken := woken s @ [t]\<rparr>) q l cs"
        using inv by (auto simp: mq_inv_def)
      with MSpurious True show ?thesis by (auto intro: mq_okI)
    qed (use MSpurious assms in simp)
  next
    case MFlush
    with flush_ok [OF inv] show ?thesis by simp
  next
    case MUnblock
    have "mq_inv 0 (broadcast (s\<lparr>the_q := Some (q\<lparr>unblocked := True\<rparr>)\<rparr>)) (q\<lparr>unblocked := True\<rparr>) l cs"
      using inv by (auto simp: mq_inv_def broadcast_def handed_out_def)
    then show ?thesis using MUnblock q assms by (auto simp: msg_q_unblock_def intro: mq_okI)
  qed
qed

lemma mq_run_ok: "mq_ok s \<Longrightarrow> \<exists>s'. mq_run as s = Some s' \<and> mq_ok s'"
proof (induction "as" arbitrary: s)
  case (Cons a "as")
  from mq_step_ok [OF Cons.prems, of a] obtain s1 where "mq_step a s = Some s1" "mq_ok s1" by blast
  with Cons.IH show ?case by simp
qed simp

lemma mq_run_append: "mq_run (as @ bs) s = do { s1 \<leftarrow> mq_run as s; mq_run bs s1 }"
  by (induction "as" arbitrary: s) (auto split: bind_split)

section \<open>Receivers that were woken\<close>

lemma resume_fields:
  assumes "mq_ok s" and "t \<in> set (woken s)"
  shows "\<exists>s'. mq_step (MResume t) s = Some s' \<and> mq_ok s' \<and> woken s' = remove1 t (woken s)"
proof -
  from mq_step_ok [OF assms(1), of "MResume t"] obtain s' where s': "mq_step (MResume t) s = Some s'" "mq_ok s'" by blast
  moreover from s'(1) assms(2) have "woken s' = remove1 t (woken s)"
    by (auto simp: received_def split: option.splits bind_splits sum.splits)
  ultimately show ?thesis by blast
qed

lemma resume_all:
  assumes "mq_ok s" and "mset ts = mset (woken s)"
  shows "\<exists>s'. mq_run (map MResume ts) s = Some s' \<and> mq_ok s' \<and> woken s' = []"
  using assms
proof (induction ts arbitrary: s)
  case (Cons t ts)
  have "t \<in> set (woken s)" using mset_eq_setD [OF Cons.prems(2)] by auto
  from resume_fields [OF Cons.prems(1) this] obtain s1 where
    s1: "mq_step (MResume t) s = Some s1" "mq_ok s1" "woken s1 = remove1 t (woken s)" by blast
  from s1(3) Cons.prems(2) have "mset ts = mset (woken s1)" by (simp flip: Cons.prems(2))
  from Cons.IH [OF s1(2) this] s1(1) show ?case by simp
qed auto

text \<open>A woken receiver of an unblocked queue has its result at the next step.\<close>

lemma resume_unblocked:
  assumes "mq_ok s" and "the_q s = Some q" and "unblocked q" and "t \<in> set (woken s)"
  shows "\<exists>s' q'. mq_step (MResume t) s = Some s' \<and> mq_ok s' \<and> woken s' = remove1 t (woken s) \<and>
    map fst (results s') = map fst (results s) @ [t] \<and> the_q s' = Some q' \<and> unblocked q'"
proof -
  obtain l cs where inv: "mq_inv 0 s q l cs" using assms(1,2) by (auto simp: mq_ok_def mq_inv_def)
  then have l: "msg_list q = Some l" "contents l cs" by (simp_all add: mq_inv_def)
  from resume_fields [OF assms(1,4)] obtain s' where
    s': "mq_step (MResume t) s = Some s'" "mq_ok s'" "woken s' = remove1 t (woken s)" by blast
  from rcv_loop_spec [OF l] assms(3) obtain err out q' where "rcv_loop q = Some (Inr (err, out, Some q'))" "unblocked q'"
    by (auto split: if_splits)
  with s' assms(2,4) show ?thesis by (auto simp: received_def)
qed

lemma resume_all_unblocked:
  assumes "mq_ok s" and "the_q s = Some q" and "unblocked q" and "mset ts = mset (woken s)"
  shows "\<exists>s' q'. mq_run (map MResume ts) s = Some s' \<and> mq_ok s' \<and> woken s' = [] \<and>
    map fst (results s') = map fst (results s) @ ts \<and> the_q s' = Some q' \<and> unblocked q'"
  using assms
proof (induction ts arbitrary: s q)
  case (Cons t ts)
  have "t \<in> set (woken s)" using mset_eq_setD [OF Cons.prems(4)] by auto
  from resume_unblocked [OF Cons.prems(1-3) this] obtain s1 q1 where
    s1: "mq_step (MResume t) s = Some s1" "mq_ok s1" "woken s1 = remove1 t (woken s)"
      "map fst (results s1) = map fst (results s) @ [t]" "the_q s1 = Some q1" "unblocked q1" by blast
  from s1(3) Cons.prems(4) have "mset ts = mset (woken s1)" by (simp flip: Cons.prems(4))
  from Cons.IH [OF s1(2,5,6) this] s1(1,4) show ?case by auto
qed auto

lemma mq_ok_unblocked: "mq_ok s \<Longrightarrow> the_q s = Some q \<Longrightarrow> unblocked q \<Longrightarrow> waiting s = []"
  by (auto simp: mq_ok_def mq_inv_def)

lemma mq_ok_pending: "mq_ok s \<Longrightarrow> woken s = [] \<Longrightarrow> waiting s \<noteq> [] \<Longrightarrow> accepted s = map fst (gone s)"
  by (auto simp: mq_ok_def mq_inv_def)

lemma unblock_step:
  assumes "mq_ok s"
  shows "\<exists>s' q. mq_step MUnblock s = Some s' \<and> mq_ok s' \<and> the_q s' = Some q \<and> unblocked q"
proof -
  from mq_step_ok [OF assms, of MUnblock] obtain s' where "mq_step MUnblock s = Some s'" "mq_ok s'" by blast
  moreover from assms obtain q where "the_q s = Some q" by (auto simp: mq_ok_def mq_inv_def)
  ultimately show ?thesis by (auto simp: msg_q_unblock_def Let_def broadcast_def split: if_splits)
qed

section \<open>Properties\<close>

text \<open>
  Whatever the threads do with a new queue, in whatever order they are woken, no call faults; the
  messages that were accepted are those that left the queue, in that order, with those still in its
  list behind them, and what the receivers were handed is what left without a flush: each message
  goes to exactly one receiver, oldest first.
\<close>
theorem msg_q_delivers:
  "\<exists>s q l cs. mq_run acts new_mq = Some s \<and> the_q s = Some q \<and> msg_list q = Some l \<and> contents l cs \<and>
     accepted s = map fst (gone s) @ rev (map fst cs) \<and>
     handed_out s = map fst (filter (\<lambda>g. \<not> snd g) (gone s))"
  using mq_run_ok [OF new_mq_ok, of acts] by (auto simp: mq_ok_def mq_inv_def)

text \<open>
  C22: No wake-up is lost: at any point of any run, when each receiver that was woken has gone on, in
  whatever order, and a receiver still waits, then no message is pending - all that were accepted left.
\<close>
theorem msg_q_no_lost_wakeup:
  assumes "mq_run acts new_mq = Some s" and "mset ts = mset (woken s)"
  shows "\<exists>s'. mq_run (map MResume ts) s = Some s' \<and> woken s' = [] \<and>
    (waiting s' = [] \<or> accepted s' = map fst (gone s'))"
proof -
  from mq_run_ok [OF new_mq_ok, of acts] assms(1) have "mq_ok s" by simp
  from resume_all [OF this assms(2)] mq_ok_pending show ?thesis by blast
qed

lemma msg_q_no_lost_wakeup_witness:
  "\<exists>s s'. mq_run [MReceive 1, MReceive 2, MSend 7 True True 0] new_mq = Some s \<and> woken s = [1] \<and> waiting s = [2] \<and>
    mq_run (map MResume [1]) s = Some s' \<and> woken s' = [] \<and> (waiting s' = [] \<or> accepted s' = map fst (gone s'))"
proof -
  have "map_option (\<lambda>s. (woken s, waiting s)) (mq_run [MReceive 1, MReceive 2, MSend 7 True True 0] new_mq) = Some ([1], [2])"
    by code_simp
  then obtain s where s: "mq_run [MReceive 1, MReceive 2, MSend 7 True True 0] new_mq = Some s" "woken s = [1]" "waiting s = [2]"
    by auto
  then have "mset [1] = mset (woken s)" by simp
  from msg_q_no_lost_wakeup [OF s(1) this] s show ?thesis by blast
qed

text \<open>
  Unblocking the queue ends every wait: then no receiver waits, those that were woken return one
  after the other in whatever order they go on, each at its first step, and from then on a call of
  \<open>msg_q_rcv\<close> or \<open>msg_q_snd\<close> returns at once with UNAVAILABLE_RESOURCE and changes nothing.
\<close>
theorem msg_q_unblock_ends:
  assumes "mq_run (acts @ [MUnblock]) new_mq = Some s" and "mset ts = mset (woken s)" and "m \<noteq> 0"
  shows "waiting s = [] \<and> (\<exists>s' q. mq_run (map MResume ts) s = Some s' \<and> waiting s' = [] \<and> woken s' = [] \<and>
    map fst (results s') = map fst (results s) @ ts \<and> the_q s' = Some q \<and>
    msg_q_rcv (Some q) True = Some (Inr (eMSG_Q_UNAVAILABLE_RESOURCE, None, Some q)) \<and>
    msg_q_snd (Some q) m f ok = Some (eMSG_Q_UNAVAILABLE_RESOURCE, False, Some q))"
proof -
  from mq_run_ok [OF new_mq_ok, of acts] obtain s0 where s0: "mq_run acts new_mq = Some s0" "mq_ok s0" by blast
  from unblock_step [OF s0(2)] assms(1) s0(1) obtain q where
    q: "mq_ok s" "the_q s = Some q" "unblocked q" by (auto simp: mq_run_append)
  from resume_all_unblocked [OF q assms(2)] obtain s' q' where
    s': "mq_run (map MResume ts) s = Some s'" "mq_ok s'" "woken s' = []"
      "map fst (results s') = map fst (results s) @ ts" "the_q s' = Some q'" "unblocked q'" by blast
  from mq_ok_unblocked [OF q] mq_ok_unblocked [OF s'(2,5,6)] s' assms(3) show ?thesis
    by (auto simp: msg_q_rcv_def msg_q_snd_def)
qed

lemma msg_q_unblock_ends_witness:
  "\<exists>s. mq_run ([MReceive 1, MReceive 2, MSend 7 True True 1] @ [MUnblock]) new_mq = Some s \<and> woken s = [2, 1] \<and>
    waiting s = [] \<and> (\<exists>s' q. mq_run (map MResume [1, 2]) s = Some s' \<and> waiting s' = [] \<and> woken s' = [] \<and>
    map fst (results s') = map fst (results s) @ [1, 2] \<and> the_q s' = Some q \<and>
    msg_q_rcv (Some q) True = Some (Inr (eMSG_Q_UNAVAILABLE_RESOURCE, None, Some q)) \<and>
    msg_q_snd (Some q) 8 True True = Some (eMSG_Q_UNAVAILABLE_RESOURCE, False, Some q))"
proof -
  have "map_option woken (mq_run ([MReceive 1, MReceive 2, MSend 7 True True 1] @ [MUnblock]) new_mq) = Some [2, 1]"
    by code_simp
  then obtain s where s: "mq_run ([MReceive 1, MReceive 2, MSend 7 True True 1] @ [MUnblock]) new_mq = Some s" "woken s = [2, 1]"
    by auto
  then have "mset [1, 2] = mset (woken s)" by simp
  have "(8 :: nat) \<noteq> 0" by simp
  note ends = msg_q_unblock_ends [OF s(1) \<open>mset [1, 2] = mset (woken s)\<close> this]
  show ?thesis by (rule exI [of _ s], rule conjI [OF s(1)], rule conjI [OF s(2)], rule ends)
qed

end
