(* ===== verification/MsgTask.thy ===== *)
theory MsgTask
  imports MsgQueue
begin

text \<open>
  The message task (\<open>gps/utils/MsgTask.cpp\<close>): a thread whose \<open>run\<close> takes one message from its queue,
  processes it and deletes it. The adapters of the location stack, its timers and its observers hand
  their work to such a task.

  A message is a number, 0 is NULL; the queue is given \<open>LocMsgDestroy\<close> with each message. The state
  records which messages were sent, processed and deleted. \<open>run\<close> that would wait for a message does
  not take a step.
\<close>

section \<open>Operations\<close>

record msg_task =
  mQ :: "msg_q option"
  sent :: "nat list"
  processed :: "nat list"
  deleted :: "nat list"

text \<open>The result of \<open>msg_q_snd\<close> is not looked at.\<close>

definition sendMsg :: "nat \<Rightarrow> bool \<Rightarrow> msg_task \<Rightarrow> msg_task option" where
  "sendMsg msg malloc_ok t =
     (if msg \<noteq> 0
      then do { (err, sig, q) \<leftarrow> msg_q_snd (mQ t) msg True malloc_ok;
                Some (t\<lparr>mQ := q, sent := sent t @ [msg]\<rparr>) }
      else Some t)"

text \<open>\<open>Inl\<close>: it waits. \<open>Inr\<close>: what \<open>run\<close> returned, which says whether the loop of the thread goes on.\<close>

definition task_run :: "msg_task \<Rightarrow> (unit + bool \<times> msg_task) option" where
  "task_run t =
     do { r \<leftarrow> msg_q_rcv (mQ t) True;
          case r of
            Inl _ \<Rightarrow> Some (Inl ())
          | Inr (result, msg, q) \<Rightarrow>
              if result \<noteq> eMSG_Q_SUCCESS then Some (Inr (False, t\<lparr>mQ := q\<rparr>))
              else case msg of
                     None \<Rightarrow> None
                   | Some m \<Rightarrow> Some (Inr (True, t\<lparr>mQ := q, processed := processed t @ [m], deleted := deleted t @ [m]\<rparr>)) }"

text \<open>The part of \<open>destroy\<close> that is the queue's; the rest ends the thread, which then deletes the task.\<close>

definition task_unblock :: "msg_task \<Rightarrow> msg_task" where
  "task_unblock t = (case msg_q_unblock (mQ t) of (err, all, q) \<Rightarrow> t\<lparr>mQ := q\<rparr>)"

text \<open>The destructor: \<open>msg_q_flush\<close>, then \<open>msg_q_destroy\<close>. What the list deallocated is deleted.\<close>

definition task_destructor :: "msg_task \<Rightarrow> msg_task option" where
  "task_destructor t =
     do { (err, q) \<leftarrow> msg_q_flush (mQ t);
          case q of
            None \<Rightarrow> None
          | Some q \<Rightarrow> do { (err, del) \<leftarrow> msg_q_destroy q; Some (t\<lparr>mQ := None, deleted := deleted t @ del\<rparr>) } }"

datatype task_act = TSend nat bool | TRun | TUnblock

fun task_step :: "task_act \<Rightarrow> msg_task \<Rightarrow> msg_task option" where
  "task_step (TSend m ok) t = sendMsg m ok t"
| "task_step TRun t = do { r \<leftarrow> task_run t; Some (case r of Inl _ \<Rightarrow> t | Inr (b, t1) \<Rightarrow> t1) }"
| "task_step TUnblock t = Some (task_unblock t)"

fun task_steps :: "task_act list \<Rightarrow> msg_task \<Rightarrow> msg_task option" where
  "task_steps [] t = Some t"
| "task_steps (a # as) t = do { t1 \<leftarrow> task_step a t; task_steps as t1 }"

definition new_task :: msg_task where
  "new_task = \<lparr>mQ = msg_q_init2 True True True True, sent = [], processed = [], deleted = []\<rparr>"

section \<open>The contract\<close>

text \<open>
  What the queue took: the messages sent, NULL apart, while memory lasted and before the first
  unblock. Processing takes them one after the other as long as the queue is not unblocked.
\<close>

record task_spec =
  todo :: "nat list"
  done_so_far :: "nat list"
  ended :: bool

fun spec_step :: "task_act \<Rightarrow> task_spec \<Rightarrow> task_spec" where
  "spec_step (TSend m ok) a = (if m = 0 \<or> \<not> ok \<or> ended a then a else a\<lparr>todo := todo a @ [m]\<rparr>)"
| "spec_step TRun a =
     (if ended a \<or> todo a = [] then a else a\<lparr>todo := tl (todo a), done_so_far := done_so_far a @ [hd (todo a)]\<rparr>)"
| "spec_step TUnblock a = a\<lparr>ended := True\<rparr>"

definition spec_steps :: "task_act list \<Rightarrow> task_spec \<Rightarrow> task_spec" where
  "spec_steps as a = fold spec_step as a"

definition spec_init :: task_spec where
  "spec_init = \<lparr>todo = [], done_so_far = [], ended = False\<rparr>"

definition task_rel :: "msg_task \<Rightarrow> task_spec \<Rightarrow> bool" where
  "task_rel t a \<longleftrightarrow> (\<exists>q l cs. mQ t = Some q \<and> msg_list q = Some l \<and> contents l cs \<and> dealloced l = [] \<and>
     list_all snd cs \<and> todo a = rev (map fst cs) \<and> processed t = done_so_far a \<and> deleted t = done_so_far a \<and>
     unblocked q = ended a)"

lemma new_task_rel: "task_rel new_task spec_init"
  unfolding task_rel_def new_task_def spec_init_def msg_q_init2_def msg_q_init_def linked_list_init_def
  using contents_init by simp

lemma send_rel:
  assumes "task_rel t a"
  shows "\<exists>t'. task_step (TSend m ok) t = Some t' \<and> task_rel t' (spec_step (TSend m ok) a)"
proof -
  obtain q l cs where r: "mQ t = Some q" "msg_list q = Some l" "contents l cs" "dealloced l = []"
    "list_all snd cs" "todo a = rev (map fst cs)" "processed t = done_so_far a" "deleted t = done_so_far a"
    "unblocked q = ended a" using assms by (auto simp: task_rel_def)
  consider (null) "m = 0" | (ended) "m \<noteq> 0" "unblocked q" | (nomem) "m \<noteq> 0" "\<not> unblocked q" "\<not> ok"
    | (queued) "m \<noteq> 0" "\<not> unblocked q" "ok" by blast
  then show ?thesis
  proof cases
    case null
    with assms show ?thesis by (simp add: sendMsg_def)
  next
    case ended
    with r show ?thesis by (auto simp: sendMsg_def msg_q_snd_def task_rel_def)
  next
    case nomem
    with r show ?thesis by (auto simp: sendMsg_def msg_q_snd_def task_rel_def linked_list_add_def)
  next
    case queued
    from add_spec [OF r(3) queued(1), of True] obtain l' where
      "linked_list_add (Some l) m True True = Some (eLINKED_LIST_SUCCESS, Some l')" "contents l' ((m, True) # cs)"
      "dealloced l' = dealloced l" by blast
    with queued r show ?thesis by (auto simp: sendMsg_def msg_q_snd_def task_rel_def)
  qed
qed

lemma run_rel:
  assumes "task_rel t a"
  shows "\<exists>t'. task_step TRun t = Some t' \<and> task_rel t' (spec_step TRun a)"
proof -
  obtain q l cs where r: "mQ t = Some q" "msg_list q = Some l" "contents l cs" "dealloced l = []"
    "list_all snd cs" "todo a = rev (map fst cs)" "processed t = done_so_far a" "deleted t = done_so_far a"
    "unblocked q = ended a" using assms by (auto simp: task_rel_def)
  note loop = rcv_loop_spec [OF r(2,3)]
  consider (ended) "unblocked q" | (waits) "\<not> unblocked q" "cs = []" | (takes) cs' c where "\<not> unblocked q" "cs = cs' @ [c]"
    by (cases cs rule: rev_cases) auto
  then show ?thesis
  proof cases
    case ended
    with r show ?thesis by (auto simp: task_run_def msg_q_rcv_def task_rel_def)
  next
    case waits
    with loop assms r show ?thesis by (simp add: task_run_def msg_q_rcv_def)
  next
    case takes
    with loop obtain l' where "rcv_loop q = Some (Inr (eMSG_Q_SUCCESS, Some (fst c), Some (q\<lparr>msg_list := Some l'\<rparr>)))"
      "contents l' cs'" "dealloced l' = dealloced l" by auto
    with takes r show ?thesis by (auto simp: task_run_def msg_q_rcv_def task_rel_def)
  qed
qed

lemma step_rel:
  assumes "task_rel t a"
  shows "\<exists>t'. task_step act t = Some t' \<and> task_rel t' (spec_step act a)"
proof (cases act)
  case TUnblock
  with assms show ?thesis by (auto simp: task_unblock_def msg_q_unblock_def task_rel_def)
qed (use send_rel [OF assms] run_rel [OF assms] in blast)+

lemma steps_rel: "task_rel t a \<Longrightarrow> \<exists>t'. task_steps as t = Some t' \<and> task_rel t' (spec_steps as a)"
proof (induction "as" arbitrary: t a)
  case (Cons act "as")
  from step_rel [OF Cons.prems, of act] obtain t1 where "task_step act t = Some t1" "task_rel t1 (spec_step act a)" by blast
  with Cons.IH show ?case by (simp add: spec_steps_def)
qed (simp add: spec_steps_def)

lemma destructor_rel:
  assumes "task_rel t a"
  shows "\<exists>t'. task_destructor t = Some t' \<and> mQ t' = None \<and> mset (deleted t') = mset (done_so_far a) + mset (todo a) \<and>
    processed t' = done_so_far a"
proof -
  obtain q l cs where r: "mQ t = Some q" "msg_list q = Some l" "contents l cs" "dealloced l = []"
    "list_all snd cs" "todo a = rev (map fst cs)" "processed t = done_so_far a" "deleted t = done_so_far a"
    using assms by (auto simp: task_rel_def)
  from flush_spec [OF r(3)] obtain l' where
    l': "linked_list_flush (Some l) = Some (eLINKED_LIST_SUCCESS, Some l')" "contents l' []"
      "dealloced l' = dealloced l @ map fst (filter snd cs)" by blast
  from flush_spec [OF l'(2)] obtain l2 where
    l2: "linked_list_flush (Some l') = Some (eLINKED_LIST_SUCCESS, Some l2)" "dealloced l2 = dealloced l'" by auto
  from r(5) have "filter snd cs = cs" by (simp add: list_all_iff filter_id_conv)
  with r l' l2 show ?thesis
    by (simp add: task_destructor_def msg_q_flush_def msg_q_destroy_def linked_list_destroy_def)
qed


text \<open>
  A message that is sent after the queue was unblocked, or when there is no memory for its element, is
  not deleted by anybody: the result of \<open>msg_q_snd\<close> is dropped.
\<close>
lemma msg_task_send_leaks:
  "map_option (\<lambda>t. (sent t, deleted t)) (do { t \<leftarrow> task_steps [TSend 5 True, TRun, TUnblock, TSend 6 True] new_task; task_destructor t })
     = Some ([5, 6], [5])"
proof -
  obtain t t' where "task_steps [TSend 5 True, TRun, TUnblock, TSend 6 True] new_task = Some t" "task_rel t \<lparr>todo = [], done_so_far = [5], ended = True\<rparr>"
    using steps_rel [OF new_task_rel, of "[TSend 5 True, TRun, TUnblock, TSend 6 True]"]
    by (auto simp: spec_steps_def spec_init_def)
  moreover from destructor_rel [OF this(2)] obtain t' where "task_destructor t = Some t'" "mset (deleted t') = mset [5]"
    by auto
  moreover have "map_option sent (task_steps [TSend 5 True, TRun, TUnblock, TSend 6 True] new_task) = Some [5, 6]"
    by code_simp
  ultimately show ?thesis by (auto simp: task_destructor_def split: bind_splits option.splits)
qed

end
