(* ===== verification/LocThread.thy ===== *)
theory LocThread
  imports Prelude
begin

text \<open>
  The thread utility of the location stack (\<open>gps/utils/LocThread.cpp\<close>): a client starts a thread that
  runs a \<open>LocRunnable\<close> in a loop, and stops it or lets it go; the object both threads share, the
  delegate, is deleted by the one that leaves it last.

  Each thread is a program counter; a step is one access to what is shared, and the steps interleave in
  any order. The accesses themselves are taken to be atomic and in program order. What
  \<open>run()\<close> of the runnable returns is an argument of the thread's step. A use of the delegate or of the
  runnable after it was deleted, and a second deletion, set \<open>fault\<close>.
\<close>

section \<open>State\<close>

text \<open>
  The client: in the constructor of the delegate (\<open>CDetach\<close>, \<open>CFailed\<close>), in \<open>create\<close> (\<open>CCheck\<close>),
  running (\<open>CIdle\<close>), in \<open>bye\<close> or \<open>stop\<close> (\<open>CBye\<close>, \<open>CStop\<close>, \<open>CJoin1\<close>, \<open>CJoin2\<close>), in \<open>destroy\<close>
  (\<open>CRefs\<close>, \<open>CLock\<close>, \<open>CDelete\<close>), and done.
\<close>

datatype client_pc =
  CDetach | CFailed | CCheck | CIdle | CBye | CStop | CJoin1 | CJoin2 | CRefs | CLock | CDelete | CDone

text \<open>The thread: the statements of \<open>threadMain\<close>, those of its \<open>destroy\<close>, and ended; \<open>TNone\<close>: not created.\<close>

datatype thread_pc =
  TNone | TRead | TPre | TLoop | TRun | TPost1 | TPost2 | TNull | TFree | TRefs | TLock | TDelete | TEnd

record delegate =
  mRunnable :: bool
  mJoinable :: bool
  mRefCount :: int
  deletes :: nat
  runnable_deletes :: nat
  client :: client_pc
  thread :: thread_pc
  started :: bool
  prerun_ran :: bool
  postrun_ran :: bool
  fault :: bool

text \<open>The constructor up to the creation of the thread, which the client's first step follows.\<close>

definition LocThreadDelegate :: "bool \<Rightarrow> bool \<Rightarrow> delegate" where
  "LocThreadDelegate create_ok joinable =
     \<lparr>mRunnable = True, mJoinable = joinable, mRefCount = 2, deletes = 0, runnable_deletes = 0,
      client = (if create_ok then CDetach else CFailed), thread = (if create_ok then TRead else TNone),
      started = False, prerun_ran = False, postrun_ran = False, fault = False\<rparr>"

section \<open>Steps\<close>

text \<open>An access to the delegate, and one to the runnable.\<close>

definition touch :: "delegate \<Rightarrow> delegate" where
  "touch d = d\<lparr>fault := (fault d \<or> deletes d > 0)\<rparr>"

definition touch_runnable :: "delegate \<Rightarrow> delegate" where
  "touch_runnable d = d\<lparr>fault := (fault d \<or> runnable_deletes d > 0)\<rparr>"

datatype client_op = Stop | Release

text \<open>
  The client's step; at \<open>CIdle\<close> it stops the thread or deletes the \<open>LocThread\<close>, as the argument says,
  and \<open>CJoin2\<close> waits for the thread's end.
\<close>

fun client_step :: "client_op \<Rightarrow> delegate \<Rightarrow> delegate" where
  "client_step op d =
     (case client d of
        CDetach \<Rightarrow> (touch d)\<lparr>client := CCheck\<rparr>
      | CFailed \<Rightarrow> (touch d)\<lparr>mRunnable := False, mJoinable := False, mRefCount := 1, client := CCheck\<rparr>
      | CCheck \<Rightarrow> if mRunnable d then (touch d)\<lparr>started := True, client := CIdle\<rparr> else (touch d)\<lparr>client := CRefs\<rparr>
      | CIdle \<Rightarrow> d\<lparr>client := (case op of Stop \<Rightarrow> CStop | Release \<Rightarrow> CBye)\<rparr>
      | CBye \<Rightarrow> (touch d)\<lparr>client := (if mJoinable d then CStop else CRefs)\<rparr>
      | CStop \<Rightarrow> (touch d)\<lparr>mRunnable := False, client := CJoin1\<rparr>
      | CJoin1 \<Rightarrow> if mJoinable d then (touch d)\<lparr>mJoinable := False, client := CJoin2\<rparr> else (touch d)\<lparr>client := CRefs\<rparr>
      | CJoin2 \<Rightarrow> if thread d = TEnd then (touch d)\<lparr>client := CRefs\<rparr> else d
      | CRefs \<Rightarrow> (touch d)\<lparr>client := (if mRefCount d > 0 then CLock else CDone)\<rparr>
      | CLock \<Rightarrow> (touch d)\<lparr>mRefCount := mRefCount d - 1, client := (if mRefCount d = 1 then CDelete else CDone)\<rparr>
      | CDelete \<Rightarrow> (touch d)\<lparr>deletes := Suc (deletes d), client := CDone\<rparr>
      | CDone \<Rightarrow> d)"

fun thread_step :: "bool \<Rightarrow> delegate \<Rightarrow> delegate" where
  "thread_step again d =
     (case thread d of
        TNone \<Rightarrow> d
      | TRead \<Rightarrow> (touch d)\<lparr>thread := (if mRunnable d then TPre else TRefs)\<rparr>
      | TPre \<Rightarrow> if mRunnable d then (touch_runnable (touch d))\<lparr>prerun_ran := True, thread := TLoop\<rparr>
               else (touch d)\<lparr>thread := TLoop\<rparr>
      | TLoop \<Rightarrow> (touch d)\<lparr>thread := (if mRunnable d then TRun else TPost1)\<rparr>
      | TRun \<Rightarrow> (touch_runnable d)\<lparr>thread := (if again then TLoop else TPost1)\<rparr>
      | TPost1 \<Rightarrow> (touch d)\<lparr>thread := (if mRunnable d then TPost2 else TNull)\<rparr>
      | TPost2 \<Rightarrow> (touch_runnable d)\<lparr>postrun_ran := True, thread := TNull\<rparr>
      | TNull \<Rightarrow> (touch d)\<lparr>mRunnable := False, thread := TFree\<rparr>
      | TFree \<Rightarrow> (touch_runnable d)\<lparr>runnable_deletes := Suc (runnable_deletes d), thread := TRefs\<rparr>
      | TRefs \<Rightarrow> (touch d)\<lparr>thread := (if mRefCount d > 0 then TLock else TEnd)\<rparr>
      | TLock \<Rightarrow> (touch d)\<lparr>mRefCount := mRefCount d - 1, thread := (if mRefCount d = 1 then TDelete else TEnd)\<rparr>
      | TDelete \<Rightarrow> (touch d)\<lparr>deletes := Suc (deletes d), thread := TEnd\<rparr>
      | TEnd \<Rightarrow> d)"

declare client_step.simps [simp del] thread_step.simps [simp del]

inductive thr_step :: "delegate \<Rightarrow> delegate \<Rightarrow> bool" where
  client: "thr_step d (client_step op d)"
| thread: "thr_step d (thread_step again d)"

inductive reachable :: "bool \<Rightarrow> bool \<Rightarrow> delegate \<Rightarrow> bool" for create_ok joinable where
  init: "reachable create_ok joinable (LocThreadDelegate create_ok joinable)"
| step: "reachable create_ok joinable d \<Longrightarrow> thr_step d d' \<Longrightarrow> reachable create_ok joinable d'"

text \<open>A schedule: whose step is next, and what it is given.\<close>

datatype turn = Client client_op | Thread bool

fun take_turn :: "turn \<Rightarrow> delegate \<Rightarrow> delegate" where
  "take_turn (Client op) d = client_step op d"
| "take_turn (Thread again) d = thread_step again d"

definition run_turns :: "turn list \<Rightarrow> delegate \<Rightarrow> delegate" where
  "run_turns ts d = fold take_turn ts d"

lemma take_turn_step: "thr_step d (take_turn t d)"
  by (cases t) (auto intro: thr_step.intros)

lemma run_turns_reachable: "reachable c j d \<Longrightarrow> reachable c j (run_turns ts d)"
  by (induction ts arbitrary: d) (auto simp: run_turns_def intro: reachable.step take_turn_step)

section \<open>The invariant\<close>

text \<open>What each side still holds of the delegate: a reference it has not given up.\<close>

fun client_ref :: "client_pc \<Rightarrow> int" where
  "client_ref CDelete = 0"
| "client_ref CDone = 0"
| "client_ref _ = 1"

fun thread_ref :: "thread_pc \<Rightarrow> int" where
  "thread_ref TNone = 0"
| "thread_ref TDelete = 0"
| "thread_ref TEnd = 0"
| "thread_ref _ = 1"

fun runnable_live :: "thread_pc \<Rightarrow> bool" where
  "runnable_live pc \<longleftrightarrow> pc \<in> {TRead, TPre, TLoop, TRun, TPost1, TPost2, TNull, TFree}"

definition thr_inv :: "delegate \<Rightarrow> bool" where
  "thr_inv d \<longleftrightarrow>
     \<not> fault d \<and>
     mRefCount d = (if client d = CFailed then 2 else client_ref (client d) + thread_ref (thread d)) \<and>
     int (deletes d) = (if client_ref (client d) + thread_ref (thread d) = 0 \<and> client d \<noteq> CDelete \<and> thread d \<noteq> TDelete
                        then 1 else 0) \<and>
     (client d = CDelete \<longrightarrow> thread_ref (thread d) = 0 \<and> thread d \<noteq> TDelete) \<and>
     (thread d = TDelete \<longrightarrow> client_ref (client d) = 0) \<and>
     (client d = CFailed \<longrightarrow> thread d = TNone) \<and>
     (thread d = TNone \<longrightarrow> client d = CFailed \<or> \<not> mRunnable d) \<and>
     (thread d \<in> {TFree, TRefs, TLock, TDelete, TEnd} \<longrightarrow> \<not> mRunnable d) \<and>
     runnable_deletes d \<le> 1 \<and> (runnable_live (thread d) \<longrightarrow> runnable_deletes d = 0)"

lemma thr_inv_init: "thr_inv (LocThreadDelegate c j)"
  by (simp add: thr_inv_def LocThreadDelegate_def)

lemma refs_bounds: "0 \<le> client_ref c \<and> client_ref c \<le> 1 \<and> 0 \<le> thread_ref t \<and> thread_ref t \<le> 1"
  by (cases c; cases t) simp_all

lemma client_ref_0: "client_ref c = 0 \<longleftrightarrow> c = CDelete \<or> c = CDone"
  by (cases c) simp_all

lemma thread_ref_0: "thread_ref t = 0 \<longleftrightarrow> t = TNone \<or> t = TDelete \<or> t = TEnd"
  by (cases t) simp_all

lemmas thr_defs = client_step.simps thread_step.simps touch_def touch_runnable_def

lemma client_inv:
  assumes "thr_inv d"
  shows "thr_inv (client_step op d)"
proof -
  note inv = assms [unfolded thr_inv_def] refs_bounds [of "client d" "thread d"]
  show ?thesis
    by (cases "client d"; insert inv; simp add: thr_inv_def thr_defs thread_ref_0 split: if_splits client_op.splits; linarith?)
qed

lemma thread_inv:
  assumes "thr_inv d"
  shows "thr_inv (thread_step again d)"
proof -
  note inv = assms [unfolded thr_inv_def] refs_bounds [of "client d" "thread d"]
  show ?thesis
    by (cases "thread d"; insert inv; simp add: thr_inv_def thr_defs client_ref_0 split: if_splits; linarith?)
qed

lemma reachable_inv: "reachable c j d \<Longrightarrow> thr_inv d"
  by (induction rule: reachable.induct) (auto simp: thr_inv_init client_inv thread_inv elim!: thr_step.cases)

section \<open>Joining\<close>

definition join_inv :: "bool \<Rightarrow> delegate \<Rightarrow> bool" where
  "join_inv j d \<longleftrightarrow>
     client d \<noteq> CFailed \<and> thread d \<noteq> TNone \<and>
     (client d \<in> {CDetach, CCheck, CIdle, CBye, CStop, CJoin1} \<longrightarrow> mJoinable d = j) \<and>
     (client d \<in> {CDetach, CCheck} \<longrightarrow> \<not> started d) \<and>
     (client d = CJoin1 \<longrightarrow> \<not> mRunnable d) \<and> (client d = CJoin2 \<longrightarrow> j) \<and>
     (thread d = TRead \<longrightarrow> \<not> prerun_ran d) \<and>
     (j \<and> started d \<and> client d \<in> {CRefs, CLock, CDelete, CDone} \<longrightarrow> thread d = TEnd) \<and>
     (prerun_ran d \<longrightarrow> runnable_live (thread d) \<or> runnable_deletes d = 1)"

lemma join_inv_init: "join_inv j (LocThreadDelegate True j)"
  by (simp add: join_inv_def LocThreadDelegate_def)

lemma client_join: "join_inv j d \<Longrightarrow> join_inv j (client_step op d)"
  by (cases "client d"; simp add: join_inv_def thr_defs split: client_op.splits if_splits; auto?)

lemma thread_join: "join_inv j d \<Longrightarrow> thr_inv d \<Longrightarrow> join_inv j (thread_step again d)"
  by (cases "thread d"; simp add: join_inv_def thr_inv_def thr_defs split: if_splits; auto?)

lemma reachable_join: "reachable True j d \<Longrightarrow> join_inv j d"
proof (induction d rule: reachable.induct)
  case (step d d')
  from step.hyps(2) show ?case
    by cases (use step.IH reachable_inv [OF step.hyps(1)] client_join thread_join in auto)
qed (rule join_inv_init)

section \<open>Ending\<close>

text \<open>The steps a thread has left once the delegate's \<open>mRunnable\<close> is NULL, and those of a client in \<open>stop\<close>.\<close>

fun thread_rank :: "thread_pc \<Rightarrow> nat" where
  "thread_rank TRead = 4" | "thread_rank TPre = 10" | "thread_rank TLoop = 8" | "thread_rank TRun = 9"
| "thread_rank TPost1 = 7" | "thread_rank TPost2 = 6" | "thread_rank TNull = 5" | "thread_rank TFree = 4"
| "thread_rank TRefs = 3" | "thread_rank TLock = 2" | "thread_rank TDelete = 1" | "thread_rank TEnd = 0"
| "thread_rank TNone = 0"

fun client_rank :: "client_pc \<Rightarrow> nat" where
  "client_rank CJoin1 = 5" | "client_rank CJoin2 = 4" | "client_rank CRefs = 3" | "client_rank CLock = 2"
| "client_rank CDelete = 1" | "client_rank CDone = 0" | "client_rank _ = 6"

text \<open>A client that has set \<open>mRunnable\<close> to NULL and goes on to the end of \<open>stop\<close>.\<close>

definition stopping :: "delegate \<Rightarrow> bool" where
  "stopping d \<longleftrightarrow> \<not> mRunnable d \<and> client d \<in> {CJoin1, CJoin2, CRefs, CLock, CDelete, CDone} \<and> thread d \<noteq> TNone"

lemma stopping_thread:
  "stopping d \<Longrightarrow> stopping (thread_step again d) \<and> client (thread_step again d) = client d \<and>
    thread_rank (thread (thread_step again d)) \<le> thread_rank (thread d) - 1"
  by (cases "thread d") (auto simp: stopping_def thr_defs)

lemma stopping_client:
  "stopping d \<Longrightarrow> stopping (client_step op d) \<and> thread (client_step op d) = thread d \<and>
    client_rank (client (client_step op d)) \<le> client_rank (client d) - (if thread d = TEnd then 1 else 0)"
  by (cases "client d") (auto simp: stopping_def thr_defs)

definition thread_turns :: "turn list \<Rightarrow> nat" where
  "thread_turns ts = length (filter (\<lambda>t. case t of Client _ \<Rightarrow> False | Thread _ \<Rightarrow> True) ts)"

definition client_turns :: "turn list \<Rightarrow> nat" where
  "client_turns ts = length (filter (\<lambda>t. case t of Client _ \<Rightarrow> True | Thread _ \<Rightarrow> False) ts)"

lemma turns_simps [simp]:
  "thread_turns [] = 0" "thread_turns (Client op # ts) = thread_turns ts" "thread_turns (Thread b # ts) = Suc (thread_turns ts)"
  "client_turns [] = 0" "client_turns (Client op # ts) = Suc (client_turns ts)" "client_turns (Thread b # ts) = client_turns ts"
  by (simp_all add: thread_turns_def client_turns_def)

lemma run_turns_simps [simp]: "run_turns [] d = d" "run_turns (t # ts) d = run_turns ts (take_turn t d)"
  by (simp_all add: run_turns_def)

lemma run_turns_append: "run_turns (ts @ us) d = run_turns us (run_turns ts d)"
  by (simp add: run_turns_def)

lemma thread_ends:
  "stopping d \<Longrightarrow> stopping (run_turns ts d) \<and>
    thread_rank (thread (run_turns ts d)) \<le> thread_rank (thread d) - thread_turns ts \<and>
    client_rank (client (run_turns ts d)) \<le> client_rank (client d)"
proof (induction ts arbitrary: d)
  case (Cons t ts)
  show ?case
  proof (cases t)
    case (Client op)
    with Cons.IH [of "client_step op d"] stopping_client [OF Cons.prems, of op] show ?thesis
      by (auto split: if_splits)
  next
    case (Thread b)
    with Cons.IH [of "thread_step b d"] stopping_thread [OF Cons.prems, of b] show ?thesis by auto
  qed
qed simp

lemma client_ends:
  "stopping d \<Longrightarrow> thread d = TEnd \<Longrightarrow> stopping (run_turns ts d) \<and> thread (run_turns ts d) = TEnd \<and>
    client_rank (client (run_turns ts d)) \<le> client_rank (client d) - client_turns ts"
proof (induction ts arbitrary: d)
  case (Cons t ts)
  show ?case
  proof (cases t)
    case (Client op)
    with Cons.IH [of "client_step op d"] stopping_client [OF Cons.prems(1), of op] Cons.prems(2) show ?thesis by auto
  next
    case (Thread b)
    moreover have "thread_step b d = d" using Cons.prems(2) by (simp add: thr_defs)
    ultimately show ?thesis using Cons.IH [OF Cons.prems] by simp
  qed
qed simp

lemma thread_rank_0: "thread_rank t = 0 \<longleftrightarrow> t = TEnd \<or> t = TNone"
  by (cases t) simp_all

lemma client_rank_0: "client_rank c = 0 \<longleftrightarrow> c = CDone"
  by (cases c) simp_all

lemma thread_rank_max: "thread_rank t \<le> 10"
  by (cases t) simp_all

section \<open>Properties\<close>

text \<open>
  C24: However the two threads interleave, neither uses the delegate or the runnable after it was
  deleted, each is deleted at most once, and when both threads are through with the delegate it is
  deleted.
\<close>
theorem delegate_safe:
  assumes "reachable create_ok joinable d"
  shows "\<not> fault d \<and> runnable_deletes d \<le> 1 \<and>
    deletes d = (if client d = CDone \<and> thread d \<in> {TNone, TEnd} then 1 else 0)"
proof -
  note inv = reachable_inv [OF assms, unfolded thr_inv_def]
  have "client_ref (client d) + thread_ref (thread d) = 0 \<longleftrightarrow> client_ref (client d) = 0 \<and> thread_ref (thread d) = 0"
    using refs_bounds [of "client d" "thread d"] by linarith
  then have "client_ref (client d) + thread_ref (thread d) = 0 \<and> client d \<noteq> CDelete \<and> thread d \<noteq> TDelete \<longleftrightarrow>
      client d = CDone \<and> thread d \<in> {TNone, TEnd}" by (auto simp: client_ref_0 thread_ref_0)
  with inv show ?thesis by (auto split: if_split_asm)
qed

lemma delegate_safe_witness:
  "let d = run_turns [Client Stop, Client Stop, Thread True, Thread True, Client Release, Client Stop, Client Stop, Client Stop]
             (LocThreadDelegate True False)
   in \<not> fault d \<and> runnable_deletes d \<le> 1 \<and> deletes d = (if client d = CDone \<and> thread d \<in> {TNone, TEnd} then 1 else 0)"
  unfolding Let_def by (rule delegate_safe [OF run_turns_reachable [OF reachable.init]])

text \<open>
  C25: Once \<open>stop\<close>, or the deletion of the \<open>LocThread\<close>, has returned on a joinable thread that was
  started, the thread has ended, the delegate is deleted, and the runnable is deleted too if the
  thread ever called it.
\<close>
theorem stop_joins:
  assumes "reachable True True d" and "started d" and "client d = CDone"
  shows "thread d = TEnd \<and> deletes d = 1 \<and> (prerun_ran d \<longrightarrow> runnable_deletes d = 1)"
proof -
  from reachable_join [OF assms(1)] assms(2,3) have "thread d = TEnd" "prerun_ran d \<longrightarrow> runnable_deletes d = 1"
    by (auto simp: join_inv_def)
  with reachable_inv [OF assms(1)] assms(3) show ?thesis by (simp add: thr_inv_def)
qed

lemma stop_joins_witness:
  "let d = run_turns ([Client Stop, Client Stop] @ replicate 4 (Thread True) @ replicate 3 (Client Stop) @ replicate 8 (Thread True) @
             replicate 4 (Client Stop)) (LocThreadDelegate True True)
   in thread d = TEnd \<and> deletes d = 1 \<and> prerun_ran d \<and> (prerun_ran d \<longrightarrow> runnable_deletes d = 1)"
proof -
  let ?d = "run_turns ([Client Stop, Client Stop] @ replicate 4 (Thread True) @ replicate 3 (Client Stop) @ replicate 8 (Thread True) @
             replicate 4 (Client Stop)) (LocThreadDelegate True True)"
  have "started ?d \<and> client ?d = CDone \<and> prerun_ran ?d" by code_simp
  with stop_joins [OF run_turns_reachable [OF reachable.init]] show ?thesis unfolding Let_def by blast
qed

text \<open>
  C26: A thread that is told to stop ends, whatever its \<open>run()\<close> returns: from the point where \<open>stop\<close>
  has set \<open>mRunnable\<close> to NULL, ten steps of the thread and five of the client in whatever order suffice
  for both to be through, and the delegate is then deleted, once.
\<close>
theorem stop_terminates:
  assumes "reachable True joinable d" and "client d = CJoin1" and "thread_turns ts \<ge> 10" and "client_turns us \<ge> 5"
  shows "client (run_turns (ts @ us) d) = CDone \<and> thread (run_turns (ts @ us) d) = TEnd \<and>
    deletes (run_turns (ts @ us) d) = 1 \<and> \<not> fault (run_turns (ts @ us) d)"
proof -
  have st: "stopping d"
    using reachable_join [OF assms(1)] assms(2) by (simp add: stopping_def join_inv_def)
  let ?e = "run_turns ts d" and ?f = "run_turns (ts @ us) d"
  from thread_ends [OF st, of ts] assms(2,3) thread_rank_max [of "thread d"]
  have e: "stopping ?e" "thread ?e = TEnd" "client_rank (client ?e) \<le> 5"
    by (auto simp: stopping_def thread_rank_0)
  from client_ends [OF e(1,2), of us] e(3) assms(4)
  have f: "thread ?f = TEnd" "client ?f = CDone" by (auto simp: run_turns_append client_rank_0)
  with reachable_inv [OF run_turns_reachable [OF assms(1)], of "ts @ us"] show ?thesis by (simp add: thr_inv_def)
qed

lemma stop_terminates_witness:
  "let d = run_turns ([Client Stop, Client Stop] @ replicate 3 (Thread True) @ replicate 2 (Client Stop)) (LocThreadDelegate True True);
       e = run_turns (replicate 10 (Thread True) @ replicate 5 (Client Stop)) d
   in thread d = TRun \<and> client e = CDone \<and> thread e = TEnd \<and> deletes e = 1 \<and> \<not> fault e"
proof -
  let ?d = "run_turns ([Client Stop, Client Stop] @ replicate 3 (Thread True) @ replicate 2 (Client Stop)) (LocThreadDelegate True True)"
  have "client ?d = CJoin1 \<and> thread ?d = TRun" by code_simp
  moreover have "thread_turns (replicate 10 (Thread True)) \<ge> 10" "client_turns (replicate 5 (Client Stop)) \<ge> 5"
    by (simp_all add: thread_turns_def client_turns_def)
  ultimately show ?thesis
    unfolding Let_def using stop_terminates [OF run_turns_reachable [OF reachable.init]] by blast
qed

section \<open>Two races\<close>

text \<open>
  A client that stops the thread before the thread has read \<open>mRunnable\<close>: the thread finds NULL and
  never deletes the runnable, which \<open>start\<close> took over when it returned true.
\<close>
lemma early_stop_leaks_runnable:
  "let d = run_turns ([Client Stop, Client Stop, Client Stop, Client Stop, Client Stop] @ replicate 3 (Thread True) @ replicate 4 (Client Stop))
             (LocThreadDelegate True True)
   in started d \<and> client d = CDone \<and> thread d = TEnd \<and> deletes d = 1 \<and> runnable_deletes d = 0"
  by code_simp

text \<open>
  A runnable that is through before \<open>create\<close> looks at \<open>mRunnable\<close>: \<open>start\<close> returns false although the
  runnable ran and was deleted, and although the thread is joinable nobody joins it.
\<close>
lemma start_false_after_run:
  "let d = run_turns (Client Stop # replicate 10 (Thread False) @ replicate 4 (Client Stop)) (LocThreadDelegate True True)
   in \<not> started d \<and> client d = CDone \<and> prerun_ran d \<and> runnable_deletes d = 1 \<and> mJoinable d \<and> deletes d = 1"
  by code_simp

end
