(* ===== verification/GnssTracking.thy ===== *)
theory GnssTracking
  imports StdAlgo "HOL-Library.Product_Lexorder"
begin

text \<open>
  The clients of the GNSS adapter and their tracking sessions (\<open>gps/gnss/GnssAdapter.cpp\<close>). The modem
  runs one fix at a time, so the adapter multiplexes: of all sessions it keeps the one with the smallest
  interval running.

  A client's command makes a message for the task of the adapter, which handles the messages one by
  one. What the adapter calls - the ULP proxy, which may take the fix over, and the modem - is logged,
  the newest call first, and the answer to a call is a function of the log. A client is its address, a
  callback whether there is one.
\<close>

section \<open>Data\<close>

datatype loc_error =
    LOCATION_ERROR_SUCCESS | LOCATION_ERROR_GENERAL_FAILURE | LOCATION_ERROR_CALLBACK_MISSING
  | LOCATION_ERROR_INVALID_PARAMETER | LOCATION_ERROR_ID_EXISTS | LOCATION_ERROR_ID_UNKNOWN
  | LOCATION_ERROR_ALREADY_STARTED | LOCATION_ERROR_GEOFENCES_AT_MAX | LOCATION_ERROR_NOT_SUPPORTED

datatype supl_mode = GNSS_SUPL_MODE_STANDALONE | GNSS_SUPL_MODE_MSB | GNSS_SUPL_MODE_MSA

record location_options =
  opt_size :: nat
  minInterval :: u32
  minDistance :: u32
  opt_mode :: supl_mode

datatype position_mode = LOC_POSITION_MODE_STANDALONE | LOC_POSITION_MODE_MS_BASED | LOC_POSITION_MODE_MS_ASSISTED

text \<open>The other members of a \<open>LocPosMode\<close> keep the values of its default constructor.\<close>

record loc_pos_mode =
  pm_mode :: position_mode
  share_position :: bool
  min_interval :: u32

definition convertOptions :: "location_options \<Rightarrow> loc_pos_mode" where
  "convertOptions options =
     \<lparr>pm_mode = (case opt_mode options of
                   GNSS_SUPL_MODE_MSB \<Rightarrow> LOC_POSITION_MODE_MS_BASED
                 | GNSS_SUPL_MODE_MSA \<Rightarrow> LOC_POSITION_MODE_MS_ASSISTED
                 | _ \<Rightarrow> LOC_POSITION_MODE_STANDALONE),
      share_position = True, min_interval = minInterval options\<rparr>"

record callbacks =
  capabilitiesCb :: bool
  responseCb :: bool
  trackingCb :: bool
  gnssNiCb :: bool
  gnssSvCb :: bool
  gnssNmeaCb :: bool
  gnssMeasurementsCb :: bool

text \<open>Calls of the ULP proxy and of the modem, and the modem coming up again.\<close>

datatype engine_call =
    SendFixMode loc_pos_mode | SendStartFix | SendStopFix
  | StartFix loc_pos_mode | StopFix | EngineUp

type_synonym engine = "engine_call list \<Rightarrow> bool"

text \<open>A session is found by its id and its client; the order of the keys is that of \<open>LocationSessionKey\<close>.\<close>

type_synonym session_key = "u32 \<times> nat"

datatype adapter_msg =
    MsgAddClient nat callbacks
  | MsgRemoveClient nat
  | MsgStartTracking nat u32 location_options
  | MsgUpdateTracking nat u32 location_options
  | MsgStopTracking nat u32
  | MsgRestartSessions

record adapter =
  mClientData :: "(nat, callbacks) stdmap"
  mTrackingSessions :: "(session_key, location_options) stdmap"
  mSessionIdCounter :: u32
  mNmeaMask :: u32
  mEvtMask :: u32
  calls :: "engine_call list"
  responses :: "(nat \<times> loc_error \<times> u32) list"
  msgs :: "adapter_msg list"
  lost :: bool

definition do_call :: "engine \<Rightarrow> engine_call \<Rightarrow> adapter \<Rightarrow> bool \<times> adapter" where
  "do_call eng c s = (eng (c # calls s), s\<lparr>calls := c # calls s\<rparr>)"

section \<open>Clients\<close>

definition LOC_API_ADAPTER_BIT_PARSED_POSITION_REPORT :: u32 where "LOC_API_ADAPTER_BIT_PARSED_POSITION_REPORT = 2 ^ 0"
definition LOC_API_ADAPTER_BIT_SATELLITE_REPORT :: u32 where "LOC_API_ADAPTER_BIT_SATELLITE_REPORT = 2 ^ 1"
definition LOC_API_ADAPTER_BIT_NMEA_1HZ_REPORT :: u32 where "LOC_API_ADAPTER_BIT_NMEA_1HZ_REPORT = 2 ^ 2"
definition LOC_API_ADAPTER_BIT_NI_NOTIFY_VERIFY_REQUEST :: u32 where "LOC_API_ADAPTER_BIT_NI_NOTIFY_VERIFY_REQUEST = 2 ^ 4"
definition LOC_API_ADAPTER_BIT_GNSS_SV_POLYNOMIAL_REPORT :: u32 where "LOC_API_ADAPTER_BIT_GNSS_SV_POLYNOMIAL_REPORT = 2 ^ 23"
definition LOC_API_ADAPTER_BIT_GNSS_MEASUREMENT :: u32 where "LOC_API_ADAPTER_BIT_GNSS_MEASUREMENT = 2 ^ 26"

text \<open>The bits one client calls for; with \<open>ext_dr\<close>, the configuration of vehicles, two more are added for all.\<close>

definition client_mask :: "u32 \<Rightarrow> callbacks \<Rightarrow> u32" where
  "client_mask nmea cb =
     (if trackingCb cb then LOC_API_ADAPTER_BIT_PARSED_POSITION_REPORT else 0) OR
     (if gnssNiCb cb then LOC_API_ADAPTER_BIT_NI_NOTIFY_VERIFY_REQUEST else 0) OR
     (if gnssSvCb cb then LOC_API_ADAPTER_BIT_SATELLITE_REPORT else 0) OR
     (if gnssNmeaCb cb \<and> nmea \<noteq> 0 then LOC_API_ADAPTER_BIT_NMEA_1HZ_REPORT else 0) OR
     (if gnssMeasurementsCb cb then LOC_API_ADAPTER_BIT_GNSS_MEASUREMENT else 0)"

definition updateClientsEventMask :: "bool \<Rightarrow> adapter \<Rightarrow> adapter" where
  "updateClientsEventMask ext_dr s =
     (let m = fold (\<lambda>(c, cb) m. m OR client_mask (mNmeaMask s) cb) (mClientData s) 0
      in s\<lparr>mEvtMask := (if ext_dr then m OR LOC_API_ADAPTER_BIT_GNSS_MEASUREMENT OR LOC_API_ADAPTER_BIT_GNSS_SV_POLYNOMIAL_REPORT
                        else m)\<rparr>)"

definition saveClient :: "bool \<Rightarrow> nat \<Rightarrow> callbacks \<Rightarrow> adapter \<Rightarrow> adapter" where
  "saveClient ext_dr c cb s = updateClientsEventMask ext_dr (s\<lparr>mClientData := map_put c cb (mClientData s)\<rparr>)"

definition eraseClient :: "bool \<Rightarrow> nat \<Rightarrow> adapter \<Rightarrow> adapter" where
  "eraseClient ext_dr c s = updateClientsEventMask ext_dr (s\<lparr>mClientData := map_erase c (mClientData s)\<rparr>)"

definition hasTrackingCallback :: "nat \<Rightarrow> adapter \<Rightarrow> bool" where
  "hasTrackingCallback c s = (case map_of (mClientData s) c of None \<Rightarrow> False | Some cb \<Rightarrow> trackingCb cb)"

definition hasMeasurementsCallback :: "nat \<Rightarrow> adapter \<Rightarrow> bool" where
  "hasMeasurementsCallback c s = (case map_of (mClientData s) c of None \<Rightarrow> False | Some cb \<Rightarrow> gnssMeasurementsCb cb)"

definition reportResponse :: "nat \<Rightarrow> loc_error \<Rightarrow> u32 \<Rightarrow> adapter \<Rightarrow> adapter" where
  "reportResponse c err i s =
     (case map_of (mClientData s) c of
        Some cb \<Rightarrow> if responseCb cb then s\<lparr>responses := responses s @ [(c, err, i)]\<rparr> else s
      | None \<Rightarrow> s)"

section \<open>Sessions\<close>

definition isTrackingSession :: "nat \<Rightarrow> u32 \<Rightarrow> adapter \<Rightarrow> bool" where
  "isTrackingSession c i s = (map_of (mTrackingSessions s) (i, c) \<noteq> None)"

definition saveTrackingSession :: "nat \<Rightarrow> u32 \<Rightarrow> location_options \<Rightarrow> adapter \<Rightarrow> adapter" where
  "saveTrackingSession c i opts s = s\<lparr>mTrackingSessions := map_put (i, c) opts (mTrackingSessions s)\<rparr>"

definition eraseTrackingSession :: "nat \<Rightarrow> u32 \<Rightarrow> adapter \<Rightarrow> adapter" where
  "eraseTrackingSession c i s = s\<lparr>mTrackingSessions := map_erase (i, c) (mTrackingSessions s)\<rparr>"

definition startTracking :: "engine \<Rightarrow> location_options \<Rightarrow> adapter \<Rightarrow> loc_error \<times> adapter" where
  "startTracking eng options s =
     (let locPosMode = convertOptions options;
          (_, s1) = do_call eng (SendFixMode locPosMode) s;
          (taken, s2) = do_call eng SendStartFix s1
      in if taken then (LOCATION_ERROR_SUCCESS, s2)
         else let (ok, s3) = do_call eng (StartFix locPosMode) s2
              in (if ok then LOCATION_ERROR_SUCCESS else LOCATION_ERROR_GENERAL_FAILURE, s3))"

definition stopTracking :: "engine \<Rightarrow> adapter \<Rightarrow> loc_error \<times> adapter" where
  "stopTracking eng s =
     (let (taken, s1) = do_call eng SendStopFix s
      in if taken then (LOCATION_ERROR_SUCCESS, s1)
         else let (ok, s2) = do_call eng StopFix s1
              in (if ok then LOCATION_ERROR_SUCCESS else LOCATION_ERROR_GENERAL_FAILURE, s2))"

text \<open>The loop for the smallest interval: a size of zero means that nothing is set yet.\<close>

definition no_options :: location_options where
  "no_options = \<lparr>opt_size = 0, minInterval = 0, minDistance = 0, opt_mode = GNSS_SUPL_MODE_STANDALONE\<rparr>"

definition smaller_options :: "session_key \<times> location_options \<Rightarrow> location_options \<Rightarrow> location_options" where
  "smaller_options e o1 =
     (if opt_size o1 = 0 \<or> minInterval (snd e) < minInterval o1 then snd e else o1)"

definition smallestIntervalOptions :: "(session_key, location_options) stdmap \<Rightarrow> location_options" where
  "smallestIntervalOptions m = fold smaller_options m no_options"

definition startTrackingMultiplex :: "engine \<Rightarrow> location_options \<Rightarrow> adapter \<Rightarrow> loc_error \<times> adapter" where
  "startTrackingMultiplex eng options s =
     (if mTrackingSessions s = [] then startTracking eng options s
      else if minInterval options < minInterval (smallestIntervalOptions (mTrackingSessions s))
        then startTracking eng options s
      else (LOCATION_ERROR_SUCCESS, s))"

definition others :: "session_key \<Rightarrow> adapter \<Rightarrow> (session_key, location_options) stdmap" where
  "others key s = filter (\<lambda>(k, v). k \<noteq> key) (mTrackingSessions s)"

definition updateTrackingMultiplex ::
  "engine \<Rightarrow> nat \<Rightarrow> u32 \<Rightarrow> location_options \<Rightarrow> adapter \<Rightarrow> loc_error \<times> adapter" where
  "updateTrackingMultiplex eng c i options s =
     (if length (mTrackingSessions s) = 1 then startTracking eng options s
      else case map_of (mTrackingSessions s) (i, c) of
             None \<Rightarrow> (LOCATION_ERROR_SUCCESS, s)
           | Some old \<Rightarrow>
               let smallest = smallestIntervalOptions (others (i, c) s)
               in if minInterval options < minInterval smallest then startTracking eng options s
                  else if minInterval old < minInterval smallest then startTracking eng smallest s
                  else (LOCATION_ERROR_SUCCESS, s))"

definition stopTrackingMultiplex :: "engine \<Rightarrow> nat \<Rightarrow> u32 \<Rightarrow> adapter \<Rightarrow> loc_error \<times> adapter" where
  "stopTrackingMultiplex eng c i s =
     (if length (mTrackingSessions s) = 1 then stopTracking eng s
      else case map_of (mTrackingSessions s) (i, c) of
             None \<Rightarrow> (LOCATION_ERROR_SUCCESS, s)
           | Some old \<Rightarrow>
               let smallest = smallestIntervalOptions (others (i, c) s)
               in if minInterval old < minInterval smallest then startTracking eng smallest s
                  else (LOCATION_ERROR_SUCCESS, s))"

text \<open>The loop over the map erases only the entry it is at, so it sees the entries it began with.\<close>

fun stop_sessions :: "engine \<Rightarrow> nat \<Rightarrow> session_key list \<Rightarrow> adapter \<Rightarrow> adapter" where
  "stop_sessions eng c [] s = s"
| "stop_sessions eng c ((i, c') # ks) s =
     (if c = c'
      then let (err, s1) = stopTrackingMultiplex eng c' i s
           in stop_sessions eng c ks (if err = LOCATION_ERROR_SUCCESS then eraseTrackingSession c' i s1 else s1)
      else stop_sessions eng c ks s)"

definition stopClientSessions :: "engine \<Rightarrow> nat \<Rightarrow> adapter \<Rightarrow> adapter" where
  "stopClientSessions eng c s = stop_sessions eng c (map fst (mTrackingSessions s)) s"

text \<open>The result of \<open>startFix\<close> is not looked at; \<open>lost\<close> says whether the fix is running again.\<close>

definition restartSessions :: "engine \<Rightarrow> adapter \<Rightarrow> adapter" where
  "restartSessions eng s =
     (if mTrackingSessions s = [] then s\<lparr>lost := False\<rparr>
      else let (ok, s1) = do_call eng (StartFix (convertOptions (smallestIntervalOptions (mTrackingSessions s)))) s
           in s1\<lparr>lost := (lost s \<and> \<not> ok)\<rparr>)"

section \<open>Messages\<close>

definition procStartTracking :: "engine \<Rightarrow> nat \<Rightarrow> u32 \<Rightarrow> location_options \<Rightarrow> adapter \<Rightarrow> adapter" where
  "procStartTracking eng c i opts s =
     (let (err, s1) =
            (if \<not> hasTrackingCallback c s \<and> \<not> hasMeasurementsCallback c s then (LOCATION_ERROR_CALLBACK_MISSING, s)
             else if opt_size opts = 0 then (LOCATION_ERROR_INVALID_PARAMETER, s)
             else let (err, s1) = startTrackingMultiplex eng opts s
                  in (err, if err = LOCATION_ERROR_SUCCESS then saveTrackingSession c i opts s1 else s1))
      in reportResponse c err i s1)"

definition procUpdateTracking :: "engine \<Rightarrow> nat \<Rightarrow> u32 \<Rightarrow> location_options \<Rightarrow> adapter \<Rightarrow> adapter" where
  "procUpdateTracking eng c i opts s =
     (if isTrackingSession c i s
      then let (err, s1) =
                 (if opt_size opts = 0 then (LOCATION_ERROR_INVALID_PARAMETER, s)
                  else let (err, s1) = updateTrackingMultiplex eng c i opts s
                       in (err, if err = LOCATION_ERROR_SUCCESS then saveTrackingSession c i opts s1 else s1))
           in reportResponse c err i s1
      else s)"

definition procStopTracking :: "engine \<Rightarrow> nat \<Rightarrow> u32 \<Rightarrow> adapter \<Rightarrow> adapter" where
  "procStopTracking eng c i s =
     (if isTrackingSession c i s
      then let (err, s1) = stopTrackingMultiplex eng c i s
           in reportResponse c err i (if err = LOCATION_ERROR_SUCCESS then eraseTrackingSession c i s1 else s1)
      else s)"

definition procRemoveClient :: "engine \<Rightarrow> bool \<Rightarrow> nat \<Rightarrow> adapter \<Rightarrow> adapter" where
  "procRemoveClient eng ext_dr c s = eraseClient ext_dr c (stopClientSessions eng c s)"

fun msg_proc :: "engine \<Rightarrow> bool \<Rightarrow> adapter_msg \<Rightarrow> adapter \<Rightarrow> adapter" where
  "msg_proc eng ext_dr (MsgAddClient c cb) s = saveClient ext_dr c cb s"
| "msg_proc eng ext_dr (MsgRemoveClient c) s = procRemoveClient eng ext_dr c s"
| "msg_proc eng ext_dr (MsgStartTracking c i opts) s = procStartTracking eng c i opts s"
| "msg_proc eng ext_dr (MsgUpdateTracking c i opts) s = procUpdateTracking eng c i opts s"
| "msg_proc eng ext_dr (MsgStopTracking c i) s = procStopTracking eng c i s"
| "msg_proc eng ext_dr MsgRestartSessions s = restartSessions eng s"

section \<open>Commands\<close>

text \<open>A client's thread posts a message; only a start takes an id first. \<open>lost\<close> is a ghost of the modem's restart.\<close>

definition post_msg :: "adapter_msg \<Rightarrow> adapter \<Rightarrow> adapter" where
  "post_msg m s = s\<lparr>msgs := msgs s @ [m]\<rparr>"

definition generateSessionId :: "adapter \<Rightarrow> u32 \<times> adapter" where
  "generateSessionId s =
     (let n = mSessionIdCounter s + 1; m = (if n = 0xFFFFFFFF then 1 else n) in (m, s\<lparr>mSessionIdCounter := m\<rparr>))"

definition addClientCommand :: "nat \<Rightarrow> callbacks \<Rightarrow> adapter \<Rightarrow> adapter" where
  "addClientCommand c cb s = post_msg (MsgAddClient c cb) s"

definition removeClientCommand :: "nat \<Rightarrow> adapter \<Rightarrow> adapter" where
  "removeClientCommand c s = post_msg (MsgRemoveClient c) s"

definition startTrackingCommand :: "nat \<Rightarrow> location_options \<Rightarrow> adapter \<Rightarrow> adapter" where
  "startTrackingCommand c opts s = (let (i, s1) = generateSessionId s in post_msg (MsgStartTracking c i opts) s1)"

definition updateTrackingOptionsCommand :: "nat \<Rightarrow> u32 \<Rightarrow> location_options \<Rightarrow> adapter \<Rightarrow> adapter" where
  "updateTrackingOptionsCommand c i opts s = post_msg (MsgUpdateTracking c i opts) s"

definition stopTrackingCommand :: "nat \<Rightarrow> u32 \<Rightarrow> adapter \<Rightarrow> adapter" where
  "stopTrackingCommand c i s = post_msg (MsgStopTracking c i) s"

definition engineUp :: "adapter \<Rightarrow> adapter" where
  "engineUp s = (post_msg MsgRestartSessions (s\<lparr>calls := EngineUp # calls s\<rparr>))\<lparr>lost := True\<rparr>"

declare post_msg_def [simp] procStartTracking_def [simp] procUpdateTracking_def [simp] procStopTracking_def [simp]
  procRemoveClient_def [simp] addClientCommand_def [simp] removeClientCommand_def [simp] startTrackingCommand_def [simp]
  updateTrackingOptionsCommand_def [simp] stopTrackingCommand_def [simp] engineUp_def [simp]

text \<open>
  What happens: a client gives a command, the modem comes up again, or the task handles its next message.
\<close>

datatype adapter_act =
    AddClient nat callbacks
  | RemoveClient nat
  | StartTracking nat location_options
  | UpdateTracking nat u32 location_options
  | StopTracking nat u32
  | ModemUp
  | NextMsg

fun adapter_step :: "engine \<Rightarrow> bool \<Rightarrow> adapter_act \<Rightarrow> adapter \<Rightarrow> adapter" where
  "adapter_step eng ext_dr (AddClient c cb) s = addClientCommand c cb s"
| "adapter_step eng ext_dr (RemoveClient c) s = removeClientCommand c s"
| "adapter_step eng ext_dr (StartTracking c opts) s = startTrackingCommand c opts s"
| "adapter_step eng ext_dr (UpdateTracking c i opts) s = updateTrackingOptionsCommand c i opts s"
| "adapter_step eng ext_dr (StopTracking c i) s = stopTrackingCommand c i s"
| "adapter_step eng ext_dr ModemUp s = engineUp s"
| "adapter_step eng ext_dr NextMsg s =
     (case msgs s of [] \<Rightarrow> s | m # ms \<Rightarrow> msg_proc eng ext_dr m (s\<lparr>msgs := ms\<rparr>))"

definition adapter_run :: "engine \<Rightarrow> bool \<Rightarrow> adapter_act list \<Rightarrow> adapter \<Rightarrow> adapter" where
  "adapter_run eng ext_dr as s = fold (adapter_step eng ext_dr) as s"

definition new_adapter :: "u32 \<Rightarrow> adapter" where
  "new_adapter nmea =
     \<lparr>mClientData = [], mTrackingSessions = [], mSessionIdCounter = 1, mNmeaMask = nmea, mEvtMask = 0,
      calls = [], responses = [], msgs = [], lost = False\<rparr>"

section \<open>What runs\<close>

text \<open>The fix that runs after some calls: that of the last start that was accepted, unless it ended since.\<close>

fun last_mode :: "engine_call list \<Rightarrow> loc_pos_mode option" where
  "last_mode [] = None"
| "last_mode (SendFixMode m # cs) = Some m"
| "last_mode (c # cs) = last_mode cs"

fun running :: "engine \<Rightarrow> engine_call list \<Rightarrow> loc_pos_mode option" where
  "running eng [] = None"
| "running eng (StartFix m # cs) = (if eng (StartFix m # cs) then Some m else running eng cs)"
| "running eng (SendStartFix # cs) = (if eng (SendStartFix # cs) then last_mode cs else running eng cs)"
| "running eng (StopFix # cs) = (if eng (StopFix # cs) then None else running eng cs)"
| "running eng (SendStopFix # cs) = (if eng (SendStopFix # cs) then None else running eng cs)"
| "running eng (SendFixMode m # cs) = running eng cs"
| "running eng (EngineUp # cs) = None"

section \<open>Starting and stopping the fix\<close>

lemma startTracking_effect:
  "startTracking eng opts s = (err, s') \<Longrightarrow>
   (\<exists>cs. s' = s\<lparr>calls := cs\<rparr> \<and>
     running eng cs = (if err = LOCATION_ERROR_SUCCESS then Some (convertOptions opts) else running eng (calls s)))"
  by (auto simp: startTracking_def do_call_def Let_def split: if_splits)

lemma stopTracking_effect:
  "stopTracking eng s = (err, s') \<Longrightarrow>
   (\<exists>cs. s' = s\<lparr>calls := cs\<rparr> \<and>
     running eng cs = (if err = LOCATION_ERROR_SUCCESS then None else running eng (calls s)))"
  by (auto simp: stopTracking_def do_call_def Let_def split: if_splits)

section \<open>The smallest interval\<close>

type_synonym sessions = "(session_key, location_options) stdmap"

definition sized :: "sessions \<Rightarrow> bool" where
  "sized m \<longleftrightarrow> (\<forall>o1 \<in> snd ` set m. opt_size o1 \<noteq> 0)"

definition least :: "sessions \<Rightarrow> u32" where
  "least m = Min (minInterval ` snd ` set m)"

lemma fold_smaller:
  "sized m \<Longrightarrow> opt_size o1 \<noteq> 0 \<Longrightarrow>
   (let r = fold smaller_options m o1
    in opt_size r \<noteq> 0 \<and> r \<in> insert o1 (snd ` set m) \<and> minInterval r = Min (minInterval ` insert o1 (snd ` set m)))"
proof (induction m arbitrary: o1)
  case (Cons e m)
  let ?o = "smaller_options e o1"
  have e: "sized m" "opt_size (snd e) \<noteq> 0" using Cons.prems by (auto simp: sized_def)
  then have o: "opt_size ?o \<noteq> 0" "?o \<in> {o1, snd e}" "minInterval ?o = min (minInterval o1) (minInterval (snd e))"
    using Cons.prems by (auto simp: smaller_options_def min_def)
  from Cons.IH [OF e(1) o(1)] have r: "opt_size (fold smaller_options m ?o) \<noteq> 0"
    "fold smaller_options m ?o \<in> insert ?o (snd ` set m)"
    "minInterval (fold smaller_options m ?o) = Min (minInterval ` insert ?o (snd ` set m))" by (simp_all add: Let_def)
  have "Min (minInterval ` insert ?o (snd ` set m)) = Min (minInterval ` insert o1 (snd ` set (e # m)))"
    using o(3) by (cases "m = []") (auto simp: min.assoc)
  with r o(2) show ?case by (auto simp: Let_def)
qed simp

lemma smallest_spec:
  assumes "sized m" and "m \<noteq> []"
  shows "minInterval (smallestIntervalOptions m) = least m" and "smallestIntervalOptions m \<in> snd ` set m"
proof -
  obtain e m' where m: "m = e # m'" using assms(2) by (cases m) auto
  then have e: "sized m'" "opt_size (snd e) \<noteq> 0" using assms(1) by (auto simp: sized_def)
  have "smallestIntervalOptions m = fold smaller_options m' (snd e)"
    by (simp add: smallestIntervalOptions_def m smaller_options_def no_options_def)
  with fold_smaller [OF e] show "minInterval (smallestIntervalOptions m) = least m" "smallestIntervalOptions m \<in> snd ` set m"
    by (simp_all add: Let_def least_def m)
qed

lemma others_erase: "others key s = map_erase key (mTrackingSessions s)"
  by (simp add: others_def map_erase_def)

lemma set_map_erase: "set (map_erase k m) = {e \<in> set m. fst e \<noteq> k}"
  by (auto simp: map_erase_def)

lemma set_map_put: "map_ok m \<Longrightarrow> set (map_put k v m) = insert (k, v) (set (map_erase k m))"
proof -
  assume ok: "map_ok m"
  have "(k', v') \<in> set (map_put k v m) \<longleftrightarrow> (k', v') \<in> insert (k, v) (set (map_erase k m))" for k' v'
    using map_of_mem [of "map_put k v m" k' v'] map_of_mem [OF ok, of k' v'] ok by (auto simp: set_map_erase split: if_splits)
  then show ?thesis by auto
qed

lemma sized_erase: "sized m \<Longrightarrow> sized (map_erase k m)"
  by (auto simp: sized_def set_map_erase)

lemma sized_put: "map_ok m \<Longrightarrow> sized m \<Longrightarrow> opt_size v \<noteq> 0 \<Longrightarrow> sized (map_put k v m)"
  by (auto simp: sized_def set_map_put set_map_erase)

lemma map_put_Nil_iff [simp]: "map_put k v m \<noteq> []"
  by (cases "(k, v, m)" rule: map_put.cases) auto

text \<open>Saving a session, and a session among the others.\<close>

lemma least_put:
  "map_ok m \<Longrightarrow> least (map_put k v m) =
    (if map_erase k m = [] then minInterval v else min (minInterval v) (least (map_erase k m)))"
  by (auto simp: least_def set_map_put)

lemma map_put_erase:
  "map_ok m \<Longrightarrow> map_of m k = Some v \<Longrightarrow> set m = insert (k, v) (set (map_erase k m))"
proof -
  assume ok: "map_ok m" "map_of m k = Some v"
  have "(k, v') \<in> set m \<longleftrightarrow> v' = v" for v'
    unfolding map_of_mem [OF ok(1), symmetric] ok(2) by auto
  then have "e \<in> set m \<longleftrightarrow> e = (k, v) \<or> e \<in> set m \<and> fst e \<noteq> k" for e
    by (metis prod.collapse)
  then show ?thesis unfolding set_map_erase by blast
qed

lemma least_split:
  "map_ok m \<Longrightarrow> map_of m k = Some v \<Longrightarrow> least m =
    (if map_erase k m = [] then minInterval v else min (minInterval v) (least (map_erase k m)))"
  by (auto simp: least_def map_put_erase [of m k v])

lemma map_erase_length:
  "map_ok m \<Longrightarrow> map_of m k = Some v \<Longrightarrow> length m = Suc (length (map_erase k m))"
proof (induction m)
  case (Cons e m)
  obtain k' v' where e: "e = (k', v')" by fastforce
  from Cons.prems(1) have ok: "map_ok m" "\<forall>x \<in> set m. k' < fst x" by (auto simp: map_ok_def e)
  show ?case
  proof (cases "k' = k")
    case True
    with ok(2) have "map_erase k m = m" by (auto simp: map_erase_def intro!: filter_True)
    with True show ?thesis by (simp add: map_erase_def e)
  next
    case False
    with Cons e ok show ?thesis by (simp add: map_erase_def)
  qed
qed simp

lemma one_session:
  "map_ok m \<Longrightarrow> map_of m k = Some v \<Longrightarrow> length m = 1 \<longleftrightarrow> map_erase k m = []"
  using map_erase_length [of m k v] by simp

section \<open>The invariant\<close>

text \<open>The fix runs with the smallest interval of the sessions; without a session none runs.\<close>

definition runs :: "engine \<Rightarrow> sessions \<Rightarrow> engine_call list \<Rightarrow> bool" where
  "runs eng m cs = (case running eng cs of None \<Rightarrow> m = [] | Some pm \<Rightarrow> m \<noteq> [] \<and> min_interval pm = least m)"

definition quiet :: "engine \<Rightarrow> sessions \<Rightarrow> engine_call list \<Rightarrow> bool" where
  "quiet eng m cs \<longleftrightarrow> (m = [] \<longrightarrow> running eng cs = None)"

definition sess_ok :: "engine \<Rightarrow> adapter \<Rightarrow> bool" where
  "sess_ok eng s \<longleftrightarrow> map_ok (mTrackingSessions s) \<and> sized (mTrackingSessions s) \<and>
     quiet eng (mTrackingSessions s) (calls s) \<and> (\<not> lost s \<longrightarrow> runs eng (mTrackingSessions s) (calls s))"

lemma runs_quiet: "runs eng m cs \<Longrightarrow> quiet eng m cs"
  by (auto simp: runs_def quiet_def split: option.splits)

lemma convertOptions_interval [simp]: "min_interval (convertOptions opts) = minInterval opts"
  by (simp add: convertOptions_def)

lemma start_multiplex_ok:
  assumes "sess_ok eng s" and "opt_size opts \<noteq> 0" and "map_of (mTrackingSessions s) (i, c) = None"
    and "startTrackingMultiplex eng opts s = (err, s')"
  shows "sess_ok eng (if err = LOCATION_ERROR_SUCCESS then saveTrackingSession c i opts s' else s')"
proof -
  let ?m = "mTrackingSessions s"
  have m: "map_ok ?m" "sized ?m" using assms(1) by (simp_all add: sess_ok_def)
  have er: "map_erase (i, c) ?m = ?m"
    using assms(3) by (force simp: map_erase_def map_of_eq_None_iff intro!: filter_True)
  obtain cs where cs: "s' = s\<lparr>calls := cs\<rparr>"
    "running eng cs = (if err = LOCATION_ERROR_SUCCESS \<and> (?m = [] \<or> minInterval opts < least ?m) then Some (convertOptions opts) else running eng (calls s))"
    "\<not> (?m = [] \<or> minInterval opts < least ?m) \<Longrightarrow> err = LOCATION_ERROR_SUCCESS"
    using assms(4) startTracking_effect [of eng opts s err s'] smallest_spec(1) [OF m(2)]
    by (cases "?m = []"; cases "minInterval opts < least ?m")
      (auto simp: startTrackingMultiplex_def intro: that [of "calls s"])
  have "least (map_put (i, c) opts ?m) = (if ?m = [] then minInterval opts else min (minInterval opts) (least ?m))"
    using least_put [OF m(1), of "(i, c)" opts] er by simp
  with cs assms(1,2) m show ?thesis
    by (auto simp: sess_ok_def saveTrackingSession_def runs_def quiet_def sized_put min_def split: option.splits if_splits)
qed

lemma update_multiplex_ok:
  assumes "sess_ok eng s" and "opt_size opts \<noteq> 0" and "map_of (mTrackingSessions s) (i, c) = Some old"
    and "updateTrackingMultiplex eng c i opts s = (err, s')"
  shows "sess_ok eng (if err = LOCATION_ERROR_SUCCESS then saveTrackingSession c i opts s' else s')"
proof -
  let ?m = "mTrackingSessions s" and ?o = "map_erase (i, c) (mTrackingSessions s)"
  have m: "map_ok ?m" "sized ?m" "?m \<noteq> []" using assms(1,3) by (auto simp: sess_ok_def)
  note sp = least_put [OF m(1), of "(i, c)" opts] least_split [OF m(1) assms(3)] one_session [OF m(1) assms(3)]
    smallest_spec(1) [OF sized_erase [OF m(2)], of "(i, c)"]
  have "\<exists>cs. s' = s\<lparr>calls := cs\<rparr> \<and>
    (err \<noteq> LOCATION_ERROR_SUCCESS \<longrightarrow> running eng cs = running eng (calls s)) \<and>
    (err = LOCATION_ERROR_SUCCESS \<longrightarrow>
       (\<exists>pm. running eng cs = Some pm \<and> min_interval pm = least (map_put (i, c) opts ?m)) \<or>
       running eng cs = running eng (calls s) \<and> ?o \<noteq> [] \<and> minInterval opts \<ge> least ?o \<and> minInterval old \<ge> least ?o)"
  proof (cases "?o = []")
    case True
    with sp assms(4) have st: "startTracking eng opts s = (err, s')" by (simp add: updateTrackingMultiplex_def)
    from startTracking_effect [OF this] True sp(1) show ?thesis by auto
  next
    case False
    note sm = sp(4) [OF False]
    consider "minInterval opts < least ?o" "startTracking eng opts s = (err, s')"
      | "\<not> minInterval opts < least ?o" "minInterval old < least ?o" "startTracking eng (smallestIntervalOptions ?o) s = (err, s')"
      | "\<not> minInterval opts < least ?o" "\<not> minInterval old < least ?o" "err = LOCATION_ERROR_SUCCESS" "s' = s"
      using assms(3,4) sp(3) False sm by (auto simp: updateTrackingMultiplex_def others_erase Let_def split: if_splits)
    then show ?thesis
    proof cases
      case 1
      then have "least (map_put (i, c) opts ?m) = minInterval opts" using sp(1) False by (simp add: min_absorb1 less_imp_le)
      with startTracking_effect [OF 1(2)] show ?thesis by auto
    next
      case 2
      then have "least (map_put (i, c) opts ?m) = least ?o" using sp(1) False by (simp add: min_absorb2 not_less)
      with startTracking_effect [OF 2(3)] sm show ?thesis by auto
    next
      case 3
      with False show ?thesis by (intro exI [of _ "calls s"]) auto
    qed
  qed
  then obtain cs where cs: "s' = s\<lparr>calls := cs\<rparr>"
    "err \<noteq> LOCATION_ERROR_SUCCESS \<Longrightarrow> running eng cs = running eng (calls s)"
    "err = LOCATION_ERROR_SUCCESS \<Longrightarrow> (\<exists>pm. running eng cs = Some pm \<and> min_interval pm = least (map_put (i, c) opts ?m)) \<or>
       running eng cs = running eng (calls s) \<and> ?o \<noteq> [] \<and> minInterval opts \<ge> least ?o \<and> minInterval old \<ge> least ?o" by blast
  have "runs eng ?m (calls s) \<Longrightarrow> ?o \<noteq> [] \<Longrightarrow> minInterval opts \<ge> least ?o \<Longrightarrow> minInterval old \<ge> least ?o \<Longrightarrow>
      runs eng (map_put (i, c) opts ?m) (calls s)"
    using sp m(3) by (auto simp: runs_def min_def split: option.splits)
  then show ?thesis using cs assms(1,2) m
    by (auto simp: sess_ok_def saveTrackingSession_def runs_def quiet_def sized_put split: option.splits)
qed

lemma stop_multiplex_ok:
  assumes "sess_ok eng s" and "map_of (mTrackingSessions s) (i, c) = Some old"
    and "stopTrackingMultiplex eng c i s = (err, s')"
  shows "sess_ok eng (if err = LOCATION_ERROR_SUCCESS then eraseTrackingSession c i s' else s')"
    and "\<exists>cs. s' = s\<lparr>calls := cs\<rparr>"
proof -
  let ?m = "mTrackingSessions s" and ?o = "map_erase (i, c) (mTrackingSessions s)"
  have m: "map_ok ?m" "sized ?m" "?m \<noteq> []" using assms(1,2) by (auto simp: sess_ok_def)
  note sp = least_split [OF m(1) assms(2)] one_session [OF m(1) assms(2)]
    smallest_spec(1) [OF sized_erase [OF m(2)], of "(i, c)"]
  have "\<exists>cs. s' = s\<lparr>calls := cs\<rparr> \<and>
    (err \<noteq> LOCATION_ERROR_SUCCESS \<longrightarrow> running eng cs = running eng (calls s)) \<and>
    (err = LOCATION_ERROR_SUCCESS \<longrightarrow> (if ?o = [] then running eng cs = None else
       (\<exists>pm. running eng cs = Some pm \<and> min_interval pm = least ?o) \<or>
       running eng cs = running eng (calls s) \<and> minInterval old \<ge> least ?o))"
  proof (cases "?o = []")
    case True
    with sp assms(3) have "stopTracking eng s = (err, s')" by (simp add: stopTrackingMultiplex_def)
    from stopTracking_effect [OF this] True show ?thesis by auto
  next
    case False
    note sm = sp(3) [OF False]
    consider "minInterval old < least ?o" "startTracking eng (smallestIntervalOptions ?o) s = (err, s')"
      | "\<not> minInterval old < least ?o" "err = LOCATION_ERROR_SUCCESS" "s' = s"
      using assms(2,3) sp(2) False sm by (auto simp: stopTrackingMultiplex_def others_erase Let_def split: if_splits)
    then show ?thesis
    proof cases
      case 1
      from startTracking_effect [OF 1(2)] 1(1) False sm show ?thesis by auto
    next
      case 2
      with False show ?thesis by (intro exI [of _ "calls s"]) auto
    qed
  qed
  then obtain cs where cs: "s' = s\<lparr>calls := cs\<rparr>"
    "err \<noteq> LOCATION_ERROR_SUCCESS \<Longrightarrow> running eng cs = running eng (calls s)"
    "err = LOCATION_ERROR_SUCCESS \<Longrightarrow> (if ?o = [] then running eng cs = None else
       (\<exists>pm. running eng cs = Some pm \<and> min_interval pm = least ?o) \<or>
       running eng cs = running eng (calls s) \<and> minInterval old \<ge> least ?o)" by blast
  then show "\<exists>cs. s' = s\<lparr>calls := cs\<rparr>" by blast
  have "runs eng ?m (calls s) \<Longrightarrow> ?o \<noteq> [] \<Longrightarrow> minInterval old \<ge> least ?o \<Longrightarrow> runs eng ?o (calls s)"
    using sp(1) m(3) by (auto simp: runs_def min_def split: option.splits)
  then show "sess_ok eng (if err = LOCATION_ERROR_SUCCESS then eraseTrackingSession c i s' else s')"
    using cs assms(1) m
    by (auto simp: sess_ok_def eraseTrackingSession_def runs_def quiet_def sized_erase split: option.splits if_splits)
qed

section \<open>Histories\<close>

lemma session_mem: "map_of (mTrackingSessions s) k = Some v \<Longrightarrow> (k, v) \<in> set (mTrackingSessions s)"
  by (rule map_of_SomeD)

definition accepts :: "engine \<Rightarrow> bool" where
  "accepts eng \<longleftrightarrow> (\<forall>pm cs. eng (StartFix pm # cs)) \<and> (\<forall>cs. eng (StopFix # cs))"

text \<open>Stopping all sessions of a client, whatever the engine answers.\<close>

lemma stop_sessions_ok:
  assumes "sess_ok eng s" and "distinct ks" and "set ks \<subseteq> fst ` set (mTrackingSessions s)"
  shows "\<exists>cs m. stop_sessions eng c ks s = s\<lparr>calls := cs, mTrackingSessions := m\<rparr> \<and>
    sess_ok eng (s\<lparr>calls := cs, mTrackingSessions := m\<rparr>) \<and> set m \<subseteq> set (mTrackingSessions s) \<and>
    (\<forall>e \<in> set (mTrackingSessions s). snd (fst e) \<noteq> c \<or> fst e \<notin> set ks \<longrightarrow> e \<in> set m) \<and>
    (accepts eng \<longrightarrow> (\<forall>e \<in> set m. snd (fst e) = c \<longrightarrow> fst e \<notin> set ks))"
  using assms
proof (induction ks arbitrary: s)
  case Nil
  then show ?case by (intro exI [of _ "calls s"] exI [of _ "mTrackingSessions s"]) simp
next
  case (Cons k ks)
  obtain i c' where k: "k = (i, c')" by fastforce
  show ?case
  proof (cases "c = c'")
    case False
    from Cons.IH [OF Cons.prems(1)] Cons.prems(2,3) obtain cs m where
      m: "stop_sessions eng c ks s = s\<lparr>calls := cs, mTrackingSessions := m\<rparr>"
        "sess_ok eng (s\<lparr>calls := cs, mTrackingSessions := m\<rparr>)" "set m \<subseteq> set (mTrackingSessions s)"
        "\<forall>e \<in> set (mTrackingSessions s). snd (fst e) \<noteq> c \<or> fst e \<notin> set ks \<longrightarrow> e \<in> set m"
        "accepts eng \<longrightarrow> (\<forall>e \<in> set m. snd (fst e) = c \<longrightarrow> fst e \<notin> set ks)" by auto
    have "snd (fst e) \<noteq> c \<or> fst e \<notin> set ks \<longleftrightarrow> snd (fst e) \<noteq> c \<or> fst e \<notin> set (k # ks)"
      "(snd (fst e) = c \<longrightarrow> fst e \<notin> set ks) \<longleftrightarrow> (snd (fst e) = c \<longrightarrow> fst e \<notin> set (k # ks))" for e :: "session_key \<times> location_options"
      using False k by auto
    with m False k show ?thesis
      by (intro exI [of _ cs] exI [of _ m]) (simp only: stop_sessions.simps if_False simp_thms)
  next
    case True
    have "map_of (mTrackingSessions s) (i, c) \<noteq> None" using Cons.prems(3) True k by (simp add: map_of_eq_None_iff)
    then obtain old where old: "map_of (mTrackingSessions s) (i, c) = Some old" by blast
    obtain err s1 where st: "stopTrackingMultiplex eng c i s = (err, s1)" by fastforce
    note ok = stop_multiplex_ok [OF Cons.prems(1) old st]
    then obtain cs where cs: "s1 = s\<lparr>calls := cs\<rparr>" by blast
    have acc: "accepts eng \<Longrightarrow> err = LOCATION_ERROR_SUCCESS"
      using st old by (auto simp: accepts_def stopTrackingMultiplex_def startTracking_def stopTracking_def do_call_def Let_def split: if_splits)
    let ?s = "if err = LOCATION_ERROR_SUCCESS then eraseTrackingSession c i s1 else s1"
    have eq: "stop_sessions eng c (k # ks) s = stop_sessions eng c ks ?s" by (simp add: k True [symmetric] st)
    have sub: "set ks \<subseteq> fst ` set (mTrackingSessions ?s)"
      using Cons.prems(2,3) k True cs by (force simp: eraseTrackingSession_def set_map_erase)
    from Cons.IH [OF ok(1) _ sub] Cons.prems(2) obtain cs' m where
      m: "stop_sessions eng c ks ?s = ?s\<lparr>calls := cs', mTrackingSessions := m\<rparr>"
        "sess_ok eng (?s\<lparr>calls := cs', mTrackingSessions := m\<rparr>)" "set m \<subseteq> set (mTrackingSessions ?s)"
        "\<forall>e \<in> set (mTrackingSessions ?s). snd (fst e) \<noteq> c \<or> fst e \<notin> set ks \<longrightarrow> e \<in> set m"
        "accepts eng \<longrightarrow> (\<forall>e \<in> set m. snd (fst e) = c \<longrightarrow> fst e \<notin> set ks)"
      by auto
    have fr: "?s\<lparr>calls := cs', mTrackingSessions := m\<rparr> = s\<lparr>calls := cs', mTrackingSessions := m\<rparr>"
      by (simp add: cs eraseTrackingSession_def)
    have se: "set (mTrackingSessions ?s) = (if err = LOCATION_ERROR_SUCCESS then {e \<in> set (mTrackingSessions s). fst e \<noteq> k} else set (mTrackingSessions s))"
      by (simp add: cs eraseTrackingSession_def set_map_erase k True)
    have keep: "\<forall>e \<in> set (mTrackingSessions s). snd (fst e) \<noteq> c \<or> fst e \<notin> set (k # ks) \<longrightarrow> e \<in> set m"
    proof (intro ballI impI)
      fix e assume "e \<in> set (mTrackingSessions s)" "snd (fst e) \<noteq> c \<or> fst e \<notin> set (k # ks)"
      moreover from this(2) have "fst e \<noteq> k" using k True by auto
      ultimately show "e \<in> set m" using m(4) [unfolded se] by (auto split: if_splits)
    qed
    have gone: "accepts eng \<longrightarrow> (\<forall>e \<in> set m. snd (fst e) = c \<longrightarrow> fst e \<notin> set (k # ks))"
      using m(3,5) acc by (auto simp: se split: if_splits)
    have "set m \<subseteq> set (mTrackingSessions s)" using m(3) by (auto simp: se split: if_splits)
    with eq m(1,2) [unfolded fr] keep gone show ?thesis by (intro exI [of _ cs'] exI [of _ m]) simp
  qed
qed

lemma sess_ok_frame [simp]:
  "sess_ok eng (s\<lparr>mClientData := d\<rparr>) = sess_ok eng s" "sess_ok eng (s\<lparr>mEvtMask := e\<rparr>) = sess_ok eng s"
  "sess_ok eng (s\<lparr>msgs := ms\<rparr>) = sess_ok eng s" "sess_ok eng (s\<lparr>mSessionIdCounter := n\<rparr>) = sess_ok eng s"
  "sess_ok eng (s\<lparr>responses := r\<rparr>) = sess_ok eng s" "sess_ok eng (reportResponse c err i s) = sess_ok eng s"
  "sess_ok eng (saveClient b c cb s) = sess_ok eng s" "sess_ok eng (eraseClient b c s) = sess_ok eng s"
  by (auto simp: sess_ok_def reportResponse_def saveClient_def eraseClient_def updateClientsEventMask_def Let_def
      split: option.splits)

lemma map_ok_distinct: "map_ok m \<Longrightarrow> distinct (map fst m)"
  by (simp add: map_ok_def strict_sorted_iff)

lemma stopClientSessions_ok:
  assumes "sess_ok eng s"
  shows "\<exists>cs m. stopClientSessions eng c s = s\<lparr>calls := cs, mTrackingSessions := m\<rparr> \<and>
    sess_ok eng (s\<lparr>calls := cs, mTrackingSessions := m\<rparr>) \<and> set m \<subseteq> set (mTrackingSessions s) \<and>
    (\<forall>e \<in> set (mTrackingSessions s). snd (fst e) \<noteq> c \<longrightarrow> e \<in> set m) \<and>
    (accepts eng \<longrightarrow> (\<forall>e \<in> set m. snd (fst e) \<noteq> c))"
proof -
  have "map_ok (mTrackingSessions s)" using assms by (simp add: sess_ok_def)
  from stop_sessions_ok [OF assms map_ok_distinct [OF this], of c] obtain cs m where
    m: "stopClientSessions eng c s = s\<lparr>calls := cs, mTrackingSessions := m\<rparr>"
      "sess_ok eng (s\<lparr>calls := cs, mTrackingSessions := m\<rparr>)" "set m \<subseteq> set (mTrackingSessions s)"
      "\<forall>e \<in> set (mTrackingSessions s). snd (fst e) \<noteq> c \<or> fst e \<notin> fst ` set (mTrackingSessions s) \<longrightarrow> e \<in> set m"
      "accepts eng \<longrightarrow> (\<forall>e \<in> set m. snd (fst e) = c \<longrightarrow> fst e \<notin> fst ` set (mTrackingSessions s))"
    unfolding stopClientSessions_def by auto
  then have "\<forall>e \<in> set m. fst e \<in> fst ` set (mTrackingSessions s)" by blast
  with m show ?thesis by blast
qed

lemma restart_ok:
  assumes "sess_ok eng s"
  shows "sess_ok eng (restartSessions eng s)"
proof (cases "mTrackingSessions s = []")
  case True
  with assms show ?thesis by (simp add: restartSessions_def sess_ok_def runs_def quiet_def)
next
  case False
  have "sized (mTrackingSessions s)" using assms by (simp add: sess_ok_def)
  from smallest_spec(1) [OF this False] assms False show ?thesis
    by (auto simp: restartSessions_def do_call_def Let_def sess_ok_def runs_def quiet_def)
qed

text \<open>The keys of sessions to come are new, as long as the counter has not wrapped.\<close>

definition pending_ids :: "adapter_msg list \<Rightarrow> u32 list" where
  "pending_ids ms = concat (map (\<lambda>m. case m of MsgStartTracking c i opts \<Rightarrow> [i] | _ \<Rightarrow> []) ms)"

lemma pending_ids_simps [simp]:
  "pending_ids [] = []" "pending_ids (MsgStartTracking c i opts # ms) = i # pending_ids ms"
  "pending_ids (MsgAddClient c cb # ms) = pending_ids ms" "pending_ids (MsgRemoveClient c # ms) = pending_ids ms"
  "pending_ids (MsgUpdateTracking c i opts # ms) = pending_ids ms" "pending_ids (MsgStopTracking c i # ms) = pending_ids ms"
  "pending_ids (MsgRestartSessions # ms) = pending_ids ms" "pending_ids (ms @ ns) = pending_ids ms @ pending_ids ns"
  by (simp_all add: pending_ids_def)

definition ids_of :: "adapter \<Rightarrow> u32 set" where
  "ids_of s = (\<lambda>e. fst (fst e)) ` set (mTrackingSessions s)"

definition ids_ok :: "nat \<Rightarrow> adapter \<Rightarrow> bool" where
  "ids_ok n s \<longleftrightarrow> unat (mSessionIdCounter s) \<le> Suc n \<and> distinct (pending_ids (msgs s)) \<and>
     set (pending_ids (msgs s)) \<inter> ids_of s = {} \<and>
     (\<forall>i \<in> set (pending_ids (msgs s)) \<union> ids_of s. i \<le> mSessionIdCounter s)"

lemma next_id:
  assumes "unat (mSessionIdCounter s) \<le> Suc n" and "n < 4294967293"
  shows "\<exists>s1. generateSessionId s = (mSessionIdCounter s + 1, s1) \<and> s1 = s\<lparr>mSessionIdCounter := mSessionIdCounter s + 1\<rparr> \<and>
    unat (mSessionIdCounter s + 1) \<le> Suc (Suc n) \<and> mSessionIdCounter s < mSessionIdCounter s + 1"
proof -
  let ?c = "mSessionIdCounter s"
  have u: "unat (?c + 1) = Suc (unat ?c)" using assms by (subst unat_add_lem [THEN iffD1]) simp_all
  have "?c + 1 \<noteq> 0xFFFFFFFF"
  proof
    assume "?c + 1 = 0xFFFFFFFF"
    then have "unat (?c + 1) = unat (0xFFFFFFFF :: u32)" by simp
    with u assms show False by simp
  qed
  moreover have "?c < ?c + 1" using u by (simp add: word_less_nat_alt)
  ultimately show ?thesis using u assms(1) by (simp add: generateSessionId_def Let_def)
qed

lemma ids_of_mono: "set (mTrackingSessions s') \<subseteq> set (mTrackingSessions s) \<Longrightarrow> ids_of s' \<subseteq> ids_of s"
  by (auto simp: ids_of_def)

lemma ids_ok_mono:
  "ids_ok n s \<Longrightarrow> mSessionIdCounter s' = mSessionIdCounter s \<Longrightarrow> pending_ids (msgs s') = pending_ids (msgs s) \<Longrightarrow>
   ids_of s' \<subseteq> ids_of s \<Longrightarrow> ids_ok n s'"
  by (auto simp: ids_ok_def)

text \<open>The client data, messages and counter are not touched by what a session does.\<close>

lemma multiplex_frame:
  "startTrackingMultiplex eng opts s = (err, s') \<Longrightarrow> \<exists>cs. s' = s\<lparr>calls := cs\<rparr>"
  "updateTrackingMultiplex eng c i opts s = (err, s') \<Longrightarrow> \<exists>cs. s' = s\<lparr>calls := cs\<rparr>"
proof -
  have self: "\<exists>cs. s = s\<lparr>calls := cs\<rparr>" by (rule exI [of _ "calls s"]) simp
  show "startTrackingMultiplex eng opts s = (err, s') \<Longrightarrow> \<exists>cs. s' = s\<lparr>calls := cs\<rparr>"
    using startTracking_effect [of eng _ s err s'] self by (auto simp: startTrackingMultiplex_def split: if_splits)
  show "updateTrackingMultiplex eng c i opts s = (err, s') \<Longrightarrow> \<exists>cs. s' = s\<lparr>calls := cs\<rparr>"
    using startTracking_effect [of eng _ s err s'] self
    by (auto simp: updateTrackingMultiplex_def Let_def split: if_splits option.splits)
qed

lemma reportResponse_fields [simp]:
  "mTrackingSessions (reportResponse c err i s) = mTrackingSessions s" "msgs (reportResponse c err i s) = msgs s"
  "mSessionIdCounter (reportResponse c err i s) = mSessionIdCounter s" "mClientData (reportResponse c err i s) = mClientData s"
  "calls (reportResponse c err i s) = calls s" "lost (reportResponse c err i s) = lost s" "mEvtMask (reportResponse c err i s) = mEvtMask s"
  by (auto simp: reportResponse_def split: option.splits)

lemma client_fields [simp]:
  "mTrackingSessions (saveClient b c cb s) = mTrackingSessions s" "mTrackingSessions (eraseClient b c s) = mTrackingSessions s"
  "msgs (saveClient b c cb s) = msgs s" "msgs (eraseClient b c s) = msgs s"
  "mSessionIdCounter (saveClient b c cb s) = mSessionIdCounter s" "mSessionIdCounter (eraseClient b c s) = mSessionIdCounter s"
  "mClientData (saveClient b c cb s) = map_put c cb (mClientData s)" "mClientData (eraseClient b c s) = map_erase c (mClientData s)"
  "calls (saveClient b c cb s) = calls s" "calls (eraseClient b c s) = calls s"
  by (simp_all add: saveClient_def eraseClient_def updateClientsEventMask_def Let_def)

lemma map_of_put_same: "map_ok m \<Longrightarrow> map_of m k = Some v \<Longrightarrow> fst ` set (map_put k w m) = fst ` set m"
  using map_of_SomeD [of m k v] by (auto simp: map_put_keys intro: rev_image_eqI)

lemma next_msg_ok:
  assumes "sess_ok eng s" and "ids_ok n s" and "msgs s = a # ms"
  shows "sess_ok eng (msg_proc eng ext_dr a (s\<lparr>msgs := ms\<rparr>)) \<and> ids_ok n (msg_proc eng ext_dr a (s\<lparr>msgs := ms\<rparr>))"
proof -
  let ?s = "s\<lparr>msgs := ms\<rparr>"
  have ok: "sess_ok eng ?s" using assms(1) by simp
  then have m: "map_ok (mTrackingSessions ?s)" by (simp add: sess_ok_def)
  show ?thesis
  proof (cases a)
    case (MsgAddClient c cb)
    with ok assms show ?thesis by (auto intro!: ids_ok_mono [OF assms(2)] simp: ids_of_def)
  next
    case (MsgRemoveClient c)
    from stopClientSessions_ok [OF ok, of c] obtain cs m' where
      "stopClientSessions eng c ?s = ?s\<lparr>calls := cs, mTrackingSessions := m'\<rparr>"
      "sess_ok eng (?s\<lparr>calls := cs, mTrackingSessions := m'\<rparr>)" "set m' \<subseteq> set (mTrackingSessions s)" by auto
    with MsgRemoveClient assms show ?thesis by (auto intro!: ids_ok_mono [OF assms(2)] ids_of_mono)
  next
    case (MsgStartTracking c i opts)
    then have fresh: "map_of (mTrackingSessions ?s) (i, c) = None" "i \<notin> ids_of s" "i \<notin> set (pending_ids ms)"
      "i \<le> mSessionIdCounter s" using assms(2,3) by (force simp: ids_ok_def ids_of_def map_of_eq_None_iff)+
    have ids: "ids_ok n s'" if "mSessionIdCounter s' = mSessionIdCounter s" "msgs s' = ms" "ids_of s' \<subseteq> insert i (ids_of s)" for s'
      using that assms(2,3) MsgStartTracking fresh by (auto simp: ids_ok_def)
    show ?thesis
    proof (cases "\<not> hasTrackingCallback c ?s \<and> \<not> hasMeasurementsCallback c ?s \<or> opt_size opts = 0")
      case True
      then show ?thesis using ok MsgStartTracking by (auto intro!: ids simp: ids_of_def)
    next
      case False
      obtain err s1 where st: "startTrackingMultiplex eng opts ?s = (err, s1)" by fastforce
      from multiplex_frame(1) [OF st] obtain cs where s1: "s1 = ?s\<lparr>calls := cs\<rparr>" by blast
      let ?t = "if err = LOCATION_ERROR_SUCCESS then saveTrackingSession c i opts s1 else s1"
      from start_multiplex_ok [OF ok _ fresh(1) st] False have "sess_ok eng ?t" by blast
      moreover have "ids_of (saveTrackingSession c i opts s1) \<subseteq> insert i (ids_of s)"
        using m by (auto simp: s1 saveTrackingSession_def ids_of_def set_map_put set_map_erase)
      moreover have "ids_of s1 \<subseteq> insert i (ids_of s)" by (auto simp: s1 ids_of_def)
      ultimately have t: "sess_ok eng ?t" "ids_of ?t \<subseteq> insert i (ids_of s)" "mSessionIdCounter ?t = mSessionIdCounter s" "msgs ?t = ms"
        by (simp_all add: s1 saveTrackingSession_def)
      have "msg_proc eng ext_dr a ?s = reportResponse c err i ?t" using False MsgStartTracking st by auto
      moreover have "ids_of (reportResponse c err i ?t) = ids_of ?t" by (simp add: ids_of_def)
      ultimately show ?thesis using t ids [of "reportResponse c err i ?t"] by simp
    qed
  next
    case (MsgUpdateTracking c i opts)
    show ?thesis
    proof (cases "isTrackingSession c i ?s \<and> opt_size opts \<noteq> 0")
      case False
      then show ?thesis using ok MsgUpdateTracking assms
        by (auto intro!: ids_ok_mono [OF assms(2)] simp: ids_of_def)
    next
      case True
      then obtain old where old: "map_of (mTrackingSessions ?s) (i, c) = Some old" by (auto simp: isTrackingSession_def)
      obtain err s1 where st: "updateTrackingMultiplex eng c i opts ?s = (err, s1)" by fastforce
      from multiplex_frame(2) [OF st] obtain cs where s1: "s1 = ?s\<lparr>calls := cs\<rparr>" by blast
      let ?t = "if err = LOCATION_ERROR_SUCCESS then saveTrackingSession c i opts s1 else s1"
      from update_multiplex_ok [OF ok _ old st] True have "sess_ok eng ?t" by blast
      moreover have "ids_of (saveTrackingSession c i opts s1) \<subseteq> ids_of s"
        using map_of_put_same [OF m old, of opts] by (force simp: s1 saveTrackingSession_def ids_of_def image_image [symmetric])
      moreover have "ids_of s1 \<subseteq> ids_of s" by (auto simp: s1 ids_of_def)
      ultimately have t: "sess_ok eng ?t" "ids_of ?t \<subseteq> ids_of s" "mSessionIdCounter ?t = mSessionIdCounter s" "msgs ?t = ms"
        by (simp_all add: s1 saveTrackingSession_def)
      have "msg_proc eng ext_dr a ?s = reportResponse c err i ?t" using True MsgUpdateTracking st by auto
      moreover have "ids_of (reportResponse c err i ?t) = ids_of ?t" by (simp add: ids_of_def)
      ultimately show ?thesis using t ids_ok_mono [OF assms(2), of "reportResponse c err i ?t"] assms(3) MsgUpdateTracking by simp
    qed
  next
    case (MsgStopTracking c i)
    show ?thesis
    proof (cases "isTrackingSession c i ?s")
      case False
      then show ?thesis using ok MsgStopTracking assms by (auto intro!: ids_ok_mono [OF assms(2)] simp: ids_of_def)
    next
      case True
      then obtain old where old: "map_of (mTrackingSessions ?s) (i, c) = Some old" by (auto simp: isTrackingSession_def)
      obtain err s1 where st: "stopTrackingMultiplex eng c i ?s = (err, s1)" by fastforce
      note stop = stop_multiplex_ok [OF ok old st]
      from stop(2) obtain cs where s1: "s1 = ?s\<lparr>calls := cs\<rparr>" by blast
      let ?t = "if err = LOCATION_ERROR_SUCCESS then eraseTrackingSession c i s1 else s1"
      have t: "ids_of ?t \<subseteq> ids_of s" "mSessionIdCounter ?t = mSessionIdCounter s" "msgs ?t = ms"
        by (auto simp: s1 eraseTrackingSession_def ids_of_def set_map_erase)
      have "msg_proc eng ext_dr a ?s = reportResponse c err i ?t" using True MsgStopTracking st by auto
      moreover have "ids_of (reportResponse c err i ?t) = ids_of ?t" by (simp add: ids_of_def)
      ultimately show ?thesis
        using t stop(1) ids_ok_mono [OF assms(2), of "reportResponse c err i ?t"] assms(3) MsgStopTracking by simp
    qed
  next
    case MsgRestartSessions
    have "ids_ok n (restartSessions eng ?s)" using assms MsgRestartSessions
      by (auto intro!: ids_ok_mono [OF assms(2)] simp: restartSessions_def do_call_def Let_def ids_of_def)
    with MsgRestartSessions restart_ok [OF ok] show ?thesis by simp
  qed
qed

lemma adapter_step_ok:
  assumes "sess_ok eng s" and "ids_ok n s" and "n < 4294967293"
  shows "sess_ok eng (adapter_step eng ext_dr a s) \<and> ids_ok (Suc n) (adapter_step eng ext_dr a s)"
proof -
  have up: "ids_ok n s' \<Longrightarrow> ids_ok (Suc n) s'" for s' by (simp add: ids_ok_def)
  have same: "ids_ok (Suc n) (s\<lparr>msgs := msgs s @ [b]\<rparr>)" if "pending_ids [b] = []" for b
    using assms(2) that by (intro up ids_ok_mono [OF assms(2)]) (auto simp: ids_of_def)
  show ?thesis
  proof (cases a)
    case (StartTracking c opts)
    from next_id [OF _ assms(3), of s] assms(2) obtain s1 where
      s1: "generateSessionId s = (mSessionIdCounter s + 1, s1)" "s1 = s\<lparr>mSessionIdCounter := mSessionIdCounter s + 1\<rparr>"
        "unat (mSessionIdCounter s + 1) \<le> Suc (Suc n)" "mSessionIdCounter s < mSessionIdCounter s + 1" by (auto simp: ids_ok_def)
    have "ids_ok (Suc n) (s1\<lparr>msgs := msgs s1 @ [MsgStartTracking c (mSessionIdCounter s + 1) opts]\<rparr>)"
      using assms(2) s1(3,4) unfolding s1(2) ids_ok_def ids_of_def
      by (auto dest: bspec leD intro: order.trans less_imp_le)
    with StartTracking s1 assms(1) show ?thesis by simp
  next
    case ModemUp
    have "sess_ok eng (s\<lparr>calls := EngineUp # calls s, msgs := msgs s @ [MsgRestartSessions], lost := True\<rparr>)"
      using assms(1) by (simp add: sess_ok_def quiet_def)
    moreover have "ids_ok (Suc n) (s\<lparr>calls := EngineUp # calls s, msgs := msgs s @ [MsgRestartSessions], lost := True\<rparr>)"
      using assms(2) by (intro up ids_ok_mono [OF assms(2)]) (auto simp: ids_of_def)
    ultimately show ?thesis using ModemUp by simp
  next
    case NextMsg
    show ?thesis
    proof (cases "msgs s")
      case Nil
      with NextMsg assms up show ?thesis by simp
    next
      case (Cons b ms)
      with next_msg_ok [OF assms(1,2) Cons, of ext_dr] NextMsg up show ?thesis by simp
    qed
  qed (use assms(1) same in simp_all)
qed

lemma adapter_run_ok:
  "sess_ok eng s \<Longrightarrow> ids_ok n s \<Longrightarrow> n + length as < 4294967293 \<Longrightarrow> sess_ok eng (adapter_run eng ext_dr as s)"
proof (induction "as" arbitrary: s n)
  case (Cons a "as")
  from adapter_step_ok [OF Cons.prems(1,2), of ext_dr a] Cons.prems(3) Cons.IH [of "adapter_step eng ext_dr a s" "Suc n"]
  show ?case by (simp add: adapter_run_def)
qed (simp add: adapter_run_def)

lemma new_adapter_ok: "sess_ok eng (new_adapter nmea)" "ids_ok 0 (new_adapter nmea)"
  by (simp_all add: sess_ok_def new_adapter_def sized_def quiet_def runs_def ids_ok_def ids_of_def)

section \<open>Event mask\<close>

lemma bit_fold_or:
  "bit (fold (\<lambda>(c, cb) m. m OR f cb) d m0) n \<longleftrightarrow> bit (m0 :: u32) n \<or> (\<exists>cb \<in> snd ` set d. bit (f cb) n)"
  by (induction d arbitrary: m0) (auto simp: bit_or_iff)

definition mask_ok :: "adapter \<Rightarrow> bool" where
  "mask_ok s \<longleftrightarrow> (\<forall>n. bit (mEvtMask s) n \<longleftrightarrow> (\<exists>cb \<in> snd ` set (mClientData s). bit (client_mask (mNmeaMask s) cb) n))"

lemma update_mask_ok: "mask_ok (updateClientsEventMask False s)"
  by (simp add: mask_ok_def updateClientsEventMask_def Let_def bit_fold_or)

lemma mask_frame [simp]:
  "mask_ok (s\<lparr>calls := cs\<rparr>) = mask_ok s" "mask_ok (s\<lparr>mTrackingSessions := m\<rparr>) = mask_ok s"
  "mask_ok (s\<lparr>msgs := ms\<rparr>) = mask_ok s" "mask_ok (s\<lparr>lost := b\<rparr>) = mask_ok s"
  "mask_ok (s\<lparr>mSessionIdCounter := n\<rparr>) = mask_ok s" "mask_ok (reportResponse c err i s) = mask_ok s"
  by (auto simp: mask_ok_def reportResponse_def split: option.splits)

lemma startTracking_frame: "startTracking eng opts s = (err, s') \<Longrightarrow> \<exists>cs. s' = s\<lparr>calls := cs\<rparr>"
  using startTracking_effect [of eng opts s err s'] by blast

lemma stop_frame: "stopTrackingMultiplex eng c i s = (err, s') \<Longrightarrow> \<exists>cs. s' = s\<lparr>calls := cs\<rparr>"
proof -
  have self: "\<exists>cs. s = s\<lparr>calls := cs\<rparr>" by (rule exI [of _ "calls s"]) simp
  show "stopTrackingMultiplex eng c i s = (err, s') \<Longrightarrow> \<exists>cs. s' = s\<lparr>calls := cs\<rparr>"
    using startTracking_frame [of eng _ s err s'] stopTracking_effect [of eng s err s'] self
    by (auto simp: stopTrackingMultiplex_def Let_def split: if_splits option.splits)
qed

lemma stop_sessions_mask: "mask_ok s \<Longrightarrow> mask_ok (stop_sessions eng c ks s)"
proof (induction ks arbitrary: s)
  case (Cons k ks)
  obtain i c' where k: "k = (i, c')" by fastforce
  obtain err s1 where st: "stopTrackingMultiplex eng c' i s = (err, s1)" by fastforce
  from stop_frame [OF st] obtain cs where "s1 = s\<lparr>calls := cs\<rparr>" by blast
  then have "mask_ok (if err = LOCATION_ERROR_SUCCESS then eraseTrackingSession c' i s1 else s1)"
    using Cons.prems by (simp add: eraseTrackingSession_def)
  from Cons.IH [OF this] Cons.IH [OF Cons.prems] k st show ?case by auto
qed simp

lemma msg_mask_ok:
  assumes "mask_ok s"
  shows "mask_ok (msg_proc eng False a s)"
proof (cases a)
  case (MsgRemoveClient c)
  then show ?thesis by (simp add: eraseClient_def update_mask_ok)
next
  case (MsgAddClient c cb)
  then show ?thesis by (simp add: saveClient_def update_mask_ok)
next
  case (MsgStartTracking c i opts)
  obtain err s1 where st: "startTrackingMultiplex eng opts s = (err, s1)" by fastforce
  from multiplex_frame(1) [OF st] obtain cs where "s1 = s\<lparr>calls := cs\<rparr>" by blast
  with MsgStartTracking st assms show ?thesis by (auto simp: saveTrackingSession_def)
next
  case (MsgUpdateTracking c i opts)
  obtain err s1 where st: "updateTrackingMultiplex eng c i opts s = (err, s1)" by fastforce
  from multiplex_frame(2) [OF st] obtain cs where "s1 = s\<lparr>calls := cs\<rparr>" by blast
  with MsgUpdateTracking st assms show ?thesis by (auto simp: saveTrackingSession_def)
next
  case (MsgStopTracking c i)
  obtain err s1 where st: "stopTrackingMultiplex eng c i s = (err, s1)" by fastforce
  from stop_frame [OF st] obtain cs where "s1 = s\<lparr>calls := cs\<rparr>" by blast
  with MsgStopTracking st assms show ?thesis by (auto simp: eraseTrackingSession_def)
next
  case MsgRestartSessions
  then show ?thesis using assms by (auto simp: restartSessions_def do_call_def Let_def)
qed

lemma step_mask_ok: "mask_ok s \<Longrightarrow> mask_ok (adapter_step eng False a s)"
  by (cases a) (auto simp: generateSessionId_def Let_def split: list.splits intro!: msg_mask_ok)

lemma run_mask_ok: "mask_ok s \<Longrightarrow> mask_ok (adapter_run eng False as s)"
  by (induction "as" arbitrary: s) (simp_all add: adapter_run_def step_mask_ok)

lemmas mask_bits = LOC_API_ADAPTER_BIT_PARSED_POSITION_REPORT_def LOC_API_ADAPTER_BIT_SATELLITE_REPORT_def
  LOC_API_ADAPTER_BIT_NMEA_1HZ_REPORT_def LOC_API_ADAPTER_BIT_NI_NOTIFY_VERIFY_REQUEST_def
  LOC_API_ADAPTER_BIT_GNSS_SV_POLYNOMIAL_REPORT_def LOC_API_ADAPTER_BIT_GNSS_MEASUREMENT_def

lemma bit_flag: "k < 32 \<Longrightarrow> bit (if b then 2 ^ k else (0 :: u32)) n \<longleftrightarrow> b \<and> n = k"
  by (auto simp: bit_exp_iff)

lemma client_mask_bits:
  "bit (client_mask nmea cb) n \<longleftrightarrow> trackingCb cb \<and> n = 0 \<or> gnssNiCb cb \<and> n = 4 \<or> gnssSvCb cb \<and> n = 1 \<or>
     (gnssNmeaCb cb \<and> nmea \<noteq> 0) \<and> n = 2 \<or> gnssMeasurementsCb cb \<and> n = 26"
proof -
  have k: "(0 :: nat) < 32" "(4 :: nat) < 32" "(1 :: nat) < 32" "(2 :: nat) < 32" "(26 :: nat) < 32" by simp_all
  show ?thesis
    unfolding client_mask_def mask_bits bit_or_iff
      bit_flag [OF k(1)] bit_flag [OF k(2)] bit_flag [OF k(3)] bit_flag [OF k(4)] bit_flag [OF k(5)]
    by (simp only: disj_assoc)
qed

section \<open>Properties\<close>


text \<open>
  C31: A client that is removed has no callbacks left, the sessions of the other clients stay, and if
  the modem accepts what it is told the client has no session left; only sessions it refused to stop
  or to replace can remain.
\<close>
theorem gnss_remove_client:
  assumes "length acts < 4294967293" and "s = adapter_run eng ext_dr acts (new_adapter nmea)"
    and "msgs s = MsgRemoveClient c # ms" and "s' = adapter_step eng ext_dr NextMsg s"
  shows "map_of (mClientData s') c = None \<and> set (mTrackingSessions s') \<subseteq> set (mTrackingSessions s) \<and>
    (\<forall>i c' opts. c' \<noteq> c \<longrightarrow> (((i, c'), opts) \<in> set (mTrackingSessions s') \<longleftrightarrow> ((i, c'), opts) \<in> set (mTrackingSessions s))) \<and>
    (accepts eng \<longrightarrow> (\<forall>i opts. ((i, c), opts) \<notin> set (mTrackingSessions s')))"
proof -
  from adapter_run_ok [OF new_adapter_ok, of acts eng ext_dr nmea] assms(1,2) have "sess_ok eng (s\<lparr>msgs := ms\<rparr>)" by simp
  from stopClientSessions_ok [OF this, of c] obtain cs m where
    m: "stopClientSessions eng c (s\<lparr>msgs := ms\<rparr>) = s\<lparr>msgs := ms, calls := cs, mTrackingSessions := m\<rparr>"
      "set m \<subseteq> set (mTrackingSessions s)" "\<forall>e \<in> set (mTrackingSessions s). snd (fst e) \<noteq> c \<longrightarrow> e \<in> set m"
      "accepts eng \<longrightarrow> (\<forall>e \<in> set m. snd (fst e) \<noteq> c)" by auto
  then have "s' = eraseClient ext_dr c (s\<lparr>msgs := ms, calls := cs, mTrackingSessions := m\<rparr>)"
    using assms(3,4) by simp
  with m(2-4) show ?thesis by fastforce
qed


text \<open>
  C33: A request to start a session is answered exactly once, if its client can be answered: with a
  missing callback, with an invalid parameter, with the failure of the modem, or with success, and only
  then the session is there, with the options asked for; all other sessions stay as they were.
\<close>
theorem gnss_start_answered:
  assumes "map_of (mClientData s) c = Some cb" and "responseCb cb" and "map_ok (mTrackingSessions s)"
    and "s' = msg_proc eng ext_dr (MsgStartTracking c i opts) s"
  shows "\<exists>err. responses s' = responses s @ [(c, err, i)] \<and>
    (err = LOCATION_ERROR_CALLBACK_MISSING \<longleftrightarrow> \<not> trackingCb cb \<and> \<not> gnssMeasurementsCb cb) \<and>
    (err = LOCATION_ERROR_INVALID_PARAMETER \<longleftrightarrow> (trackingCb cb \<or> gnssMeasurementsCb cb) \<and> opt_size opts = 0) \<and>
    map_of (mTrackingSessions s') =
      (if err = LOCATION_ERROR_SUCCESS then (map_of (mTrackingSessions s))((i, c) \<mapsto> opts) else map_of (mTrackingSessions s))"
proof -
  have cb: "hasTrackingCallback c s = trackingCb cb" "hasMeasurementsCallback c s = gnssMeasurementsCb cb"
    using assms(1) by (simp_all add: hasTrackingCallback_def hasMeasurementsCallback_def)
  obtain err s1 where st: "startTrackingMultiplex eng opts s = (err, s1)" by fastforce
  from multiplex_frame(1) [OF st] obtain cs where s1: "s1 = s\<lparr>calls := cs\<rparr>" by blast
  from st have "err = LOCATION_ERROR_SUCCESS \<or> err = LOCATION_ERROR_GENERAL_FAILURE"
    by (auto simp: startTrackingMultiplex_def startTracking_def do_call_def Let_def split: if_splits)
  with assms cb st s1 show ?thesis
    by (cases "trackingCb cb \<or> gnssMeasurementsCb cb"; cases "opt_size opts = 0")
      (auto simp: reportResponse_def saveTrackingSession_def)
qed

section \<open>Runs\<close>

text \<open>A client with callbacks, options with an interval, and an engine that has no ULP proxy and accepts all.\<close>

definition all_callbacks :: callbacks where
  "all_callbacks = \<lparr>capabilitiesCb = True, responseCb = True, trackingCb = True, gnssNiCb = False, gnssSvCb = False,
     gnssNmeaCb = False, gnssMeasurementsCb = False\<rparr>"

definition every :: "u32 \<Rightarrow> supl_mode \<Rightarrow> location_options" where
  "every ms m = \<lparr>opt_size = 16, minInterval = ms, minDistance = 0, opt_mode = m\<rparr>"

fun modem_only :: engine where
  "modem_only (SendStartFix # cs) = False"
| "modem_only (SendStopFix # cs) = False"
| "modem_only cs = True"

definition two_clients :: "adapter_act list" where
  "two_clients =
     [AddClient 8 all_callbacks, AddClient 9 all_callbacks, StartTracking 8 (every 1000 GNSS_SUPL_MODE_MSB),
      StartTracking 9 (every 500 GNSS_SUPL_MODE_STANDALONE), NextMsg, NextMsg, NextMsg, NextMsg]"


lemma gnss_remove_client_witness:
  "let s = adapter_run modem_only False (two_clients @ [RemoveClient 9]) (new_adapter 0); s' = adapter_step modem_only False NextMsg s
   in map fst (mTrackingSessions s) = [(2, 8), (3, 9)] \<and> map_of (mClientData s') 9 = None \<and>
      (\<forall>i opts. ((i, 9), opts) \<notin> set (mTrackingSessions s'))"
proof -
  let ?s = "adapter_run modem_only False (two_clients @ [RemoveClient 9]) (new_adapter 0)"
  have s: "map fst (mTrackingSessions ?s) = [(2, 8), (3, 9)] \<and> msgs ?s = [MsgRemoveClient 9]" by code_simp
  have "length (two_clients @ [RemoveClient 9]) < 4294967293" "accepts modem_only" by (simp_all add: two_clients_def accepts_def)
  with gnss_remove_client [OF _ refl _ refl, of "two_clients @ [RemoveClient 9]" modem_only False 0 9 "[]"] s
  show ?thesis unfolding Let_def by blast
qed


lemma gnss_start_answered_witness:
  "let s = (new_adapter 0)\<lparr>mClientData := [(8, all_callbacks)]\<rparr>;
       s' = msg_proc modem_only False (MsgStartTracking 8 2 (every 1000 GNSS_SUPL_MODE_MSA)) s
   in \<exists>err. responses s' = responses s @ [(8, err, 2)] \<and>
        map_of (mTrackingSessions s') = (if err = LOCATION_ERROR_SUCCESS then (map_of (mTrackingSessions s))((2, 8) \<mapsto> every 1000 GNSS_SUPL_MODE_MSA)
                                         else map_of (mTrackingSessions s))"
proof -
  let ?s = "(new_adapter 0)\<lparr>mClientData := [(8, all_callbacks)]\<rparr>"
  have "map_of (mClientData ?s) 8 = Some all_callbacks" "responseCb all_callbacks" "map_ok (mTrackingSessions ?s)"
    by (simp_all add: all_callbacks_def new_adapter_def)
  from gnss_start_answered [OF this refl] show ?thesis unfolding Let_def by blast
qed

text \<open>
  A session with the interval of another that ends leaves the fix in the mode that the ended session
  asked for: only intervals are compared.
\<close>
lemma gnss_mode_of_ended_session:
  "let s = adapter_run modem_only False
             [AddClient 8 all_callbacks, StartTracking 8 (every 1000 GNSS_SUPL_MODE_MSB), StartTracking 8 (every 1000 GNSS_SUPL_MODE_STANDALONE),
              NextMsg, NextMsg, NextMsg, StopTracking 8 2, NextMsg] (new_adapter 0)
   in map (opt_mode \<circ> snd) (mTrackingSessions s) = [GNSS_SUPL_MODE_STANDALONE] \<and>
      map_option pm_mode (running modem_only (calls s)) = Some LOC_POSITION_MODE_MS_BASED"
  by code_simp

text \<open>A modem that comes up and refuses the restart: the session is there, no fix runs and no message is left.\<close>

fun deaf_after_up :: engine where
  "deaf_after_up (StartFix m # EngineUp # cs) = False"
| "deaf_after_up cs = modem_only cs"

lemma gnss_restart_refused:
  "let s = adapter_run deaf_after_up False
             [AddClient 8 all_callbacks, StartTracking 8 (every 1000 GNSS_SUPL_MODE_MSB), NextMsg, NextMsg, ModemUp, NextMsg] (new_adapter 0)
   in map fst (mTrackingSessions s) = [(2, 8)] \<and> running deaf_after_up (calls s) = None \<and> msgs s = []"
  by code_simp

text \<open>A client that is removed while the modem refuses to stop: its session and the fix stay, and nobody is left to stop it.\<close>

fun no_stop :: engine where
  "no_stop (StopFix # cs) = False"
| "no_stop cs = modem_only cs"

lemma gnss_removed_client_leaves_session:
  "let s = adapter_run no_stop False
             [AddClient 8 all_callbacks, StartTracking 8 (every 1000 GNSS_SUPL_MODE_MSB), RemoveClient 8, NextMsg, NextMsg, NextMsg] (new_adapter 0)
   in map fst (mTrackingSessions s) = [(2, 8)] \<and> mClientData s = [] \<and> running no_stop (calls s) \<noteq> None"
  by code_simp

end
