(* ===== verification/GnssNi.thy ===== *)
theory GnssNi
  imports GnssTracking
begin

text \<open>
  Requests of the network for the position of the phone (\<open>gps/gnss/GnssAdapter.cpp\<close>, the NI part): the
  modem hands over a request, the user is asked, and a thread waits for the answer or the end of the
  time and has the modem informed. There are two sessions, one of them for emergencies.

  The task of the adapter and the threads of the sessions interleave. What a thread does under the lock
  of its session is one step, and so is each section of the adapter under a lock; what it reads without
  the lock is not. A request is the address of the buffer that came with it, 0 is NULL.
\<close>

section \<open>State\<close>

datatype ni_response =
  GNSS_NI_RESPONSE_ACCEPT | GNSS_NI_RESPONSE_DENY | GNSS_NI_RESPONSE_NO_RESPONSE | GNSS_NI_RESPONSE_IGNORE

record ni_session =
  respTimeLeft :: nat
  respRecvd :: bool
  rawRequest :: nat
  reqID :: u32
  resp :: ni_response

text \<open>
  A thread before it takes the lock, in the wait with the time it was given, after the lock with what
  it will send, after it reset the session, and ended.
\<close>

datatype ni_pc =
    NStart
  | NWaiting nat
  | NReset "(ni_response \<times> nat) option"
  | NSend "(ni_response \<times> nat) option"
  | NDone

text \<open>The messages of the task: a request with its kind and time, an answer of a client, and what to tell the modem.\<close>

datatype ni_msg =
    MsgReportNiNotify bool nat nat bool
  | MsgGnssNiResponse nat u32 ni_response
  | MsgInform ni_response nat

record ni_sys =
  session :: ni_session
  sessionEs :: ni_session
  reqIDCounter :: u32
  threads :: "(bool \<times> ni_pc) list"
  ni_msgs :: "ni_msg list"
  locks :: "(bool \<times> ni_response) list"
  answering :: "(nat \<times> u32) option"
  ni_clients :: "nat list"
  notified :: "u32 list"
  answered :: "(nat \<times> loc_error \<times> u32) list"
  received :: "nat list"
  informed :: "(nat \<times> ni_response) list"
  freed :: "nat list"
  leaked :: "nat list"

definition sess :: "bool \<Rightarrow> ni_sys \<Rightarrow> ni_session" where
  "sess es s = (if es then sessionEs s else session s)"

definition upd_sess :: "bool \<Rightarrow> (ni_session \<Rightarrow> ni_session) \<Rightarrow> ni_sys \<Rightarrow> ni_sys" where
  "upd_sess es f s = (if es then s\<lparr>sessionEs := f (sessionEs s)\<rparr> else s\<lparr>session := f (session s)\<rparr>)"

definition free_raw :: "nat \<Rightarrow> ni_sys \<Rightarrow> ni_sys" where
  "free_raw raw s = s\<lparr>freed := freed s @ (if raw = 0 then [] else [raw])\<rparr>"

section \<open>The adapter\<close>

definition LOC_NI_NO_RESPONSE_TIME :: nat where "LOC_NI_NO_RESPONSE_TIME = 20"

definition begin_session :: "bool \<Rightarrow> nat \<Rightarrow> nat \<Rightarrow> bool \<Rightarrow> ni_sys \<Rightarrow> ni_sys" where
  "begin_session es timeout data thread_ok s =
     (let i = reqIDCounter s + 1;
          s1 = upd_sess es (\<lambda>p. p\<lparr>rawRequest := data, reqID := i,
                 respTimeLeft := 5 + (if timeout \<noteq> 0 then timeout else LOC_NI_NO_RESPONSE_TIME)\<rparr>) (s\<lparr>reqIDCounter := i\<rparr>)
      in s1\<lparr>threads := threads s1 @ (if thread_ok then [(es, NStart)] else []), notified := notified s1 @ [i]\<rparr>)"

text \<open>Without a client for it the request is neither kept nor freed.\<close>

definition requestNiNotify :: "bool \<Rightarrow> nat \<Rightarrow> nat \<Rightarrow> bool \<Rightarrow> ni_sys \<Rightarrow> ni_sys" where
  "requestNiNotify es timeout data thread_ok s =
     (if ni_clients s = [] then s\<lparr>leaked := leaked s @ (if data = 0 then [] else [data])\<rparr>
      else if es
        then (if rawRequest (sessionEs s) \<noteq> 0 then free_raw data s else begin_session True timeout data thread_ok s)
      else (if rawRequest (session s) \<noteq> 0 \<or> rawRequest (sessionEs s) \<noteq> 0 then free_raw data s
            else begin_session False timeout data thread_ok s))"

text \<open>The check for the session, without its lock; then the sections under a lock, one by one.\<close>

definition gnssNiResponseCommand :: "nat \<Rightarrow> u32 \<Rightarrow> ni_response \<Rightarrow> ni_sys \<Rightarrow> ni_sys" where
  "gnssNiResponseCommand c i r s =
     (if c \<notin> set (ni_clients s) then s\<lparr>answered := answered s @ [(c, LOCATION_ERROR_ID_UNKNOWN, i)]\<rparr>
      else if i = reqID (sessionEs s) \<and> rawRequest (sessionEs s) \<noteq> 0
        then s\<lparr>locks := (if r = GNSS_NI_RESPONSE_ACCEPT \<and> rawRequest (session s) \<noteq> 0
                         then [(False, GNSS_NI_RESPONSE_IGNORE)] else []) @ [(True, r)],
               answering := Some (c, i)\<rparr>
      else if i = reqID (session s) \<and> rawRequest (session s) \<noteq> 0
        then s\<lparr>locks := [(False, r)], answering := Some (c, i)\<rparr>
      else s\<lparr>answered := answered s @ [(c, LOCATION_ERROR_ID_UNKNOWN, i)]\<rparr>)"

definition lock_step :: "bool \<Rightarrow> ni_response \<Rightarrow> ni_sys \<Rightarrow> ni_sys" where
  "lock_step es r s = upd_sess es (\<lambda>p. p\<lparr>resp := r, respRecvd := True\<rparr>) s"

definition informNiResponse :: "ni_response \<Rightarrow> nat \<Rightarrow> ni_sys \<Rightarrow> ni_sys" where
  "informNiResponse r raw s = free_raw raw (s\<lparr>informed := informed s @ [(raw, r)]\<rparr>)"

definition ni_msg_proc :: "ni_msg \<Rightarrow> ni_sys \<Rightarrow> ni_sys" where
  "ni_msg_proc m s =
     (case m of
        MsgReportNiNotify es timeout data ok \<Rightarrow> requestNiNotify es timeout data ok s
      | MsgGnssNiResponse c i r \<Rightarrow> gnssNiResponseCommand c i r s
      | MsgInform r raw \<Rightarrow> informNiResponse r raw s)"

text \<open>One step of the task: the next section under a lock, with the answer to the client after the last, or the next message.\<close>

definition ni_task_step :: "ni_sys \<Rightarrow> ni_sys" where
  "ni_task_step s =
     (case locks s of
        (es, r) # ls \<Rightarrow>
          let s1 = (lock_step es r s)\<lparr>locks := ls\<rparr>
          in if ls = []
             then (case answering s of
                     None \<Rightarrow> s1
                   | Some (c, i) \<Rightarrow> s1\<lparr>answered := answered s1 @ [(c, LOCATION_ERROR_SUCCESS, i)], answering := None\<rparr>)
             else s1
      | [] \<Rightarrow> (case ni_msgs s of [] \<Rightarrow> s | m # ms \<Rightarrow> ni_msg_proc m (s\<lparr>ni_msgs := ms\<rparr>)))"

section \<open>The threads\<close>

text \<open>What follows the wait, up to the unlock.\<close>

definition leave_wait :: "bool \<Rightarrow> ni_sys \<Rightarrow> ni_pc \<times> ni_sys" where
  "leave_wait es s =
     (let p = sess es s;
          send = rawRequest p \<noteq> 0 \<and> resp p \<noteq> GNSS_NI_RESPONSE_IGNORE;
          s1 = upd_sess es (\<lambda>p. p\<lparr>respRecvd := False, rawRequest := 0\<rparr>) s
      in (NReset (if send then Some (resp p, rawRequest p) else None),
          if send then s1 else free_raw (rawRequest p) s1))"

definition niThreadProc :: "bool \<Rightarrow> bool \<Rightarrow> ni_pc \<Rightarrow> ni_sys \<Rightarrow> ni_pc \<times> ni_sys" where
  "niThreadProc timed_out es pc s =
     (case pc of
        NStart \<Rightarrow> if respRecvd (sess es s) then leave_wait es s else (NWaiting (respTimeLeft (sess es s)), s)
      | NWaiting t \<Rightarrow>
          if timed_out then leave_wait es (upd_sess es (\<lambda>p. p\<lparr>resp := GNSS_NI_RESPONSE_NO_RESPONSE\<rparr>) s)
          else if respRecvd (sess es s) then leave_wait es s
          else (NWaiting t, s)
      | NReset out \<Rightarrow> (NSend out, upd_sess es (\<lambda>p. p\<lparr>respTimeLeft := 0, reqID := 0\<rparr>) s)
      | NSend out \<Rightarrow> (NDone, case out of None \<Rightarrow> s | Some (r, raw) \<Rightarrow> s\<lparr>ni_msgs := ni_msgs s @ [MsgInform r raw]\<rparr>)
      | NDone \<Rightarrow> (NDone, s))"

definition ni_thread_step :: "nat \<Rightarrow> bool \<Rightarrow> ni_sys \<Rightarrow> ni_sys" where
  "ni_thread_step k timed_out s =
     (if k < length (threads s)
      then let (es, pc) = threads s ! k; (pc', s1) = niThreadProc timed_out es pc s
           in s1\<lparr>threads := (threads s1)[k := (es, pc')]\<rparr>
      else s)"

text \<open>What happens: the modem hands over a request, a client answers, the task takes a step, or thread \<open>k\<close> does.\<close>

datatype ni_act =
    NRequest bool nat nat bool
  | NAnswer nat u32 ni_response
  | NTask
  | NThread nat bool

fun ni_step :: "ni_act \<Rightarrow> ni_sys \<Rightarrow> ni_sys" where
  "ni_step (NRequest es timeout data ok) s =
     s\<lparr>ni_msgs := ni_msgs s @ [MsgReportNiNotify es timeout data ok], received := received s @ (if data = 0 then [] else [data])\<rparr>"
| "ni_step (NAnswer c i r) s = s\<lparr>ni_msgs := ni_msgs s @ [MsgGnssNiResponse c i r]\<rparr>"
| "ni_step NTask s = ni_task_step s"
| "ni_step (NThread k timed_out) s = ni_thread_step k timed_out s"

definition ni_run :: "ni_act list \<Rightarrow> ni_sys \<Rightarrow> ni_sys" where
  "ni_run as s = fold ni_step as s"

definition new_session :: ni_session where
  "new_session = \<lparr>respTimeLeft = 0, respRecvd = False, rawRequest = 0, reqID = 0, resp = GNSS_NI_RESPONSE_ACCEPT\<rparr>"

definition new_ni :: "nat list \<Rightarrow> ni_sys" where
  "new_ni clients =
     \<lparr>session = new_session, sessionEs = new_session, reqIDCounter = 0, threads = [], ni_msgs = [], locks = [],
      answering = None, ni_clients = clients, notified = [], answered = [], received = [], informed = [],
      freed = [], leaked = []\<rparr>"

section \<open>Where a request is\<close>

definition raw_of :: "nat \<Rightarrow> nat list" where
  "raw_of raw = (if raw = 0 then [] else [raw])"

fun msg_raw :: "ni_msg \<Rightarrow> nat list" where
  "msg_raw (MsgReportNiNotify es timeout data ok) = raw_of data"
| "msg_raw (MsgGnssNiResponse c i r) = []"
| "msg_raw (MsgInform r raw) = raw_of raw"

fun pc_raw :: "ni_pc \<Rightarrow> nat list" where
  "pc_raw (NReset (Some (r, raw))) = raw_of raw"
| "pc_raw (NSend (Some (r, raw))) = raw_of raw"
| "pc_raw _ = []"

definition held :: "ni_sys \<Rightarrow> nat list" where
  "held s = concat (map msg_raw (ni_msgs s)) @ raw_of (rawRequest (session s)) @ raw_of (rawRequest (sessionEs s)) @
     concat (map (pc_raw \<circ> snd) (threads s)) @ leaked s"

text \<open>Every request is in one place or freed, and the modem is informed of a request before it is freed.\<close>

definition ni_ok :: "ni_sys \<Rightarrow> bool" where
  "ni_ok s \<longleftrightarrow> mset (received s) = mset (held s) + mset (freed s) \<and>
     mset (filter (\<lambda>r. r \<noteq> 0) (map fst (informed s))) \<subseteq># mset (freed s)"

lemma raw_of_simps [simp]: "raw_of 0 = []" "raw \<noteq> 0 \<Longrightarrow> raw_of raw = [raw]"
  by (simp_all add: raw_of_def)

lemma new_ni_ok: "ni_ok (new_ni cs)"
  by (simp add: ni_ok_def new_ni_def held_def new_session_def)

lemma begin_session_ok:
  assumes "ni_ok (s\<lparr>ni_msgs := MsgReportNiNotify es t data ok # ms\<rparr>)" and "rawRequest (sess es s) = 0" and "ni_msgs s = ms"
  shows "ni_ok (begin_session es t data ok s)"
  using assms by (cases es) (auto simp: ni_ok_def held_def begin_session_def upd_sess_def sess_def Let_def)

lemma concat_update:
  assumes "k < length xs"
  shows "mset (concat (map f (xs[k := y]))) + mset (f (xs ! k)) = mset (concat (map f xs)) + mset (f y)"
  using assms
proof (induction xs arbitrary: k)
  case (Cons x xs)
  show ?case
  proof (cases k)
    case (Suc j)
    with Cons.prems Cons.IH [of j] show ?thesis by (simp add: ac_simps)
  qed simp
qed simp

lemma task_step_ok:
  assumes "ni_ok s"
  shows "ni_ok (ni_task_step s)"
proof (cases "locks s")
  case (Cons l ls)
  obtain es r where "l = (es, r)" by fastforce
  with Cons assms show ?thesis
    by (cases es) (auto simp: ni_task_step_def lock_step_def upd_sess_def ni_ok_def held_def Let_def split: option.splits)
next
  case Nil
  show ?thesis
  proof (cases "ni_msgs s")
    case (Cons m ms)
    let ?s = "s\<lparr>ni_msgs := ms\<rparr>"
    have ok: "ni_ok (?s\<lparr>ni_msgs := m # ms\<rparr>)"
      using assms Cons by (simp add: ni_ok_def held_def)
    have "ni_ok (ni_msg_proc m ?s)"
    proof (cases m)
      case (MsgReportNiNotify es t data b)
      show ?thesis
      proof (cases "ni_clients s \<noteq> [] \<and> rawRequest (sess es s) = 0 \<and> (es \<or> rawRequest (sessionEs s) = 0)")
        case True
        then have "ni_msg_proc m ?s = begin_session es t data b ?s"
          using MsgReportNiNotify by (cases es) (auto simp: ni_msg_proc_def requestNiNotify_def sess_def)
        moreover have "rawRequest (sess es ?s) = 0" using True by (cases es) (simp_all add: sess_def)
        ultimately show ?thesis using begin_session_ok [where s = ?s and es = es and t = t and data = data and ok = b and ms = ms] ok MsgReportNiNotify by simp
      next
        case False
        then have "ni_msg_proc m ?s = free_raw data ?s \<or> ni_msg_proc m ?s = ?s\<lparr>leaked := leaked s @ raw_of data\<rparr>"
          using MsgReportNiNotify by (cases es) (auto simp: ni_msg_proc_def requestNiNotify_def sess_def raw_of_def)
        with ok MsgReportNiNotify show ?thesis
          by (cases "data = 0") (auto simp: ni_ok_def held_def free_raw_def intro: subset_mset.order_trans)
      qed
    next
      case (MsgGnssNiResponse c i r)
      with ok show ?thesis by (auto simp: ni_msg_proc_def gnssNiResponseCommand_def ni_ok_def held_def)
    next
      case (MsgInform r raw)
      with ok show ?thesis
        by (cases "raw = 0") (auto simp: ni_msg_proc_def informNiResponse_def free_raw_def ni_ok_def held_def)
    qed
    with Nil Cons show ?thesis by (simp add: ni_task_step_def)
  qed (use Nil assms in \<open>simp add: ni_task_step_def\<close>)
qed

lemma leave_wait_parts:
  "leave_wait es s = (pc', s') \<Longrightarrow>
   threads s' = threads s \<and> ni_msgs s' = ni_msgs s \<and> leaked s' = leaked s \<and> received s' = received s \<and> informed s' = informed s \<and>
   rawRequest (sess es s') = 0 \<and> sess (\<not> es) s' = sess (\<not> es) s \<and>
   mset (pc_raw pc') + mset (freed s') = mset (raw_of (rawRequest (sess es s))) + mset (freed s)"
  by (cases es) (auto simp: leave_wait_def Let_def sess_def upd_sess_def free_raw_def raw_of_def)

lemma held_sess:
  "mset (held s) = mset (concat (map msg_raw (ni_msgs s))) + mset (raw_of (rawRequest (sess es s))) +
     mset (raw_of (rawRequest (sess (\<not> es) s))) + mset (concat (map (pc_raw \<circ> snd) (threads s))) + mset (leaked s)"
  by (cases es) (simp_all add: held_def sess_def ac_simps)

lemma leave_wait_ok:
  assumes "ni_ok s" and "k < length (threads s)" and "pc_raw (snd (threads s ! k)) = []"
    and "leave_wait es s = (pc', s')"
  shows "ni_ok (s'\<lparr>threads := (threads s')[k := (es, pc')]\<rparr>)"
proof -
  note p = leave_wait_parts [OF assms(4)]
  let ?t = "s'\<lparr>threads := (threads s')[k := (es, pc')]\<rparr>"
  have se: "sess b ?t = sess b s'" for b by (simp add: sess_def)
  have "mset (held ?t) + mset (freed s') = mset (held s) + mset (freed s)"
    using concat_update [OF assms(2), of "pc_raw \<circ> snd" "(es, pc')"] p assms(3)
    unfolding held_sess [of ?t es] held_sess [of s es] se by (simp add: ac_simps)
  moreover have "mset (freed s) \<subseteq># mset (freed s')"
    using assms(4) by (cases es) (auto simp: leave_wait_def Let_def upd_sess_def free_raw_def)
  ultimately show ?thesis
    using assms(1) p by (auto simp: ni_ok_def intro: subset_mset.order_trans)
qed

lemma thread_step_ok:
  assumes "ni_ok s"
  shows "ni_ok (ni_thread_step k timed_out s)"
proof (cases "k < length (threads s)")
  case True
  obtain es pc where t: "threads s ! k = (es, pc)" by fastforce
  have upd: "mset (concat (map (pc_raw \<circ> snd) ((threads s)[k := (es, pc')]))) + mset (pc_raw pc) =
      mset (concat (map (pc_raw \<circ> snd) (threads s))) + mset (pc_raw pc')" for pc'
    using concat_update [OF True, of "pc_raw \<circ> snd" "(es, pc')"] t by simp
  have same: "ni_ok (s'\<lparr>threads := (threads s)[k := (es, pc')]\<rparr>)"
    if "mset (pc_raw pc') = mset (pc_raw pc)" "ni_ok s'" "threads s' = threads s" for pc' s'
    using that upd [of pc'] by (auto simp: ni_ok_def held_def)
  show ?thesis
  proof (cases pc)
    case NStart
    show ?thesis
    proof (cases "respRecvd (sess es s)")
      case recvd: True
      obtain pc' s' where lw: "leave_wait es s = (pc', s')" by fastforce
      from leave_wait_ok [OF assms True _ lw] t NStart recvd lw True show ?thesis
        by (simp add: ni_thread_step_def niThreadProc_def)
    next
      case False
      with same [of _ s] assms t NStart True show ?thesis by (simp add: ni_thread_step_def niThreadProc_def)
    qed
  next
    case (NWaiting dl)
    show ?thesis
    proof (cases timed_out)
      case to: True
      let ?s = "upd_sess es (\<lambda>p. p\<lparr>resp := GNSS_NI_RESPONSE_NO_RESPONSE\<rparr>) s"
      have "ni_ok ?s" "threads ?s = threads s" using assms by (cases es, simp_all add: upd_sess_def ni_ok_def held_def)
      moreover obtain pc' s' where lw: "leave_wait es ?s = (pc', s')" by fastforce
      ultimately show ?thesis using leave_wait_ok [of ?s k es pc' s'] t NWaiting to True
        by (simp add: ni_thread_step_def niThreadProc_def)
    next
      case False
      obtain pc' s' where lw: "leave_wait es s = (pc', s')" by fastforce
      show ?thesis
      proof (cases "respRecvd (sess es s)")
        case recvd: True
        from leave_wait_ok [OF assms True _ lw] t NWaiting recvd lw True False show ?thesis
          by (simp add: ni_thread_step_def niThreadProc_def)
      next
        case no: False
        with same [of _ s] assms t NWaiting True False show ?thesis by (simp add: ni_thread_step_def niThreadProc_def)
      qed
    qed
  next
    case (NReset out)
    let ?s = "upd_sess es (\<lambda>p. p\<lparr>respTimeLeft := 0, reqID := 0\<rparr>) s"
    have "ni_ok ?s" "threads ?s = threads s" using assms by (cases es, simp_all add: upd_sess_def ni_ok_def held_def)
    moreover have "pc_raw (NSend out) = pc_raw (NReset out)" by (cases out) auto
    ultimately show ?thesis using same [of "NSend out" ?s] t NReset True
      by (simp add: ni_thread_step_def niThreadProc_def)
  next
    case (NSend out)
    show ?thesis
    proof (cases out)
      case None
      with same [of NDone s] assms t NSend True show ?thesis by (simp add: ni_thread_step_def niThreadProc_def)
    next
      case (Some a)
      obtain r raw where a: "a = (r, raw)" by fastforce
      have "ni_ok (s\<lparr>ni_msgs := ni_msgs s @ [MsgInform r raw], threads := (threads s)[k := (es, NDone)]\<rparr>)"
        using assms upd [of NDone] NSend Some a by (auto simp: ni_ok_def held_def ac_simps)
      then show ?thesis using t NSend Some a True by (simp add: ni_thread_step_def niThreadProc_def)
    qed
  next
    case NDone
    with same [of NDone s] assms t True show ?thesis by (simp add: ni_thread_step_def niThreadProc_def)
  qed
qed (use assms in \<open>simp add: ni_thread_step_def\<close>)

lemma ni_step_ok: "ni_ok s \<Longrightarrow> ni_ok (ni_step a s)"
  by (cases a) (auto simp: task_step_ok thread_step_ok, auto simp: ni_ok_def held_def raw_of_def)

lemma ni_run_ok: "ni_ok s \<Longrightarrow> ni_ok (ni_run as s)"
  by (induction "as" arbitrary: s) (simp_all add: ni_run_def ni_step_ok)

lemma mset_subset_distinct:
  assumes "mset xs \<subseteq># mset ys" and "distinct ys"
  shows "distinct xs"
proof -
  have le: "count (mset xs) a \<le> 1" for a
  proof -
    have "count (mset ys) a \<le> 1" using assms(2) [unfolded distinct_count_atmost_1, rule_format, of a] by simp
    with mset_subset_eq_count [OF assms(1), of a] show ?thesis by linarith
  qed
  have "count (mset xs) a = (if a \<in> set xs then 1 else 0)" for a
  proof (cases "a \<in> set xs")
    case True
    then have "count (mset xs) a > 0" by simp
    with le [of a] have "count (mset xs) a = 1" by linarith
    with True show ?thesis by simp
  qed simp
  then show ?thesis by (simp add: distinct_count_atmost_1)
qed

section \<open>A session has its thread\<close>

fun waits :: "ni_pc \<Rightarrow> bool" where
  "waits NStart = True"
| "waits (NWaiting t) = True"
| "waits _ = False"

fun with_thread :: "ni_msg \<Rightarrow> bool" where
  "with_thread (MsgReportNiNotify es t data ok) = ok"
| "with_thread _ = True"

definition alive :: "ni_sys \<Rightarrow> bool" where
  "alive s \<longleftrightarrow> list_all with_thread (ni_msgs s) \<and> leaked s = [] \<and> ni_clients s \<noteq> [] \<and>
     (\<forall>es. rawRequest (sess es s) \<noteq> 0 \<longrightarrow> (\<exists>pc. (es, pc) \<in> set (threads s) \<and> waits pc))"

lemma alive_free [simp]: "alive (free_raw raw s) = alive s"
  by (simp add: alive_def free_raw_def sess_def)

lemma begin_alive:
  assumes "alive s"
  shows "alive (begin_session es t data True s)"
proof -
  let ?s = "begin_session es t data True s"
  have th: "threads ?s = threads s @ [(es, NStart)]" "sess (\<not> es) ?s = sess (\<not> es) s"
    by (cases es; simp add: begin_session_def upd_sess_def sess_def Let_def)+
  have "\<exists>pc. (b, pc) \<in> set (threads ?s) \<and> waits pc" if "rawRequest (sess b ?s) \<noteq> 0" for b
  proof (cases "b = es")
    case True
    then show ?thesis using th(1) by force
  next
    case False
    then have "sess b ?s = sess b s" using th(2) by (cases b; cases es) simp_all
    with that assms th(1) show ?thesis by (auto simp: alive_def)
  qed
  with assms show ?thesis
    by (simp add: alive_def) (simp add: begin_session_def upd_sess_def Let_def)
qed

lemma task_alive:
  assumes "alive s"
  shows "alive (ni_task_step s)"
proof (cases "locks s")
  case (Cons l ls)
  obtain es r where "l = (es, r)" by fastforce
  with Cons assms show ?thesis
    by (cases es) (auto simp: ni_task_step_def lock_step_def upd_sess_def alive_def sess_def Let_def split: option.splits)
next
  case Nil
  show ?thesis
  proof (cases "ni_msgs s")
    case (Cons m ms)
    have al: "alive (s\<lparr>ni_msgs := ms\<rparr>)" "with_thread m" "ni_clients s \<noteq> []"
      using assms Cons by (simp_all add: alive_def sess_def)
    have "alive (ni_msg_proc m (s\<lparr>ni_msgs := ms\<rparr>))"
    proof (cases m)
      case (MsgReportNiNotify es t data b)
      with al begin_alive [OF al(1)] show ?thesis by (simp add: ni_msg_proc_def requestNiNotify_def)
    next
      case (MsgGnssNiResponse c i r)
      with al(1) show ?thesis by (auto simp: ni_msg_proc_def gnssNiResponseCommand_def alive_def sess_def)
    next
      case (MsgInform r raw)
      with al(1) show ?thesis by (simp add: ni_msg_proc_def informNiResponse_def, simp add: alive_def sess_def)
    qed
    with Nil Cons show ?thesis by (simp add: ni_task_step_def)
  qed (use Nil assms in \<open>simp add: ni_task_step_def\<close>)
qed

lemma upd_sess_fields [simp]:
  "threads (upd_sess es f s) = threads s" "ni_msgs (upd_sess es f s) = ni_msgs s" "leaked (upd_sess es f s) = leaked s"
  "ni_clients (upd_sess es f s) = ni_clients s" "sess es (upd_sess es f s) = f (sess es s)"
  "sess (\<not> es) (upd_sess es f s) = sess (\<not> es) s"
  by (simp_all add: upd_sess_def sess_def)

lemma leave_wait_pc: "leave_wait es s = (pc', s') \<Longrightarrow> \<not> waits pc' \<and> ni_clients s' = ni_clients s"
  by (auto simp: leave_wait_def Let_def free_raw_def)

lemma thread_proc_parts:
  assumes "niThreadProc timed_out es pc s = (pc', s1)"
  shows "threads s1 = threads s \<and> leaked s1 = leaked s \<and> ni_clients s1 = ni_clients s \<and> sess (\<not> es) s1 = sess (\<not> es) s \<and>
    (list_all with_thread (ni_msgs s) \<longrightarrow> list_all with_thread (ni_msgs s1)) \<and>
    (waits pc \<and> \<not> waits pc' \<longrightarrow> rawRequest (sess es s1) = 0) \<and>
    (rawRequest (sess es s1) = 0 \<or> rawRequest (sess es s1) = rawRequest (sess es s))"
proof (cases pc)
  case NStart
  with assms leave_wait_parts [of es s pc' s1] leave_wait_pc [of es s pc' s1] show ?thesis
    by (auto simp: niThreadProc_def split: if_splits)
next
  case (NWaiting t)
  let ?s = "upd_sess es (\<lambda>p. p\<lparr>resp := GNSS_NI_RESPONSE_NO_RESPONSE\<rparr>) s"
  from NWaiting assms leave_wait_parts [of es s pc' s1] leave_wait_pc [of es s pc' s1]
    leave_wait_parts [of es ?s pc' s1] leave_wait_pc [of es ?s pc' s1] show ?thesis
    by (auto simp: niThreadProc_def split: if_splits)
next
  case (NReset out)
  with assms show ?thesis by (auto simp: niThreadProc_def)
next
  case (NSend out)
  with assms show ?thesis by (auto simp: niThreadProc_def sess_def split: option.splits)
qed (use assms in \<open>auto simp: niThreadProc_def\<close>)

lemma thread_alive:
  assumes "alive s"
  shows "alive (ni_thread_step k timed_out s)"
proof (cases "k < length (threads s)")
  case True
  obtain es pc where t: "threads s ! k = (es, pc)" by fastforce
  obtain pc' s1 where st: "niThreadProc timed_out es pc s = (pc', s1)" by fastforce
  have th: "threads s1 = threads s" "leaked s1 = leaked s" "ni_clients s1 = ni_clients s" "sess (\<not> es) s1 = sess (\<not> es) s"
      "list_all with_thread (ni_msgs s1)" "waits pc \<and> \<not> waits pc' \<Longrightarrow> rawRequest (sess es s1) = 0"
      "rawRequest (sess es s1) = 0 \<or> rawRequest (sess es s1) = rawRequest (sess es s)"
    using thread_proc_parts [OF st] assms by (simp_all add: alive_def)
  have "\<exists>pc. (b, pc) \<in> set ((threads s)[k := (es, pc')]) \<and> waits pc" if "rawRequest (sess b s1) \<noteq> 0" for b
  proof -
    have "rawRequest (sess b s) \<noteq> 0"
    proof (cases "b = es")
      case True
      with that th(7) show ?thesis by auto
    next
      case False
      then have "b = (\<not> es)" by blast
      with that th(4) show ?thesis by auto
    qed
    then obtain pc2 where pc2: "(b, pc2) \<in> set (threads s)" "waits pc2" using assms by (auto simp: alive_def)
    then obtain j where j: "j < length (threads s)" "threads s ! j = (b, pc2)" by (auto simp: in_set_conv_nth)
    show ?thesis
    proof (cases "j = k")
      case True
      with j t have "b = es" "pc2 = pc" by simp_all
      with that th(6) pc2(2) have "waits pc'" by auto
      with \<open>b = es\<close> \<open>k < length (threads s)\<close> show ?thesis by (intro exI [of _ pc']) (simp add: set_update_memI)
    next
      case False
      with j pc2(2) show ?thesis by (metis length_list_update nth_list_update_neq nth_mem)
    qed
  qed
  moreover have "sess b (s1\<lparr>threads := x\<rparr>) = sess b s1" for b x by (simp add: sess_def)
  ultimately show ?thesis using assms th(1-3,5) t st True by (simp add: ni_thread_step_def alive_def)
qed (use assms in \<open>simp add: ni_thread_step_def\<close>)

fun thread_made :: "ni_act \<Rightarrow> bool" where
  "thread_made (NRequest es t data ok) = ok"
| "thread_made _ = True"

lemma step_alive: "alive s \<Longrightarrow> thread_made a \<Longrightarrow> alive (ni_step a s)"
  by (cases a) (auto simp: task_alive thread_alive, auto simp: alive_def sess_def)

lemma run_alive: "alive s \<Longrightarrow> list_all thread_made as \<Longrightarrow> alive (ni_run as s)"
  by (induction "as" arbitrary: s) (simp_all add: ni_run_def step_alive)

section \<open>A thread ends\<close>

fun pc_rank :: "ni_pc \<Rightarrow> nat" where
  "pc_rank NStart = 4"
| "pc_rank (NWaiting t) = 3"
| "pc_rank (NReset out) = 2"
| "pc_rank (NSend out) = 1"
| "pc_rank NDone = 0"

lemma niThreadProc_rank:
  "niThreadProc timed_out es pc s = (pc', s') \<Longrightarrow>
   pc_rank pc' \<le> pc_rank pc - (if timed_out then 1 else 0) \<and> threads s' = threads s"
  by (cases pc) (auto simp: niThreadProc_def leave_wait_def upd_sess_def free_raw_def Let_def split: if_splits option.splits)

lemma other_threads:
  "threads (ni_task_step s) = threads s \<or> (\<exists>t. threads (ni_task_step s) = threads s @ [t])"
  by (auto simp: ni_task_step_def ni_msg_proc_def requestNiNotify_def gnssNiResponseCommand_def informNiResponse_def
      begin_session_def lock_step_def upd_sess_def free_raw_def Let_def split: list.splits option.splits ni_msg.splits if_splits)

definition rank_of :: "nat \<Rightarrow> ni_sys \<Rightarrow> nat" where
  "rank_of k s = pc_rank (snd (threads s ! k))"

lemma step_rank:
  assumes "k < length (threads s)"
  shows "k < length (threads (ni_step a s)) \<and>
    rank_of k (ni_step a s) \<le> rank_of k s - (if a = NThread k True then 1 else 0)"
proof (cases a)
  case NTask
  then show ?thesis using other_threads [of s] assms by (auto simp: rank_of_def nth_append)
next
  case (NThread j b)
  show ?thesis
  proof (cases "j < length (threads s)")
    case True
    obtain es pc where t: "threads s ! j = (es, pc)" by fastforce
    obtain pc' s1 where st: "niThreadProc b es pc s = (pc', s1)" by fastforce
    from niThreadProc_rank [OF st] NThread t st True assms show ?thesis
      by (cases "j = k") (auto simp: ni_thread_step_def rank_of_def split: if_splits)
  next
    case False
    with NThread assms show ?thesis by (auto simp: ni_thread_step_def)
  qed
qed (use assms in \<open>simp_all add: rank_of_def\<close>)

lemma run_rank:
  "k < length (threads s) \<Longrightarrow>
   k < length (threads (ni_run as s)) \<and> rank_of k (ni_run as s) \<le> rank_of k s - count_list as (NThread k True)"
proof (induction "as" arbitrary: s)
  case (Cons a "as")
  from step_rank [OF Cons.prems, of a] Cons.IH [of "ni_step a s"] show ?case
    by (auto simp: ni_run_def split: if_splits)
qed (simp add: ni_run_def)

section \<open>Properties\<close>

text \<open>
  C34: Whatever the modem, the clients and the threads do in whatever order, each request of the modem
  is in exactly one place or freed: a buffer that is handed over once is freed at most once, it is not
  freed while it is still held, and the modem is informed of it at most once.
\<close>
theorem ni_request_freed_once:
  assumes "s = ni_run acts (new_ni clients)" and "distinct (received s)"
  shows "distinct (freed s) \<and> set (freed s) \<inter> set (held s) = {} \<and> set (freed s) \<union> set (held s) = set (received s) \<and>
    distinct (filter (\<lambda>r. r \<noteq> 0) (map fst (informed s)))"
proof -
  from ni_run_ok [OF new_ni_ok, of acts clients] assms(1) have
    ok: "mset (received s) = mset (held s @ freed s)" "mset (filter (\<lambda>r. r \<noteq> 0) (map fst (informed s))) \<subseteq># mset (freed s)"
    by (simp_all add: ni_ok_def)
  from mset_eq_imp_distinct_iff [OF ok(1)] assms(2) have "distinct (held s @ freed s)" by simp
  moreover from this have "distinct (freed s)" by simp
  from mset_subset_distinct [OF ok(2) this] have "distinct (filter (\<lambda>r. r \<noteq> 0) (map fst (informed s)))" .
  ultimately show ?thesis using mset_eq_setD [OF ok(1)] by auto
qed

text \<open>
  C35: No request is lost: when there is a client, every thread could be made, and the task and the threads have
  nothing left to do, all requests that were received are freed.
\<close>
theorem ni_no_request_lost:
  assumes "s = ni_run acts (new_ni clients)" and "clients \<noteq> []" and "list_all thread_made acts"
    and "ni_msgs s = []" and "\<forall>t \<in> set (threads s). snd t = NDone"
  shows "mset (freed s) = mset (received s) \<and> rawRequest (session s) = 0 \<and> rawRequest (sessionEs s) = 0"
proof -
  have "alive (new_ni clients)" using assms(2) by (simp add: alive_def new_ni_def sess_def new_session_def)
  from run_alive [OF this assms(3)] assms(1) have al: "alive s" by simp
  have raw: "rawRequest (sess es s) = 0" for es using al assms(5) by (force simp: alive_def)
  have "concat (map (pc_raw \<circ> snd) (threads s)) = []" using assms(5) by (auto simp: concat_eq_Nil_conv)
  with raw [of True] raw [of False] al assms(4) have "held s = []" by (simp add: held_def alive_def sess_def)
  with ni_run_ok [OF new_ni_ok, of acts clients] assms(1) raw [of True] raw [of False] show ?thesis
    by (simp add: ni_ok_def sess_def)
qed

text \<open>
  The thread of a session ends: once its time is up, four of its steps suffice, whatever happens
  in between.
\<close>
theorem ni_thread_ends:
  assumes "k < length (threads s)" and "count_list acts (NThread k True) \<ge> 4"
  shows "snd (threads (ni_run acts s) ! k) = NDone"
proof -
  have "rank_of k s \<le> 4" by (cases "snd (threads s ! k)") (simp_all add: rank_of_def)
  with run_rank [OF assms(1), of acts] assms(2) have "rank_of k (ni_run acts s) = 0" by linarith
  then show ?thesis by (cases "snd (threads (ni_run acts s) ! k)") (simp_all add: rank_of_def)
qed


section \<open>Runs\<close>

definition one_answer :: "ni_act list" where
  "one_answer = [NRequest False 1 100 True, NTask, NThread 0 False, NAnswer 7 1 GNSS_NI_RESPONSE_DENY]"

definition finish_one :: "ni_act list" where
  "finish_one = [NTask, NTask, NThread 0 False, NThread 0 False, NThread 0 False, NTask]"

lemma ni_request_freed_once_witness:
  "let s = ni_run (one_answer @ finish_one) (new_ni [7])
   in received s = [100] \<and> distinct (freed s) \<and> set (freed s) \<inter> set (held s) = {} \<and> set (freed s) \<union> set (held s) = {100}"
proof -
  have "received (ni_run (one_answer @ finish_one) (new_ni [7])) = [100]" by code_simp
  with ni_request_freed_once [OF refl, of "one_answer @ finish_one" "[7]"] show ?thesis by (simp add: Let_def)
qed

lemma ni_no_request_lost_witness:
  "let s = ni_run (one_answer @ finish_one) (new_ni [7]) in mset (freed s) = {#100#} \<and> rawRequest (session s) = 0"
proof -
  let ?s = "ni_run (one_answer @ finish_one) (new_ni [7])"
  have "ni_msgs ?s = [] \<and> threads ?s = [(False, NDone)] \<and> received ?s = [100]" by code_simp
  moreover have "list_all thread_made (one_answer @ finish_one)" by (simp add: one_answer_def finish_one_def)
  ultimately show ?thesis
    using ni_no_request_lost [OF refl, of "[7]" "one_answer @ finish_one"] by (simp add: Let_def)
qed

lemma ni_thread_ends_witness:
  "let s = ni_run one_answer (new_ni [7])
   in snd (threads s ! 0) = NWaiting 6 \<and> snd (threads (ni_run (replicate 4 (NThread 0 True)) s) ! 0) = NDone"
proof -
  let ?s = "ni_run one_answer (new_ni [7])"
  have "threads ?s = [(False, NWaiting 6)]" by code_simp
  moreover from this have "0 < length (threads ?s)" by simp
  moreover have "count_list (replicate 4 (NThread 0 True)) (NThread 0 True) \<ge> 4" by code_simp
  ultimately show ?thesis
    unfolding Let_def using ni_thread_ends [of 0 ?s "replicate 4 (NThread 0 True)"] by (metis nth_Cons_0 snd_conv)
qed


section \<open>Races\<close>

text \<open>
  An answer that comes as the time of its request ends: the check finds the request, the thread gives
  up and informs the modem that nobody answered, and the answer is stored after that. The next request
  is then answered with it at once, although the user was never asked about it.
\<close>
lemma ni_stale_answer_reused:
  "let s = ni_run [NRequest False 1 100 True, NTask, NThread 0 False, NAnswer 7 1 GNSS_NI_RESPONSE_ACCEPT, NTask,
             NThread 0 True, NTask, NThread 0 False, NThread 0 False, NTask,
             NRequest False 1 200 True, NTask, NThread 1 False, NThread 1 False, NThread 1 False, NTask] (new_ni [7])
   in informed s = [(100, GNSS_NI_RESPONSE_NO_RESPONSE), (200, GNSS_NI_RESPONSE_ACCEPT)] \<and>
      notified s = [1, 2] \<and> answered s = [(7, LOCATION_ERROR_SUCCESS, 1)]"
  by code_simp

text \<open>
  A request that comes between the unlock of the last thread and its reset of the session: the reset
  clears the number and the time of the new one, so that the answer is refused.
\<close>
lemma ni_reset_hits_next_request:
  "let s = ni_run [NRequest False 1 100 True, NTask, NThread 0 False, NThread 0 True, NRequest False 30 200 True, NTask,
             NThread 0 False, NThread 1 False, NAnswer 7 2 GNSS_NI_RESPONSE_ACCEPT, NTask, NTask] (new_ni [7])
   in notified s = [1, 2] \<and> rawRequest (session s) = 200 \<and> threads s ! 1 = (False, NWaiting 0) \<and>
      answered s = [(7, LOCATION_ERROR_ID_UNKNOWN, 2)]"
  by code_simp

text \<open>Without a client for network requests the buffer of the request is not freed.\<close>
lemma ni_no_client_leaks:
  "let s = ni_run [NRequest False 1 100 True, NTask] (new_ni [])
   in leaked s = [100] \<and> freed s = [] \<and> ni_msgs s = [] \<and> threads s = []"
  by code_simp

text \<open>A thread that cannot be made: the session is taken for good, and every later request is dropped.\<close>
lemma ni_no_thread_blocks:
  "let s = ni_run [NRequest True 1 100 False, NTask, NRequest True 1 200 True, NTask, NRequest False 1 300 True, NTask] (new_ni [7])
   in rawRequest (sessionEs s) = 100 \<and> threads s = [] \<and> freed s = [200, 300] \<and> informed s = []"
  by code_simp

end
