(* ===== verification/GnssConfig.thy ===== *)
theory GnssConfig
  imports GnssTracking OffloadPrefix
begin

text \<open>
  The configuration of the GNSS adapter (\<open>gps/gnss/GnssAdapter.cpp\<close>): the conversions between the values
  of the API and those of the configuration, the update of the configuration by the framework, what a
  modem that comes up is told again, and the power vote of the control client.

  Calls of the modem are logged, the newest first, and what the modem answers is a function of the log.
  The messages of the adapter are handled in the order of the commands, so a command and its message
  are one step here. \<open>gethostbyname\<close> and \<open>inet_aton\<close> are a function from names to addresses.
\<close>

section \<open>Values\<close>

datatype gps_lock =
  GNSS_CONFIG_GPS_LOCK_NONE | GNSS_CONFIG_GPS_LOCK_MO | GNSS_CONFIG_GPS_LOCK_NI | GNSS_CONFIG_GPS_LOCK_MO_AND_NI

datatype supl_version =
  GNSS_CONFIG_SUPL_VERSION_1_0_0 | GNSS_CONFIG_SUPL_VERSION_2_0_0 | GNSS_CONFIG_SUPL_VERSION_2_0_2

datatype lpp_profile =
    GNSS_CONFIG_LPP_PROFILE_RRLP_ON_LTE | GNSS_CONFIG_LPP_PROFILE_USER_PLANE
  | GNSS_CONFIG_LPP_PROFILE_CONTROL_PLANE | GNSS_CONFIG_LPP_PROFILE_USER_PLANE_AND_CONTROL_PLANE

fun convertGpsLock :: "gps_lock \<Rightarrow> u32" where
  "convertGpsLock GNSS_CONFIG_GPS_LOCK_MO = 1"
| "convertGpsLock GNSS_CONFIG_GPS_LOCK_NI = 2"
| "convertGpsLock GNSS_CONFIG_GPS_LOCK_MO_AND_NI = 3"
| "convertGpsLock GNSS_CONFIG_GPS_LOCK_NONE = 0"

definition gps_lock_of :: "u32 \<Rightarrow> gps_lock" where
  "gps_lock_of l =
     (if l = 1 then GNSS_CONFIG_GPS_LOCK_MO
      else if l = 2 then GNSS_CONFIG_GPS_LOCK_NI
      else if l = 3 then GNSS_CONFIG_GPS_LOCK_MO_AND_NI
      else GNSS_CONFIG_GPS_LOCK_NONE)"

fun convertSuplVersion :: "supl_version \<Rightarrow> u32" where
  "convertSuplVersion GNSS_CONFIG_SUPL_VERSION_2_0_0 = 0x00020000"
| "convertSuplVersion GNSS_CONFIG_SUPL_VERSION_2_0_2 = 0x00020002"
| "convertSuplVersion GNSS_CONFIG_SUPL_VERSION_1_0_0 = 0x00010000"

definition supl_version_of :: "u32 \<Rightarrow> supl_version" where
  "supl_version_of v =
     (if v = 0x00020000 then GNSS_CONFIG_SUPL_VERSION_2_0_0
      else if v = 0x00020002 then GNSS_CONFIG_SUPL_VERSION_2_0_2
      else GNSS_CONFIG_SUPL_VERSION_1_0_0)"

fun convertLppProfile :: "lpp_profile \<Rightarrow> u32" where
  "convertLppProfile GNSS_CONFIG_LPP_PROFILE_USER_PLANE = 1"
| "convertLppProfile GNSS_CONFIG_LPP_PROFILE_CONTROL_PLANE = 2"
| "convertLppProfile GNSS_CONFIG_LPP_PROFILE_USER_PLANE_AND_CONTROL_PLANE = 3"
| "convertLppProfile GNSS_CONFIG_LPP_PROFILE_RRLP_ON_LTE = 0"

definition lpp_profile_of :: "u32 \<Rightarrow> lpp_profile" where
  "lpp_profile_of p =
     (if p = 1 then GNSS_CONFIG_LPP_PROFILE_USER_PLANE
      else if p = 2 then GNSS_CONFIG_LPP_PROFILE_CONTROL_PLANE
      else if p = 3 then GNSS_CONFIG_LPP_PROFILE_USER_PLANE_AND_CONTROL_PLANE
      else GNSS_CONFIG_LPP_PROFILE_RRLP_ON_LTE)"

text \<open>The masks: bit by bit, from the 16 bits of the API to the 32 of the configuration and back.\<close>

definition convertLppeCp :: "u16 \<Rightarrow> u32" where
  "convertLppeCp m =
     (if bit m 0 then 2 ^ 0 else 0) OR (if bit m 1 then 2 ^ 1 else 0) OR
     (if bit m 2 then 2 ^ 2 else 0) OR (if bit m 3 then 2 ^ 3 else 0)"

definition lppe_cp_of :: "u32 \<Rightarrow> u16" where
  "lppe_cp_of m =
     (if bit m 0 then 2 ^ 0 else 0) OR (if bit m 1 then 2 ^ 1 else 0) OR
     (if bit m 2 then 2 ^ 2 else 0) OR (if bit m 3 then 2 ^ 3 else 0)"

definition convertLppeUp :: "u16 \<Rightarrow> u32" where
  "convertLppeUp m =
     (if bit m 0 then 2 ^ 0 else 0) OR (if bit m 1 then 2 ^ 1 else 0) OR
     (if bit m 2 then 2 ^ 2 else 0) OR (if bit m 3 then 2 ^ 3 else 0)"

definition lppe_up_of :: "u32 \<Rightarrow> u16" where
  "lppe_up_of m =
     (if bit m 0 then 2 ^ 0 else 0) OR (if bit m 1 then 2 ^ 1 else 0) OR
     (if bit m 2 then 2 ^ 2 else 0) OR (if bit m 3 then 2 ^ 3 else 0)"

definition convertAGloProt :: "u16 \<Rightarrow> u32" where
  "convertAGloProt m =
     (if bit m 0 then 2 ^ 0 else 0) OR (if bit m 1 then 2 ^ 1 else 0) OR
     (if bit m 2 then 2 ^ 2 else 0) OR (if bit m 3 then 2 ^ 3 else 0)"

definition convertEP4ES :: "bool \<Rightarrow> u32" where
  "convertEP4ES yes = (if yes then 1 else 0)"

definition convertSuplEs :: "bool \<Rightarrow> u32" where
  "convertSuplEs yes = (if yes then 1 else 0)"

definition convertSuplMode :: "u16 \<Rightarrow> u32" where
  "convertSuplMode m = (if bit m 0 then 2 ^ 0 else 0) OR (if bit m 1 then 2 ^ 1 else 0)"

section \<open>State\<close>

record gps_conf =
  GPS_LOCK :: u32
  SUPL_VER :: u32
  LPP_PROFILE :: u32
  LPPE_CP_TECHNOLOGY :: u32
  LPPE_UP_TECHNOLOGY :: u32
  A_GLONASS_POS_PROTOCOL_SELECT :: u32
  USE_EMERGENCY_PDN_FOR_EMERGENCY_SUPL :: u32
  SUPL_ES :: u32
  SUPL_MODE :: u32
  CAPABILITIES :: u32
  AGPS_CONFIG_INJECT :: bool
  NMEA_PROVIDER_MP :: bool
  XTRA_VERSION_CHECK :: u32

text \<open>
  The sensors: five quantities with their validity, doubles kept as their bits since they are only
  handed through, and the ten values of the performance control, in the order of the call.
\<close>

record sap_conf =
  SENSOR_USAGE :: u32
  SENSOR_PROVIDER :: u32
  random_walks :: "(bool \<times> 64 word) list"
  sensor_perf :: "u32 list"

datatype api_call =
    SetGpsLock gps_lock | SetSUPLVersion supl_version | SetServerUrl string | SetServer u32 u32
  | SetLPPConfig lpp_profile | SetLPPeProtocolCp u16 | SetLPPeProtocolUp u16 | SetAGLONASSProtocol u16
  | SetSensorControlConfig u32 u32 | SetNMEATypes u32 | SetXtraVersionCheck u32
  | SetSensorProperties "(bool \<times> 64 word) list" | SetSensorPerfControlConfig "u32 list"

type_synonym modem = "api_call list \<Rightarrow> loc_error"

record control =
  conf :: gps_conf
  mServerUrl :: string
  mPowerVoteId :: u32
  nmeaMask :: u32
  api_log :: "api_call list"
  ulp_capabilities :: "u32 list"
  broadcasts :: nat
  votes :: "bool list"
  lock_status :: "u32 list"
  ctl_responses :: "(loc_error \<times> u32) list"
  collective :: "(loc_error list \<times> u32 list) list"

definition call_api :: "modem \<Rightarrow> api_call \<Rightarrow> control \<Rightarrow> loc_error \<times> control" where
  "call_api api c s = (api (c # api_log s), s\<lparr>api_log := c # api_log s\<rparr>)"

definition getCarrierCapabilities :: "gps_conf \<Rightarrow> u32" where
  "getCarrierCapabilities g =
     (let caps = CAPABILITIES g;
          caps = (if SUPL_MODE g AND 0x2 \<noteq> 0x2 then caps AND NOT 0x4 else caps)
      in if SUPL_MODE g AND 0x1 \<noteq> 0x1 then caps AND NOT 0x2 else caps)"

section \<open>An update\<close>

datatype assistance_type = GNSS_ASSISTANCE_TYPE_SUPL | GNSS_ASSISTANCE_TYPE_C2K | OtherAssistance

record gnss_config =
  cfg_flags :: u32
  gpsLock :: gps_lock
  suplVersion :: supl_version
  assistance :: assistance_type
  hostName :: "string option"
  port :: u32
  lppProfile :: lpp_profile
  lppeControlPlaneMask :: u16
  lppeUserPlaneMask :: u16
  aGlonassPositionProtocolMask :: u16
  emergencyPdn :: bool
  suplEmergencyServices :: bool
  suplModeMask :: u16

text \<open>
  Each item gets the error of the one before, which some branches leave as it is. The first result
  goes into the answer.
\<close>

type_synonym item = "modem \<Rightarrow> gnss_config \<Rightarrow> loc_error \<Rightarrow> control \<Rightarrow> loc_error \<times> control"

abbreviation set_conf :: "(gps_conf \<Rightarrow> gps_conf) \<Rightarrow> control \<Rightarrow> control" where
  "set_conf f s \<equiv> s\<lparr>conf := f (conf s)\<rparr>"

definition item_gps_lock :: item where
  "item_gps_lock api cfg err s =
     (let s1 = set_conf (\<lambda>g. g\<lparr>GPS_LOCK := convertGpsLock (gpsLock cfg)\<rparr>) s
      in if mPowerVoteId s1 = 0 then call_api api (SetGpsLock (gpsLock cfg)) s1 else (err, s1))"

definition item_supl_version :: item where
  "item_supl_version api cfg err s =
     (let v = convertSuplVersion (suplVersion cfg)
      in if v \<noteq> SUPL_VER (conf s) \<and> AGPS_CONFIG_INJECT (conf s)
         then call_api api (SetSUPLVersion (suplVersion cfg)) (set_conf (\<lambda>g. g\<lparr>SUPL_VER := v\<rparr>) s)
         else (LOCATION_ERROR_SUCCESS, s))"

text \<open>\<open>strncasecmp\<close> on the first \<open>n\<close> characters.\<close>

definition to_lower :: "char \<Rightarrow> char" where
  "to_lower c = (let k = (of_char c :: nat) in if 65 \<le> k \<and> k \<le> 90 then char_of (k + 32) else c)"

definition same_ignoring_case :: "nat \<Rightarrow> string \<Rightarrow> string \<Rightarrow> bool" where
  "same_ignoring_case n a b = (map to_lower (take n a) = map to_lower (take n b))"

definition MAX_URL_LEN :: nat where "MAX_URL_LEN = 256"

definition item_assistance :: "(string option \<Rightarrow> u32 option) \<Rightarrow> item" where
  "item_assistance resolveInAddress api cfg err s =
     (case assistance cfg of
        GNSS_ASSISTANCE_TYPE_SUPL \<Rightarrow>
          if AGPS_CONFIG_INJECT (conf s)
          then (case hostName cfg of
                  None \<Rightarrow> (LOCATION_ERROR_INVALID_PARAMETER, s)
                | Some h \<Rightarrow>
                    if same_ignoring_case 5 ''NONE'' h then (LOCATION_ERROR_INVALID_PARAMETER, s)
                    else let serverUrl = take (MAX_URL_LEN - 1) (h @ '':'' @ to_string (uint (port cfg)))
                         in if \<not> same_ignoring_case MAX_URL_LEN (mServerUrl s) serverUrl
                            then call_api api (SetServerUrl serverUrl) (s\<lparr>mServerUrl := serverUrl\<rparr>)
                            else (err, s))
          else (LOCATION_ERROR_SUCCESS, s)
      | GNSS_ASSISTANCE_TYPE_C2K \<Rightarrow>
          if AGPS_CONFIG_INJECT (conf s)
          then (case resolveInAddress (hostName cfg) of
                  None \<Rightarrow> (LOCATION_ERROR_INVALID_PARAMETER, s)
                | Some a \<Rightarrow> call_api api (SetServer (htonl a) (port cfg)) s)
          else (LOCATION_ERROR_SUCCESS, s)
      | OtherAssistance \<Rightarrow> (LOCATION_ERROR_INVALID_PARAMETER, s))"

definition item_lpp_profile :: item where
  "item_lpp_profile api cfg err s =
     (let p = convertLppProfile (lppProfile cfg)
      in if p \<noteq> LPP_PROFILE (conf s) \<and> AGPS_CONFIG_INJECT (conf s)
         then call_api api (SetLPPConfig (lppProfile cfg)) (set_conf (\<lambda>g. g\<lparr>LPP_PROFILE := p\<rparr>) s)
         else (LOCATION_ERROR_SUCCESS, s))"

definition item_lppe_cp :: item where
  "item_lppe_cp api cfg err s =
     (let m = convertLppeCp (lppeControlPlaneMask cfg)
      in if m \<noteq> LPPE_CP_TECHNOLOGY (conf s)
         then call_api api (SetLPPeProtocolCp (lppeControlPlaneMask cfg)) (set_conf (\<lambda>g. g\<lparr>LPPE_CP_TECHNOLOGY := m\<rparr>) s)
         else (LOCATION_ERROR_SUCCESS, s))"

definition item_lppe_up :: item where
  "item_lppe_up api cfg err s =
     (let m = convertLppeUp (lppeUserPlaneMask cfg)
      in if m \<noteq> LPPE_UP_TECHNOLOGY (conf s)
         then call_api api (SetLPPeProtocolUp (lppeUserPlaneMask cfg)) (set_conf (\<lambda>g. g\<lparr>LPPE_UP_TECHNOLOGY := m\<rparr>) s)
         else (LOCATION_ERROR_SUCCESS, s))"

definition item_aglonass :: item where
  "item_aglonass api cfg err s =
     (let m = convertAGloProt (aGlonassPositionProtocolMask cfg)
      in if m \<noteq> A_GLONASS_POS_PROTOCOL_SELECT (conf s) \<and> AGPS_CONFIG_INJECT (conf s)
         then call_api api (SetAGLONASSProtocol (aGlonassPositionProtocolMask cfg))
                (set_conf (\<lambda>g. g\<lparr>A_GLONASS_POS_PROTOCOL_SELECT := m\<rparr>) s)
         else (LOCATION_ERROR_SUCCESS, s))"

definition item_emergency_pdn :: item where
  "item_emergency_pdn api cfg err s =
     (LOCATION_ERROR_SUCCESS,
      set_conf (\<lambda>g. g\<lparr>USE_EMERGENCY_PDN_FOR_EMERGENCY_SUPL := convertEP4ES (emergencyPdn cfg)\<rparr>) s)"

definition item_supl_es :: item where
  "item_supl_es api cfg err s =
     (LOCATION_ERROR_SUCCESS, set_conf (\<lambda>g. g\<lparr>SUPL_ES := convertSuplEs (suplEmergencyServices cfg)\<rparr>) s)"

definition item_supl_mode :: item where
  "item_supl_mode api cfg err s =
     (let m = convertSuplMode (suplModeMask cfg)
      in (LOCATION_ERROR_SUCCESS,
          if m \<noteq> SUPL_MODE (conf s)
          then let s1 = set_conf (\<lambda>g. g\<lparr>SUPL_MODE := m\<rparr>) s
               in s1\<lparr>ulp_capabilities := ulp_capabilities s1 @ [getCarrierCapabilities (conf s1)], broadcasts := Suc (broadcasts s1)\<rparr>
          else s))"

definition items :: "(string option \<Rightarrow> u32 option) \<Rightarrow> (nat \<times> item) list" where
  "items resolve =
     [(0, item_gps_lock), (1, item_supl_version), (2, item_assistance resolve), (3, item_lpp_profile),
      (4, item_lppe_cp), (5, item_lppe_up), (6, item_aglonass), (7, item_emergency_pdn), (8, item_supl_es),
      (9, item_supl_mode)]"

definition do_item :: "modem \<Rightarrow> gnss_config \<Rightarrow> nat \<Rightarrow> nat \<times> item \<Rightarrow> loc_error list \<times> loc_error \<times> control
    \<Rightarrow> loc_error list \<times> loc_error \<times> control" where
  "do_item api cfg n_ids it st =
     (case (it, st) of ((b, f), (errs, err, s)) \<Rightarrow>
        if bit (cfg_flags cfg) b
        then let (err1, s1) = f api cfg err s in (if length errs < n_ids then errs @ [err1] else errs, err1, s1)
        else (errs, err, s))"

text \<open>The bits set in the flags, as the loop counts them.\<close>

function count_flags :: "u32 \<Rightarrow> nat" where
  "count_flags f = (if f = 0 then 0 else (if bit f 0 then 1 else 0) + count_flags (drop_bit 1 f))"
  by auto
termination
proof (relation "measure unat")
  fix f :: u32 assume "f \<noteq> 0"
  then have "unat f > 0" by (simp add: unat_gt_0)
  then show "(drop_bit 1 f, f) \<in> measure unat" by (simp add: drop_bit_eq_div unat_div)
qed simp

declare count_flags.simps [simp del]

text \<open>The command with the ids it was given: nothing is sent without an id.\<close>

definition gnssUpdateConfig ::
  "modem \<Rightarrow> (string option \<Rightarrow> u32 option) \<Rightarrow> gnss_config \<Rightarrow> u32 list \<Rightarrow> control \<Rightarrow> control" where
  "gnssUpdateConfig api resolve cfg ids s =
     (let n_ids = count_flags (cfg_flags cfg)
      in if n_ids = 0 then s
         else let (errs, err, s1) = fold (do_item api cfg n_ids) (items resolve) ([], LOCATION_ERROR_SUCCESS, s)
              in s1\<lparr>collective := collective s1 @ [(errs, take (length errs) ids)]\<rparr>)"

section \<open>What a modem that comes up is told\<close>

definition LOC_NMEA_ALL_GENERAL_SUPPORTED_MASK :: u32 where "LOC_NMEA_ALL_GENERAL_SUPPORTED_MASK = 0x1FFFF"
definition LOC_NMEA_MASK_DEBUG_V02 :: u32 where "LOC_NMEA_MASK_DEBUG_V02 = 0x20000"

definition setConfig :: "modem \<Rightarrow> sap_conf \<Rightarrow> bool \<Rightarrow> control \<Rightarrow> control" where
  "setConfig api sap debug_nmea s =
     (let g = conf s;
          s1 = (if AGPS_CONFIG_INJECT g
                then snd (call_api api (SetAGLONASSProtocol (ucast (A_GLONASS_POS_PROTOCOL_SELECT g)))
                       (snd (call_api api (SetLPPConfig (lpp_profile_of (LPP_PROFILE g)))
                          (snd (call_api api (SetSUPLVersion (supl_version_of (SUPL_VER g))) s)))))
                else s);
          s2 = snd (call_api api (SetSensorControlConfig (SENSOR_USAGE sap) (SENSOR_PROVIDER sap)) s1);
          s3 = snd (call_api api (SetLPPeProtocolCp (lppe_cp_of (LPPE_CP_TECHNOLOGY g))) s2);
          s4 = snd (call_api api (SetLPPeProtocolUp (lppe_up_of (LPPE_UP_TECHNOLOGY g))) s3);
          m = (if NMEA_PROVIDER_MP g then LOC_NMEA_ALL_GENERAL_SUPPORTED_MASK else 0) OR
              (if debug_nmea then LOC_NMEA_MASK_DEBUG_V02 else 0);
          s5 = (if m \<noteq> 0 then snd (call_api api (SetNMEATypes m) s4) else s4);
          s6 = snd (call_api api (SetXtraVersionCheck (XTRA_VERSION_CHECK g)) (s5\<lparr>nmeaMask := m\<rparr>));
          s7 = (if \<exists>w \<in> set (random_walks sap). fst w then snd (call_api api (SetSensorProperties (random_walks sap)) s6) else s6)
      in snd (call_api api (SetSensorPerfControlConfig (sensor_perf sap)) s7))"

section \<open>The power vote\<close>

definition enable_gnss :: "modem \<Rightarrow> u32 \<Rightarrow> bool \<Rightarrow> control \<Rightarrow> control" where
  "enable_gnss api sessionId tech_is_gnss s =
     (if \<not> tech_is_gnss then s\<lparr>ctl_responses := ctl_responses s @ [(LOCATION_ERROR_INVALID_PARAMETER, sessionId)]\<rparr>
      else if mPowerVoteId s > 0 then s\<lparr>ctl_responses := ctl_responses s @ [(LOCATION_ERROR_ALREADY_STARTED, sessionId)]\<rparr>
      else let s1 = snd (call_api api (SetGpsLock GNSS_CONFIG_GPS_LOCK_NONE) (s\<lparr>votes := votes s @ [True], mPowerVoteId := sessionId\<rparr>))
           in s1\<lparr>lock_status := lock_status s1 @ [convertGpsLock GNSS_CONFIG_GPS_LOCK_NONE],
                 ctl_responses := ctl_responses s1 @ [(LOCATION_ERROR_SUCCESS, sessionId)]\<rparr>)"

definition disable_gnss :: "modem \<Rightarrow> u32 \<Rightarrow> control \<Rightarrow> control" where
  "disable_gnss api sessionId s =
     (if mPowerVoteId s \<noteq> sessionId then s\<lparr>ctl_responses := ctl_responses s @ [(LOCATION_ERROR_ID_UNKNOWN, sessionId)]\<rparr>
      else let l = gps_lock_of (GPS_LOCK (conf s));
               s1 = snd (call_api api (SetGpsLock l) (s\<lparr>votes := votes s @ [False], mPowerVoteId := 0\<rparr>))
           in s1\<lparr>lock_status := lock_status s1 @ [convertGpsLock l],
                 ctl_responses := ctl_responses s1 @ [(LOCATION_ERROR_SUCCESS, sessionId)]\<rparr>)"

section \<open>Conversions\<close>

lemma lock_roundtrip [simp]: "gps_lock_of (convertGpsLock l) = l"
  by (cases l) (simp_all add: gps_lock_of_def)

lemma supl_roundtrip [simp]: "supl_version_of (convertSuplVersion v) = v"
  by (cases v) (simp_all add: supl_version_of_def)

lemma lpp_roundtrip [simp]: "lpp_profile_of (convertLppProfile p) = p"
  by (cases p) (simp_all add: lpp_profile_of_def)

text \<open>The four conversions of masks take the lowest four bits.\<close>

lemma bit_flag16: "k < 16 \<Longrightarrow> bit (if b then 2 ^ k else (0 :: u16)) n \<longleftrightarrow> b \<and> n = k"
  by (auto simp: bit_exp_iff)

lemma low_bits32:
  "bit ((if b0 then 2 ^ 0 else 0) OR (if b1 then 2 ^ 1 else 0) OR (if b2 then 2 ^ 2 else 0) OR (if b3 then 2 ^ 3 else (0 :: u32))) n
     \<longleftrightarrow> b0 \<and> n = 0 \<or> b1 \<and> n = 1 \<or> b2 \<and> n = 2 \<or> b3 \<and> n = 3"
proof -
  have k: "(0 :: nat) < 32" "(1 :: nat) < 32" "(2 :: nat) < 32" "(3 :: nat) < 32" by simp_all
  show ?thesis unfolding bit_or_iff bit_flag [OF k(1)] bit_flag [OF k(2)] bit_flag [OF k(3)] bit_flag [OF k(4)]
    by (simp only: disj_assoc)
qed

lemma low_bits16:
  "bit ((if b0 then 2 ^ 0 else 0) OR (if b1 then 2 ^ 1 else 0) OR (if b2 then 2 ^ 2 else 0) OR (if b3 then 2 ^ 3 else (0 :: u16))) n
     \<longleftrightarrow> b0 \<and> n = 0 \<or> b1 \<and> n = 1 \<or> b2 \<and> n = 2 \<or> b3 \<and> n = 3"
proof -
  have k: "(0 :: nat) < 16" "(1 :: nat) < 16" "(2 :: nat) < 16" "(3 :: nat) < 16" by simp_all
  show ?thesis unfolding bit_or_iff bit_flag16 [OF k(1)] bit_flag16 [OF k(2)] bit_flag16 [OF k(3)] bit_flag16 [OF k(4)]
    by (simp only: disj_assoc)
qed

lemma low4: "n = 0 \<or> n = 1 \<or> n = 2 \<or> n = 3 \<longleftrightarrow> n < (4 :: nat)"
  by auto

lemma bit_15: "bit (15 :: u16) n \<longleftrightarrow> n < 4"
  using bit_mask_iff [of 4 n, where ?'a = "16 word"] by (auto simp: mask_eq_exp_minus_1)

lemma lppe_roundtrip [simp]:
  "lppe_cp_of (convertLppeCp m) = m AND 15" "lppe_up_of (convertLppeUp m) = m AND 15"
proof -
  have "bit (lppe_cp_of (convertLppeCp m)) n \<longleftrightarrow> bit (m AND 15) n" for n
    unfolding lppe_cp_of_def convertLppeCp_def low_bits16 low_bits32 bit_and_iff bit_15 low4 [symmetric]
    by (cases "n = 0"; cases "n = 1"; cases "n = 2"; cases "n = 3"; simp)
  then show "lppe_cp_of (convertLppeCp m) = m AND 15" by (simp add: bit_eq_iff)
  have "bit (lppe_up_of (convertLppeUp m)) n \<longleftrightarrow> bit (m AND 15) n" for n
    unfolding lppe_up_of_def convertLppeUp_def low_bits16 low_bits32 bit_and_iff bit_15 low4 [symmetric]
    by (cases "n = 0"; cases "n = 1"; cases "n = 2"; cases "n = 3"; simp)
  then show "lppe_up_of (convertLppeUp m) = m AND 15" by (simp add: bit_eq_iff)
qed

section \<open>What an update does\<close>

text \<open>The number of ids is the number of bits set, so there is one for each item.\<close>

lemma count_flags_card: "count_flags f = card {n. bit f n}"
proof (induction f rule: count_flags.induct)
  case (1 f)
  show ?case
  proof (cases "f = 0")
    case False
    have fin: "finite {n. bit (drop_bit 1 f) n}" for f :: u32
      by (rule finite_subset [of _ "{..<32}"]) (auto dest: bit_imp_le_length)
    have "{n. bit f n} = (if bit f 0 then {0} else {}) \<union> Suc ` {n. bit (drop_bit 1 f) n}"
      by (auto simp: bit_drop_bit_eq image_iff gr0_conv_Suc) (metis not0_implies_Suc)+
    moreover have "card (Suc ` {n. bit (drop_bit 1 f) n}) = card {n. bit (drop_bit 1 f) n}"
      by (rule card_image) simp
    ultimately show ?thesis using 1 False fin [of f] by (subst count_flags.simps) (simp add: card_Un_disjoint)
  qed (simp add: count_flags.simps [of 0])
qed

text \<open>The settings after an item.\<close>

fun conf_after :: "nat \<Rightarrow> gnss_config \<Rightarrow> gps_conf \<Rightarrow> gps_conf" where
  "conf_after b cfg g =
     (if b = 0 then g\<lparr>GPS_LOCK := convertGpsLock (gpsLock cfg)\<rparr>
      else if b = 1 then (if AGPS_CONFIG_INJECT g then g\<lparr>SUPL_VER := convertSuplVersion (suplVersion cfg)\<rparr> else g)
      else if b = 3 then (if AGPS_CONFIG_INJECT g then g\<lparr>LPP_PROFILE := convertLppProfile (lppProfile cfg)\<rparr> else g)
      else if b = 4 then g\<lparr>LPPE_CP_TECHNOLOGY := convertLppeCp (lppeControlPlaneMask cfg)\<rparr>
      else if b = 5 then g\<lparr>LPPE_UP_TECHNOLOGY := convertLppeUp (lppeUserPlaneMask cfg)\<rparr>
      else if b = 6 then (if AGPS_CONFIG_INJECT g
                          then g\<lparr>A_GLONASS_POS_PROTOCOL_SELECT := convertAGloProt (aGlonassPositionProtocolMask cfg)\<rparr> else g)
      else if b = 7 then g\<lparr>USE_EMERGENCY_PDN_FOR_EMERGENCY_SUPL := convertEP4ES (emergencyPdn cfg)\<rparr>
      else if b = 8 then g\<lparr>SUPL_ES := convertSuplEs (suplEmergencyServices cfg)\<rparr>
      else if b = 9 then g\<lparr>SUPL_MODE := convertSuplMode (suplModeMask cfg)\<rparr>
      else g)"

declare conf_after.simps [simp del]

lemmas item_defs = item_gps_lock_def item_supl_version_def item_assistance_def item_lpp_profile_def item_lppe_cp_def
  item_lppe_up_def item_aglonass_def item_emergency_pdn_def item_supl_es_def item_supl_mode_def

text \<open>An item changes its own setting and makes calls of its own; the lock is told only by its item.\<close>

fun is_lock :: "api_call \<Rightarrow> bool" where
  "is_lock (SetGpsLock l) = True"
| "is_lock _ = False"

definition item_ok :: "nat \<Rightarrow> item \<Rightarrow> bool" where
  "item_ok b f \<longleftrightarrow> (\<forall>api cfg err s. let (err1, s1) = f api cfg err s
     in conf s1 = conf_after b cfg (conf s) \<and> mPowerVoteId s1 = mPowerVoteId s \<and> collective s1 = collective s \<and> votes s1 = votes s \<and>
        (\<exists>cs. api_log s1 = cs @ api_log s \<and>
           filter is_lock cs = (if b = 0 \<and> mPowerVoteId s = 0 then [SetGpsLock (gpsLock cfg)] else [])))"

lemma items_item_ok: "list_all (\<lambda>(b, f). item_ok b f) (items resolve)"
proof -
  have 0: "item_ok 0 item_gps_lock" by (auto simp: item_ok_def conf_after.simps item_gps_lock_def call_api_def Let_def)
  have 1: "item_ok 1 item_supl_version" by (auto simp: item_ok_def conf_after.simps item_supl_version_def call_api_def Let_def)
  have 2: "item_ok 2 (item_assistance resolve)"
    by (auto simp: item_ok_def conf_after.simps item_assistance_def call_api_def Let_def split: assistance_type.split option.split)
  have 3: "item_ok 3 item_lpp_profile" by (auto simp: item_ok_def conf_after.simps item_lpp_profile_def call_api_def Let_def)
  have 4: "item_ok 4 item_lppe_cp" by (auto simp: item_ok_def conf_after.simps item_lppe_cp_def call_api_def Let_def)
  have 5: "item_ok 5 item_lppe_up" by (auto simp: item_ok_def conf_after.simps item_lppe_up_def call_api_def Let_def)
  have 6: "item_ok 6 item_aglonass" by (auto simp: item_ok_def conf_after.simps item_aglonass_def call_api_def Let_def)
  have 7: "item_ok 7 item_emergency_pdn" by (simp add: item_ok_def conf_after.simps item_emergency_pdn_def)
  have 8: "item_ok 8 item_supl_es" by (simp add: item_ok_def conf_after.simps item_supl_es_def)
  have 9: "item_ok 9 item_supl_mode" by (auto simp: item_ok_def conf_after.simps item_supl_mode_def Let_def)
  show ?thesis using 0 1 2 3 4 5 6 7 8 9 by (simp add: items_def)
qed

definition flagged :: "gnss_config \<Rightarrow> (nat \<times> item) list \<Rightarrow> nat list" where
  "flagged cfg its = filter (bit (cfg_flags cfg)) (map fst its)"

lemma items_fold:
  assumes "list_all (\<lambda>(b, f). item_ok b f) its" and "length errs + length (flagged cfg its) \<le> n"
    and "fold (do_item api cfg n) its (errs, e, s) = (errs', e', s')"
  shows "length errs' = length errs + length (flagged cfg its) \<and> conf s' = fold (\<lambda>b. conf_after b cfg) (flagged cfg its) (conf s) \<and>
    mPowerVoteId s' = mPowerVoteId s \<and> collective s' = collective s \<and> votes s' = votes s \<and>
    (\<exists>cs. api_log s' = cs @ api_log s \<and> filter is_lock cs =
      concat (map (\<lambda>b. if b = 0 \<and> mPowerVoteId s = 0 then [SetGpsLock (gpsLock cfg)] else []) (rev (flagged cfg its))))"
  using assms
proof (induction its arbitrary: errs e s)
  case Nil
  then show ?case by (simp add: flagged_def)
next
  case (Cons it its)
  obtain b f where it: "it = (b, f)" by fastforce
  show ?case
  proof (cases "bit (cfg_flags cfg) b")
    case False
    then have "do_item api cfg n it (errs, e, s) = (errs, e, s)" and fl: "flagged cfg (it # its) = flagged cfg its"
      using it by (simp_all add: do_item_def flagged_def)
    with Cons.prems(3) have "fold (do_item api cfg n) its (errs, e, s) = (errs', e', s')" by (simp only: fold_simps)
    from Cons.IH [OF _ _ this] Cons.prems(1,2) show ?thesis by (simp add: fl)
  next
    case True
    obtain err1 s1 where f: "f api cfg e s = (err1, s1)" by fastforce
    have "item_ok b f" using Cons.prems(1) it by simp
    from this [unfolded item_ok_def, rule_format, of api cfg e s] f obtain cs where
      s1: "conf s1 = conf_after b cfg (conf s)" "mPowerVoteId s1 = mPowerVoteId s" "collective s1 = collective s" "votes s1 = votes s"
        "api_log s1 = cs @ api_log s"
        "filter is_lock cs = (if b = 0 \<and> mPowerVoteId s = 0 then [SetGpsLock (gpsLock cfg)] else [])" by (auto simp: Let_def)
    have fl: "flagged cfg (it # its) = b # flagged cfg its" using True it by (simp add: flagged_def)
    have head: "do_item api cfg n it (errs, e, s) = (errs @ [err1], err1, s1)"
      using Cons.prems(2) True it f fl by (simp add: do_item_def)
    have step: "fold (do_item api cfg n) its (errs @ [err1], err1, s1) = (errs', e', s')"
      using Cons.prems(3) by (simp only: fold_simps head)
    from Cons.IH [OF _ _ step] Cons.prems(1,2) fl obtain cs' where
      "length errs' = length errs + length (flagged cfg (it # its))"
      "conf s' = fold (\<lambda>b. conf_after b cfg) (flagged cfg its) (conf s1)"
      "mPowerVoteId s' = mPowerVoteId s1" "collective s' = collective s1" "votes s' = votes s1"
      "api_log s' = cs' @ api_log s1" "filter is_lock cs' =
        concat (map (\<lambda>b. if b = 0 \<and> mPowerVoteId s1 = 0 then [SetGpsLock (gpsLock cfg)] else []) (rev (flagged cfg its)))" by auto
    with s1 fl show ?thesis by (intro conjI exI [of _ "cs' @ cs"]) (auto simp: fl)
  qed
qed

lemma flagged_items: "flagged cfg (items resolve) = filter (bit (cfg_flags cfg)) [0..<10]"
proof -
  have "map fst (items resolve) = [0, 1, 2, 3, 4, 5, 6, 7, 8, 9]" by (simp add: items_def)
  also have "\<dots> = [0..<10]" by code_simp
  finally show ?thesis by (simp add: flagged_def)
qed

lemma flagged_length: "length (flagged cfg (items resolve)) = card {n. n < 10 \<and> bit (cfg_flags cfg) n}"
  unfolding flagged_items by (subst distinct_card [symmetric]) (auto intro!: arg_cong [of _ _ card])

lemma flagged_ids: "length (flagged cfg (items resolve)) \<le> count_flags (cfg_flags cfg)"
proof -
  have "finite {n. bit (cfg_flags cfg) n}"
    by (rule finite_subset [of _ "{..<32}"]) (auto dest: bit_imp_le_length)
  then show ?thesis unfolding flagged_length count_flags_card by (rule card_mono) auto
qed

lemma count_flags_pos: "count_flags f = 0 \<longleftrightarrow> f = 0"
proof -
  have "finite {n. bit f n}"
    by (rule finite_subset [of _ "{..<32}"]) (auto dest: bit_imp_le_length)
  then have "count_flags f = 0 \<longleftrightarrow> {n. bit f n} = {}" by (simp add: count_flags_card)
  also have "\<dots> \<longleftrightarrow> f = 0" using bit_eqI [of f 0] by auto
  finally show ?thesis .
qed

text \<open>A field which one item sets keeps the value of that item.\<close>

lemma fold_field:
  assumes "\<And>b g. F (h b g) = (if b = k \<and> C g then v else F g)" and "\<And>b g. C (h b g) = C g"
  shows "F (fold h bs g) = (if k \<in> set bs \<and> C g then v else F g)"
  by (induction bs arbitrary: g) (auto simp: assms)

lemma conf_after_fields:
  "GPS_LOCK (conf_after b cfg g) = (if b = 0 \<and> True then convertGpsLock (gpsLock cfg) else GPS_LOCK g)"
  "SUPL_VER (conf_after b cfg g) = (if b = 1 \<and> AGPS_CONFIG_INJECT g then convertSuplVersion (suplVersion cfg) else SUPL_VER g)"
  "LPP_PROFILE (conf_after b cfg g) = (if b = 3 \<and> AGPS_CONFIG_INJECT g then convertLppProfile (lppProfile cfg) else LPP_PROFILE g)"
  "LPPE_CP_TECHNOLOGY (conf_after b cfg g) =
     (if b = 4 \<and> True then convertLppeCp (lppeControlPlaneMask cfg) else LPPE_CP_TECHNOLOGY g)"
  "LPPE_UP_TECHNOLOGY (conf_after b cfg g) =
     (if b = 5 \<and> True then convertLppeUp (lppeUserPlaneMask cfg) else LPPE_UP_TECHNOLOGY g)"
  "A_GLONASS_POS_PROTOCOL_SELECT (conf_after b cfg g) =
     (if b = 6 \<and> AGPS_CONFIG_INJECT g then convertAGloProt (aGlonassPositionProtocolMask cfg) else A_GLONASS_POS_PROTOCOL_SELECT g)"
  "USE_EMERGENCY_PDN_FOR_EMERGENCY_SUPL (conf_after b cfg g) =
     (if b = 7 \<and> True then convertEP4ES (emergencyPdn cfg) else USE_EMERGENCY_PDN_FOR_EMERGENCY_SUPL g)"
  "SUPL_ES (conf_after b cfg g) = (if b = 8 \<and> True then convertSuplEs (suplEmergencyServices cfg) else SUPL_ES g)"
  "SUPL_MODE (conf_after b cfg g) = (if b = 9 \<and> True then convertSuplMode (suplModeMask cfg) else SUPL_MODE g)"
  "AGPS_CONFIG_INJECT (conf_after b cfg g) = AGPS_CONFIG_INJECT g"
  "CAPABILITIES (conf_after b cfg g) = CAPABILITIES g" "NMEA_PROVIDER_MP (conf_after b cfg g) = NMEA_PROVIDER_MP g"
  "XTRA_VERSION_CHECK (conf_after b cfg g) = XTRA_VERSION_CHECK g"
  by (simp_all add: conf_after.simps)

lemma conf_after_same: "AGPS_CONFIG_INJECT (fold (\<lambda>b. conf_after b cfg) bs g) = AGPS_CONFIG_INJECT g"
  by (induction bs arbitrary: g) (simp_all add: conf_after_fields)

lemmas updated_fields =
  fold_field [of GPS_LOCK "\<lambda>b. conf_after b cfg" 0 "\<lambda>_. True" for cfg, OF conf_after_fields(1) refl]
  fold_field [of SUPL_VER "\<lambda>b. conf_after b cfg" 1 AGPS_CONFIG_INJECT for cfg, OF conf_after_fields(2) conf_after_fields(10)]
  fold_field [of LPP_PROFILE "\<lambda>b. conf_after b cfg" 3 AGPS_CONFIG_INJECT for cfg, OF conf_after_fields(3) conf_after_fields(10)]
  fold_field [of LPPE_CP_TECHNOLOGY "\<lambda>b. conf_after b cfg" 4 "\<lambda>_. True" for cfg, OF conf_after_fields(4) refl]
  fold_field [of LPPE_UP_TECHNOLOGY "\<lambda>b. conf_after b cfg" 5 "\<lambda>_. True" for cfg, OF conf_after_fields(5) refl]
  fold_field [of A_GLONASS_POS_PROTOCOL_SELECT "\<lambda>b. conf_after b cfg" 6 AGPS_CONFIG_INJECT for cfg,
    OF conf_after_fields(6) conf_after_fields(10)]
  fold_field [of USE_EMERGENCY_PDN_FOR_EMERGENCY_SUPL "\<lambda>b. conf_after b cfg" 7 "\<lambda>_. True" for cfg, OF conf_after_fields(7) refl]
  fold_field [of SUPL_ES "\<lambda>b. conf_after b cfg" 8 "\<lambda>_. True" for cfg, OF conf_after_fields(8) refl]
  fold_field [of SUPL_MODE "\<lambda>b. conf_after b cfg" 9 "\<lambda>_. True" for cfg, OF conf_after_fields(9) refl]
  conf_after_same

text \<open>A whole update, from the facts of its items.\<close>

lemma update_facts:
  assumes "cfg_flags cfg \<noteq> 0" and "length ids = count_flags (cfg_flags cfg)"
  obtains errs cs where "collective (gnssUpdateConfig api resolve cfg ids s) = collective s @ [(errs, take (length errs) ids)]"
    and "length errs = card {n. n < 10 \<and> bit (cfg_flags cfg) n}" and "length errs \<le> length ids"
    and "conf (gnssUpdateConfig api resolve cfg ids s) =
           fold (\<lambda>b. conf_after b cfg) (filter (bit (cfg_flags cfg)) [0..<10]) (conf s)"
    and "mPowerVoteId (gnssUpdateConfig api resolve cfg ids s) = mPowerVoteId s"
    and "votes (gnssUpdateConfig api resolve cfg ids s) = votes s"
    and "api_log (gnssUpdateConfig api resolve cfg ids s) = cs @ api_log s"
    and "filter is_lock cs = (if bit (cfg_flags cfg) 0 \<and> mPowerVoteId s = 0 then [SetGpsLock (gpsLock cfg)] else [])"
proof -
  let ?n = "count_flags (cfg_flags cfg)"
  obtain errs e s1 where f: "fold (do_item api cfg ?n) (items resolve) ([], LOCATION_ERROR_SUCCESS, s) = (errs, e, s1)"
    using prod_cases3 by blast
  have n: "length [] + length (flagged cfg (items resolve)) \<le> ?n" using flagged_ids by simp
  from items_fold [OF items_item_ok n f] obtain cs where
    F: "length errs = length (flagged cfg (items resolve))"
      "conf s1 = fold (\<lambda>b. conf_after b cfg) (flagged cfg (items resolve)) (conf s)"
      "mPowerVoteId s1 = mPowerVoteId s" "collective s1 = collective s" "votes s1 = votes s" "api_log s1 = cs @ api_log s"
      "filter is_lock cs =
        concat (map (\<lambda>b. if b = 0 \<and> mPowerVoteId s = 0 then [SetGpsLock (gpsLock cfg)] else []) (rev (flagged cfg (items resolve))))"
    by auto
  have lock: "concat (map (\<lambda>b. if b = 0 \<and> q then [x] else []) (rev (filter (bit (cfg_flags cfg)) [0..<10]))) =
      (if bit (cfg_flags cfg) 0 \<and> q then [x] else [])" for q and x :: api_call
  proof -
    let ?P = "bit (cfg_flags cfg)" and ?g = "\<lambda>b. if b = 0 \<and> q then [x] else []"
    have "[0..<10] = 0 # [Suc 0..<10]" by (simp add: upt_conv_Cons)
    then have split: "filter ?P [0..<10] = (if ?P 0 then [0] else []) @ filter ?P [Suc 0..<10]" by simp
    have rest: "concat (map ?g (rev (filter ?P [Suc 0..<10]))) = []" by auto
    show ?thesis by (simp only: split rev_append map_append concat_append rest) simp
  qed
  have u: "gnssUpdateConfig api resolve cfg ids s = s1\<lparr>collective := collective s1 @ [(errs, take (length errs) ids)]\<rparr>"
    using assms f by (simp add: gnssUpdateConfig_def count_flags_pos)
  show ?thesis
    by (rule that [where errs = errs and cs = cs, OF _ trans [OF F(1) flagged_length]]) (use F n assms(2) u lock in \<open>simp_all add: flagged_items flagged_length\<close>)
qed

text \<open>A setting that is there already is answered at once.\<close>

definition settled :: "nat \<Rightarrow> item \<Rightarrow> bool" where
  "settled b f \<longleftrightarrow> (\<forall>api cfg err s. conf_after b cfg (conf s) = conf s \<longrightarrow> f api cfg err s = (LOCATION_ERROR_SUCCESS, s))"

lemma settled_field:
  assumes "conf_after b cfg g = g"
  shows "b = 1 \<Longrightarrow> AGPS_CONFIG_INJECT g \<Longrightarrow> SUPL_VER g = convertSuplVersion (suplVersion cfg)"
    and "b = 3 \<Longrightarrow> AGPS_CONFIG_INJECT g \<Longrightarrow> LPP_PROFILE g = convertLppProfile (lppProfile cfg)"
    and "b = 4 \<Longrightarrow> LPPE_CP_TECHNOLOGY g = convertLppeCp (lppeControlPlaneMask cfg)"
    and "b = 5 \<Longrightarrow> LPPE_UP_TECHNOLOGY g = convertLppeUp (lppeUserPlaneMask cfg)"
    and "b = 6 \<Longrightarrow> AGPS_CONFIG_INJECT g \<Longrightarrow> A_GLONASS_POS_PROTOCOL_SELECT g = convertAGloProt (aGlonassPositionProtocolMask cfg)"
    and "b = 9 \<Longrightarrow> SUPL_MODE g = convertSuplMode (suplModeMask cfg)"
  using conf_after_fields [of b cfg g] assms by simp_all

lemma items_settled: "list_all (\<lambda>(b, f). b = 0 \<or> b = 2 \<or> settled b f) (items resolve)"
proof -
  have 1: "settled 1 item_supl_version"
    by (auto simp: settled_def item_supl_version_def Let_def dest: settled_field(1) [OF _ One_nat_def [symmetric]])
  have 3: "settled 3 item_lpp_profile"
    by (auto simp: settled_def item_lpp_profile_def Let_def dest: settled_field(2) [OF _ refl])
  have 4: "settled 4 item_lppe_cp" by (auto simp: settled_def item_lppe_cp_def Let_def dest: settled_field(3) [OF _ refl])
  have 5: "settled 5 item_lppe_up" by (auto simp: settled_def item_lppe_up_def Let_def dest: settled_field(4) [OF _ refl])
  have 6: "settled 6 item_aglonass" by (auto simp: settled_def item_aglonass_def Let_def dest: settled_field(5) [OF _ refl])
  have 7: "settled 7 item_emergency_pdn" by (simp add: settled_def item_emergency_pdn_def conf_after.simps)
  have 8: "settled 8 item_supl_es" by (simp add: settled_def item_supl_es_def conf_after.simps)
  have 9: "settled 9 item_supl_mode" by (auto simp: settled_def item_supl_mode_def Let_def dest: settled_field(6) [OF _ refl])
  show ?thesis using 1 3 4 5 6 7 8 9 by (simp add: items_def)
qed

lemma settled_fold:
  assumes "list_all (\<lambda>(b, f). b = 0 \<or> b = 2 \<or> settled b f) its" and "\<not> bit (cfg_flags cfg) 0" and "\<not> bit (cfg_flags cfg) 2"
    and "\<forall>b \<in> set (flagged cfg its). conf_after b cfg (conf s) = conf s"
    and "length errs + length (flagged cfg its) \<le> n"
  shows "\<exists>e'. fold (do_item api cfg n) its (errs, e, s) =
    (errs @ replicate (length (flagged cfg its)) LOCATION_ERROR_SUCCESS, e', s)"
  using assms
proof (induction its arbitrary: errs e)
  case Nil
  then show ?case by (simp add: flagged_def)
next
  case (Cons it its)
  obtain b f where it: "it = (b, f)" by fastforce
  show ?case
  proof (cases "bit (cfg_flags cfg) b")
    case False
    then have "do_item api cfg n it (errs, e, s) = (errs, e, s)" and fl: "flagged cfg (it # its) = flagged cfg its"
      using it by (simp_all add: do_item_def flagged_def)
    moreover have "\<exists>e'. fold (do_item api cfg n) its (errs, e, s) =
        (errs @ replicate (length (flagged cfg its)) LOCATION_ERROR_SUCCESS, e', s)"
      by (rule Cons.IH) (use Cons.prems fl in simp_all)
    ultimately show ?thesis by (simp only: fold_simps)
  next
    case True
    have fl: "flagged cfg (it # its) = b # flagged cfg its" using True it by (simp add: flagged_def)
    have "b \<noteq> 0" "b \<noteq> 2" using True Cons.prems by (auto intro: ccontr)
    then have "f api cfg e s = (LOCATION_ERROR_SUCCESS, s)" using Cons.prems(1,4) it fl by (simp add: settled_def)
    then have "do_item api cfg n it (errs, e, s) = (errs @ [LOCATION_ERROR_SUCCESS], LOCATION_ERROR_SUCCESS, s)"
      using Cons.prems(5) True it fl by (simp add: do_item_def)
    moreover have "\<exists>e'. fold (do_item api cfg n) its (errs @ [LOCATION_ERROR_SUCCESS], LOCATION_ERROR_SUCCESS, s) =
        ((errs @ [LOCATION_ERROR_SUCCESS]) @ replicate (length (flagged cfg its)) LOCATION_ERROR_SUCCESS, e', s)"
      by (rule Cons.IH) (use Cons.prems fl in simp_all)
    ultimately show ?thesis using fl by simp
  qed
qed

text \<open>Once written, a setting does not change under the same update.\<close>

lemma conf_after_written:
  assumes "b \<in> set bs"
  shows "conf_after b cfg (fold (\<lambda>b. conf_after b cfg) bs g) = fold (\<lambda>b. conf_after b cfg) bs g"
  using assms by (intro gps_conf.equality) (auto simp: conf_after_fields updated_fields)

section \<open>Properties of the configuration\<close>

text \<open>C37: an update with at least one flag ends with one answer to the client, which has one result for
each flagged item that the adapter knows and the ids given out for them. Each setting of the configuration has
the value of the update where its item is flagged (those for A-GPS only where they may be injected) and its old
value elsewhere; the power vote is not touched, and the modem's lock is set by the lock item alone, once, and
only while the client has not switched the device on.\<close>

lemma gnss_update_config:
  assumes "cfg_flags cfg \<noteq> 0" and "length ids = count_flags (cfg_flags cfg)"
  shows "let s' = gnssUpdateConfig api resolve cfg ids s; f = bit (cfg_flags cfg); g = conf s; g' = conf s'; a = AGPS_CONFIG_INJECT g in
    (\<exists>errs. collective s' = collective s @ [(errs, take (length errs) ids)] \<and>
       length errs = card {n. n < 10 \<and> f n} \<and> length errs \<le> length ids) \<and>
    GPS_LOCK g' = (if f 0 then convertGpsLock (gpsLock cfg) else GPS_LOCK g) \<and>
    SUPL_VER g' = (if f 1 \<and> a then convertSuplVersion (suplVersion cfg) else SUPL_VER g) \<and>
    LPP_PROFILE g' = (if f 3 \<and> a then convertLppProfile (lppProfile cfg) else LPP_PROFILE g) \<and>
    LPPE_CP_TECHNOLOGY g' = (if f 4 then convertLppeCp (lppeControlPlaneMask cfg) else LPPE_CP_TECHNOLOGY g) \<and>
    LPPE_UP_TECHNOLOGY g' = (if f 5 then convertLppeUp (lppeUserPlaneMask cfg) else LPPE_UP_TECHNOLOGY g) \<and>
    A_GLONASS_POS_PROTOCOL_SELECT g' =
      (if f 6 \<and> a then convertAGloProt (aGlonassPositionProtocolMask cfg) else A_GLONASS_POS_PROTOCOL_SELECT g) \<and>
    USE_EMERGENCY_PDN_FOR_EMERGENCY_SUPL g' =
      (if f 7 then convertEP4ES (emergencyPdn cfg) else USE_EMERGENCY_PDN_FOR_EMERGENCY_SUPL g) \<and>
    SUPL_ES g' = (if f 8 then convertSuplEs (suplEmergencyServices cfg) else SUPL_ES g) \<and>
    SUPL_MODE g' = (if f 9 then convertSuplMode (suplModeMask cfg) else SUPL_MODE g) \<and>
    AGPS_CONFIG_INJECT g' = a \<and> mPowerVoteId s' = mPowerVoteId s \<and> votes s' = votes s \<and>
    (\<exists>cs. api_log s' = cs @ api_log s \<and>
       filter is_lock cs = (if f 0 \<and> mPowerVoteId s = 0 then [SetGpsLock (gpsLock cfg)] else []))"
  using assms
proof (rule update_facts [where api = api and resolve = resolve and s = s])
  fix errs cs
  assume F: "collective (gnssUpdateConfig api resolve cfg ids s) = collective s @ [(errs, take (length errs) ids)]"
    "length errs = card {n. n < 10 \<and> bit (cfg_flags cfg) n}" "length errs \<le> length ids"
    "conf (gnssUpdateConfig api resolve cfg ids s) = fold (\<lambda>b. conf_after b cfg) (filter (bit (cfg_flags cfg)) [0..<10]) (conf s)"
    "mPowerVoteId (gnssUpdateConfig api resolve cfg ids s) = mPowerVoteId s"
    "votes (gnssUpdateConfig api resolve cfg ids s) = votes s"
    "api_log (gnssUpdateConfig api resolve cfg ids s) = cs @ api_log s"
    "filter is_lock cs = (if bit (cfg_flags cfg) 0 \<and> mPowerVoteId s = 0 then [SetGpsLock (gpsLock cfg)] else [])"
  have answer: "\<exists>errs'. collective s @ [(errs, take (length errs) ids)] = collective s @ [(errs', take (length errs') ids)] \<and>
      length errs' = card {n. n < 10 \<and> bit (cfg_flags cfg) n} \<and> length errs' \<le> length ids" using F(2,3) by blast
  show ?thesis unfolding Let_def F(1,4-7) using answer F(8) by (intro conjI) (simp_all add: updated_fields)
qed

definition some_conf :: gps_conf where
  "some_conf = \<lparr>GPS_LOCK = 3, SUPL_VER = 0x10000, LPP_PROFILE = 0, LPPE_CP_TECHNOLOGY = 0, LPPE_UP_TECHNOLOGY = 0,
     A_GLONASS_POS_PROTOCOL_SELECT = 0, USE_EMERGENCY_PDN_FOR_EMERGENCY_SUPL = 0, SUPL_ES = 0, SUPL_MODE = 1,
     CAPABILITIES = 7, AGPS_CONFIG_INJECT = True, NMEA_PROVIDER_MP = True, XTRA_VERSION_CHECK = 0\<rparr>"

definition some_control :: control where
  "some_control = \<lparr>conf = some_conf, mServerUrl = [], mPowerVoteId = 0, nmeaMask = 0, api_log = [], ulp_capabilities = [],
     broadcasts = 0, votes = [], lock_status = [], ctl_responses = [], collective = []\<rparr>"

definition some_update :: gnss_config where
  "some_update = \<lparr>cfg_flags = 0x818, gpsLock = GNSS_CONFIG_GPS_LOCK_MO, suplVersion = GNSS_CONFIG_SUPL_VERSION_2_0_0,
     assistance = OtherAssistance, hostName = None, port = 0, lppProfile = GNSS_CONFIG_LPP_PROFILE_USER_PLANE,
     lppeControlPlaneMask = 3, lppeUserPlaneMask = 0, aGlonassPositionProtocolMask = 0, emergencyPdn = False,
     suplEmergencyServices = False, suplModeMask = 0\<rparr>"

lemma some_update_flags:
  "cfg_flags some_update \<noteq> 0" "count_flags (cfg_flags some_update) = 3"
  "\<not> bit (cfg_flags some_update) 0" "\<not> bit (cfg_flags some_update) 2" "bit (cfg_flags some_update) 3"
  by code_simp+

theorem gnss_update_config_witness:
  "LPP_PROFILE (conf (gnssUpdateConfig (\<lambda>_. LOCATION_ERROR_SUCCESS) (\<lambda>_. None) some_update [5, 6, 7] some_control)) = 1"
  using gnss_update_config [of some_update "[5, 6, 7]" "\<lambda>_. LOCATION_ERROR_SUCCESS" "\<lambda>_. None" some_control]
  unfolding Let_def by (simp add: some_update_flags) (simp add: some_update_def some_control_def some_conf_def)

text \<open>C38: an update that is sent a second time, without the lock and the server, reaches the modem in no call
and changes nothing: each of its items is answered with success, whatever the modem answered the first time.
A setting that the modem refused counts as set.\<close>

lemma gnss_update_repeated:
  assumes "cfg_flags cfg \<noteq> 0" and "\<not> bit (cfg_flags cfg) 0" and "\<not> bit (cfg_flags cfg) 2"
    and "length ids = count_flags (cfg_flags cfg)" and "length ids' = count_flags (cfg_flags cfg)"
  shows "let s1 = gnssUpdateConfig api resolve cfg ids s; s2 = gnssUpdateConfig api resolve cfg ids' s1;
             n = card {n. n < 10 \<and> bit (cfg_flags cfg) n} in
    api_log s2 = api_log s1 \<and> conf s2 = conf s1 \<and>
    collective s2 = collective s1 @ [(replicate n LOCATION_ERROR_SUCCESS, take n ids')]"
proof -
  let ?s = "gnssUpdateConfig api resolve cfg ids s" and ?n = "count_flags (cfg_flags cfg)"
  have "conf ?s = fold (\<lambda>b. conf_after b cfg) (flagged cfg (items resolve)) (conf s)"
    using update_facts [OF assms(1,4)] unfolding flagged_items by metis
  then have "\<forall>b \<in> set (flagged cfg (items resolve)). conf_after b cfg (conf ?s) = conf ?s" by (simp add: conf_after_written)
  from settled_fold [OF items_settled assms(2,3) this, of "[]" ?n api LOCATION_ERROR_SUCCESS] flagged_ids
  obtain e' where "fold (do_item api cfg ?n) (items resolve) ([], LOCATION_ERROR_SUCCESS, ?s) =
    (replicate (length (flagged cfg (items resolve))) LOCATION_ERROR_SUCCESS, e', ?s)" by auto
  then have "gnssUpdateConfig api resolve cfg ids' ?s = ?s\<lparr>collective := collective ?s @
      [(replicate (length (flagged cfg (items resolve))) LOCATION_ERROR_SUCCESS, take (length (flagged cfg (items resolve))) ids')]\<rparr>"
    using assms(1) by (simp add: gnssUpdateConfig_def [of api resolve cfg ids' ?s] count_flags_pos)
  then show ?thesis by (simp add: flagged_length)
qed

theorem gnss_update_repeated_witness:
  "api_log (gnssUpdateConfig (\<lambda>_. LOCATION_ERROR_GENERAL_FAILURE) (\<lambda>_. None) some_update [8, 9, 10]
     (gnssUpdateConfig (\<lambda>_. LOCATION_ERROR_GENERAL_FAILURE) (\<lambda>_. None) some_update [5, 6, 7] some_control)) =
   api_log (gnssUpdateConfig (\<lambda>_. LOCATION_ERROR_GENERAL_FAILURE) (\<lambda>_. None) some_update [5, 6, 7] some_control)"
  using gnss_update_repeated [of some_update "[5, 6, 7]" "[8, 9, 10]" "\<lambda>_. LOCATION_ERROR_GENERAL_FAILURE" "\<lambda>_. None" some_control]
  unfolding Let_def by (simp add: some_update_flags)

text \<open>The first answer was a failure, the second is success, and the modem was asked once.\<close>

lemma gnss_refused_setting_counts_as_set:
  "let api = \<lambda>_. LOCATION_ERROR_GENERAL_FAILURE; cfg = some_update\<lparr>cfg_flags := 8\<rparr>;
       s1 = gnssUpdateConfig api (\<lambda>_. None) cfg [5] some_control; s2 = gnssUpdateConfig api (\<lambda>_. None) cfg [6] s1
   in collective s2 = [([LOCATION_ERROR_GENERAL_FAILURE], [5]), ([LOCATION_ERROR_SUCCESS], [6])] \<and>
      api_log s2 = [SetLPPConfig GNSS_CONFIG_LPP_PROFILE_USER_PLANE]"
  by code_simp

text \<open>What a modem that comes up is told, as a list of calls.\<close>

lemma low_mask: "(if bit m 0 then 2 ^ 0 else 0) OR (if bit m 1 then 2 ^ 1 else 0) OR (if bit m 2 then 2 ^ 2 else 0) OR
    (if bit m 3 then 2 ^ 3 else (0 :: u32)) = ucast (m AND 15 :: u16)"
  (is "?l = ?r")
proof (rule bit_eqI)
  fix n
  have "bit ?r n \<longleftrightarrow> bit m n \<and> n < 4" unfolding bit_ucast_iff bit_and_iff bit_15 by auto
  then show "bit ?l n \<longleftrightarrow> bit ?r n" unfolding low_bits32 low4 [symmetric]
    by (cases "n = 0"; cases "n = 1"; cases "n = 2"; cases "n = 3"; simp)
qed

lemma aglonass_roundtrip [simp]: "ucast (convertAGloProt m) = m AND 15"
  unfolding convertAGloProt_def low_mask by (rule bit_eqI) (auto simp: bit_ucast_iff bit_and_iff bit_15)

lemma setConfig_calls:
  obtains cs where "api_log (setConfig api sap debug s) = cs @ api_log s" and "filter is_lock cs = []"
    and "conf (setConfig api sap debug s) = conf s" and "mPowerVoteId (setConfig api sap debug s) = mPowerVoteId s"
    and "votes (setConfig api sap debug s) = votes s"
    and "AGPS_CONFIG_INJECT (conf s) \<Longrightarrow> {SetSUPLVersion (supl_version_of (SUPL_VER (conf s))),
           SetLPPConfig (lpp_profile_of (LPP_PROFILE (conf s))),
           SetAGLONASSProtocol (ucast (A_GLONASS_POS_PROTOCOL_SELECT (conf s)))} \<subseteq> set cs"
    and "{SetLPPeProtocolCp (lppe_cp_of (LPPE_CP_TECHNOLOGY (conf s))),
          SetLPPeProtocolUp (lppe_up_of (LPPE_UP_TECHNOLOGY (conf s)))} \<subseteq> set cs"
proof -
  let ?s = "setConfig api sap debug s"
  have "\<exists>cs. api_log ?s = cs @ api_log s \<and> filter is_lock cs = [] \<and>
      (AGPS_CONFIG_INJECT (conf s) \<longrightarrow> {SetSUPLVersion (supl_version_of (SUPL_VER (conf s))),
           SetLPPConfig (lpp_profile_of (LPP_PROFILE (conf s))),
           SetAGLONASSProtocol (ucast (A_GLONASS_POS_PROTOCOL_SELECT (conf s)))} \<subseteq> set cs) \<and>
      {SetLPPeProtocolCp (lppe_cp_of (LPPE_CP_TECHNOLOGY (conf s))),
       SetLPPeProtocolUp (lppe_up_of (LPPE_UP_TECHNOLOGY (conf s)))} \<subseteq> set cs"
    by (auto simp: setConfig_def call_api_def Let_def)
  moreover have "conf ?s = conf s" "mPowerVoteId ?s = mPowerVoteId s" "votes ?s = votes s"
    by (simp_all add: setConfig_def call_api_def Let_def)
  ultimately show ?thesis using that by blast
qed

text \<open>C39: what an update has set is what a modem that comes up afterwards is told: the versions and profiles
come back through the numbers of the configuration as they were given, the masks with the four bits that have
a meaning. The lock is not told again.\<close>

lemma gnss_modem_told_again:
  assumes "cfg_flags cfg \<noteq> 0" and "length ids = count_flags (cfg_flags cfg)"
  shows "let s1 = gnssUpdateConfig api resolve cfg ids s; s2 = setConfig api sap debug s1;
             f = bit (cfg_flags cfg); a = AGPS_CONFIG_INJECT (conf s) in
    conf s2 = conf s1 \<and>
    (\<exists>cs. api_log s2 = cs @ api_log s1 \<and> filter is_lock cs = [] \<and>
      (f 1 \<and> a \<longrightarrow> SetSUPLVersion (suplVersion cfg) \<in> set cs) \<and>
      (f 3 \<and> a \<longrightarrow> SetLPPConfig (lppProfile cfg) \<in> set cs) \<and>
      (f 4 \<longrightarrow> SetLPPeProtocolCp (lppeControlPlaneMask cfg AND 15) \<in> set cs) \<and>
      (f 5 \<longrightarrow> SetLPPeProtocolUp (lppeUserPlaneMask cfg AND 15) \<in> set cs) \<and>
      (f 6 \<and> a \<longrightarrow> SetAGLONASSProtocol (aGlonassPositionProtocolMask cfg AND 15) \<in> set cs))"
proof -
  let ?s = "gnssUpdateConfig api resolve cfg ids s"
  have c: "conf ?s = fold (\<lambda>b. conf_after b cfg) (filter (bit (cfg_flags cfg)) [0..<10]) (conf s)"
    using update_facts [OF assms] by metis
  obtain cs where cs: "api_log (setConfig api sap debug ?s) = cs @ api_log ?s" "filter is_lock cs = []"
      "conf (setConfig api sap debug ?s) = conf ?s"
    and told: "AGPS_CONFIG_INJECT (conf ?s) \<Longrightarrow> {SetSUPLVersion (supl_version_of (SUPL_VER (conf ?s))),
           SetLPPConfig (lpp_profile_of (LPP_PROFILE (conf ?s))),
           SetAGLONASSProtocol (ucast (A_GLONASS_POS_PROTOCOL_SELECT (conf ?s)))} \<subseteq> set cs"
      "{SetLPPeProtocolCp (lppe_cp_of (LPPE_CP_TECHNOLOGY (conf ?s))),
        SetLPPeProtocolUp (lppe_up_of (LPPE_UP_TECHNOLOGY (conf ?s)))} \<subseteq> set cs"
    by (rule setConfig_calls [of api sap debug ?s]; blast)
  have "(bit (cfg_flags cfg) 1 \<and> AGPS_CONFIG_INJECT (conf s) \<longrightarrow> SetSUPLVersion (suplVersion cfg) \<in> set cs) \<and>
      (bit (cfg_flags cfg) 3 \<and> AGPS_CONFIG_INJECT (conf s) \<longrightarrow> SetLPPConfig (lppProfile cfg) \<in> set cs) \<and>
      (bit (cfg_flags cfg) 6 \<and> AGPS_CONFIG_INJECT (conf s) \<longrightarrow>
         SetAGLONASSProtocol (aGlonassPositionProtocolMask cfg AND 15) \<in> set cs)"
    using told(1) unfolding c by (auto simp: updated_fields)
  moreover have "(bit (cfg_flags cfg) 4 \<longrightarrow> SetLPPeProtocolCp (lppeControlPlaneMask cfg AND 15) \<in> set cs) \<and>
      (bit (cfg_flags cfg) 5 \<longrightarrow> SetLPPeProtocolUp (lppeUserPlaneMask cfg AND 15) \<in> set cs)"
    using told(2) unfolding c by (auto simp: updated_fields)
  ultimately show ?thesis unfolding Let_def using cs by blast
qed

definition some_sap :: sap_conf where
  "some_sap = \<lparr>SENSOR_USAGE = 0, SENSOR_PROVIDER = 1, random_walks = [], sensor_perf = []\<rparr>"

theorem gnss_modem_told_again_witness:
  "SetLPPConfig GNSS_CONFIG_LPP_PROFILE_USER_PLANE \<in> set (api_log (setConfig (\<lambda>_. LOCATION_ERROR_SUCCESS) some_sap False
     (gnssUpdateConfig (\<lambda>_. LOCATION_ERROR_SUCCESS) (\<lambda>_. None) some_update [5, 6, 7] some_control)))"
proof -
  have "length [5, 6, 7 :: u32] = count_flags (cfg_flags some_update)" by (simp add: some_update_flags)
  from gnss_modem_told_again [OF some_update_flags(1) this, of "\<lambda>_. LOCATION_ERROR_SUCCESS" "\<lambda>_. None" some_control some_sap False]
  show ?thesis unfolding Let_def using some_update_flags(5)
    by (auto simp: some_control_def some_conf_def some_update_def)
qed

section \<open>The control client\<close>

datatype ctl_act = Update gnss_config "u32 list" | EngineUp bool | Enable u32 bool | Disable u32

fun ctl_step :: "modem \<Rightarrow> (string option \<Rightarrow> u32 option) \<Rightarrow> sap_conf \<Rightarrow> ctl_act \<Rightarrow> control \<Rightarrow> control" where
  "ctl_step api resolve sap (Update cfg ids) s = gnssUpdateConfig api resolve cfg ids s"
| "ctl_step api resolve sap (EngineUp debug) s = setConfig api sap debug s"
| "ctl_step api resolve sap (Enable i gnss) s = enable_gnss api i gnss s"
| "ctl_step api resolve sap (Disable i) s = disable_gnss api i s"

text \<open>The ids that the adapter gives out are not 0, and the client hands back one of them.\<close>

fun proper_act :: "ctl_act \<Rightarrow> bool" where
  "proper_act (Update cfg ids) = (length ids = count_flags (cfg_flags cfg))"
| "proper_act (EngineUp debug) = True"
| "proper_act (Enable i gnss) = (i \<noteq> 0)"
| "proper_act (Disable i) = (i \<noteq> 0)"

definition lock_in_force :: "control \<Rightarrow> gps_lock" where
  "lock_in_force s = (if mPowerVoteId s \<noteq> 0 then GNSS_CONFIG_GPS_LOCK_NONE else gps_lock_of (GPS_LOCK (conf s)))"

definition vote_ok :: "control \<Rightarrow> bool" where
  "vote_ok s \<longleftrightarrow> votes s = map even [0..<length (votes s)] \<and> (mPowerVoteId s \<noteq> 0 \<longleftrightarrow> odd (length (votes s))) \<and>
     (case filter is_lock (api_log s) of [] \<Rightarrow> votes s = [] | c # _ \<Rightarrow> c = SetGpsLock (lock_in_force s))"

lemma vote_ok_step:
  assumes "vote_ok s" and "proper_act a"
  shows "vote_ok (ctl_step api resolve sap a s)"
proof (cases a)
  case (Update cfg ids)
  show ?thesis
  proof (cases "cfg_flags cfg = 0")
    case True
    then show ?thesis using assms Update by (simp add: gnssUpdateConfig_def count_flags_pos)
  next
    case False
    have n: "length ids = count_flags (cfg_flags cfg)" using assms(2) Update by simp
    show ?thesis
    proof (rule update_facts [OF False n, of api resolve s])
      fix errs cs
      assume "conf (gnssUpdateConfig api resolve cfg ids s) =
          fold (\<lambda>b. conf_after b cfg) (filter (bit (cfg_flags cfg)) [0..<10]) (conf s)"
        "mPowerVoteId (gnssUpdateConfig api resolve cfg ids s) = mPowerVoteId s"
        "votes (gnssUpdateConfig api resolve cfg ids s) = votes s"
        "api_log (gnssUpdateConfig api resolve cfg ids s) = cs @ api_log s"
        "filter is_lock cs = (if bit (cfg_flags cfg) 0 \<and> mPowerVoteId s = 0 then [SetGpsLock (gpsLock cfg)] else [])"
      then show ?thesis using assms(1) Update
        by (auto simp: vote_ok_def lock_in_force_def updated_fields split: list.splits)
    qed
  qed
next
  case (EngineUp debug)
  obtain cs where "api_log (setConfig api sap debug s) = cs @ api_log s" "filter is_lock cs = []"
      "conf (setConfig api sap debug s) = conf s" "mPowerVoteId (setConfig api sap debug s) = mPowerVoteId s"
      "votes (setConfig api sap debug s) = votes s"
    by (rule setConfig_calls [of api sap debug s]; blast)
  then show ?thesis using assms(1) EngineUp by (simp add: vote_ok_def lock_in_force_def split: list.splits)
next
  case (Enable i gnss)
  then show ?thesis using assms by (auto simp: vote_ok_def lock_in_force_def enable_gnss_def call_api_def Let_def word_gt_0 split: list.splits)
next
  case (Disable i)
  then show ?thesis using assms by (auto simp: vote_ok_def lock_in_force_def disable_gnss_def call_api_def Let_def split: list.splits)
qed

lemma vote_ok_run: "vote_ok s \<Longrightarrow> \<forall>a \<in> set acts. proper_act a \<Longrightarrow> vote_ok (fold (ctl_step api resolve sap) acts s)"
  by (induction acts arbitrary: s) (auto intro: vote_ok_step)

text \<open>C40: through any sequence of updates, modem restarts and requests to switch the device on and off, the
votes for the modem's power alternate and start with a vote for it; the device is on exactly after an odd number
of them; and the lock the modem was told last is none while it is on and the configured one while it is off.\<close>

lemma gnss_power_votes:
  assumes "mPowerVoteId s = 0" and "votes s = []" and "api_log s = []" and "\<forall>a \<in> set acts. proper_act a"
  shows "let s' = fold (ctl_step api resolve sap) acts s in
    votes s' = map even [0..<length (votes s')] \<and> (mPowerVoteId s' \<noteq> 0 \<longleftrightarrow> odd (length (votes s'))) \<and>
    (case filter is_lock (api_log s') of [] \<Rightarrow> votes s' = []
     | c # _ \<Rightarrow> c = SetGpsLock (if mPowerVoteId s' \<noteq> 0 then GNSS_CONFIG_GPS_LOCK_NONE else gps_lock_of (GPS_LOCK (conf s'))))"
proof -
  have "vote_ok s" using assms(1-3) by (simp add: vote_ok_def)
  from vote_ok_run [OF this assms(4)] show ?thesis unfolding Let_def vote_ok_def lock_in_force_def .
qed

theorem gnss_power_votes_witness:
  "let s' = fold (ctl_step (\<lambda>_. LOCATION_ERROR_SUCCESS) (\<lambda>_. None) some_sap) [Enable 4 True, Update some_update [5, 6, 7], Disable 4] some_control
   in votes s' = map even [0..<length (votes s')]"
  using gnss_power_votes [of some_control "[Enable 4 True, Update some_update [5, 6, 7], Disable 4]"
      "\<lambda>_. LOCATION_ERROR_SUCCESS" "\<lambda>_. None" some_sap]
  by (simp add: some_control_def some_update_flags Let_def)

text \<open>The id 0, which stands for no vote, is taken for the id of the one who switched the device on.\<close>

lemma gnss_disable_of_nothing:
  "mPowerVoteId s = 0 \<Longrightarrow> votes (disable_gnss api 0 s) = votes s @ [False] \<and>
     ctl_responses (disable_gnss api 0 s) = ctl_responses s @ [(LOCATION_ERROR_SUCCESS, 0)]"
  by (simp add: disable_gnss_def call_api_def Let_def)

end
