(* ===== verification/Spec2Isabelle.thy ===== *)
theory Spec2Isabelle
  imports LocTimer Agps IpaNatCache OsObserver EventLoop OffloadHal Neighbor MsgTask LocThread GnssNi GnssConfig
begin

text \<open>
  The device tree of a phone with two native programs of its own: the IPA connection manager
  (\<open>data-ipa-cfg-mgr\<close>), which moves tethered traffic to a packet accelerator, and the location stack
  (\<open>gps\<close>). The theories model the parts of both that keep state and decide something; each says in its
  first lines which files it translates, and a definition has the name of the function it models where
  that is possible. State is a record that is passed along, C++ objects that are shared live in a memory
  of addresses, an error is a value, and \<open>None\<close> as the result of an operation is a fault of the code: a
  NULL or freed pointer followed, an array left, or a loop that does not end.

  The IPA connection manager. The kernel reports connections, interfaces and neighbours; the framework
  asks for upstreams and downstreams.
    \<^item> \<open>EventQueue\<close>: the queues of events and the list of listeners (\<open>IPACM_CmdQueue.cpp\<close>,
      \<open>IPACM_EvtDispatcher.cpp\<close>) on linked nodes. \<open>EventLoop\<close>: they refine lists, a round calls each
      listener once and in order, and a listener that deletes itself can leave a freed node to be followed.
    \<^item> \<open>Neighbor\<close>: the cache of clients (\<open>IPACM_Neighbor.cpp\<close>) is a map from MAC addresses, and feeds
      \<open>CtListener\<close> and \<open>CtFlow\<close>: the connection tracking listener (\<open>IPACM_ConntrackListener.cpp\<close>), which
      turns messages on connections into entries of the NAT application.
    \<^item> \<open>NatCache\<close>: that application (\<open>IPACM_Conntrack_NATApp.cpp\<close>), a cache of connections of which the
      enabled ones are in the hardware table; a locale states what it needs of the driver.
    \<^item> \<open>IpaNatBits\<close>, \<open>IpaNat\<close>, \<open>IpaNatChains\<close>, \<open>IpaNatTable\<close>, \<open>IpaNatAdd\<close>, \<open>IpaNatDelete\<close>, \<open>IpaNatRules\<close>:
      the driver library (\<open>ipanat/src/ipa_nat_drv.c\<close>, \<open>ipa_nat_drvi.c\<close>) with its arithmetic, the two
      hash tables with expansion entries bit by bit, and the refinement to a map from handles to rules.
      \<open>IpaNatCache\<close> interprets the locale of the cache on this driver: what was assumed there holds here.
    \<^item> \<open>OffloadPrefix\<close>, \<open>OffloadHal\<close>: the tethering HAL (\<open>hal/src\<close>), from strings to requests, and
      \<open>OffloadManager\<close>, which serves them (\<open>IPACM_OffloadManager.cpp\<close>) and posts route events; \<open>NatIfaces\<close> is
      the list of NAT interfaces of \<open>IPACM_Config.cpp\<close> both sides consult.

  The location stack. Its adapters run on message tasks.
    \<^item> \<open>LinkedList\<close>, \<open>MsgQueue\<close>, \<open>MsgTask\<close>, \<open>LocThread\<close>: \<open>gps/utils\<close>, the list, the queue with the
      threads that wait on it, the task that takes messages from it, and the thread that runs a task.
    \<^item> \<open>LocHeap\<close>, \<open>LocTimer\<close>: the heap of timers and the timer service on top of it, with the messages
      between the threads of the client, the poll and the callbacks interleaved in any order.
    \<^item> \<open>Agps\<close>: the state machines of assisted GPS and their manager; a history of requests and reports.
    \<^item> \<open>StdAlgo\<close>, \<open>DataItemIndexes\<close>, \<open>OsObserver\<close>: subscriptions to data items of the system, with the
      algorithms of the C++ library on lists that may not be sorted.
    \<^item> \<open>GnssTracking\<close>, \<open>GnssNi\<close>, \<open>GnssConfig\<close>: the adapter of the location clients (\<open>GnssAdapter.cpp\<close>,
      \<open>LocAdapterBase.cpp\<close>). The first has the clients and the one fix their sessions share, the second the
      requests of the network with a thread and a lock each, step by step, the third the configuration that
      the framework updates and a modem is told again, and the power vote.

  What the lemmas of a theory show, in this order: an invariant of the state and that every operation
  keeps it; what each operation does on every branch; a specification on lists or maps and that the
  operations refine it; then the properties, each about any history of operations, and what goes wrong
  where the code does not do what it means to. The \<open>Prelude\<close> has what they share: arrays searched for a
  slot, loops over indexes, and the locale of a component that handles events.

  Bounds and fuel. Arrays have the sizes of the code. Counters and addresses of the hardware are words
  of their width. A walk along the listeners gets as fuel the number of nodes ever allocated, a walk along
  the chains of the NAT driver the size of the expansion table, and the search for a place in the event
  cache of the offload manager ten rounds, its size; in each case a lemma shows that the walk ends before.
  The loops of the linked list are partial functions, and the refinement shows that they end. The thread
  needs no bound until it is stopped; then ten of its steps are enough. Histories of the GNSS adapter are
  shorter than 4294967293, so that the counter of session ids has not come round.

  Parameters. What the kernel, the NAT hardware, the modem, the framework, the timers of the system and
  the allocator answer is an argument of each step, so the properties hold for every answer. Named
  hypotheses are the laws of the driver in \<open>NatCache\<close>, which \<open>IpaNatCache\<close> discharges, and in
  \<open>IpaNatTable\<close> that the kernel writes the 16 bits a DMA command names. What the ULP proxy and the modem
  answer the GNSS adapter is a function of all calls made so far. Callbacks of the timer and of the
  event loop may call back into the service. Messages of libnetfilter_conntrack are records of the
  attributes the code reads, and \<open>inet_pton\<close> for IPv6 is a function the prefix parser is given.

  Not modelled. In the connection manager: the installation of filter and route rules for each interface
  (\<open>IPACM_Wan.cpp\<close>, \<open>IPACM_Lan.cpp\<close>, \<open>IPACM_Wlan.cpp\<close>, \<open>IPACM_LanToLan.cpp\<close>, \<open>IPACM_Iface.cpp\<close>,
  \<open>IPACM_IfaceManager.cpp\<close>) and the wrappers of the driver calls they end in (\<open>IPACM_Filtering.cpp\<close>,
  \<open>IPACM_Routing.cpp\<close>, \<open>IPACM_Header.cpp\<close>); the reading of netlink sockets, of conntrack sockets, of the XML
  configuration and the start of the program. In the location stack: the reports of positions,
  satellites and measurements in \<open>GnssAdapter.cpp\<close>, its debug report and its AGPS commands, the
  client interfaces above it, the interface to the modem below it, the parsing of status sentences,
  NMEA output (printing of floating point numbers), configuration files and logging. The HALs for
  lights, audio amplifier and clock pulses, the Java settings, the boot and update helpers are thin
  calls of the system. Overlays, policies and configuration data are not programs.
\<close>

end
